(* ===== verification/Prelude.thy ===== *)
theory Prelude
  imports Main "HOL-Library.Word" "HOL-Library.Multiset" "HOL-Library.Monad_Syntax"
begin

text \<open>
  What every component of the network stack shares.

  The sources are Vitis HLS C++: every component is a function that the hardware calls once
  per clock cycle.  Its \<open>static\<close> variables survive from one call to the next, and it talks
  to the other components through \<open>hls::stream\<close> FIFOs only.  The model is the same for all
  of them:

  \<^item> a component is one record that holds its static variables and the streams it is connected
    to, and one function on that record per C++ function: one call, one clock cycle;
  \<^item> an \<open>hls::stream\<close> is the list of its elements, the next one to read first; \<open>empty()\<close> is
    the test for \<open>[]\<close>, \<open>read()\<close> takes the head and \<open>write(x)\<close> appends.  \<open>full()\<close> depends
    on the depth the tool gives the FIFO and is an input of the cycle;
  \<^item> an \<open>ap_uint<w>\<close> is a \<open>w word\<close>, a one-bit flag a \<open>bool\<close>;
  \<^item> an array is a list.  An access outside the array is undefined behaviour in C++: it makes
    the whole call \<open>None\<close> (\<open>tget\<close>, \<open>tset\<close>).  A theorem that a call returns \<open>Some\<close> is
    the theorem that no access leaves its array.
\<close>

section \<open>Types\<close>

type_synonym u2 = "2 word"
type_synonym u3 = "3 word"
type_synonym u4 = "4 word"
type_synonym u8 = "8 word"
type_synonym u12 = "12 word"
type_synonym u14 = "14 word"
type_synonym u15 = "15 word"
type_synonym u16 = "16 word"
type_synonym u18 = "18 word"
type_synonym u23 = "23 word"
type_synonym u24 = "24 word"
type_synonym u30 = "30 word"
type_synonym u32 = "32 word"
type_synonym u48 = "48 word"
type_synonym u64 = "64 word"
type_synonym 'a fifo = "'a list"

named_theorems table_simps \<open>reads and writes of the arrays\<close>
named_theorems step_defs \<open>the functions that make up one clock cycle\<close>

unbundle bit_operations_syntax

section \<open>Arrays with bounds\<close>

definition tget :: "'a list \<Rightarrow> 'i::len word \<Rightarrow> 'a option" where
  "tget t i = (if unat i < length t then Some (t ! unat i) else None)"

definition tset :: "'a list \<Rightarrow> 'i::len word \<Rightarrow> 'a \<Rightarrow> 'a list option" where
  "tset t i x = (if unat i < length t then Some (t[unat i := x]) else None)"

lemma tget_Some_iff [table_simps]:
  "tget t i = Some x \<longleftrightarrow> unat i < length t \<and> x = t ! unat i"
  by (auto simp: tget_def)

lemma tset_Some_iff [table_simps]:
  "tset t i x = Some t' \<longleftrightarrow> unat i < length t \<and> t' = t[unat i := x]"
  by (auto simp: tset_def)

lemma tget_in [simp]: "unat i < length t \<Longrightarrow> tget t i = Some (t ! unat i)"
  by (simp add: tget_def)

lemma tset_in [simp]: "unat i < length t \<Longrightarrow> tset t i x = Some (t[unat i := x])"
  by (simp add: tset_def)

lemma tget_None_iff [table_simps]: "tget t i = None \<longleftrightarrow> length t \<le> unat i"
  by (auto simp: tget_def)

lemma tset_None_iff [table_simps]: "tset t i x = None \<longleftrightarrow> length t \<le> unat i"
  by (auto simp: tset_def)

lemma unat_eq_unat_iff [simp]: "unat i = unat j \<longleftrightarrow> i = j"
  by (simp flip: word_eq_iff_unsigned)

lemma unat_less: "unat w < 2 ^ LENGTH('a)" for w :: "'a::len word"
  by (rule unsigned_less)

lemma unat_of_nat_eq: "k < 2 ^ LENGTH('a) \<Longrightarrow> unat (of_nat k :: 'a::len word) = k"
  by (simp add: unsigned_of_nat take_bit_nat_eq_self)

lemma unat_minus_of_nat: "j \<le> unat w \<Longrightarrow> unat (w - of_nat j) = unat w - j"
  for w :: "'a::len word"
proof -
  assume j: "j \<le> unat w"
  then have u: "unat (of_nat j :: 'a word) = j"
    using unat_less [of w] by (intro unat_of_nat_eq) linarith
  with j have "of_nat j \<le> w" by (simp add: word_le_nat_alt)
  with u show ?thesis by (simp add: unat_sub)
qed

lemma unat_dec: "w \<noteq> 0 \<Longrightarrow> unat (w - 1) = unat w - 1" for w :: "'a::len word"
  using unat_minus_of_nat [of 1 w] by (simp add: unat_gt_0 Suc_le_eq)

lemma unat_not: "unat (NOT w) = 2 ^ LENGTH('a) - 1 - unat w" for w :: "'a::len word"
proof -
  have "NOT w = -1 - w" by (simp add: not_eq_complement)
  moreover have "unat (-1 - w) = unat (-1 :: 'a word) - unat w" by (rule unat_sub) simp
  ultimately show ?thesis by (simp add: unsigned_minus_1_eq_mask mask_eq_exp_minus_1)
qed

lemma tget_tset: "tset t i x = Some t' \<Longrightarrow>
    tget t' j = (if i = j then Some x else tget t j)"
  by (auto simp: tset_Some_iff tget_def nth_list_update)

section \<open>Bit ranges of \<open>ap_uint\<close> values\<close>

text \<open>
  \<open>x(hi, lo)\<close> as a value is \<open>bits hi lo x\<close>; the assignment \<open>x(hi, lo) = v\<close> is
  \<open>put_bits hi lo v x\<close>, which keeps the other bits of \<open>x\<close>.
\<close>

definition bits :: "nat \<Rightarrow> nat \<Rightarrow> 'a::len word \<Rightarrow> 'b::len word" where
  "bits hi lo x = ucast (take_bit (hi + 1 - lo) (drop_bit lo x))"

definition put_bits :: "nat \<Rightarrow> nat \<Rightarrow> 'b::len word \<Rightarrow> 'a::len word \<Rightarrow> 'a word" where
  "put_bits hi lo v x =
     (x AND NOT (push_bit lo (mask (hi + 1 - lo)))) OR
     push_bit lo (take_bit (hi + 1 - lo) (ucast v))"

lemma bit_put_bits:
  fixes x :: "'a::len word" and v :: "'b::len word"
  shows "bit (put_bits hi lo v x) n \<longleftrightarrow>
     n < LENGTH('a) \<and> (if lo \<le> n \<and> n \<le> hi then bit v (n - lo) else bit x n)"
  by (auto simp: put_bits_def bit_simps not_less)

lemma bit_bits:
  fixes x :: "'a::len word"
  shows "bit (bits hi lo x :: 'b::len word) n \<longleftrightarrow> n < LENGTH('b) \<and> lo + n \<le> hi \<and> bit x (lo + n)"
  by (auto simp: bits_def bit_simps dest: bit_imp_le_length)

lemma bits_put_bits:
  fixes v :: "'b::len word" and x :: "'a::len word"
  assumes "LENGTH('b) = hi + 1 - lo" and "hi < LENGTH('a)" and "lo \<le> hi"
  shows "bits hi lo (put_bits hi lo v x) = v"
  using assms by (intro bit_word_eqI) (auto simp: bit_bits bit_put_bits)

lemma bits_put_bits_other:
  assumes "hi' < lo \<or> hi < lo'"
  shows "bits hi' lo' (put_bits hi lo v x) = bits hi' lo' x"
  using assms by (intro bit_word_eqI) (auto simp: bit_bits bit_put_bits dest: bit_imp_le_length)

text \<open>\<open>reverse\<close> of \<open>axi_utils.hpp\<close>: the bytes of a value in the opposite order.\<close>

definition reverse16 :: "u16 \<Rightarrow> u16" where
  "reverse16 w = put_bits 15 8 (bits 7 0 w :: u8) (put_bits 7 0 (bits 15 8 w :: u8) 0)"

definition reverse32 :: "u32 \<Rightarrow> u32" where
  "reverse32 w =
     put_bits 31 24 (bits 7 0 w :: u8)
      (put_bits 23 16 (bits 15 8 w :: u8)
        (put_bits 15 8 (bits 23 16 w :: u8)
          (put_bits 7 0 (bits 31 24 w :: u8) 0)))"

lemma bit_reverse16:
  "bit (reverse16 w) n \<longleftrightarrow> n < 16 \<and> bit w (if n < 8 then n + 8 else n - 8)"
  by (auto simp: reverse16_def bit_put_bits bit_bits add.commute)

lemma reverse16_reverse16 [simp]: "reverse16 (reverse16 w) = w"
  by (intro bit_word_eqI) (auto simp: bit_reverse16)

lemma bit_reverse32:
  "bit (reverse32 w) n \<longleftrightarrow> n < 32 \<and> bit w (8 * (3 - n div 8) + n mod 8)"
proof (cases "n < 32")
  case True
  then consider "n div 8 = 0" | "n div 8 = 1" | "n div 8 = 2" | "n div 8 = 3" by linarith
  then show ?thesis
    using True by cases (auto simp: reverse32_def bit_put_bits bit_bits mod_if div_if algebra_simps
        split: if_splits)
next
  case False
  then show ?thesis by (auto simp: reverse32_def bit_put_bits)
qed

section \<open>Merging two streams\<close>

text \<open>
  \<open>stream_merger\<close> of \<open>axi_utils.hpp\<close> (and \<open>timerCloseMerger\<close> of \<open>toe.cpp\<close>, which is the same
  code at type \<open>ap_uint<16>\<close>): one element per cycle, the first stream first.
\<close>

definition stream_merger :: "'a fifo \<times> 'a fifo \<times> 'a fifo \<Rightarrow> 'a fifo \<times> 'a fifo \<times> 'a fifo" where
  "stream_merger s = (case s of (in1, in2, out) \<Rightarrow>
     (case in1 of x # rest \<Rightarrow> (rest, in2, out @ [x])
      | [] \<Rightarrow> (case in2 of x # rest \<Rightarrow> (in1, rest, out @ [x]) | [] \<Rightarrow> (in1, in2, out))))"

lemma stream_merger_run:
  "(stream_merger ^^ length a) (a, b, out) = ([], b, out @ a)"
  "(stream_merger ^^ length b) ([], b, out) = ([], [], out @ b)"
proof -
  show "(stream_merger ^^ length a) (a, b, out) = ([], b, out @ a)"
    by (induction a arbitrary: out) (simp_all add: stream_merger_def funpow_Suc_right del: funpow.simps(2))
  show "(stream_merger ^^ length b) ([], b, out) = ([], [], out @ b)"
    by (induction b arbitrary: out)
      (simp_all add: stream_merger_def funpow_Suc_right del: funpow.simps(2))
qed

section \<open>Clocked components\<close>

text \<open>
  The contract every component's proof rests on.  Between two calls the environment may do
  what \<open>env\<close> allows (write to the input streams, read from the output streams); a call is
  \<open>cyc\<close>, which takes the inputs of the cycle \<open>'i\<close> (the \<open>full()\<close> flags).  The provider shows that an invariant survives both and that
  it keeps every array access in bounds; the client gets both for every reachable state.
\<close>

locale clocked =
  fixes inv :: "'s \<Rightarrow> bool" and env :: "'s \<Rightarrow> 's \<Rightarrow> bool" and cyc :: "'i \<Rightarrow> 's \<Rightarrow> 's option"
  assumes env_inv: "inv s \<Longrightarrow> env s t \<Longrightarrow> inv t"
    and cyc_safe: "inv s \<Longrightarrow> \<exists>t. cyc i s = Some t"
    and cyc_inv: "inv s \<Longrightarrow> cyc i s = Some t \<Longrightarrow> inv t"

inductive reach :: "('s \<Rightarrow> 's \<Rightarrow> bool) \<Rightarrow> ('i \<Rightarrow> 's \<Rightarrow> 's option) \<Rightarrow> 's \<Rightarrow> 's \<Rightarrow> bool"
  for env cyc s0 where
  reach_init: "reach env cyc s0 s0"
| reach_env: "reach env cyc s0 s \<Longrightarrow> env s t \<Longrightarrow> reach env cyc s0 t"
| reach_cyc: "reach env cyc s0 s \<Longrightarrow> cyc i s = Some t \<Longrightarrow> reach env cyc s0 t"

context clocked begin

lemma reach_inv: "reach env cyc s0 s \<Longrightarrow> inv s0 \<Longrightarrow> inv s"
  by (induction rule: reach.induct) (auto intro: env_inv cyc_inv)

lemma reach_safe: "reach env cyc s0 s \<Longrightarrow> inv s0 \<Longrightarrow> \<exists>t. cyc i s = Some t"
  by (blast intro: reach_inv cyc_safe)

lemma reach_next: "reach env cyc s0 s \<Longrightarrow> inv s0 \<Longrightarrow> reach env cyc s0 (the (cyc i s))"
  using reach_safe [of s0 s i] by (auto intro: reach_cyc)

end

end
