(* ===== verification/Toe_Internals.thy ===== *)
theory Toe_Internals
  imports Prelude
begin

text \<open>
  The types of the TCP offload engine (\<open>toe.hpp\<close>, \<open>toe_internals.hpp\<close>): its states,
  events, the requests and replies its modules exchange, and the timer constants.

  The build configuration is the default of \<open>toe/CMakeLists.txt\<close>: \<open>TCP_NODELAY\<close>,
  \<open>WINDOW_SCALE\<close>, \<open>RX_DDR_BYPASS\<close> and \<open>FAST_RETRANSMIT\<close> are 1, so
  \<open>WINDOW_BITS\<close> is 18.  \<open>MAX_SESSIONS\<close> is the length of the per-session tables and stays a
  parameter.  A constructor that leaves members uninitialised takes the indeterminate object
  \<open>u\<close> as an argument and overwrites the members it sets.
\<close>

section \<open>Constants\<close>

abbreviation WINDOW_BITS :: nat where "WINDOW_BITS \<equiv> 18"

definition BUFFER_SIZE :: nat where "BUFFER_SIZE = 2 ^ WINDOW_BITS"

lemma BUFFER_SIZE_eq: "BUFFER_SIZE = 262144"
  by (simp add: BUFFER_SIZE_def)

text \<open>
  The intervals, in sweeps over the session tables.  \<open>sim_times\<close> are the values of C
  simulation; \<open>synth_times\<close> the synthesised ones, \<open>us / 0.0064 / MAX_SESSIONS + 1\<close>
  truncated.
\<close>

record toe_times =
  TIME_64us :: u32
  TIME_50ms :: u32
  TIME_1s :: u32
  TIME_5s :: u32
  TIME_10s :: u32
  TIME_15s :: u32
  TIME_30s :: u32
  TIME_60s :: u32

definition sim_times :: toe_times where
  "sim_times = \<lparr>TIME_64us = 1, TIME_50ms = 1, TIME_1s = 1, TIME_5s = 1, TIME_10s = 3,
     TIME_15s = 4, TIME_30s = 6, TIME_60s = 60\<rparr>"

definition synth_time :: "nat \<Rightarrow> nat \<Rightarrow> u32" where
  "synth_time us max_sessions = of_nat (us * 625 div (4 * max_sessions) + 1)"

definition synth_times :: "nat \<Rightarrow> toe_times" where
  "synth_times n = \<lparr>TIME_64us = synth_time 64 n, TIME_50ms = synth_time 50000 n,
     TIME_1s = synth_time 1000000 n, TIME_5s = synth_time 5000000 n,
     TIME_10s = synth_time 10000000 n, TIME_15s = synth_time 15000000 n,
     TIME_30s = synth_time 30000000 n, TIME_60s = synth_time 60000000 n\<rparr>"

section \<open>Events and connection states\<close>

datatype eventType = TX | RT | ACK | SYN | SYN_ACK | FIN | RST | ACK_NODELAY

datatype sessionState =
    CLOSED | SYN_SENT | SYN_RECEIVED | ESTABLISHED | FIN_WAIT_1 | FIN_WAIT_2 | CLOSING
  | TIME_WAIT | LAST_ACK

record fourTuple =
  srcIp :: u32
  dstIp :: u32
  srcPort :: u16
  dstPort :: u16

record event =
  ev_type :: eventType
  ev_sessionID :: u16
  ev_address :: u18
  ev_length :: u16
  ev_rt_count :: u3

definition event_simple :: "eventType \<Rightarrow> u16 \<Rightarrow> event" where
  "event_simple ty i =
     \<lparr>ev_type = ty, ev_sessionID = i, ev_address = 0, ev_length = 0, ev_rt_count = 0\<rparr>"

definition event_rt :: "eventType \<Rightarrow> u16 \<Rightarrow> u3 \<Rightarrow> event" where
  "event_rt ty i rt =
     \<lparr>ev_type = ty, ev_sessionID = i, ev_address = 0, ev_length = 0, ev_rt_count = rt\<rparr>"

definition event_tx :: "eventType \<Rightarrow> u16 \<Rightarrow> u18 \<Rightarrow> u16 \<Rightarrow> event" where
  "event_tx ty i addr len =
     \<lparr>ev_type = ty, ev_sessionID = i, ev_address = addr, ev_length = len, ev_rt_count = 0\<rparr>"

record extendedEvent = event +
  ev_tuple :: fourTuple

definition extendedEvent_of :: "fourTuple \<Rightarrow> event \<Rightarrow> extendedEvent" where
  "extendedEvent_of u e =
     \<lparr>ev_type = ev_type e, ev_sessionID = ev_sessionID e, ev_address = ev_address e,
      ev_length = ev_length e, ev_rt_count = ev_rt_count e, ev_tuple = u\<rparr>"

section \<open>Reset events\<close>

text \<open>A reset carries its sequence number in the address and length fields.\<close>

definition rstEvent :: "u16 \<Rightarrow> u32 \<Rightarrow> bool \<Rightarrow> event" where
  "rstEvent i seq has_id =
     \<lparr>ev_type = RST, ev_sessionID = i, ev_address = bits 31 16 seq, ev_length = bits 15 0 seq,
      ev_rt_count = (if has_id then 1 else 0)\<rparr>"

definition rst_getAckNumb :: "u32 \<Rightarrow> event \<Rightarrow> u32" where
  "rst_getAckNumb u e = put_bits 15 0 (ev_length e) (put_bits 31 16 (ev_address e) u)"

definition rst_hasSessionID :: "event \<Rightarrow> bool" where
  "rst_hasSessionID e \<longleftrightarrow> ev_rt_count e \<noteq> 0"

section \<open>Session lookup\<close>

record sessionLookupQuery =
  slq_tuple :: fourTuple
  slq_allowCreation :: bool

record sessionLookupReply =
  slr_sessionID :: u16
  slr_hit :: bool

section \<open>State table queries\<close>

record stateQuery =
  sq_sessionID :: u16
  sq_state :: sessionState
  sq_write :: bool

definition stateQuery_read :: "u16 \<Rightarrow> stateQuery" where
  "stateQuery_read i = \<lparr>sq_sessionID = i, sq_state = CLOSED, sq_write = False\<rparr>"

definition stateQuery_write :: "u16 \<Rightarrow> sessionState \<Rightarrow> stateQuery" where
  "stateQuery_write i s = \<lparr>sq_sessionID = i, sq_state = s, sq_write = True\<rparr>"

section \<open>Receive window\<close>

record rxSarEntry =
  rse_recvd :: u32
  rse_appd :: u18
  rse_win_shift :: u4
  rse_head :: u32
  rse_offset :: u32
  rse_gap :: bool

record rxSarReply =
  rsr_recvd :: u32
  rsr_win_shift :: u4
  rsr_windowSize :: u16
  rsr_usedLength :: u18

record rxSarRecvd =
  rsv_sessionID :: u16
  rsv_recvd :: u32
  rsv_win_shift :: u4
  rsv_write :: bool
  rsv_init :: bool
  rsv_head :: u32
  rsv_offset :: u32
  rsv_gap :: bool

definition rxSarRecvd_read :: "rxSarRecvd \<Rightarrow> u16 \<Rightarrow> rxSarRecvd" where
  "rxSarRecvd_read u i =
     u\<lparr>rsv_sessionID := i, rsv_recvd := 0, rsv_write := False, rsv_init := False\<rparr>"

definition rxSarRecvd_upd ::
  "rxSarRecvd \<Rightarrow> u16 \<Rightarrow> u32 \<Rightarrow> u32 \<Rightarrow> u32 \<Rightarrow> bool \<Rightarrow> rxSarRecvd" where
  "rxSarRecvd_upd u i recvd head offset gap =
     u\<lparr>rsv_sessionID := i, rsv_recvd := recvd, rsv_head := head, rsv_offset := offset,
       rsv_gap := gap, rsv_write := True, rsv_init := False\<rparr>"

definition rxSarRecvd_init ::
  "u16 \<Rightarrow> u32 \<Rightarrow> u32 \<Rightarrow> u32 \<Rightarrow> bool \<Rightarrow> u4 \<Rightarrow> rxSarRecvd" where
  "rxSarRecvd_init i recvd head offset gap ws =
     \<lparr>rsv_sessionID = i, rsv_recvd = recvd, rsv_win_shift = ws, rsv_write = True,
      rsv_init = True, rsv_head = head, rsv_offset = offset, rsv_gap = gap\<rparr>"

record rxSarAppd =
  rsa_sessionID :: u16
  rsa_appd :: u18
  rsa_write :: bool

definition rxSarAppd_read :: "u16 \<Rightarrow> rxSarAppd" where
  "rxSarAppd_read i = \<lparr>rsa_sessionID = i, rsa_appd = 0, rsa_write = False\<rparr>"

definition rxSarAppd_write :: "u16 \<Rightarrow> u18 \<Rightarrow> rxSarAppd" where
  "rxSarAppd_write i a = \<lparr>rsa_sessionID = i, rsa_appd = a, rsa_write = True\<rparr>"

section \<open>Transmit window\<close>

record txSarEntry =
  tse_ackd :: u32
  tse_not_ackd :: u32
  tse_recv_window :: u16
  tse_win_shift :: u4
  tse_cong_window :: u18
  tse_slowstart_threshold :: u18
  tse_app :: u18
  tse_count :: u2
  tse_fastRetransmitted :: bool
  tse_finReady :: bool
  tse_finSent :: bool

record rxTxSarQuery =
  rtq_sessionID :: u16
  rtq_ackd :: u32
  rtq_recv_window :: u16
  rtq_cong_window :: u18
  rtq_count :: u2
  rtq_fastRetransmitted :: bool
  rtq_win_shift :: u4
  rtq_write :: bool
  rtq_init :: bool

record txTxSarQuery =
  ttq_sessionID :: u16
  ttq_not_ackd :: u32
  ttq_write :: bool
  ttq_init :: bool
  ttq_finReady :: bool
  ttq_finSent :: bool
  ttq_isRtQuery :: bool

definition txTxSarRtQuery :: "u16 \<Rightarrow> u18 \<Rightarrow> txTxSarQuery" where
  "txTxSarRtQuery i ssthresh =
     \<lparr>ttq_sessionID = i, ttq_not_ackd = ucast ssthresh, ttq_write = True, ttq_init = False,
      ttq_finReady = False, ttq_finSent = False, ttq_isRtQuery = True\<rparr>"

definition rtq_getThreshold :: "txTxSarQuery \<Rightarrow> u18" where
  "rtq_getThreshold q = bits (WINDOW_BITS - 1) 0 (ttq_not_ackd q)"

record txAppTxSarQuery =
  taq_sessionID :: u16
  taq_mempt :: u18
  taq_write :: bool

definition txAppTxSarQuery_read :: "u16 \<Rightarrow> txAppTxSarQuery" where
  "txAppTxSarQuery_read i = \<lparr>taq_sessionID = i, taq_mempt = 0, taq_write = False\<rparr>"

definition txAppTxSarQuery_write :: "u16 \<Rightarrow> u18 \<Rightarrow> txAppTxSarQuery" where
  "txAppTxSarQuery_write i pt = \<lparr>taq_sessionID = i, taq_mempt = pt, taq_write = True\<rparr>"

record rxTxSarReply =
  rtr_prevAck :: u32
  rtr_nextByte :: u32
  rtr_cong_window :: u18
  rtr_slowstart_threshold :: u18
  rtr_count :: u2
  rtr_fastRetransmitted :: bool

record txAppTxSarReply =
  tar_sessionID :: u16
  tar_ackd :: u18
  tar_mempt :: u18
  tar_min_window :: u18

record txAppTxSarPush =
  tap_sessionID :: u16
  tap_app :: u18

record txSarAckPush =
  sap_sessionID :: u16
  sap_ackd :: u18
  sap_min_window :: u18
  sap_init :: bool

record txTxSarReply =
  ttr_ackd :: u32
  ttr_not_ackd :: u32
  ttr_usableWindow :: u18
  ttr_app :: u18
  ttr_usedLength :: u18
  ttr_finReady :: bool
  ttr_finSent :: bool
  ttr_win_shift :: u4

section \<open>Timers\<close>

record rxRetransmitTimerUpdate =
  rru_sessionID :: u16
  rru_stop :: bool

record txRetransmitTimerSet =
  trs_sessionID :: u16
  trs_type :: eventType

section \<open>Application interface\<close>

record ipTuple =
  ip_address :: u32
  ip_port :: u16

record mmCmd =
  mm_bbt :: u23
  mm_type :: bool
  mm_dsa :: "6 word"
  mm_eof :: bool
  mm_drr :: bool
  mm_saddr :: u32
  mm_tag :: u4
  mm_rsvd :: u4

definition mmCmd_mk :: "u32 \<Rightarrow> u16 \<Rightarrow> mmCmd" where
  "mmCmd_mk addr len =
     \<lparr>mm_bbt = ucast len, mm_type = True, mm_dsa = 0, mm_eof = True, mm_drr = True,
      mm_saddr = addr, mm_tag = 0, mm_rsvd = 0\<rparr>"

record mmStatus =
  ms_tag :: u4
  ms_interr :: bool
  ms_decerr :: bool
  ms_slverr :: bool
  ms_okay :: bool

record openStatus =
  os_sessionID :: u16
  os_success :: u8
  os_ip :: u32
  os_port :: u16

definition openStatus_mk :: "u16 \<Rightarrow> u8 \<Rightarrow> openStatus" where
  "openStatus_mk i ok = \<lparr>os_sessionID = i, os_success = ok, os_ip = 0, os_port = 0\<rparr>"

record appNotification =
  an_sessionID :: u16
  an_length :: u16
  an_ipAddress :: u32
  an_dstPort :: u16
  an_closed :: bool

definition appNotification_closed :: "u16 \<Rightarrow> bool \<Rightarrow> appNotification" where
  "appNotification_closed i c =
     \<lparr>an_sessionID = i, an_length = 0, an_ipAddress = 0, an_dstPort = 0, an_closed = c\<rparr>"

record appReadRequest =
  arr_sessionID :: u16
  arr_length :: u16

record appTxMeta =
  atm_sessionID :: u16
  atm_length :: u16

record appTxRsp =
  atr_sessionID :: u16
  atr_length :: u16
  atr_remaining_space :: u30
  atr_error :: u2

section \<open>Properties\<close>

lemma bits_getThreshold: "rtq_getThreshold (txTxSarRtQuery i t) = t"
  by (intro bit_word_eqI)
    (auto simp: rtq_getThreshold_def txTxSarRtQuery_def bit_bits bit_simps)

lemma rst_roundtrip: "rst_getAckNumb u (rstEvent i seq h) = seq"
  by (intro bit_word_eqI) (auto simp: rst_getAckNumb_def rstEvent_def bit_put_bits bit_bits)

lemma rst_hasSessionID_rstEvent [simp]: "rst_hasSessionID (rstEvent i seq h) = h"
  by (simp add: rst_hasSessionID_def rstEvent_def)

end
