(* ===== verification/State_Table.thy ===== *)
theory State_Table
  imports Toe_Internals
begin

text \<open>
  \<open>state_table/state_table.cpp\<close>: the TCP state of every session.  The receive engine and the
  transmit application interface read an entry, decide, and write it back; a read locks the
  session for its reader until its next write, and a request of the other side (or of the close
  timer) on a locked session is kept in a register and served once the lock is gone.
\<close>

section \<open>State\<close>

record state_table_st =
  stt_table :: "sessionState list"
  stt_txSessionID :: u16
  stt_rxSessionID :: u16
  stt_rxSessionLocked :: bool
  stt_txSessionLocked :: bool
  stt_txAccess :: stateQuery
  stt_rxAccess :: stateQuery
  stt_txWait :: bool
  stt_rxWait :: bool
  stt_closeSessionID :: u16
  stt_closeWait :: bool
  rxEng2stateTable_upd_req :: "stateQuery fifo"
  txApp2stateTable_upd_req :: "stateQuery fifo"
  txApp2stateTable_req :: "u16 fifo"
  timer2stateTable_releaseState :: "u16 fifo"
  stateTable2rxEng_upd_rsp :: "sessionState fifo"
  stateTable2TxApp_upd_rsp :: "sessionState fifo"
  stateTable2txApp_rsp :: "sessionState fifo"
  stateTable2sLookup_releaseSession :: "u16 fifo"

section \<open>Operations\<close>

text \<open>A transmit access that is not held back (the code has it twice).\<close>

definition stt_tx_exec :: "state_table_st \<Rightarrow> state_table_st option" where
  "stt_tx_exec s = (let q = stt_txAccess s in
     if sq_write q then do {
       t \<leftarrow> tset (stt_table s) (sq_sessionID q) (sq_state q);
       Some (s\<lparr>stt_table := t, stt_txSessionLocked := False\<rparr>)
     } else do {
       v \<leftarrow> tget (stt_table s) (sq_sessionID q);
       Some (s\<lparr>stateTable2TxApp_upd_rsp := stateTable2TxApp_upd_rsp s @ [v],
               stt_txSessionID := sq_sessionID q, stt_txSessionLocked := True\<rparr>)
     })"

text \<open>A receive access that is not held back: a write of CLOSED also releases the session.\<close>

definition stt_rx_exec :: "state_table_st \<Rightarrow> state_table_st option" where
  "stt_rx_exec s = (let q = stt_rxAccess s in
     if sq_write q then do {
       let s = (if sq_state q = CLOSED
                then s\<lparr>stateTable2sLookup_releaseSession :=
                         stateTable2sLookup_releaseSession s @ [sq_sessionID q]\<rparr>
                else s);
       t \<leftarrow> tset (stt_table s) (sq_sessionID q) (sq_state q);
       Some (s\<lparr>stt_table := t, stt_rxSessionLocked := False\<rparr>)
     } else do {
       v \<leftarrow> tget (stt_table s) (sq_sessionID q);
       Some (s\<lparr>stateTable2rxEng_upd_rsp := stateTable2rxEng_upd_rsp s @ [v],
               stt_rxSessionID := sq_sessionID q, stt_rxSessionLocked := True\<rparr>)
     })"

definition stt_close_exec :: "state_table_st \<Rightarrow> state_table_st option" where
  "stt_close_exec s = do {
     t \<leftarrow> tset (stt_table s) (stt_closeSessionID s) CLOSED;
     Some (s\<lparr>stt_table := t,
             stateTable2sLookup_releaseSession :=
               stateTable2sLookup_releaseSession s @ [stt_closeSessionID s]\<rparr>)
   }"

definition rx_holds :: "state_table_st \<Rightarrow> u16 \<Rightarrow> bool" where
  "rx_holds s k \<longleftrightarrow> k = stt_rxSessionID s \<and> stt_rxSessionLocked s"

definition tx_holds :: "state_table_st \<Rightarrow> u16 \<Rightarrow> bool" where
  "tx_holds s k \<longleftrightarrow> k = stt_txSessionID s \<and> stt_txSessionLocked s"

text \<open>The first half of the chain: new requests, in the code's order of priority.\<close>

definition stt_tx_request :: "state_table_st \<Rightarrow> state_table_st option" where
  "stt_tx_request s =
     (let s = s\<lparr>stt_txAccess := hd (txApp2stateTable_upd_req s),
                txApp2stateTable_upd_req := tl (txApp2stateTable_upd_req s)\<rparr>
      in if rx_holds s (sq_sessionID (stt_txAccess s)) then Some (s\<lparr>stt_txWait := True\<rparr>)
         else stt_tx_exec s)"

definition stt_txapp_read :: "state_table_st \<Rightarrow> state_table_st option" where
  "stt_txapp_read s = do {
     v \<leftarrow> tget (stt_table s) (hd (txApp2stateTable_req s));
     Some (s\<lparr>txApp2stateTable_req := tl (txApp2stateTable_req s),
             stateTable2txApp_rsp := stateTable2txApp_rsp s @ [v]\<rparr>)
   }"

definition stt_rx_request :: "state_table_st \<Rightarrow> state_table_st option" where
  "stt_rx_request s =
     (let s = s\<lparr>stt_rxAccess := hd (rxEng2stateTable_upd_req s),
                rxEng2stateTable_upd_req := tl (rxEng2stateTable_upd_req s)\<rparr>
      in if tx_holds s (sq_sessionID (stt_rxAccess s)) then Some (s\<lparr>stt_rxWait := True\<rparr>)
         else stt_rx_exec s)"

definition stt_close_request :: "state_table_st \<Rightarrow> state_table_st option" where
  "stt_close_request s =
     (let s = s\<lparr>stt_closeSessionID := hd (timer2stateTable_releaseState s),
                timer2stateTable_releaseState := tl (timer2stateTable_releaseState s)\<rparr>
      in if rx_holds s (stt_closeSessionID s) \<or> tx_holds s (stt_closeSessionID s)
         then Some (s\<lparr>stt_closeWait := True\<rparr>)
         else stt_close_exec s)"

text \<open>One cycle.  The held-back accesses come last, behind every new request.\<close>

definition state_table :: "state_table_st \<Rightarrow> state_table_st option" where
  "state_table s =
    (if txApp2stateTable_upd_req s \<noteq> [] \<and> \<not> stt_txWait s then stt_tx_request s
     else if txApp2stateTable_req s \<noteq> [] then stt_txapp_read s
     else if rxEng2stateTable_upd_req s \<noteq> [] \<and> \<not> stt_rxWait s then stt_rx_request s
     else if timer2stateTable_releaseState s \<noteq> [] \<and> \<not> stt_closeWait s then stt_close_request s
     else if stt_txWait s then
       if \<not> rx_holds s (sq_sessionID (stt_txAccess s))
       then map_option (stt_txWait_update (\<lambda>_. False)) (stt_tx_exec s)
       else Some s
     else if stt_rxWait s then
       if \<not> tx_holds s (sq_sessionID (stt_rxAccess s))
       then map_option (stt_rxWait_update (\<lambda>_. False)) (stt_rx_exec s)
       else Some s
     else if stt_closeWait s then
       if \<not> rx_holds s (stt_closeSessionID s) \<and> \<not> tx_holds s (stt_closeSessionID s)
       then map_option (stt_closeWait_update (\<lambda>_. False)) (stt_close_exec s)
       else Some s
     else Some s)"

lemmas stt_request_defs =
  stt_tx_request_def stt_txapp_read_def stt_rx_request_def stt_close_request_def

lemmas stt_exec_defs = stt_tx_exec_def stt_rx_exec_def stt_close_exec_def

section \<open>The invariant\<close>

definition stt_ids_ok :: "nat \<Rightarrow> state_table_st \<Rightarrow> bool" where
  "stt_ids_ok n s \<longleftrightarrow> length (stt_table s) = n
     \<and> (\<forall>q\<in>set (txApp2stateTable_upd_req s). unat (sq_sessionID q) < n)
     \<and> (\<forall>k\<in>set (txApp2stateTable_req s). unat k < n)
     \<and> (\<forall>q\<in>set (rxEng2stateTable_upd_req s). unat (sq_sessionID q) < n)
     \<and> (\<forall>k\<in>set (timer2stateTable_releaseState s). unat k < n)
     \<and> (stt_txWait s \<longrightarrow> unat (sq_sessionID (stt_txAccess s)) < n)
     \<and> (stt_rxWait s \<longrightarrow> unat (sq_sessionID (stt_rxAccess s)) < n)
     \<and> (stt_closeWait s \<longrightarrow> unat (stt_closeSessionID s) < n)"

definition stt_exclusive :: "state_table_st \<Rightarrow> bool" where
  "stt_exclusive s \<longleftrightarrow> \<not> (\<exists>k. rx_holds s k \<and> tx_holds s k)"

definition stt_inv :: "nat \<Rightarrow> state_table_st \<Rightarrow> bool" where
  "stt_inv n s \<longleftrightarrow> stt_ids_ok n s \<and> stt_exclusive s"

text \<open>Between two cycles: the clients append requests and take replies.\<close>

definition stt_env :: "nat \<Rightarrow> state_table_st \<Rightarrow> state_table_st \<Rightarrow> bool" where
  "stt_env n s t \<longleftrightarrow> (\<exists>a b c d o1 o2 o3 o4.
     (\<forall>q\<in>set a \<union> set c. unat (sq_sessionID q) < n) \<and> (\<forall>k\<in>set b \<union> set d. unat k < n) \<and>
     t = s\<lparr>txApp2stateTable_upd_req := txApp2stateTable_upd_req s @ a,
           txApp2stateTable_req := txApp2stateTable_req s @ b,
           rxEng2stateTable_upd_req := rxEng2stateTable_upd_req s @ c,
           timer2stateTable_releaseState := timer2stateTable_releaseState s @ d,
           stateTable2rxEng_upd_rsp := o1, stateTable2TxApp_upd_rsp := o2,
           stateTable2txApp_rsp := o3, stateTable2sLookup_releaseSession := o4\<rparr>)"

lemma stt_env_inv: "stt_inv n s \<Longrightarrow> stt_env n s t \<Longrightarrow> stt_inv n t"
  unfolding stt_env_def stt_inv_def stt_ids_ok_def stt_exclusive_def rx_holds_def tx_holds_def
  by (elim exE conjE) (simp add: ball_Un)

text \<open>Closed forms of the three accesses.\<close>

lemma stt_tx_exec_Some: "stt_tx_exec s = Some t \<longleftrightarrow>
    (let q = stt_txAccess s; k = unat (sq_sessionID q) in k < length (stt_table s) \<and>
     t = (if sq_write q
          then s\<lparr>stt_table := (stt_table s)[k := sq_state q], stt_txSessionLocked := False\<rparr>
          else s\<lparr>stateTable2TxApp_upd_rsp := stateTable2TxApp_upd_rsp s @ [stt_table s ! k],
                 stt_txSessionID := sq_sessionID q, stt_txSessionLocked := True\<rparr>))"
  by (auto simp: stt_tx_exec_def Let_def table_simps bind_eq_Some_conv)

lemma stt_rx_exec_Some: "stt_rx_exec s = Some t \<longleftrightarrow>
    (let q = stt_rxAccess s; k = unat (sq_sessionID q) in k < length (stt_table s) \<and>
     t = (if sq_write q
          then s\<lparr>stt_table := (stt_table s)[k := sq_state q], stt_rxSessionLocked := False,
                 stateTable2sLookup_releaseSession := stateTable2sLookup_releaseSession s @
                   (if sq_state q = CLOSED then [sq_sessionID q] else [])\<rparr>
          else s\<lparr>stateTable2rxEng_upd_rsp := stateTable2rxEng_upd_rsp s @ [stt_table s ! k],
                 stt_rxSessionID := sq_sessionID q, stt_rxSessionLocked := True\<rparr>))"
  by (auto simp: stt_rx_exec_def Let_def table_simps bind_eq_Some_conv)

lemma stt_close_exec_Some: "stt_close_exec s = Some t \<longleftrightarrow>
    unat (stt_closeSessionID s) < length (stt_table s) \<and>
    t = s\<lparr>stt_table := (stt_table s)[unat (stt_closeSessionID s) := CLOSED],
          stateTable2sLookup_releaseSession :=
            stateTable2sLookup_releaseSession s @ [stt_closeSessionID s]\<rparr>"
  by (auto simp: stt_close_exec_def table_simps bind_eq_Some_conv)

lemma stt_txapp_read_Some: "txApp2stateTable_req s = k # ks \<Longrightarrow> stt_txapp_read s = Some t \<longleftrightarrow>
    unat k < length (stt_table s) \<and>
    t = s\<lparr>txApp2stateTable_req := ks,
          stateTable2txApp_rsp := stateTable2txApp_rsp s @ [stt_table s ! unat k]\<rparr>"
  by (auto simp: stt_txapp_read_def table_simps bind_eq_Some_conv)

lemmas stt_exec_Some = stt_tx_exec_Some stt_rx_exec_Some stt_close_exec_Some

text \<open>
  Every cycle is one of eleven steps: a new request executed or held back, a held-back access
  executed, or nothing.  \<open>stt_take_tx\<close> and its siblings are the state after the request has
  been read.
\<close>

definition stt_take_tx :: "stateQuery \<Rightarrow> stateQuery list \<Rightarrow> state_table_st \<Rightarrow> state_table_st" where
  "stt_take_tx q qs s = s\<lparr>stt_txAccess := q, txApp2stateTable_upd_req := qs\<rparr>"

definition stt_take_rx :: "stateQuery \<Rightarrow> stateQuery list \<Rightarrow> state_table_st \<Rightarrow> state_table_st" where
  "stt_take_rx q qs s = s\<lparr>stt_rxAccess := q, rxEng2stateTable_upd_req := qs\<rparr>"

definition stt_take_close :: "u16 \<Rightarrow> u16 list \<Rightarrow> state_table_st \<Rightarrow> state_table_st" where
  "stt_take_close k ks s = s\<lparr>stt_closeSessionID := k, timer2stateTable_releaseState := ks\<rparr>"

lemmas stt_take_defs = stt_take_tx_def stt_take_rx_def stt_take_close_def

inductive stt_step :: "state_table_st \<Rightarrow> state_table_st \<Rightarrow> bool" where
  tx_hold: "txApp2stateTable_upd_req s = q # qs \<Longrightarrow> \<not> stt_txWait s \<Longrightarrow>
    rx_holds s (sq_sessionID q) \<Longrightarrow> stt_step s ((stt_take_tx q qs s)\<lparr>stt_txWait := True\<rparr>)"
| tx_now: "txApp2stateTable_upd_req s = q # qs \<Longrightarrow> \<not> stt_txWait s \<Longrightarrow>
    \<not> rx_holds s (sq_sessionID q) \<Longrightarrow> stt_tx_exec (stt_take_tx q qs s) = Some t \<Longrightarrow> stt_step s t"
| txapp: "txApp2stateTable_req s = k # ks \<Longrightarrow> stt_txapp_read s = Some t \<Longrightarrow> stt_step s t"
| rx_hold: "rxEng2stateTable_upd_req s = q # qs \<Longrightarrow> \<not> stt_rxWait s \<Longrightarrow>
    tx_holds s (sq_sessionID q) \<Longrightarrow> stt_step s ((stt_take_rx q qs s)\<lparr>stt_rxWait := True\<rparr>)"
| rx_now: "rxEng2stateTable_upd_req s = q # qs \<Longrightarrow> \<not> stt_rxWait s \<Longrightarrow>
    \<not> tx_holds s (sq_sessionID q) \<Longrightarrow> stt_rx_exec (stt_take_rx q qs s) = Some t \<Longrightarrow> stt_step s t"
| close_hold: "timer2stateTable_releaseState s = k # ks \<Longrightarrow> \<not> stt_closeWait s \<Longrightarrow>
    rx_holds s k \<or> tx_holds s k \<Longrightarrow>
    stt_step s ((stt_take_close k ks s)\<lparr>stt_closeWait := True\<rparr>)"
| close_now: "timer2stateTable_releaseState s = k # ks \<Longrightarrow> \<not> stt_closeWait s \<Longrightarrow>
    \<not> rx_holds s k \<Longrightarrow> \<not> tx_holds s k \<Longrightarrow>
    stt_close_exec (stt_take_close k ks s) = Some t \<Longrightarrow> stt_step s t"
| tx_late: "stt_txWait s \<Longrightarrow> \<not> rx_holds s (sq_sessionID (stt_txAccess s)) \<Longrightarrow>
    stt_tx_exec s = Some u \<Longrightarrow> stt_step s (u\<lparr>stt_txWait := False\<rparr>)"
| rx_late: "stt_rxWait s \<Longrightarrow> \<not> tx_holds s (sq_sessionID (stt_rxAccess s)) \<Longrightarrow>
    stt_rx_exec s = Some u \<Longrightarrow> stt_step s (u\<lparr>stt_rxWait := False\<rparr>)"
| close_late: "stt_closeWait s \<Longrightarrow> \<not> rx_holds s (stt_closeSessionID s) \<Longrightarrow>
    \<not> tx_holds s (stt_closeSessionID s) \<Longrightarrow> stt_close_exec s = Some u \<Longrightarrow>
    stt_step s (u\<lparr>stt_closeWait := False\<rparr>)"
| idle: "stt_step s s"

lemma stt_tx_request_step:
  "stt_tx_request s = Some t \<Longrightarrow> txApp2stateTable_upd_req s \<noteq> [] \<Longrightarrow> \<not> stt_txWait s \<Longrightarrow> stt_step s t"
  by (cases "txApp2stateTable_upd_req s")
    (auto simp: stt_tx_request_def Let_def stt_take_tx_def rx_holds_def split: if_splits
      intro: tx_hold[unfolded stt_take_tx_def rx_holds_def]
        tx_now[unfolded stt_take_tx_def rx_holds_def])

lemma stt_rx_request_step:
  "stt_rx_request s = Some t \<Longrightarrow> rxEng2stateTable_upd_req s \<noteq> [] \<Longrightarrow> \<not> stt_rxWait s \<Longrightarrow> stt_step s t"
  by (cases "rxEng2stateTable_upd_req s")
    (auto simp: stt_rx_request_def Let_def stt_take_rx_def tx_holds_def split: if_splits
      intro: rx_hold[unfolded stt_take_rx_def tx_holds_def]
        rx_now[unfolded stt_take_rx_def tx_holds_def])

lemma stt_close_request_step:
  "stt_close_request s = Some t \<Longrightarrow> timer2stateTable_releaseState s \<noteq> [] \<Longrightarrow> \<not> stt_closeWait s \<Longrightarrow>
   stt_step s t"
  by (cases "timer2stateTable_releaseState s")
    (auto simp: stt_close_request_def Let_def stt_take_close_def tx_holds_def rx_holds_def
      split: if_splits intro: close_hold[unfolded stt_take_close_def tx_holds_def rx_holds_def]
        close_now[unfolded stt_take_close_def tx_holds_def rx_holds_def])

lemma stt_txapp_step:
  "stt_txapp_read s = Some t \<Longrightarrow> txApp2stateTable_req s \<noteq> [] \<Longrightarrow> stt_step s t"
  by (cases "txApp2stateTable_req s") (auto intro: txapp)

lemma state_table_step: "state_table s = Some t \<Longrightarrow> stt_step s t"
  unfolding state_table_def
  by (auto split: if_splits
      intro: stt_tx_request_step stt_rx_request_step stt_close_request_step stt_txapp_step
        tx_late rx_late close_late idle)

lemma holds_take [simp]:
  "rx_holds (stt_take_tx q qs s) = rx_holds s" "tx_holds (stt_take_tx q qs s) = tx_holds s"
  "rx_holds (stt_take_rx q qs s) = rx_holds s" "tx_holds (stt_take_rx q qs s) = tx_holds s"
  "rx_holds (stt_take_close k ks s) = rx_holds s" "tx_holds (stt_take_close k ks s) = tx_holds s"
  by (auto simp: fun_eq_iff rx_holds_def tx_holds_def stt_take_defs)

lemma stt_step_ids: "stt_step s t \<Longrightarrow> stt_ids_ok n s \<Longrightarrow> stt_ids_ok n t"
  by (induction rule: stt_step.induct)
    (auto simp: stt_ids_ok_def stt_exec_Some stt_txapp_read_Some stt_take_defs Let_def)

lemma stt_step_exclusive: "stt_step s t \<Longrightarrow> stt_exclusive s \<Longrightarrow> stt_exclusive t"
  by (induction rule: stt_step.induct)
    (auto simp: stt_exclusive_def stt_exec_Some stt_txapp_read_Some stt_take_defs Let_def
      rx_holds_def tx_holds_def)

lemma stt_exec_safe:
  "stt_ids_ok n s \<Longrightarrow> txApp2stateTable_upd_req s \<noteq> [] \<Longrightarrow> \<exists>t. stt_tx_request s = Some t"
  "stt_ids_ok n s \<Longrightarrow> txApp2stateTable_req s \<noteq> [] \<Longrightarrow> \<exists>t. stt_txapp_read s = Some t"
  "stt_ids_ok n s \<Longrightarrow> rxEng2stateTable_upd_req s \<noteq> [] \<Longrightarrow> \<exists>t. stt_rx_request s = Some t"
  "stt_ids_ok n s \<Longrightarrow> timer2stateTable_releaseState s \<noteq> [] \<Longrightarrow> \<exists>t. stt_close_request s = Some t"
  "stt_ids_ok n s \<Longrightarrow> stt_txWait s \<Longrightarrow> \<exists>t. stt_tx_exec s = Some t"
  "stt_ids_ok n s \<Longrightarrow> stt_rxWait s \<Longrightarrow> \<exists>t. stt_rx_exec s = Some t"
  "stt_ids_ok n s \<Longrightarrow> stt_closeWait s \<Longrightarrow> \<exists>t. stt_close_exec s = Some t"
  by (auto simp: stt_ids_ok_def stt_request_defs stt_exec_defs Let_def neq_Nil_conv)

lemma stt_cyc_safe:
  assumes "stt_ids_ok n s" shows "\<exists>t. state_table s = Some t"
  unfolding state_table_def using stt_exec_safe [OF assms] by simp

interpretation stt: clocked "stt_inv n" "stt_env n" "\<lambda>_::unit. state_table" for n
  by unfold_locales
    (blast intro: stt_env_inv,
     auto simp: stt_inv_def intro: stt_cyc_safe stt_step_ids stt_step_exclusive state_table_step)

section \<open>Properties\<close>

text \<open>The state after reset: static storage is zero, \<open>CLOSED\<close> is the enum's first value.\<close>

definition stt_init :: "nat \<Rightarrow> state_table_st" where
  "stt_init n = \<lparr>stt_table = replicate n CLOSED, stt_txSessionID = 0, stt_rxSessionID = 0,
     stt_rxSessionLocked = False, stt_txSessionLocked = False,
     stt_txAccess = stateQuery_read 0, stt_rxAccess = stateQuery_read 0,
     stt_txWait = False, stt_rxWait = False, stt_closeSessionID = 0, stt_closeWait = False,
     rxEng2stateTable_upd_req = [], txApp2stateTable_upd_req = [], txApp2stateTable_req = [],
     timer2stateTable_releaseState = [], stateTable2rxEng_upd_rsp = [],
     stateTable2TxApp_upd_rsp = [], stateTable2txApp_rsp = [],
     stateTable2sLookup_releaseSession = []\<rparr>"

lemma stt_inv_init: "stt_inv n (stt_init n)"
  by (simp add: stt_inv_def stt_ids_ok_def stt_exclusive_def rx_holds_def stt_init_def)

abbreviation stt_reach :: "nat \<Rightarrow> state_table_st \<Rightarrow> bool" where
  "stt_reach n \<equiv> reach (stt_env n) (\<lambda>_::unit. state_table) (stt_init n)"

lemma stt_reach_inv: "stt_reach n s \<Longrightarrow> stt_inv n s"
  by (rule stt.reach_inv [OF _ stt_inv_init])

text \<open>C1: with requests for existing sessions only, no cycle ever leaves the table, and the
  receive and transmit side never hold the lock of the same session.\<close>

theorem state_table_mutual_exclusion:
  assumes "stt_reach n s"
  shows "(\<exists>t. state_table s = Some t) \<and> \<not> (rx_holds s k \<and> tx_holds s k)"
  using stt.reach_safe [OF assms stt_inv_init] stt_reach_inv [OF assms]
  by (auto simp: stt_inv_def stt_exclusive_def)

text \<open>The entry of a session held by one side is changed by that side's write only.\<close>

lemma tx_exec_frame: "stt_tx_exec s = Some t \<Longrightarrow> rx_holds t = rx_holds s \<and>
    (k \<noteq> sq_sessionID (stt_txAccess s) \<longrightarrow> stt_table t ! unat k = stt_table s ! unat k) \<and>
    (tx_holds t k \<longrightarrow> stt_table t = stt_table s)"
  by (auto simp: stt_tx_exec_Some Let_def rx_holds_def tx_holds_def fun_eq_iff)

lemma rx_exec_frame: "stt_rx_exec s = Some t \<Longrightarrow> tx_holds t = tx_holds s \<and>
    (k \<noteq> sq_sessionID (stt_rxAccess s) \<longrightarrow> stt_table t ! unat k = stt_table s ! unat k) \<and>
    (rx_holds t k \<longrightarrow> stt_table t = stt_table s)"
  by (auto simp: stt_rx_exec_Some Let_def rx_holds_def tx_holds_def fun_eq_iff)

lemma close_exec_frame: "stt_close_exec s = Some t \<Longrightarrow>
    tx_holds t = tx_holds s \<and> rx_holds t = rx_holds s \<and>
    (k \<noteq> stt_closeSessionID s \<longrightarrow> stt_table t ! unat k = stt_table s ! unat k)"
  by (auto simp: stt_close_exec_Some rx_holds_def tx_holds_def fun_eq_iff)

lemma txapp_frame: "stt_txapp_read s = Some t \<Longrightarrow> stt_table t = stt_table s"
  by (auto simp: stt_txapp_read_def bind_eq_Some_conv)

lemma take_simps [simp]:
  "stt_table (stt_take_tx q qs s) = stt_table s" "stt_txAccess (stt_take_tx q qs s) = q"
  "stt_table (stt_take_rx q qs s) = stt_table s" "stt_rxAccess (stt_take_rx q qs s) = q"
  "stt_table (stt_take_close k ks s) = stt_table s"
  "stt_closeSessionID (stt_take_close k ks s) = k"
  by (simp_all add: stt_take_defs)

lemma holds_wait [simp]:
  "rx_holds (s\<lparr>stt_rxWait := b\<rparr>) = rx_holds s" "tx_holds (s\<lparr>stt_rxWait := b\<rparr>) = tx_holds s"
  "rx_holds (s\<lparr>stt_txWait := b\<rparr>) = rx_holds s" "tx_holds (s\<lparr>stt_txWait := b\<rparr>) = tx_holds s"
  "rx_holds (s\<lparr>stt_closeWait := b\<rparr>) = rx_holds s"
  "tx_holds (s\<lparr>stt_closeWait := b\<rparr>) = tx_holds s"
  by (auto simp: fun_eq_iff rx_holds_def tx_holds_def)

lemmas stt_frames = tx_exec_frame rx_exec_frame close_exec_frame

lemma rx_held_entry:
  "stt_step s t \<Longrightarrow> rx_holds s k \<Longrightarrow> rx_holds t k \<Longrightarrow>
   stt_table t ! unat k = stt_table s ! unat k"
  by (induction rule: stt_step.induct)
    (auto dest: txapp_frame dest!: stt_frames [where k = k])

lemma tx_held_entry:
  "stt_step s t \<Longrightarrow> tx_holds s k \<Longrightarrow> tx_holds t k \<Longrightarrow>
   stt_table t ! unat k = stt_table s ! unat k"
  by (induction rule: stt_step.induct)
    (auto dest: txapp_frame dest!: stt_frames [where k = k])

text \<open>A run of cycles and environment steps during which \<open>P\<close> holds throughout.\<close>

inductive stt_run :: "nat \<Rightarrow> (state_table_st \<Rightarrow> bool) \<Rightarrow> state_table_st \<Rightarrow> state_table_st \<Rightarrow> bool"
  for n P where
  refl: "P s \<Longrightarrow> stt_run n P s s"
| env: "stt_run n P s t \<Longrightarrow> stt_env n t u \<Longrightarrow> P u \<Longrightarrow> stt_run n P s u"
| cyc: "stt_run n P s t \<Longrightarrow> state_table t = Some u \<Longrightarrow> P u \<Longrightarrow> stt_run n P s u"

lemma stt_run_first: "stt_run n P s t \<Longrightarrow> P s"
  by (induction rule: stt_run.induct) auto

lemma stt_run_last: "stt_run n P s t \<Longrightarrow> P t"
  by (induction rule: stt_run.induct) auto

lemma stt_run_inv: "stt_run n P s t \<Longrightarrow> stt_inv n s \<Longrightarrow> stt_inv n t"
  by (induction rule: stt_run.induct) (auto intro: stt.env_inv stt.cyc_inv)

lemma stt_env_table: "stt_env n s t \<Longrightarrow> stt_table t = stt_table s"
  by (auto simp: stt_env_def)

lemma stt_run_entry:
  assumes "stt_run n P s t"
    and "\<And>a b. stt_step a b \<Longrightarrow> P a \<Longrightarrow> P b \<Longrightarrow> stt_table b ! unat k = stt_table a ! unat k"
  shows "stt_table t ! unat k = stt_table s ! unat k"
  using assms
proof (induction rule: stt_run.induct)
  case (cyc s t u)
  then show ?case
    using stt_run_last [OF cyc.hyps(1)] by (auto dest!: state_table_step)
qed (auto dest: stt_env_table)

lemma rx_exec_reply: "stt_rx_exec s = Some t \<Longrightarrow>
    stateTable2rxEng_upd_rsp t = stateTable2rxEng_upd_rsp s @ [v] \<Longrightarrow> rx_holds t k \<Longrightarrow>
    stt_table t ! unat k = v"
  by (cases "sq_write (stt_rxAccess s)") (auto simp: stt_rx_exec_Some Let_def rx_holds_def)

lemma tx_exec_reply: "stt_tx_exec s = Some t \<Longrightarrow>
    stateTable2TxApp_upd_rsp t = stateTable2TxApp_upd_rsp s @ [v] \<Longrightarrow> tx_holds t k \<Longrightarrow>
    stt_table t ! unat k = v"
  by (cases "sq_write (stt_txAccess s)") (auto simp: stt_tx_exec_Some Let_def tx_holds_def)

lemma rx_rsp_frames:
  "stt_tx_exec s = Some t \<Longrightarrow> stateTable2rxEng_upd_rsp t = stateTable2rxEng_upd_rsp s"
  "stt_close_exec s = Some t \<Longrightarrow> stateTable2rxEng_upd_rsp t = stateTable2rxEng_upd_rsp s"
  "stt_txapp_read s = Some t \<Longrightarrow> stateTable2rxEng_upd_rsp t = stateTable2rxEng_upd_rsp s"
  by (auto simp: stt_exec_Some Let_def stt_txapp_read_def bind_eq_Some_conv)

lemma tx_rsp_frames:
  "stt_rx_exec s = Some t \<Longrightarrow> stateTable2TxApp_upd_rsp t = stateTable2TxApp_upd_rsp s"
  "stt_close_exec s = Some t \<Longrightarrow> stateTable2TxApp_upd_rsp t = stateTable2TxApp_upd_rsp s"
  "stt_txapp_read s = Some t \<Longrightarrow> stateTable2TxApp_upd_rsp t = stateTable2TxApp_upd_rsp s"
  by (auto simp: stt_exec_Some Let_def stt_txapp_read_def bind_eq_Some_conv)

lemma rsp_take [simp]:
  "stateTable2rxEng_upd_rsp (stt_take_tx q qs s) = stateTable2rxEng_upd_rsp s"
  "stateTable2rxEng_upd_rsp (stt_take_rx q qs s) = stateTable2rxEng_upd_rsp s"
  "stateTable2rxEng_upd_rsp (stt_take_close k ks s) = stateTable2rxEng_upd_rsp s"
  "stateTable2TxApp_upd_rsp (stt_take_tx q qs s) = stateTable2TxApp_upd_rsp s"
  "stateTable2TxApp_upd_rsp (stt_take_rx q qs s) = stateTable2TxApp_upd_rsp s"
  "stateTable2TxApp_upd_rsp (stt_take_close k ks s) = stateTable2TxApp_upd_rsp s"
  by (simp_all add: stt_take_defs)

lemma rx_reply_entry:
  "stt_step s0 s \<Longrightarrow> stateTable2rxEng_upd_rsp s = stateTable2rxEng_upd_rsp s0 @ [v] \<Longrightarrow>
   rx_holds s k \<Longrightarrow> stt_table s ! unat k = v"
proof (induction rule: stt_step.induct)
  case rx_now
  then show ?case using rx_exec_reply [OF rx_now.hyps(4)] by simp
next
  case rx_late
  then show ?case using rx_exec_reply [OF rx_late.hyps(3)] by simp
qed (auto dest!: rx_rsp_frames)

lemma tx_reply_entry:
  "stt_step s0 s \<Longrightarrow> stateTable2TxApp_upd_rsp s = stateTable2TxApp_upd_rsp s0 @ [v] \<Longrightarrow>
   tx_holds s k \<Longrightarrow> stt_table s ! unat k = v"
proof (induction rule: stt_step.induct)
  case tx_now
  then show ?case using tx_exec_reply [OF tx_now.hyps(4)] by simp
next
  case tx_late
  then show ?case using tx_exec_reply [OF tx_late.hyps(3)] by simp
qed (auto dest!: tx_rsp_frames)

text \<open>C2: read, decide, write back is atomic.  When a cycle answers the receive engine's read of a
  session, and then over any number of cycles and client requests the engine holds it, the
  entry is still the value it was told; the same for the transmit interface.\<close>

theorem state_table_rmw_atomic:
  assumes "state_table s0 = Some s"
    and "stateTable2rxEng_upd_rsp s = stateTable2rxEng_upd_rsp s0 @ [v] \<and>
           stt_run n (\<lambda>s. rx_holds s k) s t
       \<or> stateTable2TxApp_upd_rsp s = stateTable2TxApp_upd_rsp s0 @ [v] \<and>
           stt_run n (\<lambda>s. tx_holds s k) s t"
  shows "stt_table t ! unat k = v"
  using assms(2)
proof
  assume a: "stateTable2rxEng_upd_rsp s = stateTable2rxEng_upd_rsp s0 @ [v] \<and>
    stt_run n (\<lambda>s. rx_holds s k) s t"
  then have "rx_holds s k" by (auto dest: stt_run_first)
  then have "stt_table s ! unat k = v"
    using rx_reply_entry [OF state_table_step [OF assms(1)]] a by blast
  moreover have "stt_table t ! unat k = stt_table s ! unat k"
    using a by (auto elim!: stt_run_entry intro: rx_held_entry)
  ultimately show ?thesis by simp
next
  assume a: "stateTable2TxApp_upd_rsp s = stateTable2TxApp_upd_rsp s0 @ [v] \<and>
    stt_run n (\<lambda>s. tx_holds s k) s t"
  then have "tx_holds s k" by (auto dest: stt_run_first)
  then have "stt_table s ! unat k = v"
    using tx_reply_entry [OF state_table_step [OF assms(1)]] a by blast
  moreover have "stt_table t ! unat k = stt_table s ! unat k"
    using a by (auto elim!: stt_run_entry intro: tx_held_entry)
  ultimately show ?thesis by simp
qed

text \<open>A closed run used by the witnesses: two sessions, the receive engine reads session 1.\<close>

definition stt_ex0 :: state_table_st where
  "stt_ex0 = (stt_init 2)\<lparr>stt_table := [CLOSED, ESTABLISHED],
     rxEng2stateTable_upd_req := [stateQuery_read 1]\<rparr>"

definition stt_ex1 :: state_table_st where
  "stt_ex1 = (stt_init 2)\<lparr>stt_table := [CLOSED, ESTABLISHED], stt_rxSessionID := 1,
     stt_rxSessionLocked := True, stt_rxAccess := stateQuery_read 1,
     stateTable2rxEng_upd_rsp := [ESTABLISHED]\<rparr>"

lemma stt_ex_step: "state_table stt_ex0 = Some stt_ex1"
  by (simp add: state_table_def stt_request_defs stt_exec_defs stt_ex0_def stt_ex1_def stt_init_def
      stateQuery_read_def rx_holds_def tx_holds_def tget_def)

theorem state_table_rmw_atomic_witness: "stt_table stt_ex1 ! unat (1 :: u16) = ESTABLISHED"
proof (rule state_table_rmw_atomic [OF stt_ex_step])
  have "stt_run 2 (\<lambda>s. rx_holds s 1) stt_ex1 stt_ex1"
    by (rule stt_run.refl) (simp add: stt_ex1_def rx_holds_def)
  then show "stateTable2rxEng_upd_rsp stt_ex1 = stateTable2rxEng_upd_rsp stt_ex0 @ [ESTABLISHED] \<and>
      stt_run 2 (\<lambda>s. rx_holds s 1) stt_ex1 stt_ex1 \<or>
    stateTable2TxApp_upd_rsp stt_ex1 = stateTable2TxApp_upd_rsp stt_ex0 @ [ESTABLISHED] \<and>
      stt_run 2 (\<lambda>s. tx_holds s 1) stt_ex1 stt_ex1"
    by (simp add: stt_ex0_def stt_ex1_def stt_init_def)
qed

definition stt_keeps :: "state_table_st \<Rightarrow> state_table_st \<Rightarrow> bool" where
  "stt_keeps s t \<longleftrightarrow>
     stateTable2sLookup_releaseSession t = stateTable2sLookup_releaseSession s \<and>
     (stt_table t = stt_table s
      \<or> (\<exists>k v. stt_table t = (stt_table s)[k := v] \<and> v \<noteq> CLOSED)
      \<or> (let q = stt_txAccess t in
          sq_write q \<and> stt_table t = (stt_table s)[unat (sq_sessionID q) := sq_state q]))"

definition stt_releases :: "u16 \<Rightarrow> state_table_st \<Rightarrow> state_table_st \<Rightarrow> bool" where
  "stt_releases k s t \<longleftrightarrow>
     stateTable2sLookup_releaseSession t = stateTable2sLookup_releaseSession s @ [k] \<and>
     stt_table t = (stt_table s)[unat k := CLOSED]"

lemma tx_exec_keeps: "stt_tx_exec s = Some t \<Longrightarrow> stt_keeps s t"
  by (cases "sq_write (stt_txAccess s)") (simp_all add: stt_tx_exec_Some Let_def stt_keeps_def)

lemma rx_exec_effect: "stt_rx_exec s = Some t \<Longrightarrow>
    (\<exists>k. stt_releases k s t) \<or> stt_keeps s t"
  by (cases "sq_write (stt_rxAccess s)"; cases "sq_state (stt_rxAccess s) = CLOSED")
    (auto simp: stt_rx_exec_Some Let_def stt_keeps_def stt_releases_def)

lemma close_exec_releases: "stt_close_exec s = Some t \<Longrightarrow> \<exists>k. stt_releases k s t"
  by (auto simp: stt_close_exec_Some stt_releases_def)

lemma txapp_keeps: "stt_txapp_read s = Some t \<Longrightarrow> stt_keeps s t"
  by (auto simp: stt_txapp_read_def stt_keeps_def bind_eq_Some_conv)

lemma keeps_take [simp]:
  "stt_keeps (stt_take_tx q qs s) = stt_keeps s" "stt_releases k (stt_take_tx q qs s) = stt_releases k s"
  "stt_keeps (stt_take_rx q qs s) = stt_keeps s" "stt_releases k (stt_take_rx q qs s) = stt_releases k s"
  "stt_keeps (stt_take_close j ks s) = stt_keeps s"
  "stt_releases k (stt_take_close j ks s) = stt_releases k s"
  by (simp_all add: fun_eq_iff stt_keeps_def stt_releases_def stt_take_defs)

lemma keeps_wait [simp]:
  "stt_keeps s (t\<lparr>stt_rxWait := b\<rparr>) = stt_keeps s t" "stt_keeps s (t\<lparr>stt_txWait := b\<rparr>) = stt_keeps s t"
  "stt_releases k s (t\<lparr>stt_rxWait := b\<rparr>) = stt_releases k s t"
  "stt_releases k s (t\<lparr>stt_closeWait := b\<rparr>) = stt_releases k s t"
  by (simp_all add: stt_keeps_def stt_releases_def)

lemma keeps_refl: "stt_keeps s s" "stt_keeps s (stt_take_tx q qs s)"
  "stt_keeps s (stt_take_rx q qs s)" "stt_keeps s ((stt_take_close k ks s)\<lparr>stt_closeWait := b\<rparr>)"
  by (simp_all add: stt_keeps_def stt_take_defs)

text \<open>Session IDs are released exactly with their session.  A cycle either grows the release
  stream by one ID and closes that session, or leaves the stream alone, and then an entry
  became CLOSED only if the transmit interface wrote CLOSED itself.\<close>

theorem state_table_release:
  assumes "state_table s = Some t"
  shows "(\<exists>k. stateTable2sLookup_releaseSession t = stateTable2sLookup_releaseSession s @ [k] \<and>
         stt_table t = (stt_table s)[unat k := CLOSED])
    \<or> stateTable2sLookup_releaseSession t = stateTable2sLookup_releaseSession s \<and>
      (stt_table t = stt_table s
       \<or> (\<exists>k v. stt_table t = (stt_table s)[k := v] \<and> v \<noteq> CLOSED)
       \<or> (let q = stt_txAccess t in
           sq_write q \<and> stt_table t = (stt_table s)[unat (sq_sessionID q) := sq_state q]))"
proof -
  have "(\<exists>k. stt_releases k s t) \<or> stt_keeps s t"
    using state_table_step [OF assms]
    by (induction rule: stt_step.induct)
      (auto intro: keeps_refl dest!: tx_exec_keeps rx_exec_effect close_exec_releases txapp_keeps)
  then show ?thesis unfolding stt_releases_def stt_keeps_def by blast
qed

section \<open>Clients that finish what they start\<close>

text \<open>
  A client that follows the protocol writes a session without asking, or reads it, waits for the
  reply, and then writes the session it has read.  So a read is the last request it has made, and
  while it holds a session its first request is the write of that session.  Under this discipline
  a held-back client never holds a lock itself.  (\<open>Tx_App\<close> shows that \<open>tx_app_if\<close> follows it.)
\<close>

fun follows :: "u16 option \<Rightarrow> stateQuery list \<Rightarrow> bool" where
  "follows _ [] = True"
| "follows None (q # qs) = (if sq_write q then follows None qs else qs = [])"
| "follows (Some i) (q # qs) = (sq_write q \<and> sq_sessionID q = i \<and> follows None qs)"

definition rx_disciplined :: "state_table_st \<Rightarrow> bool" where
  "rx_disciplined s \<longleftrightarrow> (stt_rxWait s \<longrightarrow> \<not> stt_rxSessionLocked s) \<and>
     follows (if stt_rxSessionLocked s then Some (stt_rxSessionID s) else None)
       ((if stt_rxWait s then [stt_rxAccess s] else []) @ rxEng2stateTable_upd_req s)"

definition tx_disciplined :: "state_table_st \<Rightarrow> bool" where
  "tx_disciplined s \<longleftrightarrow> (stt_txWait s \<longrightarrow> \<not> stt_txSessionLocked s) \<and>
     follows (if stt_txSessionLocked s then Some (stt_txSessionID s) else None)
       ((if stt_txWait s then [stt_txAccess s] else []) @ txApp2stateTable_upd_req s)"

definition stt_client_env :: "nat \<Rightarrow> state_table_st \<Rightarrow> state_table_st \<Rightarrow> bool" where
  "stt_client_env n s t \<longleftrightarrow> stt_env n s t \<and> rx_disciplined t \<and> tx_disciplined t"

definition stt_client_inv :: "nat \<Rightarrow> state_table_st \<Rightarrow> bool" where
  "stt_client_inv n s \<longleftrightarrow> stt_inv n s \<and> rx_disciplined s \<and> tx_disciplined s"

lemma stt_step_rx_disciplined:
  "stt_step s t \<Longrightarrow> stt_exclusive s \<Longrightarrow> rx_disciplined s \<Longrightarrow> rx_disciplined t"
  by (induction rule: stt_step.induct)
    (auto simp: rx_disciplined_def stt_exec_Some stt_txapp_read_Some stt_take_defs Let_def
      stt_exclusive_def rx_holds_def tx_holds_def split: list.splits if_splits)

lemma stt_step_tx_disciplined:
  "stt_step s t \<Longrightarrow> stt_exclusive s \<Longrightarrow> tx_disciplined s \<Longrightarrow> tx_disciplined t"
  by (induction rule: stt_step.induct)
    (auto simp: tx_disciplined_def stt_exec_Some stt_txapp_read_Some stt_take_defs Let_def
      stt_exclusive_def rx_holds_def tx_holds_def split: list.splits if_splits)

lemma stt_client_cyc: "stt_client_inv n s \<Longrightarrow> stt_step s t \<Longrightarrow> stt_client_inv n t"
  unfolding stt_client_inv_def stt_inv_def
  by (blast intro: stt_step_ids stt_step_exclusive stt_step_rx_disciplined stt_step_tx_disciplined)

interpretation clients: clocked "stt_client_inv n" "stt_client_env n" "\<lambda>_::unit. state_table" for n
proof unfold_locales
  show "stt_client_inv n t" if "stt_client_inv n s" "stt_client_env n s t" for s t
    using that stt_env_inv by (auto simp: stt_client_inv_def stt_client_env_def)
  show "\<exists>t. state_table s = Some t" if "stt_client_inv n s" for s
    using that by (auto simp: stt_client_inv_def stt_inv_def intro: stt_cyc_safe)
  show "stt_client_inv n t" if "stt_client_inv n s" "state_table s = Some t" for s t
    using that by (blast intro: stt_client_cyc state_table_step)
qed

lemma stt_client_init: "stt_client_inv n (stt_init n)"
  using stt_inv_init
  by (simp add: stt_client_inv_def rx_disciplined_def tx_disciplined_def) (simp add: stt_init_def)

text \<open>What is still to be done.  A cycle that does something does one part of it; one that does nothing
  finds only accesses that are held back.\<close>

definition stt_pending :: "state_table_st \<Rightarrow> nat" where
  "stt_pending s = 2 * length (txApp2stateTable_upd_req s) + length (txApp2stateTable_req s) +
     2 * length (rxEng2stateTable_upd_req s) + 2 * length (timer2stateTable_releaseState s) +
     of_bool (stt_txWait s) + of_bool (stt_rxWait s) + of_bool (stt_closeWait s)"

definition stt_held_back :: "state_table_st \<Rightarrow> bool" where
  "stt_held_back s \<longleftrightarrow> txApp2stateTable_req s = [] \<and>
     (txApp2stateTable_upd_req s \<noteq> [] \<longrightarrow> stt_txWait s) \<and>
     (rxEng2stateTable_upd_req s \<noteq> [] \<longrightarrow> stt_rxWait s) \<and>
     (timer2stateTable_releaseState s \<noteq> [] \<longrightarrow> stt_closeWait s) \<and>
     (stt_txWait s \<longrightarrow> rx_holds s (sq_sessionID (stt_txAccess s))) \<and>
     (stt_rxWait s \<longrightarrow> stt_txWait s \<or> tx_holds s (sq_sessionID (stt_rxAccess s))) \<and>
     (stt_closeWait s \<longrightarrow> stt_txWait s \<or> stt_rxWait s \<or> rx_holds s (stt_closeSessionID s) \<or>
        tx_holds s (stt_closeSessionID s))"

lemma stt_pending_tx:
  assumes "txApp2stateTable_upd_req s \<noteq> []" "\<not> stt_txWait s" "stt_tx_request s = Some t"
  shows "stt_pending t < stt_pending s"
  using assms by (cases "txApp2stateTable_upd_req s")
    (auto simp: stt_tx_request_def Let_def stt_tx_exec_Some stt_pending_def split: if_splits)

lemma stt_pending_rx:
  assumes "rxEng2stateTable_upd_req s \<noteq> []" "\<not> stt_rxWait s" "stt_rx_request s = Some t"
  shows "stt_pending t < stt_pending s"
  using assms by (cases "rxEng2stateTable_upd_req s")
    (auto simp: stt_rx_request_def Let_def stt_rx_exec_Some stt_pending_def split: if_splits)

lemma stt_pending_close:
  assumes "timer2stateTable_releaseState s \<noteq> []" "\<not> stt_closeWait s" "stt_close_request s = Some t"
  shows "stt_pending t < stt_pending s"
  using assms by (cases "timer2stateTable_releaseState s")
    (auto simp: stt_close_request_def Let_def stt_close_exec_Some stt_pending_def split: if_splits)

lemma stt_pending_late:
  "stt_tx_exec s = Some t \<Longrightarrow> stt_txWait s \<Longrightarrow> stt_pending (t\<lparr>stt_txWait := False\<rparr>) < stt_pending s"
  "stt_rx_exec s = Some t \<Longrightarrow> stt_rxWait s \<Longrightarrow> stt_pending (t\<lparr>stt_rxWait := False\<rparr>) < stt_pending s"
  "stt_close_exec s = Some t \<Longrightarrow> stt_closeWait s \<Longrightarrow> stt_pending (t\<lparr>stt_closeWait := False\<rparr>) < stt_pending s"
  by (auto simp: stt_exec_Some Let_def stt_pending_def)

lemma stt_pending_txapp:
  "txApp2stateTable_req s \<noteq> [] \<Longrightarrow> stt_txapp_read s = Some t \<Longrightarrow> stt_pending t < stt_pending s"
  by (cases "txApp2stateTable_req s") (auto simp: stt_txapp_read_Some stt_pending_def)

lemma state_table_moves:
  assumes "state_table s = Some t"
  shows "stt_pending t < stt_pending s \<or> t = s \<and> stt_held_back s"
  using assms unfolding state_table_def
  by (auto simp: stt_held_back_def split: if_splits
      intro: stt_pending_tx stt_pending_rx stt_pending_close stt_pending_late stt_pending_txapp)

definition stt_next :: "state_table_st \<Rightarrow> state_table_st" where
  "stt_next s = the (state_table s)"

lemma stt_runs_down:
  assumes "stt_client_inv n s"
  shows "\<exists>k\<le> stt_pending s. stt_client_inv n ((stt_next ^^ k) s) \<and> stt_held_back ((stt_next ^^ k) s)"
  using assms
proof (induction "stt_pending s" arbitrary: s rule: less_induct)
  case less
  obtain t where t: "state_table s = Some t" using clients.cyc_safe [OF less.prems] by blast
  have i: "stt_client_inv n t" by (rule clients.cyc_inv [OF less.prems t])
  from state_table_moves [OF t] show ?case
  proof
    assume l: "stt_pending t < stt_pending s"
    from less.hyps [OF l i] obtain k where "k \<le> stt_pending t" "stt_client_inv n ((stt_next ^^ k) t)"
      "stt_held_back ((stt_next ^^ k) t)" by blast
    moreover have "(stt_next ^^ Suc k) s = (stt_next ^^ k) t" for k
      by (simp add: funpow_Suc_right stt_next_def t del: funpow.simps(2))
    ultimately show ?thesis using l by (intro exI [of _ "Suc k"]) (simp del: funpow.simps)
  next
    assume "t = s \<and> stt_held_back s"
    with less.prems show ?thesis by (intro exI [of _ 0]) simp
  qed
qed

text \<open>C3: no deadlock.  With disciplined clients, from any reachable state and without further
  requests, the table serves within \<open>stt_pending\<close> cycles every access and every release but those
  held back by a lock.  The side that holds such a lock is not itself held back, and none of its requests
  waits: what is missing is the write of the session it has read.  A release also waits while an access
  does.  (The table does not queue fairly: accesses held back come after every new request of the others.)\<close>

theorem state_table_no_deadlock:
  assumes r: "reach (stt_client_env n) (\<lambda>_::unit. state_table) (stt_init n) s"
  shows "\<exists>k\<le> stt_pending s. let t = (stt_next ^^ k) s; rx_owes = (\<not> stt_rxWait t \<and> rxEng2stateTable_upd_req t = []);
        tx_owes = (\<not> stt_txWait t \<and> txApp2stateTable_upd_req t = [])
      in txApp2stateTable_req t = [] \<and>
         (txApp2stateTable_upd_req t = [] \<and> \<not> stt_txWait t \<or> rx_holds t (sq_sessionID (stt_txAccess t)) \<and> rx_owes) \<and>
         (rxEng2stateTable_upd_req t = [] \<and> \<not> stt_rxWait t \<or> tx_holds t (sq_sessionID (stt_rxAccess t)) \<and> tx_owes) \<and>
         (timer2stateTable_releaseState t = [] \<and> \<not> stt_closeWait t \<or> stt_txWait t \<or> stt_rxWait t \<or>
            rx_holds t (stt_closeSessionID t) \<and> rx_owes \<or> tx_holds t (stt_closeSessionID t) \<and> tx_owes)"
proof -
  from stt_runs_down [OF clients.reach_inv [OF r stt_client_init]] obtain k where k: "k \<le> stt_pending s"
    and i: "stt_client_inv n ((stt_next ^^ k) s)" and h: "stt_held_back ((stt_next ^^ k) s)" by blast
  define t where "t = (stt_next ^^ k) s"
  have d: "stt_txWait t \<longrightarrow> \<not> stt_txSessionLocked t" "stt_rxWait t \<longrightarrow> \<not> stt_rxSessionLocked t"
    using i by (simp_all add: t_def stt_client_inv_def tx_disciplined_def rx_disciplined_def)
  show ?thesis
    by (rule exI [of _ k], rule conjI [OF k], fold t_def)
      (use h d in \<open>auto simp: Let_def stt_held_back_def rx_holds_def tx_holds_def simp flip: t_def\<close>)
qed

definition stt_dl1 :: state_table_st where
  "stt_dl1 = (stt_init 2)\<lparr>txApp2stateTable_upd_req := [stateQuery_read 1]\<rparr>"

definition stt_dl2 :: state_table_st where
  "stt_dl2 = (stt_init 2)\<lparr>stt_txAccess := stateQuery_read 1, stt_txSessionID := 1,
     stt_txSessionLocked := True, stateTable2TxApp_upd_rsp := [CLOSED]\<rparr>"

definition stt_dl3 :: state_table_st where
  "stt_dl3 = stt_dl2\<lparr>rxEng2stateTable_upd_req := [stateQuery_read 1]\<rparr>"

definition stt_dl4 :: state_table_st where
  "stt_dl4 = stt_dl2\<lparr>stt_rxAccess := stateQuery_read 1, stt_rxWait := True\<rparr>"

definition stt_dl5 :: state_table_st where
  "stt_dl5 = stt_dl4\<lparr>txApp2stateTable_upd_req := [stateQuery_write 1 SYN_SENT]\<rparr>"

lemmas stt_dl_defs = stt_dl1_def stt_dl2_def stt_dl3_def stt_dl4_def stt_dl5_def stt_init_def
  stateQuery_read_def stateQuery_write_def

lemma stt_env_appI:
  assumes "\<forall>q\<in>set a \<union> set c. unat (sq_sessionID q) < n"
    and "t = s\<lparr>txApp2stateTable_upd_req := txApp2stateTable_upd_req s @ a,
               rxEng2stateTable_upd_req := rxEng2stateTable_upd_req s @ c\<rparr>"
    and "rx_disciplined t" "tx_disciplined t"
  shows "stt_client_env n s t"
proof -
  have "stt_env n s t"
    unfolding stt_env_def
    by (rule exI [of _ a], rule exI [of _ "[]"], rule exI [of _ c], rule exI [of _ "[]"],
        rule exI [of _ "stateTable2rxEng_upd_rsp s"], rule exI [of _ "stateTable2TxApp_upd_rsp s"],
        rule exI [of _ "stateTable2txApp_rsp s"],
        rule exI [of _ "stateTable2sLookup_releaseSession s"])
      (use assms(1,2) in simp)
  with assms(3,4) show ?thesis by (simp add: stt_client_env_def)
qed

lemma stt_dl_reach:
  "reach (stt_client_env 2) (\<lambda>_::unit. state_table) (stt_init 2) stt_dl5"
proof -
  let ?r = "reach (stt_client_env 2) (\<lambda>_::unit. state_table) (stt_init 2)"
  have "?r stt_dl1"
    by (rule reach_env [OF reach_init], rule stt_env_appI [of "[stateQuery_read 1]" "[]"])
      (simp_all add: stt_dl_defs rx_disciplined_def tx_disciplined_def)
  then have "?r stt_dl2"
    by (rule reach_cyc) (simp add: state_table_def stt_tx_request_def stt_tx_exec_def stt_dl_defs
        rx_holds_def tget_def)
  then have "?r stt_dl3"
    by (rule reach_env, intro stt_env_appI [of "[]" "[stateQuery_read 1]"])
      (simp_all add: stt_dl_defs rx_disciplined_def tx_disciplined_def)
  then have "?r stt_dl4"
    by (rule reach_cyc) (simp add: state_table_def stt_rx_request_def stt_dl_defs tx_holds_def)
  then show ?thesis
    by (rule reach_env, intro stt_env_appI [of "[stateQuery_write 1 SYN_SENT]" "[]"])
      (simp_all add: stt_dl_defs rx_disciplined_def tx_disciplined_def)
qed

text \<open>The write of the transmit side is served, then the read of the receive side that waited for it.\<close>

theorem state_table_no_deadlock_witness:
  "stt_pending stt_dl5 = 3 \<and> (\<exists>k\<le>3. \<not> stt_rxWait ((stt_next ^^ k) stt_dl5) \<or>
     tx_holds ((stt_next ^^ k) stt_dl5) (sq_sessionID (stt_rxAccess ((stt_next ^^ k) stt_dl5))) \<and>
     txApp2stateTable_upd_req ((stt_next ^^ k) stt_dl5) = [])"
proof -
  have p: "stt_pending stt_dl5 = 3" by (simp add: stt_pending_def stt_dl_defs)
  show ?thesis using state_table_no_deadlock [OF stt_dl_reach] unfolding p Let_def by blast
qed

theorem state_table_mutual_exclusion_witness:
  "(\<exists>t. state_table (stt_init 2) = Some t) \<and> \<not> (rx_holds (stt_init 2) 1 \<and> tx_holds (stt_init 2) 1)"
  by (rule state_table_mutual_exclusion [OF reach_init])

theorem state_table_release_witness:
  "\<exists>t. state_table ((stt_init 2)\<lparr>timer2stateTable_releaseState := [1]\<rparr>) = Some t \<and>
     (\<exists>k. stateTable2sLookup_releaseSession t = [k])"
proof -
  let ?s = "(stt_init 2)\<lparr>timer2stateTable_releaseState := [1]\<rparr>"
  obtain t where t: "state_table ?s = Some t" and n: "stateTable2sLookup_releaseSession t \<noteq> []"
    by (simp add: state_table_def stt_close_request_def stt_close_exec_def stt_init_def rx_holds_def
        tx_holds_def tset_def)
  from state_table_release [OF t] n have "\<exists>k. stateTable2sLookup_releaseSession t = [k]"
    by (auto simp: stt_init_def)
  with t show ?thesis by blast
qed

end
