(* ===== verification/Sar_Tables.thy ===== *)
theory Sar_Tables
  imports Toe_Internals
begin

text \<open>
  \<open>rx_sar_table/rx_sar_table.cpp\<close> and \<open>tx_sar_table/tx_sar_table.cpp\<close>: the sliding windows of
  every session.  The receive table is read by the transmit engine, which gets the window to
  advertise; the transmit table computes the usable window for the transmit engine and pushes
  every acknowledgement, with the window the peer leaves, to the application interface.
\<close>

section \<open>Receive window\<close>

record rx_sar_st =
  rx_table :: "rxSarEntry list"
  txEng2rxSar_req :: "u16 fifo"
  rxApp2rxSar_upd_req :: "rxSarAppd fifo"
  rxEng2rxSar_upd_req :: "rxSarRecvd fifo"
  rxSar2txEng_rsp :: "rxSarReply fifo"
  rxSar2rxApp_upd_rsp :: "rxSarAppd fifo"
  rxSar2rxEng_upd_rsp :: "rxSarEntry fifo"

text \<open>
  The reply to the transmit engine.  \<open>usedLength\<close> is never set: it keeps the indeterminate
  value of the fresh object \<open>u\<close>.
\<close>

definition rx_sar_reply :: "rxSarReply \<Rightarrow> rxSarEntry \<Rightarrow> rxSarReply" where
  "rx_sar_reply u entry =
     (let actualWindowSize = (rse_appd entry - ucast (rse_recvd entry)) - 1 :: u18
      in u\<lparr>rsr_recvd := rse_recvd entry, rsr_win_shift := rse_win_shift entry,
           rsr_windowSize := ucast (drop_bit (unat (rse_win_shift entry)) actualWindowSize)\<rparr>)"

definition rx_sar_write :: "rxSarRecvd \<Rightarrow> rxSarEntry \<Rightarrow> rxSarEntry" where
  "rx_sar_write q e =
     (let e = e\<lparr>rse_recvd := rsv_recvd q, rse_head := rsv_head q, rse_offset := rsv_offset q,
                rse_gap := rsv_gap q\<rparr>
      in if rsv_init q
         then e\<lparr>rse_appd := ucast (rsv_recvd q), rse_win_shift := rsv_win_shift q\<rparr>
         else e)"

definition rx_sar_table :: "rxSarReply \<Rightarrow> rx_sar_st \<Rightarrow> rx_sar_st option" where
  "rx_sar_table u s =
    (if txEng2rxSar_req s \<noteq> [] then do {
       entry \<leftarrow> tget (rx_table s) (hd (txEng2rxSar_req s));
       Some (s\<lparr>txEng2rxSar_req := tl (txEng2rxSar_req s),
               rxSar2txEng_rsp := rxSar2txEng_rsp s @ [rx_sar_reply u entry]\<rparr>)
     }
     else if rxApp2rxSar_upd_req s \<noteq> [] then do {
       let q = hd (rxApp2rxSar_upd_req s);
       let s = s\<lparr>rxApp2rxSar_upd_req := tl (rxApp2rxSar_upd_req s)\<rparr>;
       e \<leftarrow> tget (rx_table s) (rsa_sessionID q);
       if rsa_write q then do {
         t \<leftarrow> tset (rx_table s) (rsa_sessionID q) (e\<lparr>rse_appd := rsa_appd q\<rparr>);
         Some (s\<lparr>rx_table := t\<rparr>)
       } else Some (s\<lparr>rxSar2rxApp_upd_rsp :=
            rxSar2rxApp_upd_rsp s @ [rxSarAppd_write (rsa_sessionID q) (rse_appd e)]\<rparr>)
     }
     else if rxEng2rxSar_upd_req s \<noteq> [] then do {
       let q = hd (rxEng2rxSar_upd_req s);
       let s = s\<lparr>rxEng2rxSar_upd_req := tl (rxEng2rxSar_upd_req s)\<rparr>;
       e \<leftarrow> tget (rx_table s) (rsv_sessionID q);
       if rsv_write q then do {
         t \<leftarrow> tset (rx_table s) (rsv_sessionID q) (rx_sar_write q e);
         Some (s\<lparr>rx_table := t\<rparr>)
       } else Some (s\<lparr>rxSar2rxEng_upd_rsp := rxSar2rxEng_upd_rsp s @ [e]\<rparr>)
     }
     else Some s)"

section \<open>Transmit window\<close>

record tx_sar_st =
  tx_table :: "txSarEntry list"
  txEng2txSar_upd_req :: "txTxSarQuery fifo"
  txApp2txSar_app_push :: "txAppTxSarPush fifo"
  rxEng2txSar_upd_req :: "rxTxSarQuery fifo"
  txSar2rxEng_upd_rsp :: "rxTxSarReply fifo"
  txSar2txEng_upd_rsp :: "txTxSarReply fifo"
  txSar2txApp_ack_push :: "txSarAckPush fifo"

text \<open>
  \<open>scaled_recv_window(win_shift+15, win_shift) = recv_window\<close> on a fresh 30-bit variable: the
  bits outside the range keep the indeterminate value \<open>u\<close>.
\<close>

definition scaled_recv_window :: "u30 \<Rightarrow> u4 \<Rightarrow> u16 \<Rightarrow> u30" where
  "scaled_recv_window u win_shift recv_window =
     put_bits (unat win_shift + 15) (unat win_shift) recv_window u"

definition min_window :: "u30 \<Rightarrow> u18 \<Rightarrow> u4 \<Rightarrow> u16 \<Rightarrow> u18" where
  "min_window u cong_window win_shift recv_window =
     (let scaled = scaled_recv_window u win_shift recv_window
      in if unat cong_window < unat scaled then cong_window else ucast scaled)"

text \<open>
  The reply to the transmit engine; its member \<open>win_shift\<close> is never set (the indeterminate \<open>ws\<close>).
\<close>

definition tx_sar_read :: "u30 \<times> u4 \<Rightarrow> txSarEntry \<Rightarrow> txTxSarReply" where
  "tx_sar_read i entry =
     (let u = fst i; ws = snd i;
          usedLength = ucast (tse_not_ackd entry) - ucast (tse_ackd entry) :: u18;
          minWindow = min_window u (tse_cong_window entry) (tse_win_shift entry)
                        (tse_recv_window entry);
          usableWindow = (if minWindow < usedLength then minWindow - usedLength else 0)
      in \<lparr>ttr_ackd = tse_ackd entry, ttr_not_ackd = tse_not_ackd entry,
          ttr_usableWindow = usableWindow, ttr_app = tse_app entry,
          ttr_usedLength = usedLength, ttr_finReady = tse_finReady entry,
          ttr_finSent = tse_finSent entry, ttr_win_shift = ws\<rparr>)"

text \<open>A write of the transmit engine: progress, initialisation, FIN flags, or a retransmission.\<close>

definition tx_sar_eng_write :: "txTxSarQuery \<Rightarrow> txSarEntry \<Rightarrow> txSarEntry" where
  "tx_sar_eng_write q e =
     (if \<not> ttq_isRtQuery q then
        let e = e\<lparr>tse_not_ackd := ttq_not_ackd q\<rparr>;
            e = (if ttq_init q
                 then e\<lparr>tse_app := ucast (ttq_not_ackd q), tse_ackd := ttq_not_ackd q - 1,
                        tse_cong_window := 0x3908, tse_slowstart_threshold := 0xFFFF,
                        tse_finReady := ttq_finReady q, tse_finSent := ttq_finSent q\<rparr>
                 else e);
            e = (if ttq_finReady q then e\<lparr>tse_finReady := ttq_finReady q\<rparr> else e)
        in if ttq_finSent q then e\<lparr>tse_finSent := ttq_finSent q\<rparr> else e
      else e\<lparr>tse_slowstart_threshold := rtq_getThreshold q, tse_cong_window := 0x3908\<rparr>)"

definition tx_sar_init_push :: "txTxSarQuery \<Rightarrow> txSarAckPush fifo" where
  "tx_sar_init_push q =
     (if \<not> ttq_isRtQuery q \<and> ttq_init q
      then [\<lparr>sap_sessionID = ttq_sessionID q, sap_ackd = ucast (ttq_not_ackd q),
             sap_min_window = 0x3908, sap_init = True\<rparr>]
      else [])"

definition tx_sar_rx_write :: "rxTxSarQuery \<Rightarrow> txSarEntry \<Rightarrow> txSarEntry" where
  "tx_sar_rx_write q e =
     (let e = e\<lparr>tse_ackd := rtq_ackd q, tse_recv_window := rtq_recv_window q,
                tse_cong_window := rtq_cong_window q, tse_count := rtq_count q,
                tse_fastRetransmitted := rtq_fastRetransmitted q\<rparr>
      in if rtq_init q then e\<lparr>tse_win_shift := rtq_win_shift q\<rparr> else e)"

definition tx_sar_rx_push :: "u30 \<Rightarrow> rxTxSarQuery \<Rightarrow> txSarEntry \<Rightarrow> txSarAckPush" where
  "tx_sar_rx_push u q e =
     (let win_shift = (if rtq_init q then rtq_win_shift q else tse_win_shift e)
      in \<lparr>sap_sessionID = rtq_sessionID q, sap_ackd = ucast (rtq_ackd q),
          sap_min_window = min_window u (rtq_cong_window q) win_shift (rtq_recv_window q),
          sap_init = False\<rparr>)"

definition tx_sar_rx_read :: "txSarEntry \<Rightarrow> rxTxSarReply" where
  "tx_sar_rx_read e =
     \<lparr>rtr_prevAck = tse_ackd e, rtr_nextByte = tse_not_ackd e,
      rtr_cong_window = tse_cong_window e, rtr_slowstart_threshold = tse_slowstart_threshold e,
      rtr_count = tse_count e, rtr_fastRetransmitted = tse_fastRetransmitted e\<rparr>"

definition tx_sar_table :: "u30 \<times> u4 \<Rightarrow> tx_sar_st \<Rightarrow> tx_sar_st option" where
  "tx_sar_table i s =
    (if txEng2txSar_upd_req s \<noteq> [] then do {
       let q = hd (txEng2txSar_upd_req s);
       let s = s\<lparr>txEng2txSar_upd_req := tl (txEng2txSar_upd_req s)\<rparr>;
       e \<leftarrow> tget (tx_table s) (ttq_sessionID q);
       if ttq_write q then do {
         t \<leftarrow> tset (tx_table s) (ttq_sessionID q) (tx_sar_eng_write q e);
         Some (s\<lparr>tx_table := t,
                 txSar2txApp_ack_push := txSar2txApp_ack_push s @ tx_sar_init_push q\<rparr>)
       } else Some (s\<lparr>txSar2txEng_upd_rsp := txSar2txEng_upd_rsp s @ [tx_sar_read i e]\<rparr>)
     }
     else if txApp2txSar_app_push s \<noteq> [] then do {
       let p = hd (txApp2txSar_app_push s);
       e \<leftarrow> tget (tx_table s) (tap_sessionID p);
       t \<leftarrow> tset (tx_table s) (tap_sessionID p) (e\<lparr>tse_app := tap_app p\<rparr>);
       Some (s\<lparr>txApp2txSar_app_push := tl (txApp2txSar_app_push s), tx_table := t\<rparr>)
     }
     else if rxEng2txSar_upd_req s \<noteq> [] then do {
       let q = hd (rxEng2txSar_upd_req s);
       let s = s\<lparr>rxEng2txSar_upd_req := tl (rxEng2txSar_upd_req s)\<rparr>;
       e \<leftarrow> tget (tx_table s) (rtq_sessionID q);
       if rtq_write q then do {
         t \<leftarrow> tset (tx_table s) (rtq_sessionID q) (tx_sar_rx_write q e);
         Some (s\<lparr>tx_table := t,
                 txSar2txApp_ack_push := txSar2txApp_ack_push s @ [tx_sar_rx_push (fst i) q e]\<rparr>)
       } else Some (s\<lparr>txSar2rxEng_upd_rsp := txSar2rxEng_upd_rsp s @ [tx_sar_rx_read e]\<rparr>)
     }
     else Some s)"

section \<open>Invariants\<close>

definition rx_sar_inv :: "nat \<Rightarrow> rx_sar_st \<Rightarrow> bool" where
  "rx_sar_inv n s \<longleftrightarrow> length (rx_table s) = n
     \<and> (\<forall>k\<in>set (txEng2rxSar_req s). unat k < n)
     \<and> (\<forall>q\<in>set (rxApp2rxSar_upd_req s). unat (rsa_sessionID q) < n)
     \<and> (\<forall>q\<in>set (rxEng2rxSar_upd_req s). unat (rsv_sessionID q) < n)"

definition rx_sar_env :: "nat \<Rightarrow> rx_sar_st \<Rightarrow> rx_sar_st \<Rightarrow> bool" where
  "rx_sar_env n s t \<longleftrightarrow> rx_table t = rx_table s
     \<and> (\<exists>a. txEng2rxSar_req t = txEng2rxSar_req s @ a \<and> (\<forall>k\<in>set a. unat k < n))
     \<and> (\<exists>a. rxApp2rxSar_upd_req t = rxApp2rxSar_upd_req s @ a \<and>
            (\<forall>q\<in>set a. unat (rsa_sessionID q) < n))
     \<and> (\<exists>a. rxEng2rxSar_upd_req t = rxEng2rxSar_upd_req s @ a \<and>
            (\<forall>q\<in>set a. unat (rsv_sessionID q) < n))"

interpretation rxs: clocked "rx_sar_inv n" "rx_sar_env n" rx_sar_table for n
  by unfold_locales
    (auto simp: rx_sar_inv_def rx_sar_env_def rx_sar_table_def Let_def neq_Nil_conv table_simps
      bind_eq_Some_conv split: if_splits)

definition tx_sar_inv :: "nat \<Rightarrow> tx_sar_st \<Rightarrow> bool" where
  "tx_sar_inv n s \<longleftrightarrow> length (tx_table s) = n
     \<and> (\<forall>q\<in>set (txEng2txSar_upd_req s). unat (ttq_sessionID q) < n)
     \<and> (\<forall>q\<in>set (txApp2txSar_app_push s). unat (tap_sessionID q) < n)
     \<and> (\<forall>q\<in>set (rxEng2txSar_upd_req s). unat (rtq_sessionID q) < n)"

definition tx_sar_env :: "nat \<Rightarrow> tx_sar_st \<Rightarrow> tx_sar_st \<Rightarrow> bool" where
  "tx_sar_env n s t \<longleftrightarrow> tx_table t = tx_table s
     \<and> (\<exists>a. txEng2txSar_upd_req t = txEng2txSar_upd_req s @ a \<and>
            (\<forall>q\<in>set a. unat (ttq_sessionID q) < n))
     \<and> (\<exists>a. txApp2txSar_app_push t = txApp2txSar_app_push s @ a \<and>
            (\<forall>q\<in>set a. unat (tap_sessionID q) < n))
     \<and> (\<exists>a. rxEng2txSar_upd_req t = rxEng2txSar_upd_req s @ a \<and>
            (\<forall>q\<in>set a. unat (rtq_sessionID q) < n))"

interpretation txs: clocked "tx_sar_inv n" "tx_sar_env n" tx_sar_table for n
  by unfold_locales
    (auto simp: tx_sar_inv_def tx_sar_env_def tx_sar_table_def Let_def neq_Nil_conv table_simps
      bind_eq_Some_conv split: if_splits)

section \<open>The advertised window\<close>

lemma not_minus_word: "a - b - 1 = NOT (b - a)" for a b :: "'a::len word"
  by (simp add: not_eq_complement)

lemma unat_sub_one_free:
  "unat (a - b - 1 :: 'a::len word) + unat (b - a) + 1 = 2 ^ LENGTH('a)"
  unfolding not_minus_word unat_not
  using unat_less [of "b - a"] by linarith

lemma unat_ucast_drop_bit:
  fixes w :: u18
  shows "unat (ucast (drop_bit n w) :: u16) = unat w div 2 ^ n mod 2 ^ 16"
proof -
  have "unat (ucast (drop_bit n w) :: u16) = take_bit 16 (drop_bit n (unat w))"
    by (simp only: unsigned_ucast_eq unat_drop_bit_eq) simp
  then show ?thesis by (simp add: take_bit_eq_mod drop_bit_eq_div)
qed

text \<open>C4: never over-advertise.  The window offered to the peer (the 16-bit field shifted by the
  negotiated scale) plus the bytes the application has not read yet always stays below the
  receive buffer; with a scale of at least 2 it is the free space itself, rounded down.\<close>

theorem rx_sar_window_bound:
  assumes "rx_sar_table u s = Some t" and "txEng2rxSar_req s = k # ks"
  defines "e \<equiv> rx_table s ! unat k"
  defines "unread \<equiv> unat (ucast (rse_recvd e) - rse_appd e :: u18)"
  shows "\<exists>r. rxSar2txEng_rsp t = rxSar2txEng_rsp s @ [r] \<and> rsr_recvd r = rse_recvd e \<and>
     unread + unat (rsr_windowSize r) * 2 ^ unat (rse_win_shift e) < BUFFER_SIZE \<and>
     (unat (rse_win_shift e) < 2 \<or>
      unat (rsr_windowSize r) = (BUFFER_SIZE - 1 - unread) div 2 ^ unat (rse_win_shift e))"
proof -
  let ?n = "unat (rse_win_shift e)"
  let ?w = "rse_appd e - ucast (rse_recvd e) - 1 :: u18"
  have w: "unat ?w + unread + 1 = BUFFER_SIZE"
    using unat_sub_one_free [of "rse_appd e" "ucast (rse_recvd e)"]
    by (simp add: unread_def BUFFER_SIZE_def)
  have win: "unat (ucast (drop_bit ?n ?w) :: u16) = unat ?w div 2 ^ ?n mod 2 ^ 16"
    by (rule unat_ucast_drop_bit)
  have "unat (ucast (drop_bit ?n ?w) :: u16) * 2 ^ ?n \<le> unat ?w"
    unfolding win by (rule order_trans [OF mult_le_mono1 [OF mod_less_eq_dividend]]) simp
  moreover have "unread + p < BUFFER_SIZE" if "p \<le> unat ?w" for p
    using that w by linarith
  ultimately have le: "unread + unat (ucast (drop_bit ?n ?w) :: u16) * 2 ^ ?n < BUFFER_SIZE"
    by blast
  have ex: "unat ?w div 2 ^ ?n mod 2 ^ 16 = unat ?w div 2 ^ ?n" if "2 \<le> ?n"
  proof -
    have "unat ?w div 2 ^ ?n \<le> unat ?w div 2 ^ 2"
      using that by (intro div_le_mono2) (auto simp: power_increasing [of 2 _ "2::nat", simplified])
    also have "\<dots> < 2 ^ 16"
      using unat_less [of ?w] by (simp add: div_less_iff_less_mult)
    finally show ?thesis by simp
  qed
  have "rxSar2txEng_rsp t = rxSar2txEng_rsp s @ [rx_sar_reply u e]"
    using assms(1,2) by (auto simp: rx_sar_table_def bind_eq_Some_conv table_simps e_def)
  moreover have "BUFFER_SIZE - 1 - unread = unat ?w" using w by simp
  moreover have "?n < 2 \<or> unat (ucast (drop_bit ?n ?w) :: u16) = unat ?w div 2 ^ ?n"
    using ex win by linarith
  ultimately show ?thesis
    using le by (auto simp: rx_sar_reply_def Let_def)
qed

definition rx_ex_entry :: rxSarEntry where
  "rx_ex_entry = \<lparr>rse_recvd = 0x40010, rse_appd = 0, rse_win_shift = 2, rse_head = 0,
     rse_offset = 0, rse_gap = False\<rparr>"

definition rx_ex :: rx_sar_st where
  "rx_ex = \<lparr>rx_table = [rx_ex_entry], txEng2rxSar_req = [0], rxApp2rxSar_upd_req = [],
     rxEng2rxSar_upd_req = [], rxSar2txEng_rsp = [], rxSar2rxApp_upd_rsp = [],
     rxSar2rxEng_upd_rsp = []\<rparr>"

theorem rx_sar_window_bound_witness:
  "\<forall>u. \<exists>t r. rx_sar_table u rx_ex = Some t \<and> rxSar2txEng_rsp t = [r] \<and>
     16 + unat (rsr_windowSize r) * 4 < BUFFER_SIZE"
proof
  fix u
  obtain t where t: "rx_sar_table u rx_ex = Some t"
    by (simp add: rx_sar_table_def rx_ex_def)
  have q: "txEng2rxSar_req rx_ex = 0 # []" by (simp add: rx_ex_def)
  obtain r where "rxSar2txEng_rsp t = rxSar2txEng_rsp rx_ex @ [r]"
    "unat (ucast (rse_recvd rx_ex_entry) - rse_appd rx_ex_entry :: u18) +
       unat (rsr_windowSize r) * 2 ^ unat (rse_win_shift rx_ex_entry) < BUFFER_SIZE"
    using rx_sar_window_bound [OF t q] by (auto simp: rx_ex_def)
  with t show "\<exists>t r. rx_sar_table u rx_ex = Some t \<and> rxSar2txEng_rsp t = [r] \<and>
     16 + unat (rsr_windowSize r) * 4 < BUFFER_SIZE"
    by (auto simp: rx_ex_def rx_ex_entry_def)
qed

section \<open>The usable window\<close>

lemma put_bits_zero:
  fixes v :: "'b::len word"
  assumes "hi + 1 - lo = LENGTH('b)" "lo + LENGTH('b) \<le> LENGTH('a)" "lo \<le> hi"
  shows "(put_bits hi lo v 0 :: 'a::len word) = push_bit lo (ucast v)"
  using assms by (intro bit_word_eqI) (auto simp: bit_put_bits bit_simps dest: bit_imp_le_length)

lemma unat_scaled_recv_window:
  assumes "unat ws \<le> 14"
  shows "unat (scaled_recv_window 0 ws rw) = unat rw * 2 ^ unat ws"
proof -
  have "scaled_recv_window 0 ws rw = push_bit (unat ws) (ucast rw)"
    unfolding scaled_recv_window_def using assms by (intro put_bits_zero) auto
  moreover have "unat rw * 2 ^ unat ws < 2 ^ 16 * 2 ^ 14"
    using unat_less [of rw] power_increasing [OF assms, of "2::nat"]
    by (intro mult_less_le_imp_less) auto
  moreover have "unat (ucast rw :: u30) = unat rw"
    using unat_less [of rw] by (simp add: unsigned_ucast_eq take_bit_nat_eq_self)
  ultimately show ?thesis
    by (simp only: unsigned_push_bit_eq) (simp add: push_bit_eq_mult take_bit_nat_eq_self)
qed

text \<open>The window passed to the application is the smaller of the congestion window and the
  peer's scaled window, provided the variable's other bits were zero and the scale is one that
  TCP allows (at most 14).\<close>

theorem min_window_spec:
  assumes "unat ws \<le> 14"
  shows "unat (min_window 0 cw ws rw) = min (unat cw) (unat rw * 2 ^ unat ws)"
proof -
  have s: "unat (scaled_recv_window 0 ws rw) = unat rw * 2 ^ unat ws"
    by (rule unat_scaled_recv_window [OF assms])
  have "unat (ucast x :: u18) = unat x" if "unat x \<le> unat cw" for x :: u30
    using that unat_less [of cw]
    by (simp add: unsigned_ucast_eq take_bit_nat_eq_self)
  with s show ?thesis by (auto simp: min_window_def Let_def)
qed

theorem min_window_spec_witness: "unat (min_window 0 0x3908 2 0x1000) = min 0x3908 0x4000"
  using min_window_spec [of 2 "0x3908" "0x1000"] by simp

lemma unat_sub_wrap: "m < d \<Longrightarrow> unat (m - d) = BUFFER_SIZE - (unat d - unat m)" for m d :: u18
  using unat_less [of d] by (simp add: unat_sub_if' word_less_nat_alt BUFFER_SIZE_def)

text \<open>C5: what the transmit engine is given as usable window.  A window with room left
  (\<open>used \<le> window\<close>) is reported as 0; a window that is exceeded is reported as
  \<open>BUFFER_SIZE\<close> less the excess, which is larger than the window itself.  The specification
  \<open>window - used\<close> is met only when window and used bytes are equal.\<close>

theorem tx_sar_usable_window:
  fixes e :: txSarEntry and u :: u30 and ws :: u4
  defines "used \<equiv> unat (ucast (tse_not_ackd e) - ucast (tse_ackd e) :: u18)"
  defines "window \<equiv> unat (min_window u (tse_cong_window e) (tse_win_shift e) (tse_recv_window e))"
  shows "unat (ttr_usableWindow (tx_sar_read (u, ws) e)) =
      (if window < used then BUFFER_SIZE - (used - window) else 0)
    \<and> (unat (ttr_usableWindow (tx_sar_read (u, ws) e)) = window - used) = (window = used)"
proof -
  let ?w = "min_window u (tse_cong_window e) (tse_win_shift e) (tse_recv_window e)"
  let ?u = "ucast (tse_not_ackd e) - ucast (tse_ackd e) :: u18"
  have "unat (?w - ?u) = BUFFER_SIZE - (unat ?u - unat ?w)" if "?w < ?u"
    using that by (rule unat_sub_wrap)
  moreover have "used < BUFFER_SIZE"
    using unat_less [of ?u] by (simp add: used_def BUFFER_SIZE_def)
  ultimately show ?thesis
    by (auto simp: tx_sar_read_def Let_def used_def window_def word_less_nat_alt)
qed

end
