(* ===== verification/Port_Table.thy ===== *)
theory Port_Table
  imports Toe_Internals
begin

text \<open>
  \<open>port_table/port_table.cpp\<close>: the ports the engine listens on (0 to 32767) and the pool of
  ephemeral ports (32768 to 65535) for the connections it opens.

  The two tables have 32768 entries and every index has 15 bits, so an access cannot leave them:
  they are functions on \<open>u15\<close>.  \<open>port_table\<close> calls its four processes one after the other; the
  streams between them are fields of the same record.
\<close>

section \<open>State and operations\<close>

datatype cmFsmStateType = READ_DST | READ_LISTENING | READ_USED

record port_st =
  listeningPortTable :: "u15 \<Rightarrow> bool"
  freePortTable :: "u15 \<Rightarrow> bool"
  pt_cursor :: u15
  cm_fsmState :: cmFsmStateType
  rxApp2portTable_listen_req :: "u16 fifo"
  rxEng2portTable_check_req :: "u16 fifo"
  sLookup2portTable_releasePort :: "u16 fifo"
  pt_portCheckListening_req :: "u15 fifo"
  pt_portCheckUsed_req :: "u15 fifo"
  pt_dstFifo :: "bool fifo"
  pt_portCheckListening_rsp :: "bool fifo"
  pt_portCheckUsed_rsp :: "bool fifo"
  portTable2rxApp_listen_rsp :: "bool fifo"
  portTable2rxEng_check_rsp :: "bool fifo"
  portTable2txApp_port_rsp :: "u16 fifo"

definition listening_port_table :: "'a port_st_scheme \<Rightarrow> 'a port_st_scheme" where
  "listening_port_table s =
     (case rxApp2portTable_listen_req s of
        currPort # rest \<Rightarrow>
          let s = s\<lparr>rxApp2portTable_listen_req := rest\<rparr>;
              idx = bits 14 0 currPort :: u15
          in if listeningPortTable s idx \<and> currPort < 32768
             then s\<lparr>portTable2rxApp_listen_rsp := portTable2rxApp_listen_rsp s @ [True]\<rparr>
             else if \<not> listeningPortTable s idx \<and> currPort < 32768
             then s\<lparr>listeningPortTable := (listeningPortTable s)(ucast currPort := True),
                    portTable2rxApp_listen_rsp := portTable2rxApp_listen_rsp s @ [True]\<rparr>
             else s\<lparr>portTable2rxApp_listen_rsp := portTable2rxApp_listen_rsp s @ [False]\<rparr>
      | [] \<Rightarrow>
          (case pt_portCheckListening_req s of
             p # rest \<Rightarrow>
               s\<lparr>pt_portCheckListening_req := rest,
                 pt_portCheckListening_rsp :=
                   pt_portCheckListening_rsp s @ [listeningPortTable s p]\<rparr>
           | [] \<Rightarrow> s))"

text \<open>The port handed out for entry \<open>c\<close>: \<open>freePort(14, 0) = c; freePort[15] = 1\<close>.\<close>

definition freePort_of :: "u15 \<Rightarrow> u16" where
  "freePort_of c = put_bits 15 15 (1 :: 1 word) (put_bits 14 0 c 0)"

definition free_port_table :: "bool \<Rightarrow> 'a port_st_scheme \<Rightarrow> 'a port_st_scheme" where
  "free_port_table full s =
     (let s' =
        (case sLookup2portTable_releasePort s of
           currPort # rest \<Rightarrow>
             let s = s\<lparr>sLookup2portTable_releasePort := rest\<rparr>
             in if currPort \<ge> 32768
                then s\<lparr>freePortTable := (freePortTable s)(bits 14 0 currPort := False)\<rparr>
                else s
         | [] \<Rightarrow>
             (case pt_portCheckUsed_req s of
                p # rest \<Rightarrow>
                  s\<lparr>pt_portCheckUsed_req := rest,
                    pt_portCheckUsed_rsp := pt_portCheckUsed_rsp s @ [freePortTable s p]\<rparr>
              | [] \<Rightarrow>
                  if \<not> freePortTable s (pt_cursor s) \<and> \<not> full
                  then s\<lparr>freePortTable := (freePortTable s)(pt_cursor s := True),
                         portTable2txApp_port_rsp :=
                           portTable2txApp_port_rsp s @ [freePort_of (pt_cursor s)]\<rparr>
                  else s))
      in s'\<lparr>pt_cursor := pt_cursor s + 1\<rparr>)"

definition check_in_multiplexer :: "'a port_st_scheme \<Rightarrow> 'a port_st_scheme" where
  "check_in_multiplexer s =
     (case rxEng2portTable_check_req s of
        checkPort # rest \<Rightarrow>
          let s = s\<lparr>rxEng2portTable_check_req := rest\<rparr>;
              swappedCheckPort = reverse16 checkPort
          in if swappedCheckPort < 32768
             then s\<lparr>pt_portCheckListening_req :=
                      pt_portCheckListening_req s @ [ucast swappedCheckPort],
                    pt_dstFifo := pt_dstFifo s @ [True]\<rparr>
             else s\<lparr>pt_portCheckUsed_req := pt_portCheckUsed_req s @ [ucast swappedCheckPort],
                    pt_dstFifo := pt_dstFifo s @ [False]\<rparr>
      | [] \<Rightarrow> s)"

definition check_out_multiplexer :: "'a port_st_scheme \<Rightarrow> 'a port_st_scheme" where
  "check_out_multiplexer s =
     (case cm_fsmState s of
        READ_DST \<Rightarrow>
          (case pt_dstFifo s of
             d # rest \<Rightarrow> s\<lparr>pt_dstFifo := rest,
                           cm_fsmState := (if d then READ_LISTENING else READ_USED)\<rparr>
           | [] \<Rightarrow> s)
      | READ_LISTENING \<Rightarrow>
          (case pt_portCheckListening_rsp s of
             r # rest \<Rightarrow> s\<lparr>pt_portCheckListening_rsp := rest,
                           portTable2rxEng_check_rsp := portTable2rxEng_check_rsp s @ [r],
                           cm_fsmState := READ_DST\<rparr>
           | [] \<Rightarrow> s)
      | READ_USED \<Rightarrow>
          (case pt_portCheckUsed_rsp s of
             r # rest \<Rightarrow> s\<lparr>pt_portCheckUsed_rsp := rest,
                           portTable2rxEng_check_rsp := portTable2rxEng_check_rsp s @ [r],
                           cm_fsmState := READ_DST\<rparr>
           | [] \<Rightarrow> s))"

definition port_table :: "bool \<Rightarrow> 'a port_st_scheme \<Rightarrow> 'a port_st_scheme" where
  "port_table full s =
     check_out_multiplexer (check_in_multiplexer (free_port_table full (listening_port_table s)))"

definition port_init :: port_st where
  "port_init = \<lparr>listeningPortTable = (\<lambda>_. False), freePortTable = (\<lambda>_. False), pt_cursor = 0,
     cm_fsmState = READ_DST, rxApp2portTable_listen_req = [], rxEng2portTable_check_req = [],
     sLookup2portTable_releasePort = [], pt_portCheckListening_req = [],
     pt_portCheckUsed_req = [], pt_dstFifo = [], pt_portCheckListening_rsp = [],
     pt_portCheckUsed_rsp = [], portTable2rxApp_listen_rsp = [],
     portTable2rxEng_check_rsp = [], portTable2txApp_port_rsp = []\<rparr>"

section \<open>Ports as numbers\<close>

lemma bit_freePort_of: "bit (freePort_of c) n \<longleftrightarrow> n = 15 \<or> bit c n"
  by (auto simp: freePort_of_def bit_put_bits dest: bit_imp_le_length)

lemma bits_freePort_of [simp]: "bits 14 0 (freePort_of c) = c"
  by (intro bit_word_eqI) (auto simp: bit_bits bit_freePort_of)

lemma freePort_of_inj [simp]: "freePort_of c = freePort_of d \<longleftrightarrow> c = d"
  by (metis bits_freePort_of)

lemma high_iff_bit: "32768 \<le> p \<longleftrightarrow> bit p 15" for p :: u16
proof -
  have "bit p 15 \<longleftrightarrow> bit (unat p) 15" by (simp add: bit_unsigned_iff)
  also have "\<dots> \<longleftrightarrow> odd (unat p div 32768)" by (simp add: bit_iff_odd)
  also have "\<dots> \<longleftrightarrow> 32768 \<le> unat p"
  proof -
    have "unat p div 32768 < 2" using unat_less [of p] by (simp add: div_less_iff_less_mult)
    then consider "unat p div 32768 = 0" | "unat p div 32768 = 1" by linarith
    then show ?thesis by cases (auto simp: div_eq_0_iff)
  qed
  finally show ?thesis by (simp add: word_le_nat_alt)
qed

lemma freePort_of_ge [simp]: "32768 \<le> freePort_of c"
  by (simp add: high_iff_bit bit_freePort_of)

lemma freePort_of_bits: "32768 \<le> p \<Longrightarrow> freePort_of (bits 14 0 p) = p"
  unfolding high_iff_bit
proof (rule bit_word_eqI)
  fix n assume p: "bit p 15" and "n < LENGTH(16)"
  then show "bit (freePort_of (bits 14 0 p)) n = bit p n"
    by (cases "n = 15") (auto simp: bit_freePort_of bit_bits)
qed

lemma bits_eq_high: "\<lbrakk>32768 \<le> p; 32768 \<le> q; bits 14 0 p = (bits 14 0 q :: u15)\<rbrakk> \<Longrightarrow> p = q"
  for p q :: u16
  by (metis freePort_of_bits)

lemma bits_ucast: "bits 14 0 p = (ucast p :: u15)" for p :: u16
  by (intro bit_word_eqI) (auto simp: bit_bits bit_simps)

section \<open>The component with its clients\<close>

text \<open>
  Two history variables follow the clients: the ephemeral ports they hold, and the check requests
  they made, each with the answer it had deserved when it was made.
\<close>

record port_sys = port_st +
  g_held :: "u16 list"
  g_asked :: "(u16 \<times> bool) list"

definition port_sys_init :: port_sys where
  "port_sys_init = port_st.extend port_init \<lparr>g_held = [], g_asked = []\<rparr>"

definition is_listening :: "port_sys \<Rightarrow> u16 \<Rightarrow> bool" where
  "is_listening s p \<longleftrightarrow> p < 32768 \<and> listeningPortTable s (ucast p)"

inductive port_env :: "port_sys \<Rightarrow> port_sys \<Rightarrow> bool" where
  take_port: "portTable2txApp_port_rsp s = p # ps \<Longrightarrow>
     port_env s (s\<lparr>portTable2txApp_port_rsp := ps, g_held := p # g_held s\<rparr>)"
| release_port: "p \<in> set (g_held s) \<Longrightarrow>
     port_env s (s\<lparr>g_held := remove1 p (g_held s),
       sLookup2portTable_releasePort := sLookup2portTable_releasePort s @ [p]\<rparr>)"
| listen: "port_env s (s\<lparr>rxApp2portTable_listen_req := rxApp2portTable_listen_req s @ [p]\<rparr>)"
| check: "port_env s (s\<lparr>rxEng2portTable_check_req := rxEng2portTable_check_req s @ [reverse16 p],
     g_asked := g_asked s @ [(p, is_listening s p)]\<rparr>)"

definition port_cyc :: "bool \<Rightarrow> port_sys \<Rightarrow> port_sys option" where
  "port_cyc full s = Some (port_table full s)"

subsection \<open>The pool of ephemeral ports\<close>

definition owned :: "port_sys \<Rightarrow> u16 list" where
  "owned s = portTable2txApp_port_rsp s @ g_held s @ sLookup2portTable_releasePort s"

definition pool_inv :: "port_sys \<Rightarrow> bool" where
  "pool_inv s \<longleftrightarrow> distinct (owned s) \<and>
     (\<forall>p\<in>set (owned s). 32768 \<le> p \<and> freePortTable s (bits 14 0 p))"

lemma pool_inv_env: "\<lbrakk>pool_inv s; port_env s t\<rbrakk> \<Longrightarrow> pool_inv t"
  by (erule port_env.cases) (auto simp: pool_inv_def owned_def dest: notin_set_remove1)

lemma pool_frame [simp]:
  "pool_inv (listening_port_table s) = pool_inv s"
  "pool_inv (check_in_multiplexer s) = pool_inv s"
  "pool_inv (check_out_multiplexer s) = pool_inv s"
  by (auto simp: listening_port_table_def check_in_multiplexer_def check_out_multiplexer_def
      pool_inv_def owned_def Let_def split: list.splits cmFsmStateType.splits)

lemma pool_inv_free: "pool_inv s \<Longrightarrow> pool_inv (free_port_table full s)"
proof (cases "sLookup2portTable_releasePort s")
  case (Cons p ps)
  assume "pool_inv s"
  with Cons show ?thesis
    by (auto simp: free_port_table_def pool_inv_def owned_def Let_def dest: bits_eq_high)
next
  case Nil
  assume inv: "pool_inv s"
  then have "freePort_of (pt_cursor s) \<notin> set (owned s)" if "\<not> freePortTable s (pt_cursor s)"
    using that bits_freePort_of [of "pt_cursor s"] unfolding pool_inv_def by metis
  with Nil inv show ?thesis
    by (cases "pt_portCheckUsed_req s") (auto simp: free_port_table_def pool_inv_def owned_def)
qed

lemma pool_inv_init [simp]: "pool_inv port_sys_init"
  by (simp add: pool_inv_def owned_def port_sys_init_def port_init_def port_st.defs)

interpretation pool: clocked pool_inv port_env port_cyc
  by unfold_locales (auto simp: port_cyc_def port_table_def intro: pool_inv_env intro!: pool_inv_free)

text \<open>C6: as long as clients release only ports they hold, an ephemeral port has one owner.  The
  ports waiting to be taken, held by clients, or on their way back are pairwise distinct, lie in
  the range 32768 to 65535, and are marked as used.\<close>

theorem port_pool_exclusive:
  assumes "reach port_env port_cyc port_sys_init s"
  shows "distinct (portTable2txApp_port_rsp s @ g_held s @ sLookup2portTable_releasePort s) \<and>
    (\<forall>p\<in>set (portTable2txApp_port_rsp s @ g_held s @ sLookup2portTable_releasePort s).
       32768 \<le> p \<and> freePortTable s (bits 14 0 p))"
  using pool.reach_inv [OF assms pool_inv_init] unfolding pool_inv_def owned_def .

definition port_ex :: port_sys where
  "port_ex = port_table False (port_table False port_sys_init)"

lemma port_ex_reach: "reach port_env port_cyc port_sys_init port_ex"
  unfolding port_ex_def
  by (rule reach_cyc [OF reach_cyc [OF reach_init]]) (simp_all add: port_cyc_def)

lemma port_ex_rsp: "portTable2txApp_port_rsp port_ex = [freePort_of 0, freePort_of 1]"
  by (simp add: port_ex_def port_sys_init_def port_init_def port_st.defs port_table_def
      listening_port_table_def free_port_table_def check_in_multiplexer_def
      check_out_multiplexer_def)

theorem port_pool_exclusive_witness:
  "\<exists>s. reach port_env port_cyc port_sys_init s \<and> g_held s = [freePort_of 0] \<and>
     portTable2txApp_port_rsp s = [freePort_of 1] \<and> freePort_of 0 \<noteq> freePort_of 1"
proof -
  let ?s = "port_ex\<lparr>portTable2txApp_port_rsp := [freePort_of 1],
    g_held := freePort_of 0 # g_held port_ex\<rparr>"
  have r: "reach port_env port_cyc port_sys_init ?s"
    by (rule reach_env [OF port_ex_reach], rule port_env.take_port) (rule port_ex_rsp)
  have h: "g_held port_ex = []"
    by (simp add: port_ex_def port_sys_init_def port_init_def port_st.defs port_table_def
        listening_port_table_def free_port_table_def check_in_multiplexer_def
        check_out_multiplexer_def)
  from port_pool_exclusive [OF r] have "freePort_of 0 \<noteq> freePort_of 1" by simp
  with r h show ?thesis by (intro exI [of _ ?s]) simp
qed

subsection \<open>The check multiplexers\<close>

abbreviation low :: "u16 \<times> bool \<Rightarrow> bool" where
  "low q \<equiv> fst q < 32768"

text \<open>
  An answer \<open>a\<close> for the request \<open>q\<close> is justified: it is yes if the port was open when asked, and
  only if the port is open by now.
\<close>

definition justified :: "port_sys \<Rightarrow> u16 \<times> bool \<Rightarrow> bool \<Rightarrow> bool" where
  "justified s q a \<longleftrightarrow> (low q \<longrightarrow> (snd q \<longrightarrow> a) \<and> (a \<longrightarrow> is_listening s (fst q)))"

definition waiting :: "port_sys \<Rightarrow> bool list" where
  "waiting s = (case cm_fsmState s of READ_DST \<Rightarrow> [] | READ_LISTENING \<Rightarrow> [True]
     | READ_USED \<Rightarrow> [False]) @ pt_dstFifo s"

text \<open>
  Where the requests are: \<open>dn\<close> are answered, \<open>mid\<close> are between the multiplexers, \<open>todo\<close> are not
  read yet; of those in between, \<open>la\<close> and \<open>ua\<close> have been looked up, \<open>lp\<close> and \<open>up\<close> have not.
\<close>

definition chk_at ::
  "port_sys \<Rightarrow> (u16 \<times> bool) list \<Rightarrow> (u16 \<times> bool) list \<Rightarrow> (u16 \<times> bool) list \<Rightarrow> (u16 \<times> bool) list
    \<Rightarrow> (u16 \<times> bool) list \<Rightarrow> (u16 \<times> bool) list \<Rightarrow> (u16 \<times> bool) list \<Rightarrow> bool" where
  "chk_at s dn mid todo la lp ua up \<longleftrightarrow>
     g_asked s = dn @ mid @ todo \<and>
     rxEng2portTable_check_req s = map (reverse16 \<circ> fst) todo \<and>
     map low mid = waiting s \<and>
     filter low mid = la @ lp \<and> filter (\<lambda>q. \<not> low q) mid = ua @ up \<and>
     pt_portCheckListening_req s = map (ucast \<circ> fst) lp \<and>
     pt_portCheckUsed_req s = map (ucast \<circ> fst) up \<and>
     length ua = length (pt_portCheckUsed_rsp s) \<and>
     list_all2 (justified s) la (pt_portCheckListening_rsp s) \<and>
     list_all2 (justified s) dn (portTable2rxEng_check_rsp s) \<and>
     (\<forall>q\<in>set (mid @ todo). snd q \<longrightarrow> is_listening s (fst q))"

definition chk_inv :: "port_sys \<Rightarrow> bool" where
  "chk_inv s \<longleftrightarrow> (\<exists>dn mid todo la lp ua up. chk_at s dn mid todo la lp ua up)"

lemma chk_invI: "chk_at s dn mid todo la lp ua up \<Longrightarrow> chk_inv s"
  unfolding chk_inv_def by blast

lemma chk_inv_cong:
  assumes "chk_inv s" and "g_asked t = g_asked s"
    "rxEng2portTable_check_req t = rxEng2portTable_check_req s"
    "cm_fsmState t = cm_fsmState s" "pt_dstFifo t = pt_dstFifo s"
    "pt_portCheckListening_req t = pt_portCheckListening_req s"
    "pt_portCheckUsed_req t = pt_portCheckUsed_req s"
    "pt_portCheckUsed_rsp t = pt_portCheckUsed_rsp s"
    "pt_portCheckListening_rsp t = pt_portCheckListening_rsp s"
    "portTable2rxEng_check_rsp t = portTable2rxEng_check_rsp s"
    and mono: "\<And>p. is_listening s p \<Longrightarrow> is_listening t p"
  shows "chk_inv t"
proof -
  from assms(1) obtain dn mid todo la lp ua up where c: "chk_at s dn mid todo la lp ua up"
    unfolding chk_inv_def by blast
  have j: "list_all2 (justified t) xs ys" if "list_all2 (justified s) xs ys" for xs ys
    using that by (rule list_all2_mono) (auto simp: justified_def intro: mono)
  have "chk_at t dn mid todo la lp ua up"
    using c assms(2-10) mono j by (simp add: chk_at_def waiting_def)
  then show ?thesis by (rule chk_invI)
qed

lemma chk_inv_env: "\<lbrakk>chk_inv s; port_env s t\<rbrakk> \<Longrightarrow> chk_inv t"
proof (erule port_env.cases, goal_cases)
  case (4 s' p)
  then obtain dn mid todo la lp ua up where "chk_at s dn mid todo la lp ua up"
    unfolding chk_inv_def by blast
  then have "chk_at t dn mid (todo @ [(p, is_listening s p)]) la lp ua up"
    using 4 by (simp add: chk_at_def waiting_def is_listening_def justified_def [abs_def])
  then show ?case by (rule chk_invI)
qed (erule chk_inv_cong; simp add: is_listening_def)+

lemma chk_inv_listening: "chk_inv s \<Longrightarrow> chk_inv (listening_port_table s)"
proof (cases "rxApp2portTable_listen_req s")
  case (Cons p ps)
  assume "chk_inv s"
  with Cons show ?thesis
    by (elim chk_inv_cong) (auto simp: listening_port_table_def Let_def is_listening_def)
next
  case Nil
  assume "chk_inv s"
  then obtain dn mid todo la lp ua up where c: "chk_at s dn mid todo la lp ua up"
    unfolding chk_inv_def by blast
  show ?thesis
  proof (cases lp)
    case (Cons q lp')
    have "q \<in> set (filter low mid)" using c Cons by (simp add: chk_at_def)
    then have q: "q \<in> set mid" "low q" by auto
    let ?t = "listening_port_table s"
    have a: "justified s q (listeningPortTable s (ucast (fst q)))"
      using q c by (auto simp: justified_def is_listening_def chk_at_def)
    have "chk_at ?t dn mid todo (la @ [q]) lp' ua up"
      using c Cons Nil a
      by (simp add: chk_at_def listening_port_table_def waiting_def is_listening_def
          justified_def [abs_def] list_all2_appendI)
    then show ?thesis by (rule chk_invI)
  next
    case lpn: Nil
    with c Nil have "listening_port_table s = s"
      by (simp add: listening_port_table_def chk_at_def)
    with \<open>chk_inv s\<close> show ?thesis by simp
  qed
qed

lemma chk_inv_free: "chk_inv s \<Longrightarrow> chk_inv (free_port_table full s)"
proof (cases "sLookup2portTable_releasePort s = [] \<and> pt_portCheckUsed_req s \<noteq> []")
  case True
  assume "chk_inv s"
  then obtain dn mid todo la lp ua up where c: "chk_at s dn mid todo la lp ua up"
    unfolding chk_inv_def by blast
  with True obtain q up' where q: "up = q # up'" by (cases up) (auto simp: chk_at_def)
  have "chk_at (free_port_table full s) dn mid todo la lp (ua @ [q]) up'"
    using c q True
    by (simp add: chk_at_def free_port_table_def waiting_def is_listening_def
        justified_def [abs_def])
  then show ?thesis by (rule chk_invI)
next
  case False
  assume "chk_inv s"
  with False show ?thesis
    by (elim chk_inv_cong)
      (auto simp: free_port_table_def Let_def is_listening_def split: list.splits)
qed

lemma chk_inv_in: "chk_inv s \<Longrightarrow> chk_inv (check_in_multiplexer s)"
proof -
  assume inv: "chk_inv s"
  then obtain dn mid todo la lp ua up where c: "chk_at s dn mid todo la lp ua up"
    unfolding chk_inv_def by blast
  show ?thesis
  proof (cases todo)
    case Nil
    with c have "check_in_multiplexer s = s" by (simp add: check_in_multiplexer_def chk_at_def)
    with inv show ?thesis by simp
  next
    case (Cons q todo')
    have "chk_at (check_in_multiplexer s) dn (mid @ [q]) todo' la (if low q then lp @ [q] else lp)
        ua (if low q then up else up @ [q])"
      using c Cons
      by (auto simp: chk_at_def check_in_multiplexer_def waiting_def is_listening_def
          justified_def [abs_def])
    then show ?thesis by (rule chk_invI)
  qed
qed

lemma chk_inv_out: "chk_inv s \<Longrightarrow> chk_inv (check_out_multiplexer s)"
proof -
  assume inv: "chk_inv s"
  then obtain dn mid todo la lp ua up where c: "chk_at s dn mid todo la lp ua up"
    unfolding chk_inv_def by blast
  let ?t = "check_out_multiplexer s"
  consider (idle) "?t = s"
    | (dst) d ds where "cm_fsmState s = READ_DST" "pt_dstFifo s = d # ds"
    | (lis) r rs where "cm_fsmState s = READ_LISTENING" "pt_portCheckListening_rsp s = r # rs"
    | (use) r rs where "cm_fsmState s = READ_USED" "pt_portCheckUsed_rsp s = r # rs"
    by (cases "cm_fsmState s"; cases "pt_dstFifo s"; cases "pt_portCheckListening_rsp s";
        cases "pt_portCheckUsed_rsp s") (auto simp: check_out_multiplexer_def)
  then show ?thesis
  proof cases
    case idle
    with inv show ?thesis by simp
  next
    case dst
    with c have "chk_at ?t dn mid todo la lp ua up"
      by (cases d) (simp_all add: chk_at_def check_out_multiplexer_def waiting_def
          is_listening_def justified_def [abs_def])
    then show ?thesis by (rule chk_invI)
  next
    case lis
    with c obtain q mid' where m: "mid = q # mid'" "low q" by (auto simp: chk_at_def waiting_def)
    from c lis obtain q' la' where l: "la = q' # la'"
      by (auto simp: chk_at_def list_all2_Cons2)
    have [simp]: "q' = q" using c m l by (simp add: chk_at_def)
    have "chk_at ?t (dn @ [q]) mid' todo la' lp ua up"
      using c m l lis
      by (simp add: chk_at_def check_out_multiplexer_def waiting_def is_listening_def
          justified_def [abs_def] list_all2_appendI)
    then show ?thesis by (rule chk_invI)
  next
    case use
    with c obtain q mid' where m: "mid = q # mid'" "\<not> low q"
      by (auto simp: chk_at_def waiting_def)
    from c use obtain q' ua' where l: "ua = q' # ua'"
      by (cases ua) (auto simp: chk_at_def)
    have [simp]: "q' = q" using c m l by (simp add: chk_at_def)
    have "justified s q r" using m by (simp add: justified_def)
    then have "chk_at ?t (dn @ [q]) mid' todo la lp ua' up"
      using c m l use
      by (simp add: chk_at_def check_out_multiplexer_def waiting_def is_listening_def
          justified_def [abs_def] list_all2_appendI)
    then show ?thesis by (rule chk_invI)
  qed
qed

lemma chk_inv_init [simp]: "chk_inv port_sys_init"
  by (rule chk_invI [of _ "[]" "[]" "[]" "[]" "[]" "[]" "[]"])
    (simp add: chk_at_def waiting_def port_sys_init_def port_init_def port_st.defs)

interpretation checks: clocked chk_inv port_env port_cyc
  by unfold_locales
    (auto simp: port_cyc_def port_table_def intro: chk_inv_env
      intro!: chk_inv_out chk_inv_in chk_inv_free chk_inv_listening)

text \<open>Check requests are answered in the order they were made, whichever table they go to.
  The n-th answer belongs to the n-th request; for a port of the listening range it is yes if the
  port was open when the request was made, and it is yes only if the port is open.\<close>

theorem port_check_answers:
  assumes "reach port_env port_cyc port_sys_init s"
  shows "length (portTable2rxEng_check_rsp s) \<le> length (g_asked s) \<and>
    (\<forall>i < length (portTable2rxEng_check_rsp s). fst (g_asked s ! i) < 32768 \<longrightarrow>
      (snd (g_asked s ! i) \<longrightarrow> portTable2rxEng_check_rsp s ! i) \<and>
      (portTable2rxEng_check_rsp s ! i \<longrightarrow>
         listeningPortTable s (ucast (fst (g_asked s ! i)))))"
proof -
  have "chk_inv s" by (rule checks.reach_inv [OF assms chk_inv_init])
  then obtain dn mid todo where a: "g_asked s = dn @ mid @ todo"
    and d: "list_all2 (justified s) dn (portTable2rxEng_check_rsp s)"
    unfolding chk_inv_def chk_at_def by blast
  then show ?thesis
    by (auto simp: list_all2_conv_all_nth nth_append justified_def is_listening_def)
qed

definition port_ex_check :: port_sys where
  "port_ex_check =
     (let s = port_sys_init\<lparr>rxApp2portTable_listen_req := [80]\<rparr>;
          s = port_table True s;
          s = s\<lparr>rxEng2portTable_check_req := [reverse16 80], g_asked := [(80, True)]\<rparr>
      in port_table True (port_table True (port_table True s)))"

lemma port_ex_check_reach: "reach port_env port_cyc port_sys_init port_ex_check"
proof -
  let ?a = "port_sys_init\<lparr>rxApp2portTable_listen_req := rxApp2portTable_listen_req port_sys_init @ [80]\<rparr>"
  let ?b = "port_table True ?a"
  let ?c = "?b\<lparr>rxEng2portTable_check_req := rxEng2portTable_check_req ?b @ [reverse16 80],
    g_asked := g_asked ?b @ [(80, is_listening ?b 80)]\<rparr>"
  note cyc = reach_cyc [where env = port_env and cyc = port_cyc and i = True]
  have "reach port_env port_cyc port_sys_init ?a" by (rule reach_env, rule reach_init, rule port_env.listen)
  then have "reach port_env port_cyc port_sys_init ?b" by (rule cyc) (simp add: port_cyc_def)
  then have "reach port_env port_cyc port_sys_init ?c" by (rule reach_env [of _ _ _ ?b ?c]) (rule port_env.check)
  then have "reach port_env port_cyc port_sys_init
      (port_table True (port_table True (port_table True ?c)))"
    by (rule cyc [OF cyc [OF cyc]]) (simp_all only: port_cyc_def)
  moreover have "rxApp2portTable_listen_req port_sys_init = []"
    "rxEng2portTable_check_req ?b = []" "g_asked ?b = []" "is_listening ?b 80"
    by code_simp+
  ultimately show ?thesis by (simp add: port_ex_check_def Let_def)
qed

lemma port_ex_check_rsp:
  "portTable2rxEng_check_rsp port_ex_check = [True] \<and> g_asked port_ex_check = [(80, True)]"
  by code_simp

theorem port_check_answers_witness:
  "portTable2rxEng_check_rsp port_ex_check ! 0 \<and> listeningPortTable port_ex_check 80"
  using port_check_answers [OF port_ex_check_reach] by (simp add: port_ex_check_rsp)

subsection \<open>A free port is found\<close>

lemma free_port_scan:
  assumes "sLookup2portTable_releasePort s = []" "pt_portCheckUsed_req s = []"
    and "\<forall>j<n. freePortTable s (pt_cursor s + of_nat j)"
  shows "(free_port_table False ^^ n) s = s\<lparr>pt_cursor := pt_cursor s + of_nat n\<rparr>"
  using assms by (induction n) (auto simp: free_port_table_def algebra_simps)

text \<open>C7: if some entry is free, an idle pool hands out a port within 32768 cycles, whatever the
  cursor's position, and marks exactly that port.\<close>

theorem free_port_found:
  assumes "sLookup2portTable_releasePort s = []" "pt_portCheckUsed_req s = []"
    and "\<not> freePortTable s c"
  shows "\<exists>n d. 0 < n \<and> n \<le> 32768 \<and> \<not> freePortTable s d \<and>
    portTable2txApp_port_rsp ((free_port_table False ^^ n) s) =
      portTable2txApp_port_rsp s @ [freePort_of d] \<and>
    freePortTable ((free_port_table False ^^ n) s) = (freePortTable s)(d := True)"
proof -
  let ?P = "\<lambda>k. \<not> freePortTable s (pt_cursor s + of_nat k)"
  let ?start = "unat (c - pt_cursor s)"
  let ?k = "LEAST k. ?P k"
  have k0: "?P ?start" using assms(3) by simp
  from k0 have P: "?P ?k" by (rule LeastI [of ?P ?start])
  have "?k \<le> ?start" using k0 by (rule Least_le [of ?P ?start])
  also have "?start < 32768" using unat_less [of "c - pt_cursor s"] by simp
  finally have bound: "?k + 1 \<le> 32768" by simp
  have "(free_port_table False ^^ ?k) s = s\<lparr>pt_cursor := pt_cursor s + of_nat ?k\<rparr>"
    using assms(1,2) not_less_Least by (intro free_port_scan) blast+
  then have "(free_port_table False ^^ (?k + 1)) s =
      free_port_table False (s\<lparr>pt_cursor := pt_cursor s + of_nat ?k\<rparr>)" by simp
  with P bound assms(1,2) show ?thesis
    by (intro exI [of _ "?k + 1"] exI [of _ "pt_cursor s + of_nat ?k"])
      (simp add: free_port_table_def)
qed

theorem free_port_found_witness:
  "\<exists>n d. 0 < n \<and> n \<le> 32768 \<and>
    portTable2txApp_port_rsp ((free_port_table False ^^ n) (port_init\<lparr>pt_cursor := 7\<rparr>)) =
      [freePort_of d]"
  using free_port_found [of "port_init\<lparr>pt_cursor := 7\<rparr>" 3] by (auto simp: port_init_def)

end
