(* ===== verification/Session_Lookup.thy ===== *)
theory Session_Lookup
  imports Toe_Internals
begin

text \<open>
  \<open>session_lookup_controller/session_lookup_controller.cpp\<close>: which session a connection belongs
  to.  The controller owns the session identifiers and the reverse table (from session to
  addresses); the forward table (from addresses to session) is the hash table of \<open>hash_table.cpp\<close>
  behind the streams \<open>sessionLookup_req\<close> and \<open>sessionUpdate_req\<close>.  Here it is part of the environment,
  with the contract that \<open>Hash_Table\<close> proves of it: an insert can fail, and then an entry is lost.

  The component is called with \<open>myIpAddress\<close>.  The two arrays have \<open>MAX_SESSIONS\<close> entries.
\<close>

section \<open>Types\<close>

datatype lookupSource = RX | TX_APP
datatype lookupOp = INSERT | DELETE

record threeTupleInternal =
  theirIp :: u32
  myPort :: u16
  theirPort :: u16

record sessionLookupQueryInternal =
  qi_tuple :: threeTupleInternal
  qi_allowCreation :: bool
  qi_source :: lookupSource

record rtlSessionLookupRequest =
  lrq_key :: threeTupleInternal
  lrq_source :: lookupSource

record rtlSessionUpdateRequest =
  urq_op :: lookupOp
  urq_key :: threeTupleInternal
  urq_value :: u16
  urq_source :: lookupSource

definition rtlSessionUpdateRequest_mk ::
  "threeTupleInternal \<Rightarrow> u16 \<Rightarrow> lookupOp \<Rightarrow> lookupSource \<Rightarrow> rtlSessionUpdateRequest" where
  "rtlSessionUpdateRequest_mk key v op src =
     \<lparr>urq_op = op, urq_key = key, urq_value = v, urq_source = src\<rparr>"

record rtlSessionLookupReply =
  lrp_key :: threeTupleInternal
  lrp_sessionID :: u16
  lrp_hit :: bool
  lrp_source :: lookupSource

record rtlSessionUpdateReply =
  urp_op :: lookupOp
  urp_key :: threeTupleInternal
  urp_sessionID :: u16
  urp_success :: bool
  urp_source :: lookupSource

record revLupInsert =
  rli_key :: u16
  rli_value :: threeTupleInternal

datatype slcFsmStateType = LUP_REQ | LUP_RSP | UPD_RSP

text \<open>\<open>operator<\<close> of \<open>threeTupleInternal\<close>, for the \<open>std::map\<close> of the simulation.\<close>

definition threeTuple_less :: "threeTupleInternal \<Rightarrow> threeTupleInternal \<Rightarrow> bool" where
  "threeTuple_less a b =
     (if theirIp a < theirIp b then True
      else if theirIp a = theirIp b then
        (if myPort a < myPort b then True
         else if myPort a = myPort b then (if theirPort a < theirPort b then True else False)
         else False)
      else False)"

section \<open>State\<close>

record sl_st =
  counter :: u14
  slc_insertTuples :: "threeTupleInternal fifo"
  slc_queryCache :: "sessionLookupQueryInternal fifo"
  slc_fsmState :: slcFsmStateType
  usedSessionIDs :: u16
  regSessionCount :: u16
  reverseLookupTable :: "threeTupleInternal list"
  tupleValid :: "bool list"
  slc_sessionIdFreeList :: "u14 fifo"
  slc_sessionIdFinFifo :: "u14 fifo"
  slc_sessionInsert_rsp :: "rtlSessionUpdateReply fifo"
  sessionInsert_req :: "rtlSessionUpdateRequest fifo"
  sessionDelete_req :: "rtlSessionUpdateRequest fifo"
  reverseLupInsertFifo :: "revLupInsert fifo"
  rxEng2sLookup_req :: "sessionLookupQuery fifo"
  txApp2sLookup_req :: "fourTuple fifo"
  stateTable2sLookup_releaseSession :: "u16 fifo"
  txEng2sLookup_rev_req :: "u16 fifo"
  sessionLookup_rsp :: "rtlSessionLookupReply fifo"
  sessionUpdate_rsp :: "rtlSessionUpdateReply fifo"
  sLookup2rxEng_rsp :: "sessionLookupReply fifo"
  sLookup2txApp_rsp :: "sessionLookupReply fifo"
  sLookup2portTable_releasePort :: "u16 fifo"
  sLookup2txEng_rev_rsp :: "fourTuple fifo"
  sessionLookup_req :: "rtlSessionLookupRequest fifo"
  sessionUpdate_req :: "rtlSessionUpdateRequest fifo"

section \<open>Operations\<close>

definition sessionIdManager :: "'a sl_st_scheme \<Rightarrow> 'a sl_st_scheme" where
  "sessionIdManager s =
     (case slc_sessionIdFinFifo s of
        sessionID # rest \<Rightarrow>
          s\<lparr>slc_sessionIdFinFifo := rest,
            slc_sessionIdFreeList := slc_sessionIdFreeList s @ [sessionID]\<rparr>
      | [] \<Rightarrow>
          if unat (counter s) < length (tupleValid s)
          then s\<lparr>slc_sessionIdFreeList := slc_sessionIdFreeList s @ [counter s],
                 counter := counter s + 1\<rparr>
          else s)"

text \<open>\<open>send_lookup\<close> is what the two branches of state \<open>LUP_REQ\<close> share.\<close>

definition send_lookup :: "sessionLookupQueryInternal \<Rightarrow> 'a sl_st_scheme \<Rightarrow> 'a sl_st_scheme" where
  "send_lookup q s =
     s\<lparr>sessionLookup_req := sessionLookup_req s @
         [\<lparr>lrq_key = qi_tuple q, lrq_source = qi_source q\<rparr>],
       slc_queryCache := slc_queryCache s @ [q], slc_fsmState := LUP_RSP\<rparr>"

definition send_reply ::
  "lookupSource \<Rightarrow> sessionLookupReply \<Rightarrow> 'a sl_st_scheme \<Rightarrow> 'a sl_st_scheme" where
  "send_reply src r s =
     (if src = RX then s\<lparr>sLookup2rxEng_rsp := sLookup2rxEng_rsp s @ [r]\<rparr>
      else s\<lparr>sLookup2txApp_rsp := sLookup2txApp_rsp s @ [r]\<rparr>)"

definition lookupReplyHandler :: "'a sl_st_scheme \<Rightarrow> 'a sl_st_scheme" where
  "lookupReplyHandler s =
     (case slc_fsmState s of
        LUP_REQ \<Rightarrow>
          (case txApp2sLookup_req s of
             t # rest \<Rightarrow>
               send_lookup
                 \<lparr>qi_tuple = \<lparr>theirIp = dstIp t, myPort = srcPort t, theirPort = dstPort t\<rparr>,
                  qi_allowCreation = True, qi_source = TX_APP\<rparr>
                 (s\<lparr>txApp2sLookup_req := rest\<rparr>)
           | [] \<Rightarrow>
               (case rxEng2sLookup_req s of
                  q # rest \<Rightarrow>
                    send_lookup
                      \<lparr>qi_tuple = \<lparr>theirIp = srcIp (slq_tuple q), myPort = dstPort (slq_tuple q),
                         theirPort = srcPort (slq_tuple q)\<rparr>,
                       qi_allowCreation = slq_allowCreation q, qi_source = RX\<rparr>
                      (s\<lparr>rxEng2sLookup_req := rest\<rparr>)
                | [] \<Rightarrow> s))
      | LUP_RSP \<Rightarrow>
          (case (sessionLookup_rsp s, slc_queryCache s) of
             (lupReply # rsps, intQuery # qs) \<Rightarrow>
               let s = s\<lparr>sessionLookup_rsp := rsps, slc_queryCache := qs\<rparr>
               in if \<not> lrp_hit lupReply \<and> qi_allowCreation intQuery \<and>
                     slc_sessionIdFreeList s \<noteq> []
                  then s\<lparr>slc_sessionIdFreeList := tl (slc_sessionIdFreeList s),
                         sessionInsert_req := sessionInsert_req s @
                           [rtlSessionUpdateRequest_mk (qi_tuple intQuery)
                              (ucast (hd (slc_sessionIdFreeList s))) INSERT (lrp_source lupReply)],
                         slc_insertTuples := slc_insertTuples s @ [qi_tuple intQuery],
                         slc_fsmState := UPD_RSP\<rparr>
                  else send_reply (lrp_source lupReply)
                         \<lparr>slr_sessionID = lrp_sessionID lupReply, slr_hit = lrp_hit lupReply\<rparr>
                         (s\<lparr>slc_fsmState := LUP_REQ\<rparr>)
           | _ \<Rightarrow> s)
      | UPD_RSP \<Rightarrow>
          (case (slc_sessionInsert_rsp s, slc_insertTuples s) of
             (insertReply # rsps, tuple # ts) \<Rightarrow>
               send_reply (urp_source insertReply)
                 \<lparr>slr_sessionID = urp_sessionID insertReply, slr_hit = True\<rparr>
                 (s\<lparr>slc_sessionInsert_rsp := rsps, slc_insertTuples := ts,
                    reverseLupInsertFifo := reverseLupInsertFifo s @
                      [\<lparr>rli_key = urp_sessionID insertReply, rli_value = tuple\<rparr>],
                    slc_fsmState := LUP_REQ\<rparr>)
           | _ \<Rightarrow> s))"

definition updateRequestSender :: "'a sl_st_scheme \<Rightarrow> 'a sl_st_scheme" where
  "updateRequestSender s =
     (case sessionInsert_req s of
        request # rest \<Rightarrow>
          s\<lparr>sessionInsert_req := rest, sessionUpdate_req := sessionUpdate_req s @ [request],
            usedSessionIDs := usedSessionIDs s + 1, regSessionCount := usedSessionIDs s + 1\<rparr>
      | [] \<Rightarrow>
          (case sessionDelete_req s of
             request # rest \<Rightarrow>
               s\<lparr>sessionDelete_req := rest, sessionUpdate_req := sessionUpdate_req s @ [request],
                 slc_sessionIdFinFifo := slc_sessionIdFinFifo s @ [ucast (urq_value request)],
                 usedSessionIDs := usedSessionIDs s - 1, regSessionCount := usedSessionIDs s - 1\<rparr>
           | [] \<Rightarrow> s))"

definition updateReplyHandler :: "'a sl_st_scheme \<Rightarrow> 'a sl_st_scheme" where
  "updateReplyHandler s =
     (case sessionUpdate_rsp s of
        upReply # rest \<Rightarrow>
          let s = s\<lparr>sessionUpdate_rsp := rest\<rparr>
          in if urp_op upReply = INSERT
             then s\<lparr>slc_sessionInsert_rsp := slc_sessionInsert_rsp s @ [upReply]\<rparr>
             else s
      | [] \<Rightarrow> s)"

definition reverseLookupTableInterface ::
  "u32 \<Rightarrow> 'a sl_st_scheme \<Rightarrow> 'a sl_st_scheme option" where
  "reverseLookupTableInterface myIpAddress s =
    (if reverseLupInsertFifo s \<noteq> [] then do {
       let insert = hd (reverseLupInsertFifo s);
       rt \<leftarrow> tset (reverseLookupTable s) (rli_key insert) (rli_value insert);
       tv \<leftarrow> tset (tupleValid s) (rli_key insert) True;
       Some (s\<lparr>reverseLupInsertFifo := tl (reverseLupInsertFifo s),
               reverseLookupTable := rt, tupleValid := tv\<rparr>)
     }
     else if stateTable2sLookup_releaseSession s \<noteq> [] then do {
       let sessionID = hd (stateTable2sLookup_releaseSession s);
       releaseTuple \<leftarrow> tget (reverseLookupTable s) sessionID;
       valid \<leftarrow> tget (tupleValid s) sessionID;
       let s = s\<lparr>stateTable2sLookup_releaseSession := tl (stateTable2sLookup_releaseSession s)\<rparr>;
       let s = (if valid
         then s\<lparr>sLookup2portTable_releasePort :=
                  sLookup2portTable_releasePort s @ [myPort releaseTuple],
                sessionDelete_req := sessionDelete_req s @
                  [rtlSessionUpdateRequest_mk releaseTuple sessionID DELETE RX]\<rparr>
         else s);
       tv \<leftarrow> tset (tupleValid s) sessionID False;
       Some (s\<lparr>tupleValid := tv\<rparr>)
     }
     else if txEng2sLookup_rev_req s \<noteq> [] then do {
       let sessionID = hd (txEng2sLookup_rev_req s);
       r \<leftarrow> tget (reverseLookupTable s) sessionID;
       Some (s\<lparr>txEng2sLookup_rev_req := tl (txEng2sLookup_rev_req s),
               sLookup2txEng_rev_rsp := sLookup2txEng_rev_rsp s @
                 [\<lparr>srcIp = myIpAddress, dstIp = theirIp r, srcPort = myPort r,
                   dstPort = theirPort r\<rparr>]\<rparr>)
     }
     else Some s)"

definition session_lookup_controller ::
  "u32 \<Rightarrow> 'a sl_st_scheme \<Rightarrow> 'a sl_st_scheme option" where
  "session_lookup_controller myIpAddress s =
     reverseLookupTableInterface myIpAddress
       (updateReplyHandler (sessionIdManager (updateRequestSender (lookupReplyHandler s))))"

section \<open>The component with its environment\<close>

text \<open>
  History variables: what the hash table maps, the keys whose entries it has lost, and the number of
  lookups made by the receive engine and by the application.  The table answers a lookup with what it
  maps and echoes operation, key, value and source of an update.  An insert that fails loses one entry:
  the new one or any other (\<open>table_insert\<close>).
\<close>

record sl_sys = sl_st +
  g_cam :: "threeTupleInternal \<Rightarrow> u16 option"
  g_lost :: "threeTupleInternal set"
  g_rx :: nat
  g_tx :: nat

definition update_reply_of :: "bool \<Rightarrow> rtlSessionUpdateRequest \<Rightarrow> rtlSessionUpdateReply" where
  "update_reply_of ok u = \<lparr>urp_op = urq_op u, urp_key = urq_key u, urp_sessionID = urq_value u,
     urp_success = ok, urp_source = urq_source u\<rparr>"

definition table_insert ::
  "('k \<Rightarrow> 'v option) \<Rightarrow> 'k \<Rightarrow> 'v \<Rightarrow> ('k \<Rightarrow> 'v option) \<Rightarrow> bool \<Rightarrow> 'k set \<Rightarrow> bool" where
  "table_insert m k v m' ok lost \<longleftrightarrow>
     (if ok then lost = {} \<and> m' = m(k \<mapsto> v) else \<exists>d. lost = {d} \<and> m' = (m(k \<mapsto> v))(d := None))"

inductive sl_env :: "nat \<Rightarrow> sl_sys \<Rightarrow> sl_sys \<Rightarrow> bool" for n where
  rx_query: "sl_env n s
    (s\<lparr>rxEng2sLookup_req := rxEng2sLookup_req s @ [q], g_rx := g_rx s + 1\<rparr>)"
| tx_query: "sl_env n s
    (s\<lparr>txApp2sLookup_req := txApp2sLookup_req s @ [t], g_tx := g_tx s + 1\<rparr>)"
| release: "unat i < n \<Longrightarrow> sl_env n s (s\<lparr>stateTable2sLookup_releaseSession :=
    stateTable2sLookup_releaseSession s @ [i]\<rparr>)"
| rev_query: "unat i < n \<Longrightarrow> sl_env n s
    (s\<lparr>txEng2sLookup_rev_req := txEng2sLookup_rev_req s @ [i]\<rparr>)"
| cam_lookup: "sessionLookup_req s = q # qs \<Longrightarrow> sl_env n s
    (s\<lparr>sessionLookup_req := qs, sessionLookup_rsp := sessionLookup_rsp s @
       [\<lparr>lrp_key = lrq_key q, lrp_sessionID = (case g_cam s (lrq_key q) of Some i \<Rightarrow> i | None \<Rightarrow> x),
         lrp_hit = (g_cam s (lrq_key q) \<noteq> None), lrp_source = lrq_source q\<rparr>]\<rparr>)"
| cam_insert: "\<lbrakk>sessionUpdate_req s = u # us; urq_op u = INSERT;
      table_insert (g_cam s) (urq_key u) (urq_value u) m ok lost\<rbrakk> \<Longrightarrow> sl_env n s
    (s\<lparr>sessionUpdate_req := us, sessionUpdate_rsp := sessionUpdate_rsp s @ [update_reply_of ok u],
       g_cam := m, g_lost := g_lost s \<union> lost\<rparr>)"
| cam_delete: "\<lbrakk>sessionUpdate_req s = u # us; urq_op u = DELETE\<rbrakk> \<Longrightarrow> sl_env n s
    (s\<lparr>sessionUpdate_req := us, sessionUpdate_rsp := sessionUpdate_rsp s @ [update_reply_of ok u],
       g_cam := (g_cam s)(urq_key u := None)\<rparr>)"

subsection \<open>The invariant\<close>

definition ins_reqs :: "'a sl_st_scheme \<Rightarrow> rtlSessionUpdateRequest list" where
  "ins_reqs s = sessionInsert_req s @ filter (\<lambda>u. urq_op u = INSERT) (sessionUpdate_req s)"

definition ins_rsps :: "'a sl_st_scheme \<Rightarrow> rtlSessionUpdateReply list" where
  "ins_rsps s = filter (\<lambda>u. urp_op u = INSERT) (sessionUpdate_rsp s) @ slc_sessionInsert_rsp s"

text \<open>One lookup at a time: where it is, in every state of the machine.\<close>

definition fsm_ok :: "sl_sys \<Rightarrow> bool" where
  "fsm_ok s \<longleftrightarrow>
     (\<forall>u\<in>set (sessionInsert_req s). urq_op u = INSERT) \<and>
     (\<forall>u\<in>set (sessionDelete_req s). urq_op u = DELETE) \<and>
     (case slc_fsmState s of
        LUP_REQ \<Rightarrow> sessionLookup_req s = [] \<and> sessionLookup_rsp s = [] \<and> slc_queryCache s = [] \<and>
          slc_insertTuples s = [] \<and> ins_reqs s = [] \<and> ins_rsps s = []
      | LUP_RSP \<Rightarrow> slc_insertTuples s = [] \<and> ins_reqs s = [] \<and> ins_rsps s = [] \<and>
          (\<exists>q. slc_queryCache s = [q] \<and>
            (sessionLookup_req s = [\<lparr>lrq_key = qi_tuple q, lrq_source = qi_source q\<rparr>] \<and>
             sessionLookup_rsp s = []
           \<or> sessionLookup_req s = [] \<and> (\<exists>r. sessionLookup_rsp s = [r] \<and>
               lrp_source r = qi_source q \<and> (\<not> lrp_hit r \<longrightarrow> g_cam s (qi_tuple q) = None))))
      | UPD_RSP \<Rightarrow> sessionLookup_req s = [] \<and> sessionLookup_rsp s = [] \<and> slc_queryCache s = [] \<and>
          (\<exists>K. slc_insertTuples s = [K] \<and>
            ((\<exists>u. ins_reqs s = [u] \<and> ins_rsps s = [] \<and> urq_key u = K \<and> g_cam s K = None)
           \<or> (\<exists>r. ins_reqs s = [] \<and> ins_rsps s = [r]))))"

text \<open>Where the session identifiers are.\<close>

definition valid_ids :: "'a sl_st_scheme \<Rightarrow> nat list" where
  "valid_ids s = filter (\<lambda>i. tupleValid s ! i) [0..<length (tupleValid s)]"

definition free_ids :: "'a sl_st_scheme \<Rightarrow> nat list" where
  "free_ids s = map unat (slc_sessionIdFreeList s) @ map unat (slc_sessionIdFinFifo s)"

definition busy_ids :: "'a sl_st_scheme \<Rightarrow> nat list" where
  "busy_ids s = map (\<lambda>u. unat (urq_value u)) (ins_reqs s)
     @ map (\<lambda>r. unat (urp_sessionID r)) (ins_rsps s)
     @ map (\<lambda>r. unat (rli_key r)) (reverseLupInsertFifo s)
     @ valid_ids s
     @ map (\<lambda>u. unat (urq_value u)) (sessionDelete_req s)"

definition ids_ok :: "nat \<Rightarrow> sl_sys \<Rightarrow> bool" where
  "ids_ok n s \<longleftrightarrow> n < 2 ^ 14 \<and> length (tupleValid s) = n \<and> length (reverseLookupTable s) = n \<and>
     unat (counter s) \<le> n \<and>
     mset (free_ids s @ busy_ids s) = mset [0..<unat (counter s)] \<and>
     usedSessionIDs s + of_nat (length (sessionInsert_req s)) = of_nat (length (busy_ids s)) \<and>
     (\<forall>i\<in>set (stateTable2sLookup_releaseSession s). unat i < n) \<and>
     (\<forall>i\<in>set (txEng2sLookup_rev_req s). unat i < n)"

text \<open>What the forward table must hold, but for the keys it has lost.\<close>

definition cam_entries :: "'a sl_st_scheme \<Rightarrow> (threeTupleInternal \<times> u16) list" where
  "cam_entries s = map (\<lambda>i. (reverseLookupTable s ! i, of_nat i)) (valid_ids s)
     @ map (\<lambda>u. (urq_key u, urq_value u)) (sessionDelete_req s)
     @ map (\<lambda>u. (urq_key u, urq_value u)) (filter (\<lambda>u. urq_op u = DELETE) (sessionUpdate_req s))
     @ map (\<lambda>r. (rli_value r, rli_key r)) (reverseLupInsertFifo s)
     @ zip (slc_insertTuples s) (map urp_sessionID (ins_rsps s))"

definition agree :: "('k \<Rightarrow> 'v option) \<Rightarrow> ('k \<times> 'v) list \<Rightarrow> bool" where
  "agree m es \<longleftrightarrow> distinct (map fst es) \<and> m = map_of es"

definition agree_but :: "'k set \<Rightarrow> ('k \<Rightarrow> 'v option) \<Rightarrow> ('k \<times> 'v) list \<Rightarrow> bool" where
  "agree_but L m es \<longleftrightarrow> agree (m |` (- L)) (filter (\<lambda>e. fst e \<notin> L) es)"

definition map_ok :: "sl_sys \<Rightarrow> bool" where
  "map_ok s \<longleftrightarrow> agree_but (g_lost s) (g_cam s) (cam_entries s)"

text \<open>Every lookup is counted once: waiting, in progress, or answered to the one who asked.\<close>

definition in_progress :: "'a sl_st_scheme \<Rightarrow> lookupSource list" where
  "in_progress s = map qi_source (slc_queryCache s) @ map urq_source (ins_reqs s)
     @ map urp_source (ins_rsps s)"

definition cnt_ok :: "sl_sys \<Rightarrow> bool" where
  "cnt_ok s \<longleftrightarrow>
     g_rx s = length (rxEng2sLookup_req s) + count_list (in_progress s) RX
       + length (sLookup2rxEng_rsp s) \<and>
     g_tx s = length (txApp2sLookup_req s) + count_list (in_progress s) TX_APP
       + length (sLookup2txApp_rsp s)"

definition sl_inv :: "nat \<Rightarrow> sl_sys \<Rightarrow> bool" where
  "sl_inv n s \<longleftrightarrow> fsm_ok s \<and> ids_ok n s \<and> map_ok s \<and> cnt_ok s"

lemma agree_mset: "mset es = mset es' \<Longrightarrow> agree m es = agree m es'"
proof -
  assume m: "mset es = mset es'"
  then have d: "distinct (map fst es) = distinct (map fst es')"
    by (metis mset_map mset_eq_imp_distinct_iff)
  have "map_of es = map_of es'" if "distinct (map fst es)"
    using that d m by (intro map_of_inject_set [THEN iffD2]) (auto dest: mset_eq_setD)
  with d show ?thesis by (auto simp: agree_def)
qed

lemma agree_Cons: "\<lbrakk>agree m es; m k = None\<rbrakk> \<Longrightarrow> agree (m(k \<mapsto> v)) ((k, v) # es)"
  by (auto simp: agree_def map_of_eq_None_iff)

lemma agree_remove: "agree m ((k, v) # es) \<Longrightarrow> agree (m(k := None)) es"
  by (auto simp: agree_def fun_eq_iff) (metis map_of_eq_None_iff not_None_eq)

lemma agree_but_mset: "mset es = mset es' \<Longrightarrow> agree_but L m es = agree_but L m es'"
  unfolding agree_but_def by (rule agree_mset) simp

lemma restrict_upd_in: "k \<notin> L \<Longrightarrow> (m(k := x)) |` (- L) = (m |` (- L))(k := x)"
  by (auto simp: restrict_map_def fun_eq_iff)

lemma restrict_upd_out: "k \<in> L \<Longrightarrow> (m(k := x)) |` (- L) = m |` (- L)"
  by (auto simp: restrict_map_def fun_eq_iff)

lemma agree_but_Cons:
  assumes "agree_but L m es" "m k = None"
  shows "agree_but L (m(k \<mapsto> v)) ((k, v) # es)"
proof (cases "k \<in> L")
  case True
  with assms(1) show ?thesis unfolding agree_but_def restrict_upd_out [OF True] by simp
next
  case False
  have "(m |` (- L)) k = None" using assms(2) by (simp add: restrict_map_def)
  from agree_Cons [OF assms(1) [unfolded agree_but_def] this, of v] False
  show ?thesis unfolding agree_but_def restrict_upd_in [OF False] by simp
qed

lemma agree_but_remove:
  assumes "agree_but L m ((k, v) # es)"
  shows "agree_but L (m(k := None)) es"
proof (cases "k \<in> L")
  case True
  with assms show ?thesis unfolding agree_but_def restrict_upd_out [OF True] by simp
next
  case False
  with assms have "agree (m |` (- L)) ((k, v) # filter (\<lambda>e. fst e \<notin> L) es)" by (simp add: agree_but_def)
  from agree_remove [OF this] show ?thesis unfolding agree_but_def restrict_upd_in [OF False] .
qed

lemma agree_filter: "agree m es \<Longrightarrow> agree (m |` S) (filter (\<lambda>e. fst e \<in> S) es)"
proof -
  assume a: "agree m es"
  then have "distinct (map fst (filter (\<lambda>e. fst e \<in> S) es))"
    by (auto simp: agree_def intro: distinct_map_filter)
  moreover have "map_of (filter (\<lambda>e. fst e \<in> S) es) k = (map_of es |` S) k" for k
    by (induction es) (auto simp: restrict_map_def)
  ultimately show ?thesis using a by (auto simp: agree_def)
qed

lemma agree_but_lose: "agree_but L m es \<Longrightarrow> agree_but (insert d L) (m(d := None)) es"
proof -
  assume "agree_but L m es"
  then have "agree (m |` (- L) |` (- {d})) (filter (\<lambda>e. fst e \<in> - {d}) (filter (\<lambda>e. fst e \<notin> L) es))"
    unfolding agree_but_def by (rule agree_filter)
  moreover have "m |` (- L) |` (- {d}) = (m(d := None)) |` (- insert d L)"
    by (auto simp: restrict_map_def fun_eq_iff)
  ultimately show ?thesis by (simp add: agree_but_def conj_commute)
qed

lemma agree_but_insert:
  assumes "agree_but L m es" "m k = None" "table_insert m k v m' ok lost"
  shows "agree_but (L \<union> lost) m' ((k, v) # es)"
  using agree_but_Cons [OF assms(1,2), of v] assms(3)
  by (auto simp: table_insert_def intro: agree_but_lose split: if_splits)

lemma filter_upt_add:
  assumes "k < n" "\<not> P k" and "\<And>i. i \<noteq> k \<Longrightarrow> i < n \<Longrightarrow> Q i = P i" and "Q k"
  shows "mset (filter Q [0..<n]) = add_mset k (mset (filter P [0..<n]))"
proof -
  have *: "mset (filter Q [0..<m]) =
      (if k < m then add_mset k (mset (filter P [0..<m])) else mset (filter P [0..<m]))"
    if "m \<le> n" for m
    using that
  proof (induction m)
    case (Suc m)
    then show ?case using assms(2-4) by (cases "k = m") auto
  qed simp
  show ?thesis using * [of n] assms(1) by simp
qed

subsection \<open>Preservation\<close>

lemmas sl_parts = sl_inv_def fsm_ok_def ids_ok_def map_ok_def cnt_ok_def
  free_ids_def busy_ids_def cam_entries_def in_progress_def

lemma map_ok_mset:
  "\<lbrakk>map_ok s; mset (cam_entries t) = mset (cam_entries s); g_cam t = g_cam s; g_lost t = g_lost s\<rbrakk> \<Longrightarrow> map_ok t"
  unfolding map_ok_def by (metis agree_but_mset)

lemma ids_distinct: "sl_inv n s \<Longrightarrow> distinct (free_ids s @ busy_ids s)"
  unfolding sl_inv_def ids_ok_def by (metis distinct_upt mset_eq_imp_distinct_iff)

lemma ids_set: "sl_inv n s \<Longrightarrow> set (free_ids s @ busy_ids s) = {0..<unat (counter s)}"
  unfolding sl_inv_def ids_ok_def by (metis set_upt mset_eq_setD)

lemma ids_lt: "\<lbrakk>sl_inv n s; i \<in> set (free_ids s) \<union> set (busy_ids s)\<rbrakk> \<Longrightarrow> i < n"
proof -
  assume inv: "sl_inv n s" and i: "i \<in> set (free_ids s) \<union> set (busy_ids s)"
  have "i \<in> {0..<unat (counter s)}" using i ids_set [OF inv] by auto
  moreover have "unat (counter s) \<le> n" using inv by (simp add: sl_inv_def ids_ok_def)
  ultimately show "i < n" by simp
qed

lemma obs_simps [simp]:
  "ins_reqs (s\<lparr>slc_sessionIdFinFifo := a\<rparr>) = ins_reqs s"
  "ins_reqs (s\<lparr>slc_sessionIdFreeList := a\<rparr>) = ins_reqs s"
  "ins_reqs (s\<lparr>counter := c\<rparr>) = ins_reqs s"
  "ins_reqs (s\<lparr>sessionUpdate_rsp := b\<rparr>) = ins_reqs s"
  "ins_reqs (s\<lparr>slc_sessionInsert_rsp := b\<rparr>) = ins_reqs s"
  "ins_rsps (s\<lparr>slc_sessionIdFinFifo := a\<rparr>) = ins_rsps s"
  "ins_rsps (s\<lparr>slc_sessionIdFreeList := a\<rparr>) = ins_rsps s"
  "ins_rsps (s\<lparr>counter := c\<rparr>) = ins_rsps s"
  "valid_ids (s\<lparr>slc_sessionIdFinFifo := a\<rparr>) = valid_ids s"
  "valid_ids (s\<lparr>slc_sessionIdFreeList := a\<rparr>) = valid_ids s"
  "valid_ids (s\<lparr>counter := c\<rparr>) = valid_ids s"
  "valid_ids (s\<lparr>sessionUpdate_rsp := b\<rparr>) = valid_ids s"
  "valid_ids (s\<lparr>slc_sessionInsert_rsp := b\<rparr>) = valid_ids s"
  by (simp_all add: ins_reqs_def ins_rsps_def valid_ids_def)

lemma sl_inv_idManager: "sl_inv n s \<Longrightarrow> sl_inv n (sessionIdManager s)"
proof (cases "slc_sessionIdFinFifo s")
  case (Cons i rest)
  assume "sl_inv n s"
  with Cons show ?thesis
    by (simp add: sessionIdManager_def sl_parts cong: slcFsmStateType.case_cong)
next
  case Nil
  assume inv: "sl_inv n s"
  then have n: "n < 16384" "length (tupleValid s) = n" by (auto simp: sl_inv_def ids_ok_def)
  show ?thesis
  proof (cases "unat (counter s) < n")
    case True
    then have "unat (counter s) + 1 < 2 ^ LENGTH(14)" using n by simp
    then have c: "unat (counter s + 1) = Suc (unat (counter s))"
      by (simp add: unat_word_ariths)
    with Nil inv n True show ?thesis
      by (simp add: sessionIdManager_def sl_parts cong: slcFsmStateType.case_cong)
  next
    case False
    with Nil inv n show ?thesis by (simp add: sessionIdManager_def)
  qed
qed

lemma fsm_ins_rsps: "fsm_ok s \<Longrightarrow> length (ins_rsps s) \<le> 1"
  by (auto simp: fsm_ok_def split: slcFsmStateType.splits)

lemma ins_rsps_updateReply: "fsm_ok s \<Longrightarrow> ins_rsps (updateReplyHandler s) = ins_rsps s"
proof (cases "sessionUpdate_rsp s")
  case (Cons r rs)
  assume "fsm_ok s"
  with Cons show ?thesis
    using fsm_ins_rsps [of s]
    by (cases "urp_op r") (auto simp: updateReplyHandler_def ins_rsps_def)
qed (simp add: updateReplyHandler_def)

lemma updateReply_eq:
  "updateReplyHandler s = s\<lparr>sessionUpdate_rsp := sessionUpdate_rsp (updateReplyHandler s),
     slc_sessionInsert_rsp := slc_sessionInsert_rsp (updateReplyHandler s)\<rparr>"
  by (cases "sessionUpdate_rsp s") (auto simp: updateReplyHandler_def Let_def)

lemma sl_inv_updateReply: "sl_inv n s \<Longrightarrow> sl_inv n (updateReplyHandler s)"
proof -
  assume inv: "sl_inv n s"
  obtain a b where t: "updateReplyHandler s = s\<lparr>sessionUpdate_rsp := a, slc_sessionInsert_rsp := b\<rparr>"
    using updateReply_eq [of s] by blast
  have "ins_rsps (updateReplyHandler s) = ins_rsps s"
    using inv ins_rsps_updateReply by (simp add: sl_inv_def)
  with inv t show ?thesis by (simp add: sl_parts cong: slcFsmStateType.case_cong)
qed

lemma sl_inv_updateSender: "sl_inv n s \<Longrightarrow> sl_inv n (updateRequestSender s)"
proof (cases "sessionInsert_req s")
  case (Cons u us)
  assume inv: "sl_inv n s"
  let ?t = "updateRequestSender s"
  from inv Cons have "urq_op u = INSERT" "length (ins_reqs s) \<le> 1"
    by (auto simp: sl_inv_def fsm_ok_def split: slcFsmStateType.splits)
  with Cons have "us = []" "ins_reqs ?t = ins_reqs s" "ins_reqs s = [u]"
    "ins_rsps ?t = ins_rsps s" "valid_ids ?t = valid_ids s"
    by (auto simp: ins_reqs_def ins_rsps_def valid_ids_def updateRequestSender_def)
  with inv Cons \<open>urq_op u = INSERT\<close> show ?thesis
    by (simp add: sl_parts updateRequestSender_def algebra_simps cong: slcFsmStateType.case_cong)
next
  case Nil
  assume inv: "sl_inv n s"
  let ?t = "updateRequestSender s"
  show ?thesis
  proof (cases "sessionDelete_req s")
    case (Cons u us)
    from inv Cons have u: "urq_op u = DELETE" by (simp add: sl_inv_def fsm_ok_def)
    with Nil Cons have o: "ins_reqs ?t = ins_reqs s"
      "ins_rsps ?t = ins_rsps s" "valid_ids ?t = valid_ids s"
      by (auto simp: ins_reqs_def ins_rsps_def valid_ids_def updateRequestSender_def)
    have "unat (urq_value u) < 2 ^ 14"
      using ids_lt [OF inv, of "unat (urq_value u)"] Cons inv
      by (simp add: busy_ids_def sl_inv_def ids_ok_def)
    then have v: "unat (ucast (urq_value u) :: u14) = unat (urq_value u)"
      by (simp add: unsigned_ucast_eq take_bit_nat_eq_self)
    have "ids_ok n ?t"
      using inv o Cons Nil v
      by (simp add: sl_inv_def ids_ok_def free_ids_def busy_ids_def updateRequestSender_def
          algebra_simps)
    moreover have "map_ok ?t"
      using inv o Cons Nil u
      by (auto simp: sl_inv_def map_ok_def cam_entries_def updateRequestSender_def
          elim!: agree_but_mset [THEN iffD1, rotated])
    moreover have "fsm_ok ?t \<and> cnt_ok ?t"
      using inv o Cons Nil
      by (simp add: sl_inv_def fsm_ok_def cnt_ok_def in_progress_def updateRequestSender_def
          cong: slcFsmStateType.case_cong)
    ultimately show ?thesis by (simp add: sl_inv_def)
  next
    case Nil
    with inv \<open>sessionInsert_req s = []\<close> show ?thesis by (simp add: updateRequestSender_def)
  qed
qed

lemma send_reply_eq: "send_reply src r s =
  s\<lparr>sLookup2rxEng_rsp := sLookup2rxEng_rsp s @ (if src = RX then [r] else []),
    sLookup2txApp_rsp := sLookup2txApp_rsp s @ (if src = RX then [] else [r])\<rparr>"
  by (simp add: send_reply_def)

lemma sl_inv_lup_req:
  assumes inv: "sl_inv n s" and st: "slc_fsmState s = LUP_REQ"
  shows "sl_inv n (lookupReplyHandler s)"
proof -
  let ?t = "lookupReplyHandler s"
  have o: "ins_reqs ?t = ins_reqs s" "ins_rsps ?t = ins_rsps s" "valid_ids ?t = valid_ids s"
    using st by (auto simp: ins_reqs_def ins_rsps_def valid_ids_def lookupReplyHandler_def
        send_lookup_def split: list.splits)
  show ?thesis
  proof (cases "txApp2sLookup_req s = [] \<and> rxEng2sLookup_req s = []")
    case True
    with inv st show ?thesis by (simp add: lookupReplyHandler_def)
  next
    case False
    with inv st o show ?thesis
      by (cases "txApp2sLookup_req s"; cases "rxEng2sLookup_req s")
        (simp_all add: sl_parts lookupReplyHandler_def send_lookup_def)
  qed
qed

lemma sl_inv_lup_rsp:
  assumes inv: "sl_inv n s" and st: "slc_fsmState s = LUP_RSP"
  shows "sl_inv n (lookupReplyHandler s)"
proof -
  let ?t = "lookupReplyHandler s"
  from inv st obtain q where q: "slc_queryCache s = [q]" "slc_insertTuples s = []"
    "ins_reqs s = []" "ins_rsps s = []"
    by (auto simp: sl_inv_def fsm_ok_def)
  then have e: "sessionInsert_req s = []" by (simp add: ins_reqs_def)
  show ?thesis
  proof (cases "sessionLookup_rsp s")
    case Nil
    with inv st show ?thesis by (simp add: lookupReplyHandler_def)
  next
    case (Cons r rs)
    with inv st q have r: "rs = []" "sessionLookup_req s = []" "lrp_source r = qi_source q"
      "\<not> lrp_hit r \<longrightarrow> g_cam s (qi_tuple q) = None"
      by (auto simp: sl_inv_def fsm_ok_def)
    show ?thesis
    proof (cases "\<not> lrp_hit r \<and> qi_allowCreation q \<and> slc_sessionIdFreeList s \<noteq> []")
      case True
      then obtain i rest where i: "slc_sessionIdFreeList s = i # rest" by (cases "slc_sessionIdFreeList s") auto
      have u: "unat (ucast i :: u16) = unat i"
        using unat_less [of i] by (simp add: unsigned_ucast_eq take_bit_nat_eq_self)
      let ?u = "rtlSessionUpdateRequest_mk (qi_tuple q) (ucast i) INSERT (lrp_source r)"
      have t: "?t = s\<lparr>sessionLookup_rsp := [], slc_queryCache := [], slc_sessionIdFreeList := rest,
          sessionInsert_req := [?u], slc_insertTuples := [qi_tuple q], slc_fsmState := UPD_RSP\<rparr>"
        using True i q e r Cons st by (simp add: lookupReplyHandler_def)
      have o: "ins_reqs ?t = [?u]" "ins_rsps ?t = []" "valid_ids ?t = valid_ids s"
        using t q by (simp_all add: ins_reqs_def ins_rsps_def valid_ids_def)
      show ?thesis
        using inv q r i u o e Cons True st unfolding t
        by (simp add: sl_parts rtlSessionUpdateRequest_mk_def)
    next
      case False
      then have t: "?t = send_reply (lrp_source r)
          \<lparr>slr_sessionID = lrp_sessionID r, slr_hit = lrp_hit r\<rparr>
          (s\<lparr>sessionLookup_rsp := [], slc_queryCache := [], slc_fsmState := LUP_REQ\<rparr>)"
        using q r Cons st by (auto simp: lookupReplyHandler_def)
      have o: "ins_reqs ?t = []" "ins_rsps ?t = []" "valid_ids ?t = valid_ids s"
        using t q by (simp_all add: send_reply_eq ins_reqs_def ins_rsps_def valid_ids_def)
      show ?thesis
        using inv q r o e Cons st unfolding t
        by (cases "qi_source q") (simp_all add: sl_parts send_reply_eq)
    qed
  qed
qed

lemma sl_inv_upd_rsp:
  assumes inv: "sl_inv n s" and st: "slc_fsmState s = UPD_RSP"
  shows "sl_inv n (lookupReplyHandler s)"
proof (cases "slc_sessionInsert_rsp s")
  case Nil
  with inv st show ?thesis by (simp add: lookupReplyHandler_def)
next
  case (Cons r rs)
  let ?t = "lookupReplyHandler s"
  from inv st obtain K where K: "slc_insertTuples s = [K]" "slc_queryCache s = []"
    by (auto simp: sl_inv_def fsm_ok_def)
  have "length (ins_rsps s) \<le> 1" using inv fsm_ins_rsps by (simp add: sl_inv_def)
  with Cons have r: "rs = []" "ins_rsps s = [r]" "filter (\<lambda>u. urp_op u = INSERT) (sessionUpdate_rsp s) = []"
    by (auto simp: ins_rsps_def)
  with inv st have e: "ins_reqs s = []" by (auto simp: sl_inv_def fsm_ok_def)
  have t: "?t = send_reply (urp_source r) \<lparr>slr_sessionID = urp_sessionID r, slr_hit = True\<rparr>
      (s\<lparr>slc_sessionInsert_rsp := [], slc_insertTuples := [],
         reverseLupInsertFifo := reverseLupInsertFifo s @
           [\<lparr>rli_key = urp_sessionID r, rli_value = K\<rparr>], slc_fsmState := LUP_REQ\<rparr>)"
    using Cons K r st by (simp add: lookupReplyHandler_def)
  have o: "ins_reqs ?t = []" "ins_rsps ?t = []" "valid_ids ?t = valid_ids s"
    using t e r by (simp_all add: send_reply_eq ins_reqs_def ins_rsps_def valid_ids_def)
  have "map_ok ?t"
    using inv K r o unfolding t
    by (auto simp: sl_inv_def map_ok_def cam_entries_def send_reply_eq
        elim!: agree_but_mset [THEN iffD1, rotated])
  moreover have "fsm_ok ?t \<and> ids_ok n ?t"
    using inv K r o e st unfolding t
    by (simp add: sl_inv_def fsm_ok_def ids_ok_def free_ids_def busy_ids_def send_reply_eq)
  moreover have "cnt_ok ?t"
    using inv K r o e st unfolding t
    by (cases "urp_source r") (simp_all add: sl_inv_def cnt_ok_def in_progress_def send_reply_eq)
  ultimately show ?thesis by (simp add: sl_inv_def)
qed

lemma sl_inv_handler: "sl_inv n s \<Longrightarrow> sl_inv n (lookupReplyHandler s)"
  by (cases "slc_fsmState s") (auto intro: sl_inv_lup_req sl_inv_lup_rsp sl_inv_upd_rsp)

lemma reverse_safe: "sl_inv n s \<Longrightarrow> \<exists>t. reverseLookupTableInterface ip s = Some t"
proof -
  assume inv: "sl_inv n s"
  have "unat (rli_key r) < n" if "reverseLupInsertFifo s = r # rs" for r rs
    using ids_lt [OF inv, of "unat (rli_key r)"] that by (simp add: busy_ids_def)
  with inv show ?thesis
    by (cases "reverseLupInsertFifo s"; cases "stateTable2sLookup_releaseSession s";
        cases "txEng2sLookup_rev_req s")
      (auto simp: reverseLookupTableInterface_def sl_inv_def ids_ok_def Let_def)
qed

lemma cam_mset_valid:
  assumes n: "length (tupleValid s) = n" "length (reverseLookupTable s) = n" "k < n"
    and k: "\<not> tupleValid s ! k"
  shows "mset (map (\<lambda>i. ((reverseLookupTable s)[k := K] ! i, of_nat i :: u16))
      (filter (\<lambda>i. (tupleValid s)[k := True] ! i) [0..<n])) =
    add_mset (K, of_nat k)
      (mset (map (\<lambda>i. (reverseLookupTable s ! i, of_nat i)) (filter (\<lambda>i. tupleValid s ! i) [0..<n])))"
proof -
  let ?P = "\<lambda>i. tupleValid s ! i" and ?Q = "\<lambda>i. (tupleValid s)[k := True] ! i"
  have f: "mset (filter ?Q [0..<n]) = add_mset k (mset (filter ?P [0..<n]))"
    using n k by (intro filter_upt_add) auto
  have "mset (map (\<lambda>i. ((reverseLookupTable s)[k := K] ! i, of_nat i :: u16)) (filter ?Q [0..<n])) =
      image_mset (\<lambda>i. ((reverseLookupTable s)[k := K] ! i, of_nat i)) (mset (filter ?Q [0..<n]))"
    by simp
  also have "\<dots> = add_mset (K, of_nat k)
      (image_mset (\<lambda>i. ((reverseLookupTable s)[k := K] ! i, of_nat i)) (mset (filter ?P [0..<n])))"
    using n by (simp only: f) simp
  also have "image_mset (\<lambda>i. ((reverseLookupTable s)[k := K] ! i, of_nat i :: u16)) (mset (filter ?P [0..<n]))
      = image_mset (\<lambda>i. (reverseLookupTable s ! i, of_nat i)) (mset (filter ?P [0..<n]))"
    using n k by (intro image_mset_cong) (auto simp: nth_list_update)
  finally show ?thesis by simp
qed

lemma mset_valid:
  assumes "length (tupleValid s) = n" "k < n" "\<not> tupleValid s ! k"
  shows "mset (filter (\<lambda>i. (tupleValid s)[k := True] ! i) [0..<n]) =
    add_mset k (mset (filter (\<lambda>i. tupleValid s ! i) [0..<n]))"
  using assms by (intro filter_upt_add) auto

lemma sl_inv_rev_insert:
  assumes inv: "sl_inv n s" and c: "reverseLupInsertFifo s = r # rs"
    and t: "reverseLookupTableInterface ip s = Some t"
  shows "sl_inv n t"
proof -
  let ?k = "unat (rli_key r)"
  have len: "length (tupleValid s) = n" "length (reverseLookupTable s) = n"
    using inv by (auto simp: sl_inv_def ids_ok_def)
  have k: "?k < n" using ids_lt [OF inv, of ?k] c by (simp add: busy_ids_def)
  have nv: "\<not> tupleValid s ! ?k"
    using ids_distinct [OF inv] c k len by (auto simp: busy_ids_def valid_ids_def)
  have t: "t = s\<lparr>reverseLupInsertFifo := rs,
      reverseLookupTable := (reverseLookupTable s)[?k := rli_value r],
      tupleValid := (tupleValid s)[?k := True]\<rparr>"
    using t c k len by (simp add: reverseLookupTableInterface_def)
  have o: "ins_reqs t = ins_reqs s" "ins_rsps t = ins_rsps s"
    by (simp_all add: t ins_reqs_def ins_rsps_def)
  have v: "mset (valid_ids t) = add_mset ?k (mset (valid_ids s))"
    using mset_valid [OF len(1) k nv] len by (simp add: valid_ids_def t)
  then have vl: "length (valid_ids t) = Suc (length (valid_ids s))"
    by (metis size_add_mset size_mset)
  have "mset (cam_entries t) = mset (cam_entries s)"
    using c cam_mset_valid [OF len k nv, of "rli_value r"] len o
    by (simp add: cam_entries_def valid_ids_def t del: filter_mset_eq_conv)
  then have "map_ok t"
    using inv by (auto intro: map_ok_mset simp: sl_inv_def t)
  moreover have "ids_ok n t"
    using inv c v vl len o by (simp add: sl_inv_def ids_ok_def free_ids_def busy_ids_def t algebra_simps)
  moreover have "fsm_ok t \<and> cnt_ok t"
    using inv o by (simp add: sl_inv_def fsm_ok_def cnt_ok_def in_progress_def t
        cong: slcFsmStateType.case_cong)
  ultimately show ?thesis by (simp add: sl_inv_def)
qed

lemma sl_inv_rev_release:
  assumes inv: "sl_inv n s" and c: "reverseLupInsertFifo s = []"
    "stateTable2sLookup_releaseSession s = i # rest"
    and t: "reverseLookupTableInterface ip s = Some t"
  shows "sl_inv n t"
proof -
  have len: "length (tupleValid s) = n" "length (reverseLookupTable s) = n"
    using inv by (auto simp: sl_inv_def ids_ok_def)
  let ?k = "unat i" and ?K = "reverseLookupTable s ! unat i"
  have k: "?k < n" using inv c by (simp add: sl_inv_def ids_ok_def)
  show ?thesis
  proof (cases "tupleValid s ! ?k")
    case False
    then have "(tupleValid s)[?k := False] = tupleValid s" by (metis list_update_id)
    with False have t: "t = s\<lparr>stateTable2sLookup_releaseSession := rest\<rparr>"
      using t c k len by (simp add: reverseLookupTableInterface_def Let_def)
    then have o: "ins_reqs t = ins_reqs s" "ins_rsps t = ins_rsps s" "valid_ids t = valid_ids s"
      by (simp_all add: t ins_reqs_def ins_rsps_def valid_ids_def)
    with inv c show ?thesis by (simp add: sl_parts t cong: slcFsmStateType.case_cong)
  next
    case True
    let ?d = "rtlSessionUpdateRequest_mk ?K i DELETE RX"
    let ?s = "s\<lparr>tupleValid := (tupleValid s)[?k := False]\<rparr>"
    have t: "t = s\<lparr>stateTable2sLookup_releaseSession := rest,
        sLookup2portTable_releasePort := sLookup2portTable_releasePort s @ [myPort ?K],
        sessionDelete_req := sessionDelete_req s @ [?d],
        tupleValid := (tupleValid s)[?k := False]\<rparr>"
      using t c k len True by (simp add: reverseLookupTableInterface_def Let_def)
    have o: "ins_reqs t = ins_reqs s" "ins_rsps t = ins_rsps s"
      by (simp_all add: t ins_reqs_def ins_rsps_def)
    have restore: "(tupleValid ?s)[?k := True] = tupleValid s"
      using True by simp (metis list_update_id)
    have len': "length (tupleValid ?s) = n" "\<not> tupleValid ?s ! ?k" using len k by simp_all
    have v: "mset (valid_ids s) = add_mset ?k (mset (valid_ids t))"
      using mset_valid [OF len'(1) k len'(2)] len restore by (simp add: valid_ids_def t)
    then have vl: "length (valid_ids s) = Suc (length (valid_ids t))"
      by (metis size_add_mset size_mset)
    have cm: "mset (map (\<lambda>i. (reverseLookupTable s ! i, of_nat i :: u16)) (valid_ids s)) =
        add_mset (?K, i) (mset (map (\<lambda>i. (reverseLookupTable s ! i, of_nat i)) (valid_ids t)))"
      using v by simp
    have "mset (cam_entries t) = mset (cam_entries s)"
      using cm o by (simp add: cam_entries_def t rtlSessionUpdateRequest_mk_def)
    then have "map_ok t"
      using inv by (auto intro: map_ok_mset simp: sl_inv_def t)
    moreover have "ids_ok n t"
      using inv c v vl len o
      by (simp add: sl_inv_def ids_ok_def free_ids_def busy_ids_def t algebra_simps
          rtlSessionUpdateRequest_mk_def)
    moreover have "fsm_ok t \<and> cnt_ok t"
      using inv o by (simp add: sl_inv_def fsm_ok_def cnt_ok_def in_progress_def t
          rtlSessionUpdateRequest_mk_def cong: slcFsmStateType.case_cong)
    ultimately show ?thesis by (simp add: sl_inv_def)
  qed
qed

lemma sl_inv_reverse:
  assumes inv: "sl_inv n s" and t: "reverseLookupTableInterface ip s = Some t"
  shows "sl_inv n t"
proof (cases "reverseLupInsertFifo s")
  case (Cons r rs)
  from sl_inv_rev_insert [OF inv this t] show ?thesis .
next
  case r: Nil
  show ?thesis
  proof (cases "stateTable2sLookup_releaseSession s")
    case (Cons i rest)
    from sl_inv_rev_release [OF inv r this t] show ?thesis .
  next
    case Nil
    have t: "t = s\<lparr>txEng2sLookup_rev_req := txEng2sLookup_rev_req t,
        sLookup2txEng_rev_rsp := sLookup2txEng_rev_rsp t\<rparr>"
      "set (txEng2sLookup_rev_req t) \<subseteq> set (txEng2sLookup_rev_req s)"
      using Nil r t by (cases "txEng2sLookup_rev_req s";
          auto simp: reverseLookupTableInterface_def Let_def bind_eq_Some_conv)+
    then obtain a b where t: "t = s\<lparr>txEng2sLookup_rev_req := a, sLookup2txEng_rev_rsp := b\<rparr>"
      "set a \<subseteq> set (txEng2sLookup_rev_req s)" by blast
    then have o: "ins_reqs t = ins_reqs s" "ins_rsps t = ins_rsps s" "valid_ids t = valid_ids s"
      by (simp_all add: ins_reqs_def ins_rsps_def valid_ids_def)
    with inv t show ?thesis
      by (simp add: sl_parts subset_iff cong: slcFsmStateType.case_cong)
  qed
qed

lemma sl_inv_cam_insert:
  assumes inv: "sl_inv n s" and u: "sessionUpdate_req s = u # us" "urq_op u = INSERT"
    and m: "table_insert (g_cam s) (urq_key u) (urq_value u) m ok lost"
  shows "sl_inv n (s\<lparr>sessionUpdate_req := us,
    sessionUpdate_rsp := sessionUpdate_rsp s @ [update_reply_of ok u],
    g_cam := m, g_lost := g_lost s \<union> lost\<rparr>)" (is "sl_inv n ?t")
proof -
  have "length (ins_reqs s) \<le> 1"
    using inv by (auto simp: sl_inv_def fsm_ok_def split: slcFsmStateType.splits)
  with u have r: "ins_reqs s = [u]" "sessionInsert_req s = []"
    "filter (\<lambda>u. urq_op u = INSERT) us = []" by (auto simp: ins_reqs_def)
  then obtain K where K: "slc_fsmState s = UPD_RSP" "slc_insertTuples s = [K]" "ins_rsps s = []"
    "urq_key u = K" "g_cam s K = None" "slc_queryCache s = []"
    "sessionLookup_req s = []" "sessionLookup_rsp s = []"
    using inv by (auto simp: sl_inv_def fsm_ok_def split: slcFsmStateType.splits)
  have o: "ins_reqs ?t = []" "ins_rsps ?t = [update_reply_of ok u]" "valid_ids ?t = valid_ids s"
    using r K u by (simp_all add: ins_reqs_def ins_rsps_def valid_ids_def update_reply_of_def)
  have "mset (cam_entries ?t) = mset ((K, urq_value u) # cam_entries s)"
    using K o u by (simp add: cam_entries_def update_reply_of_def)
  then have "map_ok ?t"
    using inv K agree_but_insert [of "g_lost s" "g_cam s" "cam_entries s" K "urq_value u" m ok lost] m
      agree_but_mset [of "cam_entries ?t" "(K, urq_value u) # cam_entries s"]
    by (simp add: sl_inv_def map_ok_def)
  moreover have "fsm_ok ?t"
    using inv K o by (simp add: sl_inv_def fsm_ok_def)
  moreover have "ids_ok n ?t \<and> cnt_ok ?t"
    using inv K o r
    by (simp add: sl_inv_def ids_ok_def free_ids_def busy_ids_def cnt_ok_def in_progress_def
        update_reply_of_def)
  ultimately show ?thesis by (simp add: sl_inv_def)
qed

lemma sl_inv_cam_delete:
  assumes inv: "sl_inv n s" and u: "sessionUpdate_req s = u # us" "urq_op u = DELETE"
  shows "sl_inv n (s\<lparr>sessionUpdate_req := us,
    sessionUpdate_rsp := sessionUpdate_rsp s @ [update_reply_of ok u],
    g_cam := (g_cam s)(urq_key u := None)\<rparr>)" (is "sl_inv n ?t")
proof -
  have o: "ins_reqs ?t = ins_reqs s" "ins_rsps ?t = ins_rsps s" "valid_ids ?t = valid_ids s"
    using u by (simp_all add: ins_reqs_def ins_rsps_def valid_ids_def update_reply_of_def)
  have "mset (cam_entries s) = mset ((urq_key u, urq_value u) # cam_entries ?t)"
    using o u by (simp add: cam_entries_def)
  then have "agree_but (g_lost s) (g_cam s) ((urq_key u, urq_value u) # cam_entries ?t)"
    using inv agree_but_mset by (metis map_ok_def sl_inv_def)
  from agree_but_remove [OF this] have "map_ok ?t" by (simp add: map_ok_def)
  moreover have "fsm_ok ?t"
    using inv o by (auto simp: sl_inv_def fsm_ok_def split: slcFsmStateType.splits)
  moreover have "ids_ok n ?t \<and> cnt_ok ?t"
    using inv o
    by (simp add: sl_inv_def ids_ok_def free_ids_def busy_ids_def cnt_ok_def in_progress_def)
  ultimately show ?thesis by (simp add: sl_inv_def)
qed

lemma obs_env_simps [simp]:
  "ins_reqs (s\<lparr>rxEng2sLookup_req := a0\<rparr>) = ins_reqs s"
  "ins_rsps (s\<lparr>rxEng2sLookup_req := a0\<rparr>) = ins_rsps s"
  "valid_ids (s\<lparr>rxEng2sLookup_req := a0\<rparr>) = valid_ids s"
  "ins_reqs (s\<lparr>txApp2sLookup_req := a1\<rparr>) = ins_reqs s"
  "ins_rsps (s\<lparr>txApp2sLookup_req := a1\<rparr>) = ins_rsps s"
  "valid_ids (s\<lparr>txApp2sLookup_req := a1\<rparr>) = valid_ids s"
  "ins_reqs (s\<lparr>stateTable2sLookup_releaseSession := a2\<rparr>) = ins_reqs s"
  "ins_rsps (s\<lparr>stateTable2sLookup_releaseSession := a2\<rparr>) = ins_rsps s"
  "valid_ids (s\<lparr>stateTable2sLookup_releaseSession := a2\<rparr>) = valid_ids s"
  "ins_reqs (s\<lparr>txEng2sLookup_rev_req := a3\<rparr>) = ins_reqs s"
  "ins_rsps (s\<lparr>txEng2sLookup_rev_req := a3\<rparr>) = ins_rsps s"
  "valid_ids (s\<lparr>txEng2sLookup_rev_req := a3\<rparr>) = valid_ids s"
  "ins_reqs (s\<lparr>g_rx := a4\<rparr>) = ins_reqs s"
  "ins_rsps (s\<lparr>g_rx := a4\<rparr>) = ins_rsps s"
  "valid_ids (s\<lparr>g_rx := a4\<rparr>) = valid_ids s"
  "ins_reqs (s\<lparr>g_tx := a5\<rparr>) = ins_reqs s"
  "ins_rsps (s\<lparr>g_tx := a5\<rparr>) = ins_rsps s"
  "valid_ids (s\<lparr>g_tx := a5\<rparr>) = valid_ids s"
  by (simp_all add: ins_reqs_def ins_rsps_def valid_ids_def)

lemma sl_inv_env: "\<lbrakk>sl_inv n s; sl_env n s t\<rbrakk> \<Longrightarrow> sl_inv n t"
proof (erule sl_env.cases, goal_cases)
  case (5 s' q qs x)
  then have "slc_fsmState s = LUP_RSP"
    by (auto simp: sl_inv_def fsm_ok_def split: slcFsmStateType.splits)
  moreover have "ins_reqs t = ins_reqs s" "ins_rsps t = ins_rsps s" "valid_ids t = valid_ids s"
    using 5 by (simp_all add: ins_reqs_def ins_rsps_def valid_ids_def)
  ultimately show ?case using 5 by (auto simp: sl_parts)
next
  case 6
  then show ?case using sl_inv_cam_insert by simp
next
  case 7
  then show ?case using sl_inv_cam_delete by simp
qed (simp_all add: sl_parts cong: slcFsmStateType.case_cong)

lemma sl_inv_front: "sl_inv n s \<Longrightarrow> sl_inv n (updateReplyHandler (sessionIdManager
      (updateRequestSender (lookupReplyHandler s))))"
  by (intro sl_inv_updateReply sl_inv_idManager sl_inv_updateSender sl_inv_handler)

interpretation sessions: clocked "sl_inv n" "sl_env n" session_lookup_controller for n
proof (unfold_locales, goal_cases)
  case (1 s t)
  then show ?case by (rule sl_inv_env)
next
  case (2 s i)
  then show ?case
    unfolding session_lookup_controller_def by (intro reverse_safe sl_inv_front)
next
  case (3 s i t)
  then show ?case
    unfolding session_lookup_controller_def by (blast intro: sl_inv_reverse sl_inv_front)
qed

subsection \<open>The initial state\<close>

definition sl_init :: "nat \<Rightarrow> sl_sys" where
  "sl_init n = \<lparr>counter = 0, slc_insertTuples = [], slc_queryCache = [], slc_fsmState = LUP_REQ,
     usedSessionIDs = 0, regSessionCount = 0,
     reverseLookupTable = replicate n \<lparr>theirIp = 0, myPort = 0, theirPort = 0\<rparr>,
     tupleValid = replicate n False, slc_sessionIdFreeList = [], slc_sessionIdFinFifo = [],
     slc_sessionInsert_rsp = [], sessionInsert_req = [], sessionDelete_req = [],
     reverseLupInsertFifo = [], rxEng2sLookup_req = [], txApp2sLookup_req = [],
     stateTable2sLookup_releaseSession = [], txEng2sLookup_rev_req = [], sessionLookup_rsp = [],
     sessionUpdate_rsp = [], sLookup2rxEng_rsp = [], sLookup2txApp_rsp = [],
     sLookup2portTable_releasePort = [], sLookup2txEng_rev_rsp = [], sessionLookup_req = [],
     sessionUpdate_req = [], g_cam = (\<lambda>_. None), g_lost = {}, g_rx = 0, g_tx = 0\<rparr>"

lemma valid_ids_init: "valid_ids (sl_init n) = []"
  by (simp add: valid_ids_def sl_init_def filter_empty_conv)

lemma sl_inv_init: "n < 2 ^ 14 \<Longrightarrow> sl_inv n (sl_init n)"
  unfolding sl_inv_def fsm_ok_def ids_ok_def map_ok_def cnt_ok_def free_ids_def busy_ids_def
    cam_entries_def in_progress_def valid_ids_init
  by (simp add: sl_init_def ins_reqs_def ins_rsps_def agree_but_def agree_def)

subsection \<open>Properties\<close>

text \<open>C8: session identifiers are conserved.  Every identifier generated so far is in exactly one
  place: free, being installed, in use, or being deleted.  So an identifier is never given to two
  connections and never lost, all of them index the session tables, and the count of sessions
  in use is right.\<close>

theorem session_id_conservation:
  assumes "n < 2 ^ 14" and "reach (sl_env n) session_lookup_controller (sl_init n) s"
  shows "mset (free_ids s @ busy_ids s) = mset [0..<unat (counter s)] \<and> unat (counter s) \<le> n \<and>
    distinct (free_ids s @ busy_ids s) \<and>
    usedSessionIDs s + of_nat (length (sessionInsert_req s)) = of_nat (length (busy_ids s))"
proof -
  have "sl_inv n s" by (rule sessions.reach_inv [OF assms(2) sl_inv_init [OF assms(1)]])
  then show ?thesis using ids_distinct unfolding sl_inv_def ids_ok_def by blast
qed

text \<open>C9: the forward and the reverse table agree, but for the entries that failed inserts have lost (the
  controller does not look at \<open>success\<close>).  For every key that has not been lost: a valid entry of the
  reverse table is what the hash table maps back to the same session; two valid sessions never have
  that key; and if the hash table maps the key, then to a valid session or to one that is just being
  installed or deleted.\<close>

theorem session_tables_agree:
  assumes "n < 2 ^ 14" and "reach (sl_env n) session_lookup_controller (sl_init n) s" and "K \<notin> g_lost s"
  shows "(\<forall>i<n. tupleValid s ! i \<and> reverseLookupTable s ! i = K \<longrightarrow> g_cam s K = Some (of_nat i)) \<and>
    (\<forall>i<n. \<forall>j<n. tupleValid s ! i \<and> tupleValid s ! j \<and> reverseLookupTable s ! i = K \<and>
       reverseLookupTable s ! j = K \<longrightarrow> i = j) \<and>
    (\<forall>v. g_cam s K = Some v \<longrightarrow>
       (\<exists>i<n. tupleValid s ! i \<and> reverseLookupTable s ! i = K \<and> v = of_nat i) \<or>
       (\<exists>u\<in>set (sessionDelete_req s @ sessionUpdate_req s). urq_op u = DELETE \<and> urq_key u = K) \<or>
       (\<exists>r\<in>set (reverseLupInsertFifo s). rli_value r = K \<and> rli_key r = v) \<or>
       K \<in> set (slc_insertTuples s))"
proof -
  let ?es = "filter (\<lambda>e. fst e \<notin> g_lost s) (cam_entries s)"
  have inv: "sl_inv n s" by (rule sessions.reach_inv [OF assms(2) sl_inv_init [OF assms(1)]])
  then have len: "length (tupleValid s) = n" by (simp add: sl_inv_def ids_ok_def)
  have d: "distinct (map fst ?es)" and m: "g_cam s |` (- g_lost s) = map_of ?es"
    using inv by (simp_all add: sl_inv_def map_ok_def agree_but_def agree_def)
  have mK: "g_cam s K = map_of ?es K" using assms(3) by (simp flip: m)
  have del: "urq_op u = DELETE" if "u \<in> set (sessionDelete_req s)" for u
    using inv that by (simp add: sl_inv_def fsm_ok_def)
  have fwd: "g_cam s K = Some (of_nat i)" if "i < n" "tupleValid s ! i" "reverseLookupTable s ! i = K" for i
  proof -
    have "(K, of_nat i) \<in> set ?es"
      using that len assms(3) by (auto simp: cam_entries_def valid_ids_def)
    with d mK show ?thesis by simp
  qed
  moreover have "i = j" if "i < n" "j < n" "tupleValid s ! i" "tupleValid s ! j"
    "reverseLookupTable s ! i = K" "reverseLookupTable s ! j = K" for i j
  proof -
    from fwd that have "(of_nat i :: u16) = of_nat j" by (metis option.inject)
    with that(1,2) assms(1) show ?thesis by (simp add: word_of_nat_eq_iff take_bit_nat_eq_self)
  qed
  moreover have "(\<exists>i<n. tupleValid s ! i \<and> reverseLookupTable s ! i = K \<and> v = of_nat i) \<or>
       (\<exists>u\<in>set (sessionDelete_req s @ sessionUpdate_req s). urq_op u = DELETE \<and> urq_key u = K) \<or>
       (\<exists>r\<in>set (reverseLupInsertFifo s). rli_value r = K \<and> rli_key r = v) \<or>
       K \<in> set (slc_insertTuples s)" if "g_cam s K = Some v" for v
  proof -
    have "(K, v) \<in> set (cam_entries s)" using that mK by (auto dest: map_of_SomeD)
    then show ?thesis
      using del len by (auto simp: cam_entries_def valid_ids_def dest: set_zip_leftD)
  qed
  ultimately show ?thesis by blast
qed

text \<open>C10: no lookup is lost, answered twice or answered to the wrong client.  The lookups made by
  each client are those waiting, those in progress (at most one in all) and those answered on
  that client's stream.\<close>

theorem session_lookup_answers:
  assumes "n < 2 ^ 14" and "reach (sl_env n) session_lookup_controller (sl_init n) s"
  shows "g_rx s = length (rxEng2sLookup_req s) + count_list (in_progress s) RX
       + length (sLookup2rxEng_rsp s) \<and>
     g_tx s = length (txApp2sLookup_req s) + count_list (in_progress s) TX_APP
       + length (sLookup2txApp_rsp s) \<and>
     length (in_progress s) = (if slc_fsmState s = LUP_REQ then 0 else 1)"
proof -
  have inv: "sl_inv n s" by (rule sessions.reach_inv [OF assms(2) sl_inv_init [OF assms(1)]])
  then have "length (in_progress s) = (if slc_fsmState s = LUP_REQ then 0 else 1)"
    by (auto simp: sl_inv_def fsm_ok_def in_progress_def split: slcFsmStateType.splits)
  with inv show ?thesis by (simp add: sl_inv_def cnt_ok_def)
qed

subsection \<open>A concrete run\<close>

text \<open>One session is opened by the receive engine: the states after each step.\<close>

definition sl_cyc :: "sl_sys \<Rightarrow> sl_sys" where
  "sl_cyc s = the (session_lookup_controller 0 s)"

definition sl_lookup :: "sl_sys \<Rightarrow> sl_sys" where
  "sl_lookup s = (let q = hd (sessionLookup_req s) in
     s\<lparr>sessionLookup_req := tl (sessionLookup_req s), sessionLookup_rsp := sessionLookup_rsp s @
       [\<lparr>lrp_key = lrq_key q, lrp_sessionID = (case g_cam s (lrq_key q) of Some i \<Rightarrow> i | None \<Rightarrow> 0),
         lrp_hit = (g_cam s (lrq_key q) \<noteq> None), lrp_source = lrq_source q\<rparr>]\<rparr>)"

definition sl_insert :: "sl_sys \<Rightarrow> sl_sys" where
  "sl_insert s = (let u = hd (sessionUpdate_req s) in
     s\<lparr>sessionUpdate_req := tl (sessionUpdate_req s),
       sessionUpdate_rsp := sessionUpdate_rsp s @ [update_reply_of True u],
       g_cam := (g_cam s)(urq_key u \<mapsto> urq_value u)\<rparr>)"

definition sl_query :: "sl_sys \<Rightarrow> sl_sys" where
  "sl_query s = s\<lparr>rxEng2sLookup_req := rxEng2sLookup_req s @
     [\<lparr>slq_tuple = \<lparr>srcIp = 1, dstIp = 2, srcPort = 3, dstPort = 4\<rparr>, slq_allowCreation = True\<rparr>],
     g_rx := g_rx s + 1\<rparr>"

abbreviation sl_reach :: "sl_sys \<Rightarrow> bool" where
  "sl_reach \<equiv> reach (sl_env 2) session_lookup_controller (sl_init 2)"

lemma sl_reach_cyc: "sl_reach s \<Longrightarrow> sl_reach (sl_cyc s)"
  unfolding sl_cyc_def by (rule sessions.reach_next) (auto intro: sl_inv_init)

lemma sl_reach_query: "sl_reach s \<Longrightarrow> sl_reach (sl_query s)"
  unfolding sl_query_def by (rule reach_env [of _ _ _ s]) (assumption, rule sl_env.rx_query)

lemma sl_reach_lookup: "\<lbrakk>sl_reach s; sessionLookup_req s \<noteq> []\<rbrakk> \<Longrightarrow> sl_reach (sl_lookup s)"
proof (rule reach_env [of _ _ _ s], assumption)
  assume "sessionLookup_req s \<noteq> []"
  then obtain q qs where "sessionLookup_req s = q # qs" by (cases "sessionLookup_req s") auto
  from sl_env.cam_lookup [OF this, of 2 0] this show "sl_env 2 s (sl_lookup s)"
    by (simp add: sl_lookup_def)
qed

lemma sl_reach_insert: "\<lbrakk>sl_reach s; sessionUpdate_req s \<noteq> [];
    urq_op (hd (sessionUpdate_req s)) = INSERT\<rbrakk> \<Longrightarrow> sl_reach (sl_insert s)"
proof (rule reach_env [of _ _ _ s], assumption)
  assume "sessionUpdate_req s \<noteq> []" and op: "urq_op (hd (sessionUpdate_req s)) = INSERT"
  then obtain u us where u: "sessionUpdate_req s = u # us" by (cases "sessionUpdate_req s") auto
  from sl_env.cam_insert [OF u, of _ True "{}" 2] u op show "sl_env 2 s (sl_insert s)"
    by (simp add: sl_insert_def table_insert_def)
qed

definition sl_ex1 :: sl_sys where "sl_ex1 = sl_cyc (sl_query (sl_cyc (sl_init 2)))"
definition sl_ex2 :: sl_sys where "sl_ex2 = sl_cyc (sl_lookup sl_ex1)"
definition sl_ex3 :: sl_sys where "sl_ex3 = sl_cyc (sl_cyc (sl_insert sl_ex2))"

lemma sl_ex3_reach: "sl_reach sl_ex3"
proof -
  have 1: "sl_reach sl_ex1"
    unfolding sl_ex1_def by (intro sl_reach_cyc sl_reach_query reach_init)
  have "sessionLookup_req sl_ex1 \<noteq> []" by code_simp
  with 1 have 2: "sl_reach sl_ex2"
    unfolding sl_ex2_def by (intro sl_reach_cyc sl_reach_lookup)
  have "sessionUpdate_req sl_ex2 \<noteq> []" "urq_op (hd (sessionUpdate_req sl_ex2)) = INSERT"
    by code_simp+
  with 2 show ?thesis
    unfolding sl_ex3_def by (intro sl_reach_cyc sl_reach_insert)
qed

lemma sl_ex3_eval:
  "tupleValid sl_ex3 = [True, False]" "length (sLookup2rxEng_rsp sl_ex3) = 1"
  "reverseLookupTable sl_ex3 ! 0 = \<lparr>theirIp = 1, myPort = 4, theirPort = 3\<rparr>"
  "counter sl_ex3 = 2" "g_rx sl_ex3 = 1"
  by code_simp+

theorem session_id_conservation_witness:
  "mset (free_ids sl_ex3 @ busy_ids sl_ex3) = {#0, 1#}"
proof -
  have "[0..<unat (counter sl_ex3)] = [0, 1]" by (simp add: sl_ex3_eval upt_rec)
  with session_id_conservation [OF _ sl_ex3_reach] show ?thesis by simp
qed

theorem session_tables_agree_witness:
  "g_cam sl_ex3 \<lparr>theirIp = 1, myPort = 4, theirPort = 3\<rparr> = Some 0"
proof -
  let ?K = "\<lparr>theirIp = 1, myPort = 4, theirPort = 3\<rparr> :: threeTupleInternal"
  have "?K \<notin> g_lost sl_ex3" by code_simp
  from session_tables_agree [OF _ sl_ex3_reach this]
  have "\<forall>i<2. tupleValid sl_ex3 ! i \<and> reverseLookupTable sl_ex3 ! i = ?K \<longrightarrow> g_cam sl_ex3 ?K = Some (of_nat i)"
    by simp
  from spec [OF this, of 0] show ?thesis by (simp add: sl_ex3_eval)
qed

theorem session_lookup_answers_witness:
  "1 = length (rxEng2sLookup_req sl_ex3) + count_list (in_progress sl_ex3) RX + 1"
proof -
  have "g_rx sl_ex3 = length (rxEng2sLookup_req sl_ex3) + count_list (in_progress sl_ex3) RX
      + length (sLookup2rxEng_rsp sl_ex3)"
    using session_lookup_answers [OF _ sl_ex3_reach] by simp
  then show ?thesis by (simp add: sl_ex3_eval)
qed

end
