(* ===== verification/Hash_Table.thy ===== *)
theory Hash_Table
  imports Session_Lookup
begin

text \<open>
  \<open>hash_table/hash_table.cpp\<close>: the hash table behind the session lookup, cuckoo hashing over nine
  tables.  It implements a map that is allowed to lose one entry with every insert that fails, which is
  what \<open>Session_Lookup\<close> assumes of it.

  \<open>TABLE_ADDRESS_BITS\<close> is the length of the type of hashes, so a hash indexes an array of
  \<open>TABLE_SIZE\<close> entries and the tables are functions.  The random numbers of \<open>tabulation_table.txt\<close>
  are a parameter \<open>tab\<close>.
\<close>

section \<open>Types and state\<close>

datatype kvOperation = KV_INSERT | KV_DELETE










section \<open>Operations\<close>













section \<open>The map it implements\<close>













section \<open>Insertion\<close>










section \<open>Removal\<close>





section \<open>The refinement\<close>






end
