(* ===== verification/Scanner.thy ===== *)
theory Scanner
  imports Prelude
begin

text \<open>
  The timers and the delayed-acknowledgement table all work the same way: one entry of a table is
  visited per idle cycle, and the position wraps around at the end.  The contract of such a
  scanner, and what follows from it about the entry of one session after any number of cycles.
\<close>

primrec cycles :: "('s \<Rightarrow> 's option) \<Rightarrow> nat \<Rightarrow> 's \<Rightarrow> 's option" where
  "cycles f 0 s = Some s"
| "cycles f (Suc m) s = Option.bind (cycles f m s) f"

lemma cycles_Some [simp]: "f s = Some t \<Longrightarrow> cycles f (Suc 0) s = Some t"
  by simp

lemma cycles_add:
  "cycles f (m + k) s = (case cycles f m s of None \<Rightarrow> None | Some t \<Rightarrow> cycles f k t)"
  by (induction k) (simp_all split: option.splits)

text \<open>
  How often entry \<open>i\<close> of \<open>n\<close> has been visited after \<open>m\<close> cycles that start at position \<open>p\<close>: the
  first visit comes \<open>(i - p) mod n\<close> cycles later, then one every \<open>n\<close> cycles.
\<close>

definition wait_for :: "nat \<Rightarrow> nat \<Rightarrow> nat \<Rightarrow> nat" where
  "wait_for n p i = (if p \<le> i then i - p else n - p + i)"

definition visits :: "nat \<Rightarrow> nat \<Rightarrow> nat \<Rightarrow> nat \<Rightarrow> nat" where
  "visits n p i m = (if m \<le> wait_for n p i then 0 else (m - 1 - wait_for n p i) div n + 1)"

definition next_pos :: "nat \<Rightarrow> nat \<Rightarrow> nat" where
  "next_pos n p = (if p + 1 = n then 0 else p + 1)"

lemma visits_0 [simp]: "visits n p i 0 = 0"
  by (simp add: visits_def)

lemma visits_Suc:
  assumes "p < n" "i < n"
  shows "visits n p i (Suc m) = (if p = i then 1 else 0) + visits n (next_pos n p) i m"
proof (cases "p = i")
  case True
  have w: "wait_for n p i = 0" "wait_for n (next_pos n p) i = n - 1"
    using True assms by (auto simp: wait_for_def next_pos_def)
  show ?thesis
  proof (cases "m \<le> n - 1")
    case True
    with w \<open>p = i\<close> assms show ?thesis
      by (cases "m = n - 1") (auto simp: visits_def div_eq_0_iff)
  next
    case False
    define k where "k = m - n"
    with False assms have k: "m = n + k" "n \<noteq> 0" by auto
    have "\<not> m \<le> n - 1" "m - 1 - (n - 1) = k" using k by auto
    moreover have "m div n = k div n + 1" unfolding k(1) by (rule div_add_self1 [OF k(2)])
    ultimately have "visits n p i (Suc m) = 1 + (k div n + 1)"
      "visits n (next_pos n p) i m = k div n + 1"
      unfolding visits_def w by simp_all
    with \<open>p = i\<close> show ?thesis by simp
  qed
next
  case False
  then have "wait_for n p i = Suc (wait_for n (next_pos n p) i)"
    using assms by (auto simp: wait_for_def next_pos_def)
  with False show ?thesis by (simp add: visits_def)
qed

text \<open>So after \<open>m\<close> cycles the number of visits is \<open>m / n\<close>, rounded up or down.\<close>

lemma wait_for_less: "\<lbrakk>p < n; i < n\<rbrakk> \<Longrightarrow> wait_for n p i < n"
  by (auto simp: wait_for_def)

lemma visits_upper: "\<lbrakk>p < n; i < n; m \<le> k * n\<rbrakk> \<Longrightarrow> visits n p i m \<le> k"
proof -
  assume a: "p < n" "i < n" "m \<le> k * n"
  show ?thesis
  proof (cases "m \<le> wait_for n p i")
    case False
    then have "m - 1 - wait_for n p i < k * n" using a by linarith
    then have "(m - 1 - wait_for n p i) div n < k"
      using a by (simp add: div_less_iff_less_mult)
    then show ?thesis by (simp add: visits_def)
  qed (simp add: visits_def)
qed

lemma visits_lower: "\<lbrakk>p < n; i < n; k * n \<le> m\<rbrakk> \<Longrightarrow> k \<le> visits n p i m"
proof (cases k)
  case (Suc j)
  assume a: "p < n" "i < n" "k * n \<le> m"
  have w: "wait_for n p i < n" using a wait_for_less by simp
  have "j * n \<le> m - 1 - wait_for n p i" "\<not> m \<le> wait_for n p i"
    using a w Suc by auto
  then have "j \<le> (m - 1 - wait_for n p i) div n"
    using a by (simp add: less_eq_div_iff_mult_less_eq)
  with \<open>\<not> m \<le> wait_for n p i\<close> Suc show ?thesis by (simp add: visits_def)
qed simp

locale scanner =
  fixes idle :: "'s \<Rightarrow> bool" and pos :: "'s \<Rightarrow> nat" and tab :: "'s \<Rightarrow> 'e list"
    and out :: "'s \<Rightarrow> 'o list" and cyc :: "'s \<Rightarrow> 's option"
    and upd :: "'e \<Rightarrow> 'e" and emit :: "nat \<Rightarrow> 'e \<Rightarrow> 'o list" and tag :: "'o \<Rightarrow> nat"
  assumes step: "\<lbrakk>idle s; pos s < length (tab s)\<rbrakk> \<Longrightarrow> \<exists>t. cyc s = Some t \<and> idle t \<and>
      pos t = next_pos (length (tab s)) (pos s) \<and>
      tab t = (tab s)[pos s := upd (tab s ! pos s)] \<and>
      out t = out s @ emit (pos s) (tab s ! pos s)"
    and emit_tag: "x \<in> set (emit i e) \<Longrightarrow> tag x = i"

context scanner begin

lemma run:
  assumes "idle s" "pos s < length (tab s)" "i < length (tab s)"
  shows "\<exists>t. cycles cyc m s = Some t \<and> idle t \<and> pos t < length (tab t) \<and>
     length (tab t) = length (tab s) \<and>
     tab t ! i = (upd ^^ visits (length (tab s)) (pos s) i m) (tab s ! i) \<and>
     filter (\<lambda>x. tag x = i) (out t) = filter (\<lambda>x. tag x = i) (out s) @
       concat (map (\<lambda>j. emit i ((upd ^^ j) (tab s ! i)))
         [0..<visits (length (tab s)) (pos s) i m])"
proof -
  have "\<exists>t. cycles cyc m s = Some t \<and> idle t \<and> pos t < length (tab t) \<and>
     length (tab t) = length (tab s) \<and>
     (\<exists>v. tab t ! i = (upd ^^ v) (tab s ! i) \<and>
       (\<forall>k. visits (length (tab s)) (pos s) i (m + k) = v + visits (length (tab s)) (pos t) i k) \<and>
       filter (\<lambda>x. tag x = i) (out t) = filter (\<lambda>x. tag x = i) (out s) @
         concat (map (\<lambda>j. emit i ((upd ^^ j) (tab s ! i))) [0..<v]))"
  proof (induction m)
    case 0
    show ?case using assms by simp
  next
    case (Suc m)
    let ?n = "length (tab s)"
    from Suc obtain t v where t: "cycles cyc m s = Some t" "idle t" "pos t < ?n"
      "length (tab t) = ?n" and v: "tab t ! i = (upd ^^ v) (tab s ! i)"
      "\<And>k. visits ?n (pos s) i (m + k) = v + visits ?n (pos t) i k"
      "filter (\<lambda>x. tag x = i) (out t) = filter (\<lambda>x. tag x = i) (out s) @
         concat (map (\<lambda>j. emit i ((upd ^^ j) (tab s ! i))) [0..<v])"
      by auto
    from step [OF t(2)] t obtain u where u: "cyc t = Some u" "idle u"
      "pos u = next_pos ?n (pos t)" "tab u = (tab t)[pos t := upd (tab t ! pos t)]"
      "out u = out t @ emit (pos t) (tab t ! pos t)" by auto
    let ?v = "(if pos t = i then 1 else 0) + v"
    have "pos u < ?n" using t(3) u(3) by (auto simp: next_pos_def)
    moreover have "tab u ! i = (upd ^^ ?v) (tab s ! i)"
      using u t v assms(3) by (simp add: nth_list_update)
    moreover have "visits ?n (pos s) i (Suc m + k) = ?v + visits ?n (pos u) i k" for k
      using v(2) [of "Suc k"] visits_Suc [OF t(3) assms(3), of k] u(3) by simp
    moreover have "filter (\<lambda>x. tag x = i) (emit (pos t) (tab t ! pos t)) =
        (if pos t = i then emit i (tab t ! i) else [])"
      using emit_tag by (auto simp: filter_empty_conv filter_id_conv)
    then have "filter (\<lambda>x. tag x = i) (out u) = filter (\<lambda>x. tag x = i) (out s) @
         concat (map (\<lambda>j. emit i ((upd ^^ j) (tab s ! i))) [0..<?v])"
      using u v by simp
    ultimately show ?case using t u by (auto intro!: exI [of _ u] exI [of _ ?v])
  qed
  then obtain t v where "cycles cyc m s = Some t" "idle t" "pos t < length (tab t)"
    "length (tab t) = length (tab s)" "tab t ! i = (upd ^^ v) (tab s ! i)"
    "\<And>k. visits (length (tab s)) (pos s) i (m + k) = v + visits (length (tab s)) (pos t) i k"
    "filter (\<lambda>x. tag x = i) (out t) = filter (\<lambda>x. tag x = i) (out s) @
         concat (map (\<lambda>j. emit i ((upd ^^ j) (tab s ! i))) [0..<v])" by blast
  moreover from this(6) [of 0] have "visits (length (tab s)) (pos s) i m = v" by simp
  ultimately show ?thesis by blast
qed

end

text \<open>
  An entry that counts down: while it is active and above zero a visit decrements it, at zero a
  visit emits its output \<open>mk i e\<close> and deactivates it, and an inactive entry stays as it is.
\<close>

locale countdown =
  fixes time :: "'e \<Rightarrow> nat" and active :: "'e \<Rightarrow> bool" and upd :: "'e \<Rightarrow> 'e"
    and emit :: "nat \<Rightarrow> 'e \<Rightarrow> 'o list" and mk :: "nat \<Rightarrow> 'e \<Rightarrow> 'o list" and lim :: nat
  assumes count: "\<lbrakk>active e; 0 < time e\<rbrakk> \<Longrightarrow> active (upd e) \<and> time (upd e) = time e - 1 \<and>
      emit i e = [] \<and> mk i (upd e) = mk i e"
    and fire: "\<lbrakk>active e; time e = 0; i < lim\<rbrakk> \<Longrightarrow> \<not> active (upd e) \<and> emit i e = mk i e"
    and rest: "\<not> active e \<Longrightarrow> upd e = e \<and> emit i e = []"

context countdown begin

lemma counting: "\<lbrakk>active e; j \<le> time e\<rbrakk> \<Longrightarrow>
    active ((upd ^^ j) e) \<and> time ((upd ^^ j) e) = time e - j \<and> mk i ((upd ^^ j) e) = mk i e"
  by (induction j) (use count in auto)

lemma stopped: "\<not> active e \<Longrightarrow> (upd ^^ j) e = e"
  by (induction j) (use rest in auto)

lemma emissions:
  assumes "active e" "i < lim"
  shows "concat (map (\<lambda>j. emit i ((upd ^^ j) e)) [0..<v]) = (if v \<le> time e then [] else mk i e)"
proof (induction v)
  case (Suc v)
  consider "v < time e" | "v = time e" | "time e < v" by linarith
  then show ?case
  proof cases
    case 1
    then have "emit i ((upd ^^ v) e) = []" using counting [OF assms(1), of v] count by simp
    with 1 Suc show ?thesis by simp
  next
    case 2
    then have "emit i ((upd ^^ v) e) = mk i e"
      using counting [OF assms(1), of v i] fire assms(2) by simp
    with 2 Suc show ?thesis by simp
  next
    case 3
    then obtain k where k: "v = k + Suc (time e)" by (metis Suc_leI le_add_diff_inverse2)
    have "\<not> active ((upd ^^ Suc (time e)) e)"
      using counting [OF assms(1), of "time e"] fire [OF _ _ assms(2)] by simp
    then have "\<not> active ((upd ^^ v) e)"
      unfolding k funpow_add comp_apply using stopped by simp
    with 3 Suc rest show ?thesis by simp
  qed
qed simp

end

locale timer = scanner idle pos tab out cyc upd emit tag + countdown time active upd emit mk lim
  for idle :: "'s \<Rightarrow> bool" and pos :: "'s \<Rightarrow> nat" and tab :: "'s \<Rightarrow> 'e list"
    and out :: "'s \<Rightarrow> 'o list" and cyc :: "'s \<Rightarrow> 's option"
    and upd :: "'e \<Rightarrow> 'e" and emit :: "nat \<Rightarrow> 'e \<Rightarrow> 'o list" and tag :: "'o \<Rightarrow> nat"
    and time :: "'e \<Rightarrow> nat" and active :: "'e \<Rightarrow> bool" and mk :: "nat \<Rightarrow> 'e \<Rightarrow> 'o list" and lim :: nat

context timer begin

lemma expires:
  assumes s: "idle s" "pos s < length (tab s)" and i: "i < length (tab s)" "i < lim"
    and a: "active (tab s ! i)"
  shows "\<exists>s'. cycles cyc m s = Some s' \<and> idle s' \<and>
    (m \<le> time (tab s ! i) * length (tab s) \<longrightarrow>
       filter (\<lambda>x. tag x = i) (out s') = filter (\<lambda>x. tag x = i) (out s)) \<and>
    ((time (tab s ! i) + 1) * length (tab s) \<le> m \<longrightarrow>
       filter (\<lambda>x. tag x = i) (out s') = filter (\<lambda>x. tag x = i) (out s) @ mk i (tab s ! i) \<and>
       tab s' ! i = upd ((upd ^^ time (tab s ! i)) (tab s ! i)))"
proof -
  let ?v = "visits (length (tab s)) (pos s) i m" and ?t = "time (tab s ! i)"
  from run [OF s i(1), of m] obtain s' where s': "cycles cyc m s = Some s'" "idle s'"
    "tab s' ! i = (upd ^^ ?v) (tab s ! i)"
    "filter (\<lambda>x. tag x = i) (out s') = filter (\<lambda>x. tag x = i) (out s) @
       concat (map (\<lambda>j. emit i ((upd ^^ j) (tab s ! i))) [0..<?v])" by blast
  have "?v \<le> ?t" if "m \<le> ?t * length (tab s)" by (rule visits_upper [OF s(2) i(1) that])
  moreover have "?t + 1 \<le> ?v" if "(?t + 1) * length (tab s) \<le> m"
    by (rule visits_lower [OF s(2) i(1) that])
  moreover have "(upd ^^ ?v) (tab s ! i) = upd ((upd ^^ ?t) (tab s ! i))" if v: "?t + 1 \<le> ?v"
  proof -
    obtain k where k: "?v = k + Suc ?t" using v by (metis Suc_eq_plus1 le_add_diff_inverse2)
    have "\<not> active (upd ((upd ^^ ?t) (tab s ! i)))"
      using counting [OF a, of ?t] fire [OF _ _ i(2)] by simp
    then show ?thesis unfolding k funpow_add comp_apply using stopped by simp
  qed
  ultimately show ?thesis using s' emissions [OF a i(2), of ?v] by auto
qed

lemma early:
  assumes "idle s" "pos s < length (tab s)" "i < length (tab s)" "i < lim" "active (tab s ! i)"
    and "cycles cyc m s = Some s'" "m \<le> time (tab s ! i) * length (tab s)"
  shows "filter (\<lambda>x. tag x = i) (out s') = filter (\<lambda>x. tag x = i) (out s)"
  using expires [OF assms(1-5), of m] assms(6,7) by auto

lemma late:
  assumes "idle s" "pos s < length (tab s)" "i < length (tab s)" "i < lim" "active (tab s ! i)"
    and "cycles cyc m s = Some s'" "(time (tab s ! i) + 1) * length (tab s) \<le> m"
  shows "filter (\<lambda>x. tag x = i) (out s') = filter (\<lambda>x. tag x = i) (out s) @ mk i (tab s ! i)"
  using expires [OF assms(1-5), of m] assms(6,7) by auto

lemma final:
  assumes "idle s" "pos s < length (tab s)" "i < length (tab s)" "i < lim" "active (tab s ! i)"
    and "cycles cyc m s = Some s'" "(time (tab s ! i) + 1) * length (tab s) \<le> m"
  shows "tab s' ! i = upd ((upd ^^ time (tab s ! i)) (tab s ! i))"
  using expires [OF assms(1-5), of m] assms(6,7) by auto

end

end
