(* ===== verification/Timers.thy ===== *)
theory Timers
  imports Toe_Internals Scanner
begin

text \<open>
  \<open>close_timer\<close>, \<open>probe_timer\<close>, \<open>retransmit_timer\<close> and the timer part of \<open>toe.cpp\<close>.  Each timer
  holds one entry per session and visits one entry per idle cycle; setting a timer takes priority
  over the sweep.  The intervals are parameters (\<open>toe_times\<close>).
\<close>

section \<open>Close timer\<close>

record close_timer_entry =
  ct_time :: u32
  ct_active :: bool

record close_st =
  closeTimerTable :: "close_timer_entry list"
  ct_currSessionID :: u16
  ct_setSessionID :: u16
  ct_prevSessionID :: u16
  ct_waitForWrite :: bool
  rxEng2timer_setCloseTimer :: "u16 fifo"
  closeTimer2stateTable_releaseState :: "u16 fifo"

definition close_timer :: "toe_times \<Rightarrow> close_st \<Rightarrow> close_st option" where
  "close_timer T s =
    (if ct_waitForWrite s then do {
       s \<leftarrow> (if ct_setSessionID s \<noteq> ct_prevSessionID s then do {
               tab \<leftarrow> tset (closeTimerTable s) (ct_setSessionID s)
                       \<lparr>ct_time = TIME_60s T, ct_active = True\<rparr>;
               Some (s\<lparr>closeTimerTable := tab, ct_waitForWrite := False\<rparr>)
             } else Some s);
       Some (s\<lparr>ct_prevSessionID := ct_prevSessionID s - 1\<rparr>)
     }
     else if rxEng2timer_setCloseTimer s \<noteq> [] then
       Some (s\<lparr>rxEng2timer_setCloseTimer := tl (rxEng2timer_setCloseTimer s),
               ct_setSessionID := hd (rxEng2timer_setCloseTimer s), ct_waitForWrite := True\<rparr>)
     else do {
       let s = s\<lparr>ct_prevSessionID := ct_currSessionID s\<rparr>;
       e \<leftarrow> tget (closeTimerTable s) (ct_currSessionID s);
       s \<leftarrow> (if ct_active e then
               (if ct_time e > 0 then do {
                  tab \<leftarrow> tset (closeTimerTable s) (ct_currSessionID s)
                          (e\<lparr>ct_time := ct_time e - 1\<rparr>);
                  Some (s\<lparr>closeTimerTable := tab\<rparr>)
                } else do {
                  tab \<leftarrow> tset (closeTimerTable s) (ct_currSessionID s)
                          (e\<lparr>ct_time := 0, ct_active := False\<rparr>);
                  Some (s\<lparr>closeTimerTable := tab,
                          closeTimer2stateTable_releaseState :=
                            closeTimer2stateTable_releaseState s @ [ct_currSessionID s]\<rparr>)
                })
             else Some s);
       let s = s\<lparr>ct_currSessionID := ct_currSessionID s + 1\<rparr>;
       Some (if unat (ct_currSessionID s) = length (closeTimerTable s)
             then s\<lparr>ct_currSessionID := 0\<rparr> else s)
     })"

definition close_inv :: "nat \<Rightarrow> close_st \<Rightarrow> bool" where
  "close_inv n s \<longleftrightarrow> n < 2 ^ 16 \<and> length (closeTimerTable s) = n \<and>
     unat (ct_currSessionID s) < n \<and>
     (ct_waitForWrite s \<longrightarrow> unat (ct_setSessionID s) < n) \<and>
     (\<forall>i\<in>set (rxEng2timer_setCloseTimer s). unat i < n)"

inductive close_env :: "nat \<Rightarrow> close_st \<Rightarrow> close_st \<Rightarrow> bool" for n where
  set_close: "unat i < n \<Longrightarrow> close_env n s
    (s\<lparr>rxEng2timer_setCloseTimer := rxEng2timer_setCloseTimer s @ [i]\<rparr>)"

subsection \<open>One cycle\<close>

lemma unat_next_pos:
  fixes i :: u16
  assumes "n < 2 ^ 16" "unat i < n"
  shows "unat (if unat (i + 1) = n then 0 else i + 1) = next_pos n (unat i)"
proof -
  have "unat (i + 1) = unat i + 1"
    using assms by (simp add: unat_word_ariths)
  then show ?thesis by (simp add: next_pos_def)
qed

definition close_tick :: "close_timer_entry \<Rightarrow> close_timer_entry" where
  "close_tick e = (if ct_active e
     then if ct_time e > 0 then e\<lparr>ct_time := ct_time e - 1\<rparr> else e\<lparr>ct_time := 0, ct_active := False\<rparr>
     else e)"

definition close_emit :: "nat \<Rightarrow> close_timer_entry \<Rightarrow> u16 list" where
  "close_emit i e = (if i < 2 ^ 16 \<and> ct_active e \<and> ct_time e = 0 then [of_nat i] else [])"

definition close_idle :: "nat \<Rightarrow> close_st \<Rightarrow> bool" where
  "close_idle n s \<longleftrightarrow> close_inv n s \<and> \<not> ct_waitForWrite s \<and> rxEng2timer_setCloseTimer s = []"

lemma close_timer_idle:
  assumes inv: "close_inv n s" "\<not> ct_waitForWrite s" "rxEng2timer_setCloseTimer s = []"
  shows "close_timer T s = Some (s\<lparr>
     ct_prevSessionID := ct_currSessionID s,
     closeTimerTable := (closeTimerTable s)[unat (ct_currSessionID s) :=
       close_tick (closeTimerTable s ! unat (ct_currSessionID s))],
     closeTimer2stateTable_releaseState := closeTimer2stateTable_releaseState s @
       close_emit (unat (ct_currSessionID s)) (closeTimerTable s ! unat (ct_currSessionID s)),
     ct_currSessionID := (if unat (ct_currSessionID s + 1) = n then 0 else ct_currSessionID s + 1)\<rparr>)"
  using assms unat_less [of "ct_currSessionID s"]
  by (auto simp: close_timer_def close_inv_def Let_def close_tick_def close_emit_def word_gt_0)

lemma close_timer_set:
  "\<lbrakk>\<not> ct_waitForWrite s; rxEng2timer_setCloseTimer s = i # rest\<rbrakk> \<Longrightarrow>
   close_timer T s = Some (s\<lparr>rxEng2timer_setCloseTimer := rest, ct_setSessionID := i,
     ct_waitForWrite := True\<rparr>)"
  by (simp add: close_timer_def)

lemma close_timer_wait:
  assumes "close_inv n s" "ct_waitForWrite s"
  shows "close_timer T s = Some (
    if ct_setSessionID s = ct_prevSessionID s then s\<lparr>ct_prevSessionID := ct_prevSessionID s - 1\<rparr>
    else s\<lparr>closeTimerTable := (closeTimerTable s)[unat (ct_setSessionID s) :=
             \<lparr>ct_time = TIME_60s T, ct_active = True\<rparr>],
           ct_waitForWrite := False, ct_prevSessionID := ct_prevSessionID s - 1\<rparr>)"
  using assms by (simp add: close_timer_def close_inv_def)

lemma close_inv_step: "\<lbrakk>close_inv n s; close_timer T s = Some t\<rbrakk> \<Longrightarrow> close_inv n t"
proof -
  assume inv: "close_inv n s" and t: "close_timer T s = Some t"
  show ?thesis
  proof (cases "ct_waitForWrite s")
    case True
    with inv t close_timer_wait [OF inv True, of T] show ?thesis
      by (auto simp: close_inv_def split: if_splits)
  next
    case w: False
    show ?thesis
    proof (cases "rxEng2timer_setCloseTimer s")
      case Nil
      have "next_pos n (unat (ct_currSessionID s)) < n"
        using inv by (auto simp: close_inv_def next_pos_def)
      with inv t close_timer_idle [OF inv w Nil, of T] unat_next_pos [of n "ct_currSessionID s"] w
      show ?thesis by (auto simp: close_inv_def)
    next
      case (Cons i rest)
      with inv t close_timer_set [OF w Cons, of T] show ?thesis by (auto simp: close_inv_def)
    qed
  qed
qed

interpretation close: clocked "close_inv n" "close_env n" close_timer for n
proof (unfold_locales, goal_cases)
  case (1 s t)
  then show ?case by (auto simp: close_inv_def elim!: close_env.cases)
next
  case (2 s T)
  then show ?case
    using close_timer_idle [of n s T] close_timer_set [of s] close_timer_wait [of n s T]
    by (cases "ct_waitForWrite s"; cases "rxEng2timer_setCloseTimer s") auto
next
  case (3 s T t)
  then show ?case by (rule close_inv_step)
qed


interpretation close_sweep: timer "close_idle n" "\<lambda>s. unat (ct_currSessionID s)" closeTimerTable
  closeTimer2stateTable_releaseState "close_timer T" close_tick close_emit unat
  "\<lambda>e. unat (ct_time e)" ct_active "\<lambda>i e. [of_nat i]" "2 ^ 16" for n T
proof (unfold_locales, goal_cases)
  case (1 s)
  then have i: "close_inv n s" "\<not> ct_waitForWrite s" "rxEng2timer_setCloseTimer s = []"
    by (simp_all add: close_idle_def)
  note c = close_timer_idle [OF i, of T]
  from close_inv_step [OF i(1) c] i
  show ?case unfolding c
    using unat_next_pos [of n "ct_currSessionID s"] by (simp add: close_idle_def close_inv_def)
qed (auto simp: close_emit_def close_tick_def unat_of_nat_eq word_gt_0 unat_gt_0 unat_dec unsigned_eq_0_iff
    split: if_splits)

subsection \<open>Expiry\<close>

text \<open>
  A run under traffic: \<open>m\<close> cycles, and \<open>q\<close> requests to arm the timer of other sessions than \<open>i\<close>, at
  any time.  A request costs at most three cycles in which the sweep does not move.
\<close>

inductive close_run :: "toe_times \<Rightarrow> nat \<Rightarrow> u16 \<Rightarrow> close_st \<Rightarrow> nat \<Rightarrow> nat \<Rightarrow> close_st \<Rightarrow> bool" for T n i s where
  run_start: "close_run T n i s 0 0 s"
| run_cycle: "close_run T n i s m q u \<Longrightarrow> close_timer T u = Some v \<Longrightarrow> close_run T n i s (Suc m) q v"
| run_request: "close_run T n i s m q u \<Longrightarrow> unat j < n \<Longrightarrow> j \<noteq> i \<Longrightarrow> close_run T n i s m (Suc q)
    (u\<lparr>rxEng2timer_setCloseTimer := rxEng2timer_setCloseTimer u @ [j]\<rparr>)"

definition close_cost :: "close_st \<Rightarrow> nat" where
  "close_cost s = 3 * length (rxEng2timer_setCloseTimer s) +
     (if ct_waitForWrite s then if ct_setSessionID s = ct_prevSessionID s then 2 else 1 else 0)"

definition close_others :: "u16 \<Rightarrow> close_st \<Rightarrow> bool" where
  "close_others i s \<longleftrightarrow> i \<notin> set (rxEng2timer_setCloseTimer s) \<and> (ct_waitForWrite s \<longrightarrow> ct_setSessionID s \<noteq> i)"

definition releases_of :: "u16 \<Rightarrow> close_st \<Rightarrow> u16 list" where
  "releases_of i s = filter (\<lambda>x. x = i) (closeTimer2stateTable_releaseState s)"

text \<open>\<open>close_at n i s v u\<close>: in \<open>u\<close> the entry of \<open>i\<close> has been visited \<open>v\<close> times since \<open>s\<close>.\<close>

definition close_at :: "nat \<Rightarrow> u16 \<Rightarrow> close_st \<Rightarrow> nat \<Rightarrow> close_st \<Rightarrow> bool" where
  "close_at n i s v u \<longleftrightarrow> close_inv n u \<and> close_others i u \<and>
     closeTimerTable u ! unat i = (close_tick ^^ v) (closeTimerTable s ! unat i) \<and>
     releases_of i u = releases_of i s @
       concat (map (\<lambda>j. close_emit (unat i) ((close_tick ^^ j) (closeTimerTable s ! unat i))) [0..<v])"

lemma close_at_cycle:
  assumes at: "close_at n i s v u" and i: "unat i < n" and c: "close_timer T u = Some w"
  shows "(close_at n i s v w \<and> ct_currSessionID w = ct_currSessionID u \<and> Suc (close_cost w) \<le> close_cost u) \<or>
    (close_at n i s (if ct_currSessionID u = i then Suc v else v) w \<and> close_cost w = close_cost u \<and>
     unat (ct_currSessionID w) = next_pos n (unat (ct_currSessionID u)))"
proof -
  have inv: "close_inv n u" and o: "close_others i u" using at by (simp_all add: close_at_def)
  have inv': "close_inv n w" by (rule close_inv_step [OF inv c])
  show ?thesis
  proof (cases "ct_waitForWrite u")
    case True
    have ne: "ct_prevSessionID u - 1 \<noteq> ct_prevSessionID u"
      by (metis diff_0_right diff_left_imp_eq zero_neq_one)
    have d: "unat (ct_setSessionID u) \<noteq> unat i" using o True by (auto simp: close_others_def unat_eq_unat_iff)
    from close_timer_wait [OF inv True, of T] c at inv' True ne d show ?thesis
      by (auto simp: close_at_def close_others_def close_cost_def releases_of_def split: if_splits)
  next
    case idle: False
    show ?thesis
    proof (cases "rxEng2timer_setCloseTimer u")
      case (Cons j rest)
      with close_timer_set [OF idle Cons, of T] c at inv' idle show ?thesis
        by (auto simp: close_at_def close_others_def close_cost_def releases_of_def)
    next
      case Nil
      note st = close_timer_idle [OF inv idle Nil, of T, unfolded c option.inject]
      have pos: "unat (ct_currSessionID w) = next_pos n (unat (ct_currSessionID u))"
        using unat_next_pos [of n "ct_currSessionID u"] inv unfolding st by (simp add: close_inv_def)
      have len: "length (closeTimerTable u) = n" using inv by (simp add: close_inv_def)
      have e: "filter (\<lambda>x. x = i) (close_emit (unat (ct_currSessionID u)) e) =
          (if ct_currSessionID u = i then close_emit (unat i) e else [])" for e
        by (auto simp: close_emit_def)
      have t: "closeTimerTable w ! unat i = (if ct_currSessionID u = i then close_tick (closeTimerTable u ! unat i)
          else closeTimerTable u ! unat i)"
        unfolding st using len i by (simp add: nth_list_update unat_eq_unat_iff)
      have r: "releases_of i w = releases_of i u @
          (if ct_currSessionID u = i then close_emit (unat i) (closeTimerTable u ! unat i) else [])"
        unfolding st by (auto simp: releases_of_def e)
      have "close_others i w" unfolding st using idle Nil by (simp add: close_others_def)
      with at inv' have "close_at n i s (if ct_currSessionID u = i then Suc v else v) w"
        unfolding close_at_def t r by (cases "ct_currSessionID u = i") simp_all
      moreover have "close_cost w = close_cost u" using idle Nil unfolding st by (simp add: close_cost_def)
      ultimately show ?thesis using pos by blast
    qed
  qed
qed

lemma close_run_visits:
  assumes r: "close_run T n i s m q u" and s: "close_inv n s" "close_others i s" and i: "unat i < n"
  shows "\<exists>k v. k \<le> m \<and> m + close_cost u \<le> k + 3 * q + close_cost s \<and> close_at n i s v u \<and>
    (\<forall>l. visits n (unat (ct_currSessionID s)) (unat i) (k + l) = v + visits n (unat (ct_currSessionID u)) (unat i) l)"
  using r
proof induction
  case run_start
  show ?case using s by (intro exI [of _ 0]) (simp add: close_at_def)
next
  case (run_cycle m q u w)
  then obtain k v where kv: "k \<le> m" "m + close_cost u \<le> k + 3 * q + close_cost s" "close_at n i s v u"
    "\<And>l. visits n (unat (ct_currSessionID s)) (unat i) (k + l) = v + visits n (unat (ct_currSessionID u)) (unat i) l"
    by blast
  have p: "unat (ct_currSessionID u) < n" using kv(3) by (simp add: close_at_def close_inv_def)
  from close_at_cycle [OF kv(3) i run_cycle.hyps(2)] show ?case
  proof (elim disjE conjE)
    assume "close_at n i s v w" "ct_currSessionID w = ct_currSessionID u" "Suc (close_cost w) \<le> close_cost u"
    with kv show ?thesis by (intro exI [of _ k] exI [of _ v]) simp
  next
    assume w: "close_at n i s (if ct_currSessionID u = i then Suc v else v) w" "close_cost w = close_cost u"
      "unat (ct_currSessionID w) = next_pos n (unat (ct_currSessionID u))"
    have "visits n (unat (ct_currSessionID s)) (unat i) (Suc k + l) =
        (if ct_currSessionID u = i then Suc v else v) + visits n (unat (ct_currSessionID w)) (unat i) l" for l
      using kv(4) [of "Suc l"] visits_Suc [OF p i, of l] w(3) by (simp add: unat_eq_unat_iff)
    with kv(1,2) w(1,2) show ?thesis by (intro exI [of _ "Suc k"] exI [of _ "if ct_currSessionID u = i then Suc v else v"]) simp
  qed
next
  case (run_request m q u j)
  then obtain k v where kv: "k \<le> m" "m + close_cost u \<le> k + 3 * q + close_cost s" "close_at n i s v u"
    "\<And>l. visits n (unat (ct_currSessionID s)) (unat i) (k + l) = v + visits n (unat (ct_currSessionID u)) (unat i) l"
    by blast
  let ?u = "u\<lparr>rxEng2timer_setCloseTimer := rxEng2timer_setCloseTimer u @ [j]\<rparr>"
  have "close_at n i s v ?u" using kv(3) run_request.hyps(2,3)
    by (auto simp: close_at_def close_inv_def close_others_def releases_of_def)
  moreover have "close_cost ?u = close_cost u + 3" by (simp add: close_cost_def)
  moreover have "ct_currSessionID ?u = ct_currSessionID u" by simp
  ultimately show ?case using kv by (intro exI [of _ k] exI [of _ v]) simp
qed

text \<open>C12: a connection in TIME-WAIT is released once, and in time.  With the timer of session \<open>i\<close>
  at \<open>t\<close>, and whatever timers of other sessions are armed meanwhile: nothing is released for \<open>i\<close>
  in the first \<open>t * n\<close> cycles, wherever the sweep over the \<open>n\<close> sessions stands, and exactly one release
  has been issued after \<open>(t + 1) * n\<close> cycles and three more for each of the \<open>q\<close> requests of the run
  (and at most \<open>close_cost s\<close> for those already waiting at its start), however long it goes on; the
  table is never left.  So requests delay the release, each by three cycles at most.\<close>

theorem close_timer_expires:
  assumes s: "close_inv n s" "close_others i s" and i: "unat i < n" "ct_active (closeTimerTable s ! unat i)"
    and r: "close_run T n i s m q u"
  defines "t \<equiv> unat (ct_time (closeTimerTable s ! unat i))"
  shows "(m \<le> t * n \<longrightarrow> releases_of i u = releases_of i s) \<and>
    ((t + 1) * n + 3 * q + close_cost s \<le> m \<longrightarrow> releases_of i u = releases_of i s @ [i]) \<and>
    (\<exists>w. close_timer T u = Some w)"
proof -
  let ?p = "unat (ct_currSessionID s)"
  from close_run_visits [OF r s i(1)] obtain k v where kv: "k \<le> m" "m + close_cost u \<le> k + 3 * q + close_cost s"
    "close_at n i s v u" "\<forall>l. visits n ?p (unat i) (k + l) = v + visits n (unat (ct_currSessionID u)) (unat i) l"
    by blast
  from kv(4) have v: "v = visits n ?p (unat i) k" by (metis add.right_neutral visits_0)
  have p: "?p < n" using s by (simp add: close_inv_def)
  have i16: "unat i < 2 ^ 16" using unat_less [of i] by simp
  have out: "releases_of i u = releases_of i s @ (if v \<le> t then [] else [i])"
    using kv(3) close_sweep.emissions [OF i(2) i16, of v] by (simp add: close_at_def t_def)
  have "v \<le> t" if "m \<le> t * n" using visits_upper [OF p i(1), of k t] kv(1) that v by simp
  moreover have "t + 1 \<le> v" if "(t + 1) * n + 3 * q + close_cost s \<le> m"
    using visits_lower [OF p i(1), of "t + 1" k] kv(2) that v by simp
  moreover have "\<exists>w. close_timer T u = Some w"
    using close.cyc_safe [of n u T] kv(3) by (simp add: close_at_def)
  ultimately show ?thesis using out by auto
qed

definition close_ex :: close_st where
  "close_ex = \<lparr>closeTimerTable = [\<lparr>ct_time = 0, ct_active = False\<rparr>, \<lparr>ct_time = 2, ct_active = True\<rparr>],
     ct_currSessionID = 1, ct_setSessionID = 0, ct_prevSessionID = 0, ct_waitForWrite = False,
     rxEng2timer_setCloseTimer = [], closeTimer2stateTable_releaseState = []\<rparr>"

text \<open>Session 0 is armed in the middle of the run.\<close>

theorem close_timer_expires_witness:
  "\<exists>u. close_run sim_times 2 1 close_ex 9 1 u \<and> releases_of 1 u = [1]"
proof -
  let ?r = "\<lambda>u. u\<lparr>rxEng2timer_setCloseTimer := rxEng2timer_setCloseTimer u @ [0 :: u16]\<rparr>"
  have inv: "close_inv 2 close_ex" "close_others 1 close_ex"
    by (simp_all add: close_inv_def close_others_def close_ex_def)
  have next_cycle: "\<exists>v. close_run sim_times 2 1 close_ex (Suc m) q v" if "close_run sim_times 2 1 close_ex m q u" for m q u
  proof -
    from close_timer_expires [OF inv _ _ that] obtain v where "close_timer sim_times u = Some v"
      by (auto simp: close_ex_def)
    with that show ?thesis by (auto intro: run_cycle)
  qed
  have "\<exists>u. close_run sim_times 2 1 close_ex 1 0 u" using next_cycle [OF run_start] by simp
  then obtain u where "close_run sim_times 2 1 close_ex 1 0 u" ..
  then have start: "\<exists>u. close_run sim_times 2 1 close_ex 1 1 u"
    using run_request [of sim_times 2 1 close_ex 1 0 u 0] by auto
  have "\<exists>u. close_run sim_times 2 1 close_ex (1 + m) 1 u" for m
    by (induction m) (use start next_cycle in \<open>auto simp del: One_nat_def\<close>)
  from this [of 8] obtain u where u: "close_run sim_times 2 1 close_ex 9 1 u" by auto
  from close_timer_expires [OF inv _ _ u] have "releases_of 1 u = [1]"
    by (simp add: close_ex_def close_cost_def releases_of_def)
  with u show ?thesis by blast
qed

text \<open>Arming the close timer terminates.  A request is read and written to the table within
  three cycles: the write waits for the sweep to be elsewhere, and it never waits twice.\<close>

theorem close_timer_armed:
  assumes "close_inv n s" and "\<not> ct_waitForWrite s" and "rxEng2timer_setCloseTimer s = i # rest"
  shows "\<exists>m\<le>3. \<exists>s'. cycles (close_timer T) m s = Some s' \<and> \<not> ct_waitForWrite s' \<and>
    rxEng2timer_setCloseTimer s' = rest \<and>
    closeTimerTable s' = (closeTimerTable s)[unat i := \<lparr>ct_time = TIME_60s T, ct_active = True\<rparr>] \<and>
    closeTimer2stateTable_releaseState s' = closeTimer2stateTable_releaseState s"
proof -
  let ?e = "\<lparr>ct_time = TIME_60s T, ct_active = True\<rparr>"
  let ?a = "s\<lparr>rxEng2timer_setCloseTimer := rest, ct_setSessionID := i, ct_waitForWrite := True\<rparr>"
  have a: "close_timer T s = Some ?a" by (rule close_timer_set [OF assms(2,3)])
  then have inva: "close_inv n ?a" by (rule close_inv_step [OF assms(1)])
  let ?b = "?a\<lparr>ct_prevSessionID := ct_prevSessionID s - 1\<rparr>"
  show ?thesis
  proof (cases "i = ct_prevSessionID s")
    case False
    with close_timer_wait [OF inva, of T] a show ?thesis
      by (intro exI [of _ 2]) (simp add: numeral_2_eq_2)
  next
    case True
    then have b: "close_timer T ?a = Some ?b" using close_timer_wait [OF inva, of T] by simp
    then have invb: "close_inv n ?b" by (rule close_inv_step [OF inva])
    have "i \<noteq> ct_prevSessionID s - 1" using True by (metis diff_0_right diff_left_imp_eq zero_neq_one)
    with close_timer_wait [OF invb, of T] a b show ?thesis
      by (intro exI [of _ 3]) (simp add: numeral_3_eq_3)
  qed
qed

theorem close_timer_armed_witness:
  "\<exists>m\<le>3. \<exists>s'. cycles (close_timer sim_times) m (close_ex\<lparr>rxEng2timer_setCloseTimer := [0]\<rparr>) = Some s' \<and>
     closeTimerTable s' ! 0 = \<lparr>ct_time = 60, ct_active = True\<rparr>"
proof -
  have "close_inv 2 (close_ex\<lparr>rxEng2timer_setCloseTimer := [0]\<rparr>)"
    by (simp add: close_inv_def close_ex_def)
  from close_timer_armed [OF this, of 0 "[]" sim_times] show ?thesis
    by (fastforce simp: close_ex_def sim_times_def)
qed

section \<open>Probe timer\<close>

record probe_timer_entry =
  pt_time :: u32
  pt_active :: bool

record probe_st =
  probeTimerTable :: "probe_timer_entry list"
  pt_currSessionID :: u16
  pt_updSessionID :: u16
  pt_prevSessionID :: u16
  pt_WaitForWrite :: bool
  rxEng2timer_clearProbeTimer :: "u16 fifo"
  txEng2timer_setProbeTimer :: "u16 fifo"
  probeTimer2eventEng_setEvent :: "event fifo"

text \<open>The input \<open>full\<close> is the flag of \<open>probeTimer2eventEng_setEvent\<close>.\<close>

definition probe_timer :: "toe_times \<times> bool \<Rightarrow> probe_st \<Rightarrow> probe_st option" where
  "probe_timer i s = (let T = fst i; full = snd i in
     if pt_WaitForWrite s then do {
       s \<leftarrow> (if pt_updSessionID s \<noteq> pt_prevSessionID s then do {
               tab \<leftarrow> tset (probeTimerTable s) (pt_updSessionID s)
                       \<lparr>pt_time = TIME_50ms T, pt_active = True\<rparr>;
               Some (s\<lparr>probeTimerTable := tab, pt_WaitForWrite := False\<rparr>)
             } else Some s);
       Some (s\<lparr>pt_prevSessionID := pt_prevSessionID s - 1\<rparr>)
     }
     else if txEng2timer_setProbeTimer s \<noteq> [] then
       Some (s\<lparr>txEng2timer_setProbeTimer := tl (txEng2timer_setProbeTimer s),
               pt_updSessionID := hd (txEng2timer_setProbeTimer s), pt_WaitForWrite := True\<rparr>)
     else do {
       let fastResume = (rxEng2timer_clearProbeTimer s \<noteq> []);
       let checkID = (if fastResume then hd (rxEng2timer_clearProbeTimer s)
                      else pt_currSessionID s);
       let s = (if fastResume
                then s\<lparr>rxEng2timer_clearProbeTimer := tl (rxEng2timer_clearProbeTimer s)\<rparr>
                else let s = s\<lparr>pt_currSessionID := pt_currSessionID s + 1\<rparr>
                     in if unat (pt_currSessionID s) = length (probeTimerTable s)
                        then s\<lparr>pt_currSessionID := 0\<rparr> else s);
       e \<leftarrow> tget (probeTimerTable s) checkID;
       s \<leftarrow> (if pt_active e \<and> \<not> full then
               (if pt_time e = 0 \<or> fastResume then do {
                  tab \<leftarrow> tset (probeTimerTable s) checkID (e\<lparr>pt_time := 0, pt_active := False\<rparr>);
                  Some (s\<lparr>probeTimerTable := tab,
                          probeTimer2eventEng_setEvent :=
                            probeTimer2eventEng_setEvent s @ [event_simple RT checkID]\<rparr>)
                } else do {
                  tab \<leftarrow> tset (probeTimerTable s) checkID (e\<lparr>pt_time := pt_time e - 1\<rparr>);
                  Some (s\<lparr>probeTimerTable := tab\<rparr>)
                })
             else Some s);
       Some (s\<lparr>pt_prevSessionID := checkID\<rparr>)
     })"

definition probe_inv :: "nat \<Rightarrow> probe_st \<Rightarrow> bool" where
  "probe_inv n s \<longleftrightarrow> n < 2 ^ 16 \<and> length (probeTimerTable s) = n \<and>
     unat (pt_currSessionID s) < n \<and>
     (pt_WaitForWrite s \<longrightarrow> unat (pt_updSessionID s) < n) \<and>
     (\<forall>i\<in>set (txEng2timer_setProbeTimer s). unat i < n) \<and>
     (\<forall>i\<in>set (rxEng2timer_clearProbeTimer s). unat i < n)"

inductive probe_env :: "nat \<Rightarrow> probe_st \<Rightarrow> probe_st \<Rightarrow> bool" for n where
  set_probe: "unat i < n \<Longrightarrow> probe_env n s
    (s\<lparr>txEng2timer_setProbeTimer := txEng2timer_setProbeTimer s @ [i]\<rparr>)"
| clear_probe: "unat i < n \<Longrightarrow> probe_env n s
    (s\<lparr>rxEng2timer_clearProbeTimer := rxEng2timer_clearProbeTimer s @ [i]\<rparr>)"
| take_event: "probe_env n s
    (s\<lparr>probeTimer2eventEng_setEvent := tl (probeTimer2eventEng_setEvent s)\<rparr>)"

definition probe_tick :: "probe_timer_entry \<Rightarrow> probe_timer_entry" where
  "probe_tick e = (if pt_active e
     then if pt_time e = 0 then e\<lparr>pt_time := 0, pt_active := False\<rparr> else e\<lparr>pt_time := pt_time e - 1\<rparr>
     else e)"

definition probe_emit :: "nat \<Rightarrow> probe_timer_entry \<Rightarrow> event list" where
  "probe_emit i e =
     (if i < 2 ^ 16 \<and> pt_active e \<and> pt_time e = 0 then [event_simple RT (of_nat i)] else [])"

definition probe_idle :: "nat \<Rightarrow> probe_st \<Rightarrow> bool" where
  "probe_idle n s \<longleftrightarrow> probe_inv n s \<and> \<not> pt_WaitForWrite s \<and> txEng2timer_setProbeTimer s = [] \<and>
     rxEng2timer_clearProbeTimer s = []"

lemma probe_timer_idle:
  assumes "probe_idle n s"
  shows "probe_timer (T, full) s = Some (s\<lparr>
     pt_prevSessionID := pt_currSessionID s,
     probeTimerTable := (if full then probeTimerTable s
       else (probeTimerTable s)[unat (pt_currSessionID s) :=
         probe_tick (probeTimerTable s ! unat (pt_currSessionID s))]),
     probeTimer2eventEng_setEvent := probeTimer2eventEng_setEvent s @ (if full then []
       else probe_emit (unat (pt_currSessionID s)) (probeTimerTable s ! unat (pt_currSessionID s))),
     pt_currSessionID := (if unat (pt_currSessionID s + 1) = n then 0 else pt_currSessionID s + 1)\<rparr>)"
  using assms unat_less [of "pt_currSessionID s"]
  by (auto simp: probe_timer_def probe_idle_def probe_inv_def Let_def probe_tick_def probe_emit_def)

lemma probe_timer_clear:
  assumes "probe_inv n s" "\<not> pt_WaitForWrite s" "txEng2timer_setProbeTimer s = []"
    "rxEng2timer_clearProbeTimer s = i # rest"
  shows "probe_timer (T, full) s = Some (s\<lparr>rxEng2timer_clearProbeTimer := rest,
     pt_prevSessionID := i,
     probeTimerTable := (if pt_active (probeTimerTable s ! unat i) \<and> \<not> full
       then (probeTimerTable s)[unat i :=
              (probeTimerTable s ! unat i)\<lparr>pt_time := 0, pt_active := False\<rparr>] else probeTimerTable s),
     probeTimer2eventEng_setEvent := probeTimer2eventEng_setEvent s @
       (if pt_active (probeTimerTable s ! unat i) \<and> \<not> full then [event_simple RT i] else [])\<rparr>)"
  using assms by (auto simp: probe_timer_def probe_inv_def Let_def)

lemma probe_timer_set:
  "\<lbrakk>\<not> pt_WaitForWrite s; txEng2timer_setProbeTimer s = i # rest\<rbrakk> \<Longrightarrow>
   probe_timer I s = Some (s\<lparr>txEng2timer_setProbeTimer := rest, pt_updSessionID := i,
     pt_WaitForWrite := True\<rparr>)"
  by (simp add: probe_timer_def Let_def)

lemma probe_timer_wait:
  assumes "probe_inv n s" "pt_WaitForWrite s"
  shows "probe_timer (T, full) s = Some (
    if pt_updSessionID s = pt_prevSessionID s then s\<lparr>pt_prevSessionID := pt_prevSessionID s - 1\<rparr>
    else s\<lparr>probeTimerTable := (probeTimerTable s)[unat (pt_updSessionID s) :=
             \<lparr>pt_time = TIME_50ms T, pt_active = True\<rparr>],
           pt_WaitForWrite := False, pt_prevSessionID := pt_prevSessionID s - 1\<rparr>)"
  using assms by (simp add: probe_timer_def probe_inv_def Let_def)

lemma probe_inv_safe_step:
  assumes inv: "probe_inv n s"
  shows "\<exists>t. probe_timer I s = Some t \<and> probe_inv n t"
proof -
  obtain T full where I: "I = (T, full)" by (cases I)
  consider (wait) "pt_WaitForWrite s"
    | (set) i rest where "\<not> pt_WaitForWrite s" "txEng2timer_setProbeTimer s = i # rest"
    | (clear) i rest where "\<not> pt_WaitForWrite s" "txEng2timer_setProbeTimer s = []"
        "rxEng2timer_clearProbeTimer s = i # rest"
    | (idle) "probe_idle n s"
    using inv by (cases "txEng2timer_setProbeTimer s"; cases "rxEng2timer_clearProbeTimer s")
      (auto simp: probe_idle_def)
  then show ?thesis
  proof cases
    case wait
    with inv probe_timer_wait [OF inv wait, of T full] show ?thesis
      by (auto simp: probe_inv_def I)
  next
    case set
    with inv probe_timer_set [OF set, of I] show ?thesis by (simp add: probe_inv_def)
  next
    case clear
    with inv probe_timer_clear [OF inv clear, of T full] show ?thesis
      by (simp add: probe_inv_def I)
  next
    case idle
    have "next_pos n (unat (pt_currSessionID s)) < n"
      using inv by (auto simp: probe_inv_def next_pos_def)
    with inv idle probe_timer_idle [OF idle, of T full] unat_next_pos [of n "pt_currSessionID s"]
    show ?thesis by (simp add: probe_inv_def I)
  qed
qed

interpretation probe: clocked "probe_inv n" "probe_env n" probe_timer for n
proof (unfold_locales, goal_cases)
  case (1 s t)
  then show ?case by (auto simp: probe_inv_def elim!: probe_env.cases)
next
  case (2 s i)
  then show ?case using probe_inv_safe_step by blast
next
  case (3 s i t)
  then show ?case using probe_inv_safe_step [of n s i] by auto
qed

interpretation probe_sweep: timer "probe_idle n" "\<lambda>s. unat (pt_currSessionID s)" probeTimerTable
  probeTimer2eventEng_setEvent "probe_timer (T, False)" probe_tick probe_emit
  "\<lambda>e. unat (ev_sessionID e)" "\<lambda>e. unat (pt_time e)" pt_active
  "\<lambda>i e. [event_simple RT (of_nat i)]" "2 ^ 16" for n T
proof (unfold_locales, goal_cases)
  case (1 s)
  then have inv: "probe_inv n s" by (simp add: probe_idle_def)
  have "next_pos n (unat (pt_currSessionID s)) < n"
    using inv by (auto simp: probe_inv_def next_pos_def)
  with 1 inv probe_timer_idle [OF 1(1), of T False] unat_next_pos [of n "pt_currSessionID s"]
  show ?case by (simp add: probe_idle_def probe_inv_def)
qed (auto simp: probe_emit_def probe_tick_def event_simple_def unat_of_nat_eq word_gt_0 unat_gt_0
    unat_dec unsigned_eq_0_iff split: if_splits)

text \<open>The zero-window probe.  With the probe timer of session \<open>i\<close> at \<open>t\<close>, room for its event in every
  cycle and no request of any session queued during the run, exactly one retransmission event for \<open>i\<close> is issued: none in the first \<open>t\<close> sweeps, one
  after \<open>t + 1\<close> sweeps, none after that.\<close>

theorem probe_timer_expires:
  assumes "probe_idle n s" and "unat i < n" and "pt_active (probeTimerTable s ! unat i)"
  defines "t \<equiv> unat (pt_time (probeTimerTable s ! unat i))"
  defines "mine \<equiv> filter (\<lambda>e. ev_sessionID e = i)"
  shows "\<exists>s'. cycles (probe_timer (T, False)) m s = Some s' \<and>
    (m \<le> t * n \<longrightarrow> mine (probeTimer2eventEng_setEvent s') = mine (probeTimer2eventEng_setEvent s)) \<and>
    ((t + 1) * n \<le> m \<longrightarrow> mine (probeTimer2eventEng_setEvent s') =
       mine (probeTimer2eventEng_setEvent s) @ [event_simple RT i])"
proof -
  have len: "length (probeTimerTable s) = n" "unat (pt_currSessionID s) < n"
    using assms(1) by (auto simp: probe_idle_def probe_inv_def)
  have i16: "unat i < 2 ^ 16" using unat_less [of i] by simp
  from probe_sweep.expires [OF assms(1), of "unat i" T m] len assms(2,3) i16
  show ?thesis by (auto simp: t_def mine_def)
qed

definition probe_ex :: probe_st where
  "probe_ex = \<lparr>probeTimerTable = [\<lparr>pt_time = 1, pt_active = True\<rparr>, \<lparr>pt_time = 0, pt_active = False\<rparr>],
     pt_currSessionID = 1, pt_updSessionID = 0, pt_prevSessionID = 0, pt_WaitForWrite = False,
     rxEng2timer_clearProbeTimer = [], txEng2timer_setProbeTimer = [],
     probeTimer2eventEng_setEvent = []\<rparr>"

theorem probe_timer_expires_witness:
  "\<exists>s'. cycles (probe_timer (sim_times, False)) 4 probe_ex = Some s' \<and>
     filter (\<lambda>e. ev_sessionID e = 0) (probeTimer2eventEng_setEvent s') = [event_simple RT 0]"
proof -
  have "probe_idle 2 probe_ex" by (simp add: probe_idle_def probe_inv_def probe_ex_def)
  from probe_timer_expires [OF this, of 0 sim_times 4] show ?thesis by (simp add: probe_ex_def)
qed

text \<open>Clearing the probe timer resumes an active session at once, if there is room for the
  event.  If there is none, the request is consumed without effect and is lost; so is a request
  for a session whose timer is not active.\<close>

theorem probe_timer_clear_spec:
  assumes "probe_inv n s" and "\<not> pt_WaitForWrite s" and "txEng2timer_setProbeTimer s = []"
    and "rxEng2timer_clearProbeTimer s = i # rest"
  shows "\<exists>s'. probe_timer (T, full) s = Some s' \<and> rxEng2timer_clearProbeTimer s' = rest \<and>
    (if pt_active (probeTimerTable s ! unat i) \<and> \<not> full
     then probeTimer2eventEng_setEvent s' = probeTimer2eventEng_setEvent s @ [event_simple RT i] \<and>
          \<not> pt_active (probeTimerTable s' ! unat i)
     else probeTimer2eventEng_setEvent s' = probeTimer2eventEng_setEvent s \<and>
          probeTimerTable s' = probeTimerTable s)"
  using probe_timer_clear [OF assms, of T full] assms by (simp add: probe_inv_def)

theorem probe_timer_clear_spec_witness:
  "\<exists>s'. probe_timer (sim_times, True) (probe_ex\<lparr>rxEng2timer_clearProbeTimer := [0]\<rparr>) = Some s' \<and>
     rxEng2timer_clearProbeTimer s' = [] \<and> probeTimer2eventEng_setEvent s' = []"
  using probe_timer_clear_spec [of 2 "probe_ex\<lparr>rxEng2timer_clearProbeTimer := [0]\<rparr>" 0 "[]" sim_times True]
  by (auto simp: probe_inv_def probe_ex_def)

section \<open>Retransmission timer\<close>

record retransmitTimerEntry =
  rte_time :: u32
  rte_retries :: u3
  rte_active :: bool
  rte_type :: eventType

record rt_st =
  retransmitTimerTable :: "retransmitTimerEntry list"
  rt_position :: u16
  rt_waitForWrite :: bool
  rt_prevPosition :: u16
  rt_update :: rxRetransmitTimerUpdate
  rxEng2timer_clearRetransmitTimer :: "rxRetransmitTimerUpdate fifo"
  txEng2timer_setRetransmitTimer :: "txRetransmitTimerSet fifo"
  rtTimer2eventEng_setEvent :: "event fifo"
  rtTimer2stateTable_releaseState :: "u16 fifo"
  rtTimer2rxApp_notification :: "appNotification fifo"
  rtTimer2txApp_notification :: "openStatus fifo"

text \<open>The back-off: the interval after \<open>r\<close> retries.\<close>

definition rt_interval :: "toe_times \<Rightarrow> u3 \<Rightarrow> u32" where
  "rt_interval T r = (if r = 0 then TIME_1s T else if r = 1 then TIME_5s T
     else if r = 2 then TIME_10s T else if r = 3 then TIME_15s T else TIME_30s T)"

text \<open>The two operations on an entry: \<open>operationSwitch\<close> 1 and 0.  The sweep returns the entry
  with what it writes to the four output streams.\<close>

definition rt_set :: "toe_times \<Rightarrow> eventType \<Rightarrow> retransmitTimerEntry \<Rightarrow> retransmitTimerEntry" where
  "rt_set T ty e =
     (let e = e\<lparr>rte_type := ty\<rparr>;
          e = (if \<not> rte_active e then e\<lparr>rte_time := rt_interval T (rte_retries e)\<rparr> else e)
      in e\<lparr>rte_active := True\<rparr>)"

definition rt_sweep :: "bool \<Rightarrow> u16 \<Rightarrow> retransmitTimerEntry \<Rightarrow>
    retransmitTimerEntry \<times> event list \<times> u16 list \<times> openStatus list \<times> appNotification list" where
  "rt_sweep full currID e =
     (if rte_active e then
        if rte_time e > 0 then (e\<lparr>rte_time := rte_time e - 1\<rparr>, [], [], [], [])
        else if \<not> full then
          let e = e\<lparr>rte_time := 0, rte_active := False\<rparr>
          in if rte_retries e < 4 then
               let e = e\<lparr>rte_retries := rte_retries e + 1\<rparr>
               in (e, [event_rt (rte_type e) currID (rte_retries e)], [], [], [])
             else
               let e = e\<lparr>rte_retries := 0\<rparr>
               in if rte_type e = SYN
                  then (e, [], [currID], [openStatus_mk currID 0], [])
                  else (e, [], [currID], [], [appNotification_closed currID True])
        else (e, [], [], [], [])
      else (e, [], [], [], []))"

text \<open>\<open>set.sessionID-3 < rt_position\<close> is computed on signed integers: it does not wrap.\<close>

definition retransmit_timer :: "toe_times \<times> bool \<Rightarrow> rt_st \<Rightarrow> rt_st option" where
  "retransmit_timer i s = (let T = fst i; full = snd i in
     if rt_waitForWrite s \<and> rru_sessionID (rt_update s) \<noteq> rt_prevPosition s then do {
       let j = rru_sessionID (rt_update s);
       e \<leftarrow> tget (retransmitTimerTable s) j;
       let e = (if \<not> rru_stop (rt_update s) then e\<lparr>rte_time := TIME_1s T\<rparr>
                else e\<lparr>rte_time := 0, rte_active := False\<rparr>);
       tab \<leftarrow> tset (retransmitTimerTable s) j (e\<lparr>rte_retries := 0\<rparr>);
       Some (s\<lparr>retransmitTimerTable := tab, rt_waitForWrite := False\<rparr>)
     }
     else if rxEng2timer_clearRetransmitTimer s \<noteq> [] \<and> \<not> rt_waitForWrite s then
       Some (s\<lparr>rxEng2timer_clearRetransmitTimer := tl (rxEng2timer_clearRetransmitTimer s),
               rt_update := hd (rxEng2timer_clearRetransmitTimer s), rt_waitForWrite := True\<rparr>)
     else if txEng2timer_setRetransmitTimer s \<noteq> [] then do {
       let q = hd (txEng2timer_setRetransmitTimer s);
       let currID = trs_sessionID q;
       let s = s\<lparr>txEng2timer_setRetransmitTimer := tl (txEng2timer_setRetransmitTimer s)\<rparr>;
       let s = (if int (unat (trs_sessionID q)) - 3 < int (unat (rt_position s)) \<and>
                   rt_position s \<le> trs_sessionID q
                then s\<lparr>rt_position := rt_position s + 5\<rparr> else s);
       e \<leftarrow> tget (retransmitTimerTable s) currID;
       tab \<leftarrow> tset (retransmitTimerTable s) currID (rt_set T (trs_type q) e);
       Some (s\<lparr>retransmitTimerTable := tab, rt_prevPosition := currID\<rparr>)
     }
     else do {
       let currID = rt_position s;
       let s = s\<lparr>rt_position := rt_position s + 1\<rparr>;
       let s = (if unat (rt_position s) \<ge> length (retransmitTimerTable s)
                then s\<lparr>rt_position := 0\<rparr> else s);
       e \<leftarrow> tget (retransmitTimerTable s) currID;
       let (e, evs, rels, txs, rxs) = rt_sweep full currID e;
       tab \<leftarrow> tset (retransmitTimerTable s) currID e;
       Some (s\<lparr>retransmitTimerTable := tab,
               rtTimer2eventEng_setEvent := rtTimer2eventEng_setEvent s @ evs,
               rtTimer2stateTable_releaseState := rtTimer2stateTable_releaseState s @ rels,
               rtTimer2txApp_notification := rtTimer2txApp_notification s @ txs,
               rtTimer2rxApp_notification := rtTimer2rxApp_notification s @ rxs,
               rt_prevPosition := currID\<rparr>)
     })"

text \<open>
  The jump \<open>rt_position += 5\<close> is not reduced modulo the table size.  The invariant holds as
  long as no timer is set for the last five sessions; \<open>retransmit_overrun\<close> below shows what
  happens otherwise.
\<close>

definition rt_inv :: "nat \<Rightarrow> rt_st \<Rightarrow> bool" where
  "rt_inv n s \<longleftrightarrow> n < 2 ^ 16 \<and> length (retransmitTimerTable s) = n \<and> unat (rt_position s) < n \<and>
     (rt_waitForWrite s \<longrightarrow> unat (rru_sessionID (rt_update s)) < n) \<and>
     (\<forall>q\<in>set (rxEng2timer_clearRetransmitTimer s). unat (rru_sessionID q) < n) \<and>
     (\<forall>q\<in>set (txEng2timer_setRetransmitTimer s). unat (trs_sessionID q) + 5 < n)"

inductive rt_env :: "nat \<Rightarrow> rt_st \<Rightarrow> rt_st \<Rightarrow> bool" for n where
  rt_set_req: "unat (trs_sessionID q) + 5 < n \<Longrightarrow> rt_env n s
    (s\<lparr>txEng2timer_setRetransmitTimer := txEng2timer_setRetransmitTimer s @ [q]\<rparr>)"
| rt_clear_req: "unat (rru_sessionID q) < n \<Longrightarrow> rt_env n s
    (s\<lparr>rxEng2timer_clearRetransmitTimer := rxEng2timer_clearRetransmitTimer s @ [q]\<rparr>)"

definition rt_cleared :: "toe_times \<Rightarrow> rxRetransmitTimerUpdate \<Rightarrow> retransmitTimerEntry \<Rightarrow>
    retransmitTimerEntry" where
  "rt_cleared T q e = (if rru_stop q
     then e\<lparr>rte_time := 0, rte_active := False, rte_retries := 0\<rparr>
     else e\<lparr>rte_time := TIME_1s T, rte_retries := 0\<rparr>)"

lemma rt_timer_write:
  assumes "rt_inv n s" "rt_waitForWrite s" "rru_sessionID (rt_update s) \<noteq> rt_prevPosition s"
  defines "j \<equiv> unat (rru_sessionID (rt_update s))"
  shows "retransmit_timer (T, full) s = Some (s\<lparr>rt_waitForWrite := False,
     retransmitTimerTable := (retransmitTimerTable s)[j :=
       rt_cleared T (rt_update s) (retransmitTimerTable s ! j)]\<rparr>)"
  using assms by (auto simp: retransmit_timer_def rt_inv_def rt_cleared_def Let_def)

lemma rt_timer_read:
  assumes "\<not> rt_waitForWrite s" "rxEng2timer_clearRetransmitTimer s = q # rest"
  shows "retransmit_timer I s = Some (s\<lparr>rxEng2timer_clearRetransmitTimer := rest,
     rt_update := q, rt_waitForWrite := True\<rparr>)"
  using assms by (simp add: retransmit_timer_def Let_def)

definition rt_blocked :: "rt_st \<Rightarrow> bool" where
  "rt_blocked s \<longleftrightarrow> (if rt_waitForWrite s then rru_sessionID (rt_update s) = rt_prevPosition s
     else rxEng2timer_clearRetransmitTimer s = [])"

lemma rt_timer_set:
  assumes "rt_blocked s" "txEng2timer_setRetransmitTimer s = q # rest"
    and "length (retransmitTimerTable s) = n" "unat (trs_sessionID q) < n"
  defines "j \<equiv> unat (trs_sessionID q)"
  shows "retransmit_timer (T, full) s = Some (s\<lparr>txEng2timer_setRetransmitTimer := rest,
     rt_position := (if int j - 3 < int (unat (rt_position s)) \<and> unat (rt_position s) \<le> j
       then rt_position s + 5 else rt_position s),
     retransmitTimerTable := (retransmitTimerTable s)[j :=
       rt_set T (trs_type q) (retransmitTimerTable s ! j)],
     rt_prevPosition := trs_sessionID q\<rparr>)"
  using assms
  by (auto simp: retransmit_timer_def rt_blocked_def Let_def word_le_nat_alt split: if_splits)

lemma rt_timer_sweep:
  fixes full :: bool
  assumes "rt_blocked s" "txEng2timer_setRetransmitTimer s = []" "rt_inv n s"
  defines "p \<equiv> rt_position s"
  defines "r \<equiv> rt_sweep full p (retransmitTimerTable s ! unat p)"
  shows "retransmit_timer (T, full) s = Some (s\<lparr>
     rt_position := (if unat (p + 1) = n then 0 else p + 1),
     retransmitTimerTable := (retransmitTimerTable s)[unat p := fst r],
     rtTimer2eventEng_setEvent := rtTimer2eventEng_setEvent s @ fst (snd r),
     rtTimer2stateTable_releaseState := rtTimer2stateTable_releaseState s @ fst (snd (snd r)),
     rtTimer2txApp_notification := rtTimer2txApp_notification s @ fst (snd (snd (snd r))),
     rtTimer2rxApp_notification := rtTimer2rxApp_notification s @ snd (snd (snd (snd r))),
     rt_prevPosition := p\<rparr>)"
proof -
  have "unat (p + 1) = unat p + 1"
    using assms(3) unfolding p_def rt_inv_def by (simp add: unat_word_ariths)
  then have "unat (p + 1) \<ge> n \<longleftrightarrow> unat (p + 1) = n"
    using assms(3) by (auto simp: p_def rt_inv_def)
  with assms show ?thesis
    by (auto simp: retransmit_timer_def rt_inv_def rt_blocked_def Let_def split_beta
        split: if_splits)
qed

lemma rt_inv_safe_step:
  assumes inv: "rt_inv n s"
  shows "\<exists>t. retransmit_timer I s = Some t \<and> rt_inv n t"
proof -
  obtain T full where I: "I = (T, full)" by (cases I)
  consider (wr) "rt_waitForWrite s" "rru_sessionID (rt_update s) \<noteq> rt_prevPosition s"
    | (rd) q rest where "\<not> rt_waitForWrite s" "rxEng2timer_clearRetransmitTimer s = q # rest"
    | (set) q rest where "rt_blocked s" "txEng2timer_setRetransmitTimer s = q # rest"
    | (sw) "rt_blocked s" "txEng2timer_setRetransmitTimer s = []"
    by (cases "rxEng2timer_clearRetransmitTimer s"; cases "txEng2timer_setRetransmitTimer s";
        cases "rt_waitForWrite s"; cases "rru_sessionID (rt_update s) = rt_prevPosition s")
      (simp_all add: rt_blocked_def)
  then show ?thesis
  proof cases
    case wr
    with inv rt_timer_write [OF inv wr, of T full] show ?thesis by (simp add: rt_inv_def I)
  next
    case rd
    with inv rt_timer_read [OF rd, of I] show ?thesis by (simp add: rt_inv_def)
  next
    case set
    let ?j = "unat (trs_sessionID q)" and ?p = "rt_position s"
    have b: "length (retransmitTimerTable s) = n" "?j + 5 < n" "n < 2 ^ 16"
      using inv set by (simp_all add: rt_inv_def)
    have "unat (?p + 5) < n" if "unat ?p \<le> ?j"
      using that b by (simp add: unat_word_ariths)
    with inv set b rt_timer_set [OF set b(1), of T full] show ?thesis
      by (auto simp: rt_inv_def I)
  next
    case sw
    have "next_pos n (unat (rt_position s)) < n"
      using inv by (auto simp: rt_inv_def next_pos_def)
    with inv sw rt_timer_sweep [OF sw inv, of T full] unat_next_pos [of n "rt_position s"]
    show ?thesis by (simp add: rt_inv_def I)
  qed
qed

interpretation retransmit: clocked "rt_inv n" "rt_env n" retransmit_timer for n
proof (unfold_locales, goal_cases)
  case (1 s t)
  then show ?case by (auto simp: rt_inv_def elim!: rt_env.cases)
next
  case (2 s i)
  then show ?case using rt_inv_safe_step by blast
next
  case (3 s i t)
  then show ?case using rt_inv_safe_step [of n s i] by auto
qed

subsection \<open>The sweep\<close>

definition rt_idle :: "nat \<Rightarrow> rt_st \<Rightarrow> bool" where
  "rt_idle n s \<longleftrightarrow> rt_inv n s \<and> \<not> rt_waitForWrite s \<and>
     rxEng2timer_clearRetransmitTimer s = [] \<and> txEng2timer_setRetransmitTimer s = []"

definition rt_tick :: "retransmitTimerEntry \<Rightarrow> retransmitTimerEntry" where
  "rt_tick e = fst (rt_sweep False 0 e)"

definition rt_emit :: "nat \<Rightarrow> retransmitTimerEntry \<Rightarrow>
    event list \<times> u16 list \<times> openStatus list \<times> appNotification list" where
  "rt_emit i e = (if i < 2 ^ 16 then snd (rt_sweep False (of_nat i) e) else ([], [], [], []))"

text \<open>What an entry writes when it expires.\<close>

definition rt_expiry :: "nat \<Rightarrow> retransmitTimerEntry \<Rightarrow>
    event list \<times> u16 list \<times> openStatus list \<times> appNotification list" where
  "rt_expiry i e =
     (if rte_retries e < 4 then ([event_rt (rte_type e) (of_nat i) (rte_retries e + 1)], [], [], [])
      else if rte_type e = SYN then ([], [of_nat i], [openStatus_mk (of_nat i) 0], [])
      else ([], [of_nat i], [], [appNotification_closed (of_nat i) True]))"

lemma rt_idle_step:
  assumes "rt_idle n s"
  defines "p \<equiv> unat (rt_position s)"
  shows "\<exists>t. retransmit_timer (T, False) s = Some t \<and> rt_idle n t \<and>
    unat (rt_position t) = next_pos n p \<and>
    retransmitTimerTable t = (retransmitTimerTable s)[p := rt_tick (retransmitTimerTable s ! p)] \<and>
    rtTimer2eventEng_setEvent t = rtTimer2eventEng_setEvent s @
      fst (rt_emit p (retransmitTimerTable s ! p)) \<and>
    rtTimer2stateTable_releaseState t = rtTimer2stateTable_releaseState s @
      fst (snd (rt_emit p (retransmitTimerTable s ! p))) \<and>
    rtTimer2txApp_notification t = rtTimer2txApp_notification s @
      fst (snd (snd (rt_emit p (retransmitTimerTable s ! p)))) \<and>
    rtTimer2rxApp_notification t = rtTimer2rxApp_notification s @
      snd (snd (snd (rt_emit p (retransmitTimerTable s ! p))))"
proof -
  have inv: "rt_inv n s" and b: "rt_blocked s" "txEng2timer_setRetransmitTimer s = []"
    using assms by (simp_all add: rt_idle_def rt_blocked_def)
  note c = rt_timer_sweep [OF b inv, of T False]
  have tick: "fst (rt_sweep False (rt_position s) e) = rt_tick e" for e
    by (simp add: rt_tick_def rt_sweep_def Let_def)
  have p16: "unat (rt_position s) < 65536" using unat_less [of "rt_position s"] by simp
  have "unat (if unat (rt_position s + 1) = n then 0 else rt_position s + 1) = next_pos n p"
    unfolding p_def using inv by (intro unat_next_pos) (simp_all add: rt_inv_def)
  moreover have "\<exists>t. retransmit_timer (T, False) s = Some t \<and> rt_inv n t"
    by (rule rt_inv_safe_step [OF inv])
  ultimately show ?thesis
    unfolding c using assms(1) p16 by (simp add: rt_idle_def p_def tick rt_emit_def)
qed

lemma rt_countdown:
  "\<lbrakk>rte_active e; 0 < unat (rte_time e)\<rbrakk> \<Longrightarrow> rte_active (rt_tick e) \<and>
     unat (rte_time (rt_tick e)) = unat (rte_time e) - 1 \<and> rt_emit i e = ([], [], [], []) \<and>
     rt_expiry i (rt_tick e) = rt_expiry i e"
  "\<lbrakk>rte_active e; unat (rte_time e) = 0; i < 2 ^ 16\<rbrakk> \<Longrightarrow>
     \<not> rte_active (rt_tick e) \<and> rt_emit i e = rt_expiry i e"
  "\<not> rte_active e \<Longrightarrow> rt_tick e = e \<and> rt_emit i e = ([], [], [], [])"
  by (auto simp: rt_tick_def rt_emit_def rt_expiry_def rt_sweep_def Let_def word_gt_0 unat_gt_0
      unat_dec unsigned_eq_0_iff)

lemma rt_emit_tags:
  "x \<in> set (fst (rt_emit i e)) \<Longrightarrow> unat (ev_sessionID x) = i"
  "y \<in> set (fst (snd (rt_emit i e))) \<Longrightarrow> unat y = i"
  "z \<in> set (fst (snd (snd (rt_emit i e)))) \<Longrightarrow> unat (os_sessionID z) = i"
  "w \<in> set (snd (snd (snd (rt_emit i e)))) \<Longrightarrow> unat (an_sessionID w) = i"
  by (auto simp: rt_emit_def rt_sweep_def Let_def event_rt_def openStatus_mk_def
      appNotification_closed_def unat_of_nat_eq split: if_splits)

lemma rt_idle_len: "rt_idle n s \<Longrightarrow> length (retransmitTimerTable s) = n"
  by (simp add: rt_idle_def rt_inv_def)

interpretation rt_events: timer "rt_idle n" "\<lambda>s. unat (rt_position s)" retransmitTimerTable
  rtTimer2eventEng_setEvent "retransmit_timer (T, False)" rt_tick "\<lambda>i e. fst (rt_emit i e)"
  "\<lambda>x. unat (ev_sessionID x)" "\<lambda>e. unat (rte_time e)" rte_active
  "\<lambda>i e. fst (rt_expiry i e)" "2 ^ 16" for n T
proof (unfold_locales, goal_cases)
  case (1 s)
  then show ?case using rt_idle_step [of n s T] rt_idle_len by fastforce
qed (auto simp: rt_countdown rt_emit_tags)

interpretation rt_releases: timer "rt_idle n" "\<lambda>s. unat (rt_position s)" retransmitTimerTable
  rtTimer2stateTable_releaseState "retransmit_timer (T, False)" rt_tick
  "\<lambda>i e. fst (snd (rt_emit i e))" unat "\<lambda>e. unat (rte_time e)" rte_active
  "\<lambda>i e. fst (snd (rt_expiry i e))" "2 ^ 16" for n T
proof (unfold_locales, goal_cases)
  case (1 s)
  then show ?case using rt_idle_step [of n s T] rt_idle_len by fastforce
qed (auto simp: rt_countdown rt_emit_tags)

interpretation rt_tx_notes: timer "rt_idle n" "\<lambda>s. unat (rt_position s)" retransmitTimerTable
  rtTimer2txApp_notification "retransmit_timer (T, False)" rt_tick
  "\<lambda>i e. fst (snd (snd (rt_emit i e)))" "\<lambda>x. unat (os_sessionID x)" "\<lambda>e. unat (rte_time e)"
  rte_active "\<lambda>i e. fst (snd (snd (rt_expiry i e)))" "2 ^ 16" for n T
proof (unfold_locales, goal_cases)
  case (1 s)
  then show ?case using rt_idle_step [of n s T] rt_idle_len by fastforce
qed (auto simp: rt_countdown rt_emit_tags)

interpretation rt_rx_notes: timer "rt_idle n" "\<lambda>s. unat (rt_position s)" retransmitTimerTable
  rtTimer2rxApp_notification "retransmit_timer (T, False)" rt_tick
  "\<lambda>i e. snd (snd (snd (rt_emit i e)))" "\<lambda>x. unat (an_sessionID x)" "\<lambda>e. unat (rte_time e)"
  rte_active "\<lambda>i e. snd (snd (snd (rt_expiry i e)))" "2 ^ 16" for n T
proof (unfold_locales, goal_cases)
  case (1 s)
  then show ?case using rt_idle_step [of n s T] rt_idle_len by fastforce
qed (auto simp: rt_countdown rt_emit_tags)

subsection \<open>Properties of the retransmission timer\<close>

lemma rt_tick_pow:
  "\<lbrakk>rte_active e; j \<le> unat (rte_time e)\<rbrakk> \<Longrightarrow>
   (rt_tick ^^ j) e = e\<lparr>rte_time := rte_time e - of_nat j\<rparr>"
proof (induction j)
  case (Suc j)
  then have "0 < unat (rte_time e - of_nat j)" by (simp add: unat_minus_of_nat)
  then have "0 < rte_time e - of_nat j" by (simp add: word_gt_0 unat_gt_0)
  with Suc show ?case by (simp add: rt_tick_def rt_sweep_def algebra_simps)
qed simp

lemma rt_expiry_split:
  "fst (rt_expiry (unat i) e) =
     (if rte_retries e < 4 then [event_rt (rte_type e) i (rte_retries e + 1)] else [])"
  "fst (snd (rt_expiry (unat i) e)) = (if rte_retries e < 4 then [] else [i])"
  "fst (snd (snd (rt_expiry (unat i) e))) =
     (if \<not> rte_retries e < 4 \<and> rte_type e = SYN then [openStatus_mk i 0] else [])"
  "snd (snd (snd (rt_expiry (unat i) e))) =
     (if \<not> rte_retries e < 4 \<and> rte_type e \<noteq> SYN then [appNotification_closed i True] else [])"
  for i :: u16
  by (simp_all add: rt_expiry_def)

lemma rt_tick_last:
  "rte_active e \<Longrightarrow> rt_tick ((rt_tick ^^ unat (rte_time e)) e) =
     e\<lparr>rte_time := 0, rte_active := False,
       rte_retries := (if rte_retries e < 4 then rte_retries e + 1 else 0)\<rparr>"
  by (simp add: rt_tick_pow) (simp add: rt_tick_def rt_sweep_def Let_def)

text \<open>C13: what an expiring retransmission timer does, and when, in a run in which no request to set or
  clear a timer of any session is queued and the event stream is never full.  (Requests come before
  the sweep, and one that sets a timer just ahead of it makes the sweep skip sessions: under traffic
  an expiry may come later.)  With the timer of session \<open>i\<close> at
  \<open>t\<close> after \<open>r\<close> retries, nothing happens for \<open>i\<close> in the first \<open>t\<close> sweeps.  After \<open>t + 1\<close> sweeps,
  and until it is set again, exactly this has happened: if \<open>r < 4\<close>, one event of the recorded
  type, numbered \<open>r + 1\<close>; otherwise the connection is given up: its state is released once and
  the application is told once, the opening side through an open status (the type is SYN), the
  other through a closing notification.  The timer is off and counts the retry.\<close>

theorem retransmit_expires:
  assumes "rt_idle n s" and "unat i < n" and "rte_active (retransmitTimerTable s ! unat i)"
  defines "e \<equiv> retransmitTimerTable s ! unat i"
  defines "t \<equiv> unat (rte_time e)"
  shows "\<exists>s'. cycles (retransmit_timer (T, False)) m s = Some s' \<and>
    (m \<le> t * n \<longrightarrow>
       filter (\<lambda>x. ev_sessionID x = i) (rtTimer2eventEng_setEvent s') =
         filter (\<lambda>x. ev_sessionID x = i) (rtTimer2eventEng_setEvent s) \<and>
       filter (\<lambda>x. x = i) (rtTimer2stateTable_releaseState s') =
         filter (\<lambda>x. x = i) (rtTimer2stateTable_releaseState s)) \<and>
    ((t + 1) * n \<le> m \<longrightarrow>
       filter (\<lambda>x. ev_sessionID x = i) (rtTimer2eventEng_setEvent s') =
         filter (\<lambda>x. ev_sessionID x = i) (rtTimer2eventEng_setEvent s) @
         (if rte_retries e < 4 then [event_rt (rte_type e) i (rte_retries e + 1)] else []) \<and>
       filter (\<lambda>x. x = i) (rtTimer2stateTable_releaseState s') =
         filter (\<lambda>x. x = i) (rtTimer2stateTable_releaseState s) @
         (if rte_retries e < 4 then [] else [i]) \<and>
       filter (\<lambda>x. os_sessionID x = i) (rtTimer2txApp_notification s') =
         filter (\<lambda>x. os_sessionID x = i) (rtTimer2txApp_notification s) @
         (if \<not> rte_retries e < 4 \<and> rte_type e = SYN then [openStatus_mk i 0] else []) \<and>
       filter (\<lambda>x. an_sessionID x = i) (rtTimer2rxApp_notification s') =
         filter (\<lambda>x. an_sessionID x = i) (rtTimer2rxApp_notification s) @
         (if \<not> rte_retries e < 4 \<and> rte_type e \<noteq> SYN then [appNotification_closed i True] else []) \<and>
       retransmitTimerTable s' ! unat i =
         e\<lparr>rte_time := 0, rte_active := False,
           rte_retries := (if rte_retries e < 4 then rte_retries e + 1 else 0)\<rparr>)"
proof -
  have len: "length (retransmitTimerTable s) = n" and pos: "unat (rt_position s) < n"
    using assms(1) by (simp_all add: rt_idle_def rt_inv_def)
  have i: "unat i < length (retransmitTimerTable s)" "unat i < 2 ^ 16"
    using assms(2) len unat_less [of i] by simp_all
  have p: "unat (rt_position s) < length (retransmitTimerTable s)" using pos len by simp
  obtain s' where s': "cycles (retransmit_timer (T, False)) m s = Some s'"
    using rt_events.expires [OF assms(1) p i assms(3), of T m] by blast
  note facts = assms(1) p i assms(3) s'
  have tn: "unat (rte_time (retransmitTimerTable s ! unat i)) * length (retransmitTimerTable s) = t * n"
    "(unat (rte_time (retransmitTimerTable s ! unat i)) + 1) * length (retransmitTimerTable s) = (t + 1) * n"
    by (simp_all only: t_def e_def len)
  note early = rt_events.early [OF facts, unfolded tn unat_eq_unat_iff]
    rt_releases.early [OF facts, unfolded tn unat_eq_unat_iff]
  note late = rt_events.late [OF facts, unfolded tn unat_eq_unat_iff, folded e_def]
    rt_releases.late [OF facts, unfolded tn unat_eq_unat_iff, folded e_def]
    rt_tx_notes.late [OF facts, unfolded tn unat_eq_unat_iff, folded e_def]
    rt_rx_notes.late [OF facts, unfolded tn unat_eq_unat_iff, folded e_def]
    rt_events.final [OF facts, unfolded tn, folded e_def, folded t_def]
  have last: "rt_tick ((rt_tick ^^ t) e) = e\<lparr>rte_time := 0, rte_active := False,
       rte_retries := (if rte_retries e < 4 then rte_retries e + 1 else 0)\<rparr>"
    unfolding t_def using assms(3) by (intro rt_tick_last) (simp add: e_def)
  show ?thesis
    by (rule exI [of _ s'], intro conjI impI)
      (simp_all only: s' early late last rt_expiry_split)
qed

definition rt_ex :: rt_st where
  "rt_ex = \<lparr>retransmitTimerTable = [
       \<lparr>rte_time = 0, rte_retries = 0, rte_active = False, rte_type = SYN\<rparr>,
       \<lparr>rte_time = 1, rte_retries = 4, rte_active = True, rte_type = SYN\<rparr>],
     rt_position = 1, rt_waitForWrite = False, rt_prevPosition = 0,
     rt_update = \<lparr>rru_sessionID = 0, rru_stop = False\<rparr>,
     rxEng2timer_clearRetransmitTimer = [], txEng2timer_setRetransmitTimer = [],
     rtTimer2eventEng_setEvent = [], rtTimer2stateTable_releaseState = [],
     rtTimer2rxApp_notification = [], rtTimer2txApp_notification = []\<rparr>"

theorem retransmit_expires_witness:
  "\<exists>s'. cycles (retransmit_timer (sim_times, False)) 4 rt_ex = Some s' \<and>
     filter (\<lambda>x. x = 1) (rtTimer2stateTable_releaseState s') = [1] \<and>
     filter (\<lambda>x. os_sessionID x = 1) (rtTimer2txApp_notification s') = [openStatus_mk 1 0]"
proof -
  have "rt_idle 2 rt_ex" by (simp add: rt_idle_def rt_inv_def rt_ex_def)
  from retransmit_expires [OF this, of 1 sim_times 4] show ?thesis
    by (auto simp: rt_ex_def)
qed

text \<open>Setting the timer.  A request is written in the cycle that reads it: the timer runs with
  the requested type; if it was off, it starts with the back-off interval of its retry count
  (1 s, 5 s, 10 s, 15 s, then 30 s); if it was running, it keeps its remaining time.\<close>

theorem retransmit_set_spec:
  assumes "rt_inv n s" and "rt_blocked s" and "txEng2timer_setRetransmitTimer s = q # rest"
  defines "e \<equiv> retransmitTimerTable s ! unat (trs_sessionID q)"
  shows "\<exists>s'. retransmit_timer (T, full) s = Some s' \<and> txEng2timer_setRetransmitTimer s' = rest \<and>
    retransmitTimerTable s' = (retransmitTimerTable s)[unat (trs_sessionID q) :=
      e\<lparr>rte_type := trs_type q,
        rte_time := (if rte_active e then rte_time e else
          [TIME_1s T, TIME_5s T, TIME_10s T, TIME_15s T, TIME_30s T] ! min 4 (unat (rte_retries e))),
        rte_active := True\<rparr>]"
proof -
  have j: "length (retransmitTimerTable s) = n" "unat (trs_sessionID q) < n"
    using assms by (simp_all add: rt_inv_def)
  have "rt_interval T r = [TIME_1s T, TIME_5s T, TIME_10s T, TIME_15s T, TIME_30s T] ! min 4 (unat r)"
    for r :: u3
  proof -
    have c: "unat (2 :: u3) = 2" "unat (3 :: u3) = 3" by simp_all
    have eq: "(r = 0) = (unat r = 0)" "(r = 1) = (unat r = 1)" "(r = 2) = (unat r = 2)"
      "(r = 3) = (unat r = 3)"
      using unat_eq_unat_iff [of r 0] unat_eq_unat_iff [of r 1] unat_eq_unat_iff [of r 2]
        unat_eq_unat_iff [of r 3] unfolding c unat_0 unat_1 by (simp_all only:)
    consider "unat r = 0" | "unat r = 1" | "unat r = 2" | "unat r = 3" | "4 \<le> unat r"
      by linarith
    then show ?thesis
      unfolding rt_interval_def eq by cases (simp_all only: min_def, simp_all)
  qed
  with rt_timer_set [OF assms(2,3) j, of T full] show ?thesis
    by (simp add: rt_set_def Let_def e_def)
qed

theorem retransmit_set_spec_witness:
  "\<exists>s'. retransmit_timer (sim_times, False)
      (rt_ex\<lparr>retransmitTimerTable := replicate 7 (retransmitTimerTable rt_ex ! 0),
        txEng2timer_setRetransmitTimer := [\<lparr>trs_sessionID = 1, trs_type = SYN_ACK\<rparr>]\<rparr>) = Some s' \<and>
     rte_time (retransmitTimerTable s' ! 1) = 1 \<and> rte_active (retransmitTimerTable s' ! 1)"
  using retransmit_set_spec [of 7 "rt_ex\<lparr>retransmitTimerTable := replicate 7 (retransmitTimerTable rt_ex ! 0),
        txEng2timer_setRetransmitTimer := [\<lparr>trs_sessionID = 1, trs_type = SYN_ACK\<rparr>]\<rparr>"
      "\<lparr>trs_sessionID = 1, trs_type = SYN_ACK\<rparr>" "[]" sim_times False]
  by (auto simp: rt_inv_def rt_blocked_def rt_ex_def sim_times_def nth_list_update)

lemma rt_clear_table:
  assumes "rt_inv n s" "rt_waitForWrite s" "rru_sessionID (rt_update s) \<noteq> rt_prevPosition s"
  shows "\<exists>s'. retransmit_timer (T, full) s = Some s' \<and> \<not> rt_waitForWrite s' \<and>
    retransmitTimerTable s' ! unat (rru_sessionID (rt_update s)) =
      rt_cleared T (rt_update s) (retransmitTimerTable s ! unat (rru_sessionID (rt_update s)))"
  using rt_timer_write [OF assms, of T full] assms by (simp add: rt_inv_def)

lemma rt_cleared_retries: "rte_retries (rt_cleared T q e) = 0"
  "rru_stop q \<Longrightarrow> \<not> rte_active (rt_cleared T q e)"
  "\<not> rru_stop q \<Longrightarrow> rte_time (rt_cleared T q e) = TIME_1s T"
  by (simp_all add: rt_cleared_def)

lemma rt_blocked_step:
  assumes "rt_inv n s" "rt_waitForWrite s" "rru_sessionID (rt_update s) = rt_prevPosition s"
    "txEng2timer_setRetransmitTimer s = []"
  shows "\<exists>s'. retransmit_timer (T, full) s = Some s' \<and> rt_inv n s' \<and> rt_waitForWrite s' \<and>
    rt_update s' = rt_update s \<and> txEng2timer_setRetransmitTimer s' = [] \<and>
    rt_prevPosition s' = rt_position s \<and> unat (rt_position s') = next_pos n (unat (rt_position s))"
proof -
  have b: "rt_blocked s" using assms by (simp add: rt_blocked_def)
  have "unat (if unat (rt_position s + 1) = n then 0 else rt_position s + 1)
      = next_pos n (unat (rt_position s))"
    using assms(1) by (intro unat_next_pos) (simp_all add: rt_inv_def)
  with rt_timer_sweep [OF b assms(4,1), of T full] rt_inv_safe_step [OF assms(1), of "(T, full)"]
    assms show ?thesis by simp
qed

text \<open>Clearing the timer terminates.  When no timer is being set, an acknowledgement waiting
  for the timer takes effect within four cycles, the cycles lost to the sweep included: the
  retries are reset, and the timer of the session is off (\<open>stop\<close>) or has its first interval.\<close>

theorem retransmit_cleared:
  assumes "rt_inv n s" and "\<not> rt_waitForWrite s" and "2 \<le> n"
    and "rxEng2timer_clearRetransmitTimer s = q # rest" and "txEng2timer_setRetransmitTimer s = []"
  shows "\<exists>m\<le>4. \<exists>s'. cycles (retransmit_timer (T, full)) m s = Some s' \<and> \<not> rt_waitForWrite s' \<and>
    (let e = retransmitTimerTable s' ! unat (rru_sessionID q)
     in rte_retries e = 0 \<and> (if rru_stop q then \<not> rte_active e else rte_time e = TIME_1s T))"
proof -
  let ?f = "retransmit_timer (T, full)" and ?j = "rru_sessionID q"
  let ?P = "\<lambda>s'. \<not> rt_waitForWrite s' \<and> (let e = retransmitTimerTable s' ! unat ?j
     in rte_retries e = 0 \<and> (if rru_stop q then \<not> rte_active e else rte_time e = TIME_1s T))"
  have wr: "\<exists>t. ?f u = Some t \<and> ?P t"
    if "rt_inv n u" "rt_waitForWrite u" "rt_update u = q" "?j \<noteq> rt_prevPosition u" for u
    using rt_clear_table [of n u T full] that rt_cleared_retries by (auto simp: Let_def)
  let ?a = "s\<lparr>rxEng2timer_clearRetransmitTimer := rest, rt_update := q, rt_waitForWrite := True\<rparr>"
  have a: "?f s = Some ?a" by (rule rt_timer_read [OF assms(2,4)])
  have inva: "rt_inv n ?a" using rt_inv_safe_step [OF assms(1), of "(T, full)"] a by auto
  show ?thesis
  proof (cases "?j = rt_prevPosition s")
    case False
    with wr [OF inva] obtain t where t: "?f ?a = Some t" "?P t" by auto
    show ?thesis by (rule exI [of _ 2]) (use a t in \<open>simp add: numeral_2_eq_2\<close>)
  next
    case True
    with rt_blocked_step [OF inva, of T full] assms(5) obtain b where
      b: "?f ?a = Some b" "rt_inv n b" "rt_waitForWrite b" "rt_update b = q"
        "txEng2timer_setRetransmitTimer b = []" "rt_prevPosition b = rt_position s"
        "unat (rt_position b) = next_pos n (unat (rt_position s))" by auto
    show ?thesis
    proof (cases "?j = rt_position s")
      case False
      with wr [OF b(2-4)] b(6) obtain t where t: "?f b = Some t" "?P t" by auto
      show ?thesis by (rule exI [of _ 3]) (use a b t in \<open>simp add: numeral_3_eq_3\<close>)
    next
      case True
      with rt_blocked_step [OF b(2,3), of T full] b obtain c where
        c: "?f b = Some c" "rt_inv n c" "rt_waitForWrite c" "rt_update c = q"
          "rt_prevPosition c = rt_position b" by auto
      have "next_pos n (unat (rt_position s)) \<noteq> unat (rt_position s)"
        using assms(3) by (auto simp: next_pos_def)
      then have "?j \<noteq> rt_prevPosition c" using True b(7) c(5) by metis
      with wr [OF c(2-4)] obtain t where t: "?f c = Some t" "?P t" by auto
      have "cycles ?f 4 s = Some t"
        using a b(1) c(1) t(1) by (simp add: numeral_eq_Suc)
      with t(2) show ?thesis by (intro exI [of _ 4]) auto
    qed
  qed
qed

theorem retransmit_cleared_witness:
  "\<exists>m\<le>4. \<exists>s'. cycles (retransmit_timer (sim_times, False)) m
      (rt_ex\<lparr>rxEng2timer_clearRetransmitTimer := [\<lparr>rru_sessionID = 1, rru_stop = True\<rparr>]\<rparr>) = Some s' \<and>
      rte_retries (retransmitTimerTable s' ! 1) = 0"
proof -
  let ?s = "rt_ex\<lparr>rxEng2timer_clearRetransmitTimer := [\<lparr>rru_sessionID = 1, rru_stop = True\<rparr>]\<rparr>"
  have "rt_inv 2 ?s" by (simp add: rt_inv_def rt_ex_def)
  from retransmit_cleared [OF this, of "\<lparr>rru_sessionID = 1, rru_stop = True\<rparr>" "[]" sim_times False]
  show ?thesis by (auto simp: rt_ex_def Let_def)
qed

text \<open>C14: the jump of the sweep position.  A timer set for one of the last sessions while the sweep
  is near moves the position past the end of the table, and the next idle cycle reads outside
  the array: every state of this kind, although all identifiers in it are valid, ends in
  undefined behaviour.\<close>

theorem retransmit_overrun:
  fixes full full' :: bool
  assumes "length (retransmitTimerTable s) = n" and "n < 2 ^ 15"
    and "\<not> rt_waitForWrite s" and "rxEng2timer_clearRetransmitTimer s = []"
    and "txEng2timer_setRetransmitTimer s = [q]" and "unat (trs_sessionID q) < n"
    and "rt_position s = trs_sessionID q" and "n \<le> unat (trs_sessionID q) + 5"
  shows "\<exists>s'. retransmit_timer (T, full) s = Some s' \<and> retransmit_timer (T, full') s' = None"
proof -
  have b: "rt_blocked s" using assms by (simp add: rt_blocked_def)
  note c = rt_timer_set [OF b assms(5,1,6), of T full]
  have "unat (rt_position s + 5) = unat (rt_position s) + 5"
    using assms by (simp add: unat_word_ariths)
  with assms c show ?thesis
    by (auto simp: retransmit_timer_def Let_def tget_def)
qed

theorem retransmit_overrun_witness:
  "\<exists>s'. retransmit_timer (sim_times, False)
      (rt_ex\<lparr>txEng2timer_setRetransmitTimer := [\<lparr>trs_sessionID = 1, trs_type = SYN\<rparr>]\<rparr>) = Some s' \<and>
    retransmit_timer (sim_times, False) s' = None"
  by (rule retransmit_overrun [where n = 2 and q = "\<lparr>trs_sessionID = 1, trs_type = SYN\<rparr>"])
    (simp_all add: rt_ex_def)

section \<open>The timer wrapper of \<open>toe.cpp\<close>\<close>

record timers_st =
  tw_rt :: rt_st
  tw_probe :: probe_st
  tw_close :: close_st
  timer2eventEng_setEvent :: "event fifo"
  timer2stateTable_releaseState :: "u16 fifo"

text \<open>The inputs are the \<open>full()\<close> flags of the two event streams.\<close>

definition timerWrapper :: "toe_times \<times> bool \<times> bool \<Rightarrow> timers_st \<Rightarrow> timers_st option" where
  "timerWrapper i s = (case i of (T, rt_full, probe_full) \<Rightarrow> do {
     let (rts, prs, evs) = stream_merger (rtTimer2eventEng_setEvent (tw_rt s),
           probeTimer2eventEng_setEvent (tw_probe s), timer2eventEng_setEvent s);
     rt \<leftarrow> retransmit_timer (T, rt_full) ((tw_rt s)\<lparr>rtTimer2eventEng_setEvent := rts\<rparr>);
     pr \<leftarrow> probe_timer (T, probe_full) ((tw_probe s)\<lparr>probeTimer2eventEng_setEvent := prs\<rparr>);
     cl \<leftarrow> close_timer T (tw_close s);
     let (cls, rtr, rel) = stream_merger (closeTimer2stateTable_releaseState cl,
           rtTimer2stateTable_releaseState rt, timer2stateTable_releaseState s);
     Some (s\<lparr>tw_rt := rt\<lparr>rtTimer2stateTable_releaseState := rtr\<rparr>, tw_probe := pr,
             tw_close := cl\<lparr>closeTimer2stateTable_releaseState := cls\<rparr>,
             timer2eventEng_setEvent := evs, timer2stateTable_releaseState := rel\<rparr>)
   })"

definition timers_inv :: "nat \<Rightarrow> timers_st \<Rightarrow> bool" where
  "timers_inv n s \<longleftrightarrow> rt_inv n (tw_rt s) \<and> probe_inv n (tw_probe s) \<and> close_inv n (tw_close s)"

inductive timers_env :: "nat \<Rightarrow> timers_st \<Rightarrow> timers_st \<Rightarrow> bool" for n where
  tw_rt_env: "rt_env n (tw_rt s) r \<Longrightarrow> timers_env n s (s\<lparr>tw_rt := r\<rparr>)"
| tw_probe_env: "probe_env n (tw_probe s) r \<Longrightarrow> timers_env n s (s\<lparr>tw_probe := r\<rparr>)"
| tw_close_env: "close_env n (tw_close s) r \<Longrightarrow> timers_env n s (s\<lparr>tw_close := r\<rparr>)"
| tw_event: "timers_env n s (s\<lparr>timer2eventEng_setEvent := tl (timer2eventEng_setEvent s)\<rparr>)"
| tw_release: "timers_env n s
    (s\<lparr>timer2stateTable_releaseState := tl (timer2stateTable_releaseState s)\<rparr>)"

lemma timers_safe_step:
  assumes "timers_inv n s"
  shows "\<exists>t. timerWrapper i s = Some t \<and> timers_inv n t"
proof -
  obtain T f g where i: "i = (T, f, g)" by (cases i)
  obtain rts prs evs where m: "stream_merger (rtTimer2eventEng_setEvent (tw_rt s),
      probeTimer2eventEng_setEvent (tw_probe s), timer2eventEng_setEvent s) = (rts, prs, evs)"
    by (metis prod_cases3)
  have "rt_inv n ((tw_rt s)\<lparr>rtTimer2eventEng_setEvent := rts\<rparr>)"
    "probe_inv n ((tw_probe s)\<lparr>probeTimer2eventEng_setEvent := prs\<rparr>)"
    using assms by (simp_all add: timers_inv_def rt_inv_def probe_inv_def)
  then obtain rt pr cl where st:
    "retransmit_timer (T, f) ((tw_rt s)\<lparr>rtTimer2eventEng_setEvent := rts\<rparr>) = Some rt" "rt_inv n rt"
    "probe_timer (T, g) ((tw_probe s)\<lparr>probeTimer2eventEng_setEvent := prs\<rparr>) = Some pr" "probe_inv n pr"
    "close_timer T (tw_close s) = Some cl" "close_inv n cl"
    using rt_inv_safe_step probe_inv_safe_step close.cyc_safe close.cyc_inv assms
    unfolding timers_inv_def by metis
  then show ?thesis
    using m by (auto simp: timerWrapper_def i timers_inv_def rt_inv_def close_inv_def split_beta)
qed

interpretation timers: clocked "timers_inv n" "timers_env n" timerWrapper for n
proof (unfold_locales, goal_cases)
  case (1 s t)
  then show ?case
    by (auto simp: timers_inv_def elim!: timers_env.cases
        intro: retransmit.env_inv probe.env_inv close.env_inv)
next
  case (2 s i)
  then show ?case using timers_safe_step by blast
next
  case (3 s i t)
  then show ?case using timers_safe_step [of n s i] by auto
qed

end
