(* ===== verification/Event_Engine.thy ===== *)
theory Event_Engine
  imports Toe_Internals Scanner
begin

text \<open>
  \<open>event_engine/event_engine.cpp\<close> merges the events of the receive engine, the timers and the
  application; \<open>ack_delay/ack_delay.cpp\<close> holds acknowledgements back for a while, so that one of
  them can serve several segments.  Behind both sits the transmit engine, which reports every
  event it reads; the engine counts what is in the pipeline on 8-bit counters and lets timer and
  application events in only when they say that it is empty.
\<close>

section \<open>Event engine\<close>

record ee_st =
  ee_writeCounter :: u8
  ee_adReadCounter :: u8
  ee_adWriteCounter :: u8
  ee_txEngReadCounter :: u8
  txApp2eventEng_setEvent :: "event fifo"
  rxEng2eventEng_setEvent :: "extendedEvent fifo"
  timer2eventEng_setEvent :: "event fifo"
  eventEng2ackDelay_event :: "extendedEvent fifo"
  ackDelayFifoReadCount :: "bool fifo"
  ackDelayFifoWriteCount :: "bool fifo"
  txEngFifoReadCount :: "bool fifo"

text \<open>
  \<open>u\<close> is the indeterminate \<open>tuple\<close> of the local variable \<open>ev\<close>: reading an \<open>event\<close> sets the other
  members only.  \<open>full\<close> is the flag of \<open>eventEng2txEng_event\<close>.
\<close>

definition ee_merge :: "fourTuple \<Rightarrow> bool \<Rightarrow> 'a ee_st_scheme \<Rightarrow> 'a ee_st_scheme" where
  "ee_merge u full s =
     (if rxEng2eventEng_setEvent s \<noteq> [] \<and> \<not> full
      then s\<lparr>rxEng2eventEng_setEvent := tl (rxEng2eventEng_setEvent s),
             eventEng2ackDelay_event := eventEng2ackDelay_event s @ [hd (rxEng2eventEng_setEvent s)],
             ee_writeCounter := ee_writeCounter s + 1\<rparr>
      else if ee_writeCounter s = ee_adReadCounter s \<and> ee_adWriteCounter s = ee_txEngReadCounter s
      then (if timer2eventEng_setEvent s \<noteq> []
            then s\<lparr>timer2eventEng_setEvent := tl (timer2eventEng_setEvent s),
                   eventEng2ackDelay_event := eventEng2ackDelay_event s @
                     [extendedEvent_of u (hd (timer2eventEng_setEvent s))],
                   ee_writeCounter := ee_writeCounter s + 1\<rparr>
            else if txApp2eventEng_setEvent s \<noteq> []
            then s\<lparr>txApp2eventEng_setEvent := tl (txApp2eventEng_setEvent s),
                   eventEng2ackDelay_event := eventEng2ackDelay_event s @
                     [extendedEvent_of u (hd (txApp2eventEng_setEvent s))],
                   ee_writeCounter := ee_writeCounter s + 1\<rparr>
            else s)
      else s)"

definition ee_count :: "'a ee_st_scheme \<Rightarrow> 'a ee_st_scheme" where
  "ee_count s =
     (let s = (if ackDelayFifoReadCount s \<noteq> []
               then s\<lparr>ackDelayFifoReadCount := tl (ackDelayFifoReadCount s),
                      ee_adReadCounter := ee_adReadCounter s + 1\<rparr> else s);
          s = (if ackDelayFifoWriteCount s \<noteq> []
               then s\<lparr>ackDelayFifoWriteCount := tl (ackDelayFifoWriteCount s),
                      ee_adWriteCounter := ee_adWriteCounter s + 1\<rparr> else s)
      in (if txEngFifoReadCount s \<noteq> []
          then s\<lparr>txEngFifoReadCount := tl (txEngFifoReadCount s),
                 ee_txEngReadCounter := ee_txEngReadCounter s + 1\<rparr> else s))"

definition event_engine :: "fourTuple \<Rightarrow> bool \<Rightarrow> 'a ee_st_scheme \<Rightarrow> 'a ee_st_scheme" where
  "event_engine u full s = ee_count (ee_merge u full s)"

section \<open>Acknowledgement delay\<close>

text \<open>
  It shares the streams of the event engine: \<open>input\<close> is \<open>eventEng2ackDelay_event\<close>, the two counter
  streams are the engine's, \<open>output\<close> goes to the transmit engine.  \<open>ack_table\<close> holds 12 bits of
  \<open>TIME_64us\<close>.
\<close>

record ad_st = ee_st +
  ack_table :: "u12 list"
  ad_pointer :: u16
  eventEng2txEng_event :: "extendedEvent fifo"

definition ack_delay ::
  "toe_times \<Rightarrow> fourTuple \<Rightarrow> bool \<Rightarrow> 'a ad_st_scheme \<Rightarrow> 'a ad_st_scheme option" where
  "ack_delay T u full s =
    (if eventEng2ackDelay_event s \<noteq> [] then do {
       let ev = hd (eventEng2ackDelay_event s);
       let s = s\<lparr>eventEng2ackDelay_event := tl (eventEng2ackDelay_event s),
                 ackDelayFifoReadCount := ackDelayFifoReadCount s @ [True]\<rparr>;
       a \<leftarrow> tget (ack_table s) (ev_sessionID ev);
       if ev_type ev = ACK \<and> a = 0 then do {
         tab \<leftarrow> tset (ack_table s) (ev_sessionID ev) (ucast (TIME_64us T));
         Some (s\<lparr>ack_table := tab\<rparr>)
       } else do {
         tab \<leftarrow> tset (ack_table s) (ev_sessionID ev) 0;
         Some (s\<lparr>ack_table := tab, eventEng2txEng_event := eventEng2txEng_event s @ [ev],
                 ackDelayFifoWriteCount := ackDelayFifoWriteCount s @ [True]\<rparr>)
       }
     }
     else do {
       a \<leftarrow> tget (ack_table s) (ad_pointer s);
       s \<leftarrow> (if a > 0 \<and> \<not> full then do {
               let s = (if a = 1 then
                 s\<lparr>eventEng2txEng_event := eventEng2txEng_event s @
                     [extendedEvent_of u (event_simple ACK (ad_pointer s))],
                   ackDelayFifoWriteCount := ackDelayFifoWriteCount s @ [True]\<rparr> else s);
               tab \<leftarrow> tset (ack_table s) (ad_pointer s) (a - 1);
               Some (s\<lparr>ack_table := tab\<rparr>)
             } else Some s);
       let s = s\<lparr>ad_pointer := ad_pointer s + 1\<rparr>;
       Some (if unat (ad_pointer s) = length (ack_table s) then s\<lparr>ad_pointer := 0\<rparr> else s)
     })"

section \<open>The pipeline\<close>

text \<open>
  Both components in one cycle, in the order of \<open>toe.cpp\<close>.  The history variables record what
  each source has issued, what the engine has accepted, and what left the pipeline.
\<close>

record pipe_st = ad_st +
  g_rx :: "extendedEvent list"
  g_timer :: "event list"
  g_app :: "event list"
  g_accepted :: "extendedEvent list"
  g_sent :: "extendedEvent list"

record pipe_in =
  pi_times :: toe_times
  pi_tuple :: fourTuple
  pi_ee_full :: bool
  pi_ad_full :: bool

definition pipe_cyc :: "pipe_in \<Rightarrow> pipe_st \<Rightarrow> pipe_st option" where
  "pipe_cyc i s = do {
     let a = event_engine (pi_tuple i) (pi_ee_full i) s;
     b \<leftarrow> ack_delay (pi_times i) (pi_tuple i) (pi_ad_full i) a;
     Some (b\<lparr>g_accepted := g_accepted s @
                drop (length (eventEng2ackDelay_event s)) (eventEng2ackDelay_event a),
             g_sent := g_sent s @
                drop (length (eventEng2txEng_event s)) (eventEng2txEng_event b)\<rparr>)
   }"

inductive pipe_env :: "nat \<Rightarrow> pipe_st \<Rightarrow> pipe_st \<Rightarrow> bool" for n where
  rx_event: "unat (ev_sessionID e) < n \<Longrightarrow> pipe_env n s
    (s\<lparr>rxEng2eventEng_setEvent := rxEng2eventEng_setEvent s @ [e], g_rx := g_rx s @ [e]\<rparr>)"
| timer_event: "unat (ev_sessionID e) < n \<Longrightarrow> pipe_env n s
    (s\<lparr>timer2eventEng_setEvent := timer2eventEng_setEvent s @ [e], g_timer := g_timer s @ [e]\<rparr>)"
| app_event: "unat (ev_sessionID e) < n \<Longrightarrow> pipe_env n s
    (s\<lparr>txApp2eventEng_setEvent := txApp2eventEng_setEvent s @ [e], g_app := g_app s @ [e]\<rparr>)"
| tx_engine_reads: "eventEng2txEng_event s = e # es \<Longrightarrow> pipe_env n s
    (s\<lparr>eventEng2txEng_event := es, txEngFifoReadCount := txEngFifoReadCount s @ [True]\<rparr>)"

subsection \<open>One cycle\<close>

lemma ee_merge_cases:
  obtains (none) "ee_merge u full s = s"
  | (rx) e es where "rxEng2eventEng_setEvent s = e # es" "ee_merge u full s =
      s\<lparr>rxEng2eventEng_setEvent := es, ee_writeCounter := ee_writeCounter s + 1,
        eventEng2ackDelay_event := eventEng2ackDelay_event s @ [e]\<rparr>"
  | (timer) e es where "timer2eventEng_setEvent s = e # es" "ee_merge u full s =
      s\<lparr>timer2eventEng_setEvent := es, ee_writeCounter := ee_writeCounter s + 1,
        eventEng2ackDelay_event := eventEng2ackDelay_event s @ [extendedEvent_of u e]\<rparr>"
  | (app) e es where "txApp2eventEng_setEvent s = e # es" "ee_merge u full s =
      s\<lparr>txApp2eventEng_setEvent := es, ee_writeCounter := ee_writeCounter s + 1,
        eventEng2ackDelay_event := eventEng2ackDelay_event s @ [extendedEvent_of u e]\<rparr>"
  by (cases "rxEng2eventEng_setEvent s"; cases "timer2eventEng_setEvent s";
      cases "txApp2eventEng_setEvent s"; cases full;
      cases "ee_writeCounter s = ee_adReadCounter s \<and> ee_adWriteCounter s = ee_txEngReadCounter s")
    (simp_all add: ee_merge_def)

lemma ack_delay_read:
  assumes "eventEng2ackDelay_event s = ev # evs" "unat (ev_sessionID ev) < length (ack_table s)"
  defines "j \<equiv> unat (ev_sessionID ev)"
  shows "ack_delay T u full s = Some (
     if ev_type ev = ACK \<and> ack_table s ! j = 0
     then s\<lparr>eventEng2ackDelay_event := evs, ackDelayFifoReadCount := ackDelayFifoReadCount s @ [True],
            ack_table := (ack_table s)[j := ucast (TIME_64us T)]\<rparr>
     else s\<lparr>eventEng2ackDelay_event := evs, ackDelayFifoReadCount := ackDelayFifoReadCount s @ [True],
            ack_table := (ack_table s)[j := 0],
            eventEng2txEng_event := eventEng2txEng_event s @ [ev],
            ackDelayFifoWriteCount := ackDelayFifoWriteCount s @ [True]\<rparr>)"
  using assms by (simp add: ack_delay_def Let_def)

definition ack_tick :: "u12 \<Rightarrow> u12" where
  "ack_tick a = (if a > 0 then a - 1 else a)"

definition ack_emit :: "fourTuple \<Rightarrow> nat \<Rightarrow> u12 \<Rightarrow> extendedEvent list" where
  "ack_emit u i a = (if i < 2 ^ 16 \<and> a = 1 then [extendedEvent_of u (event_simple ACK (of_nat i))] else [])"

lemma ack_delay_idle:
  assumes "eventEng2ackDelay_event s = []" "unat (ad_pointer s) < length (ack_table s)"
  defines "j \<equiv> unat (ad_pointer s)"
  shows "ack_delay T u full s = Some (
     s\<lparr>eventEng2txEng_event := eventEng2txEng_event s @ (if full then [] else ack_emit u j (ack_table s ! j)),
       ackDelayFifoWriteCount := ackDelayFifoWriteCount s @
         (if full then [] else map (\<lambda>_. True) (ack_emit u j (ack_table s ! j))),
       ack_table := (if full then ack_table s else (ack_table s)[j := ack_tick (ack_table s ! j)]),
       ad_pointer := (if unat (ad_pointer s + 1) = length (ack_table s) then 0 else ad_pointer s + 1)\<rparr>)"
proof -
  have "(ack_table s)[j := 0] = ack_table s" if "ack_table s ! j = 0"
    using that by (metis list_update_id)
  then show ?thesis
    using assms unat_less [of "ad_pointer s"]
    by (cases "ack_table s ! j = 0")
      (auto simp: ack_delay_def ack_tick_def ack_emit_def Let_def word_gt_0)
qed

section \<open>Invariants of the pipeline\<close>

abbreviation trunc :: "extendedEvent \<Rightarrow> event" where
  "trunc \<equiv> event.truncate"

definition pipe_ids :: "nat \<Rightarrow> 'a ad_st_scheme \<Rightarrow> bool" where
  "pipe_ids n s \<longleftrightarrow> n < 2 ^ 16 \<and> length (ack_table s) = n \<and> unat (ad_pointer s) < n \<and>
     (\<forall>e\<in>set (rxEng2eventEng_setEvent s). unat (ev_sessionID e) < n) \<and>
     (\<forall>e\<in>set (timer2eventEng_setEvent s). unat (ev_sessionID e) < n) \<and>
     (\<forall>e\<in>set (txApp2eventEng_setEvent s). unat (ev_sessionID e) < n) \<and>
     (\<forall>e\<in>set (eventEng2ackDelay_event s). unat (ev_sessionID e) < n)"

text \<open>The counters: every event on its way is counted, modulo 256.\<close>

definition pipe_counts :: "'a ad_st_scheme \<Rightarrow> bool" where
  "pipe_counts s \<longleftrightarrow>
     ee_writeCounter s = ee_adReadCounter s +
       of_nat (length (eventEng2ackDelay_event s) + length (ackDelayFifoReadCount s)) \<and>
     ee_adWriteCounter s + of_nat (length (ackDelayFifoWriteCount s)) = ee_txEngReadCounter s +
       of_nat (length (eventEng2txEng_event s) + length (txEngFifoReadCount s))"

definition pipe_order :: "pipe_st \<Rightarrow> bool" where
  "pipe_order s \<longleftrightarrow>
     (\<exists>a b c d. g_rx s = a @ rxEng2eventEng_setEvent s \<and> g_timer s = b @ timer2eventEng_setEvent s \<and>
        g_app s = c @ txApp2eventEng_setEvent s \<and> map trunc d \<in> shuffles b c \<and>
        g_accepted s \<in> shuffles a d) \<and>
     filter (\<lambda>e. ev_type e \<noteq> ACK) (g_accepted s) =
       filter (\<lambda>e. ev_type e \<noteq> ACK) (g_sent s @ eventEng2ackDelay_event s)"

text \<open>Between two cycles nothing waits before the acknowledgement delay, and of what it has read and written
  only the last is not counted yet.\<close>

definition pipe_small :: "'a ad_st_scheme \<Rightarrow> bool" where
  "pipe_small s \<longleftrightarrow> eventEng2ackDelay_event s = [] \<and> length (ackDelayFifoReadCount s) \<le> 1 \<and>
     length (ackDelayFifoWriteCount s) \<le> 1"

definition pipe_inv :: "nat \<Rightarrow> pipe_st \<Rightarrow> bool" where
  "pipe_inv n s \<longleftrightarrow> pipe_ids n s \<and> pipe_counts s \<and> pipe_order s \<and> pipe_small s"

lemma trunc_extendedEvent_of [simp]: "trunc (extendedEvent_of u e) = e"
  by (simp add: extendedEvent_of_def event.truncate_def)

lemma snoc_in_shuffles_single: "ys @ [x] \<in> shuffles [x] ys"
  by (induction ys) (auto intro: Cons_in_shuffles_rightI)

lemma shuffles_snoc1: "zs \<in> shuffles xs ys \<Longrightarrow> zs @ [x] \<in> shuffles (xs @ [x]) ys"
  by (induction xs ys arbitrary: zs rule: shuffles.induct)
    (auto intro: snoc_in_shuffles_single Cons_in_shuffles_leftI Cons_in_shuffles_rightI)

lemma shuffles_snoc2: "zs \<in> shuffles xs ys \<Longrightarrow> zs @ [x] \<in> shuffles xs (ys @ [x])"
  using shuffles_snoc1 [of zs ys xs x] by (simp add: shuffles_commutes)

subsection \<open>Preservation\<close>

lemma pipe_ids_merge: "pipe_ids n s \<Longrightarrow> pipe_ids n (ee_merge u full s)"
  by (rule ee_merge_cases [of u full s]) (auto simp: pipe_ids_def extendedEvent_of_def)

lemma pipe_counts_merge: "pipe_counts s \<Longrightarrow> pipe_counts (ee_merge u full s)"
  by (rule ee_merge_cases [of u full s]) (auto simp: pipe_counts_def algebra_simps)

lemma ee_count_frame [simp]:
  "eventEng2ackDelay_event (ee_count s) = eventEng2ackDelay_event s"
  "rxEng2eventEng_setEvent (ee_count s) = rxEng2eventEng_setEvent s"
  "timer2eventEng_setEvent (ee_count s) = timer2eventEng_setEvent s"
  "txApp2eventEng_setEvent (ee_count s) = txApp2eventEng_setEvent s"
  by (simp_all add: ee_count_def Let_def)

lemma ee_count_frame_ad [simp]:
  "ack_table (ee_count s) = ack_table s" "ad_pointer (ee_count s) = ad_pointer s"
  "eventEng2txEng_event (ee_count s) = eventEng2txEng_event s"
  by (simp_all add: ee_count_def Let_def)

lemma ee_count_frame_ghost [simp]:
  "g_rx (ee_count s) = g_rx s" "g_timer (ee_count s) = g_timer s" "g_app (ee_count s) = g_app s"
  "g_accepted (ee_count s) = g_accepted s" "g_sent (ee_count s) = g_sent s"
  by (simp_all add: ee_count_def Let_def)

lemma pipe_ids_count [simp]: "pipe_ids n (ee_count s) = pipe_ids n s"
  by (simp add: pipe_ids_def)

lemma pipe_counts_count: "pipe_counts s \<Longrightarrow> pipe_counts (ee_count s)"
  by (cases "ackDelayFifoReadCount s"; cases "ackDelayFifoWriteCount s"; cases "txEngFifoReadCount s")
    (auto simp: pipe_counts_def ee_count_def Let_def algebra_simps)

lemma ad_safe:
  assumes "pipe_ids n s"
  shows "\<exists>t. ack_delay T u full s = Some t \<and> pipe_ids n t"
proof (cases "eventEng2ackDelay_event s")
  case (Cons e es)
  with assms have "unat (ev_sessionID e) < length (ack_table s)" by (simp add: pipe_ids_def)
  with assms Cons ack_delay_read [OF Cons, of T u full] show ?thesis by (simp add: pipe_ids_def)
next
  case Nil
  have p: "unat (ad_pointer s) < length (ack_table s)" using assms by (simp add: pipe_ids_def)
  have "unat (ad_pointer s + 1) = unat (ad_pointer s) + 1"
    using assms by (simp add: pipe_ids_def unat_word_ariths)
  with assms ack_delay_idle [OF Nil p, of T u full] show ?thesis
    by (auto simp: pipe_ids_def)
qed

lemma pipe_counts_ad:
  assumes "pipe_ids n s" "pipe_counts s" "ack_delay T u full s = Some t"
  shows "pipe_counts t"
proof (cases "eventEng2ackDelay_event s")
  case (Cons e es)
  with assms have "unat (ev_sessionID e) < length (ack_table s)" by (simp add: pipe_ids_def)
  with assms Cons ack_delay_read [OF Cons, of T u full] show ?thesis
    by (auto simp: pipe_counts_def algebra_simps split: if_splits)
next
  case Nil
  have p: "unat (ad_pointer s) < length (ack_table s)" using assms by (simp add: pipe_ids_def)
  with assms Nil ack_delay_idle [OF Nil p, of T u full] show ?thesis
    by (auto simp: pipe_counts_def ack_emit_def algebra_simps)
qed

lemma ee_merge_one: "\<exists>w. eventEng2ackDelay_event (ee_merge u full s) = eventEng2ackDelay_event s @ w \<and> length w \<le> 1 \<and>
    ackDelayFifoReadCount (ee_merge u full s) = ackDelayFifoReadCount s \<and>
    ackDelayFifoWriteCount (ee_merge u full s) = ackDelayFifoWriteCount s"
  by (rule ee_merge_cases [of u full s]) auto

lemma pipe_small_step:
  fixes s :: "'a ad_st_scheme"
  assumes "pipe_small s" "pipe_ids n (event_engine u full s)" "ack_delay T v full' (event_engine u full s) = Some t"
  shows "pipe_small t"
proof -
  let ?a = "event_engine u full s"
  obtain w where w: "eventEng2ackDelay_event ?a = w" "length w \<le> 1"
    using ee_merge_one [of u full s] assms(1) by (auto simp: event_engine_def pipe_small_def)
  have c: "ackDelayFifoReadCount ?a = []" "ackDelayFifoWriteCount ?a = []"
    using ee_merge_one [of u full s] assms(1)
    by (auto simp: event_engine_def pipe_small_def ee_count_def Let_def le_Suc_eq length_Suc_conv)
  show ?thesis
  proof (cases w)
    case Nil
    have "unat (ad_pointer ?a) < length (ack_table ?a)" using assms(2) by (simp add: pipe_ids_def)
    with assms(3) w Nil c ack_delay_idle [of ?a T v full'] show ?thesis by (auto simp: pipe_small_def ack_emit_def)
  next
    case (Cons e es)
    with w have e: "eventEng2ackDelay_event ?a = e # []" by simp
    with assms(2) have "unat (ev_sessionID e) < length (ack_table ?a)" by (simp add: pipe_ids_def)
    with assms(3) c ack_delay_read [OF e, of T v full'] show ?thesis by (auto simp: pipe_small_def split: if_splits)
  qed
qed

lemma ad_moves:
  fixes s t :: pipe_st
  assumes ids: "pipe_ids n s" and t: "ack_delay T u full s = Some t"
  shows "\<exists>x. eventEng2txEng_event t = eventEng2txEng_event s @ x \<and>
      filter (\<lambda>e. ev_type e \<noteq> ACK) (x @ eventEng2ackDelay_event t) =
        filter (\<lambda>e. ev_type e \<noteq> ACK) (eventEng2ackDelay_event s)"
    and "rxEng2eventEng_setEvent t = rxEng2eventEng_setEvent s \<and>
      timer2eventEng_setEvent t = timer2eventEng_setEvent s \<and>
      txApp2eventEng_setEvent t = txApp2eventEng_setEvent s \<and>
      g_rx t = g_rx s \<and> g_timer t = g_timer s \<and> g_app t = g_app s"
proof -
  have p: "unat (ad_pointer s) < length (ack_table s)"
    and e: "e \<in> set (eventEng2ackDelay_event s) \<Longrightarrow> unat (ev_sessionID e) < length (ack_table s)" for e
    using ids by (simp_all add: pipe_ids_def)
  show "\<exists>x. eventEng2txEng_event t = eventEng2txEng_event s @ x \<and>
      filter (\<lambda>e. ev_type e \<noteq> ACK) (x @ eventEng2ackDelay_event t) =
        filter (\<lambda>e. ev_type e \<noteq> ACK) (eventEng2ackDelay_event s)"
  proof (cases "eventEng2ackDelay_event s")
    case (Cons a as)
    with t e ack_delay_read [OF Cons, of T u full] show ?thesis by (auto split: if_splits)
  next
    case Nil
    with t ack_delay_idle [OF Nil p, of T u full] show ?thesis
      by (auto simp: ack_emit_def extendedEvent_of_def event_simple_def)
  qed
  show "rxEng2eventEng_setEvent t = rxEng2eventEng_setEvent s \<and>
      timer2eventEng_setEvent t = timer2eventEng_setEvent s \<and>
      txApp2eventEng_setEvent t = txApp2eventEng_setEvent s \<and>
      g_rx t = g_rx s \<and> g_timer t = g_timer s \<and> g_app t = g_app s"
  proof (cases "eventEng2ackDelay_event s")
    case (Cons a as)
    with t e ack_delay_read [OF Cons, of T u full] show ?thesis by (auto split: if_splits)
  next
    case Nil
    with t ack_delay_idle [OF Nil p, of T u full] show ?thesis by auto
  qed
qed

definition pipe_sources :: "extendedEvent list \<Rightarrow> pipe_st \<Rightarrow> bool" where
  "pipe_sources acc s \<longleftrightarrow>
     (\<exists>a b c d. g_rx s = a @ rxEng2eventEng_setEvent s \<and> g_timer s = b @ timer2eventEng_setEvent s \<and>
        g_app s = c @ txApp2eventEng_setEvent s \<and> map trunc d \<in> shuffles b c \<and> acc \<in> shuffles a d)"

lemma pipe_sources_merge:
  assumes "pipe_sources acc s"
  shows "\<exists>w. eventEng2ackDelay_event (ee_merge u full s) = eventEng2ackDelay_event s @ w \<and>
     pipe_sources (acc @ w) (ee_merge u full s)"
proof -
  from assms obtain a b c d where src: "g_rx s = a @ rxEng2eventEng_setEvent s"
    "g_timer s = b @ timer2eventEng_setEvent s" "g_app s = c @ txApp2eventEng_setEvent s"
    "map trunc d \<in> shuffles b c" "acc \<in> shuffles a d"
    unfolding pipe_sources_def by blast
  show ?thesis
  proof (cases rule: ee_merge_cases [of u full s])
    case none
    with assms show ?thesis by simp
  next
    case (rx e es)
    have "acc @ [e] \<in> shuffles (a @ [e]) d" by (rule shuffles_snoc1 [OF src(5)])
    with src(1-4) have "pipe_sources (acc @ [e]) (ee_merge u full s)"
      unfolding pipe_sources_def rx(2)
      by (intro exI [of _ "a @ [e]"] exI [of _ b] exI [of _ c] exI [of _ d]) (simp add: rx(1))
    with rx show ?thesis by simp
  next
    case (timer e es)
    have "map trunc (d @ [extendedEvent_of u e]) \<in> shuffles (b @ [e]) c" using shuffles_snoc1 [OF src(4)] by simp
    moreover have "acc @ [extendedEvent_of u e] \<in> shuffles a (d @ [extendedEvent_of u e])"
      by (rule shuffles_snoc2 [OF src(5)])
    ultimately have "pipe_sources (acc @ [extendedEvent_of u e]) (ee_merge u full s)"
      using src(1-3) unfolding pipe_sources_def timer(2)
      by (intro exI [of _ a] exI [of _ "b @ [e]"] exI [of _ c] exI [of _ "d @ [extendedEvent_of u e]"])
        (simp add: timer(1))
    with timer show ?thesis by simp
  next
    case (app e es)
    have "map trunc (d @ [extendedEvent_of u e]) \<in> shuffles b (c @ [e])" using shuffles_snoc2 [OF src(4)] by simp
    moreover have "acc @ [extendedEvent_of u e] \<in> shuffles a (d @ [extendedEvent_of u e])"
      by (rule shuffles_snoc2 [OF src(5)])
    ultimately have "pipe_sources (acc @ [extendedEvent_of u e]) (ee_merge u full s)"
      using src(1-3) unfolding pipe_sources_def app(2)
      by (intro exI [of _ a] exI [of _ b] exI [of _ "c @ [e]"] exI [of _ "d @ [extendedEvent_of u e]"])
        (simp add: app(1))
    with app show ?thesis by simp
  qed
qed

lemma pipe_sources_count [simp]: "pipe_sources acc (ee_count s) = pipe_sources acc s"
  by (simp add: pipe_sources_def)

lemma pipe_order_alt: "pipe_order s \<longleftrightarrow> pipe_sources (g_accepted s) s \<and>
    filter (\<lambda>e. ev_type e \<noteq> ACK) (g_accepted s) =
       filter (\<lambda>e. ev_type e \<noteq> ACK) (g_sent s @ eventEng2ackDelay_event s)"
  by (simp add: pipe_order_def pipe_sources_def)

lemma ee_merge_ghost [simp]:
  "g_sent (ee_merge u full s) = g_sent s" "g_accepted (ee_merge u full s) = g_accepted s"
  "eventEng2txEng_event (ee_merge u full s) = eventEng2txEng_event s"
  by (rule ee_merge_cases [of u full s]; simp)+

lemma ack_delay_ghost:
  fixes s t :: pipe_st
  assumes "pipe_ids n s" "ack_delay T u full s = Some t"
  shows "g_sent t = g_sent s"
proof (cases "eventEng2ackDelay_event s")
  case (Cons a as)
  with assms have "unat (ev_sessionID a) < length (ack_table s)" by (simp add: pipe_ids_def)
  with assms ack_delay_read [OF Cons, of T u full] show ?thesis by (auto split: if_splits)
next
  case Nil
  have "unat (ad_pointer s) < length (ack_table s)" using assms by (simp add: pipe_ids_def)
  with assms ack_delay_idle [OF Nil, of T u full] show ?thesis by auto
qed

lemma pipe_safe_step:
  assumes inv: "pipe_inv n s"
  shows "\<exists>t. pipe_cyc i s = Some t \<and> pipe_inv n t"
proof -
  let ?a = "event_engine (pi_tuple i) (pi_ee_full i) s"
  have ids: "pipe_ids n ?a"
    using inv by (simp add: pipe_inv_def event_engine_def pipe_ids_merge)
  have cnt: "pipe_counts ?a"
    using inv by (simp add: pipe_inv_def event_engine_def pipe_counts_merge pipe_counts_count)
  obtain w where w: "eventEng2ackDelay_event ?a = eventEng2ackDelay_event s @ w"
    "pipe_sources (g_accepted s @ w) ?a"
    using inv pipe_sources_merge [of "g_accepted s" s "pi_tuple i" "pi_ee_full i"]
    by (auto simp: pipe_inv_def pipe_order_alt event_engine_def pipe_sources_count)
  have g: "g_sent ?a = g_sent s" "g_accepted ?a = g_accepted s"
    "eventEng2txEng_event ?a = eventEng2txEng_event s" by (simp_all add: event_engine_def)
  obtain b where b: "ack_delay (pi_times i) (pi_tuple i) (pi_ad_full i) ?a = Some b" "pipe_ids n b"
    using ad_safe [OF ids] by blast
  from ad_moves(1) [OF ids b(1)] obtain x where x: "eventEng2txEng_event b = eventEng2txEng_event s @ x"
    "filter (\<lambda>e. ev_type e \<noteq> ACK) (x @ eventEng2ackDelay_event b) =
      filter (\<lambda>e. ev_type e \<noteq> ACK) (eventEng2ackDelay_event s @ w)"
    using g w by auto
  let ?t = "b\<lparr>g_accepted := g_accepted s @ w, g_sent := g_sent s @ x\<rparr>"
  have t: "pipe_cyc i s = Some ?t" using b x w by (simp add: pipe_cyc_def)
  have "pipe_ids n ?t" using b(2) by (simp add: pipe_ids_def)
  moreover have "pipe_counts ?t"
    using pipe_counts_ad [OF ids cnt b(1)] by (simp add: pipe_counts_def)
  moreover have "pipe_sources (g_accepted s @ w) ?t"
    using w(2) ad_moves(2) [OF ids b(1)] by (simp add: pipe_sources_def)
  moreover have "filter (\<lambda>e. ev_type e \<noteq> ACK) (g_accepted ?t) =
       filter (\<lambda>e. ev_type e \<noteq> ACK) (g_sent ?t @ eventEng2ackDelay_event ?t)"
    using inv x(2) by (simp add: pipe_inv_def pipe_order_alt)
  moreover have "pipe_small ?t"
    using pipe_small_step [OF _ ids b(1)] inv by (simp add: pipe_inv_def pipe_small_def)
  ultimately show ?thesis using t by (simp add: pipe_inv_def pipe_order_alt)
qed

lemma pipe_inv_env: "\<lbrakk>pipe_inv n s; pipe_env n s t\<rbrakk> \<Longrightarrow> pipe_inv n t"
  by (erule pipe_env.cases)
    (auto simp: pipe_inv_def pipe_ids_def pipe_counts_def pipe_order_def pipe_small_def algebra_simps)

interpretation pipe: clocked "pipe_inv n" "pipe_env n" pipe_cyc for n
proof (unfold_locales, goal_cases)
  case (1 s t)
  then show ?case by (rule pipe_inv_env)
next
  case (2 s i)
  then show ?case using pipe_safe_step by blast
next
  case (3 s i t)
  then show ?case using pipe_safe_step [of n s i] by auto
qed

definition pipe_init :: "nat \<Rightarrow> pipe_st" where
  "pipe_init n = \<lparr>ee_writeCounter = 0, ee_adReadCounter = 0, ee_adWriteCounter = 0,
     ee_txEngReadCounter = 0, txApp2eventEng_setEvent = [], rxEng2eventEng_setEvent = [],
     timer2eventEng_setEvent = [], eventEng2ackDelay_event = [], ackDelayFifoReadCount = [],
     ackDelayFifoWriteCount = [], txEngFifoReadCount = [], ack_table = replicate n 0,
     ad_pointer = 0, eventEng2txEng_event = [], g_rx = [], g_timer = [], g_app = [],
     g_accepted = [], g_sent = []\<rparr>"

lemma pipe_inv_init: "\<lbrakk>0 < n; n < 2 ^ 16\<rbrakk> \<Longrightarrow> pipe_inv n (pipe_init n)"
  by (simp add: pipe_inv_def pipe_ids_def pipe_counts_def pipe_order_def pipe_small_def pipe_init_def)

section \<open>Properties\<close>

text \<open>C15: no event is lost, duplicated or reordered, except pure acknowledgements behind the merge.  What
  the engine has accepted is an interleaving of the events each source has issued and that are no longer in
  its stream, each source in its own order; those of the receive engine come with their tuple.  What has been
  sent to the transmit engine and what still waits is what was accepted, in that order, if the events of
  type \<open>ACK\<close> are left out of both: these are held back, merged and cancelled by \<open>ack_delay\<close> (see
  \<open>ack_delay_event\<close>).\<close>

theorem event_order_preserved:
  assumes "0 < n" and "n < 2 ^ 16" and "reach (pipe_env n) pipe_cyc (pipe_init n) s"
  shows "(\<exists>a b c d. g_rx s = a @ rxEng2eventEng_setEvent s \<and>
        g_timer s = b @ timer2eventEng_setEvent s \<and> g_app s = c @ txApp2eventEng_setEvent s \<and>
        map event.truncate d \<in> shuffles b c \<and> g_accepted s \<in> shuffles a d) \<and>
     filter (\<lambda>e. ev_type e \<noteq> ACK) (g_accepted s) =
       filter (\<lambda>e. ev_type e \<noteq> ACK) (g_sent s @ eventEng2ackDelay_event s)"
  using pipe.reach_inv [OF assms(3) pipe_inv_init [OF assms(1,2)]]
  unfolding pipe_inv_def pipe_order_def by blast

definition pipe_ex_in :: pipe_in where
  "pipe_ex_in = \<lparr>pi_times = sim_times, pi_tuple = \<lparr>srcIp = 0, dstIp = 0, srcPort = 0, dstPort = 0\<rparr>,
     pi_ee_full = False, pi_ad_full = False\<rparr>"

definition pipe_ex0 :: pipe_st where
  "pipe_ex0 = (pipe_init 2)\<lparr>timer2eventEng_setEvent := [event_simple RT 1], g_timer := [event_simple RT 1]\<rparr>"

definition pipe_ex :: pipe_st where
  "pipe_ex = the (pipe_cyc pipe_ex_in pipe_ex0)"

lemma pipe_ex0_reach: "reach (pipe_env 2) pipe_cyc (pipe_init 2) pipe_ex0"
proof -
  have "pipe_env 2 (pipe_init 2) pipe_ex0"
    using pipe_env.timer_event [of "event_simple RT 1" 2 "pipe_init 2"]
    by (simp add: pipe_ex0_def event_simple_def pipe_init_def)
  then show ?thesis by (rule reach_env [OF reach_init])
qed

lemma pipe_ex_reach: "reach (pipe_env 2) pipe_cyc (pipe_init 2) pipe_ex"
  unfolding pipe_ex_def by (rule pipe.reach_next [OF pipe_ex0_reach]) (simp add: pipe_inv_init)

lemma pipe_ex_eval: "g_timer pipe_ex = [event_simple RT 1]" "eventEng2ackDelay_event pipe_ex = []"
  "map ev_type (g_accepted pipe_ex) = [RT]" "timer2eventEng_setEvent pipe_ex = []"
  "ackDelayFifoReadCount pipe_ex = [True]" "ackDelayFifoWriteCount pipe_ex = [True]"
  "txEngFifoReadCount pipe_ex = []" "length (eventEng2txEng_event pipe_ex) = 1"
  "ee_writeCounter pipe_ex = 1" "ee_adReadCounter pipe_ex = 0"
  by code_simp+

theorem event_order_preserved_witness: "map ev_type (g_sent pipe_ex) = [RT]"
proof -
  have "filter (\<lambda>e. ev_type e \<noteq> ACK) (g_accepted pipe_ex) = filter (\<lambda>e. ev_type e \<noteq> ACK) (g_sent pipe_ex)"
    using event_order_preserved [OF _ _ pipe_ex_reach] by (simp add: pipe_ex_eval)
  moreover obtain e where "g_accepted pipe_ex = [e]" "ev_type e = RT"
    using pipe_ex_eval(3) by auto
  moreover have "length (g_sent pipe_ex) = 1" by code_simp
  ultimately show ?thesis by (cases "g_sent pipe_ex") (auto split: if_splits)
qed

lemma u8_of_nat_inj: "\<lbrakk>x < 256; y < 256\<rbrakk> \<Longrightarrow> (of_nat x = (of_nat y :: u8)) = (x = y)"
proof -
  assume "x < 256" "y < 256"
  then have "unat (of_nat x :: u8) = x" "unat (of_nat y :: u8) = y"
    by (simp_all add: unat_of_nat_eq)
  then show ?thesis by metis
qed

text \<open>C16: the gate for timer and application events.  When the engine takes an event from a timer or from
  the application, no event is on its way to the transmit engine but at most one, the one that
  \<open>ack_delay\<close> has written in the cycle before and that is not counted yet; what \<open>ack_delay\<close> had to read, it has
  read.  The hypothesis is that fewer than 256 events are waiting for the transmit engine or its count: the
  counters have eight bits (the stream has depth 64).\<close>

theorem event_gate:
  assumes "0 < n" and "n < 2 ^ 16" and "reach (pipe_env n) pipe_cyc (pipe_init n) s"
    and "length (eventEng2txEng_event s) + length (txEngFifoReadCount s) < 256"
    and "timer2eventEng_setEvent (event_engine u full s) \<noteq> timer2eventEng_setEvent s \<or>
      txApp2eventEng_setEvent (event_engine u full s) \<noteq> txApp2eventEng_setEvent s"
  shows "eventEng2ackDelay_event s = [] \<and> ackDelayFifoReadCount s = [] \<and>
    length (eventEng2txEng_event s) + length (txEngFifoReadCount s) = length (ackDelayFifoWriteCount s) \<and>
    length (ackDelayFifoWriteCount s) \<le> 1"
proof -
  let ?b = "length (eventEng2txEng_event s) + length (txEngFifoReadCount s)"
  let ?c = "length (ackDelayFifoWriteCount s)"
  have g: "ee_writeCounter s = ee_adReadCounter s" "ee_adWriteCounter s = ee_txEngReadCounter s"
    using assms(5) by (auto simp: event_engine_def ee_merge_def split: if_splits)
  from pipe.reach_inv [OF assms(3) pipe_inv_init [OF assms(1,2)]]
  have small: "eventEng2ackDelay_event s = []" "length (ackDelayFifoReadCount s) \<le> 1" "?c \<le> 1"
    and c: "ee_writeCounter s = ee_adReadCounter s + of_nat (length (ackDelayFifoReadCount s))"
    "ee_adWriteCounter s + of_nat ?c = ee_txEngReadCounter s + of_nat ?b"
    by (auto simp: pipe_inv_def pipe_counts_def pipe_small_def)
  have "of_nat (length (ackDelayFifoReadCount s)) = (of_nat 0 :: u8)" using c(1) g(1) by simp
  then have "length (ackDelayFifoReadCount s) = 0" using small(2) by (subst (asm) u8_of_nat_inj) simp_all
  moreover have "of_nat ?c = (of_nat ?b :: u8)" using c(2) g(2) by simp
  then have "?c = ?b" using small(3) assms(4) by (subst (asm) u8_of_nat_inj) simp_all
  ultimately show ?thesis using small by simp
qed

theorem event_gate_witness:
  "\<forall>u. timer2eventEng_setEvent (event_engine u False pipe_ex0) = [] \<and> eventEng2txEng_event pipe_ex0 = []"
proof
  fix u
  have t: "timer2eventEng_setEvent (event_engine u False pipe_ex0) = []"
    by (simp add: event_engine_def ee_merge_def pipe_ex0_def pipe_init_def)
  have "length (eventEng2txEng_event pipe_ex0) + length (txEngFifoReadCount pipe_ex0) < 256"
    "ackDelayFifoWriteCount pipe_ex0 = []" "timer2eventEng_setEvent pipe_ex0 \<noteq> []"
    by (simp_all add: pipe_ex0_def pipe_init_def)
  with event_gate [OF _ _ pipe_ex0_reach, of u False] t
  show "timer2eventEng_setEvent (event_engine u False pipe_ex0) = [] \<and> eventEng2txEng_event pipe_ex0 = []" by simp
qed

definition ack_idle :: "nat \<Rightarrow> ad_st \<Rightarrow> bool" where
  "ack_idle n s \<longleftrightarrow> pipe_ids n s \<and> eventEng2ackDelay_event s = []"

interpretation ack_sweep: timer "ack_idle n" "\<lambda>s. unat (ad_pointer s)" ack_table
  eventEng2txEng_event "ack_delay T u False" ack_tick "ack_emit u" "\<lambda>e. unat (ev_sessionID e)"
  "\<lambda>a. unat a - 1" "\<lambda>a. a > 0"
  "\<lambda>i a. [extendedEvent_of u (event_simple ACK (of_nat i))]" "2 ^ 16" for n T u
proof (unfold_locales, goal_cases)
  case (1 s)
  then have p: "eventEng2ackDelay_event s = []" "unat (ad_pointer s) < length (ack_table s)"
    "length (ack_table s) = n" "n < 65536"
    by (simp_all add: ack_idle_def pipe_ids_def)
  have "unat (ad_pointer s + 1) = unat (ad_pointer s) + 1"
    using p by (simp add: unat_word_ariths)
  with 1 p ack_delay_idle [OF p(1,2), of T u False] ad_safe [of n s T u False]
  show ?case by (auto simp: ack_idle_def next_pos_def)
next
  case (3 a i)
  then have "unat a \<noteq> 1" "unat a \<noteq> 0" by (auto simp: unsigned_eq_0_iff)
  then have "a \<noteq> 1" "a \<noteq> 0" by auto
  with 3 show ?case
    using \<open>unat a \<noteq> 1\<close> \<open>unat a \<noteq> 0\<close>
    by (auto simp: ack_tick_def ack_emit_def unat_dec word_gt_0 unsigned_eq_0_iff dest: arg_cong [of _ _ unat])
next
  case (4 a i)
  then have "unat a = 1" by (auto simp: word_gt_0) (metis One_nat_def le_antisym le_eq_less_or_eq less_Suc_eq_0_disj unsigned_eq_0_iff not_less_eq_eq diff_is_0_eq)
  then have "a = 1" by (metis unat_1 unat_eq_unat_iff)
  with 4 show ?case by (simp add: ack_tick_def ack_emit_def)
qed (auto simp: ack_emit_def ack_tick_def extendedEvent_of_def event_simple_def unat_of_nat_eq
    split: if_splits)

text \<open>A delayed acknowledgement is sent, once.  With \<open>a > 0\<close> in the table for session \<open>i\<close>, no event
  coming in during the whole run and an output that is never full (an event for \<open>i\<close> would carry or
  postpone the acknowledgement, any event stops the sweep for a cycle), exactly one acknowledgement for \<open>i\<close> is issued: none in the first \<open>a - 1\<close>
  sweeps over the \<open>n\<close> sessions, one after \<open>a\<close> sweeps, none after that.\<close>

theorem ack_delay_sends:
  assumes "ack_idle n s" and "unat i < n" and "ack_table s ! unat i > 0"
  defines "a \<equiv> unat (ack_table s ! unat i)"
  defines "mine \<equiv> filter (\<lambda>e. ev_sessionID e = i)"
  shows "\<exists>s'. cycles (ack_delay T u False) m s = Some s' \<and>
    (m \<le> (a - 1) * n \<longrightarrow> mine (eventEng2txEng_event s') = mine (eventEng2txEng_event s)) \<and>
    (a * n \<le> m \<longrightarrow> mine (eventEng2txEng_event s') =
       mine (eventEng2txEng_event s) @ [extendedEvent_of u (event_simple ACK i)])"
proof -
  have len: "length (ack_table s) = n" "unat (ad_pointer s) < n"
    using assms(1) by (simp_all add: ack_idle_def pipe_ids_def)
  have i: "unat i < length (ack_table s)" "unat i < 2 ^ 16" "unat (ad_pointer s) < length (ack_table s)"
    using assms(2) len unat_less [of i] by simp_all
  have "a - 1 + 1 = a" using assms(3) by (simp add: a_def word_gt_0 unat_gt_0 Suc_le_eq)
  then show ?thesis
    using ack_sweep.expires [OF assms(1) i(3,1,2) assms(3), of T u m]
    by (auto simp: len a_def mine_def)
qed

definition ack_ex :: ad_st where
  "ack_ex = \<lparr>ee_writeCounter = 0, ee_adReadCounter = 0, ee_adWriteCounter = 0,
     ee_txEngReadCounter = 0, txApp2eventEng_setEvent = [], rxEng2eventEng_setEvent = [],
     timer2eventEng_setEvent = [], eventEng2ackDelay_event = [], ackDelayFifoReadCount = [],
     ackDelayFifoWriteCount = [], txEngFifoReadCount = [], ack_table = [0, 2],
     ad_pointer = 0, eventEng2txEng_event = []\<rparr>"

theorem ack_delay_sends_witness:
  "\<forall>u. \<exists>s'. cycles (ack_delay sim_times u False) 4 ack_ex = Some s' \<and>
     filter (\<lambda>e. ev_sessionID e = 1) (eventEng2txEng_event s') =
       [extendedEvent_of u (event_simple ACK 1)]"
proof -
  have "ack_idle 2 ack_ex" by (simp add: ack_idle_def pipe_ids_def ack_ex_def)
  from ack_delay_sends [OF this, of 1 sim_times _ 4] show ?thesis by (simp add: ack_ex_def)
qed

text \<open>What the delay does with an event.  The first acknowledgement of a session is held back
  and its time is noted; any other event, and a second acknowledgement, is passed on in the same
  cycle and cancels the one held back, whose job it does.  Every read is reported, and so is
  every write; no other session is touched.\<close>

theorem ack_delay_event:
  assumes "pipe_ids n s" and "eventEng2ackDelay_event s = ev # evs"
  defines "j \<equiv> unat (ev_sessionID ev)"
  defines "hold \<equiv> ev_type ev = ACK \<and> ack_table s ! j = 0"
  shows "\<exists>s'. ack_delay T u full s = Some s' \<and> eventEng2ackDelay_event s' = evs \<and>
    eventEng2txEng_event s' = eventEng2txEng_event s @ (if hold then [] else [ev]) \<and>
    ack_table s' ! j = (if hold then ucast (TIME_64us T) else 0) \<and>
    (\<forall>k. k \<noteq> j \<longrightarrow> ack_table s' ! k = ack_table s ! k) \<and>
    length (ackDelayFifoReadCount s') = length (ackDelayFifoReadCount s) + 1 \<and>
    length (ackDelayFifoWriteCount s') = length (ackDelayFifoWriteCount s) + (if hold then 0 else 1)"
proof -
  have "j < length (ack_table s)" using assms(1,2) by (simp add: pipe_ids_def j_def)
  with ack_delay_read [OF assms(2), of T u full] show ?thesis
    by (auto simp: j_def hold_def)
qed

theorem ack_delay_event_witness:
  "\<forall>u. \<exists>s'. ack_delay sim_times u False
       (ack_ex\<lparr>eventEng2ackDelay_event := [extendedEvent_of u (event_simple ACK 1)]\<rparr>) = Some s' \<and>
     ack_table s' ! 1 = 0 \<and> length (ackDelayFifoWriteCount s') = 1"
proof
  fix u
  show "\<exists>s'. ack_delay sim_times u False
       (ack_ex\<lparr>eventEng2ackDelay_event := [extendedEvent_of u (event_simple ACK 1)]\<rparr>) = Some s' \<and>
     ack_table s' ! 1 = 0 \<and> length (ackDelayFifoWriteCount s') = 1"
    using ack_delay_event [of 2
      "ack_ex\<lparr>eventEng2ackDelay_event := [extendedEvent_of u (event_simple ACK 1)]\<rparr>"
      "extendedEvent_of u (event_simple ACK 1)" "[]" sim_times u False]
    by (auto simp: pipe_ids_def ack_ex_def extendedEvent_of_def event_simple_def)
qed

end
