(* ===== verification/Tx_App.thy ===== *)
theory Tx_App
  imports State_Table
begin

text \<open>
  The transmit side of the application interface: \<open>tx_app_if.cpp\<close> opens and closes
  connections, \<open>tasi_metaLoader\<close> of \<open>tx_app_stream_if.cpp\<close> admits data to the transmit
  buffer, and \<open>tx_app_interface.cpp\<close> holds the table of buffer pointers, merges the events and
  waits for the memory to confirm each write.

  The second half shows that \<open>tx_app_if\<close> follows the locking protocol of the state table, and
  that the admission test never lets unacknowledged bytes be overwritten.
\<close>

section \<open>Opening and closing connections\<close>

datatype taiFsmStateType = TAI_IDLE | TAI_CLOSE_CONN

record tai_st =
  tai_fsmState :: taiFsmStateType
  tai_closeSessionID :: u16
  appOpenConnReq :: "ipTuple fifo"
  closeConnReq :: "u16 fifo"
  sLookup2txApp_rsp :: "sessionLookupReply fifo"
  portTable2txApp_port_rsp :: "u16 fifo"
  tai_upd_rsp :: "sessionState fifo"
  conEstablishedIn :: "openStatus fifo"
  appOpenConnRsp :: "openStatus fifo"
  txApp2sLookup_req :: "fourTuple fifo"
  tai_upd_req :: "stateQuery fifo"
  txApp2eventEng_mergeEvent :: "event fifo"
  rtTimer2txApp_notification :: "openStatus fifo"

text \<open>
  \<open>tai_upd_req\<close> and \<open>tai_upd_rsp\<close> are the streams \<open>txApp2stateTable_upd_req\<close> and
  \<open>stateTable2txApp_upd_rsp\<close>.  The first test is independent of the state machine.
\<close>

definition tai_open :: "u32 \<Rightarrow> 'a tai_st_scheme \<Rightarrow> 'a tai_st_scheme" where
  "tai_open myIpAddress s =
     (case (appOpenConnReq s, portTable2txApp_port_rsp s) of
        (server_addr # reqs, freePort # ports) \<Rightarrow>
          s\<lparr>appOpenConnReq := reqs, portTable2txApp_port_rsp := ports,
            txApp2sLookup_req := txApp2sLookup_req s @
              [\<lparr>srcIp = myIpAddress, dstIp = reverse32 (ip_address server_addr),
                srcPort = reverse16 freePort, dstPort = reverse16 (ip_port server_addr)\<rparr>]\<rparr>
      | _ \<Rightarrow> s)"

definition tai_idle :: "'a tai_st_scheme \<Rightarrow> 'a tai_st_scheme" where
  "tai_idle s =
     (case sLookup2txApp_rsp s of
        session # rest \<Rightarrow>
          let s = s\<lparr>sLookup2txApp_rsp := rest\<rparr>
          in if slr_hit session
             then s\<lparr>txApp2eventEng_mergeEvent :=
                      txApp2eventEng_mergeEvent s @ [event_simple SYN (slr_sessionID session)],
                    tai_upd_req :=
                      tai_upd_req s @ [stateQuery_write (slr_sessionID session) SYN_SENT]\<rparr>
             else s\<lparr>appOpenConnRsp := appOpenConnRsp s @ [openStatus_mk 0 0]\<rparr>
      | [] \<Rightarrow>
     (case conEstablishedIn s of
        st # rest \<Rightarrow> s\<lparr>conEstablishedIn := rest, appOpenConnRsp := appOpenConnRsp s @ [st]\<rparr>
      | [] \<Rightarrow>
     (case rtTimer2txApp_notification s of
        st # rest \<Rightarrow>
          s\<lparr>rtTimer2txApp_notification := rest, appOpenConnRsp := appOpenConnRsp s @ [st]\<rparr>
      | [] \<Rightarrow>
     (case closeConnReq s of
        c # rest \<Rightarrow>
          s\<lparr>closeConnReq := rest, tai_closeSessionID := c,
            tai_upd_req := tai_upd_req s @ [stateQuery_read c], tai_fsmState := TAI_CLOSE_CONN\<rparr>
      | [] \<Rightarrow> s))))"

definition tai_close :: "'a tai_st_scheme \<Rightarrow> 'a tai_st_scheme" where
  "tai_close s =
     (case tai_upd_rsp s of
        state # rest \<Rightarrow>
          let s = s\<lparr>tai_upd_rsp := rest\<rparr>; c = tai_closeSessionID s;
              s = (if state = ESTABLISHED \<or> state = FIN_WAIT_2 \<or> state = FIN_WAIT_1
                   then s\<lparr>tai_upd_req := tai_upd_req s @ [stateQuery_write c FIN_WAIT_1],
                          txApp2eventEng_mergeEvent :=
                            txApp2eventEng_mergeEvent s @ [event_simple FIN c]\<rparr>
                   else s\<lparr>tai_upd_req := tai_upd_req s @ [stateQuery_write c state]\<rparr>)
          in s\<lparr>tai_fsmState := TAI_IDLE\<rparr>
      | [] \<Rightarrow> s)"

definition tx_app_if :: "u32 \<Rightarrow> 'a tai_st_scheme \<Rightarrow> 'a tai_st_scheme" where
  "tx_app_if myIpAddress s =
     (let s = tai_open myIpAddress s
      in case tai_fsmState s of TAI_IDLE \<Rightarrow> tai_idle s | TAI_CLOSE_CONN \<Rightarrow> tai_close s)"

section \<open>Admitting data\<close>

definition NO_ERROR :: u2 where "NO_ERROR = 0"
definition ERROR_NOCONNCECTION :: u2 where "ERROR_NOCONNCECTION = 1"
definition ERROR_NOSPACE :: u2 where "ERROR_NOSPACE = 2"

datatype tai_states = READ_REQUEST | READ_META

record tasi_st = tai_st +
  tai_state :: tai_states
  tasi_writeMeta :: appTxMeta
  appTxDataReqMetaData :: "appTxMeta fifo"
  tasi_state_rsp :: "sessionState fifo"
  txSar2txApp_upd_rsp :: "txAppTxSarReply fifo"
  appTxDataRsp :: "appTxRsp fifo"
  tasi_state_req :: "u16 fifo"
  txApp2txSar_upd_req :: "txAppTxSarQuery fifo"
  tasi_meta2pkgPushCmd :: "mmCmd fifo"
  txAppStream2event_mergeEvent :: "event fifo"

text \<open>
  \<open>tasi_state_req\<close> and \<open>tasi_state_rsp\<close> are \<open>txApp2stateTable_req\<close> and
  \<open>stateTable2txApp_rsp\<close>.  \<open>pkgAddr(29, 18) = sessionID(13, 0)\<close> assigns 14 bits to a range of 12.
\<close>

definition tasi_pkgAddr :: "u16 \<Rightarrow> u18 \<Rightarrow> u32" where
  "tasi_pkgAddr i mempt =
     put_bits (WINDOW_BITS - 1) 0 mempt (put_bits 29 WINDOW_BITS (bits 13 0 i :: u14) 0)"

definition maxWriteLength :: "txAppTxSarReply \<Rightarrow> u18" where
  "maxWriteLength r = (tar_ackd r - tar_mempt r) - 1"

definition usedLength :: "txAppTxSarReply \<Rightarrow> u18" where
  "usedLength r = tar_mempt r - tar_ackd r"

definition usableWindow :: "txAppTxSarReply \<Rightarrow> u18" where
  "usableWindow r =
     (if tar_min_window r > usedLength r then tar_min_window r - usedLength r else 0)"

definition tasi_decide ::
  "sessionState \<Rightarrow> txAppTxSarReply \<Rightarrow> 'a tasi_st_scheme \<Rightarrow> 'a tasi_st_scheme" where
  "tasi_decide state writeSar s =
     (let i = atm_sessionID (tasi_writeMeta s); len = atm_length (tasi_writeMeta s);
          rsp = (\<lambda>space err. \<lparr>atr_sessionID = i, atr_length = len,
                   atr_remaining_space = ucast (space :: u18), atr_error = err\<rparr>);
          s = s\<lparr>tai_state := READ_REQUEST\<rparr>
      in if state \<noteq> ESTABLISHED
         then s\<lparr>appTxDataRsp :=
                  appTxDataRsp s @ [rsp (maxWriteLength writeSar) ERROR_NOCONNCECTION]\<rparr>
         else if unat len > unat (maxWriteLength writeSar) \<or>
                 unat (usableWindow writeSar) < unat len
         then s\<lparr>appTxDataRsp := appTxDataRsp s @ [rsp (usableWindow writeSar) ERROR_NOSPACE]\<rparr>
         else s\<lparr>tasi_meta2pkgPushCmd := tasi_meta2pkgPushCmd s @
                  [mmCmd_mk (tasi_pkgAddr i (tar_mempt writeSar)) len],
                appTxDataRsp := appTxDataRsp s @ [rsp (maxWriteLength writeSar) NO_ERROR],
                txAppStream2event_mergeEvent := txAppStream2event_mergeEvent s @
                  [event_tx TX i (tar_mempt writeSar) len],
                txApp2txSar_upd_req := txApp2txSar_upd_req s @
                  [txAppTxSarQuery_write i (tar_mempt writeSar + ucast len)]\<rparr>)"

definition tasi_metaLoader :: "'a tasi_st_scheme \<Rightarrow> 'a tasi_st_scheme" where
  "tasi_metaLoader s =
     (case tai_state s of
        READ_REQUEST \<Rightarrow>
          (case appTxDataReqMetaData s of
             m # rest \<Rightarrow>
               s\<lparr>appTxDataReqMetaData := rest, tasi_writeMeta := m,
                 tasi_state_req := tasi_state_req s @ [atm_sessionID m],
                 txApp2txSar_upd_req :=
                   txApp2txSar_upd_req s @ [txAppTxSarQuery_read (atm_sessionID m)],
                 tai_state := READ_META\<rparr>
           | [] \<Rightarrow> s)
      | READ_META \<Rightarrow>
          (case (txSar2txApp_upd_rsp s, tasi_state_rsp s) of
             (writeSar # sars, state # states) \<Rightarrow>
               tasi_decide state writeSar
                 (s\<lparr>txSar2txApp_upd_rsp := sars, tasi_state_rsp := states\<rparr>)
           | _ \<Rightarrow> s))"

section \<open>Buffer pointers, events and write confirmations\<close>

record txAppTableEntry =
  tat_ackd :: u18
  tat_mempt :: u18
  tat_min_window :: u18

datatype fsmStatus = READ_EV | READ_STATUS_1 | READ_STATUS_2

record txapp_st = tasi_st +
  app_table :: "txAppTableEntry list"
  txSar2txApp_ack_push :: "txSarAckPush fifo"
  tash_state :: fsmStatus
  tash_ev :: event
  txApp_txEventCache :: "event fifo"
  txApp2eventEng_setEvent :: "event fifo"
  txBufferWriteStatus :: "mmStatus fifo"
  txApp2txSar_push :: "txAppTxSarPush fifo"

definition txEventMerger :: "'a txapp_st_scheme \<Rightarrow> 'a txapp_st_scheme" where
  "txEventMerger s =
     (case txApp2eventEng_mergeEvent s of
        ev # rest \<Rightarrow>
          s\<lparr>txApp2eventEng_mergeEvent := rest,
            txApp2eventEng_setEvent := txApp2eventEng_setEvent s @ [ev]\<rparr>
      | [] \<Rightarrow>
     (case txAppStream2event_mergeEvent s of
        ev # rest \<Rightarrow>
          let s = s\<lparr>txAppStream2event_mergeEvent := rest,
                    txApp2eventEng_setEvent := txApp2eventEng_setEvent s @ [ev]\<rparr>
          in if ev_type ev = TX
             then s\<lparr>txApp_txEventCache := txApp_txEventCache s @ [ev]\<rparr> else s
      | [] \<Rightarrow> s))"

text \<open>
  \<open>ev.address + ev.length\<close> has 19 bits: it is compared with \<open>BUFFER_SIZE\<close> before it is
  truncated to the 18 bits of the pointer.
\<close>

definition tash_push :: "event \<Rightarrow> txAppTxSarPush" where
  "tash_push ev =
     \<lparr>tap_sessionID = ev_sessionID ev, tap_app = ev_address ev + ucast (ev_length ev)\<rparr>"

definition txAppStatusHandler :: "'a txapp_st_scheme \<Rightarrow> 'a txapp_st_scheme" where
  "txAppStatusHandler s =
     (case tash_state s of
        READ_EV \<Rightarrow>
          (case txApp_txEventCache s of
             ev # rest \<Rightarrow>
               let s = s\<lparr>txApp_txEventCache := rest, tash_ev := ev\<rparr>
               in if ev_type ev = TX then s\<lparr>tash_state := READ_STATUS_1\<rparr> else s
           | [] \<Rightarrow> s)
      | READ_STATUS_1 \<Rightarrow>
          (case txBufferWriteStatus s of
             status # rest \<Rightarrow>
               let s = s\<lparr>txBufferWriteStatus := rest\<rparr>
               in if ms_okay status
                  then if unat (ev_address (tash_ev s)) + unat (ev_length (tash_ev s)) > BUFFER_SIZE
                       then s\<lparr>tash_state := READ_STATUS_2\<rparr>
                       else s\<lparr>txApp2txSar_push := txApp2txSar_push s @ [tash_push (tash_ev s)],
                              tash_state := READ_EV\<rparr>
                  else s
           | [] \<Rightarrow> s)
      | READ_STATUS_2 \<Rightarrow>
          (case txBufferWriteStatus s of
             status # rest \<Rightarrow>
               let s = s\<lparr>txBufferWriteStatus := rest\<rparr>
               in if ms_okay status
                  then s\<lparr>txApp2txSar_push := txApp2txSar_push s @ [tash_push (tash_ev s)],
                         tash_state := READ_EV\<rparr>
                  else s
           | [] \<Rightarrow> s))"

definition tat_ack :: "txSarAckPush \<Rightarrow> txAppTableEntry \<Rightarrow> txAppTableEntry" where
  "tat_ack p e =
     (if sap_init p
      then e\<lparr>tat_ackd := sap_ackd p - 1, tat_mempt := sap_ackd p,
             tat_min_window := sap_min_window p\<rparr>
      else e\<lparr>tat_ackd := sap_ackd p, tat_min_window := sap_min_window p\<rparr>)"

definition tx_app_table :: "'a txapp_st_scheme \<Rightarrow> 'a txapp_st_scheme option" where
  "tx_app_table s =
     (case txSar2txApp_ack_push s of
        p # rest \<Rightarrow> do {
          e \<leftarrow> tget (app_table s) (sap_sessionID p);
          tab \<leftarrow> tset (app_table s) (sap_sessionID p) (tat_ack p e);
          Some (s\<lparr>txSar2txApp_ack_push := rest, app_table := tab\<rparr>)
        }
      | [] \<Rightarrow>
     (case txApp2txSar_upd_req s of
        q # rest \<Rightarrow> do {
          let s = s\<lparr>txApp2txSar_upd_req := rest\<rparr>;
          e \<leftarrow> tget (app_table s) (taq_sessionID q);
          if taq_write q then do {
            tab \<leftarrow> tset (app_table s) (taq_sessionID q) (e\<lparr>tat_mempt := taq_mempt q\<rparr>);
            Some (s\<lparr>app_table := tab\<rparr>)
          } else
            Some (s\<lparr>txSar2txApp_upd_rsp := txSar2txApp_upd_rsp s @
                     [\<lparr>tar_sessionID = taq_sessionID q, tar_ackd = tat_ackd e,
                       tar_mempt = tat_mempt e, tar_min_window = tat_min_window e\<rparr>]\<rparr>)
        }
      | [] \<Rightarrow> Some s))"

text \<open>One cycle of \<open>tx_app_interface\<close>, without the data path (\<open>Pkg_Pusher\<close>).\<close>

definition tx_app_interface :: "u32 \<Rightarrow> 'a txapp_st_scheme \<Rightarrow> 'a txapp_st_scheme option" where
  "tx_app_interface myIpAddress s =
     tx_app_table (tx_app_if myIpAddress (tasi_metaLoader (txAppStatusHandler (txEventMerger s))))"

section \<open>Locking protocol\<close>

text \<open>
  \<open>tx_app_if\<close> and the state table in one cycle, sharing the two streams between them.  The
  environment is everything else: the receive engine, the timers and \<open>tasi_metaLoader\<close> on
  the side of the table; the application, the lookup and the receive engine on the other.
\<close>

definition tai_connect :: "tai_st \<Rightarrow> state_table_st \<Rightarrow> tai_st" where
  "tai_connect a s = a\<lparr>tai_upd_rsp := stateTable2TxApp_upd_rsp s,
     tai_upd_req := txApp2stateTable_upd_req s\<rparr>"

definition tai_return :: "tai_st \<Rightarrow> state_table_st \<Rightarrow> state_table_st" where
  "tai_return a s = s\<lparr>txApp2stateTable_upd_req := tai_upd_req a,
     stateTable2TxApp_upd_rsp := tai_upd_rsp a\<rparr>"

definition tai_cyc :: "u32 \<Rightarrow> tai_st \<times> state_table_st \<Rightarrow> (tai_st \<times> state_table_st) option" where
  "tai_cyc ip x =
     (let a = tx_app_if ip (tai_connect (fst x) (snd x))
      in map_option (Pair a) (state_table (tai_return a (snd x))))"

definition tai_env :: "nat \<Rightarrow> tai_st \<times> state_table_st \<Rightarrow> tai_st \<times> state_table_st \<Rightarrow> bool" where
  "tai_env n x y \<longleftrightarrow> (case (x, y) of ((a, s), (b, t)) \<Rightarrow>
     stt_env n s t \<and> txApp2stateTable_upd_req t = txApp2stateTable_upd_req s \<and>
     stateTable2TxApp_upd_rsp t = stateTable2TxApp_upd_rsp s \<and>
     tai_fsmState b = tai_fsmState a \<and> tai_closeSessionID b = tai_closeSessionID a \<and>
     (\<exists>cs. closeConnReq b = closeConnReq a @ cs \<and> (\<forall>k\<in>set cs. unat k < n)) \<and>
     (\<exists>rs. sLookup2txApp_rsp b = sLookup2txApp_rsp a @ rs \<and>
        (\<forall>r\<in>set rs. slr_hit r \<longrightarrow> unat (slr_sessionID r) < n)))"

text \<open>The requests the table has not executed, the one it holds back first.\<close>

definition tx_pending :: "state_table_st \<Rightarrow> stateQuery list" where
  "tx_pending s = (if stt_txWait s then [stt_txAccess s] else []) @ txApp2stateTable_upd_req s"

definition tai_waits :: "taiFsmStateType \<Rightarrow> u16 \<Rightarrow> state_table_st \<Rightarrow> bool" where
  "tai_waits f c s \<longleftrightarrow>
     (if stateTable2TxApp_upd_rsp s = [] then
        (stt_txSessionLocked s \<longrightarrow> tx_pending s \<noteq> []) \<and>
        (\<exists>ws. (\<forall>q\<in>set ws. sq_write q) \<and>
           tx_pending s = ws @ (case f of TAI_IDLE \<Rightarrow> [] | TAI_CLOSE_CONN \<Rightarrow> [stateQuery_read c]))
      else f = TAI_CLOSE_CONN \<and> tx_pending s = [] \<and> tx_holds s c \<and>
        stateTable2TxApp_upd_rsp s = [stt_table s ! unat c])"

definition tai_inv :: "nat \<Rightarrow> tai_st \<times> state_table_st \<Rightarrow> bool" where
  "tai_inv n x \<longleftrightarrow> (case x of (a, s) \<Rightarrow>
     stt_inv n s \<and> tx_disciplined s \<and> tai_waits (tai_fsmState a) (tai_closeSessionID a) s \<and>
     unat (tai_closeSessionID a) < n \<and> (\<forall>k\<in>set (closeConnReq a). unat k < n) \<and>
     (\<forall>r\<in>set (sLookup2txApp_rsp a). slr_hit r \<longrightarrow> unat (slr_sessionID r) < n))"

text \<open>What a cycle of the table does to the transmit side's requests.\<close>

lemma tx_pending_step:
  assumes "stt_step s t"
  shows "tx_pending t = tx_pending s \<and> stateTable2TxApp_upd_rsp t = stateTable2TxApp_upd_rsp s \<and>
       stt_txSessionLocked t = stt_txSessionLocked s \<and> stt_txSessionID t = stt_txSessionID s
    \<or> (\<exists>q. tx_pending s = q # tx_pending t \<and> (if sq_write q
         then stateTable2TxApp_upd_rsp t = stateTable2TxApp_upd_rsp s \<and> \<not> stt_txSessionLocked t
         else stateTable2TxApp_upd_rsp t =
                stateTable2TxApp_upd_rsp s @ [stt_table t ! unat (sq_sessionID q)] \<and>
              tx_holds t (sq_sessionID q)))"
  using assms
  by (induction rule: stt_step.induct)
    (auto simp: tx_pending_def stt_exec_Some stt_txapp_read_Some stt_take_defs Let_def tx_holds_def)

lemma tai_waits_step:
  assumes "stt_step s t" and "tai_waits f c s"
  shows "tai_waits f c t"
  using tx_pending_step [OF assms(1)]
proof (elim disjE exE conjE)
  assume same: "tx_pending t = tx_pending s"
    "stateTable2TxApp_upd_rsp t = stateTable2TxApp_upd_rsp s"
    "stt_txSessionLocked t = stt_txSessionLocked s" "stt_txSessionID t = stt_txSessionID s"
  then have "tx_holds t = tx_holds s" by (simp add: tx_holds_def fun_eq_iff)
  with same assms(2) tx_held_entry [OF assms(1), of c] show ?thesis
    by (simp add: tai_waits_def split: if_splits)
next
  fix q assume p: "tx_pending s = q # tx_pending t" and "if sq_write q
         then stateTable2TxApp_upd_rsp t = stateTable2TxApp_upd_rsp s \<and> \<not> stt_txSessionLocked t
         else stateTable2TxApp_upd_rsp t =
                stateTable2TxApp_upd_rsp s @ [stt_table t ! unat (sq_sessionID q)] \<and>
              tx_holds t (sq_sessionID q)"
  moreover have "set (tx_pending s) = insert q (set (tx_pending t))" by (simp add: p)
  moreover note assms(2) p
  ultimately show ?thesis
    by (auto simp: tai_waits_def Cons_eq_append_conv stateQuery_read_def
        split: if_splits taiFsmStateType.splits)
qed

text \<open>What a cycle of \<open>tx_app_if\<close> does to them.\<close>

lemma tai_open_frame [simp]:
  "tai_fsmState (tai_open ip a) = tai_fsmState a"
  "tai_closeSessionID (tai_open ip a) = tai_closeSessionID a"
  "tai_upd_req (tai_open ip a) = tai_upd_req a" "tai_upd_rsp (tai_open ip a) = tai_upd_rsp a"
  "closeConnReq (tai_open ip a) = closeConnReq a"
  "sLookup2txApp_rsp (tai_open ip a) = sLookup2txApp_rsp a"
  by (auto simp: tai_open_def split: list.split)

lemma tai_moves:
  assumes "b = tx_app_if ip a"
  obtains (stay) "tai_fsmState b = tai_fsmState a" "tai_closeSessionID b = tai_closeSessionID a"
      "tai_upd_req b = tai_upd_req a" "tai_upd_rsp b = tai_upd_rsp a"
      "set (closeConnReq b) \<subseteq> set (closeConnReq a)"
      "set (sLookup2txApp_rsp b) \<subseteq> set (sLookup2txApp_rsp a)"
  | (syn) r where "tai_fsmState a = TAI_IDLE" "tai_fsmState b = TAI_IDLE"
      "tai_closeSessionID b = tai_closeSessionID a" "r \<in> set (sLookup2txApp_rsp a)" "slr_hit r"
      "tai_upd_req b = tai_upd_req a @ [stateQuery_write (slr_sessionID r) SYN_SENT]"
      "tai_upd_rsp b = tai_upd_rsp a" "closeConnReq b = closeConnReq a"
      "set (sLookup2txApp_rsp b) \<subseteq> set (sLookup2txApp_rsp a)"
  | (ask) c where "tai_fsmState a = TAI_IDLE" "tai_fsmState b = TAI_CLOSE_CONN"
      "tai_closeSessionID b = c" "c \<in> set (closeConnReq a)"
      "tai_upd_req b = tai_upd_req a @ [stateQuery_read c]" "tai_upd_rsp b = tai_upd_rsp a"
      "set (closeConnReq b) \<subseteq> set (closeConnReq a)" "sLookup2txApp_rsp b = sLookup2txApp_rsp a"
  | (answer) v st where "tai_fsmState a = TAI_CLOSE_CONN" "tai_fsmState b = TAI_IDLE"
      "tai_closeSessionID b = tai_closeSessionID a" "tai_upd_rsp a = v # tai_upd_rsp b"
      "tai_upd_req b = tai_upd_req a @ [stateQuery_write (tai_closeSessionID a) st]"
      "closeConnReq b = closeConnReq a" "sLookup2txApp_rsp b = sLookup2txApp_rsp a"
proof (cases "tai_fsmState a")
  case TAI_IDLE
  then have b: "b = tai_idle (tai_open ip a)" using assms by (simp add: tx_app_if_def Let_def)
  show thesis
  proof (cases "sLookup2txApp_rsp a")
    case (Cons r rs)
    then show thesis
      using TAI_IDLE b by (cases "slr_hit r") (auto simp: tai_idle_def Let_def intro: syn stay)
  next
    case Nil
    then show thesis
      using TAI_IDLE b
      by (cases "conEstablishedIn (tai_open ip a)"; cases "closeConnReq a";
          cases "rtTimer2txApp_notification (tai_open ip a)")
        (auto simp: tai_idle_def intro: stay ask)
  qed
next
  case TAI_CLOSE_CONN
  then have b: "b = tai_close (tai_open ip a)" using assms by (simp add: tx_app_if_def Let_def)
  show thesis
  proof (cases "tai_upd_rsp a")
    case (Cons v vs)
    then show thesis
      using TAI_CLOSE_CONN b
      by (intro answer [of v "if v = ESTABLISHED \<or> v = FIN_WAIT_2 \<or> v = FIN_WAIT_1
            then FIN_WAIT_1 else v"]) (auto simp: tai_close_def Let_def)
  qed (use TAI_CLOSE_CONN b in \<open>auto simp: tai_close_def intro: stay\<close>)
qed

lemma follows_snoc:
  "follows l ps \<Longrightarrow> \<forall>q\<in>set ps. sq_write q \<Longrightarrow> l = None \<or> ps \<noteq> [] \<Longrightarrow> follows l (ps @ [q])"
  by (induction l ps rule: follows.induct) auto

text \<open>Between the two calls of a cycle: the requests of \<open>tx_app_if\<close> are in the table's stream.\<close>

lemma tai_return_simps [simp]:
  "tx_pending (tai_return b s) =
     (if stt_txWait s then [stt_txAccess s] else []) @ tai_upd_req b"
  "stateTable2TxApp_upd_rsp (tai_return b s) = tai_upd_rsp b"
  "stt_txSessionLocked (tai_return b s) = stt_txSessionLocked s"
  "stt_txSessionID (tai_return b s) = stt_txSessionID s"
  "stt_txWait (tai_return b s) = stt_txWait s" "stt_table (tai_return b s) = stt_table s"
  "tx_holds (tai_return b s) = tx_holds s"
  by (simp_all add: tai_return_def tx_pending_def tx_holds_def fun_eq_iff)

lemma tx_disciplined_alt: "tx_disciplined s \<longleftrightarrow> (stt_txWait s \<longrightarrow> \<not> stt_txSessionLocked s) \<and>
    follows (if stt_txSessionLocked s then Some (stt_txSessionID s) else None) (tx_pending s)"
  by (simp add: tx_disciplined_def tx_pending_def)

lemma stt_inv_return:
  "stt_inv n s \<Longrightarrow> \<forall>q\<in>set (tai_upd_req b). unat (sq_sessionID q) < n \<Longrightarrow> stt_inv n (tai_return b s)"
  by (simp add: stt_inv_def stt_ids_ok_def stt_exclusive_def rx_holds_def tx_holds_def tai_return_def)

lemma tai_waits_send:
  assumes "tai_upd_req b = txApp2stateTable_upd_req s @ [q]"
    and "tai_upd_rsp b = []" and "stateTable2TxApp_upd_rsp s = []"
    and "tai_waits TAI_IDLE c s" and "tx_disciplined s" and "sq_write q \<or> q = stateQuery_read c'"
  shows "tai_waits (if sq_write q then TAI_IDLE else TAI_CLOSE_CONN) c' (tai_return b s)"
    and "tx_disciplined (tai_return b s)"
proof -
  have p: "tx_pending (tai_return b s) = tx_pending s @ [q]"
    unfolding tai_return_simps by (simp add: assms(1) tx_pending_def)
  obtain ws where ws: "tx_pending s = ws" "\<forall>q\<in>set ws. sq_write q"
    using assms(3,4) by (auto simp: tai_waits_def)
  show "tai_waits (if sq_write q then TAI_IDLE else TAI_CLOSE_CONN) c' (tai_return b s)"
    using assms(2,6) ws(2)
    by (auto simp: tai_waits_def p ws(1) stateQuery_read_def simp del: tai_return_simps(1)
        intro: exI [of _ "ws @ [q]"] exI [of _ ws])
  have "follows l (tx_pending s @ [q])" if "follows l (tx_pending s)" "l = None \<or> tx_pending s \<noteq> []" for l
    using assms(3,4) that by (intro follows_snoc) (auto simp: tai_waits_def)
  with assms(3-5) show "tx_disciplined (tai_return b s)"
    by (auto simp: tx_disciplined_alt p tai_waits_def simp del: tai_return_simps(1))
qed

lemma tai_call:
  assumes inv: "tai_inv n (a, s)" and b: "b = tx_app_if ip (tai_connect a s)"
  shows "tai_inv n (b, tai_return b s)"
proof -
  have i: "stt_inv n s" "tx_disciplined s" "tai_waits (tai_fsmState a) (tai_closeSessionID a) s"
    "unat (tai_closeSessionID a) < n" "\<forall>k\<in>set (closeConnReq a). unat k < n"
    "\<forall>r\<in>set (sLookup2txApp_rsp a). slr_hit r \<longrightarrow> unat (slr_sessionID r) < n"
    using inv by (simp_all add: tai_inv_def)
  have q: "\<forall>q\<in>set (txApp2stateTable_upd_req s). unat (sq_sessionID q) < n"
    using i(1) by (simp add: stt_inv_def stt_ids_ok_def)
  have rsp: "stateTable2TxApp_upd_rsp s = []" if "tai_fsmState a = TAI_IDLE"
    using i(3) that by (auto simp: tai_waits_def split: if_splits)
  from b show ?thesis
  proof (cases rule: tai_moves)
    case stay
    then have "tai_return b s = s" by (simp add: tai_return_def tai_connect_def)
    with stay i show ?thesis by (auto simp: tai_inv_def tai_connect_def)
  next
    case (syn r)
    with i q tai_waits_send [of b s "stateQuery_write (slr_sessionID r) SYN_SENT" _ "tai_closeSessionID a"] rsp
    show ?thesis
      by (auto simp: tai_inv_def tai_connect_def stateQuery_write_def intro!: stt_inv_return)
  next
    case (ask c)
    with i q tai_waits_send [of b s "stateQuery_read c" "tai_closeSessionID a" c] rsp show ?thesis
      by (auto simp: tai_inv_def tai_connect_def stateQuery_read_def intro!: stt_inv_return)
  next
    case (answer v st)
    with i(3) have w: "tx_pending s = []" "tx_holds s (tai_closeSessionID a)" "tai_upd_rsp b = []"
      by (auto simp: tai_waits_def tai_connect_def)
    then have "\<not> stt_txWait s" "txApp2stateTable_upd_req s = []"
      by (auto simp: tx_pending_def split: if_splits)
    with w answer i show ?thesis
      by (auto simp: tai_inv_def tai_connect_def tai_waits_def tx_disciplined_alt stateQuery_write_def
          tx_holds_def intro!: stt_inv_return)
  qed
qed

lemma tai_inv_env: "tai_inv n x \<Longrightarrow> tai_env n x y \<Longrightarrow> tai_inv n y"
proof -
  assume i: "tai_inv n x" and e: "tai_env n x y"
  obtain a s b t where xy: "x = (a, s)" "y = (b, t)" by (cases x, cases y)
  from e obtain p q r u v w z where t: "t = s\<lparr>txApp2stateTable_req := p,
      rxEng2stateTable_upd_req := q, timer2stateTable_releaseState := r, stateTable2rxEng_upd_rsp := u,
      stateTable2txApp_rsp := v, stateTable2sLookup_releaseSession := w\<rparr>"
    by (auto simp: xy tai_env_def stt_env_def)
  have "tx_disciplined t = tx_disciplined s" "tai_waits f c t = tai_waits f c s" for f c
    by (simp_all add: t tx_disciplined_def tai_waits_def tx_pending_def tx_holds_def)
  with i e show ?thesis
    by (auto simp: xy tai_inv_def tai_env_def intro: stt_env_inv)
qed

interpretation tai_sys: clocked "tai_inv n" "tai_env n" tai_cyc for n
proof unfold_locales
  show "tai_inv n y" if "tai_inv n x" "tai_env n x y" for x y
    using that by (rule tai_inv_env)
  fix ip x assume i: "tai_inv n x"
  let ?b = "tx_app_if ip (tai_connect (fst x) (snd x))"
  have c: "tai_inv n (?b, tai_return ?b (snd x))"
    using i by (cases x) (auto intro: tai_call)
  then show "\<exists>y. tai_cyc ip x = Some y"
    using stt.cyc_safe [of n] by (auto simp: tai_cyc_def Let_def tai_inv_def)
  show "tai_inv n y" if cy: "tai_cyc ip x = Some y" for y
  proof -
    obtain t where t: "state_table (tai_return ?b (snd x)) = Some t" "y = (?b, t)"
      using cy by (auto simp: tai_cyc_def Let_def)
    note st = state_table_step [OF t(1)]
    from c show ?thesis unfolding t(2)
      by (auto simp: tai_inv_def stt_inv_def intro: stt_step_ids [OF st] stt_step_exclusive [OF st]
          stt_step_tx_disciplined [OF st] tai_waits_step [OF st])
  qed
qed

definition tai_reset :: tai_st where
  "tai_reset = \<lparr>tai_fsmState = TAI_IDLE, tai_closeSessionID = 0, appOpenConnReq = [],
     closeConnReq = [], sLookup2txApp_rsp = [], portTable2txApp_port_rsp = [], tai_upd_rsp = [],
     conEstablishedIn = [], appOpenConnRsp = [], txApp2sLookup_req = [], tai_upd_req = [],
     txApp2eventEng_mergeEvent = [], rtTimer2txApp_notification = []\<rparr>"

lemma tai_inv_reset: "0 < n \<Longrightarrow> tai_inv n (tai_reset, stt_init n)"
  using stt_inv_init [of n]
  by (simp add: tai_inv_def tai_reset_def tx_disciplined_def tai_waits_def tx_pending_def)
    (simp add: stt_init_def)

text \<open>C17: \<open>tx_app_if\<close> follows the locking protocol.  Whatever the application, the lookup, the
  receive engine and the timers do (for sessions that exist), the transmit side of the state
  table stays disciplined, as the theorem on deadlocks requires; and when the answer to a close
  request arrives, \<open>tx_app_if\<close> waits for it, holds that session, and the answer still is the
  session's state, so the decision between FIN and release is taken on the current state.\<close>

theorem tx_app_if_protocol:
  assumes r: "reach (tai_env n) tai_cyc (tai_reset, stt_init n) (a, s)" and n: "0 < n"
  shows "tx_disciplined s \<and> (\<exists>y. tai_cyc ip (a, s) = Some y) \<and>
    (\<forall>v vs. stateTable2TxApp_upd_rsp s = v # vs \<longrightarrow> vs = [] \<and> tai_fsmState a = TAI_CLOSE_CONN \<and>
       tx_holds s (tai_closeSessionID a) \<and> v = stt_table s ! unat (tai_closeSessionID a))"
proof -
  have "tai_inv n (a, s)" by (rule tai_sys.reach_inv [OF r tai_inv_reset [OF n]])
  moreover have "\<exists>y. tai_cyc ip (a, s) = Some y"
    by (rule tai_sys.reach_safe [OF r tai_inv_reset [OF n]])
  ultimately show ?thesis by (auto simp: tai_inv_def tai_waits_def)
qed

definition tai_ex :: "tai_st \<times> state_table_st" where
  "tai_ex = the (tai_cyc 0 (tai_reset\<lparr>closeConnReq := [1]\<rparr>, stt_init 2))"

theorem tx_app_if_protocol_witness:
  "tai_fsmState (fst tai_ex) = TAI_CLOSE_CONN \<and> tx_holds (snd tai_ex) 1"
proof -
  let ?r = "reach (tai_env 2) tai_cyc (tai_reset, stt_init 2)"
  have "stt_env 2 (stt_init 2) (stt_init 2)"
    unfolding stt_env_def by (rule exI [of _ "[]"])+ (simp add: stt_init_def)
  then have "?r (tai_reset\<lparr>closeConnReq := [1]\<rparr>, stt_init 2)"
    by (intro reach_env [OF reach_init]) (simp add: tai_env_def tai_reset_def)
  then have r: "?r (fst tai_ex, snd tai_ex)"
    unfolding tai_ex_def using tai_sys.reach_next [OF _ tai_inv_reset] by (simp del: split_paired_All)
  moreover have "stateTable2TxApp_upd_rsp (snd tai_ex) = [CLOSED]"
    "tai_closeSessionID (fst tai_ex) = 1" by code_simp+
  ultimately show ?thesis using tx_app_if_protocol [OF r, of 0] by auto
qed

section \<open>The transmit buffer\<close>

text \<open>
  The admission test on natural numbers.  \<open>usedLength\<close> bytes of the ring of \<open>BUFFER_SIZE\<close> are
  in use; one byte stays free.
\<close>

lemma unat_maxWriteLength: "unat (maxWriteLength r) = BUFFER_SIZE - 1 - unat (usedLength r)"
proof -
  have "maxWriteLength r = NOT (usedLength r)"
    by (simp add: maxWriteLength_def usedLength_def not_eq_complement)
  then show ?thesis by (simp add: unat_not BUFFER_SIZE_def)
qed

lemma unat_usableWindow:
  "unat (usableWindow r) = unat (tar_min_window r) - unat (usedLength r)"
proof (cases "tar_min_window r > usedLength r")
  case True
  then show ?thesis by (simp add: usableWindow_def unat_sub)
next
  case False
  then show ?thesis by (simp add: usableWindow_def word_le_nat_alt flip: not_le)
qed

lemma usedLength_less: "unat (usedLength r) < BUFFER_SIZE"
  using unat_less [of "usedLength r"] by (simp add: BUFFER_SIZE_def)

definition tasi_admits :: "sessionState \<Rightarrow> txAppTxSarReply \<Rightarrow> u16 \<Rightarrow> bool" where
  "tasi_admits state r len \<longleftrightarrow> state = ESTABLISHED \<and>
     unat (usedLength r) + unat len < BUFFER_SIZE \<and>
     (len = 0 \<or> unat (usedLength r) + unat len \<le> unat (tar_min_window r))"

lemma tasi_decide_eq:
  "tasi_decide state r s =
    (let i = atm_sessionID (tasi_writeMeta s); len = atm_length (tasi_writeMeta s);
         rsp = (\<lambda>sp err. \<lparr>atr_sessionID = i, atr_length = len,
                  atr_remaining_space = ucast (sp :: u18), atr_error = err\<rparr>);
         s = s\<lparr>tai_state := READ_REQUEST\<rparr>
     in if tasi_admits state r len
        then s\<lparr>appTxDataRsp := appTxDataRsp s @ [rsp (maxWriteLength r) NO_ERROR],
               txApp2txSar_upd_req := txApp2txSar_upd_req s @
                 [txAppTxSarQuery_write i (tar_mempt r + ucast len)],
               tasi_meta2pkgPushCmd :=
                 tasi_meta2pkgPushCmd s @ [mmCmd_mk (tasi_pkgAddr i (tar_mempt r)) len],
               txAppStream2event_mergeEvent :=
                 txAppStream2event_mergeEvent s @ [event_tx TX i (tar_mempt r) len]\<rparr>
        else s\<lparr>appTxDataRsp := appTxDataRsp s @
                 [if state \<noteq> ESTABLISHED then rsp (maxWriteLength r) ERROR_NOCONNCECTION
                  else rsp (usableWindow r) ERROR_NOSPACE]\<rparr>)"
proof -
  let ?len = "atm_length (tasi_writeMeta s)"
  have "(unat ?len > unat (maxWriteLength r) \<or> unat (usableWindow r) < unat ?len) \<longleftrightarrow>
      \<not> (unat (usedLength r) + unat ?len < BUFFER_SIZE \<and>
     (?len = 0 \<or> unat (usedLength r) + unat ?len \<le> unat (tar_min_window r)))"
    using usedLength_less [of r] unat_gt_0 [of ?len]
    unfolding unat_maxWriteLength unat_usableWindow by linarith
  then show ?thesis by (simp add: tasi_decide_def tasi_admits_def Let_def)
qed

text \<open>
  A run is followed for one session \<open>k\<close> on absolute byte positions: \<open>g_top\<close> is the end of the data
  admitted so far, \<open>g_acked\<close> the last acknowledgement on its way to the table, \<open>g_pushes\<close> those
  still in the stream.  Pushes for \<open>k\<close> after the connection is set up acknowledge nothing that
  has not been admitted, and never go backwards.
\<close>

record adm_ghost =
  g_top :: nat
  g_acked :: nat
  g_pushes :: "nat list"

definition adm_len :: "u16 \<Rightarrow> appTxRsp \<Rightarrow> nat" where
  "adm_len k r = (if atr_sessionID r = k \<and> atr_error r = NO_ERROR then unat (atr_length r) else 0)"

definition adm_cyc ::
  "u16 \<Rightarrow> u32 \<Rightarrow> txapp_st \<times> adm_ghost \<Rightarrow> (txapp_st \<times> adm_ghost) option" where
  "adm_cyc k ip x = (case x of (s, g) \<Rightarrow> do {
     t \<leftarrow> tx_app_interface ip s;
     Some (t, g\<lparr>g_top := g_top g +
         (\<Sum>r\<leftarrow>drop (length (appTxDataRsp s)) (appTxDataRsp t). adm_len k r),
       g_pushes := (if txSar2txApp_ack_push s \<noteq> [] \<and>
         sap_sessionID (hd (txSar2txApp_ack_push s)) = k then tl (g_pushes g) else g_pushes g)\<rparr>)
   })"

definition adm_env :: "u16 \<Rightarrow> nat \<Rightarrow> txapp_st \<times> adm_ghost \<Rightarrow> txapp_st \<times> adm_ghost \<Rightarrow> bool" where
  "adm_env k n x y \<longleftrightarrow> (case (x, y) of ((s, g), (t, h)) \<Rightarrow>
     tai_state t = tai_state s \<and> tasi_writeMeta t = tasi_writeMeta s \<and>
     app_table t = app_table s \<and> txApp2txSar_upd_req t = txApp2txSar_upd_req s \<and>
     txSar2txApp_upd_rsp t = txSar2txApp_upd_rsp s \<and> g_top h = g_top g \<and>
     (\<exists>ms. appTxDataReqMetaData t = appTxDataReqMetaData s @ ms \<and>
        (\<forall>m\<in>set ms. unat (atm_sessionID m) < n)) \<and>
     (\<exists>ps as. txSar2txApp_ack_push t = txSar2txApp_ack_push s @ ps \<and>
        (\<forall>p\<in>set ps. unat (sap_sessionID p) < n \<and> (sap_sessionID p = k \<longrightarrow> \<not> sap_init p)) \<and>
        map sap_ackd (filter (\<lambda>p. sap_sessionID p = k) ps) = map of_nat as \<and>
        g_pushes h = g_pushes g @ as \<and> sorted (g_acked g # as @ [g_acked h]) \<and>
        g_acked h \<le> g_top g))"

text \<open>
  The invariant.  \<open>adm_mempt\<close> is the buffer pointer of \<open>k\<close> once the writes under way have been
  applied.
\<close>

definition adm_mempt :: "u16 \<Rightarrow> txAppTxSarQuery list \<Rightarrow> u18 \<Rightarrow> u18" where
  "adm_mempt k = fold (\<lambda>q m. if taq_sessionID q = k then taq_mempt q else m)"

definition adm_ids :: "u16 \<Rightarrow> nat \<Rightarrow> 'a txapp_st_scheme \<Rightarrow> bool" where
  "adm_ids k n s \<longleftrightarrow> length (app_table s) = n \<and> unat k < n \<and>
     (\<forall>m\<in>set (appTxDataReqMetaData s). unat (atm_sessionID m) < n) \<and>
     (tai_state s = READ_META \<longrightarrow> unat (atm_sessionID (tasi_writeMeta s)) < n) \<and>
     (\<forall>q\<in>set (txApp2txSar_upd_req s). unat (taq_sessionID q) < n) \<and>
     (\<forall>p\<in>set (txSar2txApp_ack_push s). unat (sap_sessionID p) < n)"

definition adm_acks :: "u16 \<Rightarrow> nat \<Rightarrow> 'a txapp_st_scheme \<Rightarrow> adm_ghost \<Rightarrow> bool" where
  "adm_acks k a s g \<longleftrightarrow> tat_ackd (app_table s ! unat k) = of_nat a \<and>
     map sap_ackd (filter (\<lambda>p. sap_sessionID p = k) (txSar2txApp_ack_push s)) =
       map of_nat (g_pushes g) \<and>
     (\<forall>p\<in>set (txSar2txApp_ack_push s). sap_sessionID p = k \<longrightarrow> \<not> sap_init p) \<and>
     sorted (a # g_pushes g @ [g_acked g]) \<and> g_acked g \<le> g_top g \<and> g_top g < a + BUFFER_SIZE"

definition adm_loader :: "u16 \<Rightarrow> nat \<Rightarrow> 'a txapp_st_scheme \<Rightarrow> nat \<Rightarrow> bool" where
  "adm_loader k a s w \<longleftrightarrow> (\<exists>ws. (\<forall>q\<in>set ws. taq_write q) \<and>
     adm_mempt k ws (tat_mempt (app_table s ! unat k)) = of_nat w \<and>
     (case tai_state s of
        READ_REQUEST \<Rightarrow> txSar2txApp_upd_rsp s = [] \<and> txApp2txSar_upd_req s = ws
      | READ_META \<Rightarrow>
          (let i = atm_sessionID (tasi_writeMeta s) in
           txSar2txApp_upd_rsp s = [] \<and> txApp2txSar_upd_req s = ws @ [txAppTxSarQuery_read i] \<or>
           txApp2txSar_upd_req s = [] \<and> ws = [] \<and> (\<exists>r. txSar2txApp_upd_rsp s = [r] \<and>
             (i = k \<longrightarrow> tar_mempt r = of_nat w \<and>
               (\<exists>b\<le>a. tar_ackd r = of_nat b \<and> b \<le> w \<and> w < b + BUFFER_SIZE))))))"

definition adm_inv :: "u16 \<Rightarrow> nat \<Rightarrow> txapp_st \<times> adm_ghost \<Rightarrow> bool" where
  "adm_inv k n x \<longleftrightarrow> (case x of (s, g) \<Rightarrow>
     adm_ids k n s \<and> (\<exists>a. adm_acks k a s g \<and> adm_loader k a s (g_top g)))"

text \<open>The processes that touch neither the loader's state nor the table.\<close>

definition adm_same :: "txapp_st \<Rightarrow> txapp_st \<Rightarrow> bool" where
  "adm_same s t \<longleftrightarrow> tai_state t = tai_state s \<and> tasi_writeMeta t = tasi_writeMeta s \<and>
     appTxDataReqMetaData t = appTxDataReqMetaData s \<and> app_table t = app_table s \<and>
     txApp2txSar_upd_req t = txApp2txSar_upd_req s \<and> appTxDataRsp t = appTxDataRsp s \<and>
     txSar2txApp_upd_rsp t = txSar2txApp_upd_rsp s \<and>
     txSar2txApp_ack_push t = txSar2txApp_ack_push s \<and>
     tasi_meta2pkgPushCmd t = tasi_meta2pkgPushCmd s"

lemma adm_same_merger: "adm_same s (txEventMerger s)"
  by (auto simp: adm_same_def txEventMerger_def Let_def split: list.split)

lemma adm_same_status: "adm_same s (txAppStatusHandler s)"
  by (auto simp: adm_same_def txAppStatusHandler_def Let_def split: list.split fsmStatus.split)

lemma adm_same_open: "adm_same s (tai_open ip s)"
  by (auto simp: adm_same_def tai_open_def split: list.split)

lemma adm_same_idle: "adm_same s (tai_idle s)"
  by (auto simp: adm_same_def tai_idle_def Let_def split: list.split)

lemma adm_same_close: "adm_same s (tai_close s)"
  by (auto simp: adm_same_def tai_close_def Let_def split: list.split)

lemma adm_same_trans: "adm_same s t \<Longrightarrow> adm_same t u \<Longrightarrow> adm_same s u"
  by (simp add: adm_same_def)

lemma adm_same_if: "adm_same s (tx_app_if ip s)"
  using adm_same_trans [OF adm_same_open adm_same_idle] adm_same_trans [OF adm_same_open adm_same_close]
  by (auto simp: tx_app_if_def Let_def split: taiFsmStateType.split)

lemma adm_same_inv: "adm_same s t \<Longrightarrow> adm_inv k n (s, g) \<Longrightarrow> adm_inv k n (t, g)"
  unfolding adm_same_def adm_inv_def adm_ids_def adm_acks_def adm_loader_def prod.case
  by (elim conjE) (simp only:)

lemma adm_loader_mono:
  assumes "adm_loader k a s w" and "a \<le> b"
    and "tai_state t = tai_state s" "tasi_writeMeta t = tasi_writeMeta s"
      "txSar2txApp_upd_rsp t = txSar2txApp_upd_rsp s" "txApp2txSar_upd_req t = txApp2txSar_upd_req s"
      "tat_mempt (app_table t ! unat k) = tat_mempt (app_table s ! unat k)"
  shows "adm_loader k b t w"
proof -
  obtain ws where ws: "\<forall>q\<in>set ws. taq_write q"
    "adm_mempt k ws (tat_mempt (app_table s ! unat k)) = of_nat w"
    and c: "case tai_state s of
        READ_REQUEST \<Rightarrow> txSar2txApp_upd_rsp s = [] \<and> txApp2txSar_upd_req s = ws
      | READ_META \<Rightarrow>
          (let i = atm_sessionID (tasi_writeMeta s) in
           txSar2txApp_upd_rsp s = [] \<and> txApp2txSar_upd_req s = ws @ [txAppTxSarQuery_read i] \<or>
           txApp2txSar_upd_req s = [] \<and> ws = [] \<and> (\<exists>r. txSar2txApp_upd_rsp s = [r] \<and>
             (i = k \<longrightarrow> tar_mempt r = of_nat w \<and>
               (\<exists>b\<le>a. tar_ackd r = of_nat b \<and> b \<le> w \<and> w < b + BUFFER_SIZE))))"
    using assms(1) by (auto simp: adm_loader_def)
  show ?thesis
    unfolding adm_loader_def assms(3-7)
    by (intro exI [of _ ws] conjI ws)
      (use c assms(2) order_trans in \<open>fastforce simp: Let_def split: tai_states.splits\<close>)
qed

text \<open>The table.\<close>

lemma adm_loader_write:
  assumes "adm_loader k a s w" and "txApp2txSar_upd_req s = q # qs" and "taq_write q"
    and "unat k < length (app_table s)"
  shows "adm_loader k a (s\<lparr>txApp2txSar_upd_req := qs, app_table := (app_table s)
    [unat (taq_sessionID q) := (app_table s ! unat (taq_sessionID q))\<lparr>tat_mempt := taq_mempt q\<rparr>]\<rparr>) w"
proof -
  have "tat_mempt ((app_table s)[unat (taq_sessionID q) :=
      (app_table s ! unat (taq_sessionID q))\<lparr>tat_mempt := taq_mempt q\<rparr>] ! unat k) =
    (if taq_sessionID q = k then taq_mempt q else tat_mempt (app_table s ! unat k))"
    using assms(4) by auto
  with assms show ?thesis
    by (auto simp: adm_loader_def adm_mempt_def txAppTxSarQuery_read_def Let_def
        Cons_eq_append_conv split: tai_states.splits)
qed

lemma adm_loader_read:
  assumes "adm_loader k a s w" and "txApp2txSar_upd_req s = q # qs" and "\<not> taq_write q"
    and "tat_ackd (app_table s ! unat k) = of_nat a" "a \<le> w" "w < a + BUFFER_SIZE"
  defines "e \<equiv> app_table s ! unat (taq_sessionID q)"
  shows "adm_loader k a (s\<lparr>txApp2txSar_upd_req := qs, txSar2txApp_upd_rsp := txSar2txApp_upd_rsp s @
      [\<lparr>tar_sessionID = taq_sessionID q, tar_ackd = tat_ackd e, tar_mempt = tat_mempt e,
        tar_min_window = tat_min_window e\<rparr>]\<rparr>) w"
  using assms
  by (auto simp: adm_loader_def adm_mempt_def txAppTxSarQuery_read_def Let_def
      Cons_eq_append_conv split: tai_states.splits)

lemma adm_table:
  assumes "adm_inv k n (s, g)"
  shows "\<exists>t. tx_app_table s = Some t \<and> appTxDataRsp t = appTxDataRsp s \<and>
     adm_inv k n (t, g\<lparr>g_pushes := (if txSar2txApp_ack_push s \<noteq> [] \<and>
         sap_sessionID (hd (txSar2txApp_ack_push s)) = k then tl (g_pushes g) else g_pushes g)\<rparr>)"
proof -
  from assms obtain a where ids: "adm_ids k n s" and acks: "adm_acks k a s g"
    and ld: "adm_loader k a s (g_top g)" by (auto simp: adm_inv_def)
  show ?thesis
  proof (cases "txSar2txApp_ack_push s")
    case (Cons p ps)
    show ?thesis
    proof (cases "sap_sessionID p = k")
      case False
      with Cons ids acks show ?thesis
        by (auto simp: tx_app_table_def adm_inv_def adm_ids_def adm_acks_def
            intro!: exI [of _ a] adm_loader_mono [OF ld])
    next
      case True
      with Cons acks obtain b bs where b: "g_pushes g = b # bs" "sap_ackd p = of_nat b"
        by (auto simp: adm_acks_def)
      with acks have ab: "a \<le> b" by (auto simp: adm_acks_def)
      have "\<not> sap_init p" using acks Cons True by (simp add: adm_acks_def)
      have "adm_acks k b (s\<lparr>txSar2txApp_ack_push := ps,
          app_table := (app_table s)[unat k := tat_ack p (app_table s ! unat k)]\<rparr>) (g\<lparr>g_pushes := bs\<rparr>)"
        using acks ids b True Cons ab by (auto simp: adm_acks_def tat_ack_def adm_ids_def)
      moreover have "adm_loader k b (s\<lparr>txSar2txApp_ack_push := ps,
          app_table := (app_table s)[unat k := tat_ack p (app_table s ! unat k)]\<rparr>) (g_top g)"
        using ids by (intro adm_loader_mono [OF ld ab]) (simp_all add: tat_ack_def adm_ids_def True \<open>\<not> sap_init p\<close>)
      moreover note ids Cons True b
      ultimately show ?thesis
        by (auto simp: tx_app_table_def adm_inv_def adm_ids_def)
    qed
  next
    case Nil
    show ?thesis
    proof (cases "txApp2txSar_upd_req s")
      case Nil
      with \<open>txSar2txApp_ack_push s = []\<close> assms show ?thesis by (simp add: tx_app_table_def)
    next
      case (Cons q qs)
      let ?i = "unat (taq_sessionID q)"
      have i: "?i < length (app_table s)" "unat k < length (app_table s)"
        using ids Cons by (auto simp: adm_ids_def)
      have w: "a \<le> g_top g" "g_top g < a + BUFFER_SIZE" "tat_ackd (app_table s ! unat k) = of_nat a"
        using acks by (auto simp: adm_acks_def)
      note ld' = adm_loader_write [OF ld Cons _ i(2)] adm_loader_read [OF ld Cons _ w(3,1,2)]
      show ?thesis
        using Nil Cons i ids acks ld'
        by (cases "taq_write q")
          (auto simp: tx_app_table_def adm_inv_def adm_ids_def adm_acks_def nth_list_update
            intro!: exI [of _ a])
    qed
  qed
qed

text \<open>The loader.\<close>

lemmas adm_error_defs = NO_ERROR_def ERROR_NOCONNCECTION_def ERROR_NOSPACE_def

lemma unat_used_pos:
  assumes "tar_mempt r = of_nat w" "tar_ackd r = of_nat b" "b \<le> w" "w < b + BUFFER_SIZE"
  shows "unat (usedLength r) = w - b"
proof -
  have u: "usedLength r = of_nat (w - b)" using assms by (simp add: usedLength_def of_nat_diff)
  have "w - b < 2 ^ LENGTH(18)" using assms(3,4) by (simp add: BUFFER_SIZE_def)
  then show ?thesis unfolding u by (rule unat_of_nat_eq)
qed

lemma adm_decide:
  fixes v :: sessionState
  assumes ids: "adm_ids k n s" and acks: "adm_acks k a s g" and st: "tai_state s = READ_META"
    and req: "txApp2txSar_upd_req s = []" and rsp: "txSar2txApp_upd_rsp s = []"
    and m: "tat_mempt (app_table s ! unat k) = of_nat (g_top g)"
    and r: "atm_sessionID (tasi_writeMeta s) = k \<Longrightarrow> tar_mempt r = of_nat (g_top g) \<and>
      (\<exists>b\<le>a. tar_ackd r = of_nat b \<and> b \<le> g_top g \<and> g_top g < b + BUFFER_SIZE)"
  defines "i \<equiv> atm_sessionID (tasi_writeMeta s)" and "len \<equiv> atm_length (tasi_writeMeta s)"
  defines "h \<equiv> g\<lparr>g_top := g_top g + (if i = k \<and> tasi_admits v r len then unat len else 0)\<rparr>"
  shows "adm_ids k n (tasi_decide v r s)" "adm_acks k a (tasi_decide v r s) h"
    "adm_loader k a (tasi_decide v r s) (g_top h)"
proof -
  show "adm_ids k n (tasi_decide v r s)"
    using ids st by (auto simp: adm_ids_def tasi_decide_eq Let_def txAppTxSarQuery_write_def)
  have fit: "g_top h < a + BUFFER_SIZE"
  proof (cases "i = k \<and> tasi_admits v r len")
    case True
    with r obtain b where b: "b \<le> a" "tar_ackd r = of_nat b" "b \<le> g_top g"
      "g_top g < b + BUFFER_SIZE" "tar_mempt r = of_nat (g_top g)" by (auto simp: i_def)
    have "unat (usedLength r) = g_top g - b" by (rule unat_used_pos) (use b in simp_all)
    with True have "g_top g - b + unat len < BUFFER_SIZE" by (simp add: tasi_admits_def)
    with True b(1,3) show ?thesis by (simp add: h_def)
  qed (use acks in \<open>auto simp: h_def adm_acks_def\<close>)
  with acks show "adm_acks k a (tasi_decide v r s) h"
    by (auto simp: adm_acks_def tasi_decide_eq Let_def h_def)
  show "adm_loader k a (tasi_decide v r s) (g_top h)"
    using req rsp m r
    by (auto simp: adm_loader_def adm_mempt_def tasi_decide_eq Let_def txAppTxSarQuery_write_def
        h_def i_def len_def)
qed

lemma adm_decide_rsp:
  "(\<Sum>x\<leftarrow>drop (length (appTxDataRsp s)) (appTxDataRsp (tasi_decide v r s)). adm_len k x) =
   (if atm_sessionID (tasi_writeMeta s) = k \<and> tasi_admits v r (atm_length (tasi_writeMeta s))
    then unat (atm_length (tasi_writeMeta s)) else 0)"
  by (auto simp: tasi_decide_eq Let_def adm_len_def adm_error_defs)

lemma adm_load:
  assumes "adm_inv k n (s, g)"
  shows "adm_inv k n (tasi_metaLoader s, g\<lparr>g_top := g_top g +
     (\<Sum>r\<leftarrow>drop (length (appTxDataRsp s)) (appTxDataRsp (tasi_metaLoader s)). adm_len k r)\<rparr>)"
proof -
  from assms obtain a where ids: "adm_ids k n s" and acks: "adm_acks k a s g"
    and ld: "adm_loader k a s (g_top g)" by (auto simp: adm_inv_def)
  show ?thesis
  proof (cases "tai_state s")
    case READ_REQUEST
    show ?thesis
    proof (cases "appTxDataReqMetaData s")
      case Nil
      with READ_REQUEST assms show ?thesis by (simp add: tasi_metaLoader_def)
    next
      case (Cons m ms)
      with READ_REQUEST ids acks ld show ?thesis
        by (auto simp: tasi_metaLoader_def adm_inv_def adm_ids_def adm_acks_def adm_loader_def
            txAppTxSarQuery_read_def Let_def intro!: exI [of _ a])
    qed
  next
    case READ_META
    show ?thesis
    proof (cases "txSar2txApp_upd_rsp s = [] \<or> tasi_state_rsp s = []")
      case True
      then have "tasi_metaLoader s = s"
        using READ_META by (auto simp: tasi_metaLoader_def split: list.split)
      with assms show ?thesis by simp
    next
      case False
      then obtain v vs r where v: "tasi_state_rsp s = v # vs" "txSar2txApp_upd_rsp s = [r]"
        using ld READ_META by (auto simp: adm_loader_def Let_def neq_Nil_conv)
      let ?s = "s\<lparr>txSar2txApp_upd_rsp := [], tasi_state_rsp := vs\<rparr>"
      have t: "tasi_metaLoader s = tasi_decide v r ?s"
        using READ_META v by (simp add: tasi_metaLoader_def)
      have "adm_ids k n ?s" "adm_acks k a ?s g" using ids acks by (simp_all add: adm_ids_def adm_acks_def)
      from adm_decide [OF this, of r v] ld READ_META v show ?thesis
        unfolding t adm_decide_rsp [where s = ?s, simplified] adm_inv_def prod.case
        by (intro conjI exI [of _ a]) (auto simp: adm_loader_def adm_mempt_def Let_def)
    qed
  qed
qed

lemma adm_load_cmd:
  assumes inv: "adm_inv k n (s, g)"
    and d: "d = (\<Sum>r\<leftarrow>drop (length (appTxDataRsp s)) (appTxDataRsp (tasi_metaLoader s)). adm_len k r)"
    and "d \<noteq> 0"
  shows "tasi_meta2pkgPushCmd (tasi_metaLoader s) = tasi_meta2pkgPushCmd s @
      [mmCmd_mk (tasi_pkgAddr k (of_nat (g_top g))) (of_nat d)]"
proof (cases "tai_state s")
  case READ_REQUEST
  then show ?thesis using assms by (auto simp: tasi_metaLoader_def split: list.splits)
next
  case READ_META
  show ?thesis
  proof (cases "txSar2txApp_upd_rsp s = [] \<or> tasi_state_rsp s = []")
    case True
    then have "tasi_metaLoader s = s"
      using READ_META by (auto simp: tasi_metaLoader_def split: list.split)
    with assms show ?thesis by simp
  next
    case False
    then obtain v vs r where v: "tasi_state_rsp s = v # vs" "txSar2txApp_upd_rsp s = [r]"
      using inv READ_META by (auto simp: adm_inv_def adm_loader_def Let_def neq_Nil_conv)
    let ?s = "s\<lparr>txSar2txApp_upd_rsp := [], tasi_state_rsp := vs\<rparr>"
    have t: "tasi_metaLoader s = tasi_decide v r ?s"
      using READ_META v by (simp add: tasi_metaLoader_def)
    have a: "atm_sessionID (tasi_writeMeta s) = k" "tasi_admits v r (atm_length (tasi_writeMeta s))"
      "d = unat (atm_length (tasi_writeMeta s))"
      using d \<open>d \<noteq> 0\<close> unfolding t adm_decide_rsp [where s = ?s, simplified]
      by (auto split: if_splits)
    moreover have "tar_mempt r = of_nat (g_top g)"
      using inv READ_META v a(1) by (auto simp: adm_inv_def adm_loader_def Let_def)
    ultimately show ?thesis by (simp add: t tasi_decide_eq Let_def)
  qed
qed

lemma tx_app_table_frame: "tx_app_table s = Some t \<Longrightarrow>
    appTxDataRsp t = appTxDataRsp s \<and> tasi_meta2pkgPushCmd t = tasi_meta2pkgPushCmd s"
  by (cases "txSar2txApp_ack_push s"; cases "txApp2txSar_upd_req s")
    (auto simp: tx_app_table_def tget_def tset_def Let_def split: if_splits)

lemma adm_cyc_inv:
  assumes "adm_inv k n (s, g)"
  shows "\<exists>t h. adm_cyc k ip (s, g) = Some (t, h) \<and> adm_inv k n (t, h) \<and> g_acked h = g_acked g"
proof -
  let ?a = "txAppStatusHandler (txEventMerger s)"
  let ?b = "tasi_metaLoader ?a" let ?c = "tx_app_if ip ?b"
  have sa: "adm_same s ?a" by (rule adm_same_trans [OF adm_same_merger adm_same_status])
  have sc: "adm_same ?b ?c" by (rule adm_same_if)
  let ?g = "g\<lparr>g_top := g_top g +
     (\<Sum>r\<leftarrow>drop (length (appTxDataRsp ?a)) (appTxDataRsp ?b). adm_len k r)\<rparr>"
  have "adm_inv k n (?c, ?g)"
    by (rule adm_same_inv [OF sc adm_load [OF adm_same_inv [OF sa assms]]])
  from adm_table [OF this] obtain t where t: "tx_app_table ?c = Some t"
    "appTxDataRsp t = appTxDataRsp ?c" "adm_inv k n (t, ?g\<lparr>g_pushes := (if txSar2txApp_ack_push ?c \<noteq> [] \<and>
         sap_sessionID (hd (txSar2txApp_ack_push ?c)) = k then tl (g_pushes ?g) else g_pushes ?g)\<rparr>)" by blast
  have "txSar2txApp_ack_push ?b = txSar2txApp_ack_push ?a"
    by (auto simp: tasi_metaLoader_def tasi_decide_def Let_def split: tai_states.split list.split)
  then have p: "txSar2txApp_ack_push ?c = txSar2txApp_ack_push s"
    "appTxDataRsp ?c = appTxDataRsp ?b" "appTxDataRsp ?a = appTxDataRsp s"
    using sa sc by (simp_all add: adm_same_def)
  from t(3) show ?thesis
    unfolding p
    by (cases "txSar2txApp_ack_push s \<noteq> [] \<and> sap_sessionID (hd (txSar2txApp_ack_push s)) = k")
      (simp_all add: adm_cyc_def tx_app_interface_def t(1,2) p del: de_Morgan_conj)
qed

lemma adm_inv_env: "adm_inv k n x \<Longrightarrow> adm_env k n x y \<Longrightarrow> adm_inv k n y"
proof -
  assume i: "adm_inv k n x" and e: "adm_env k n x y"
  obtain s g t h where xy: "x = (s, g)" "y = (t, h)" by (cases x, cases y)
  from i obtain a where a: "adm_ids k n s" "adm_acks k a s g" "adm_loader k a s (g_top g)"
    by (auto simp: xy adm_inv_def)
  have f: "tai_state t = tai_state s" "tasi_writeMeta t = tasi_writeMeta s"
    "app_table t = app_table s" "txApp2txSar_upd_req t = txApp2txSar_upd_req s"
    "txSar2txApp_upd_rsp t = txSar2txApp_upd_rsp s" "g_top h = g_top g"
    using e by (simp_all add: xy adm_env_def)
  have "adm_loader k a t (g_top h)" unfolding f(6) by (rule adm_loader_mono [OF a(3)]) (simp_all add: f)
  moreover have "adm_ids k n t" using a(1) e by (auto simp: xy adm_env_def adm_ids_def f)
  moreover have "adm_acks k a t h"
  proof -
    obtain ps bs where "txSar2txApp_ack_push t = txSar2txApp_ack_push s @ ps"
      "\<forall>p\<in>set ps. sap_sessionID p = k \<longrightarrow> \<not> sap_init p"
      "map sap_ackd (filter (\<lambda>p. sap_sessionID p = k) ps) = map of_nat bs"
      "g_pushes h = g_pushes g @ bs" "sorted (g_acked g # bs @ [g_acked h])" "g_acked h \<le> g_top g"
      using e by (auto simp: xy adm_env_def)
    with a(2) show ?thesis by (auto simp: adm_acks_def f sorted_append intro: order_trans)
  qed
  ultimately show ?thesis by (auto simp: xy adm_inv_def)
qed

interpretation adm: clocked "adm_inv k n" "adm_env k n" "adm_cyc k" for k n
proof unfold_locales
  show "adm_inv k n y" if "adm_inv k n x" "adm_env k n x y" for x y
    using that by (rule adm_inv_env)
  show "adm_inv k n y" if "adm_inv k n x" "adm_cyc k i x = Some y" for x i y
    using that adm_cyc_inv [of k n "fst x" "snd x" i] by auto
  show "\<exists>y. adm_cyc k i x = Some y" if "adm_inv k n x" for x i
    using that adm_cyc_inv [of k n "fst x" "snd x" i] by auto
qed

text \<open>The connection \<open>k\<close> has just been set up; nothing is under way.\<close>

definition adm_start :: "u16 \<Rightarrow> nat \<Rightarrow> txapp_st \<times> adm_ghost \<Rightarrow> bool" where
  "adm_start k n x \<longleftrightarrow> (case x of (s, g) \<Rightarrow>
     length (app_table s) = n \<and> unat k < n \<and> tai_state s = READ_REQUEST \<and>
     appTxDataReqMetaData s = [] \<and> txApp2txSar_upd_req s = [] \<and> txSar2txApp_upd_rsp s = [] \<and>
     txSar2txApp_ack_push s = [] \<and> g_pushes g = [] \<and> g_top g = g_acked g + 1 \<and>
     (\<exists>p e. sap_init p \<and> sap_ackd p = of_nat (g_top g) \<and> app_table s ! unat k = tat_ack p e))"

lemma adm_start_inv: "adm_start k n x \<Longrightarrow> adm_inv k n x"
  by (auto simp: adm_start_def adm_inv_def adm_ids_def adm_acks_def adm_loader_def adm_mempt_def
      tat_ack_def BUFFER_SIZE_def intro!: exI [of _ "g_acked (snd x)"])

text \<open>C18: unacknowledged data is never overwritten.  Counted in bytes from the start of the
  connection, the end of the admitted data never gets \<open>BUFFER_SIZE\<close> ahead of the last
  acknowledgement, however late that reaches the table and whatever other sessions do; and data
  that is admitted is written right behind the data before it, at its position modulo the size
  of the ring.\<close>

theorem tx_buffer_no_overwrite:
  assumes "adm_start k n x0" and r: "reach (adm_env k n) (adm_cyc k) x0 (s, g)"
  shows "g_acked g \<le> g_top g \<and> g_top g < g_acked g + BUFFER_SIZE \<and>
    (\<exists>t h. adm_cyc k ip (s, g) = Some (t, h) \<and> (g_top h \<noteq> g_top g \<longrightarrow>
       tasi_meta2pkgPushCmd t = tasi_meta2pkgPushCmd s @
         [mmCmd_mk (tasi_pkgAddr k (of_nat (g_top g))) (of_nat (g_top h - g_top g))]))"
proof -
  have inv: "adm_inv k n (s, g)" by (rule adm.reach_inv [OF r adm_start_inv [OF assms(1)]])
  let ?a = "txAppStatusHandler (txEventMerger s)"
  let ?c = "tx_app_if ip (tasi_metaLoader ?a)"
  have sa: "adm_same s ?a" by (rule adm_same_trans [OF adm_same_merger adm_same_status])
  note cmd = adm_load_cmd [OF adm_same_inv [OF sa inv] HOL.refl]
  have sc: "adm_same (tasi_metaLoader ?a) ?c" by (rule adm_same_if)
  obtain t h where t: "adm_cyc k ip (s, g) = Some (t, h)" using adm_cyc_inv [OF inv] by blast
  then have tab: "tx_app_table ?c = Some t" "g_top h = g_top g +
      (\<Sum>r\<leftarrow>drop (length (appTxDataRsp s)) (appTxDataRsp t). adm_len k r)"
    by (auto simp: adm_cyc_def tx_app_interface_def bind_eq_Some_conv)
  note fr = tx_app_table_frame [OF tab(1)]
  from inv have "g_acked g \<le> g_top g \<and> g_top g < g_acked g + BUFFER_SIZE"
    by (auto simp: adm_inv_def adm_acks_def)
  with t tab(2) fr cmd sa sc show ?thesis by (simp add: adm_same_def)
qed

definition adm_ex0 :: "txapp_st \<times> adm_ghost" where
  "adm_ex0 = (\<lparr>tai_fsmState = TAI_IDLE, tai_closeSessionID = 0, appOpenConnReq = [],
     closeConnReq = [], sLookup2txApp_rsp = [], portTable2txApp_port_rsp = [], tai_upd_rsp = [],
     conEstablishedIn = [], appOpenConnRsp = [], txApp2sLookup_req = [], tai_upd_req = [],
     txApp2eventEng_mergeEvent = [], rtTimer2txApp_notification = [],
     tai_state = READ_REQUEST, tasi_writeMeta = \<lparr>atm_sessionID = 0, atm_length = 0\<rparr>,
     appTxDataReqMetaData = [], tasi_state_rsp = [], txSar2txApp_upd_rsp = [], appTxDataRsp = [],
     tasi_state_req = [], txApp2txSar_upd_req = [], tasi_meta2pkgPushCmd = [],
     txAppStream2event_mergeEvent = [],
     app_table = [\<lparr>tat_ackd = 0, tat_mempt = 1, tat_min_window = 0x8000\<rparr>],
     txSar2txApp_ack_push = [], tash_state = READ_EV, tash_ev = event_simple TX 0,
     txApp_txEventCache = [], txApp2eventEng_setEvent = [], txBufferWriteStatus = [],
     txApp2txSar_push = []\<rparr>, \<lparr>g_top = 1, g_acked = 0, g_pushes = []\<rparr>)"

definition adm_ex1 :: "txapp_st \<times> adm_ghost" where
  "adm_ex1 = ((fst adm_ex0)\<lparr>appTxDataReqMetaData := [\<lparr>atm_sessionID = 0, atm_length = 100\<rparr>]\<rparr>,
     snd adm_ex0)"

definition adm_ex2 :: "txapp_st \<times> adm_ghost" where
  "adm_ex2 = the (adm_cyc 0 0 adm_ex1)"

definition adm_ex3 :: "txapp_st \<times> adm_ghost" where
  "adm_ex3 = ((fst adm_ex2)\<lparr>tasi_state_rsp := [ESTABLISHED]\<rparr>, snd adm_ex2)"

lemma adm_env_refl: "g_acked g \<le> g_top g \<Longrightarrow> g_pushes g = bs \<Longrightarrow>
    \<forall>m\<in>set ms. unat (atm_sessionID m) < n \<Longrightarrow>
    adm_env k n (s, g)
      (s\<lparr>appTxDataReqMetaData := appTxDataReqMetaData s @ ms, tasi_state_rsp := v\<rparr>, g)"
  by (auto simp: adm_env_def)

lemma adm_ex_start: "adm_start 0 1 adm_ex0"
  by (auto simp: adm_start_def adm_ex0_def tat_ack_def
      intro!: exI [of _ "\<lparr>sap_sessionID = 0, sap_ackd = 1, sap_min_window = 0x8000, sap_init = True\<rparr>"])

lemmas adm_run_defs = adm_cyc_def tx_app_interface_def txEventMerger_def txAppStatusHandler_def
  tasi_metaLoader_def tx_app_if_def tai_open_def tai_idle_def tx_app_table_def Let_def

lemma adm_ex2_eq: "adm_ex2 = (fst adm_ex0\<lparr>tai_state := READ_META,
    tasi_writeMeta := \<lparr>atm_sessionID = 0, atm_length = 100\<rparr>, tasi_state_req := [0],
    txSar2txApp_upd_rsp := [\<lparr>tar_sessionID = 0, tar_ackd = 0, tar_mempt = 1,
       tar_min_window = 0x8000\<rparr>]\<rparr>, snd adm_ex0)"
  by (simp add: adm_ex2_def adm_ex1_def adm_ex0_def adm_run_defs txAppTxSarQuery_read_def)

lemma adm_ex_reach: "reach (adm_env 0 1) (adm_cyc 0) adm_ex0 (fst adm_ex3, snd adm_ex3)"
proof -
  let ?r = "reach (adm_env 0 1) (adm_cyc 0) adm_ex0"
  have "adm_env 0 1 adm_ex0 adm_ex1"
    using adm_env_refl [of "snd adm_ex0" "[]" "[\<lparr>atm_sessionID = 0, atm_length = 100\<rparr>]" 1 0 "fst adm_ex0" "[]"]
    by (simp add: adm_ex1_def adm_ex0_def)
  then have "?r adm_ex1" by (rule reach_env [OF reach_init])
  then have "?r adm_ex2"
    unfolding adm_ex2_def by (rule adm.reach_next [OF _ adm_start_inv [OF adm_ex_start]])
  moreover have "snd adm_ex2 = snd adm_ex0" by (simp add: adm_ex2_eq)
  then have "adm_env 0 1 (fst adm_ex2, snd adm_ex2) adm_ex3"
    using adm_env_refl [of "snd adm_ex2" "[]" "[]" 1 0 "fst adm_ex2" "[ESTABLISHED]"]
    by (simp add: adm_ex3_def adm_ex0_def)
  ultimately show ?thesis by (auto intro: reach_env)
qed

theorem tx_buffer_no_overwrite_witness:
  "\<exists>t h. adm_cyc 0 0 adm_ex3 = Some (t, h) \<and> g_top h = 101 \<and>
     tasi_meta2pkgPushCmd t = [mmCmd_mk (tasi_pkgAddr 0 1) 100]"
proof -
  have e: "fst adm_ex3 = fst adm_ex2\<lparr>tasi_state_rsp := [ESTABLISHED]\<rparr>" "snd adm_ex3 = snd adm_ex0"
    by (simp_all add: adm_ex3_def adm_ex2_eq)
  have v: "tasi_meta2pkgPushCmd (fst adm_ex3) = []" "g_top (snd adm_ex3) = 1"
    unfolding e by (simp_all add: adm_ex2_eq adm_ex0_def)
  have c: "map_option (g_top \<circ> snd) (adm_cyc 0 0 (fst adm_ex3, snd adm_ex3)) = Some 101"
    unfolding e by (simp add: adm_ex2_eq adm_ex0_def adm_run_defs tasi_decide_def maxWriteLength_def
        usedLength_def usableWindow_def adm_len_def NO_ERROR_def txAppTxSarQuery_write_def)
  obtain t h where t: "adm_cyc 0 0 (fst adm_ex3, snd adm_ex3) = Some (t, h)"
    "g_top h \<noteq> 1 \<longrightarrow> tasi_meta2pkgPushCmd t =
       [mmCmd_mk (tasi_pkgAddr 0 (of_nat 1)) (of_nat (g_top h - 1))]"
    using tx_buffer_no_overwrite [OF adm_ex_start adm_ex_reach, of 0] unfolding v by auto
  from c t(1) have "g_top h = 101" by simp
  with t show ?thesis by (intro exI [of _ t] exI [of _ h]) simp
qed

text \<open>C19: the admission test.  Every request gets exactly one answer, for its own session and
  length.  It is accepted if and only if the session is ESTABLISHED, the data fits into the ring
  with one byte to spare, and it is empty (an empty request ignores the window) or fits into the peer's
  window; then the write
  command, the event for the transmit engine and the new buffer pointer are issued, else none of
  them.  The answer repeats the length of the request, also when it is refused (a comment of the code
  speaks of -1: it is the error field that tells).  It reports the space that is left: the free part of the ring, or of the window
  when that is what is missing.\<close>

theorem tx_admission:
  assumes "tai_state s = READ_META" and "tasi_state_rsp s = v # vs" and "txSar2txApp_upd_rsp s = r # rs"
  defines "i \<equiv> atm_sessionID (tasi_writeMeta s)" and "len \<equiv> atm_length (tasi_writeMeta s)"
  defines "used \<equiv> unat (tar_mempt r - tar_ackd r)" and "t \<equiv> tasi_metaLoader s"
  shows "tai_state t = READ_REQUEST \<and> (\<exists>rsp. appTxDataRsp t = appTxDataRsp s @ [rsp] \<and>
    atr_sessionID rsp = i \<and> atr_length rsp = len \<and>
    (atr_error rsp = ERROR_NOCONNCECTION \<longleftrightarrow> v \<noteq> ESTABLISHED) \<and>
    (atr_error rsp = NO_ERROR \<longleftrightarrow> v = ESTABLISHED \<and> used + unat len < BUFFER_SIZE \<and>
       (len = 0 \<or> used + unat len \<le> unat (tar_min_window r))) \<and>
    unat (atr_remaining_space rsp) = (if atr_error rsp = ERROR_NOSPACE
       then unat (tar_min_window r) - used else BUFFER_SIZE - 1 - used) \<and>
    (if atr_error rsp = NO_ERROR
     then tasi_meta2pkgPushCmd t =
            tasi_meta2pkgPushCmd s @ [mmCmd_mk (tasi_pkgAddr i (tar_mempt r)) len] \<and>
          txAppStream2event_mergeEvent t =
            txAppStream2event_mergeEvent s @ [event_tx TX i (tar_mempt r) len] \<and>
          txApp2txSar_upd_req t = txApp2txSar_upd_req s @
            [txAppTxSarQuery_write i (tar_mempt r + ucast len)]
     else tasi_meta2pkgPushCmd t = tasi_meta2pkgPushCmd s \<and>
          txAppStream2event_mergeEvent t = txAppStream2event_mergeEvent s \<and>
          txApp2txSar_upd_req t = txApp2txSar_upd_req s))"
proof -
  let ?s = "s\<lparr>txSar2txApp_upd_rsp := rs, tasi_state_rsp := vs\<rparr>"
  have t: "t = tasi_decide v r ?s" using assms(1-3) by (simp add: t_def tasi_metaLoader_def)
  have u: "used = unat (usedLength r)" by (simp add: used_def usedLength_def)
  have w: "unat (ucast (x :: u18) :: u30) = unat x" for x
    by (simp add: unsigned_ucast_eq take_bit_nat_eq_self_iff)
      (rule less_le_trans [OF unat_less], simp)
  show ?thesis
    unfolding t u tasi_decide_eq
    by (auto simp: Let_def tasi_admits_def adm_error_defs w unat_maxWriteLength unat_usableWindow
        i_def len_def)
qed

theorem tx_admission_witness:
  "\<exists>rsp. appTxDataRsp (tasi_metaLoader (fst adm_ex3)) = [rsp] \<and> atr_error rsp = NO_ERROR \<and>
     unat (atr_remaining_space rsp) = 262142"
proof -
  have e: "fst adm_ex3 = fst adm_ex2\<lparr>tasi_state_rsp := [ESTABLISHED]\<rparr>"
    by (simp add: adm_ex3_def)
  have v: "tai_state (fst adm_ex3) = READ_META" "tasi_state_rsp (fst adm_ex3) = [ESTABLISHED]"
    "txSar2txApp_upd_rsp (fst adm_ex3) =
      [\<lparr>tar_sessionID = 0, tar_ackd = 0, tar_mempt = 1, tar_min_window = 0x8000\<rparr>]"
    "appTxDataRsp (fst adm_ex3) = []" "atm_length (tasi_writeMeta (fst adm_ex3)) = 100"
    unfolding e by (simp_all add: adm_ex2_eq adm_ex0_def)
  from tx_admission [OF v(1-3)] show ?thesis
    by (auto simp: v(4,5) BUFFER_SIZE_eq NO_ERROR_def ERROR_NOSPACE_def)
qed

lemma bit_tasi_pkgAddr:
  "bit (tasi_pkgAddr i m) b \<longleftrightarrow> b < 30 \<and> (if b < 18 then bit m b else bit i (b - 18))"
  by (auto simp: tasi_pkgAddr_def bit_put_bits bit_bits)

lemma tasi_pkgAddr_low: "take_bit 18 (tasi_pkgAddr i m) = ucast m"
  by (intro bit_word_eqI) (auto simp: bit_simps bit_tasi_pkgAddr dest: bit_imp_le_length)

lemma bits_eq_mod:
  fixes i j :: u16
  shows "(\<forall>b < 12. bit i b \<longleftrightarrow> bit j b) \<longleftrightarrow> unat i mod 4096 = unat j mod 4096"
proof -
  have "(\<forall>b < 12. bit i b \<longleftrightarrow> bit j b) \<longleftrightarrow> take_bit 12 (unat i) = take_bit 12 (unat j)"
    by (auto simp: bit_eq_iff bit_take_bit_iff bit_unsigned_iff)
  also have "\<dots> \<longleftrightarrow> unat i mod 4096 = unat j mod 4096" by (simp add: take_bit_eq_mod)
  finally show ?thesis .
qed

text \<open>C20: where a session's bytes are.  The address of a byte determines its position in the ring
  and the session modulo 4096: the transmit buffers of two sessions are disjoint exactly if their
  identifiers differ in the lower twelve bits, although the code takes fourteen.\<close>

theorem tx_buffer_address:
  "tasi_pkgAddr i m = tasi_pkgAddr j m' \<longleftrightarrow> m = m' \<and> unat i mod 4096 = unat j mod 4096"
proof
  assume eq: "tasi_pkgAddr i m = tasi_pkgAddr j m'"
  have "\<forall>b < 12. bit i b \<longleftrightarrow> bit j b"
  proof (intro allI impI)
    fix b :: nat assume "b < 12"
    with arg_cong [OF eq, where f = "\<lambda>w. bit w (b + 18)"] show "bit i b \<longleftrightarrow> bit j b"
      by (simp add: bit_tasi_pkgAddr)
  qed
  moreover have "m = m'"
  proof (rule bit_word_eqI)
    fix b :: nat assume "b < LENGTH(18)"
    with arg_cong [OF eq, where f = "\<lambda>w. bit w b"] show "bit m b \<longleftrightarrow> bit m' b"
      by (simp add: bit_tasi_pkgAddr)
  qed
  ultimately show "m = m' \<and> unat i mod 4096 = unat j mod 4096" by (simp add: bits_eq_mod)
next
  assume "m = m' \<and> unat i mod 4096 = unat j mod 4096"
  then have "m = m'" and b: "\<forall>b < 12. bit i b \<longleftrightarrow> bit j b" by (simp_all add: bits_eq_mod)
  then show "tasi_pkgAddr i m = tasi_pkgAddr j m'"
    by (intro bit_word_eqI) (auto simp: bit_tasi_pkgAddr)
qed

end
