(* ===== verification/Axi_Utils.thy ===== *)
theory Axi_Utils
  imports Prelude
begin

text \<open>
  \<open>axi_utils.hpp\<close> and \<open>axi_utils.cpp\<close>: the words of a packet stream and the processes that
  realign, resize, merge and split packets.

  A word carries \<open>W\<close> data bits, one \<open>keep\<close> bit per byte and the \<open>last\<close> flag of the packet.  The
  specification of all of them is on bytes: \<open>cells\<close> is what a word says about each of its bytes,
  and \<open>carries bs ws\<close> that the words \<open>ws\<close> are the packet with the bytes \<open>bs\<close>.
\<close>

section \<open>Words\<close>

record ('d, 'k) net_axis =
  na_data :: 'd
  na_keep :: 'k
  na_last :: bool

type_synonym ('w, 'k) axis = "('w word, 'k word) net_axis"

definition byte :: "nat \<Rightarrow> 'w::len word \<Rightarrow> u8" where
  "byte i d = bits (8 * i + 7) (8 * i) d"

definition cells :: "('w::len, 'k::len) axis \<Rightarrow> u8 option list" where
  "cells w = map (\<lambda>i. if bit (na_keep w) i then Some (byte i (na_data w)) else None) [0..<LENGTH('k)]"

definition carries :: "u8 list \<Rightarrow> ('w::len, 'k::len) axis list \<Rightarrow> bool" where
  "carries bs ws \<longleftrightarrow> ws \<noteq> [] \<and> (\<forall>w\<in>set (butlast ws). \<not> na_last w) \<and> na_last (List.last ws) \<and>
     (\<exists>k < LENGTH('k). concat (map cells ws) = map Some bs @ replicate k None)"

lemma length_cells [simp]: "length (cells (w :: ('w::len, 'k::len) axis)) = LENGTH('k)"
  by (simp add: cells_def)

lemma bit_byte: "bit (byte i d) n \<longleftrightarrow> n < 8 \<and> bit d (8 * i + n)"
  by (auto simp: byte_def bit_bits)

lemma nth_cells: "i < LENGTH('k) \<Longrightarrow> cells (w :: ('w::len, 'k::len) axis) ! i =
    (if bit (na_keep w) i then Some (byte i (na_data w)) else None)"
  by (simp add: cells_def)

text \<open>A packet of one word, and of more: all words but the last are full.\<close>

lemma carries_single: "carries bs [w :: ('w::len, 'k::len) axis] \<longleftrightarrow>
    na_last w \<and> (\<exists>k < LENGTH('k). cells w = map Some bs @ replicate k None)"
  by (simp add: carries_def)

lemma carries_Cons:
  fixes w :: "('w::len, 'k::len) axis"
  assumes "ws \<noteq> []"
  shows "carries bs (w # ws) \<longleftrightarrow> \<not> na_last w \<and> LENGTH('k) \<le> length bs \<and>
     cells w = map Some (take (LENGTH('k)) bs) \<and> carries (drop (LENGTH('k)) bs) ws"
proof
  assume c: "carries bs (w # ws)"
  then obtain k where k: "k < LENGTH('k)" "cells w @ concat (map cells ws) = map Some bs @ replicate k None"
    by (auto simp: carries_def)
  have "LENGTH('k) \<le> length (concat (map cells ws))"
    using assms by (cases ws) auto
  moreover from arg_cong [OF k(2), of length]
  have "LENGTH('k) + length (concat (map cells ws)) = length bs + k" by simp
  ultimately have l: "LENGTH('k) \<le> length bs" using k(1) by linarith
  from arg_cong [OF k(2), of "take (LENGTH('k))"] l
  have "cells w = map Some (take (LENGTH('k)) bs)" by (simp add: take_map)
  moreover from arg_cong [OF k(2), of "drop (LENGTH('k))"] l
  have "concat (map cells ws) = map Some (drop (LENGTH('k)) bs) @ replicate k None"
    by (simp add: drop_map)
  ultimately show "\<not> na_last w \<and> LENGTH('k) \<le> length bs \<and>
     cells w = map Some (take (LENGTH('k)) bs) \<and> carries (drop (LENGTH('k)) bs) ws"
    using c k(1) l assms by (auto simp: carries_def)
next
  assume r: "\<not> na_last w \<and> LENGTH('k) \<le> length bs \<and>
     cells w = map Some (take (LENGTH('k)) bs) \<and> carries (drop (LENGTH('k)) bs) ws"
  then obtain k where "k < LENGTH('k)"
    "concat (map cells ws) = map Some (drop (LENGTH('k)) bs) @ replicate k None"
    by (auto simp: carries_def)
  moreover have "map Some bs = map Some (take (LENGTH('k)) bs) @ map Some (drop (LENGTH('k)) bs)"
    by (simp flip: map_append)
  ultimately show "carries bs (w # ws)"
    using r assms by (auto simp: carries_def)
qed

section \<open>Realignment\<close>

text \<open>
  What every process that moves packets by some bytes does: it holds the bytes that go in front of
  the next word (\<open>mid\<close>), sends them with the first bytes of that word, keeps its other bytes, and
  after the last word sends what is left (\<open>residue\<close>) unless there is nothing left.
\<close>

lemma split_cells:
  assumes "c = map Some bs @ replicate k None" "length c = n" "m \<le> n"
  shows "drop (n - m) c = replicate m None \<longleftrightarrow> m \<le> k"
    and "m \<le> k \<Longrightarrow> take (n - m) c = map Some bs @ replicate (k - m) None"
proof -
  have l: "length bs + k = n" using assms by auto
  show "m \<le> k \<Longrightarrow> take (n - m) c = map Some bs @ replicate (k - m) None"
    using l assms by simp
  show "drop (n - m) c = replicate m None \<longleftrightarrow> m \<le> k"
  proof
    assume d: "drop (n - m) c = replicate m None"
    show "m \<le> k"
    proof (rule ccontr)
      assume "\<not> m \<le> k"
      with l assms have "drop (n - m) c ! 0 = Some (bs ! (n - m))" "0 < m"
        by (auto simp: nth_append)
      with d show False by simp
    qed
  qed (use l assms in simp)
qed

lemma drop_take_drop: "a \<le> b \<Longrightarrow> b \<le> length l \<Longrightarrow> drop a (take b l) @ drop b l = drop a l"
proof -
  assume a: "a \<le> b" "b \<le> length l"
  have "drop a l = drop a (take b l @ drop b l)" by simp
  also have "\<dots> = drop a (take b l) @ drop b l" by (subst drop_append) (use a in simp)
  finally show ?thesis by simp
qed

definition contiguous :: "('w::len, 'k::len) axis \<Rightarrow> bool" where
  "contiguous w \<longleftrightarrow> (\<exists>bs k. cells w = map Some bs @ replicate k None)"

locale realign =
  fixes cyc :: "'s \<Rightarrow> 's" and inp out :: "'s \<Rightarrow> ('w::len, 'k::len) axis list"
    and idle :: "'s \<Rightarrow> bool" and mid residue :: "u8 option list \<Rightarrow> 's \<Rightarrow> bool"
  assumes mid_word: "mid c s \<Longrightarrow> inp s = w # ws \<Longrightarrow> contiguous w \<Longrightarrow>
      na_last w \<or> None \<notin> set (cells w) \<Longrightarrow>
      \<exists>v. inp (cyc s) = ws \<and> out (cyc s) = out s @ [v] \<and>
        cells v = c @ take (LENGTH('k) - length c) (cells w) \<and>
        (na_last w \<longrightarrow> na_last v = (drop (LENGTH('k) - length c) (cells w) = replicate (length c) None)) \<and>
        (if \<not> na_last w then \<not> na_last v \<and> mid (drop (LENGTH('k) - length c) (cells w)) (cyc s)
         else if na_last v then idle (cyc s)
         else residue (drop (LENGTH('k) - length c) (cells w)) (cyc s))"
    and residue_word: "residue c s \<Longrightarrow>
      \<exists>v. inp (cyc s) = inp s \<and> out (cyc s) = out s @ [v] \<and> na_last v \<and>
        cells v = c @ replicate (LENGTH('k) - length c) None \<and> idle (cyc s)"

context realign begin

lemma run_last:
  assumes m: "mid (map Some ds) s" "0 < length ds" "length ds < LENGTH('k)"
    and i: "inp s = w # rest" and w: "carries bs [w]"
  shows "\<exists>n vs. n \<le> 2 \<and> idle ((cyc ^^ n) s) \<and> inp ((cyc ^^ n) s) = rest \<and>
    out ((cyc ^^ n) s) = out s @ vs \<and> carries (ds @ bs) vs"
proof -
  let ?m = "length ds"
  from w obtain k where k: "na_last w" "k < LENGTH('k)" "cells w = map Some bs @ replicate k None"
    by (auto simp: carries_single)
  then have "contiguous w" by (auto simp: contiguous_def)
  from mid_word [OF m(1) i this disjI1] k(1) obtain v where v: "inp (cyc s) = rest" "out (cyc s) = out s @ [v]"
    "cells v = map Some ds @ take (LENGTH('k) - ?m) (cells w)"
    "na_last v = (drop (LENGTH('k) - ?m) (cells w) = replicate ?m None)"
    "if na_last v then idle (cyc s) else residue (drop (LENGTH('k) - ?m) (cells w)) (cyc s)"
    by auto
  note split = split_cells [OF k(3) length_cells less_imp_le [OF m(3)]]
  show ?thesis
  proof (cases "?m \<le> k")
    case True
    then have "carries (ds @ bs) [v]"
      using v split k(2) by (auto simp: carries_single intro!: exI [of _ "k - ?m"])
    with v True split show ?thesis by (intro exI [of _ 1] exI [of _ "[v]"]) simp
  next
    case False
    with v split have "residue (drop (LENGTH('k) - ?m) (cells w)) (cyc s)" by simp
    from residue_word [OF this] m(3) obtain r where r: "inp (cyc (cyc s)) = rest"
      "out (cyc (cyc s)) = out s @ [v, r]" "na_last r" "idle (cyc (cyc s))"
      "cells r = drop (LENGTH('k) - ?m) (cells w) @ replicate (LENGTH('k) - ?m) None"
      using v by auto
    have "concat (map cells [v, r]) = map Some ds @
        (take (LENGTH('k) - ?m) (cells w) @ drop (LENGTH('k) - ?m) (cells w)) @
        replicate (LENGTH('k) - ?m) None"
      using v(3) r(5) by simp
    then have c: "concat (map cells [v, r]) = map Some (ds @ bs) @ replicate (k + (LENGTH('k) - ?m)) None"
      unfolding append_take_drop_id k(3) by (simp add: replicate_add)
    have kl: "k + (LENGTH('k) - ?m) < LENGTH('k)" using False m(3) by simp
    have "carries (ds @ bs) [v, r]"
      unfolding carries_def
      by (intro conjI exI [of _ "k + (LENGTH('k) - ?m)"] c kl)
        (use False v(4) split(1) r(3) in auto)
    with r show ?thesis
      by (intro exI [of _ 2] exI [of _ "[v, r]"]) (simp add: numeral_2_eq_2)
  qed
qed

lemma run:
  assumes "mid (map Some ds) s" "0 < length ds" "length ds < LENGTH('k)"
    and "inp s = ws @ rest" and "carries bs ws"
  shows "\<exists>n vs. n \<le> length ws + 1 \<and> idle ((cyc ^^ n) s) \<and> inp ((cyc ^^ n) s) = rest \<and>
    out ((cyc ^^ n) s) = out s @ vs \<and> carries (ds @ bs) vs"
  using assms
proof (induction ws arbitrary: bs ds s)
  case Nil
  then show ?case by (simp add: carries_def)
next
  case (Cons x xs)
  let ?m = "length ds"
  show ?case
  proof (cases "xs = []")
    case True
    then have "inp s = x # rest" "carries bs [x]" using Cons.prems(4,5) by simp_all
    from run_last [OF Cons.prems(1-3) this] show ?thesis using True by (simp add: numeral_2_eq_2)
  next
    case False
    with Cons.prems(5) have x: "\<not> na_last x" "LENGTH('k) \<le> length bs"
      "cells x = map Some (take (LENGTH('k)) bs)" "carries (drop (LENGTH('k)) bs) xs"
      by (simp_all add: carries_Cons)
    then have "contiguous x" "None \<notin> set (cells x)"
      by (auto simp: contiguous_def intro!: exI [of _ "take (LENGTH('k)) bs"])
    from mid_word [OF Cons.prems(1) _ this(1) disjI2 [OF this(2)], of "xs @ rest"] Cons.prems(4) x(1)
    obtain v where v: "inp (cyc s) = xs @ rest" "out (cyc s) = out s @ [v]" "\<not> na_last v"
      "cells v = map Some ds @ take (LENGTH('k) - ?m) (cells x)"
      "mid (drop (LENGTH('k) - ?m) (cells x)) (cyc s)" by auto
    let ?ds = "drop (LENGTH('k) - ?m) (take (LENGTH('k)) bs)"
    have "mid (map Some ?ds) (cyc s)" using v(5) by (simp add: x(3) drop_map)
    from Cons.IH [OF this _ _ v(1) x(4)] x(2) Cons.prems(2,3) obtain n vs where vs:
      "n \<le> length xs + 1" "idle ((cyc ^^ n) (cyc s))" "inp ((cyc ^^ n) (cyc s)) = rest"
      "out ((cyc ^^ n) (cyc s)) = out s @ v # vs" "carries (?ds @ drop (LENGTH('k)) bs) vs"
      using v(2) by auto
    have "cells v = map Some (take (LENGTH('k)) (ds @ bs))"
      using v(4) x(3) Cons.prems(3) by (simp add: take_map min_def)
    moreover have "?ds @ drop (LENGTH('k)) bs = drop (LENGTH('k)) (ds @ bs)"
      using Cons.prems(3) x(2) by (simp add: drop_take_drop)
    ultimately have "carries (ds @ bs) (v # vs)"
      using vs(5) x(2) v(3) by (subst carries_Cons) (auto simp: carries_def)
    with vs show ?thesis
      by (intro exI [of _ "Suc n"] exI [of _ "v # vs"]) (simp add: funpow_Suc_right del: funpow.simps(2))
  qed
qed

end

section \<open>Shifting packets\<close>

text \<open>
  \<open>join lo hi\<close>: the two assignments to a word from a lower and an upper part.  The widths are
  positive and \<open>W\<close> is eight times the number of bytes, so every \<open>hi - 1\<close> below is a bit index.
\<close>

definition lshift_join :: "nat \<Rightarrow> ('w::len, 'k::len) axis \<Rightarrow> ('w, 'k) axis \<Rightarrow> ('w, 'k) axis" where
  "lshift_join offset prevWord currWord =
     \<lparr>na_data =
        put_bits (LENGTH('w) - 1) (8 * offset)
          (bits (LENGTH('w) - 1 - 8 * offset) 0 (na_data currWord) :: 'w word)
          (put_bits (8 * offset - 1) 0
            (bits (LENGTH('w) - 1) (LENGTH('w) - 8 * offset) (na_data prevWord) :: 'w word) 0),
      na_keep =
        put_bits (LENGTH('k) - 1) offset
          (bits (LENGTH('k) - 1 - offset) 0 (na_keep currWord) :: 'k word)
          (put_bits (offset - 1) 0
            (bits (LENGTH('k) - 1) (LENGTH('k) - offset) (na_keep prevWord) :: 'k word) 0),
      na_last = (bits (LENGTH('k) - 1) (LENGTH('k) - offset) (na_keep currWord) = (0 :: 'k word))\<rparr>"

definition lshift_first :: "nat \<Rightarrow> ('w::len, 'k::len) axis \<Rightarrow> ('w, 'k) axis" where
  "lshift_first offset currWord =
     \<lparr>na_data =
        put_bits (LENGTH('w) - 1) (8 * offset)
          (bits (LENGTH('w) - 1 - 8 * offset) 0 (na_data currWord) :: 'w word)
          (put_bits (8 * offset - 1) 0 (0 :: 'w word) 0),
      na_keep =
        put_bits (LENGTH('k) - 1) offset
          (bits (LENGTH('k) - 1 - offset) 0 (na_keep currWord) :: 'k word)
          (put_bits (offset - 1) 0 (0xFFFFFFFF :: u32) 0),
      na_last = (bits (LENGTH('k) - 1) (LENGTH('k) - offset) (na_keep currWord) = (0 :: 'k word))\<rparr>"

definition lshift_remainder :: "nat \<Rightarrow> ('w::len, 'k::len) axis \<Rightarrow> ('w, 'k) axis" where
  "lshift_remainder offset prevWord =
     \<lparr>na_data =
        put_bits (LENGTH('w) - 1) (8 * offset) (0 :: 'w word)
          (put_bits (8 * offset - 1) 0
            (bits (LENGTH('w) - 1) (LENGTH('w) - 8 * offset) (na_data prevWord) :: 'w word) 0),
      na_keep =
        put_bits (LENGTH('k) - 1) offset (0 :: 'k word)
          (put_bits (offset - 1) 0
            (bits (LENGTH('k) - 1) (LENGTH('k) - offset) (na_keep prevWord) :: 'k word) 0),
      na_last = True\<rparr>"

record 'a lshift_st =
  ls_firstWord :: bool
  ls_writeRemainder :: bool
  ls_prevWord :: 'a
  ls_input :: "'a fifo"
  ls_output :: "'a fifo"

definition lshiftWordByOctet ::
  "nat \<Rightarrow> ('w::len, 'k::len) axis lshift_st \<Rightarrow> ('w, 'k) axis lshift_st" where
  "lshiftWordByOctet offset s =
     (if ls_writeRemainder s
      then s\<lparr>ls_output := ls_output s @ [lshift_remainder offset (ls_prevWord s)],
             ls_writeRemainder := False\<rparr>
      else (case ls_input s of
              currWord # rest \<Rightarrow>
                let s = s\<lparr>ls_input := rest\<rparr>
                in if offset = 0 then s\<lparr>ls_output := ls_output s @ [currWord]\<rparr>
                   else let sendWord = (if ls_firstWord s then lshift_first offset currWord
                                        else lshift_join offset (ls_prevWord s) currWord);
                            s = s\<lparr>ls_output := ls_output s @ [sendWord],
                                  ls_prevWord := currWord, ls_firstWord := False\<rparr>
                        in if na_last currWord
                           then s\<lparr>ls_firstWord := True, ls_writeRemainder := \<not> na_last sendWord\<rparr>
                           else s
            | [] \<Rightarrow> s))"

lemma cells_lshift_join:
  fixes p c :: "('w::len, 'k::len) axis"
  assumes "LENGTH('w) = 8 * LENGTH('k)" "0 < m" "m < LENGTH('k)"
  shows "cells (lshift_join m p c) = drop (LENGTH('k) - m) (cells p) @ take (LENGTH('k) - m) (cells c)"
proof (rule nth_equalityI)
  fix i assume "i < length (cells (lshift_join m p c))"
  then have i: "i < LENGTH('k)" by simp
  have b: "byte i (na_data (lshift_join m p c)) =
      (if i < m then byte (LENGTH('k) - m + i) (na_data p) else byte (i - m) (na_data c))"
  proof (rule bit_word_eqI)
    fix n assume n: "n < LENGTH(8)"
    have e: "8 * (LENGTH('k) + i - m) + n = 8 * LENGTH('k) + (8 * i + n) - 8 * m"
      "m \<le> i \<Longrightarrow> 8 * (i - m) + n = 8 * i + n - 8 * m"
      using assms by linarith+
    show "bit (byte i (na_data (lshift_join m p c))) n =
      bit (if i < m then byte (LENGTH('k) - m + i) (na_data p) else byte (i - m) (na_data c)) n"
      using n i assms
      by (auto simp: bit_byte lshift_join_def bit_put_bits bit_bits e)
  qed
  have k: "bit (na_keep (lshift_join m p c)) i =
      (if i < m then bit (na_keep p) (LENGTH('k) - m + i) else bit (na_keep c) (i - m))"
    using i assms by (auto simp: lshift_join_def bit_put_bits bit_bits)
  show "cells (lshift_join m p c) ! i =
      (drop (LENGTH('k) - m) (cells p) @ take (LENGTH('k) - m) (cells c)) ! i"
    using i assms by (simp add: nth_cells nth_append b k)
qed simp

lemma cells_lshift_first:
  fixes c :: "('w::len, 'k::len) axis"
  assumes "LENGTH('w) = 8 * LENGTH('k)" "0 < m" "m < LENGTH('k)" "m \<le> 32"
  shows "cells (lshift_first m c) = replicate m (Some 0) @ take (LENGTH('k) - m) (cells c)"
proof (rule nth_equalityI)
  fix i assume "i < length (cells (lshift_first m c))"
  then have i: "i < LENGTH('k)" by simp
  have b: "byte i (na_data (lshift_first m c)) = (if i < m then 0 else byte (i - m) (na_data c))"
  proof (rule bit_word_eqI)
    fix n assume n: "n < LENGTH(8)"
    have e: "m \<le> i \<Longrightarrow> 8 * (i - m) + n = 8 * i + n - 8 * m" using assms by linarith
    show "bit (byte i (na_data (lshift_first m c))) n =
      bit (if i < m then 0 else byte (i - m) (na_data c)) n"
      using n i assms by (auto simp: bit_byte lshift_first_def bit_put_bits bit_bits e)
  qed
  have e: "(0xFFFFFFFF :: u32) = mask 32" by (simp add: mask_eq_exp_minus_1)
  have ones: "bit (0xFFFFFFFF :: u32) i \<longleftrightarrow> i < 32"
    unfolding e by (simp only: bit_mask_iff) simp
  have k: "bit (na_keep (lshift_first m c)) i = (i < m \<or> bit (na_keep c) (i - m))"
    using i assms ones by (auto simp: lshift_first_def bit_put_bits bit_bits)
  show "cells (lshift_first m c) ! i =
      (replicate m (Some 0) @ take (LENGTH('k) - m) (cells c)) ! i"
    using i assms by (simp add: nth_cells nth_append b k)
qed (use assms in simp)

lemma cells_lshift_remainder:
  fixes p :: "('w::len, 'k::len) axis"
  assumes "LENGTH('w) = 8 * LENGTH('k)" "0 < m" "m < LENGTH('k)"
  shows "cells (lshift_remainder m p) = drop (LENGTH('k) - m) (cells p) @ replicate (LENGTH('k) - m) None"
proof (rule nth_equalityI)
  fix i assume "i < length (cells (lshift_remainder m p))"
  then have i: "i < LENGTH('k)" by simp
  have b: "byte i (na_data (lshift_remainder m p)) = byte (LENGTH('k) - m + i) (na_data p)" if "i < m"
  proof (rule bit_word_eqI)
    fix n assume n: "n < LENGTH(8)"
    have e: "8 * (LENGTH('k) + i - m) + n = 8 * LENGTH('k) + (8 * i + n) - 8 * m"
      using assms by linarith
    show "bit (byte i (na_data (lshift_remainder m p))) n = bit (byte (LENGTH('k) - m + i) (na_data p)) n"
      using n i assms that by (auto simp: bit_byte lshift_remainder_def bit_put_bits bit_bits e)
  qed
  have k: "bit (na_keep (lshift_remainder m p)) i =
      (i < m \<and> bit (na_keep p) (LENGTH('k) - m + i))"
    using i assms by (auto simp: lshift_remainder_def bit_put_bits bit_bits)
  show "cells (lshift_remainder m p) ! i =
      (drop (LENGTH('k) - m) (cells p) @ replicate (LENGTH('k) - m) None) ! i"
    using i assms by (simp add: nth_cells nth_append b k)
qed (use assms in simp)

lemma keep_top_zero:
  fixes c :: "('w::len, 'k::len) axis"
  assumes "m < LENGTH('k)"
  shows "(bits (LENGTH('k) - 1) (LENGTH('k) - m) (na_keep c) = (0 :: 'k word)) \<longleftrightarrow>
    drop (LENGTH('k) - m) (cells c) = replicate m None"
proof -
  have "(bits (LENGTH('k) - 1) (LENGTH('k) - m) (na_keep c) = (0 :: 'k word)) \<longleftrightarrow>
      (\<forall>i < m. \<not> bit (na_keep c) (LENGTH('k) - m + i))"
    using assms by (auto simp: bit_eq_iff bit_bits dest: bit_imp_le_length)
  also have "\<dots> \<longleftrightarrow> drop (LENGTH('k) - m) (cells c) = replicate m None"
    using assms by (auto simp: list_eq_iff_nth_eq nth_cells)
  finally show ?thesis .
qed

lemma lshift_last:
  fixes w :: "('w::len, 'k::len) axis"
  assumes "m < LENGTH('k)"
  shows "na_last (lshift_first m w) \<longleftrightarrow> drop (LENGTH('k) - m) (cells w) = replicate m None"
    and "na_last (lshift_join m p w) \<longleftrightarrow> drop (LENGTH('k) - m) (cells w) = replicate m None"
  using keep_top_zero [OF assms, of w] by (simp_all add: lshift_first_def lshift_join_def)

text \<open>The bytes that go in front of the next word.\<close>

definition ls_pending :: "nat \<Rightarrow> ('w::len, 'k::len) axis lshift_st \<Rightarrow> u8 option list" where
  "ls_pending m s = (if ls_firstWord s then replicate m (Some 0)
     else drop (LENGTH('k) - m) (cells (ls_prevWord s)))"

lemma length_ls_pending: "m < LENGTH('k) \<Longrightarrow>
    length (ls_pending m (s :: ('w::len, 'k::len) axis lshift_st)) = m"
  by (simp add: ls_pending_def)

text \<open>
  The offsets the code supports: less than a word, and at most 32 because \<open>0xFFFFFFFF\<close> is what
  the first word's \<open>keep\<close> bits are set from.
\<close>

definition ls_mid ::
  "nat \<Rightarrow> u8 option list \<Rightarrow> ('w::len, 'k::len) axis lshift_st \<Rightarrow> bool" where
  "ls_mid m c s \<longleftrightarrow> LENGTH('w) = 8 * LENGTH('k) \<and> 0 < m \<and> m < LENGTH('k) \<and> m \<le> 32 \<and>
     \<not> ls_writeRemainder s \<and> c = ls_pending m s"

definition ls_residue ::
  "nat \<Rightarrow> u8 option list \<Rightarrow> ('w::len, 'k::len) axis lshift_st \<Rightarrow> bool" where
  "ls_residue m c s \<longleftrightarrow> LENGTH('w) = 8 * LENGTH('k) \<and> 0 < m \<and> m < LENGTH('k) \<and>
     ls_writeRemainder s \<and> ls_firstWord s \<and> c = drop (LENGTH('k) - m) (cells (ls_prevWord s))"

definition ls_idle :: "'a lshift_st \<Rightarrow> bool" where
  "ls_idle s \<longleftrightarrow> ls_firstWord s \<and> \<not> ls_writeRemainder s"

lemma lshift_step:
  assumes "0 < m" "\<not> ls_writeRemainder s" "ls_input s = w # ws"
  defines "v \<equiv> (if ls_firstWord s then lshift_first m w else lshift_join m (ls_prevWord s) w)"
  shows "lshiftWordByOctet m s = s\<lparr>ls_firstWord := na_last w,
     ls_writeRemainder := na_last w \<and> \<not> na_last v, ls_prevWord := w, ls_input := ws,
     ls_output := ls_output s @ [v]\<rparr>"
  using assms by (cases s) (simp add: lshiftWordByOctet_def Let_def)

interpretation lshift: realign "lshiftWordByOctet m" ls_input ls_output ls_idle "ls_mid m" "ls_residue m"
  for m
proof unfold_locales
  fix c and s :: "('w::len, 'k::len) axis lshift_st" and w ws
  assume mid: "ls_mid m c s" and i: "ls_input s = w # ws"
    and l: "na_last w \<or> None \<notin> set (cells w)"
  from mid have m: "LENGTH('w) = 8 * LENGTH('k)" "0 < m" "m < LENGTH('k)" "m \<le> 32"
    and s: "\<not> ls_writeRemainder s" "c = ls_pending m s" by (simp_all add: ls_mid_def)
  let ?v = "if ls_firstWord s then lshift_first m w else lshift_join m (ls_prevWord s) w"
  have v: "cells ?v = ls_pending m s @ take (LENGTH('k) - m) (cells w)"
    "na_last ?v \<longleftrightarrow> drop (LENGTH('k) - m) (cells w) = replicate m None"
    using m by (simp_all add: ls_pending_def cells_lshift_first cells_lshift_join lshift_last)
  have full: "\<not> na_last w \<Longrightarrow> drop (LENGTH('k) - m) (cells w) \<noteq> replicate m None"
    using l m(2) by (metis in_set_dropD in_set_replicate neq0_conv)
  show "\<exists>v. ls_input (lshiftWordByOctet m s) = ws \<and>
        ls_output (lshiftWordByOctet m s) = ls_output s @ [v] \<and>
        cells v = c @ take (LENGTH('k) - length c) (cells w) \<and>
        (na_last w \<longrightarrow> na_last v = (drop (LENGTH('k) - length c) (cells w) = replicate (length c) None)) \<and>
        (if \<not> na_last w then \<not> na_last v \<and>
           ls_mid m (drop (LENGTH('k) - length c) (cells w)) (lshiftWordByOctet m s)
         else if na_last v then ls_idle (lshiftWordByOctet m s)
         else ls_residue m (drop (LENGTH('k) - length c) (cells w)) (lshiftWordByOctet m s))"
    unfolding lshift_step [OF m(2) s(1) i] s(2) length_ls_pending [OF m(3)]
    by (rule exI [of _ ?v]) (use m v full in \<open>simp add: ls_mid_def ls_residue_def ls_idle_def ls_pending_def\<close>)
next
  fix c and s :: "('w::len, 'k::len) axis lshift_st"
  assume "ls_residue m c s"
  then have m: "LENGTH('w) = 8 * LENGTH('k)" "0 < m" "m < LENGTH('k)" and s: "ls_writeRemainder s"
    "ls_firstWord s" "c = drop (LENGTH('k) - m) (cells (ls_prevWord s))" by (simp_all add: ls_residue_def)
  have "length c = m" using s(3) m(3) by simp
  then show "\<exists>v. ls_input (lshiftWordByOctet m s) = ls_input s \<and>
        ls_output (lshiftWordByOctet m s) = ls_output s @ [v] \<and> na_last v \<and>
        cells v = c @ replicate (LENGTH('k) - length c) None \<and> ls_idle (lshiftWordByOctet m s)"
    using m s cells_lshift_remainder [OF m, of "ls_prevWord s"]
    by (intro exI [of _ "lshift_remainder m (ls_prevWord s)"])
      (simp add: lshiftWordByOctet_def ls_idle_def lshift_remainder_def)
qed

lemma lshift_packet:
  fixes ws :: "('w::len, 'k::len) axis list"
  assumes "LENGTH('w) = 8 * LENGTH('k)" "0 < m" "m < LENGTH('k)" "m \<le> 32"
    and "carries bs ws" "ls_idle s" "ls_input s = ws @ rest"
  shows "\<exists>n vs. n \<le> length ws + 1 \<and> ls_idle ((lshiftWordByOctet m ^^ n) s) \<and>
    ls_input ((lshiftWordByOctet m ^^ n) s) = rest \<and>
    ls_output ((lshiftWordByOctet m ^^ n) s) = ls_output s @ vs \<and> carries (replicate m 0 @ bs) vs"
proof (rule lshift.run)
  show "ls_mid m (map Some (replicate m 0)) s"
    using assms by (simp add: ls_mid_def ls_idle_def ls_pending_def)
qed (use assms in simp_all)

text \<open>
  The other direction.  \<open>sendWord\<close> is a local whose \<open>last\<close> is cleared first; it is \<open>None\<close> here
  when nothing is sent.  All uses in the repository have \<open>T = net_axis\<close>, for which \<open>assignDest\<close>
  does nothing.
\<close>

datatype rs_fsmStateType = PKG | REMAINDER

record 'a rshift_st =
  rs_fsmState :: rs_fsmStateType
  rs_firstWord :: bool
  rs_prevWord :: 'a
  rs_input :: "'a fifo"
  rs_output :: "'a fifo"

definition rshift_join :: "nat \<Rightarrow> ('w::len, 'k::len) axis \<Rightarrow> ('w, 'k) axis \<Rightarrow> ('w, 'k) axis" where
  "rshift_join offset prevWord currWord =
     \<lparr>na_data =
        put_bits (LENGTH('w) - 1) (LENGTH('w) - 8 * offset)
          (bits (8 * offset - 1) 0 (na_data currWord) :: 'w word)
          (put_bits (LENGTH('w) - 1 - 8 * offset) 0
            (bits (LENGTH('w) - 1) (8 * offset) (na_data prevWord) :: 'w word) 0),
      na_keep =
        put_bits (LENGTH('k) - 1) (LENGTH('k) - offset)
          (bits (offset - 1) 0 (na_keep currWord) :: 'k word)
          (put_bits (LENGTH('k) - 1 - offset) 0
            (bits (LENGTH('k) - 1) offset (na_keep prevWord) :: 'k word) 0),
      na_last = (bits (LENGTH('k) - 1) offset (na_keep currWord) = (0 :: 'k word))\<rparr>"

definition rshift_remainder :: "nat \<Rightarrow> ('w::len, 'k::len) axis \<Rightarrow> ('w, 'k) axis" where
  "rshift_remainder offset prevWord =
     \<lparr>na_data =
        put_bits (LENGTH('w) - 1) (LENGTH('w) - 8 * offset) (0 :: 'w word)
          (put_bits (LENGTH('w) - 1 - 8 * offset) 0
            (bits (LENGTH('w) - 1) (8 * offset) (na_data prevWord) :: 'w word) 0),
      na_keep =
        put_bits (LENGTH('k) - 1) (LENGTH('k) - offset) (0 :: 'k word)
          (put_bits (LENGTH('k) - 1 - offset) 0
            (bits (LENGTH('k) - 1) offset (na_keep prevWord) :: 'k word) 0),
      na_last = True\<rparr>"

definition rshiftWordByOctet ::
  "nat \<Rightarrow> ('w::len, 'k::len) axis rshift_st \<Rightarrow> ('w, 'k) axis rshift_st" where
  "rshiftWordByOctet offset s =
     (case rs_fsmState s of
        PKG \<Rightarrow>
          (case rs_input s of
             currWord # rest \<Rightarrow>
               let sendWord =
                     (if \<not> rs_firstWord s
                      then Some (if offset = 0 then currWord
                                 else rshift_join offset (rs_prevWord s) currWord)
                      else None);
                   s = s\<lparr>rs_input := rest,
                         rs_output := rs_output s @ (case sendWord of Some v \<Rightarrow> [v] | None \<Rightarrow> []),
                         rs_prevWord := currWord, rs_firstWord := False\<rparr>
               in if na_last currWord
                  then let s = s\<lparr>rs_firstWord := (offset \<noteq> 0)\<rparr>
                       in if \<not> (case sendWord of Some v \<Rightarrow> na_last v | None \<Rightarrow> False)
                          then s\<lparr>rs_fsmState := REMAINDER\<rparr> else s
                  else s
           | [] \<Rightarrow> s)
      | REMAINDER \<Rightarrow>
          s\<lparr>rs_output := rs_output s @ [rshift_remainder offset (rs_prevWord s)],
            rs_fsmState := PKG\<rparr>)"

lemma cells_rshift_join:
  fixes p c :: "('w::len, 'k::len) axis"
  assumes "LENGTH('w) = 8 * LENGTH('k)" "0 < m" "m < LENGTH('k)"
  shows "cells (rshift_join m p c) = drop m (cells p) @ take m (cells c)"
    and "na_last (rshift_join m p c) \<longleftrightarrow> drop m (cells c) = replicate (LENGTH('k) - m) None"
proof -
  have e: "8 * LENGTH('k) - 8 * (LENGTH('k) - m) = 8 * m"
    "8 * LENGTH('k) - 1 - 8 * m = 8 * (LENGTH('k) - m) - 1" using assms by linarith+
  have j: "rshift_join m p c = lshift_join (LENGTH('k) - m) p c"
    using assms by (simp add: rshift_join_def lshift_join_def e diff_mult_distrib2)
  show "cells (rshift_join m p c) = drop m (cells p) @ take m (cells c)"
    unfolding j by (subst cells_lshift_join) (use assms in simp_all)
  show "na_last (rshift_join m p c) \<longleftrightarrow> drop m (cells c) = replicate (LENGTH('k) - m) None"
    unfolding j by (subst lshift_last) (use assms in simp_all)
qed

lemma cells_rshift_remainder:
  fixes p :: "('w::len, 'k::len) axis"
  assumes "LENGTH('w) = 8 * LENGTH('k)" "0 < m" "m < LENGTH('k)"
  shows "cells (rshift_remainder m p) = drop m (cells p) @ replicate m None"
proof -
  have e: "8 * LENGTH('k) - 8 * (LENGTH('k) - m) = 8 * m"
    "8 * LENGTH('k) - 1 - 8 * m = 8 * (LENGTH('k) - m) - 1" using assms by linarith+
  have j: "rshift_remainder m p = lshift_remainder (LENGTH('k) - m) p"
    using assms by (simp add: rshift_remainder_def lshift_remainder_def e diff_mult_distrib2)
  show ?thesis unfolding j by (subst cells_lshift_remainder) (use assms in simp_all)
qed

definition rs_mid ::
  "nat \<Rightarrow> u8 option list \<Rightarrow> ('w::len, 'k::len) axis rshift_st \<Rightarrow> bool" where
  "rs_mid m c s \<longleftrightarrow> LENGTH('w) = 8 * LENGTH('k) \<and> 0 < m \<and> m < LENGTH('k) \<and>
     rs_fsmState s = PKG \<and> \<not> rs_firstWord s \<and> c = drop m (cells (rs_prevWord s))"

definition rs_residue ::
  "nat \<Rightarrow> u8 option list \<Rightarrow> ('w::len, 'k::len) axis rshift_st \<Rightarrow> bool" where
  "rs_residue m c s \<longleftrightarrow> LENGTH('w) = 8 * LENGTH('k) \<and> 0 < m \<and> m < LENGTH('k) \<and>
     rs_fsmState s = REMAINDER \<and> rs_firstWord s \<and> c = drop m (cells (rs_prevWord s))"

definition rs_idle :: "'a rshift_st \<Rightarrow> bool" where
  "rs_idle s \<longleftrightarrow> rs_fsmState s = PKG \<and> rs_firstWord s"

interpretation rshift: realign "rshiftWordByOctet m" rs_input rs_output rs_idle "rs_mid m" "rs_residue m"
  for m
proof unfold_locales
  fix c and s :: "('w::len, 'k::len) axis rshift_st" and w ws
  assume mid: "rs_mid m c s" and i: "rs_input s = w # ws"
    and l: "na_last w \<or> None \<notin> set (cells w)"
  from mid have m: "LENGTH('w) = 8 * LENGTH('k)" "0 < m" "m < LENGTH('k)"
    and s: "rs_fsmState s = PKG" "\<not> rs_firstWord s" "c = drop m (cells (rs_prevWord s))"
    by (simp_all add: rs_mid_def)
  have full: "\<not> na_last w \<Longrightarrow> drop m (cells w) \<noteq> replicate (LENGTH('k) - m) None"
    using l m(3) by (metis in_set_dropD in_set_replicate neq0_conv zero_less_diff)
  have c: "length c = LENGTH('k) - m" "LENGTH('k) - (LENGTH('k) - m) = m" using s(3) m by simp_all
  show "\<exists>v. rs_input (rshiftWordByOctet m s) = ws \<and>
        rs_output (rshiftWordByOctet m s) = rs_output s @ [v] \<and>
        cells v = c @ take (LENGTH('k) - length c) (cells w) \<and>
        (na_last w \<longrightarrow> na_last v = (drop (LENGTH('k) - length c) (cells w) = replicate (length c) None)) \<and>
        (if \<not> na_last w then \<not> na_last v \<and>
           rs_mid m (drop (LENGTH('k) - length c) (cells w)) (rshiftWordByOctet m s)
         else if na_last v then rs_idle (rshiftWordByOctet m s)
         else rs_residue m (drop (LENGTH('k) - length c) (cells w)) (rshiftWordByOctet m s))"
    unfolding c
    by (rule exI [of _ "rshift_join m (rs_prevWord s) w"])
      (use m s i full cells_rshift_join [OF m, of "rs_prevWord s" w] in
        \<open>simp add: rshiftWordByOctet_def Let_def rs_mid_def rs_residue_def rs_idle_def\<close>)
next
  fix c and s :: "('w::len, 'k::len) axis rshift_st"
  assume "rs_residue m c s"
  then have m: "LENGTH('w) = 8 * LENGTH('k)" "0 < m" "m < LENGTH('k)"
    and s: "rs_fsmState s = REMAINDER" "rs_firstWord s" "c = drop m (cells (rs_prevWord s))"
    by (simp_all add: rs_residue_def)
  then show "\<exists>v. rs_input (rshiftWordByOctet m s) = rs_input s \<and>
        rs_output (rshiftWordByOctet m s) = rs_output s @ [v] \<and> na_last v \<and>
        cells v = c @ replicate (LENGTH('k) - length c) None \<and> rs_idle (rshiftWordByOctet m s)"
    using cells_rshift_remainder [OF m, of "rs_prevWord s"]
    by (intro exI [of _ "rshift_remainder m (rs_prevWord s)"])
      (simp add: rshiftWordByOctet_def rs_idle_def rshift_remainder_def)
qed

text \<open>The first word is only stored.\<close>

lemma rshift_first:
  assumes "rs_idle s" "0 < m" "rs_input s = w # ws"
  shows "rshiftWordByOctet m s = s\<lparr>rs_fsmState := (if na_last w then REMAINDER else PKG),
    rs_firstWord := na_last w, rs_prevWord := w, rs_input := ws\<rparr>"
  using assms by (cases s) (simp add: rshiftWordByOctet_def rs_idle_def Let_def)

lemma rshift_packet:
  fixes ws :: "('w::len, 'k::len) axis list"
  assumes w: "LENGTH('w) = 8 * LENGTH('k)" "0 < m" "m < LENGTH('k)"
    and bs: "carries bs ws" "m < length bs" and s: "rs_idle s" "rs_input s = ws @ rest"
  shows "\<exists>n vs. n \<le> length ws + 1 \<and> rs_idle ((rshiftWordByOctet m ^^ n) s) \<and>
    rs_input ((rshiftWordByOctet m ^^ n) s) = rest \<and>
    rs_output ((rshiftWordByOctet m ^^ n) s) = rs_output s @ vs \<and> carries (drop m bs) vs"
proof -
  obtain x xs where ws: "ws = x # xs" using bs(1) by (cases ws) (auto simp: carries_def)
  let ?s = "rshiftWordByOctet m s"
  note st = rshift_first [OF s(1) w(2), of x "xs @ rest"]
  show ?thesis
  proof (cases "xs = []")
    case True
    with bs(1) ws obtain k where k: "na_last x" "k < LENGTH('k)"
      "cells x = map Some bs @ replicate k None" by (auto simp: carries_single)
    let ?r = "rshift_remainder m x"
    have l: "length bs + k = LENGTH('k)" using arg_cong [OF k(3), of length] by simp
    have "rs_residue m (drop m (cells x)) ?s"
      using st k(1) w s ws by (simp add: rs_residue_def)
    from rshift.residue_word [OF this] obtain v where v: "rs_input (rshiftWordByOctet m ?s) = rest"
      "rs_output (rshiftWordByOctet m ?s) = rs_output s @ [v]" "na_last v"
      "cells v = drop m (cells x) @ replicate m None" "rs_idle (rshiftWordByOctet m ?s)"
      using st ws True s w(3) by auto
    have "cells v = map Some (drop m bs) @ replicate (k + m) None"
      using v(4) k(3) bs(2) by (simp add: drop_map replicate_add)
    then have "carries (drop m bs) [v]"
      using v(3) bs(2) l by (auto simp: carries_single)
    with v True ws show ?thesis
      by (intro exI [of _ 2] exI [of _ "[v]"]) (simp add: numeral_2_eq_2)
  next
    case False
    with bs(1) ws have x: "\<not> na_last x" "LENGTH('k) \<le> length bs"
      "cells x = map Some (take (LENGTH('k)) bs)" "carries (drop (LENGTH('k)) bs) xs"
      by (simp_all add: carries_Cons)
    let ?ds = "drop m (take (LENGTH('k)) bs)"
    have "rs_mid m (map Some ?ds) ?s"
      using st x(1,3) w s ws by (simp add: rs_mid_def drop_map)
    from rshift.run [OF this _ _ _ x(4), of rest] obtain n vs where n: "n \<le> length xs + 1"
      "rs_idle ((rshiftWordByOctet m ^^ n) ?s)" "rs_input ((rshiftWordByOctet m ^^ n) ?s) = rest"
      "rs_output ((rshiftWordByOctet m ^^ n) ?s) = rs_output s @ vs"
      "carries (?ds @ drop (LENGTH('k)) bs) vs"
      using st x(1,2) w s ws by auto
    have "?ds @ drop (LENGTH('k)) bs = drop m bs" using w(3) x(2) by (simp add: drop_take_drop)
    with n ws show ?thesis
      by (intro exI [of _ "Suc n"] exI [of _ vs]) (simp add: funpow_Suc_right del: funpow.simps(2))
  qed
qed

text \<open>
  The source has each of the two functions under several names, one per module that instantiates
  it (the second template parameter only keeps instances apart); the bodies are the same text.
\<close>

definition udp_lshiftWordByOctet ::
  "nat \<Rightarrow> ('w::len, 'k::len) axis lshift_st \<Rightarrow> ('w, 'k) axis lshift_st" where
  "udp_lshiftWordByOctet = lshiftWordByOctet"

definition mac_lshiftWordByOctet ::
  "nat \<Rightarrow> ('w::len, 'k::len) axis lshift_st \<Rightarrow> ('w, 'k) axis lshift_st" where
  "mac_lshiftWordByOctet = lshiftWordByOctet"

definition ipv4_lshiftWordByOctet ::
  "nat \<Rightarrow> ('w::len, 'k::len) axis lshift_st \<Rightarrow> ('w, 'k) axis lshift_st" where
  "ipv4_lshiftWordByOctet = lshiftWordByOctet"

definition ip_handler_rshiftWordByOctet ::
  "nat \<Rightarrow> ('w::len, 'k::len) axis rshift_st \<Rightarrow> ('w, 'k) axis rshift_st" where
  "ip_handler_rshiftWordByOctet = rshiftWordByOctet"

definition udp_rshiftWordByOctet ::
  "nat \<Rightarrow> ('w::len, 'k::len) axis rshift_st \<Rightarrow> ('w, 'k) axis rshift_st" where
  "udp_rshiftWordByOctet = rshiftWordByOctet"

text \<open>Adding and removing a header gap.  For an offset \<open>m\<close> of at least one byte, less than a word and at
  most 32 (beyond that the keep bits of the gap are wrong), \<open>lshiftWordByOctet\<close> turns any packet that
  is not empty into the packet with \<open>m\<close> zero bytes in front, in at most one cycle more than it has words, and is ready for the
  next packet; \<open>rshiftWordByOctet\<close> turns that, word by word, into the packet it came from.\<close>

theorem shift_roundtrip:
  fixes ws :: "('w::len, 'k::len) axis list"
  assumes w: "LENGTH('w) = 8 * LENGTH('k)" "0 < m" "m < LENGTH('k)" "m \<le> 32"
    and p: "carries bs ws" "bs \<noteq> []" and s: "ls_idle s" "ls_input s = ws @ rest"
  shows "\<exists>n vs. n \<le> length ws + 1 \<and> ls_idle ((lshiftWordByOctet m ^^ n) s) \<and>
    ls_input ((lshiftWordByOctet m ^^ n) s) = rest \<and>
    ls_output ((lshiftWordByOctet m ^^ n) s) = ls_output s @ vs \<and>
    carries (replicate m 0 @ bs) vs \<and>
    (\<forall>r rest'. rs_idle r \<and> rs_input r = vs @ rest' \<longrightarrow>
      (\<exists>n us. n \<le> length vs + 1 \<and> rs_idle ((rshiftWordByOctet m ^^ n) r) \<and>
        rs_input ((rshiftWordByOctet m ^^ n) r) = rest' \<and>
        rs_output ((rshiftWordByOctet m ^^ n) r) = rs_output r @ us \<and> carries bs us))"
proof -
  obtain n vs where l: "n \<le> length ws + 1" "ls_idle ((lshiftWordByOctet m ^^ n) s)"
    "ls_input ((lshiftWordByOctet m ^^ n) s) = rest"
    "ls_output ((lshiftWordByOctet m ^^ n) s) = ls_output s @ vs" "carries (replicate m 0 @ bs) vs"
    using lshift_packet [OF w p(1) s] by blast
  have "\<exists>n us. n \<le> length vs + 1 \<and> rs_idle ((rshiftWordByOctet m ^^ n) r) \<and>
        rs_input ((rshiftWordByOctet m ^^ n) r) = rest' \<and>
        rs_output ((rshiftWordByOctet m ^^ n) r) = rs_output r @ us \<and> carries bs us"
    if "rs_idle r" "rs_input r = vs @ rest'" for r rest'
    using rshift_packet [OF w(1-3) l(5) _ that] p(2) by simp
  with l show ?thesis by blast
qed

definition axis_ex :: "(16, 2) axis list" where
  "axis_ex = [\<lparr>na_data = 0x2211, na_keep = 3, na_last = False\<rparr>,
     \<lparr>na_data = 0x0033, na_keep = 1, na_last = True\<rparr>]"

lemma carries_axis_ex: "carries [0x11, 0x22, 0x33] axis_ex"
proof -
  have "concat (map cells axis_ex) = map Some [0x11, 0x22, 0x33] @ replicate 1 None" by code_simp
  then have "\<exists>k < LENGTH(2). concat (map cells axis_ex) = map Some [0x11, 0x22, 0x33] @ replicate k None"
    by (intro exI [of _ 1]) simp
  then show ?thesis unfolding carries_def by (simp add: axis_ex_def)
qed

theorem shift_roundtrip_witness:
  "\<exists>n vs. ls_output ((lshiftWordByOctet 1 ^^ n) \<lparr>ls_firstWord = True, ls_writeRemainder = False,
       ls_prevWord = hd axis_ex, ls_input = axis_ex, ls_output = []\<rparr>) = vs \<and>
     carries [0, 0x11, 0x22, 0x33] vs"
proof -
  let ?s = "\<lparr>ls_firstWord = True, ls_writeRemainder = False, ls_prevWord = hd axis_ex,
    ls_input = axis_ex, ls_output = []\<rparr>"
  have "ls_idle ?s" "ls_input ?s = axis_ex @ []" by (simp_all add: ls_idle_def)
  from shift_roundtrip [OF _ _ _ _ carries_axis_ex _ this, of 1] show ?thesis by auto
qed

section \<open>Byte counts and \<open>keep\<close>\<close>

text \<open>The two \<open>switch\<close> statements of \<open>axi_utils.cpp\<close>, case by case.\<close>

definition lenToKeep_cases :: "(6 word \<times> u64) list" where
  "lenToKeep_cases = [
     (1, 0x1), (2, 0x3), (3, 0x7), (4, 0xF), (5, 0x1F), (6, 0x3F), (7, 0x7F), (8, 0xFF),
     (9, 0x1FF), (10, 0x3FF), (11, 0x7FF), (12, 0xFFF), (13, 0x1FFF), (14, 0x3FFF),
     (15, 0x7FFF), (16, 0xFFFF), (17, 0x1FFFF), (18, 0x3FFFF), (19, 0x7FFFF), (20, 0xFFFFF),
     (21, 0x1FFFFF), (22, 0x3FFFFF), (23, 0x7FFFFF), (24, 0xFFFFFF), (25, 0x1FFFFFF),
     (26, 0x3FFFFFF), (27, 0x7FFFFFF), (28, 0xFFFFFFF), (29, 0x1FFFFFFF), (30, 0x3FFFFFFF),
     (31, 0x7FFFFFFF), (32, 0xFFFFFFFF), (33, 0x1FFFFFFFF), (34, 0x3FFFFFFFF),
     (35, 0x7FFFFFFFF), (36, 0xFFFFFFFFF), (37, 0x1FFFFFFFFF), (38, 0x3FFFFFFFFF),
     (39, 0x7FFFFFFFFF), (40, 0xFFFFFFFFFF), (41, 0x1FFFFFFFFFF), (42, 0x3FFFFFFFFFF),
     (43, 0x7FFFFFFFFFF), (44, 0xFFFFFFFFFFF), (45, 0x1FFFFFFFFFFF), (46, 0x3FFFFFFFFFFF),
     (47, 0x7FFFFFFFFFFF), (48, 0xFFFFFFFFFFFF), (49, 0x1FFFFFFFFFFFF), (50, 0x3FFFFFFFFFFFF),
     (51, 0x7FFFFFFFFFFFF), (52, 0xFFFFFFFFFFFFF), (53, 0x1FFFFFFFFFFFFF),
     (54, 0x3FFFFFFFFFFFFF), (55, 0x7FFFFFFFFFFFFF), (56, 0xFFFFFFFFFFFFFF),
     (57, 0x1FFFFFFFFFFFFFF), (58, 0x3FFFFFFFFFFFFFF), (59, 0x7FFFFFFFFFFFFFF),
     (60, 0xFFFFFFFFFFFFFFF), (61, 0x1FFFFFFFFFFFFFFF), (62, 0x3FFFFFFFFFFFFFFF),
     (63, 0x7FFFFFFFFFFFFFFF)]"

definition lenToKeep :: "6 word \<Rightarrow> u64" where
  "lenToKeep len = (case map_of lenToKeep_cases len of Some k \<Rightarrow> k | None \<Rightarrow> 0xFFFFFFFFFFFFFFFF)"

definition keepToLen_cases :: "(u64 \<times> u8) list" where
  "keepToLen_cases = [
     (0x1, 1), (0x3, 2), (0x7, 3), (0xF, 4), (0x1F, 5), (0x3F, 6), (0x7F, 7), (0xFF, 8),
     (0x1FF, 9), (0x3FF, 10), (0x7FF, 11), (0xFFF, 12), (0x1FFF, 13), (0x3FFF, 14),
     (0x7FFF, 15), (0xFFFF, 16), (0x1FFFF, 17), (0x3FFFF, 18), (0x7FFFF, 19), (0xFFFFF, 20),
     (0x1FFFFF, 21), (0x3FFFFF, 22), (0x7FFFFF, 23), (0xFFFFFF, 24), (0x1FFFFFF, 25),
     (0x3FFFFFF, 26), (0x7FFFFFF, 27), (0xFFFFFFF, 28), (0x1FFFFFFF, 29), (0x3FFFFFFF, 30),
     (0x7FFFFFFF, 31), (0xFFFFFFFF, 32), (0x1FFFFFFFF, 33), (0x3FFFFFFFF, 34),
     (0x7FFFFFFFF, 35), (0xFFFFFFFFF, 36), (0x1FFFFFFFFF, 37), (0x3FFFFFFFFF, 38),
     (0x7FFFFFFFFF, 39), (0xFFFFFFFFFF, 40), (0x1FFFFFFFFFF, 41), (0x3FFFFFFFFFF, 42),
     (0x7FFFFFFFFFF, 43), (0xFFFFFFFFFFF, 44), (0x1FFFFFFFFFFF, 45), (0x3FFFFFFFFFFF, 46),
     (0x7FFFFFFFFFFF, 47), (0xFFFFFFFFFFFF, 48), (0x1FFFFFFFFFFFF, 49), (0x3FFFFFFFFFFFF, 50),
     (0x7FFFFFFFFFFFF, 51), (0xFFFFFFFFFFFFF, 52), (0x1FFFFFFFFFFFFF, 53),
     (0x3FFFFFFFFFFFFF, 54), (0x7FFFFFFFFFFFFF, 55), (0xFFFFFFFFFFFFFF, 56),
     (0x1FFFFFFFFFFFFFF, 57), (0x3FFFFFFFFFFFFFF, 58), (0x7FFFFFFFFFFFFFF, 59),
     (0xFFFFFFFFFFFFFFF, 60), (0x1FFFFFFFFFFFFFFF, 61), (0x3FFFFFFFFFFFFFFF, 62),
     (0x7FFFFFFFFFFFFFFF, 63), (0xFFFFFFFFFFFFFFFF, 64)]"

definition keepToLen :: "u64 \<Rightarrow> u8" where
  "keepToLen keepValue = (case map_of keepToLen_cases keepValue of Some n \<Rightarrow> n | None \<Rightarrow> 0xFF)"

lemma lenToKeep_cases_eq: "lenToKeep_cases = map (\<lambda>n. (of_nat n, mask n)) (1 # [2..<64])"
  by (simp add: lenToKeep_cases_def mask_eq_exp_minus_1 upt_rec_numeral)

lemma keepToLen_cases_eq: "keepToLen_cases = map (\<lambda>n. (mask n, of_nat n)) (1 # [2..<65])"
  by (simp add: keepToLen_cases_def mask_eq_exp_minus_1 upt_rec_numeral)

lemma map_of_keys: "inj_on f (set xs) \<Longrightarrow> n \<in> set xs \<Longrightarrow> map_of (map (\<lambda>n. (f n, g n)) xs) (f n) = Some (g n)"
  by (induction xs) (auto simp: inj_on_def)

lemma mask_inj: "inj_on (mask :: nat \<Rightarrow> u64) {..64}"
proof (rule inj_onI)
  fix m n :: nat assume mn: "m \<in> {..64}" "n \<in> {..64}" and e: "(mask m :: u64) = mask n"
  have "(i < 64 \<and> i < m) = (i < 64 \<and> i < n)" for i
    using arg_cong [OF e, of "\<lambda>w. bit w i"] by (simp add: bit_mask_iff)
  from this [of m] this [of n] mn show "m = n" by (cases m n rule: linorder_cases) auto
qed

lemma of_nat_inj_6: "inj_on (of_nat :: nat \<Rightarrow> 6 word) {..<64}"
proof (rule inj_onI)
  fix m n :: nat assume mn: "m \<in> {..<64}" "n \<in> {..<64}" and e: "(of_nat m :: 6 word) = of_nat n"
  have u: "i < 64 \<Longrightarrow> unat (of_nat i :: 6 word) = i" for i by (rule unat_of_nat_eq) simp
  from arg_cong [OF e, of unat] show "m = n" using mn by (simp only: u lessThan_iff)
qed

lemma set_from_1: "2 \<le> n \<Longrightarrow> set (1 # [2..<n]) = {1..<n}"
  by auto

lemma lenToKeep_eq: "lenToKeep l = (if l = 0 then mask 64 else mask (unat l))"
proof (cases "l = 0")
  case True
  have "map_of lenToKeep_cases l = None"
    unfolding True map_of_eq_None_iff lenToKeep_cases_def by simp
  with True show ?thesis by (simp add: lenToKeep_def mask_eq_exp_minus_1)
next
  case False
  have "unat l < 64" using unat_less [of l] by simp
  moreover have "1 \<le> unat l" using False by (simp add: unat_gt_0 Suc_le_eq)
  ultimately have m: "unat l \<in> set (1 # [2..<64])" by (subst set_from_1) simp_all
  have i: "inj_on (of_nat :: nat \<Rightarrow> 6 word) (set (1 # [2..<64]))"
    by (subst set_from_1) (auto intro: inj_on_subset [OF of_nat_inj_6])
  have "map_of lenToKeep_cases (of_nat (unat l)) = Some (mask (unat l))"
    unfolding lenToKeep_cases_eq by (rule map_of_keys [OF i m])
  with False show ?thesis by (simp add: lenToKeep_def)
qed

lemma keepToLen_mask:
  assumes "0 < n" "n \<le> 64"
  shows "keepToLen (mask n) = of_nat n"
proof -
  have m: "n \<in> set (1 # [2..<65])" by (subst set_from_1) (use assms in simp_all)
  have i: "inj_on (mask :: nat \<Rightarrow> u64) (set (1 # [2..<65]))"
    by (subst set_from_1) (auto intro: inj_on_subset [OF mask_inj])
  have "map_of keepToLen_cases (mask n) = Some (of_nat n)"
    unfolding keepToLen_cases_eq by (rule map_of_keys [OF i m])
  then show ?thesis by (simp add: keepToLen_def)
qed

lemma keepToLen_Some:
  assumes "map_of keepToLen_cases k = Some n"
  shows "k = mask (unat n) \<and> n \<le> 64"
proof -
  have "(k, n) \<in> set (map (\<lambda>n. (mask n, of_nat n)) (1 # [2..<65]))"
    using map_of_SomeD [OF assms] unfolding keepToLen_cases_eq .
  then obtain i where i: "i \<in> set (1 # [2..<65])" "k = mask i" "n = of_nat i"
    unfolding set_map by blast
  have le: "i \<le> 64" using i(1) by (subst (asm) set_from_1) simp_all
  then have "unat n = i" unfolding i(3) by (intro unat_of_nat_eq) simp
  with i(2) le show ?thesis by (simp add: word_le_nat_alt)
qed

text \<open>Byte counts and \<open>keep\<close> masks.  \<open>lenToKeep\<close> sets the lowest bits, as many as the count
  says, and all 64 for the count 0; \<open>keepToLen\<close> gives the count back.  It answers at most 64 only
  for a mask of contiguous low bits, and 255 for every other value.\<close>

theorem len_keep_roundtrip:
  "keepToLen (lenToKeep l) = (if l = 0 then 64 else ucast l) \<and>
   (\<forall>n. bit (lenToKeep l) n = (n < 64 \<and> (l = 0 \<or> n < unat l))) \<and>
   (if keepToLen k \<le> 64 then k = mask (unat (keepToLen k)) else keepToLen k = 255)"
proof (intro conjI allI)
  show "keepToLen (lenToKeep l) = (if l = 0 then 64 else ucast l)"
  proof (cases "l = 0")
    case True
    then show ?thesis using keepToLen_mask [of 64] by (simp add: lenToKeep_eq)
  next
    case False
    have "keepToLen (mask (unat l)) = of_nat (unat l)"
      by (rule keepToLen_mask) (use False unat_less [of l] in \<open>auto simp: unat_gt_0\<close>)
    with False show ?thesis by (simp add: lenToKeep_eq)
  qed
  show "bit (lenToKeep l) n = (n < 64 \<and> (l = 0 \<or> n < unat l))" for n
    by (auto simp: lenToKeep_eq bit_mask_iff)
  show "if keepToLen k \<le> 64 then k = mask (unat (keepToLen k)) else keepToLen k = 255"
    using keepToLen_Some [of k] by (cases "map_of keepToLen_cases k") (simp_all add: keepToLen_def)
qed

end
