(* ===== verification/Axi_Pkg.thy ===== *)
theory Axi_Pkg
  imports Axi_Utils
begin

text \<open>
  The second half of \<open>axi_utils.hpp\<close>: processes that move whole elements or whole packets from
  stream to stream.  The payload is not looked at, so the words have any type with a \<open>last\<close> flag;
  a packet is a list of words of which exactly the last one has it.
\<close>

section \<open>Packets\<close>

definition pkt :: "('d, 'k) net_axis list \<Rightarrow> bool" where
  "pkt ws \<longleftrightarrow> ws \<noteq> [] \<and> (\<forall>w\<in>set (butlast ws). \<not> na_last w) \<and> na_last (List.last ws)"

lemma pkt_Cons: "pkt (w # ws) \<longleftrightarrow> (if ws = [] then na_last w else \<not> na_last w \<and> pkt ws)"
  by (auto simp: pkt_def)

lemma pkt_not_Nil: "pkt ws \<Longrightarrow> ws \<noteq> []"
  by (simp add: pkt_def)

section \<open>Element streams\<close>

definition toe_duplicate_stream :: "'a fifo \<times> 'a fifo \<times> 'a fifo \<Rightarrow> 'a fifo \<times> 'a fifo \<times> 'a fifo" where
  "toe_duplicate_stream s = (case s of (inp, out0, out1) \<Rightarrow>
     (case inp of item # rest \<Rightarrow> (rest, out0 @ [item], out1 @ [item]) | [] \<Rightarrow> (inp, out0, out1)))"

text \<open>\<open>ip_handler_duplicate_stream\<close> is a copy of the same code.\<close>

definition ip_handler_duplicate_stream ::
  "'a fifo \<times> 'a fifo \<times> 'a fifo \<Rightarrow> 'a fifo \<times> 'a fifo \<times> 'a fifo" where
  "ip_handler_duplicate_stream s = (case s of (inp, out0, out1) \<Rightarrow>
     (case inp of item # rest \<Rightarrow> (rest, out0 @ [item], out1 @ [item]) | [] \<Rightarrow> (inp, out0, out1)))"

record 'a fair_st =
  merge_pref :: bool
  fm_in0 :: "'a fifo"
  fm_in1 :: "'a fifo"
  fm_out :: "'a fifo"

definition fair_merger :: "'a fair_st \<Rightarrow> 'a fair_st" where
  "fair_merger s =
     (if merge_pref s
      then (case fm_in0 s of
              x # rest \<Rightarrow> s\<lparr>fm_in0 := rest, fm_out := fm_out s @ [x], merge_pref := False\<rparr>
            | [] \<Rightarrow> (case fm_in1 s of
                      x # rest \<Rightarrow> s\<lparr>fm_in1 := rest, fm_out := fm_out s @ [x]\<rparr>
                    | [] \<Rightarrow> s))
      else (case fm_in1 s of
              x # rest \<Rightarrow> s\<lparr>fm_in1 := rest, fm_out := fm_out s @ [x], merge_pref := True\<rparr>
            | [] \<Rightarrow> (case fm_in0 s of
                      x # rest \<Rightarrow> s\<lparr>fm_in0 := rest, fm_out := fm_out s @ [x]\<rparr>
                    | [] \<Rightarrow> s)))"

section \<open>Packet streams\<close>

datatype fwd_state = FS_IDLE | FWD0 | FWD1

record 'a merge_st =
  pm_state :: fwd_state
  pm_origin :: "bool fifo"
  pm_input0 :: "'a fifo"
  pm_input1 :: "'a fifo"
  pm_output :: "'a fifo"

text \<open>The merger with an origin stream (\<open>stream_merger\<close> with four arguments): one element each.\<close>

definition origin_merger :: "'a merge_st \<Rightarrow> 'a merge_st" where
  "origin_merger s =
     (case pm_state s of
        FS_IDLE \<Rightarrow>
          (case pm_origin s of
             origin # rest \<Rightarrow>
               let s = s\<lparr>pm_origin := rest\<rparr>
               in if \<not> origin
                  then (case pm_input0 s of
                          w # ws \<Rightarrow> s\<lparr>pm_input0 := ws, pm_output := pm_output s @ [w]\<rparr>
                        | [] \<Rightarrow> s\<lparr>pm_state := FWD0\<rparr>)
                  else (case pm_input1 s of
                          w # ws \<Rightarrow> s\<lparr>pm_input1 := ws, pm_output := pm_output s @ [w]\<rparr>
                        | [] \<Rightarrow> s\<lparr>pm_state := FWD1\<rparr>)
           | [] \<Rightarrow> s)
      | FWD0 \<Rightarrow>
          (case pm_input0 s of
             w # ws \<Rightarrow> s\<lparr>pm_input0 := ws, pm_output := pm_output s @ [w], pm_state := FS_IDLE\<rparr>
           | [] \<Rightarrow> s)
      | FWD1 \<Rightarrow>
          (case pm_input1 s of
             w # ws \<Rightarrow> s\<lparr>pm_input1 := ws, pm_output := pm_output s @ [w], pm_state := FS_IDLE\<rparr>
           | [] \<Rightarrow> s))"

definition stream_pkg_merger :: "('d, 'k) net_axis merge_st \<Rightarrow> ('d, 'k) net_axis merge_st" where
  "stream_pkg_merger s =
     (case pm_state s of
        FS_IDLE \<Rightarrow>
          (case pm_origin s of
             origin # rest \<Rightarrow>
               let s = s\<lparr>pm_origin := rest\<rparr>
               in if \<not> origin
                  then (case pm_input0 s of
                          w # ws \<Rightarrow>
                            let s = s\<lparr>pm_input0 := ws, pm_output := pm_output s @ [w]\<rparr>
                            in if \<not> na_last w then s\<lparr>pm_state := FWD0\<rparr> else s
                        | [] \<Rightarrow> s\<lparr>pm_state := FWD0\<rparr>)
                  else (case pm_input1 s of
                          w # ws \<Rightarrow>
                            let s = s\<lparr>pm_input1 := ws, pm_output := pm_output s @ [w]\<rparr>
                            in if \<not> na_last w then s\<lparr>pm_state := FWD1\<rparr> else s
                        | [] \<Rightarrow> s\<lparr>pm_state := FWD1\<rparr>)
           | [] \<Rightarrow> s)
      | FWD0 \<Rightarrow>
          (case pm_input0 s of
             w # ws \<Rightarrow>
               let s = s\<lparr>pm_input0 := ws, pm_output := pm_output s @ [w]\<rparr>
               in if na_last w then s\<lparr>pm_state := FS_IDLE\<rparr> else s
           | [] \<Rightarrow> s)
      | FWD1 \<Rightarrow>
          (case pm_input1 s of
             w # ws \<Rightarrow>
               let s = s\<lparr>pm_input1 := ws, pm_output := pm_output s @ [w]\<rparr>
               in if na_last w then s\<lparr>pm_state := FS_IDLE\<rparr> else s
           | [] \<Rightarrow> s))"

record 'a split_st =
  ps_state :: fwd_state
  ps_dest :: "bool fifo"
  ps_input :: "'a fifo"
  ps_output0 :: "'a fifo"
  ps_output1 :: "'a fifo"

definition ps_put :: "bool \<Rightarrow> 'a \<Rightarrow> 'a split_st \<Rightarrow> 'a split_st" where
  "ps_put dest w s = (if \<not> dest then s\<lparr>ps_output0 := ps_output0 s @ [w]\<rparr>
     else s\<lparr>ps_output1 := ps_output1 s @ [w]\<rparr>)"

definition stream_pkg_splitter :: "('d, 'k) net_axis split_st \<Rightarrow> ('d, 'k) net_axis split_st" where
  "stream_pkg_splitter s =
     (case ps_state s of
        FS_IDLE \<Rightarrow>
          (case ps_dest s of
             dest # rest \<Rightarrow>
               let s = s\<lparr>ps_dest := rest, ps_state := (if \<not> dest then FWD0 else FWD1)\<rparr>
               in (case ps_input s of
                     w # ws \<Rightarrow>
                       let s = ps_put dest w (s\<lparr>ps_input := ws\<rparr>)
                       in if na_last w then s\<lparr>ps_state := FS_IDLE\<rparr> else s
                   | [] \<Rightarrow> s)
           | [] \<Rightarrow> s)
      | FWD0 \<Rightarrow>
          (case ps_input s of
             w # ws \<Rightarrow>
               let s = ps_put False w (s\<lparr>ps_input := ws\<rparr>)
               in if na_last w then s\<lparr>ps_state := FS_IDLE\<rparr> else s
           | [] \<Rightarrow> s)
      | FWD1 \<Rightarrow>
          (case ps_input s of
             w # ws \<Rightarrow>
               let s = ps_put True w (s\<lparr>ps_input := ws\<rparr>)
               in if na_last w then s\<lparr>ps_state := FS_IDLE\<rparr> else s
           | [] \<Rightarrow> s))"

text \<open>
  \<open>fair_pkg_merger\<close>: \<open>currWord.last\<close> is cleared first, so an idle cycle without input ends with
  the state it had.
\<close>

record 'a fpm_st =
  fpm_state :: fwd_state
  fpm_pref :: bool
  fpm_in0 :: "'a fifo"
  fpm_in1 :: "'a fifo"
  fpm_out :: "'a fifo"

definition fpm_end :: "('d, 'k) net_axis \<Rightarrow> ('d, 'k) net_axis fpm_st \<Rightarrow> ('d, 'k) net_axis fpm_st" where
  "fpm_end currWord s = (if na_last currWord then s\<lparr>fpm_state := FS_IDLE\<rparr> else s)"

definition fair_pkg_merger :: "('d, 'k) net_axis fpm_st \<Rightarrow> ('d, 'k) net_axis fpm_st" where
  "fair_pkg_merger s =
     (case fpm_state s of
        FS_IDLE \<Rightarrow>
          (if fpm_pref s
           then (case fpm_in0 s of
                   w # ws \<Rightarrow>
                     fpm_end w (s\<lparr>fpm_in0 := ws, fpm_out := fpm_out s @ [w], fpm_state := FWD1\<rparr>)
                 | [] \<Rightarrow> (case fpm_in1 s of
                     w # ws \<Rightarrow>
                       fpm_end w (s\<lparr>fpm_in1 := ws, fpm_out := fpm_out s @ [w], fpm_state := FWD1\<rparr>)
                   | [] \<Rightarrow> s))
           else (case fpm_in1 s of
                   w # ws \<Rightarrow>
                     fpm_end w (s\<lparr>fpm_in1 := ws, fpm_out := fpm_out s @ [w], fpm_state := FWD1\<rparr>)
                 | [] \<Rightarrow> (case fpm_in0 s of
                     w # ws \<Rightarrow>
                       fpm_end w (s\<lparr>fpm_in0 := ws, fpm_out := fpm_out s @ [w], fpm_state := FWD0\<rparr>)
                   | [] \<Rightarrow> s)))
      | FWD0 \<Rightarrow>
          (case fpm_in0 s of
             w # ws \<Rightarrow>
               let s = s\<lparr>fpm_in0 := ws, fpm_out := fpm_out s @ [w]\<rparr>
               in if na_last w then s\<lparr>fpm_pref := False, fpm_state := FS_IDLE\<rparr> else s
           | [] \<Rightarrow> s)
      | FWD1 \<Rightarrow>
          (case fpm_in1 s of
             w # ws \<Rightarrow>
               let s = s\<lparr>fpm_in1 := ws, fpm_out := fpm_out s @ [w]\<rparr>
               in if na_last w then s\<lparr>fpm_pref := True, fpm_state := FS_IDLE\<rparr> else s
           | [] \<Rightarrow> s))"

datatype pvp_state = VALID | FWD | DROP

record 'a pvp_st =
  pvp_state :: pvp_state
  pvp_valid :: "bool fifo"
  pvp_input :: "'a fifo"
  pvp_output :: "'a fifo"

definition pass_valid_pkg :: "('d, 'k) net_axis pvp_st \<Rightarrow> ('d, 'k) net_axis pvp_st" where
  "pass_valid_pkg s =
     (case pvp_state s of
        VALID \<Rightarrow>
          (case (pvp_valid s, pvp_input s) of
             (valid # vs, w # ws) \<Rightarrow>
               let s = s\<lparr>pvp_valid := vs, pvp_input := ws\<rparr>
               in if valid
                  then let s = s\<lparr>pvp_output := pvp_output s @ [w]\<rparr>
                       in if \<not> na_last w then s\<lparr>pvp_state := FWD\<rparr> else s
                  else if \<not> na_last w then s\<lparr>pvp_state := DROP\<rparr> else s
           | _ \<Rightarrow> s)
      | FWD \<Rightarrow>
          (case pvp_input s of
             w # ws \<Rightarrow>
               let s = s\<lparr>pvp_input := ws, pvp_output := pvp_output s @ [w]\<rparr>
               in if na_last w then s\<lparr>pvp_state := VALID\<rparr> else s
           | [] \<Rightarrow> s)
      | DROP \<Rightarrow>
          (case pvp_input s of
             w # ws \<Rightarrow>
               let s = s\<lparr>pvp_input := ws\<rparr>
               in if na_last w then s\<lparr>pvp_state := VALID\<rparr> else s
           | [] \<Rightarrow> s))"

section \<open>Splitting and merging\<close>

definition fwd :: "bool \<Rightarrow> fwd_state" where
  "fwd d = (if d then FWD1 else FWD0)"

text \<open>
  What the splitter, the merger and \<open>pass_valid_pkg\<close> share: once a decision has been taken
  (\<open>start\<close>), every word of a packet is treated the same way (\<open>eat\<close>), the last one ends it
  (\<open>fin\<close>); the first word is treated in the cycle that takes the decision.
\<close>

locale word_mover =
  fixes cyc :: "'s \<Rightarrow> 's" and inp :: "'s \<Rightarrow> ('d, 'k) net_axis list"
    and ready busy :: "'s \<Rightarrow> bool" and start fin :: "'s \<Rightarrow> 's" and eat :: "('d, 'k) net_axis \<Rightarrow> 's \<Rightarrow> 's"
  assumes busy_word: "busy s \<Longrightarrow> inp s = w # ws \<Longrightarrow>
      cyc s = (if na_last w then fin (eat w s) else eat w s)"
    and ready_word: "ready s \<Longrightarrow> inp s = w # ws \<Longrightarrow>
      cyc s = (if na_last w then fin (eat w (start s)) else eat w (start s))"
    and start_busy: "ready s \<Longrightarrow> busy (start s) \<and> inp (start s) = inp s"
    and eat_busy: "busy s \<Longrightarrow> busy (eat w s) \<and> inp (eat w s) = tl (inp s)"

context word_mover begin

lemma run: "pkt p \<Longrightarrow> busy s \<Longrightarrow> inp s = p @ rest \<Longrightarrow> (cyc ^^ length p) s = fin (fold eat p s)"
proof (induction p arbitrary: s)
  case (Cons w ws)
  show ?case
  proof (cases "ws = []")
    case True
    with Cons.prems show ?thesis by (simp add: pkt_Cons busy_word)
  next
    case False
    with Cons.prems have c: "cyc s = eat w s" "pkt ws" by (simp_all add: pkt_Cons busy_word)
    have "(cyc ^^ length ws) (eat w s) = fin (fold eat ws (eat w s))"
      by (rule Cons.IH) (use c(2) Cons.prems eat_busy in simp_all)
    with c(1) show ?thesis by (simp add: funpow_Suc_right del: funpow.simps(2))
  qed
qed (simp add: pkt_def)

lemma packet:
  assumes "pkt p" "ready s" "inp s = p @ rest"
  shows "(cyc ^^ length p) s = fin (fold eat p (start s))"
proof -
  obtain w ws where p: "p = w # ws" using assms(1) by (cases p) (simp_all add: pkt_def)
  show ?thesis
  proof (cases "ws = []")
    case True
    with assms p show ?thesis by (simp add: pkt_Cons ready_word)
  next
    case False
    with assms p have c: "cyc s = eat w (start s)" "pkt ws" by (simp_all add: pkt_Cons ready_word)
    have "(cyc ^^ length ws) (eat w (start s)) = fin (fold eat ws (eat w (start s)))"
      by (rule run [where rest = rest]) (use c(2) assms p start_busy eat_busy in simp_all)
    with c(1) show ?thesis by (simp add: p funpow_Suc_right del: funpow.simps(2))
  qed
qed

end

lemma ps_put_simps [simp]:
  "ps_state (ps_put d w s) = ps_state s" "ps_dest (ps_put d w s) = ps_dest s"
  "ps_input (ps_put d w s) = ps_input s"
  by (simp_all add: ps_put_def)

interpretation splitter: word_mover stream_pkg_splitter ps_input
  "\<lambda>s. ps_state s = FS_IDLE \<and> (\<exists>ds. ps_dest s = d # ds)" "\<lambda>s. ps_state s = fwd d"
  "\<lambda>s. s\<lparr>ps_dest := tl (ps_dest s), ps_state := fwd d\<rparr>" "\<lambda>s. s\<lparr>ps_state := FS_IDLE\<rparr>"
  "\<lambda>w s. ps_put d w (s\<lparr>ps_input := tl (ps_input s)\<rparr>)" for d
  by unfold_locales
    (auto simp: stream_pkg_splitter_def fwd_def ps_put_def Let_def split: if_splits)

lemma split_fold: "ps_input s = p @ rest \<Longrightarrow>
    fold (\<lambda>w s. ps_put d w (s\<lparr>ps_input := tl (ps_input s)\<rparr>)) p s =
    s\<lparr>ps_input := rest, ps_output0 := ps_output0 s @ (if d then [] else p),
      ps_output1 := ps_output1 s @ (if d then p else [])\<rparr>"
  by (induction p arbitrary: s) (auto simp: ps_put_def)

text \<open>The packets that go to one side.\<close>

definition side :: "bool \<Rightarrow> bool list \<Rightarrow> 'a list list \<Rightarrow> 'a list" where
  "side d ds ps = concat (map snd (filter (\<lambda>x. fst x = d) (zip ds ps)))"

lemma side_simps [simp]:
  "side d (b # ds) (p # ps) = (if b = d then p else []) @ side d ds ps" "side d [] ps = []"
  by (simp_all add: side_def)

lemma split_all:
  assumes "\<forall>p\<in>set ps. pkt p" "length ds = length ps"
    and "ps_state s = FS_IDLE" "ps_dest s = ds @ ds'" "ps_input s = concat ps @ rest"
  shows "(stream_pkg_splitter ^^ length (concat ps)) s =
     s\<lparr>ps_dest := ds', ps_input := rest, ps_output0 := ps_output0 s @ side False ds ps,
       ps_output1 := ps_output1 s @ side True ds ps\<rparr>"
  using assms
proof (induction ps arbitrary: ds s)
  case (Cons p ps)
  then obtain d ds0 where ds: "ds = d # ds0" "length ds0 = length ps" by (cases ds) auto
  let ?t = "s\<lparr>ps_dest := ds0 @ ds', ps_input := concat ps @ rest,
    ps_output0 := ps_output0 s @ (if d then [] else p), ps_output1 := ps_output1 s @ (if d then p else [])\<rparr>"
  have t: "(stream_pkg_splitter ^^ length p) s = ?t"
    using splitter.packet [of p s d "concat ps @ rest"] Cons.prems ds
    by (cases s) (simp add: split_fold [where rest = "concat ps @ rest"])
  have "(stream_pkg_splitter ^^ length (concat ps)) ?t = ?t\<lparr>ps_dest := ds', ps_input := rest,
      ps_output0 := ps_output0 ?t @ side False ds0 ps, ps_output1 := ps_output1 ?t @ side True ds0 ps\<rparr>"
    by (rule Cons.IH) (use Cons.prems ds in simp_all)
  with t ds show ?case by (simp add: add.commute [of "length p"] funpow_add)
qed simp

definition pm_in :: "bool \<Rightarrow> 'a merge_st \<Rightarrow> 'a list" where
  "pm_in d s = (if d then pm_input1 s else pm_input0 s)"

definition pm_eat :: "bool \<Rightarrow> 'a \<Rightarrow> 'a merge_st \<Rightarrow> 'a merge_st" where
  "pm_eat d w s = (if d then s\<lparr>pm_input1 := tl (pm_input1 s), pm_output := pm_output s @ [w]\<rparr>
     else s\<lparr>pm_input0 := tl (pm_input0 s), pm_output := pm_output s @ [w]\<rparr>)"

interpretation merger: word_mover
  "stream_pkg_merger :: ('d, 'k) net_axis merge_st \<Rightarrow> ('d, 'k) net_axis merge_st" "pm_in d"
  "\<lambda>s. pm_state s = FS_IDLE \<and> (\<exists>ds. pm_origin s = d # ds)" "\<lambda>s. pm_state s = fwd d"
  "\<lambda>s. s\<lparr>pm_origin := tl (pm_origin s), pm_state := fwd d\<rparr>" "\<lambda>s. s\<lparr>pm_state := FS_IDLE\<rparr>"
  "pm_eat d" for d
proof unfold_locales
  fix s :: "('d, 'k) net_axis merge_st" and w ws
  assume "pm_state s = FS_IDLE \<and> (\<exists>ds. pm_origin s = d # ds)" "pm_in d s = w # ws"
  then show "stream_pkg_merger s =
      (if na_last w
       then pm_eat d w (s\<lparr>pm_origin := tl (pm_origin s), pm_state := fwd d\<rparr>)\<lparr>pm_state := FS_IDLE\<rparr>
       else pm_eat d w (s\<lparr>pm_origin := tl (pm_origin s), pm_state := fwd d\<rparr>))"
    by (cases s) (auto simp: stream_pkg_merger_def fwd_def pm_in_def pm_eat_def Let_def split: if_splits)
qed (auto simp: stream_pkg_merger_def fwd_def pm_in_def pm_eat_def Let_def split: if_splits)

lemma merge_fold: "pm_in d s = p @ rest \<Longrightarrow> fold (pm_eat d) p s =
    (if d then s\<lparr>pm_input1 := rest, pm_output := pm_output s @ p\<rparr>
     else s\<lparr>pm_input0 := rest, pm_output := pm_output s @ p\<rparr>)"
  by (induction p arbitrary: s) (auto simp: pm_in_def pm_eat_def split: if_splits)

lemma merge_all:
  assumes "\<forall>p\<in>set ps. pkt p" "length ds = length ps" "pm_state s = FS_IDLE" "pm_origin s = ds @ ds'"
    and "pm_input0 s = side False ds ps @ r0" "pm_input1 s = side True ds ps @ r1"
  shows "(stream_pkg_merger ^^ length (concat ps)) s =
     s\<lparr>pm_origin := ds', pm_input0 := r0, pm_input1 := r1, pm_output := pm_output s @ concat ps\<rparr>"
  using assms
proof (induction ps arbitrary: ds s)
  case (Cons p ps)
  then obtain d ds0 where ds: "ds = d # ds0" "length ds0 = length ps" by (cases ds) auto
  let ?t = "s\<lparr>pm_origin := ds0 @ ds', pm_input0 := side False ds0 ps @ r0,
    pm_input1 := side True ds0 ps @ r1, pm_output := pm_output s @ p\<rparr>"
  let ?rest = "if d then side True ds0 ps @ r1 else side False ds0 ps @ r0"
  let ?u = "s\<lparr>pm_origin := tl (pm_origin s), pm_state := fwd d\<rparr>"
  have "pm_in d ?u = p @ ?rest" using Cons.prems(5,6) ds by (simp add: pm_in_def)
  note f = merge_fold [OF this]
  have t: "(stream_pkg_merger ^^ length p) s = ?t"
  proof -
    have "(stream_pkg_merger ^^ length p) s = (fold (pm_eat d) p ?u)\<lparr>pm_state := FS_IDLE\<rparr>"
      by (rule merger.packet [where rest = ?rest]) (use Cons.prems ds in \<open>simp_all add: pm_in_def\<close>)
    then show ?thesis unfolding f using Cons.prems ds by (cases s) simp
  qed
  have "(stream_pkg_merger ^^ length (concat ps)) ?t = ?t\<lparr>pm_origin := ds', pm_input0 := r0,
      pm_input1 := r1, pm_output := pm_output ?t @ concat ps\<rparr>"
    by (rule Cons.IH) (use Cons.prems ds in simp_all)
  with t show ?case by (simp add: add.commute [of "length p"] funpow_add)
qed simp

text \<open>C28: splitting and merging are inverse.  The splitter sends every packet of its input whole to
  the side the next entry of \<open>destIn\<close> names, in as many cycles as there are words, and a merger that is
  given the same entries restores the stream.\<close>

theorem split_merge_roundtrip:
  assumes "\<forall>p\<in>set ps. pkt p" and "length ds = length ps"
    and "ps_state s = FS_IDLE" "ps_dest s = ds @ ds'" "ps_input s = concat ps @ rest"
    and "ps_output0 s = []" "ps_output1 s = []"
    and "pm_state m = FS_IDLE" "pm_origin m = ds @ ds''" "pm_output m = []"
  defines "n \<equiv> length (concat ps)"
  defines "t \<equiv> (stream_pkg_splitter ^^ n) s"
  assumes "pm_input0 m = ps_output0 t" "pm_input1 m = ps_output1 t"
  shows "ps_output0 t = side False ds ps \<and> ps_output1 t = side True ds ps \<and>
    ps_input t = rest \<and> ps_dest t = ds' \<and>
    pm_output ((stream_pkg_merger ^^ n) m) = concat ps"
proof -
  have t: "t = s\<lparr>ps_dest := ds', ps_input := rest, ps_output0 := side False ds ps,
      ps_output1 := side True ds ps\<rparr>"
    unfolding t_def n_def using split_all [OF assms(1-5)] assms(6,7) by simp
  have "(stream_pkg_merger ^^ n) m = m\<lparr>pm_origin := ds'', pm_input0 := [], pm_input1 := [],
      pm_output := pm_output m @ concat ps\<rparr>"
    unfolding n_def
    by (rule merge_all [OF assms(1,2,8,9)]) (use assms(13,14) in \<open>simp_all add: t\<close>)
  with t assms(10) show ?thesis by simp
qed

definition ex_word :: "bool \<Rightarrow> u8 \<Rightarrow> (u8, bool) net_axis" where
  "ex_word l d = \<lparr>na_data = d, na_keep = True, na_last = l\<rparr>"

definition ex_pkts :: "(u8, bool) net_axis list list" where
  "ex_pkts = [[ex_word False 1, ex_word True 2], [ex_word True 3]]"

definition split_ex :: "(u8, bool) net_axis split_st" where
  "split_ex = \<lparr>ps_state = FS_IDLE, ps_dest = [True, False], ps_input = concat ex_pkts,
     ps_output0 = [], ps_output1 = []\<rparr>"

definition merge_ex :: "(u8, bool) net_axis merge_st" where
  "merge_ex = \<lparr>pm_state = FS_IDLE, pm_origin = [True, False],
     pm_input0 = ps_output0 ((stream_pkg_splitter ^^ 3) split_ex),
     pm_input1 = ps_output1 ((stream_pkg_splitter ^^ 3) split_ex), pm_output = []\<rparr>"

lemma ex_pkts: "\<forall>p\<in>set ex_pkts. pkt p" "length (concat ex_pkts) = 3" "length ex_pkts = 2"
  by (simp_all add: ex_pkts_def pkt_def ex_word_def)

theorem split_merge_roundtrip_witness:
  "ps_output1 ((stream_pkg_splitter ^^ 3) split_ex) = [ex_word False 1, ex_word True 2] \<and>
   pm_output ((stream_pkg_merger ^^ 3) merge_ex) = concat ex_pkts"
proof -
  have h: "ps_state split_ex = FS_IDLE" "ps_dest split_ex = [True, False] @ []"
    "ps_input split_ex = concat ex_pkts @ []" "ps_output0 split_ex = []" "ps_output1 split_ex = []"
    "pm_state merge_ex = FS_IDLE" "pm_origin merge_ex = [True, False] @ []" "pm_output merge_ex = []"
    "pm_input0 merge_ex = ps_output0 ((stream_pkg_splitter ^^ length (concat ex_pkts)) split_ex)"
    "pm_input1 merge_ex = ps_output1 ((stream_pkg_splitter ^^ length (concat ex_pkts)) split_ex)"
    unfolding ex_pkts(2) by (simp_all add: split_ex_def merge_ex_def)
  have "length [True, False] = length ex_pkts" by (simp add: ex_pkts(3))
  from split_merge_roundtrip [OF ex_pkts(1) this h] show ?thesis
    unfolding ex_pkts(2) by (simp add: ex_pkts_def)
qed

interpretation valid: word_mover pass_valid_pkg pvp_input
  "\<lambda>s. pvp_state s = VALID \<and> (\<exists>vs. pvp_valid s = v # vs)"
  "\<lambda>s. pvp_state s = (if v then FWD else DROP)"
  "\<lambda>s. s\<lparr>pvp_valid := tl (pvp_valid s), pvp_state := (if v then FWD else DROP)\<rparr>"
  "\<lambda>s. s\<lparr>pvp_state := VALID\<rparr>"
  "\<lambda>w s. s\<lparr>pvp_input := tl (pvp_input s), pvp_output := pvp_output s @ (if v then [w] else [])\<rparr>" for v
  by unfold_locales (auto simp: pass_valid_pkg_def Let_def split: if_splits)

lemma valid_fold: "pvp_input s = p @ rest \<Longrightarrow>
    fold (\<lambda>w s. s\<lparr>pvp_input := tl (pvp_input s), pvp_output := pvp_output s @ (if v then [w] else [])\<rparr>) p s =
    s\<lparr>pvp_input := rest, pvp_output := pvp_output s @ (if v then p else [])\<rparr>"
  by (induction p arbitrary: s) auto

text \<open>\<open>pass_valid_pkg\<close> passes exactly the packets marked valid, whole and in order, one word per
  cycle, and uses up one mark per packet.\<close>

theorem pass_valid_packets:
  assumes "\<forall>p\<in>set ps. pkt p" and "length vs = length ps"
    and "pvp_state s = VALID" "pvp_valid s = vs @ vs'" "pvp_input s = concat ps @ rest"
  shows "(pass_valid_pkg ^^ length (concat ps)) s =
     s\<lparr>pvp_valid := vs', pvp_input := rest, pvp_output := pvp_output s @ side True vs ps\<rparr>"
  using assms
proof (induction ps arbitrary: vs s)
  case (Cons p ps)
  then obtain v vs0 where vs: "vs = v # vs0" "length vs0 = length ps" by (cases vs) auto
  let ?t = "s\<lparr>pvp_valid := vs0 @ vs', pvp_input := concat ps @ rest,
    pvp_output := pvp_output s @ (if v then p else [])\<rparr>"
  have t: "(pass_valid_pkg ^^ length p) s = ?t"
    using valid.packet [of p s v "concat ps @ rest"] Cons.prems vs
    by (cases s) (simp add: valid_fold [where rest = "concat ps @ rest"])
  have "(pass_valid_pkg ^^ length (concat ps)) ?t = ?t\<lparr>pvp_valid := vs', pvp_input := rest,
      pvp_output := pvp_output ?t @ side True vs0 ps\<rparr>"
    by (rule Cons.IH) (use Cons.prems vs in simp_all)
  with t vs show ?case by (simp add: add.commute [of "length p"] funpow_add)
qed simp

theorem pass_valid_packets_witness:
  "pvp_output ((pass_valid_pkg ^^ 3) \<lparr>pvp_state = VALID, pvp_valid = [False, True],
     pvp_input = [ex_word False 1, ex_word True 2, ex_word True 3], pvp_output = []\<rparr>) = [ex_word True 3]"
  using pass_valid_packets [of "[[ex_word False 1, ex_word True 2], [ex_word True 3]]" "[False, True]"
      "\<lparr>pvp_state = VALID, pvp_valid = [False, True],
         pvp_input = [ex_word False 1, ex_word True 2, ex_word True 3], pvp_output = []\<rparr>" "[]" "[]"]
  by (simp add: pkt_def ex_word_def numeral_3_eq_3)

end
