(* ===== verification/Pkg_Pusher.thy ===== *)
theory Pkg_Pusher
  imports Tx_App Axi_Utils
begin

text \<open>
  \<open>tx_app_stream_if/tx_app_stream_if.cpp\<close>, data path: \<open>tasi_pkg_pusher\<close> writes the bytes of an
  admitted request into the transmit buffer of its session, a ring of \<open>BUFFER_SIZE\<close> bytes.  A
  packet that reaches the end of the ring is cut, and its second part is realigned and written
  from the start of the ring.  \<open>alignWords\<close> of \<open>axi_utils.hpp\<close> does the realignment.

  The specification is on addresses: \<open>placed\<close> is what a write command and a packet do to the
  memory, and the whole request puts byte \<open>i\<close> at position \<open>i\<close> of the ring after its first byte.
\<close>

section \<open>Aligning two words\<close>

text \<open>
  \<open>last\<close> is not assigned, so it keeps the value of the uninitialised local variable: that is the
  argument \<open>alignedWord\<close>.
\<close>

definition alignWords ::
  "('w::len, 'k::len) axis \<Rightarrow> 6 word \<Rightarrow> ('w, 'k) axis \<Rightarrow> ('w, 'k) axis \<Rightarrow> ('w, 'k) axis" where
  "alignWords alignedWord offset prevWord currWord =
     (let off = unat offset
      in \<lparr>na_data =
            put_bits (LENGTH('w) - 8 * off - 1) 0
              (bits (LENGTH('w) - 1) (8 * off) (na_data prevWord) :: 'w word)
              (put_bits (LENGTH('w) - 1) (LENGTH('w) - 8 * off)
                (bits (8 * off - 1) 0 (na_data currWord) :: 'w word) (na_data alignedWord)),
          na_keep =
            put_bits (LENGTH('k) - off - 1) 0
              (bits (LENGTH('k) - 1) off (na_keep prevWord) :: 'k word)
              (put_bits (LENGTH('k) - 1) (LENGTH('k) - off)
                (bits (off - 1) 0 (na_keep currWord) :: 'k word) (na_keep alignedWord)),
          na_last = na_last alignedWord\<rparr>)"

lemma cells_alignWords:
  fixes p c u :: "('w::len, 'k::len) axis"
  assumes w: "LENGTH('w) = 8 * LENGTH('k)" "m = unat off" "0 < m" "m < LENGTH('k)"
  shows "cells (alignWords u off p c) = drop m (cells p) @ take m (cells c)"
proof (rule nth_equalityI)
  let ?v = "alignWords u off p c"
  fix i assume "i < length (cells ?v)"
  then have i: "i < LENGTH('k)" by simp
  have b: "byte i (na_data ?v) = (if i < LENGTH('k) - m then byte (m + i) (na_data p)
      else byte (i - (LENGTH('k) - m)) (na_data c))"
  proof (rule bit_word_eqI)
    fix n assume n: "n < LENGTH(8)"
    have e: "8 * m + (8 * i + n) = 8 * (m + i) + n"
      "LENGTH('k) - m \<le> i \<Longrightarrow> 8 * i + n - (8 * LENGTH('k) - 8 * m) = 8 * (i - (LENGTH('k) - m)) + n"
      using w by simp_all
    show "bit (byte i (na_data ?v)) n = bit (if i < LENGTH('k) - m then byte (m + i) (na_data p)
      else byte (i - (LENGTH('k) - m)) (na_data c)) n"
    proof (cases "i < LENGTH('k) - m")
      case True
      then have "8 * i + n \<le> LENGTH('w) - 8 * m - 1" "8 * i + n < LENGTH('w)" "8 * m + (8 * i + n) < LENGTH('w)"
        using w n by simp_all
      then show ?thesis
        using n True by (simp add: bit_byte alignWords_def Let_def w(2) [symmetric] bit_put_bits bit_bits e(1))
    next
      case False
      then have "\<not> 8 * i + n \<le> LENGTH('w) - 8 * m - 1" "LENGTH('w) - 8 * m \<le> 8 * i + n"
        "8 * i + n < LENGTH('w)" "8 * (i - (LENGTH('k) - m)) + n \<le> 8 * m - 1"
        "8 * (i - (LENGTH('k) - m)) + n < LENGTH('w)"
        using w n i by simp_all
      with False n show ?thesis
        by (simp add: bit_byte alignWords_def Let_def w(2) [symmetric] bit_put_bits bit_bits)
          (simp add: w(1) e(2))
    qed
  qed
  have k: "bit (na_keep ?v) i = (if i < LENGTH('k) - m then bit (na_keep p) (m + i)
      else bit (na_keep c) (i - (LENGTH('k) - m)))"
    using i w(3,4) by (auto simp: alignWords_def Let_def w(2) [symmetric] bit_put_bits bit_bits)
  show "cells ?v ! i = (drop m (cells p) @ take m (cells c)) ! i"
    using i w(3,4) by (simp add: nth_cells nth_append b k)
qed (use w in simp)

lemma na_last_alignWords [simp]: "na_last (alignWords u off p c) = na_last u"
  by (simp add: alignWords_def Let_def)

section \<open>Writing a request into the ring\<close>

text \<open>\<open>ConstLog2\<close> of \<open>toe.hpp\<close>; it is applied to powers of two only.\<close>

fun ConstLog2 :: "nat \<Rightarrow> nat" where
  "ConstLog2 val = (if val \<le> 1 then 0 else 1 + ConstLog2 (val div 2))"

declare ConstLog2.simps [simp del]

lemma ConstLog2_power [simp]: "ConstLog2 (2 ^ d) = d"
proof (induction d)
  case (Suc d)
  have "(1 :: nat) \<le> 2 ^ d" by simp
  then have "\<not> (2 :: nat) ^ Suc d \<le> 1" unfolding power_Suc by linarith
  then show ?case using Suc by (subst ConstLog2.simps) simp
qed (simp add: ConstLog2.simps)

datatype tasiPkgPushFsm = IDLE | IMPROVE_TIMING | CUT_FIRST | ALIGN_SECOND | FWD_ALIGNED | RESIDUE

record 'a pusher_st =
  tasiPkgPushState :: tasiPkgPushFsm
  pp_cmd :: mmCmd
  remainingLength :: u18
  lengthFirstPkg :: u18
  pp_offset :: u8
  pp_prevWord :: 'a
  meta2pkgPushCmd :: "mmCmd fifo"
  appTxDataIn :: "'a fifo"
  txBufferWriteCmd :: "mmCmd fifo"
  txBufferWriteData :: "'a fifo"

text \<open>\<open>cmd.saddr(WINDOW_BITS-1, 0) = 0; cmd.bbt -= lengthFirstPkg\<close>\<close>

definition second_cmd :: "u18 \<Rightarrow> mmCmd \<Rightarrow> mmCmd" where
  "second_cmd lenFirst cmd =
     cmd\<lparr>mm_bbt := mm_bbt cmd - ucast lenFirst,
         mm_saddr := put_bits (WINDOW_BITS - 1) 0 (0 :: u18) (mm_saddr cmd)\<rparr>"

definition crosses_end :: "mmCmd \<Rightarrow> bool" where
  "crosses_end cmd \<longleftrightarrow>
     unat (bits (WINDOW_BITS - 1) 0 (mm_saddr cmd) :: u18) + unat (mm_bbt cmd) > BUFFER_SIZE"

definition pp_improve ::
  "('w::len, 'k::len) axis pusher_st \<Rightarrow> ('w, 'k) axis pusher_st" where
  "pp_improve s =
     (if crosses_end (pp_cmd s)
      then let len = ucast ((of_nat BUFFER_SIZE :: u32) - mm_saddr (pp_cmd s)) :: u18
           in s\<lparr>lengthFirstPkg := len, remainingLength := len,
                pp_offset := bits (ConstLog2 (LENGTH('k)) - 1) 0 len,
                txBufferWriteCmd := txBufferWriteCmd s @ [mmCmd_mk (mm_saddr (pp_cmd s)) (ucast len)],
                tasiPkgPushState := CUT_FIRST\<rparr>
      else s\<lparr>txBufferWriteCmd := txBufferWriteCmd s @ [pp_cmd s],
             tasiPkgPushState := FWD_ALIGNED\<rparr>)"

definition pp_cut ::
  "('w::len, 'k::len) axis pusher_st \<Rightarrow> ('w, 'k) axis pusher_st" where
  "pp_cut s =
     (case appTxDataIn s of
        w # rest \<Rightarrow>
          let s = s\<lparr>appTxDataIn := rest, pp_prevWord := w\<rparr>;
              send = (\<lambda>w s. s\<lparr>txBufferWriteData := txBufferWriteData s @ [w]\<rparr>);
              second = second_cmd (lengthFirstPkg s) (pp_cmd s)
          in if unat (remainingLength s) > LENGTH('w) div 8
             then send w (s\<lparr>remainingLength := remainingLength s - of_nat (LENGTH('w) div 8)\<rparr>)
             else if unat (remainingLength s) = LENGTH('w) div 8
             then send (w\<lparr>na_last := True\<rparr>)
                    (s\<lparr>pp_cmd := second, txBufferWriteCmd := txBufferWriteCmd s @ [second],
                       tasiPkgPushState := FWD_ALIGNED\<rparr>)
             else send (w\<lparr>na_keep := ucast (lenToKeep (ucast (remainingLength s))), na_last := True\<rparr>)
                    (s\<lparr>pp_cmd := second, txBufferWriteCmd := txBufferWriteCmd s @ [second],
                       tasiPkgPushState := (if na_last w then RESIDUE else ALIGN_SECOND)\<rparr>)
      | [] \<Rightarrow> s)"

text \<open>
  \<open>u\<close> is the value of the local words before they are assigned: \<open>alignedWord\<close> of
  \<open>alignWords\<close> and \<open>emptyWord\<close> of the state \<open>RESIDUE\<close>.
\<close>

definition tasi_pkg_pusher ::
  "('w::len, 'k::len) axis \<Rightarrow> ('w, 'k) axis pusher_st \<Rightarrow> ('w, 'k) axis pusher_st" where
  "tasi_pkg_pusher u s =
     (case tasiPkgPushState s of
        IDLE \<Rightarrow>
          (case meta2pkgPushCmd s of
             cmd # rest \<Rightarrow>
               s\<lparr>meta2pkgPushCmd := rest, pp_cmd := cmd, tasiPkgPushState := IMPROVE_TIMING\<rparr>
           | [] \<Rightarrow> s)
      | IMPROVE_TIMING \<Rightarrow> pp_improve s
      | CUT_FIRST \<Rightarrow> pp_cut s
      | FWD_ALIGNED \<Rightarrow>
          (case appTxDataIn s of
             w # rest \<Rightarrow>
               let s = s\<lparr>appTxDataIn := rest, txBufferWriteData := txBufferWriteData s @ [w]\<rparr>
               in if na_last w then s\<lparr>tasiPkgPushState := IDLE\<rparr> else s
           | [] \<Rightarrow> s)
      | ALIGN_SECOND \<Rightarrow>
          (case appTxDataIn s of
             w # rest \<Rightarrow>
               let sendWord = (alignWords u (ucast (pp_offset s)) (pp_prevWord s) w)
                     \<lparr>na_last := \<not> bit (na_keep w) (unat (pp_offset s))\<rparr>;
                   s = s\<lparr>appTxDataIn := rest, pp_prevWord := w,
                         txBufferWriteData := txBufferWriteData s @ [sendWord]\<rparr>
               in if na_last w
                  then s\<lparr>tasiPkgPushState := (if na_last sendWord then IDLE else RESIDUE)\<rparr> else s
           | [] \<Rightarrow> s)
      | RESIDUE \<Rightarrow>
          let sendWord = (alignWords u (ucast (pp_offset s)) (pp_prevWord s) u)\<lparr>na_last := True\<rparr>
          in s\<lparr>txBufferWriteData := txBufferWriteData s @ [sendWord], tasiPkgPushState := IDLE\<rparr>)"

text \<open>
  \<open>tx_app_stream_if\<close>: the loader and the pusher, joined by the stream
  \<open>tasi_meta2pkgPushCmd\<close>.  (With \<open>TCP_NODELAY\<close> the data also goes to the transmit engine,
  through \<open>toe_duplicate_stream\<close>.)
\<close>

definition tx_app_stream_if ::
  "('w::len, 'k::len) axis \<Rightarrow> tasi_st \<times> ('w, 'k) axis pusher_st \<Rightarrow> tasi_st \<times> ('w, 'k) axis pusher_st" where
  "tx_app_stream_if u x =
     (let t = tasi_metaLoader (fst x);
          p = (snd x)\<lparr>meta2pkgPushCmd := meta2pkgPushCmd (snd x) @ tasi_meta2pkgPushCmd t\<rparr>
      in (t\<lparr>tasi_meta2pkgPushCmd := []\<rparr>, tasi_pkg_pusher u p))"

section \<open>The realigned second part\<close>

text \<open>
  The data widths the code supports: \<open>2 ^ d\<close> bytes with \<open>d \<le> 6\<close>; \<open>lenToKeep\<close> counts to 64.
\<close>

definition widths_ok :: "('w::len, 'k::len) axis \<Rightarrow> bool" where
  "widths_ok w \<longleftrightarrow> LENGTH('w) = 8 * LENGTH('k) \<and>
     (\<exists>d\<in>{1..6}. LENGTH('k) = 2 ^ d)"

lemma widths_ok_bound: "widths_ok (u :: ('w::len, 'k::len) axis) \<Longrightarrow> LENGTH('k) \<le> 64"
proof -
  assume "widths_ok u"
  then obtain d where "d \<le> 6" "LENGTH('k) = 2 ^ d" by (auto simp: widths_ok_def)
  then show ?thesis using power_increasing [of d 6 "2 :: nat"] by simp
qed

definition pp_frame :: "mmCmd list \<Rightarrow> mmCmd list \<Rightarrow> 'a pusher_st \<Rightarrow> bool" where
  "pp_frame cs ws s \<longleftrightarrow> meta2pkgPushCmd s = cs \<and> txBufferWriteCmd s = ws"

definition pp_aligned :: "('w::len, 'k::len) axis \<Rightarrow> u8 option list \<Rightarrow> ('w, 'k) axis pusher_st \<Rightarrow> bool" where
  "pp_aligned u c s \<longleftrightarrow> widths_ok u \<and> na_keep u = 0 \<and>
     0 < unat (pp_offset s) \<and> unat (pp_offset s) < LENGTH('k) \<and>
     c = drop (unat (pp_offset s)) (cells (pp_prevWord s))"

text \<open>\<open>cs\<close> and \<open>ws\<close>: the commands read and written meanwhile do not change.\<close>

definition pp_idle :: "mmCmd list \<Rightarrow> mmCmd list \<Rightarrow> 'a pusher_st \<Rightarrow> bool" where
  "pp_idle cs ws s \<longleftrightarrow> tasiPkgPushState s = IDLE \<and> pp_frame cs ws s"

definition pp_mid :: "mmCmd list \<Rightarrow> mmCmd list \<Rightarrow> ('w::len, 'k::len) axis \<Rightarrow> u8 option list \<Rightarrow> ('w, 'k) axis pusher_st \<Rightarrow> bool" where
  "pp_mid cs ws u c s \<longleftrightarrow> tasiPkgPushState s = ALIGN_SECOND \<and> pp_frame cs ws s \<and> pp_aligned u c s"

definition pp_residue :: "mmCmd list \<Rightarrow> mmCmd list \<Rightarrow> ('w::len, 'k::len) axis \<Rightarrow> u8 option list \<Rightarrow> ('w, 'k) axis pusher_st \<Rightarrow> bool" where
  "pp_residue cs ws u c s \<longleftrightarrow> tasiPkgPushState s = RESIDUE \<and> pp_frame cs ws s \<and> pp_aligned u c s"

lemma pp_mid_step:
  fixes s :: "('w::len, 'k::len) axis pusher_st" and u :: "('w, 'k) axis"
  assumes "tasiPkgPushState s = ALIGN_SECOND" "appTxDataIn s = w # ws"
  defines "v \<equiv> (alignWords u (ucast (pp_offset s)) (pp_prevWord s) w)
      \<lparr>na_last := \<not> bit (na_keep w) (unat (pp_offset s))\<rparr>"
  shows "tasi_pkg_pusher u s = s\<lparr>pp_prevWord := w, appTxDataIn := ws,
     txBufferWriteData := txBufferWriteData s @ [v],
     tasiPkgPushState := (if na_last w then if na_last v then IDLE else RESIDUE else ALIGN_SECOND)\<rparr>"
  using assms by (cases s) (simp add: tasi_pkg_pusher_def Let_def)

lemma pp_residue_step:
  fixes s :: "('w::len, 'k::len) axis pusher_st"
  assumes "tasiPkgPushState s = RESIDUE"
  shows "tasi_pkg_pusher u s = s\<lparr>txBufferWriteData := txBufferWriteData s @
      [(alignWords u (ucast (pp_offset s)) (pp_prevWord s) u)\<lparr>na_last := True\<rparr>],
     tasiPkgPushState := IDLE\<rparr>"
  using assms by (simp add: tasi_pkg_pusher_def Let_def)

lemma cells_last [simp]: "cells (w\<lparr>na_last := l\<rparr>) = cells w"
  by (simp add: cells_def)

lemma contiguous_drop:
  fixes w :: "('w::len, 'k::len) axis"
  assumes "contiguous w" "m < LENGTH('k)"
  shows "drop m (cells w) = replicate (LENGTH('k) - m) None \<longleftrightarrow> \<not> bit (na_keep w) m"
proof -
  from assms(1) obtain bs k where k: "cells w = map Some bs @ replicate k None"
    by (auto simp: contiguous_def)
  from arg_cong [OF k, of length] have l: "length bs + k = LENGTH('k)" by simp
  have "bit (na_keep w) m \<longleftrightarrow> cells w ! m \<noteq> None" using assms(2) by (simp add: nth_cells)
  also have "\<dots> \<longleftrightarrow> m < length bs" using l assms(2) by (simp add: k nth_append)
  finally have b: "bit (na_keep w) m \<longleftrightarrow> m < length bs" .
  show ?thesis
  proof (cases "m < length bs")
    case True
    then have "drop m (cells w) ! 0 \<noteq> None" using assms(2) by (simp add: k nth_append)
    moreover have "replicate (LENGTH('k) - m) None ! 0 = None" using assms(2) by simp
    ultimately have "drop m (cells w) \<noteq> replicate (LENGTH('k) - m) None" by metis
    then show ?thesis using b True by simp
  next
    case False
    then show ?thesis using b l by (simp add: k)
  qed
qed

lemma cells_no_keep: "na_keep (u :: ('w::len, 'k::len) axis) = 0 \<Longrightarrow> cells u = replicate (LENGTH('k)) None"
  by (simp add: cells_def map_replicate_const)

lemma pp_offset_6:
  fixes s :: "('w::len, 'k::len) axis pusher_st"
  assumes "pp_aligned u c s"
  shows "unat (ucast (pp_offset s) :: 6 word) = unat (pp_offset s)"
proof -
  have "unat (pp_offset s) < 64" using assms widths_ok_bound [of u] by (simp add: pp_aligned_def)
  then show ?thesis by (simp add: unsigned_ucast_eq take_bit_nat_eq_self)
qed

interpretation pusher: realign "tasi_pkg_pusher u" appTxDataIn txBufferWriteData
    "pp_idle mc wc" "pp_mid mc wc u" "pp_residue mc wc u"
  for mc wc and u :: "('w::len, 'k::len) axis"
proof unfold_locales
  fix c s and w :: "('w, 'k) axis" and ws
  assume mid: "pp_mid mc wc u c s" and i: "appTxDataIn s = w # ws"
    and w: "contiguous w" "na_last w \<or> None \<notin> set (cells w)"
  let ?m = "unat (pp_offset s)"
  from mid have al: "pp_aligned u c s" and st: "tasiPkgPushState s = ALIGN_SECOND" and fr: "pp_frame mc wc s"
    by (simp_all add: pp_mid_def)
  then have m: "LENGTH('w) = 8 * LENGTH('k)" "0 < ?m" "?m < LENGTH('k)"
    and c: "c = drop ?m (cells (pp_prevWord s))" "length c = LENGTH('k) - ?m"
      "LENGTH('k) - (LENGTH('k) - ?m) = ?m"
    by (simp_all add: pp_aligned_def widths_ok_def)
  let ?v = "(alignWords u (ucast (pp_offset s)) (pp_prevWord s) w)\<lparr>na_last := \<not> bit (na_keep w) ?m\<rparr>"
  note step = pp_mid_step [OF st i, of u]
  have v: "cells ?v = c @ take ?m (cells w)"
    using cells_alignWords [OF m(1) pp_offset_6 [OF al, symmetric] m(2,3)] by (simp add: c(1))
  have l: "na_last ?v \<longleftrightarrow> drop ?m (cells w) = replicate (LENGTH('k) - ?m) None"
    using contiguous_drop [OF w(1) m(3)] by simp
  have f: "\<not> na_last w \<Longrightarrow> \<not> na_last ?v"
    using l w(2) m(3) by (metis in_set_dropD in_set_replicate neq0_conv zero_less_diff)
  have "pp_aligned u (drop ?m (cells w)) (tasi_pkg_pusher u s)"
    using al by (simp add: step pp_aligned_def)
  then show "\<exists>v. appTxDataIn (tasi_pkg_pusher u s) = ws \<and>
        txBufferWriteData (tasi_pkg_pusher u s) = txBufferWriteData s @ [v] \<and>
        cells v = c @ take (LENGTH('k) - length c) (cells w) \<and>
        (na_last w \<longrightarrow> na_last v = (drop (LENGTH('k) - length c) (cells w) = replicate (length c) None)) \<and>
        (if \<not> na_last w then \<not> na_last v \<and> pp_mid mc wc u (drop (LENGTH('k) - length c) (cells w)) (tasi_pkg_pusher u s)
         else if na_last v then pp_idle mc wc (tasi_pkg_pusher u s)
         else pp_residue mc wc u (drop (LENGTH('k) - length c) (cells w)) (tasi_pkg_pusher u s))"
    unfolding c(2,3)
    by (intro exI [of _ ?v]) (use v l f step fr in \<open>auto simp: pp_mid_def pp_residue_def pp_idle_def pp_frame_def\<close>)
next
  fix c and s :: "('w, 'k) axis pusher_st"
  assume r: "pp_residue mc wc u c s"
  let ?m = "unat (pp_offset s)"
  from r have al: "pp_aligned u c s" and st: "tasiPkgPushState s = RESIDUE" and fr: "pp_frame mc wc s"
    by (simp_all add: pp_residue_def)
  then have m: "LENGTH('w) = 8 * LENGTH('k)" "0 < ?m" "?m < LENGTH('k)"
    and c: "c = drop ?m (cells (pp_prevWord s))" and u: "na_keep u = 0"
    by (simp_all add: pp_aligned_def widths_ok_def)
  have "cells ((alignWords u (ucast (pp_offset s)) (pp_prevWord s) u)\<lparr>na_last := True\<rparr>) =
      c @ replicate (LENGTH('k) - length c) None"
    using cells_alignWords [OF m(1) pp_offset_6 [OF al, symmetric] m(2,3)] m(3) cells_no_keep [OF u]
    by (simp add: c)
  then show "\<exists>v. appTxDataIn (tasi_pkg_pusher u s) = appTxDataIn s \<and>
        txBufferWriteData (tasi_pkg_pusher u s) = txBufferWriteData s @ [v] \<and>
        na_last v \<and> cells v = c @ replicate (LENGTH('k) - length c) None \<and>
        pp_idle mc wc (tasi_pkg_pusher u s)"
    using pp_residue_step [OF st, of u] fr by (auto simp: pp_idle_def pp_frame_def)
qed

section \<open>The first part\<close>

definition is_packet :: "('w::len, 'k::len) axis list \<Rightarrow> bool" where
  "is_packet ws \<longleftrightarrow> ws \<noteq> [] \<and> (\<forall>w\<in>set (butlast ws). \<not> na_last w) \<and> na_last (List.last ws)"

lemma carries_is_packet: "carries bs ws \<Longrightarrow> is_packet ws"
  by (simp add: carries_def is_packet_def)

lemma pp_direct:
  assumes "is_packet ws" "tasiPkgPushState s = FWD_ALIGNED" "appTxDataIn s = ws @ rest"
  shows "(tasi_pkg_pusher u ^^ length ws) s = s\<lparr>appTxDataIn := rest,
    txBufferWriteData := txBufferWriteData s @ ws, tasiPkgPushState := IDLE\<rparr>"
  using assms
proof (induction ws arbitrary: s)
  case (Cons w ws)
  have step: "tasi_pkg_pusher u s = s\<lparr>appTxDataIn := ws @ rest,
      txBufferWriteData := txBufferWriteData s @ [w],
      tasiPkgPushState := (if na_last w then IDLE else FWD_ALIGNED)\<rparr>"
    using Cons.prems by (cases s) (simp add: tasi_pkg_pusher_def)
  show ?case
  proof (cases "ws = []")
    case True
    then show ?thesis using Cons.prems(1) step by (simp add: is_packet_def)
  next
    case False
    then have w: "\<not> na_last w" "is_packet ws" using Cons.prems(1) by (simp_all add: is_packet_def)
    let ?t = "tasi_pkg_pusher u s"
    have "(tasi_pkg_pusher u ^^ length ws) ?t = ?t\<lparr>appTxDataIn := rest,
        txBufferWriteData := txBufferWriteData ?t @ ws, tasiPkgPushState := IDLE\<rparr>"
      by (rule Cons.IH) (simp_all add: w step)
    then show ?thesis by (simp add: step w(1) funpow_Suc_right del: funpow.simps(2))
  qed
qed (simp add: is_packet_def)

lemma take_keep_cells:
  fixes w :: "('w::len, 'k::len) axis"
  assumes "take r (cells w) = map Some bs" "length bs = r" "0 < r" "r < LENGTH('k)"
  shows "carries bs [w\<lparr>na_keep := mask r, na_last := True\<rparr>]"
proof -
  have "cells (w\<lparr>na_keep := mask r, na_last := True\<rparr>) = map Some bs @ replicate (LENGTH('k) - r) None"
  proof (rule nth_equalityI)
    fix i assume "i < length (cells (w\<lparr>na_keep := mask r, na_last := True\<rparr>))"
    then have i: "i < LENGTH('k)" by simp
    have "i < r \<Longrightarrow> cells w ! i = Some (bs ! i)"
      using arg_cong [OF assms(1), of "\<lambda>l. l ! i"] assms(2) by simp
    then show "cells (w\<lparr>na_keep := mask r, na_last := True\<rparr>) ! i =
        (map Some bs @ replicate (LENGTH('k) - r) None) ! i"
      using i assms(2,4) by (auto simp: nth_cells nth_append bit_mask_iff split: if_splits)
  qed (use assms in simp)
  then show ?thesis using assms(3,4) by (auto simp: carries_single)
qed

lemma pp_cut_step:
  fixes s :: "('w::len, 'k::len) axis pusher_st" and u :: "('w, 'k) axis"
  assumes "tasiPkgPushState s = CUT_FIRST" "appTxDataIn s = w # ws" "LENGTH('w) = 8 * LENGTH('k)"
  defines "r \<equiv> unat (remainingLength s)" and "c \<equiv> second_cmd (lengthFirstPkg s) (pp_cmd s)"
  shows "LENGTH('k) < r \<Longrightarrow> tasi_pkg_pusher u s = s\<lparr>remainingLength := remainingLength s - of_nat (LENGTH('k)),
      pp_prevWord := w, appTxDataIn := ws, txBufferWriteData := txBufferWriteData s @ [w]\<rparr>"
    and "r = LENGTH('k) \<Longrightarrow> tasi_pkg_pusher u s = s\<lparr>tasiPkgPushState := FWD_ALIGNED, pp_cmd := c,
      pp_prevWord := w, appTxDataIn := ws, txBufferWriteCmd := txBufferWriteCmd s @ [c],
      txBufferWriteData := txBufferWriteData s @ [w\<lparr>na_last := True\<rparr>]\<rparr>"
    and "r < LENGTH('k) \<Longrightarrow> tasi_pkg_pusher u s =
      s\<lparr>tasiPkgPushState := (if na_last w then RESIDUE else ALIGN_SECOND), pp_cmd := c,
      pp_prevWord := w, appTxDataIn := ws, txBufferWriteCmd := txBufferWriteCmd s @ [c],
      txBufferWriteData := txBufferWriteData s @
        [w\<lparr>na_keep := ucast (lenToKeep (ucast (remainingLength s))), na_last := True\<rparr>]\<rparr>"
  using assms(1-3) by (cases s; simp add: tasi_pkg_pusher_def pp_cut_def r_def c_def Let_def)+

lemma keep_mask:
  fixes l :: u18
  assumes "0 < unat l" "unat l < LENGTH('k::len)" "LENGTH('k) \<le> 64"
  shows "(ucast (lenToKeep (ucast l)) :: 'k word) = mask (unat l)"
proof -
  have u: "unat (ucast l :: 6 word) = unat l"
    using assms(2,3) by (simp add: unsigned_ucast_eq take_bit_nat_eq_self)
  with assms(1) have "(ucast l :: 6 word) \<noteq> 0" by (metis less_numeral_extra(3) unsigned_0)
  with u have "lenToKeep (ucast l) = mask (unat l)" by (simp add: lenToKeep_eq)
  then show ?thesis
    using assms by (intro bit_word_eqI) (auto simp: bit_simps)
qed

text \<open>
  What remains to do in the state \<open>CUT_FIRST\<close> with \<open>bs\<close> still to come, the first \<open>r\<close> bytes of
  them before the end of the ring.
\<close>

definition pp_finishes ::
  "('w::len, 'k::len) axis \<Rightarrow> nat \<Rightarrow> u8 list \<Rightarrow> ('w, 'k) axis list \<Rightarrow> nat \<Rightarrow> ('w, 'k) axis pusher_st \<Rightarrow> bool" where
  "pp_finishes u r bs rest m s \<longleftrightarrow>
     (\<exists>n vs1 vs2. let t = (tasi_pkg_pusher u ^^ n) s in n \<le> m \<and>
        tasiPkgPushState t = IDLE \<and> meta2pkgPushCmd t = meta2pkgPushCmd s \<and> appTxDataIn t = rest \<and>
        txBufferWriteCmd t = txBufferWriteCmd s @ [second_cmd (lengthFirstPkg s) (pp_cmd s)] \<and>
        txBufferWriteData t = txBufferWriteData s @ vs1 @ vs2 \<and>
        carries (take r bs) vs1 \<and> carries (drop r bs) vs2)"

lemma carries_full_last:
  fixes w :: "('w::len, 'k::len) axis"
  assumes "cells w = map Some bs"
  shows "carries bs [w\<lparr>na_last := True\<rparr>]"
  using assms by (auto simp: carries_single intro!: exI [of _ 0])

lemma pp_cut_residue:
  fixes s :: "('w::len, 'k::len) axis pusher_st"
  assumes u: "widths_ok u" "na_keep u = 0" and s: "tasiPkgPushState s = CUT_FIRST"
    "appTxDataIn s = w # rest" "carries bs [w]"
    and r: "r = unat (remainingLength s)" "0 < r" "r < length bs" "unat (pp_offset s) = r mod LENGTH('k)"
  shows "pp_finishes u r bs rest 2 s"
proof -
  from s(3) obtain k where k: "k < LENGTH('k)" "cells w = map Some bs @ replicate k None" "na_last w"
    by (auto simp: carries_single)
  from arg_cong [OF k(2), of length] r(3) have l: "r < LENGTH('k)" "length bs + k = LENGTH('k)" by simp_all
  have w: "LENGTH('w) = 8 * LENGTH('k)" using u(1) by (simp add: widths_ok_def)
  let ?t = "tasi_pkg_pusher u s"
  have o: "unat (pp_offset s) = r" using r(4) l by simp
  note step = pp_cut_step(3) [OF s(1,2) w, of u, folded r(1), OF l(1)]
  have "pp_aligned u (drop r (cells w)) ?t"
    using u r(2) l by (simp add: pp_aligned_def step o)
  then have res: "pp_residue (meta2pkgPushCmd ?t) (txBufferWriteCmd ?t) u (drop r (cells w)) ?t"
    by (simp add: pp_residue_def pp_frame_def step k(3))
  from pusher.residue_word [OF this] obtain v where v: "appTxDataIn (tasi_pkg_pusher u ?t) = appTxDataIn ?t"
    "txBufferWriteData (tasi_pkg_pusher u ?t) = txBufferWriteData ?t @ [v]" "na_last v"
    "cells v = drop r (cells w) @ replicate (LENGTH('k) - length (drop r (cells w))) None"
    "pp_idle (meta2pkgPushCmd ?t) (txBufferWriteCmd ?t) (tasi_pkg_pusher u ?t)" by blast
  have "cells v = map Some (drop r bs) @ replicate (k + r) None"
    using v(4) l r(3) by (simp add: k(2) drop_map replicate_add)
  then have c2: "carries (drop r bs) [v]"
    using v(3) l r(3) by (auto simp: carries_single intro!: exI [of _ "k + r"])
  have c1: "carries (take r bs) [w\<lparr>na_keep := mask r, na_last := True\<rparr>]"
    by (rule take_keep_cells) (use k(2) r l in \<open>simp_all add: take_map\<close>)
  have m: "ucast (lenToKeep (ucast (remainingLength s))) = (mask r :: 'k word)"
    using keep_mask [of "remainingLength s", where ?'k = 'k] r(1,2) l(1) widths_ok_bound [OF u(1)] by simp
  show ?thesis
    unfolding pp_finishes_def Let_def
    by (rule exI [of _ 2], rule exI [of _ "[w\<lparr>na_keep := mask r, na_last := True\<rparr>]"], rule exI [of _ "[v]"])
      (use v c1 c2 in \<open>simp add: numeral_2_eq_2 step m pp_idle_def pp_frame_def\<close>)
qed

lemma pp_finishes_first:
  assumes t: "meta2pkgPushCmd t = meta2pkgPushCmd s"
      "txBufferWriteCmd t = txBufferWriteCmd s @ [second_cmd (lengthFirstPkg s) (pp_cmd s)]"
      "txBufferWriteData t = txBufferWriteData s @ vs1" "t = tasi_pkg_pusher u s"
    and c1: "carries (take r bs) vs1"
    and run: "n \<le> m" "tasiPkgPushState ((tasi_pkg_pusher u ^^ n) t) = IDLE"
      "meta2pkgPushCmd ((tasi_pkg_pusher u ^^ n) t) = meta2pkgPushCmd t"
      "txBufferWriteCmd ((tasi_pkg_pusher u ^^ n) t) = txBufferWriteCmd t"
      "appTxDataIn ((tasi_pkg_pusher u ^^ n) t) = rest"
      "txBufferWriteData ((tasi_pkg_pusher u ^^ n) t) = txBufferWriteData t @ vs2"
      "carries (drop r bs) vs2"
  shows "pp_finishes u r bs rest (Suc m) s"
  unfolding pp_finishes_def Let_def
  by (rule exI [of _ "Suc n"], rule exI [of _ vs1], rule exI [of _ vs2])
    (use assms in \<open>simp add: funpow_Suc_right del: funpow.simps(2)\<close>)

lemma pp_cut_last:
  fixes s :: "('w::len, 'k::len) axis pusher_st"
  assumes u: "widths_ok u" "na_keep u = 0" and s: "tasiPkgPushState s = CUT_FIRST"
    "appTxDataIn s = w # ws @ rest" and w: "\<not> na_last w" "cells w = map Some (take (LENGTH('k)) bs)"
    "carries (drop (LENGTH('k)) bs) ws"
    and r: "r = unat (remainingLength s)" "0 < r" "r \<le> LENGTH('k)" "LENGTH('k) \<le> length bs"
      "unat (pp_offset s) = r mod LENGTH('k)"
  shows "pp_finishes u r bs rest (Suc (length ws + 1)) s"
proof -
  let ?t = "tasi_pkg_pusher u s"
  have wd: "LENGTH('w) = 8 * LENGTH('k)" using u(1) by (simp add: widths_ok_def)
  show ?thesis
  proof (cases "r = LENGTH('k)")
    case True
    note step = pp_cut_step(2) [OF s(1,2) wd, of u, folded r(1), OF True]
    have d: "(tasi_pkg_pusher u ^^ length ws) ?t = ?t\<lparr>appTxDataIn := rest,
        txBufferWriteData := txBufferWriteData ?t @ ws, tasiPkgPushState := IDLE\<rparr>"
      by (rule pp_direct) (simp_all add: step carries_is_packet [OF w(3)])
    have c1: "carries (take r bs) [w\<lparr>na_last := True\<rparr>]"
      using carries_full_last [OF w(2)] True by simp
    show ?thesis
      by (rule pp_finishes_first [where n = "length ws" and ?vs2.0 = ws, OF _ _ _ HOL.refl c1])
        (use w(3) True in \<open>simp_all add: d, simp_all add: step\<close>)
  next
    case False
    with r(3) have l: "r < LENGTH('k)" by simp
    note step = pp_cut_step(3) [OF s(1,2) wd, of u, folded r(1), OF l]
    let ?ds = "drop r (take (LENGTH('k)) bs)"
    have ds: "drop r (cells w) = map Some ?ds" "0 < length ?ds" "length ?ds < LENGTH('k)"
      using w(2) l r(2,4) by (simp_all add: drop_map)
    have "pp_mid (meta2pkgPushCmd ?t) (txBufferWriteCmd ?t) u (map Some ?ds) ?t"
      using u r l by (simp add: pp_mid_def pp_frame_def pp_aligned_def step w(1,2) drop_map)
    from pusher.run [OF this ds(2,3) _ w(3)] obtain n vs where v: "n \<le> length ws + 1"
      "pp_idle (meta2pkgPushCmd ?t) (txBufferWriteCmd ?t) ((tasi_pkg_pusher u ^^ n) ?t)"
      "appTxDataIn ((tasi_pkg_pusher u ^^ n) ?t) = rest"
      "txBufferWriteData ((tasi_pkg_pusher u ^^ n) ?t) = txBufferWriteData ?t @ vs"
      "carries (?ds @ drop (LENGTH('k)) bs) vs"
      by (auto simp: step)
    have c2: "carries (drop r bs) vs"
      using v(5) drop_take_drop [of r "LENGTH('k)" bs] r(3,4) by simp
    have c1: "carries (take r bs) [w\<lparr>na_keep := mask r, na_last := True\<rparr>]"
      by (rule take_keep_cells) (use w(2) r l in \<open>simp_all add: take_map min_def\<close>)
    have m: "ucast (lenToKeep (ucast (remainingLength s))) = (mask r :: 'k word)"
      using keep_mask [of "remainingLength s", where ?'k = 'k] r(1,2) l widths_ok_bound [OF u(1)] by simp
    show ?thesis
      by (rule pp_finishes_first [where n = n and ?vs2.0 = vs, OF _ _ _ HOL.refl c1])
        (use v c2 in \<open>simp_all add: pp_idle_def pp_frame_def step m\<close>)
  qed
qed

lemma pp_cut_run:
  fixes s :: "('w::len, 'k::len) axis pusher_st"
  assumes u: "widths_ok u" "na_keep u = 0"
    and "tasiPkgPushState s = CUT_FIRST" "appTxDataIn s = ws @ rest" "carries bs ws"
    and "r = unat (remainingLength s)" "0 < r" "r < length bs" "unat (pp_offset s) = r mod LENGTH('k)"
  shows "pp_finishes u r bs rest (length ws + 1) s"
  using assms(3-)
proof (induction ws arbitrary: s bs r)
  case Nil
  then show ?case by (simp add: carries_def)
next
  case (Cons w ws)
  have wd: "LENGTH('w) = 8 * LENGTH('k)" using u(1) by (simp add: widths_ok_def)
  show ?case
  proof (cases "ws = []")
    case True
    have "pp_finishes u r bs rest 2 s"
      by (rule pp_cut_residue [where w = w, OF u]) (use Cons.prems True in simp_all)
    then show ?thesis using True by (simp add: numeral_2_eq_2)
  next
    case False
    with Cons.prems(3) have w: "\<not> na_last w" "LENGTH('k) \<le> length bs"
      "cells w = map Some (take (LENGTH('k)) bs)" "carries (drop (LENGTH('k)) bs) ws"
      by (simp_all add: carries_Cons)
    have i: "appTxDataIn s = w # ws @ rest" using Cons.prems(2) by simp
    show ?thesis
    proof (cases "r \<le> LENGTH('k)")
      case True
      have "pp_finishes u r bs rest (Suc (length ws + 1)) s"
        by (rule pp_cut_last [where w = w, OF u Cons.prems(1) i w(1,3,4)])
          (use Cons.prems w True in simp_all)
      then show ?thesis by simp
    next
      case gt: False
      let ?t = "tasi_pkg_pusher u s" and ?r = "r - LENGTH('k)" and ?bs = "drop (LENGTH('k)) bs"
      from gt have l: "LENGTH('k) < r" by simp
      note step = pp_cut_step(1) [OF Cons.prems(1) i wd, of u, folded Cons.prems(4), OF l]
      have rem: "?r = unat (remainingLength ?t)"
        using unat_minus_of_nat [of "LENGTH('k)" "remainingLength s"] l Cons.prems(4) by (simp add: step)
      have "pp_finishes u ?r ?bs rest (length ws + 1) ?t"
      proof (rule Cons.IH [OF _ _ w(4) rem])
        show "unat (pp_offset ?t) = ?r mod LENGTH('k)"
          using Cons.prems(7) l by (simp add: step le_mod_geq)
      qed (use Cons.prems l in \<open>simp_all add: step\<close>)
      then obtain n vs1 vs2 where v: "n \<le> length ws + 1"
        "tasiPkgPushState ((tasi_pkg_pusher u ^^ n) ?t) = IDLE"
        "meta2pkgPushCmd ((tasi_pkg_pusher u ^^ n) ?t) = meta2pkgPushCmd s"
        "appTxDataIn ((tasi_pkg_pusher u ^^ n) ?t) = rest"
        "txBufferWriteCmd ((tasi_pkg_pusher u ^^ n) ?t) =
          txBufferWriteCmd s @ [second_cmd (lengthFirstPkg s) (pp_cmd s)]"
        "txBufferWriteData ((tasi_pkg_pusher u ^^ n) ?t) = txBufferWriteData s @ w # vs1 @ vs2"
        "carries (take ?r ?bs) vs1" "carries (drop ?r ?bs) vs2"
        by (auto simp: pp_finishes_def Let_def step)
      have ne: "vs1 \<noteq> []" using v(7) by (auto simp: carries_def)
      have tk: "take ?r ?bs = drop (LENGTH('k)) (take r bs)" by (simp add: drop_take)
      have "carries (take r bs) (w # vs1)"
        using v(7) w l Cons.prems(6) by (simp add: carries_Cons [OF ne] tk min_def)
      moreover have "carries (drop r bs) vs2" using v(8) l by simp
      ultimately show ?thesis
        unfolding pp_finishes_def Let_def
        by (intro exI [of _ "Suc n"] exI [of _ "w # vs1"] exI [of _ vs2])
          (use v in \<open>simp add: funpow_Suc_right del: funpow.simps(2)\<close>)
    qed
  qed
qed

section \<open>The ring\<close>

text \<open>
  A write command of the memory controller puts the bytes of its packet at consecutive addresses.
  \<open>ring_address\<close> is position \<open>i\<close> of the ring after \<open>a\<close>: only the low \<open>WINDOW_BITS\<close> bits move.
\<close>

definition placed :: "mmCmd \<Rightarrow> u8 list \<Rightarrow> (u32 \<times> u8) list" where
  "placed cmd bs = map (\<lambda>i. (mm_saddr cmd + of_nat i, bs ! i)) [0..<length bs]"

definition ring_address :: "u32 \<Rightarrow> nat \<Rightarrow> u32" where
  "ring_address a i =
     put_bits (WINDOW_BITS - 1) 0 ((bits (WINDOW_BITS - 1) 0 a :: u18) + of_nat i) a"

definition ring_bytes :: "u32 \<Rightarrow> u8 list \<Rightarrow> (u32 \<times> u8) list" where
  "ring_bytes a bs = map (\<lambda>i. (ring_address a i, bs ! i)) [0..<length bs]"

lemma low_bits: "(bits 17 0 (a :: u32) :: u18) = ucast a"
  by (intro bit_word_eqI) (auto simp: bit_bits bit_simps)

lemma unat_low_bits: "unat (ucast (a :: u32) :: u18) = unat a mod 2 ^ 18"
  by (simp add: unsigned_ucast_eq take_bit_eq_mod)

lemma unat_put_low: "unat (put_bits 17 0 (v :: u18) (a :: u32)) =
    unat a div 2 ^ 18 * 2 ^ 18 + unat v"
proof -
  let ?y = "put_bits 17 0 v a"
  have "drop_bit 18 ?y = drop_bit 18 a"
    by (intro bit_word_eqI) (auto simp: bit_simps bit_put_bits dest: bit_imp_le_length)
  from arg_cong [OF this, of unat] have "drop_bit 18 (unat ?y) = drop_bit 18 (unat a)"
    by (simp only: unsigned_drop_bit_eq take_bit_nat_eq_self [OF unat_less])
  then have d: "unat ?y div 2 ^ 18 = unat a div 2 ^ 18" by (simp add: drop_bit_eq_div)
  have "(ucast ?y :: u18) = v"
    by (intro bit_word_eqI) (auto simp: bit_simps bit_put_bits)
  then have "unat ?y mod 2 ^ 18 = unat v" by (metis unat_low_bits)
  with d show ?thesis by (metis div_mult_mod_eq)
qed

lemma unat_ring_address: "unat (ring_address a i) =
    unat a div 2 ^ 18 * 2 ^ 18 + (unat a mod 2 ^ 18 + i) mod 2 ^ 18"
  by (simp add: ring_address_def unat_put_low low_bits unat_word_ariths unat_low_bits
      unsigned_of_nat take_bit_eq_mod mod_simps)

lemma ring_straight:
  assumes "unat a mod 2 ^ 18 + i < 2 ^ 18"
  shows "ring_address a i = a + of_nat i"
proof -
  define d r where "d = unat a div 2 ^ 18" and "r = unat a mod 2 ^ 18"
  then have u: "unat a = d * 2 ^ 18 + r" by simp
  have "d < 2 ^ 14" using unat_less [of a] by (simp add: d_def div_less_iff_less_mult)
  moreover have "r + i < 2 ^ 18" using assms by (simp add: r_def)
  ultimately have l: "unat a + i < 2 ^ 32" unfolding u by simp
  then have "unat (a + of_nat i) = unat a + i"
    by (simp add: unat_word_ariths unsigned_of_nat take_bit_eq_mod mod_simps)
  also have "\<dots> = unat (ring_address a i)" 
    using u \<open>r + i < 2 ^ 18\<close> by (simp add: unat_ring_address flip: d_def r_def)
  finally show ?thesis by simp
qed

lemma ring_straight_bytes: "unat a mod 2 ^ 18 + length bs \<le> 2 ^ 18 \<Longrightarrow> mm_saddr c = a \<Longrightarrow>
    placed c bs = ring_bytes a bs"
  by (auto simp: placed_def ring_bytes_def ring_straight)

lemma ring_wrapped_bytes:
  assumes "L = 2 ^ 18 - unat a mod 2 ^ 18" "L < length bs" "length bs < 2 ^ 18"
    and "mm_saddr c = put_bits (WINDOW_BITS - 1) 0 (0 :: u18) a" "mm_saddr c0 = a"
  shows "placed c0 (take L bs) @ placed c (drop L bs) = ring_bytes a bs"
proof -
  have a: "unat a mod 2 ^ 18 < 2 ^ 18" by simp
  have s: "unat (mm_saddr c) = unat a div 2 ^ 18 * 2 ^ 18" using assms(4) by (simp add: unat_put_low)
  have "mm_saddr c + of_nat i = ring_address a (L + i)" if "i < length bs - L" for i
  proof -
    have i: "i < 2 ^ 18" using that assms(3) by simp
    then have "ring_address (mm_saddr c) i = mm_saddr c + of_nat i"
      by (intro ring_straight) (simp add: s)
    moreover have "unat (ring_address (mm_saddr c) i) = unat (ring_address a (L + i))"
      using i assms(1) a by (simp add: unat_ring_address s)
    ultimately show ?thesis by simp
  qed
  then have 2: "placed c (drop L bs) = map (\<lambda>i. (ring_address a (L + i), bs ! (L + i))) [0..<length bs - L]"
    using assms(2) by (auto simp: placed_def)
  have 1: "placed c0 (take L bs) = map (\<lambda>i. (ring_address a i, bs ! i)) [0..<L]"
    using assms(1,2,5) a by (auto simp: placed_def ring_straight)
  have "[0..<length bs] = [0..<L] @ map ((+) L) [0..<length bs - L]"
    using assms(2) by (auto intro!: nth_equalityI simp: nth_append)
  then show ?thesis by (simp add: ring_bytes_def 1 2)
qed

lemma unat_first_length:
  assumes "crosses_end cmd" "unat (mm_bbt cmd) < 2 ^ 16"
  defines "len \<equiv> ucast ((of_nat BUFFER_SIZE :: u32) - mm_saddr cmd) :: u18"
  shows "unat len = 2 ^ 18 - unat (mm_saddr cmd) mod 2 ^ 18" "0 < unat len" "unat len < unat (mm_bbt cmd)"
proof -
  let ?a = "ucast (mm_saddr cmd) :: u18"
  have c: "unat ?a + unat (mm_bbt cmd) > 2 ^ 18"
    using assms(1) by (simp add: crosses_end_def low_bits BUFFER_SIZE_eq)
  have "uint len = uint ((262144 :: u32) - mm_saddr cmd) mod 2 ^ 18"
    by (simp add: len_def BUFFER_SIZE_eq unsigned_ucast_eq take_bit_eq_mod)
  also have "\<dots> = (262144 - uint (mm_saddr cmd)) mod 2 ^ 18"
    by (simp add: uint_word_ariths mod_mod_cancel)
  also have "\<dots> = uint (- ?a)"
    by (simp add: uint_word_ariths unsigned_ucast_eq take_bit_eq_mod mod_minus_eq
        mod_add_self1 flip: mod_add_left_eq [of 262144])
  finally have "len = - ?a" by (simp add: word_uint_eq_iff)
  then have "len = NOT (?a - 1)" by (simp add: minus_eq_not_minus_1)
  moreover have "?a \<noteq> 0" using c assms(2) by auto
  then have "unat (?a - 1) = unat ?a - 1" "0 < unat ?a" by (simp_all add: unat_dec unat_gt_0)
  ultimately have u: "unat len = 2 ^ 18 - unat ?a" using unat_not [of "?a - 1"] by simp
  then show "unat len = 2 ^ 18 - unat (mm_saddr cmd) mod 2 ^ 18" by (simp add: unat_low_bits)
  show "0 < unat len" using u unat_less [of ?a] by simp
  show "unat len < unat (mm_bbt cmd)" using u c unat_less [of ?a] by simp
qed

lemma pp_start:
  fixes s :: "('w::len, 'k::len) axis pusher_st" and u :: "('w, 'k) axis"
  assumes "tasiPkgPushState s = IDLE" "meta2pkgPushCmd s = cmd # cmds"
  shows "(tasi_pkg_pusher u ^^ 2) s = pp_improve
     (s\<lparr>tasiPkgPushState := IMPROVE_TIMING, pp_cmd := cmd, meta2pkgPushCmd := cmds\<rparr>)"
  using assms by (cases s) (simp add: tasi_pkg_pusher_def numeral_2_eq_2)

text \<open>
  \<open>pushes u cmd bs s t\<close>: from \<open>s\<close> to \<open>t\<close> the pusher wrote the commands and the packets \<open>new\<close>,
  each packet as long as its command says, and together they put \<open>bs\<close> on the ring.
\<close>

definition pushes ::
  "mmCmd \<Rightarrow> u8 list \<Rightarrow> ('w::len, 'k::len) axis pusher_st \<Rightarrow> ('w, 'k) axis pusher_st \<Rightarrow> bool" where
  "pushes cmd bs s t \<longleftrightarrow>
     (\<exists>new vss. length new = (if crosses_end cmd then 2 else 1) \<and>
        txBufferWriteCmd t = txBufferWriteCmd s @ map fst new \<and>
        txBufferWriteData t = txBufferWriteData s @ concat vss \<and>
        list_all2 carries (map snd new) vss \<and>
        (\<forall>(c, p)\<in>set new. length p = unat (mm_bbt c)) \<and>
        concat (map (\<lambda>(c, p). placed c p) new) = ring_bytes (mm_saddr cmd) bs)"

lemma pushes_one:
  assumes "\<not> crosses_end cmd" "length bs = unat (mm_bbt cmd)" "carries bs ws"
    and "txBufferWriteCmd t = txBufferWriteCmd s @ [cmd]" "txBufferWriteData t = txBufferWriteData s @ ws"
  shows "pushes cmd bs s t"
proof -
  have "unat (mm_saddr cmd) mod 2 ^ 18 + length bs \<le> 2 ^ 18"
    using assms(1,2) by (simp add: crosses_end_def low_bits unat_low_bits BUFFER_SIZE_eq)
  then have "placed cmd bs = ring_bytes (mm_saddr cmd) bs" by (rule ring_straight_bytes) simp
  then show ?thesis
    unfolding pushes_def
    by (intro exI [of _ "[(cmd, bs)]"] exI [of _ "[ws]"]) (use assms in simp)
qed

lemma pushes_two:
  fixes cmd :: mmCmd
  defines "L \<equiv> ucast ((of_nat BUFFER_SIZE :: u32) - mm_saddr cmd) :: u18"
  assumes c: "crosses_end cmd" and l: "length bs = unat (mm_bbt cmd)" "length bs < 2 ^ 16"
    and v: "carries (take (unat L) bs) vs1" "carries (drop (unat L) bs) vs2"
    and t: "txBufferWriteCmd t =
        txBufferWriteCmd s @ [mmCmd_mk (mm_saddr cmd) (ucast L), second_cmd L cmd]"
      "txBufferWriteData t = txBufferWriteData s @ vs1 @ vs2"
  shows "pushes cmd bs s t"
proof -
  let ?c1 = "mmCmd_mk (mm_saddr cmd) (ucast L)" and ?c2 = "second_cmd L cmd"
  note first = unat_first_length [OF c, folded L_def]
  have L: "unat L = 2 ^ 18 - unat (mm_saddr cmd) mod 2 ^ 18" "unat L < length bs"
    using first l by simp_all
  have b1: "unat (mm_bbt ?c1) = unat L"
  proof -
    have "unat (ucast L :: u16) = unat L"
      using L(2) l(2) by (simp add: unsigned_ucast_eq take_bit_nat_eq_self)
    moreover have "unat (ucast x :: u23) = unat x" for x :: u16
      using unat_less [of x] by (simp add: unsigned_ucast_eq take_bit_nat_eq_self)
    ultimately show ?thesis by (simp only: mmCmd_mk_def mmCmd.simps)
  qed
  have b2: "unat (mm_bbt ?c2) = unat (mm_bbt cmd) - unat L"
  proof -
    have "unat (ucast L :: u23) = unat L" by (simp add: unsigned_ucast_eq take_bit_nat_eq_self unat_less [THEN less_trans])
    then show ?thesis
      using unat_minus_of_nat [of "unat L" "mm_bbt cmd"] L(2) l(1) by (simp add: second_cmd_def)
  qed
  have "placed ?c1 (take (unat L) bs) @ placed ?c2 (drop (unat L) bs) = ring_bytes (mm_saddr cmd) bs"
    by (rule ring_wrapped_bytes [OF L]) (use l in \<open>simp_all add: mmCmd_mk_def second_cmd_def\<close>)
  then show ?thesis
    unfolding pushes_def
    by (intro exI [of _ "[(?c1, take (unat L) bs), (?c2, drop (unat L) bs)]"] exI [of _ "[vs1, vs2]"])
      (use c v t b1 b2 L(2) l(1) in simp)
qed

lemma pp_offset_mod:
  assumes "widths_ok (u :: ('w::len, 'k::len) axis)"
  shows "unat (bits (ConstLog2 (LENGTH('k)) - 1) 0 (l :: u18) :: u8) = unat l mod LENGTH('k)"
proof -
  from assms obtain d where d: "1 \<le> d" "d \<le> 6" "LENGTH('k) = 2 ^ d" by (auto simp: widths_ok_def)
  have "(bits (d - 1) 0 l :: u8) = ucast (take_bit d l)"
    using d(1) by (simp add: bits_def)
  moreover have "unat (take_bit d l) < 2 ^ 8"
    using d(2) power_strict_increasing [of d 8 "2 :: nat"]
      less_trans [OF take_bit_nat_less_exp [of d "unat l"]] by (simp add: unsigned_take_bit_eq)
  ultimately have "unat (bits (d - 1) 0 l :: u8) = unat (take_bit d l)"
    by (simp only: unsigned_ucast_eq) (simp add: take_bit_nat_eq_self)
  also have "\<dots> = unat l mod 2 ^ d" by (simp only: unsigned_take_bit_eq) (simp only: take_bit_eq_mod)
  finally show ?thesis by (simp add: d(3))
qed

lemma pusher_run:
  fixes u :: "('w::len, 'k::len) axis"
  assumes u: "widths_ok u" "crosses_end cmd \<longrightarrow> na_keep u = 0"
    and bs: "carries bs ws" "length bs = unat (mm_bbt cmd)" "length bs < 2 ^ 16"
    and s: "tasiPkgPushState s = IDLE" "meta2pkgPushCmd s = cmd # cmds" "appTxDataIn s = ws @ rest"
  shows "\<exists>n. let t = (tasi_pkg_pusher u ^^ n) s in n \<le> length ws + 3 \<and>
    tasiPkgPushState t = IDLE \<and> meta2pkgPushCmd t = cmds \<and> appTxDataIn t = rest \<and> pushes cmd bs s t"
proof -
  let ?s = "(tasi_pkg_pusher u ^^ 2) s"
  let ?l = "ucast ((of_nat BUFFER_SIZE :: u32) - mm_saddr cmd) :: u18"
  note start = pp_start [OF s(1,2), of u]
  have after: ?thesis if "let t = (tasi_pkg_pusher u ^^ n) ?s in n \<le> length ws + 1 \<and>
    tasiPkgPushState t = IDLE \<and> meta2pkgPushCmd t = cmds \<and> appTxDataIn t = rest \<and> pushes cmd bs s t"
    for n
    by (rule exI [of _ "n + 2"]) (use that in \<open>simp only: Let_def funpow_add comp_apply, simp\<close>)
  show ?thesis
  proof (cases "crosses_end cmd")
    case True
    with u(2) have k: "na_keep u = 0" by simp
    from True have i: "?s = s\<lparr>tasiPkgPushState := CUT_FIRST, pp_cmd := cmd, remainingLength := ?l,
        lengthFirstPkg := ?l, pp_offset := bits (ConstLog2 (LENGTH('k)) - 1) 0 ?l,
        meta2pkgPushCmd := cmds,
        txBufferWriteCmd := txBufferWriteCmd s @ [mmCmd_mk (mm_saddr cmd) (ucast ?l)]\<rparr>"
      unfolding start by (cases s) (simp add: pp_improve_def Let_def)
    from unat_first_length [OF True] bs have l: "0 < unat ?l" "unat ?l < length bs" by simp_all
    have "pp_finishes u (unat ?l) bs rest (length ws + 1) ?s"
      by (rule pp_cut_run [OF u(1) k _ _ bs(1)])
        (use l s(3) in \<open>simp_all only: i, simp_all add: pp_offset_mod [OF u(1), simplified]\<close>)
    then obtain n vs1 vs2 where t: "n \<le> length ws + 1" "tasiPkgPushState ((tasi_pkg_pusher u ^^ n) ?s) = IDLE"
      "meta2pkgPushCmd ((tasi_pkg_pusher u ^^ n) ?s) = cmds" "appTxDataIn ((tasi_pkg_pusher u ^^ n) ?s) = rest"
      "txBufferWriteCmd ((tasi_pkg_pusher u ^^ n) ?s) =
        txBufferWriteCmd s @ [mmCmd_mk (mm_saddr cmd) (ucast ?l), second_cmd ?l cmd]"
      "txBufferWriteData ((tasi_pkg_pusher u ^^ n) ?s) = txBufferWriteData s @ vs1 @ vs2"
      "carries (take (unat ?l) bs) vs1" "carries (drop (unat ?l) bs) vs2"
      unfolding pp_finishes_def Let_def i by auto
    have "pushes cmd bs s ((tasi_pkg_pusher u ^^ n) ?s)"
      by (rule pushes_two [OF True bs(2,3) t(7,8,5,6)])
    with t show ?thesis by (intro after [of n]) (simp only: Let_def)
  next
    case False
    then have i: "?s = s\<lparr>tasiPkgPushState := FWD_ALIGNED, pp_cmd := cmd, meta2pkgPushCmd := cmds,
        txBufferWriteCmd := txBufferWriteCmd s @ [cmd]\<rparr>"
      unfolding start by (cases s) (simp add: pp_improve_def)
    have d: "(tasi_pkg_pusher u ^^ length ws) ?s = ?s\<lparr>appTxDataIn := rest,
        txBufferWriteData := txBufferWriteData ?s @ ws, tasiPkgPushState := IDLE\<rparr>"
      by (rule pp_direct [OF carries_is_packet [OF bs(1)]]) (simp_all only: i, simp_all add: s(3))
    have "pushes cmd bs s ((tasi_pkg_pusher u ^^ length ws) ?s)"
      by (rule pushes_one [OF False bs(2,1)]) (simp_all only: d, simp_all add: i)
    then show ?thesis by (intro after [of "length ws"]) (simp only: Let_def d, simp add: i)
  qed
qed

text \<open>C21: a request in the ring.  The pusher takes one command and one packet of the length the
  command says and writes the packet into the transmit buffer: with one command if it fits before
  the end of the ring and else with two, each with a well-formed packet of its length, the second
  one realigned to the start of a word.  Together they put byte \<open>i\<close> of the packet at position
  \<open>i\<close> of the ring after the address of the command.  For a request that crosses the end of the ring
  this holds only if the local \<open>emptyWord\<close>, which the code never initialises, happens to have no
  \<open>keep\<close> bit: else the last word may claim bytes it does not have (\<open>residue_keep_uninitialised\<close>).\<close>

theorem tx_ring_write:
  fixes u :: "('w::len, 'k::len) axis"
  assumes u: "widths_ok u" "crosses_end cmd \<longrightarrow> na_keep u = 0"
    and bs: "carries bs ws" "length bs = unat (mm_bbt cmd)" "length bs < 2 ^ 16"
    and s: "tasiPkgPushState s = IDLE" "meta2pkgPushCmd s = cmd # cmds" "appTxDataIn s = ws @ rest"
  shows "\<exists>n. let t = (tasi_pkg_pusher u ^^ n) s in n \<le> length ws + 3 \<and>
    tasiPkgPushState t = IDLE \<and> meta2pkgPushCmd t = cmds \<and> appTxDataIn t = rest \<and> pushes cmd bs s t"
  by (rule pusher_run [OF assms])

definition pusher_ex :: "(16, 2) axis pusher_st" where
  "pusher_ex = \<lparr>tasiPkgPushState = IDLE, pp_cmd = mmCmd_mk 0 0, remainingLength = 0,
     lengthFirstPkg = 0, pp_offset = 0, pp_prevWord = hd axis_ex,
     meta2pkgPushCmd = [mmCmd_mk 0x3FFFF 3], appTxDataIn = axis_ex,
     txBufferWriteCmd = [], txBufferWriteData = []\<rparr>"

theorem tx_ring_write_witness:
  "crosses_end (mmCmd_mk 0x3FFFF 3) \<and>
   ring_bytes 0x3FFFF [0x11, 0x22, 0x33] = [(0x3FFFF, 0x11), (0, 0x22), (1, 0x33)] \<and>
   (\<exists>n. let t = (tasi_pkg_pusher \<lparr>na_data = 0, na_keep = 0, na_last = False\<rparr> ^^ n) pusher_ex in
      n \<le> 5 \<and> appTxDataIn t = [] \<and> pushes (mmCmd_mk 0x3FFFF 3) [0x11, 0x22, 0x33] pusher_ex t)"
proof -
  have u: "widths_ok (\<lparr>na_data = 0, na_keep = 0, na_last = False\<rparr> :: (16, 2) axis)"
    unfolding widths_ok_def by (intro conjI bexI [of _ 1]) simp_all
  have "crosses_end (mmCmd_mk 0x3FFFF 3)"
    by (simp add: crosses_end_def low_bits unat_low_bits BUFFER_SIZE_eq mmCmd_mk_def)
  moreover have "ring_bytes 0x3FFFF [0x11, 0x22, 0x33] = [(0x3FFFF, 0x11), (0, 0x22), (1, 0x33)]"
    by code_simp
  moreover note tx_ring_write [OF u _ carries_axis_ex, where s = pusher_ex and cmd = "mmCmd_mk 0x3FFFF 3"
      and cmds = "[]" and rest = "[]"]
  ultimately show ?thesis by (simp add: pusher_ex_def mmCmd_mk_def axis_ex_def Let_def) blast
qed

section \<open>One confirmation for every command\<close>

text \<open>
  The loader sends the same request to the pusher (as a command) and to \<open>txAppStatusHandler\<close> (as
  an event); both decide on their own whether it crosses the end of the ring.
\<close>

lemma request_crosses:
  assumes "ev = event_tx TX i mempt len" "cmd = mmCmd_mk (tasi_pkgAddr i mempt) len"
  shows "crosses_end cmd \<longleftrightarrow> unat (ev_address ev) + unat (ev_length ev) > BUFFER_SIZE"
proof -
  have "(bits 17 0 (tasi_pkgAddr i mempt) :: u18) = mempt"
    by (intro bit_word_eqI) (auto simp: bit_bits bit_tasi_pkgAddr)
  moreover have "unat (ucast len :: u23) = unat len"
    using unat_less [of len] by (simp add: unsigned_ucast_eq take_bit_nat_eq_self)
  ultimately show ?thesis by (simp add: crosses_end_def assms mmCmd_mk_def event_tx_def)
qed

text \<open>Whatever the uninitialised word holds: it goes into the data only.\<close>

definition pp_alike :: "'a pusher_st \<Rightarrow> 'a pusher_st \<Rightarrow> bool" where
  "pp_alike s t \<longleftrightarrow> s\<lparr>txBufferWriteData := []\<rparr> = t\<lparr>txBufferWriteData := []\<rparr>"

lemma pp_alike_step: "pp_alike s t \<Longrightarrow> pp_alike (tasi_pkg_pusher u s) (tasi_pkg_pusher v t)"
  by (cases s; cases t; cases "tasiPkgPushState s")
    (auto simp: pp_alike_def tasi_pkg_pusher_def pp_improve_def pp_cut_def Let_def split: list.split)

lemma pp_alike_run: "pp_alike ((tasi_pkg_pusher u ^^ n) s) ((tasi_pkg_pusher v ^^ n) s)"
  by (induction n) (simp add: pp_alike_def, simp add: pp_alike_step)

lemma pp_alike_simps:
  "pp_alike s t \<Longrightarrow> tasiPkgPushState t = tasiPkgPushState s \<and> meta2pkgPushCmd t = meta2pkgPushCmd s \<and>
     appTxDataIn t = appTxDataIn s \<and> txBufferWriteCmd t = txBufferWriteCmd s"
  by (cases s; cases t) (simp add: pp_alike_def)

lemma pusher_commands:
  fixes u :: "('w::len, 'k::len) axis"
  assumes u: "widths_ok u"
    and bs: "carries bs ws" "length bs = unat (mm_bbt cmd)" "length bs < 2 ^ 16"
    and s: "tasiPkgPushState s = IDLE" "meta2pkgPushCmd s = cmd # cmds" "appTxDataIn s = ws @ rest"
  shows "\<exists>n. let t = (tasi_pkg_pusher u ^^ n) s in n \<le> length ws + 3 \<and>
    tasiPkgPushState t = IDLE \<and> meta2pkgPushCmd t = cmds \<and> appTxDataIn t = rest \<and>
    length (txBufferWriteCmd t) = length (txBufferWriteCmd s) + (if crosses_end cmd then 2 else 1)"
proof -
  let ?v = "u\<lparr>na_keep := 0\<rparr>"
  have v: "widths_ok ?v" "crosses_end cmd \<longrightarrow> na_keep ?v = 0" using u by (simp_all add: widths_ok_def)
  from pusher_run [OF v bs s] obtain n where n: "n \<le> length ws + 3"
    "tasiPkgPushState ((tasi_pkg_pusher ?v ^^ n) s) = IDLE" "meta2pkgPushCmd ((tasi_pkg_pusher ?v ^^ n) s) = cmds"
    "appTxDataIn ((tasi_pkg_pusher ?v ^^ n) s) = rest" "pushes cmd bs s ((tasi_pkg_pusher ?v ^^ n) s)"
    unfolding Let_def by blast
  with pp_alike_simps [OF pp_alike_run [of n ?v s u]] show ?thesis
    by (intro exI [of _ n]) (auto simp: Let_def pushes_def)
qed

text \<open>A negative confirmation is consumed and changes nothing.\<close>

lemma tash_skip:
  assumes "list_all (Not \<circ> ms_okay) bad" "tash_state h \<noteq> READ_EV" "txBufferWriteStatus h = bad @ rest"
  shows "(txAppStatusHandler ^^ length bad) h = h\<lparr>txBufferWriteStatus := rest\<rparr>"
  using assms
proof (induction bad arbitrary: h)
  case (Cons b bad)
  then have "txAppStatusHandler h = h\<lparr>txBufferWriteStatus := bad @ rest\<rparr>"
    by (cases "tash_state h") (simp_all add: txAppStatusHandler_def Let_def)
  moreover have "(txAppStatusHandler ^^ length bad) (h\<lparr>txBufferWriteStatus := bad @ rest\<rparr>) =
      h\<lparr>txBufferWriteStatus := bad @ rest, txBufferWriteStatus := rest\<rparr>"
    using Cons.prems by (intro Cons.IH) simp_all
  ultimately show ?case by (simp add: funpow_Suc_right del: funpow.simps)
qed (cases h, simp)

text \<open>The \<open>okay\<close> ones count: \<open>confirms k sts\<close> says that \<open>sts\<close> ends with the \<open>k\<close>-th of them.\<close>

definition confirms :: "nat \<Rightarrow> mmStatus list \<Rightarrow> bool" where
  "confirms k sts \<longleftrightarrow> sts \<noteq> [] \<and> ms_okay (List.last sts) \<and> length (filter ms_okay sts) = k"

lemma confirms_one: "confirms 1 sts \<Longrightarrow> \<exists>bad ok. sts = bad @ [ok] \<and> ms_okay ok \<and> list_all (Not \<circ> ms_okay) bad"
  by (cases sts rule: rev_cases) (auto simp: confirms_def filter_empty_conv list_all_iff)

lemma confirms_two:
  assumes "confirms 2 sts"
  shows "\<exists>as bs ok. sts = as @ bs @ [ok] \<and> ms_okay ok \<and> list_all (Not \<circ> ms_okay) bs \<and> confirms 1 as"
proof -
  from assms obtain xs ok where sts: "sts = xs @ [ok]" "ms_okay ok" "length (filter ms_okay xs) = 1"
    by (cases sts rule: rev_cases) (auto simp: confirms_def)
  then have "\<exists>x\<in>set xs. ms_okay x" by (metis filter_empty_conv length_0_conv zero_neq_one)
  from split_list_last_propE [OF this] obtain ys x zs where
    "xs = ys @ x # zs" "ms_okay x" "\<forall>z\<in>set zs. \<not> ms_okay z" by metis
  with sts show ?thesis
    by (intro exI [of _ "ys @ [x]"] exI [of _ zs] exI [of _ ok]) (auto simp: confirms_def list_all_iff)
qed

lemma funpow_split: "(f ^^ (m + k)) x = (f ^^ k) ((f ^^ m) x)"
  by (simp add: add.commute [of m] funpow_add)

lemma tash_first:
  assumes "confirms 1 sts" "tash_state h = READ_STATUS_1" "txBufferWriteStatus h = sts @ later"
  shows "(txAppStatusHandler ^^ length sts) h =
    (if unat (ev_address (tash_ev h)) + unat (ev_length (tash_ev h)) > BUFFER_SIZE
     then h\<lparr>txBufferWriteStatus := later, tash_state := READ_STATUS_2\<rparr>
     else h\<lparr>txBufferWriteStatus := later, txApp2txSar_push := txApp2txSar_push h @ [tash_push (tash_ev h)],
            tash_state := READ_EV\<rparr>)"
proof -
  from confirms_one [OF assms(1)] obtain bad ok where "sts = bad @ [ok]" "ms_okay ok" "list_all (Not \<circ> ms_okay) bad"
    by blast
  with tash_skip [of bad h "ok # later"] assms(2,3) show ?thesis
    by (simp add: txAppStatusHandler_def Let_def)
qed

lemma tash_second:
  assumes "list_all (Not \<circ> ms_okay) bad" "ms_okay ok" "tash_state h = READ_STATUS_2"
    "txBufferWriteStatus h = bad @ ok # later"
  shows "(txAppStatusHandler ^^ (length bad + 1)) h = h\<lparr>txBufferWriteStatus := later,
     txApp2txSar_push := txApp2txSar_push h @ [tash_push (tash_ev h)], tash_state := READ_EV\<rparr>"
  using tash_skip [of bad h "ok # later"] assms by (simp add: txAppStatusHandler_def Let_def)

lemma tash_request:
  assumes ev: "ev_type ev = TX" and h: "tash_state h = READ_EV" "txApp_txEventCache h = ev # evs"
      "txBufferWriteStatus h = sts @ later"
    and c: "confirms (if unat (ev_address ev) + unat (ev_length ev) > BUFFER_SIZE then 2 else 1) sts"
  shows "(txAppStatusHandler ^^ (length sts + 1)) h = h\<lparr>txApp_txEventCache := evs, tash_ev := ev,
     txBufferWriteStatus := later, txApp2txSar_push := txApp2txSar_push h @ [tash_push ev]\<rparr>"
    and "txApp2txSar_push ((txAppStatusHandler ^^ length sts) h) = txApp2txSar_push h"
proof -
  let ?h = "h\<lparr>txApp_txEventCache := evs, tash_ev := ev, tash_state := READ_STATUS_1\<rparr>"
  have first: "txAppStatusHandler h = ?h"
    using ev h by (simp add: txAppStatusHandler_def Let_def)
  have shift: "(txAppStatusHandler ^^ (k + 1)) h = (txAppStatusHandler ^^ k) ?h" for k
    by (simp add: funpow_Suc_right first del: funpow.simps)
  have "(txAppStatusHandler ^^ length sts) ?h = h\<lparr>txApp_txEventCache := evs, tash_ev := ev,
      txBufferWriteStatus := later, txApp2txSar_push := txApp2txSar_push h @ [tash_push ev]\<rparr> \<and>
    txApp2txSar_push ((txAppStatusHandler ^^ (length sts - 1)) ?h) = txApp2txSar_push h"
  proof (cases "unat (ev_address ev) + unat (ev_length ev) > BUFFER_SIZE")
    case False
    with c have one: "confirms 1 sts" by simp
    from confirms_one [OF one] obtain bad ok where b: "sts = bad @ [ok]" "list_all (Not \<circ> ms_okay) bad" by blast
    from tash_first [OF one, of ?h later] tash_skip [OF b(2), of ?h "ok # later"] show ?thesis
      using False h b(1) by (cases h) simp
  next
    case True
    with c have "confirms 2 sts" by simp
    from confirms_two [OF this] obtain as bs ok where
      sts: "sts = as @ bs @ [ok]" "ms_okay ok" "list_all (Not \<circ> ms_okay) bs" "confirms 1 as" by blast
    let ?g = "?h\<lparr>txBufferWriteStatus := bs @ ok # later, tash_state := READ_STATUS_2\<rparr>"
    have g: "(txAppStatusHandler ^^ length as) ?h = ?g"
      using tash_first [OF sts(4), of ?h "bs @ ok # later"] True h(3) sts(1) by simp
    have k: "(txAppStatusHandler ^^ length sts) ?h = (txAppStatusHandler ^^ (length bs + 1)) ?g"
      "(txAppStatusHandler ^^ (length sts - 1)) ?h = (txAppStatusHandler ^^ length bs) ?g"
      using funpow_split [of "length as" "length bs + 1" txAppStatusHandler ?h]
        funpow_split [of "length as" "length bs" txAppStatusHandler ?h]
      by (simp_all only: sts(1) g) simp_all
    show ?thesis unfolding k
      using tash_second [OF sts(3,2), of ?g later] tash_skip [OF sts(3), of ?g "ok # later"] h(1)
      by (cases h) simp
  qed
  moreover have "0 < length sts" using c by (simp add: confirms_def)
  ultimately show "(txAppStatusHandler ^^ (length sts + 1)) h = h\<lparr>txApp_txEventCache := evs, tash_ev := ev,
     txBufferWriteStatus := later, txApp2txSar_push := txApp2txSar_push h @ [tash_push ev]\<rparr>"
    "txApp2txSar_push ((txAppStatusHandler ^^ length sts) h) = txApp2txSar_push h"
    using shift [of "length sts"] shift [of "length sts - 1"] by simp_all
qed

text \<open>C22: the two sides of a request agree.  The pusher gets the request as a command, the handler as
  an event.  Whatever the uninitialised word \<open>u\<close> holds, the pusher takes the packet and writes \<open>k\<close>
  commands for it (two if it crosses the end of the ring); when the memory has confirmed that many (negative confirmations in between are
  skipped) \<open>txAppStatusHandler\<close> has exactly the confirmations it waits for, and then, and not before, it
  makes the bytes visible to the transmit engine and is ready for the next event.\<close>

theorem tx_confirmations:
  fixes u :: "('w::len, 'k::len) axis"
  assumes u: "widths_ok u" and ev: "ev = event_tx TX i mempt len" "cmd = mmCmd_mk (tasi_pkgAddr i mempt) len"
    and bs: "carries bs ws" "length bs = unat len"
    and s: "tasiPkgPushState s = IDLE" "meta2pkgPushCmd s = cmd # cmds" "appTxDataIn s = ws @ rest"
    and h: "tash_state h = READ_EV" "txApp_txEventCache h = ev # evs" "txBufferWriteStatus h = sts @ later"
  shows "\<exists>n. let t = (tasi_pkg_pusher u ^^ n) s; h' = (txAppStatusHandler ^^ (length sts + 1)) h;
       k = (if crosses_end cmd then 2 else 1) in
     n \<le> length ws + 3 \<and> tasiPkgPushState t = IDLE \<and> meta2pkgPushCmd t = cmds \<and> appTxDataIn t = rest \<and>
     length (txBufferWriteCmd t) = length (txBufferWriteCmd s) + k \<and>
     (confirms k sts \<longrightarrow>
       tash_state h' = READ_EV \<and> txApp_txEventCache h' = evs \<and> txBufferWriteStatus h' = later \<and>
       txApp2txSar_push h' = txApp2txSar_push h @ [tash_push ev] \<and>
       txApp2txSar_push ((txAppStatusHandler ^^ length sts) h) = txApp2txSar_push h)"
proof -
  have bbt: "unat (mm_bbt cmd) = unat len"
    using unat_less [of len] by (simp add: ev mmCmd_mk_def unsigned_ucast_eq take_bit_nat_eq_self)
  have len: "length bs = unat (mm_bbt cmd)" "length bs < 2 ^ 16" using bs(2) bbt unat_less [of len] by simp_all
  let ?k = "if crosses_end cmd then 2 else 1 :: nat"
  from pusher_commands [OF u bs(1) len s] obtain n where n: "n \<le> length ws + 3"
    "tasiPkgPushState ((tasi_pkg_pusher u ^^ n) s) = IDLE" "meta2pkgPushCmd ((tasi_pkg_pusher u ^^ n) s) = cmds"
    "appTxDataIn ((tasi_pkg_pusher u ^^ n) s) = rest"
    "length (txBufferWriteCmd ((tasi_pkg_pusher u ^^ n) s)) = length (txBufferWriteCmd s) + ?k"
    unfolding Let_def by blast
  have tx: "ev_type ev = TX" by (simp add: ev(1) event_tx_def event_simple_def)
  have c: "?k = (if unat (ev_address ev) + unat (ev_length ev) > BUFFER_SIZE then 2 else 1)"
    unfolding request_crosses [OF ev] ..
  show ?thesis
    using n tash_request [OF tx h] tash_request(2) [OF tx h]
    by (intro exI [of _ n]) (simp add: Let_def c h(1))
qed

text \<open>Two commands, and a negative confirmation between the two positive ones.\<close>

definition status_word :: "bool \<Rightarrow> mmStatus" where
  "status_word ok = \<lparr>ms_tag = 0, ms_interr = False, ms_decerr = False, ms_slverr = \<not> ok, ms_okay = ok\<rparr>"

definition status_ex :: txapp_st where
  "status_ex = (fst adm_ex0)\<lparr>txApp_txEventCache := [event_tx TX 5 0x3FFFF 3],
     txBufferWriteStatus := [status_word True, status_word False, status_word True]\<rparr>"

definition pusher_ex5 :: "(16, 2) axis pusher_st" where
  "pusher_ex5 = pusher_ex\<lparr>meta2pkgPushCmd := [mmCmd_mk (tasi_pkgAddr 5 0x3FFFF) 3]\<rparr>"

theorem tx_confirmations_witness:
  "\<exists>n. length (txBufferWriteCmd ((tasi_pkg_pusher \<lparr>na_data = 7, na_keep = 3, na_last = False\<rparr> ^^ n) pusher_ex5)) = 2 \<and>
     (let h = (txAppStatusHandler ^^ 4) status_ex in tash_state h = READ_EV \<and>
        txBufferWriteStatus h = [] \<and> txApp2txSar_push h = [\<lparr>tap_sessionID = 5, tap_app = 2\<rparr>])"
proof -
  let ?u = "\<lparr>na_data = 7, na_keep = 3, na_last = False\<rparr> :: (16, 2) axis"
  have u: "widths_ok ?u" unfolding widths_ok_def by (intro conjI bexI [of _ 1]) simp_all
  have s: "tasiPkgPushState pusher_ex5 = IDLE" "meta2pkgPushCmd pusher_ex5 = [mmCmd_mk (tasi_pkgAddr 5 0x3FFFF) 3]"
    "appTxDataIn pusher_ex5 = axis_ex @ []"
    by (simp_all add: pusher_ex5_def pusher_ex_def)
  have h: "tash_state status_ex = READ_EV" "txApp_txEventCache status_ex = [event_tx TX 5 0x3FFFF 3]"
    "txBufferWriteStatus status_ex = [status_word True, status_word False, status_word True] @ []"
    "txApp2txSar_push status_ex = []"
    by (simp_all add: status_ex_def adm_ex0_def)
  have c: "confirms k [status_word True, status_word False, status_word True] \<longleftrightarrow> k = 2" for k
    by (auto simp: confirms_def status_word_def)
  have push: "tash_push (event_tx TX 5 0x3FFFF 3) = \<lparr>tap_sessionID = 5, tap_app = 2\<rparr>" by code_simp
  have len: "length [0x11, 0x22, 0x33 :: u8] = unat (3 :: u16)" by simp
  have "crosses_end (mmCmd_mk (tasi_pkgAddr 5 0x3FFFF) 3)"
    unfolding request_crosses [OF HOL.refl HOL.refl] by (simp add: event_tx_def event_simple_def BUFFER_SIZE_eq)
  with tx_confirmations [OF u HOL.refl HOL.refl carries_axis_ex len s h(1-3)] show ?thesis
    by (simp add: Let_def c push h(4) pusher_ex5_def pusher_ex_def numeral_eq_Suc) blast
qed

section \<open>What the uninitialised word does\<close>

text \<open>The word of \<open>RESIDUE\<close> shows the first bytes of \<open>emptyWord\<close> as far as its \<open>keep\<close> bits say so: the
  packet has its length only if these happen to be 0.\<close>

lemma residue_keep_uninitialised:
  fixes u :: "('w::len, 'k::len) axis"
  defines "m s \<equiv> unat (pp_offset s)"
  assumes "LENGTH('w) = 8 * LENGTH('k)" "LENGTH('k) \<le> 64" "tasiPkgPushState s = RESIDUE" "0 < m s" "m s < LENGTH('k)"
  shows "\<exists>v. txBufferWriteData (tasi_pkg_pusher u s) = txBufferWriteData s @ [v] \<and> na_last v \<and>
    cells v = drop (m s) (cells (pp_prevWord s)) @ take (m s) (cells u)"
proof -
  have "unat (ucast (pp_offset s) :: 6 word) = m s"
    using assms by (simp add: unsigned_ucast_eq take_bit_nat_eq_self)
  from cells_alignWords [OF assms(2) this [symmetric] assms(5,6), of u] show ?thesis
    using pp_residue_step [OF assms(4), of u] by simp
qed

end
