(* ===== verification/Rx_App.thy ===== *)
theory Rx_App
  imports Sar_Tables Axi_Utils
begin

text \<open>
  \<open>rx_app_if/rx_app_if.cpp\<close>, \<open>rx_app_stream_if/rx_app_stream_if.cpp\<close> and \<open>rxAppWrapper\<close> with
  its processes in \<open>toe.cpp\<close>: how the application opens listening ports and reads received data.
  The configuration is the one the build files select, \<open>RX_DDR_BYPASS\<close>: received data stays on
  chip and a read command is a mere token.  Composed with \<open>rx_sar_table\<close>, every read request
  moves the read pointer of its session by its length.
\<close>

section \<open>Reading data and opening ports\<close>

record 'a rxapp_st =
  rasi_fsmState :: bool
  rasi_readLength :: u16
  appRxDataReq :: "appReadRequest fifo"
  ra_upd_rsp :: "rxSarAppd fifo"
  appRxDataRspMetadata :: "u16 fifo"
  ra_upd_req :: "rxSarAppd fifo"
  rxBufferReadCmd :: "bool fifo"
  ramdr_fsmState :: bool
  rxBufferReadData :: "'a fifo"
  rxDataRsp :: "'a fifo"
  rai_wait :: bool
  appListenPortReq :: "u16 fifo"
  ra_listen_rsp :: "bool fifo"
  appListenPortRsp :: "bool fifo"
  ra_listen_req :: "u16 fifo"
  rxEng2rxApp_notification :: "appNotification fifo"
  timer2rxApp_notification :: "appNotification fifo"
  appNotificationOut :: "appNotification fifo"

text \<open>\<open>ra_upd_req\<close> and \<open>ra_upd_rsp\<close> are \<open>rxApp2rxSar_upd_req\<close> and \<open>rxSar2rxApp_upd_rsp\<close>;
  the states 0 and 1 are \<open>False\<close> and \<open>True\<close>.\<close>

definition rx_app_stream_if :: "'a rxapp_st \<Rightarrow> 'a rxapp_st" where
  "rx_app_stream_if s =
     (if \<not> rasi_fsmState s
      then (case appRxDataReq s of
              r # rest \<Rightarrow>
                let s = s\<lparr>appRxDataReq := rest\<rparr>
                in if arr_length r \<noteq> 0
                   then s\<lparr>ra_upd_req := ra_upd_req s @ [rxSarAppd_read (arr_sessionID r)],
                          rasi_readLength := arr_length r, rasi_fsmState := True\<rparr>
                   else s
            | [] \<Rightarrow> s)
      else (case ra_upd_rsp s of
              rxSar # rest \<Rightarrow>
                s\<lparr>ra_upd_rsp := rest,
                  appRxDataRspMetadata := appRxDataRspMetadata s @ [rsa_sessionID rxSar],
                  rxBufferReadCmd := rxBufferReadCmd s @ [True],
                  ra_upd_req := ra_upd_req s @
                    [rxSarAppd_write (rsa_sessionID rxSar)
                       (rsa_appd rxSar + ucast (rasi_readLength s))],
                  rasi_fsmState := False\<rparr>
            | [] \<Rightarrow> s))"

definition rxAppMemDataRead :: "('d, 'k) net_axis rxapp_st \<Rightarrow> ('d, 'k) net_axis rxapp_st" where
  "rxAppMemDataRead s =
     (if \<not> ramdr_fsmState s
      then (case rxBufferReadCmd s of
              _ # rest \<Rightarrow> s\<lparr>rxBufferReadCmd := rest, ramdr_fsmState := True\<rparr>
            | [] \<Rightarrow> s)
      else (case rxBufferReadData s of
              currWord # rest \<Rightarrow>
                let s = s\<lparr>rxBufferReadData := rest, rxDataRsp := rxDataRsp s @ [currWord]\<rparr>
                in if na_last currWord then s\<lparr>ramdr_fsmState := False\<rparr> else s
            | [] \<Rightarrow> s))"

definition rx_app_if :: "'a rxapp_st \<Rightarrow> 'a rxapp_st" where
  "rx_app_if s =
     (if appListenPortReq s \<noteq> [] \<and> \<not> rai_wait s
      then s\<lparr>appListenPortReq := tl (appListenPortReq s),
             ra_listen_req := ra_listen_req s @ [hd (appListenPortReq s)], rai_wait := True\<rparr>
      else if ra_listen_rsp s \<noteq> [] \<and> rai_wait s
      then s\<lparr>ra_listen_rsp := tl (ra_listen_rsp s),
             appListenPortRsp := appListenPortRsp s @ [hd (ra_listen_rsp s)], rai_wait := False\<rparr>
      else s)"

definition ra_merge :: "'a rxapp_st \<Rightarrow> 'a rxapp_st" where
  "ra_merge s =
     (case stream_merger (rxEng2rxApp_notification s, timer2rxApp_notification s, appNotificationOut s) of
        (a, b, c) \<Rightarrow> s\<lparr>rxEng2rxApp_notification := a, timer2rxApp_notification := b,
                        appNotificationOut := c\<rparr>)"

definition rxAppWrapper :: "('d, 'k) net_axis rxapp_st \<Rightarrow> ('d, 'k) net_axis rxapp_st" where
  "rxAppWrapper s = ra_merge (rx_app_if (rxAppMemDataRead (rx_app_stream_if s)))"

section \<open>Composition with the receive table\<close>

definition ra_connect :: "'a rxapp_st \<Rightarrow> rx_sar_st \<Rightarrow> 'a rxapp_st" where
  "ra_connect a s = a\<lparr>ra_upd_rsp := rxSar2rxApp_upd_rsp s, ra_upd_req := rxApp2rxSar_upd_req s\<rparr>"

definition ra_return :: "'a rxapp_st \<Rightarrow> rx_sar_st \<Rightarrow> rx_sar_st" where
  "ra_return a s = s\<lparr>rxApp2rxSar_upd_req := ra_upd_req a, rxSar2rxApp_upd_rsp := ra_upd_rsp a\<rparr>"

text \<open>
  A state of the system: the interface, the table, and the read requests of the application so
  far.  The inputs of a cycle are the uninitialised reply of \<open>rx_sar_table\<close> and the requests.
\<close>

type_synonym ('d, 'k) ra_sys = "('d, 'k) net_axis rxapp_st \<times> rx_sar_st \<times> appReadRequest list"

definition ra_cyc :: "rxSarReply \<Rightarrow> ('d, 'k) ra_sys \<Rightarrow> ('d, 'k) ra_sys option" where
  "ra_cyc u x = (case x of (a, s, rs) \<Rightarrow>
     let a = rxAppWrapper (ra_connect a s)
     in map_option (\<lambda>t. (a, t, rs)) (rx_sar_table u (ra_return a s)))"

text \<open>
  Between the cycles the application adds read requests, the receive engine updates what it has
  received (a SYN initialises the entry of its session; \<open>J\<close> are sessions for which none comes) and the
  transmit engine asks for windows.  Whoever takes the answers is not modelled: the interface never looks at them.
\<close>

definition keeps_open :: "nat set \<Rightarrow> rxSarRecvd \<Rightarrow> bool" where
  "keeps_open J q \<longleftrightarrow> (rsv_init q \<longrightarrow> unat (rsv_sessionID q) \<notin> J)"

definition ra_env :: "nat \<Rightarrow> nat set \<Rightarrow> ('d, 'k) ra_sys \<Rightarrow> ('d, 'k) ra_sys \<Rightarrow> bool" where
  "ra_env n J x y \<longleftrightarrow> (case (x, y) of ((a, s, rs), (b, t, ss)) \<Rightarrow>
     rx_sar_env n s t \<and> rxApp2rxSar_upd_req t = rxApp2rxSar_upd_req s \<and>
     rxSar2rxApp_upd_rsp t = rxSar2rxApp_upd_rsp s \<and>
     (\<forall>q\<in>set (rxEng2rxSar_upd_req t). q \<in> set (rxEng2rxSar_upd_req s) \<or> keeps_open J q) \<and>
     rasi_fsmState b = rasi_fsmState a \<and> rasi_readLength b = rasi_readLength a \<and>
     appRxDataRspMetadata b = appRxDataRspMetadata a \<and>
     (\<exists>new. appRxDataReq b = appRxDataReq a @ new \<and> ss = rs @ new \<and>
        (\<forall>r\<in>set new. unat (arr_sessionID r) < n)))"

definition ra_start :: "nat \<Rightarrow> nat set \<Rightarrow> ('d, 'k) ra_sys \<Rightarrow> bool" where
  "ra_start n J x \<longleftrightarrow> (case x of (a, s, rs) \<Rightarrow>
     \<not> rasi_fsmState a \<and> appRxDataReq a = [] \<and> appRxDataRspMetadata a = [] \<and> rs = [] \<and>
     rx_sar_inv n s \<and> rxApp2rxSar_upd_req s = [] \<and> rxSar2rxApp_upd_rsp s = [] \<and>
     (\<forall>q\<in>set (rxEng2rxSar_upd_req s). keeps_open J q))"

text \<open>How far the requests \<open>rs\<close> move the read pointer of session \<open>k\<close>.\<close>

definition consumed :: "nat \<Rightarrow> appReadRequest list \<Rightarrow> u18" where
  "consumed k rs = sum_list (map (\<lambda>r. ucast (arr_length r)) (filter (\<lambda>r. unat (arr_sessionID r) = k) rs))"

definition real_reads :: "appReadRequest list \<Rightarrow> appReadRequest list" where
  "real_reads rs = filter (\<lambda>r. arr_length r \<noteq> 0) rs"

lemma consumed_snoc: "consumed k (rs @ [r]) =
    consumed k rs + (if unat (arr_sessionID r) = k then ucast (arr_length r) else 0)"
  by (simp add: consumed_def)

lemma real_reads_simps [simp]:
  "real_reads [] = []"
  "real_reads (r # rs) = (if arr_length r \<noteq> 0 then r # real_reads rs else real_reads rs)"
  "real_reads (rs @ ss) = real_reads rs @ real_reads ss"
  by (simp_all add: real_reads_def)

text \<open>
  The link between interface and table: \<open>pend\<close> is the request being served, \<open>ptr k\<close> the pointer
  of session \<open>k\<close> once the write that may still be in the stream has been executed.
\<close>

definition at_pointer :: "nat \<Rightarrow> nat set \<Rightarrow> (nat \<Rightarrow> u18) \<Rightarrow> rx_sar_st \<Rightarrow> nat set \<Rightarrow> bool" where
  "at_pointer n J ptr s X \<longleftrightarrow> (\<forall>k<n. k \<in> J \<longrightarrow> k \<notin> X \<longrightarrow> rse_appd (rx_table s ! k) = ptr k)"

lemma at_pointer_update [simp]:
  "at_pointer n J ptr (s\<lparr>rxApp2rxSar_upd_req := xs, rxSar2rxApp_upd_rsp := ys\<rparr>) X = at_pointer n J ptr s X"
  by (simp add: at_pointer_def)

definition ra_link :: "nat \<Rightarrow> nat set \<Rightarrow> (nat \<Rightarrow> u18) \<Rightarrow> appReadRequest list \<Rightarrow> bool \<Rightarrow> u16 \<Rightarrow> rx_sar_st \<Rightarrow> bool" where
  "ra_link n J ptr pend f len s \<longleftrightarrow>
     (\<exists>ws. rxApp2rxSar_upd_req s = ws @ (if f \<and> rxSar2rxApp_upd_rsp s = []
             then map (\<lambda>r. rxSarAppd_read (arr_sessionID r)) pend else []) \<and>
        (rxSar2rxApp_upd_rsp s \<noteq> [] \<longrightarrow> ws = [] \<and> f \<and>
           (\<exists>v. rxSar2rxApp_upd_rsp s = map (\<lambda>r. rxSarAppd_write (arr_sessionID r) v) pend \<and>
              (\<forall>r\<in>set pend. unat (arr_sessionID r) \<in> J \<longrightarrow> v = ptr (unat (arr_sessionID r))))) \<and>
        (if f then \<exists>r. pend = [r] \<and> len = arr_length r \<and> unat (arr_sessionID r) < n else pend = []) \<and>
        (ws = [] \<and> at_pointer n J ptr s {} \<or>
         (\<exists>i v. ws = [rxSarAppd_write i v] \<and> unat i < n \<and> (unat i \<in> J \<longrightarrow> v = ptr (unat i)) \<and>
            at_pointer n J ptr s {unat i})))"

definition ra_inv :: "nat \<Rightarrow> nat set \<Rightarrow> (nat \<Rightarrow> u18) \<Rightarrow> ('d, 'k) ra_sys \<Rightarrow> bool" where
  "ra_inv n J p0 x \<longleftrightarrow> (case x of (a, s, rs) \<Rightarrow>
     rx_sar_inv n s \<and> (\<forall>q\<in>set (rxEng2rxSar_upd_req s). keeps_open J q) \<and>
     (\<forall>r\<in>set (appRxDataReq a). unat (arr_sessionID r) < n) \<and>
     (\<exists>dn pend. real_reads rs = dn @ pend @ real_reads (appRxDataReq a) \<and>
        appRxDataRspMetadata a = map arr_sessionID dn \<and>
        ra_link n J (\<lambda>k. p0 k + consumed k dn) pend (rasi_fsmState a) (rasi_readLength a) s))"

text \<open>A cycle of the table: the entry it writes keeps the pointer, or an application request is executed.\<close>

lemma rx_sar_cases:
  assumes "rx_sar_table u s = Some t" "rx_sar_inv n s" "\<forall>q\<in>set (rxEng2rxSar_upd_req s). keeps_open J q"
  shows "rxApp2rxSar_upd_req t = rxApp2rxSar_upd_req s \<and> rxSar2rxApp_upd_rsp t = rxSar2rxApp_upd_rsp s \<and>
       (\<forall>k<n. k \<in> J \<longrightarrow> rse_appd (rx_table t ! k) = rse_appd (rx_table s ! k))
    \<or> (\<exists>q qs. rxApp2rxSar_upd_req s = q # qs \<and> rxApp2rxSar_upd_req t = qs \<and>
       (if rsa_write q
        then rxSar2rxApp_upd_rsp t = rxSar2rxApp_upd_rsp s \<and>
          (\<forall>k<n. rse_appd (rx_table t ! k) =
             (if k = unat (rsa_sessionID q) then rsa_appd q else rse_appd (rx_table s ! k)))
        else rx_table t = rx_table s \<and> rxSar2rxApp_upd_rsp t = rxSar2rxApp_upd_rsp s @
          [rxSarAppd_write (rsa_sessionID q) (rse_appd (rx_table s ! unat (rsa_sessionID q)))]))"
proof (cases "txEng2rxSar_req s")
  case Cons
  then show ?thesis using assms(1) by (auto simp: rx_sar_table_def bind_eq_Some_conv)
next
  case Nil
  note tx = this
  have len: "length (rx_table s) = n" using assms(2) by (simp add: rx_sar_inv_def)
  show ?thesis
  proof (cases "rxApp2rxSar_upd_req s")
    case (Cons q qs)
    then show ?thesis using assms(1) tx len
      by (auto simp: rx_sar_table_def bind_eq_Some_conv table_simps nth_list_update split: if_splits)
  next
    case Nil
    then show ?thesis using assms(1,3) tx len
      by (cases "rxEng2rxSar_upd_req s")
        (auto simp: rx_sar_table_def bind_eq_Some_conv table_simps nth_list_update rx_sar_write_def keeps_open_def
          Let_def split: if_splits)
  qed
qed

lemma rxSarAppd_simps [simp]:
  "rsa_write (rxSarAppd_write i v)" "\<not> rsa_write (rxSarAppd_read i)"
  "rsa_sessionID (rxSarAppd_write i v) = i" "rsa_sessionID (rxSarAppd_read i) = i"
  "rsa_appd (rxSarAppd_write i v) = v"
  by (simp_all add: rxSarAppd_read_def rxSarAppd_write_def)

lemma rxSarAppd_distinct [simp]: "rxSarAppd_write i v \<noteq> rxSarAppd_read j" "rxSarAppd_read j \<noteq> rxSarAppd_write i v"
  by (metis rxSarAppd_simps(1,2))+

lemma ra_link_table:
  assumes l: "ra_link n J ptr pend f len s" and t: "rx_sar_table u s = Some t" "rx_sar_inv n s"
    "\<forall>q\<in>set (rxEng2rxSar_upd_req s). keeps_open J q"
  shows "ra_link n J ptr pend f len t"
  using rx_sar_cases [OF t]
proof (elim disjE exE conjE)
  assume same: "rxApp2rxSar_upd_req t = rxApp2rxSar_upd_req s" "rxSar2rxApp_upd_rsp t = rxSar2rxApp_upd_rsp s"
    "\<forall>k<n. k \<in> J \<longrightarrow> rse_appd (rx_table t ! k) = rse_appd (rx_table s ! k)"
  then have "at_pointer n J ptr t X = at_pointer n J ptr s X" for X by (auto simp: at_pointer_def)
  with l same show ?thesis by (simp add: ra_link_def)
next
  fix q qs assume q: "rxApp2rxSar_upd_req s = q # qs" "rxApp2rxSar_upd_req t = qs" and e: "if rsa_write q
        then rxSar2rxApp_upd_rsp t = rxSar2rxApp_upd_rsp s \<and>
          (\<forall>k<n. rse_appd (rx_table t ! k) =
             (if k = unat (rsa_sessionID q) then rsa_appd q else rse_appd (rx_table s ! k)))
        else rx_table t = rx_table s \<and> rxSar2rxApp_upd_rsp t = rxSar2rxApp_upd_rsp s @
          [rxSarAppd_write (rsa_sessionID q) (rse_appd (rx_table s ! unat (rsa_sessionID q)))]"
  show ?thesis
  proof (cases "rsa_write q")
    case True
    with l q obtain i v where w: "q = rxSarAppd_write i v" "rxSar2rxApp_upd_rsp s = []" "unat i \<in> J \<longrightarrow> v = ptr (unat i)"
      "at_pointer n J ptr s {unat i}" "qs = (if f then map (\<lambda>r. rxSarAppd_read (arr_sessionID r)) pend else [])"
      by (auto simp: ra_link_def Cons_eq_append_conv split: if_splits)
    with e True have "at_pointer n J ptr t {}" "rxSar2rxApp_upd_rsp t = []" by (auto simp: at_pointer_def)
    with w(5) l q(2) show ?thesis by (auto simp: ra_link_def)
  next
    case False
    with l q obtain r where w: "pend = [r]" "q = rxSarAppd_read (arr_sessionID r)" "qs = []" "rxSar2rxApp_upd_rsp s = []"
      "at_pointer n J ptr s {}" "unat (arr_sessionID r) < n" "f" "len = arr_length r"
      by (auto simp: ra_link_def Cons_eq_append_conv split: if_splits)
    with e False have "at_pointer n J ptr t {}"
      "rxSar2rxApp_upd_rsp t = [rxSarAppd_write (arr_sessionID r) (rse_appd (rx_table s ! unat (arr_sessionID r)))]"
      by (auto simp: at_pointer_def)
    with w q(2) show ?thesis by (auto simp: ra_link_def at_pointer_def)
  qed
qed

lemma rxAppWrapper_frame [simp]:
  "rasi_fsmState (rxAppWrapper s) = rasi_fsmState (rx_app_stream_if s)"
  "rasi_readLength (rxAppWrapper s) = rasi_readLength (rx_app_stream_if s)"
  "appRxDataReq (rxAppWrapper s) = appRxDataReq (rx_app_stream_if s)"
  "ra_upd_rsp (rxAppWrapper s) = ra_upd_rsp (rx_app_stream_if s)"
  "ra_upd_req (rxAppWrapper s) = ra_upd_req (rx_app_stream_if s)"
  "appRxDataRspMetadata (rxAppWrapper s) = appRxDataRspMetadata (rx_app_stream_if s)"
  by (simp_all add: rxAppWrapper_def ra_merge_def rx_app_if_def rxAppMemDataRead_def Let_def
      split: prod.splits list.splits)

lemma ra_link_request:
  assumes "ra_link n J ptr pend False len s" "unat (arr_sessionID r) < n"
  shows "ra_link n J ptr [r] True (arr_length r) (s\<lparr>rxApp2rxSar_upd_req :=
    rxApp2rxSar_upd_req s @ [rxSarAppd_read (arr_sessionID r)], rxSar2rxApp_upd_rsp := rxSar2rxApp_upd_rsp s\<rparr>)"
proof -
  have r: "rxSar2rxApp_upd_rsp s = []" using assms(1) by (auto simp: ra_link_def)
  show ?thesis
    unfolding ra_link_def
    by (rule exI [of _ "rxApp2rxSar_upd_req s"]) (use assms r in \<open>simp add: ra_link_def\<close>)
qed

lemma ra_inv_cong:
  "rasi_fsmState b = rasi_fsmState a \<Longrightarrow> rasi_readLength b = rasi_readLength a \<Longrightarrow> appRxDataReq b = appRxDataReq a \<Longrightarrow>
   appRxDataRspMetadata b = appRxDataRspMetadata a \<Longrightarrow> ra_inv n J p0 (b, s, rs) = ra_inv n J p0 (a, s, rs)"
  by (simp add: ra_inv_def)

text \<open>The answer comes: the pointer is written back, moved by the length of the request.\<close>

lemma ra_link_answer:
  assumes l: "ra_link n J ptr [r] True len s" and rsp: "rxSar2rxApp_upd_rsp s = q # qs"
    and p: "\<And>k. ptr' k = ptr k + (if unat (arr_sessionID r) = k then ucast (arr_length r) else 0)"
  shows "qs = [] \<and> rxApp2rxSar_upd_req s = [] \<and> rsa_sessionID q = arr_sessionID r \<and>
    ra_link n J ptr' [] False len' (s\<lparr>rxApp2rxSar_upd_req := [rxSarAppd_write (arr_sessionID r) (rsa_appd q + ucast len)],
      rxSar2rxApp_upd_rsp := []\<rparr>)"
proof -
  from l rsp obtain v where v: "rxSar2rxApp_upd_rsp s = [rxSarAppd_write (arr_sessionID r) v]"
    "rxApp2rxSar_upd_req s = []" "at_pointer n J ptr s {}" "unat (arr_sessionID r) < n" "len = arr_length r"
    "unat (arr_sessionID r) \<in> J \<longrightarrow> v = ptr (unat (arr_sessionID r))"
    by (auto simp: ra_link_def)
  have "at_pointer n J ptr' s {unat (arr_sessionID r)}" using v(3) p by (auto simp: at_pointer_def)
  moreover have "unat (arr_sessionID r) \<in> J \<longrightarrow> v + ucast len = ptr' (unat (arr_sessionID r))"
    using v(5,6) p by simp
  ultimately show ?thesis
    unfolding ra_link_def using v rsp
    by (intro conjI exI [of _ "[rxSarAppd_write (arr_sessionID r) (v + ucast len)]"] disjI2) auto
qed

lemma ra_inv_app:
  assumes "ra_inv n J p0 (a, s, rs)"
  defines "b \<equiv> rxAppWrapper (ra_connect a s)"
  shows "ra_inv n J p0 (b, ra_return b s, rs)"
proof -
  from assms(1) obtain dn pend where i: "rx_sar_inv n s" "\<forall>q\<in>set (rxEng2rxSar_upd_req s). keeps_open J q"
    "\<forall>r\<in>set (appRxDataReq a). unat (arr_sessionID r) < n"
    "real_reads rs = dn @ pend @ real_reads (appRxDataReq a)"
    "appRxDataRspMetadata a = map arr_sessionID dn"
    and l: "ra_link n J (\<lambda>k. p0 k + consumed k dn) pend (rasi_fsmState a) (rasi_readLength a) s"
    by (auto simp: ra_inv_def)
  show ?thesis
  proof (cases "rasi_fsmState a")
    case False
    with l have p: "pend = []" by (simp add: ra_link_def)
    show ?thesis
    proof (cases "appRxDataReq a")
      case Nil
      with False have "rasi_fsmState b = rasi_fsmState a" "rasi_readLength b = rasi_readLength a"
        "appRxDataReq b = appRxDataReq a" "appRxDataRspMetadata b = appRxDataRspMetadata a" "ra_return b s = s"
        by (simp_all add: b_def ra_connect_def ra_return_def rx_app_stream_if_def)
      with assms(1) ra_inv_cong [of b a n J p0 s rs] show ?thesis by simp
    next
      case (Cons r rest)
      show ?thesis
      proof (cases "arr_length r = 0")
        case True
        with False Cons have b: "\<not> rasi_fsmState b" "appRxDataReq b = rest"
          "appRxDataRspMetadata b = appRxDataRspMetadata a" "ra_return b s = s"
          by (simp_all add: b_def ra_connect_def ra_return_def rx_app_stream_if_def)
        have "ra_link n J (\<lambda>k. p0 k + consumed k dn) pend (rasi_fsmState b) (rasi_readLength b) s"
          using l False p b(1) by (simp add: ra_link_def)
        moreover have "real_reads rs = dn @ pend @ real_reads (appRxDataReq b)" using i(4) p True Cons b(2) by simp
        ultimately show ?thesis unfolding ra_inv_def using i Cons b(2-4) by auto
      next
        case len: False
        have b: "rasi_fsmState b" "rasi_readLength b = arr_length r" "appRxDataReq b = rest"
          "appRxDataRspMetadata b = map arr_sessionID dn"
          "ra_return b s = s\<lparr>rxApp2rxSar_upd_req := rxApp2rxSar_upd_req s @ [rxSarAppd_read (arr_sessionID r)],
             rxSar2rxApp_upd_rsp := rxSar2rxApp_upd_rsp s\<rparr>"
          using i(5) len False Cons
          by (simp_all add: b_def ra_connect_def ra_return_def rx_app_stream_if_def)
        have "real_reads rs = dn @ [r] @ real_reads rest" using i(4) p Cons len by simp
        moreover have "ra_link n J (\<lambda>k. p0 k + consumed k dn) [r] (rasi_fsmState b) (rasi_readLength b) (ra_return b s)"
          using ra_link_request [of n J _ pend _ s r] l False i(3) Cons by (simp add: b)
        moreover have "rx_sar_inv n (ra_return b s)"
          using i(1,3) Cons by (auto simp: b(5) rx_sar_inv_def rxSarAppd_read_def)
        ultimately show ?thesis using i(2,3) Cons by (auto simp: ra_inv_def b)
      qed
    qed
  next
    case True
    then show ?thesis
    proof (cases "rxSar2rxApp_upd_rsp s = []")
      case rsp: True
      with True have "rasi_fsmState b = rasi_fsmState a" "rasi_readLength b = rasi_readLength a"
        "appRxDataReq b = appRxDataReq a" "appRxDataRspMetadata b = appRxDataRspMetadata a" "ra_return b s = s"
        by (simp_all add: b_def ra_connect_def ra_return_def rx_app_stream_if_def)
      with assms(1) ra_inv_cong [of b a n J p0 s rs] show ?thesis by simp
    next
      case False
      then obtain q qs where rsp: "rxSar2rxApp_upd_rsp s = q # qs" by (cases "rxSar2rxApp_upd_rsp s") simp_all
      from l True obtain r where r: "pend = [r]" "rasi_readLength a = arr_length r" "unat (arr_sessionID r) < n"
        by (auto simp: ra_link_def)
      have p: "p0 k + consumed k (dn @ [r]) =
          p0 k + consumed k dn + (if unat (arr_sessionID r) = k then ucast (arr_length r) else 0)" for k
        by (simp add: consumed_snoc add.assoc)
      have "ra_link n J (\<lambda>k. p0 k + consumed k dn) [r] True (rasi_readLength a) s" using l True r(1) by simp
      note answer = ra_link_answer [OF this rsp p, of "rasi_readLength b"]
      then have b: "\<not> rasi_fsmState b" "appRxDataReq b = appRxDataReq a"
        "appRxDataRspMetadata b = map arr_sessionID (dn @ [r])"
        "ra_return b s = s\<lparr>rxApp2rxSar_upd_req := [rxSarAppd_write (arr_sessionID r) (rsa_appd q + ucast (rasi_readLength a))],
           rxSar2rxApp_upd_rsp := []\<rparr>"
        using True rsp i(5) by (simp_all add: b_def ra_connect_def ra_return_def rx_app_stream_if_def)
      have "rx_sar_inv n (ra_return b s)" using i(1) r(3) unfolding b(4) by (simp add: rx_sar_inv_def)
      moreover have "ra_link n J (\<lambda>k. p0 k + consumed k (dn @ [r])) [] (rasi_fsmState b) (rasi_readLength b) (ra_return b s)"
        unfolding b(4) using answer b(1) by simp
      ultimately show ?thesis using i(2-4) r(1) b
        unfolding ra_inv_def prod.case
        by (intro conjI exI [of _ "dn @ [r]"] exI [of _ "[]"]) auto
    qed
  qed
qed

lemma ra_inv_cyc: "ra_inv n J p0 x \<Longrightarrow> ra_cyc u x = Some y \<Longrightarrow> ra_inv n J p0 y"
proof -
  assume inv: "ra_inv n J p0 x" and c: "ra_cyc u x = Some y"
  obtain a s rs where x: "x = (a, s, rs)" by (cases x)
  let ?b = "rxAppWrapper (ra_connect a s)"
  from c obtain t where t: "rx_sar_table u (ra_return ?b s) = Some t" "y = (?b, t, rs)"
    by (auto simp: x ra_cyc_def Let_def)
  from ra_inv_app [OF inv [unfolded x]]
  have b: "ra_inv n J p0 (?b, ra_return ?b s, rs)" .
  then have r: "rx_sar_inv n (ra_return ?b s)" "\<forall>q\<in>set (rxEng2rxSar_upd_req (ra_return ?b s)). keeps_open J q"
    by (auto simp: ra_inv_def)
  have "rx_sar_inv n t" using rxs.cyc_inv [OF r(1) t(1)] .
  moreover have "set (rxEng2rxSar_upd_req t) \<subseteq> set (rxEng2rxSar_upd_req (ra_return ?b s))"
    using t(1) by (auto simp: rx_sar_table_def bind_eq_Some_conv Let_def neq_Nil_conv split: if_splits)
  moreover note ra_link_table [OF _ t(1) r]
  ultimately show ?thesis using b r(2) by (fastforce simp: ra_inv_def t(2))
qed

lemma ra_inv_env: "ra_inv n J p0 x \<Longrightarrow> ra_env n J x y \<Longrightarrow> ra_inv n J p0 y"
proof -
  assume inv: "ra_inv n J p0 x" and e: "ra_env n J x y"
  obtain a s rs where x: "x = (a, s, rs)" by (cases x)
  obtain b t ss where y: "y = (b, t, ss)" by (cases y)
  from e x y obtain new where env: "rx_sar_env n s t" "rxApp2rxSar_upd_req t = rxApp2rxSar_upd_req s"
    "rxSar2rxApp_upd_rsp t = rxSar2rxApp_upd_rsp s"
    "\<forall>q\<in>set (rxEng2rxSar_upd_req t). q \<in> set (rxEng2rxSar_upd_req s) \<or> keeps_open J q"
    "rasi_fsmState b = rasi_fsmState a" "rasi_readLength b = rasi_readLength a"
    "appRxDataRspMetadata b = appRxDataRspMetadata a" "appRxDataReq b = appRxDataReq a @ new"
    "ss = rs @ new" "\<forall>r\<in>set new. unat (arr_sessionID r) < n" by (auto simp: ra_env_def)
  from inv x obtain dn pend where i: "rx_sar_inv n s" "\<forall>q\<in>set (rxEng2rxSar_upd_req s). keeps_open J q"
    "\<forall>r\<in>set (appRxDataReq a). unat (arr_sessionID r) < n"
    "real_reads rs = dn @ pend @ real_reads (appRxDataReq a)"
    "appRxDataRspMetadata a = map arr_sessionID dn"
    "ra_link n J (\<lambda>k. p0 k + consumed k dn) pend (rasi_fsmState a) (rasi_readLength a) s"
    by (auto simp: ra_inv_def)
  have "rx_sar_inv n t" using rxs.env_inv [OF i(1) env(1)] .
  moreover have "ra_link n J (\<lambda>k. p0 k + consumed k dn) pend (rasi_fsmState b) (rasi_readLength b) t"
    using i(6) env(1-3,5,6) by (simp add: ra_link_def at_pointer_def rx_sar_env_def)
  moreover have "real_reads ss = dn @ pend @ real_reads (appRxDataReq b)" using i(4) env(8,9) by simp
  moreover have "\<forall>r\<in>set (appRxDataReq b). unat (arr_sessionID r) < n"
    "\<forall>q\<in>set (rxEng2rxSar_upd_req t). keeps_open J q" "appRxDataRspMetadata b = map arr_sessionID dn"
    using i env by auto
  ultimately show ?thesis unfolding ra_inv_def y by blast
qed

interpretation ras: clocked "ra_inv n J p0" "ra_env n J" ra_cyc for n J p0
proof unfold_locales
  fix s :: "('d, 'k) ra_sys" and i
  assume inv: "ra_inv n J p0 s"
  obtain a t rs where s: "s = (a, t, rs)" by (cases s)
  from ra_inv_app [OF inv [unfolded s]]
  have "rx_sar_inv n (ra_return (rxAppWrapper (ra_connect a t)) t)" by (simp add: ra_inv_def)
  from rxs.cyc_safe [OF this] show "\<exists>t. ra_cyc i s = Some t" by (auto simp: s ra_cyc_def Let_def)
qed (erule (1) ra_inv_env ra_inv_cyc)+

section \<open>Every read is answered\<close>

fun ra_run :: "rxSarReply \<Rightarrow> nat \<Rightarrow> ('d, 'k) ra_sys \<Rightarrow> ('d, 'k) ra_sys option" where
  "ra_run u 0 x = Some x"
| "ra_run u (Suc m) x = Option.bind (ra_cyc u x) (ra_run u m)"

definition ra_answered :: "rxSarReply \<Rightarrow> nat \<Rightarrow> u16 \<Rightarrow> ('d, 'k) ra_sys \<Rightarrow> bool" where
  "ra_answered u m k x \<longleftrightarrow> (\<exists>j y. j \<le> m \<and> ra_run u j x = Some y \<and>
     appRxDataRspMetadata (fst y) = appRxDataRspMetadata (fst x) @ [k])"

lemma ra_answered_step:
  "ra_cyc u x = Some y \<Longrightarrow> appRxDataRspMetadata (fst y) = appRxDataRspMetadata (fst x) \<Longrightarrow>
   ra_answered u m k y \<Longrightarrow> ra_answered u (Suc m) k x"
  unfolding ra_answered_def by (metis Suc_le_mono bind.bind_lunit ra_run.simps(2))

lemma ra_answered_mono: "ra_answered u m k x \<Longrightarrow> m \<le> m' \<Longrightarrow> ra_answered u m' k x"
  unfolding ra_answered_def by (metis le_trans)

text \<open>While the transmit engine asks for nothing, the table serves the application in every cycle.\<close>

lemma ra_cyc_idle_tx:
  assumes "txEng2rxSar_req s = []" "ra_cyc u (a, s, rs) = Some y"
  shows "\<exists>b t. y = (b, t, rs) \<and> txEng2rxSar_req t = [] \<and>
     b = rxAppWrapper (ra_connect a s) \<and> rx_sar_table u (ra_return b s) = Some t"
proof -
  let ?b = "rxAppWrapper (ra_connect a s)"
  from assms(2) obtain t where t: "rx_sar_table u (ra_return ?b s) = Some t" "y = (?b, t, rs)"
    by (auto simp: ra_cyc_def Let_def)
  moreover have "txEng2rxSar_req t = txEng2rxSar_req v"
    if "rx_sar_table u v = Some t" "txEng2rxSar_req v = []" for v
    using that by (auto simp: rx_sar_table_def Let_def bind_eq_Some_conv split: if_splits)
  ultimately show ?thesis using assms(1) by (auto simp: ra_return_def)
qed

lemma ra_answer_now:
  assumes "ra_inv n J p0 (a, s, rs)" "rasi_fsmState a" "rxSar2rxApp_upd_rsp s = q # qs"
  shows "ra_answered u 1 (rsa_sessionID q) (a, s, rs)"
proof -
  from ras.cyc_safe [OF assms(1)] obtain y where y: "ra_cyc u (a, s, rs) = Some y" by blast
  then have "appRxDataRspMetadata (fst y) = appRxDataRspMetadata a @ [rsa_sessionID q]"
    using assms(2,3)
    by (auto simp: ra_cyc_def Let_def ra_connect_def ra_return_def rx_app_stream_if_def)
  with y show ?thesis unfolding ra_answered_def by (intro exI [of _ 1] exI [of _ y]) simp
qed

lemma ra_serve_read:
  assumes inv: "ra_inv n J p0 (a, s, rs)" and f: "rasi_fsmState a" "rxSar2rxApp_upd_rsp s = []"
    and q: "rxApp2rxSar_upd_req s = [rxSarAppd_read k]" "txEng2rxSar_req s = []"
  shows "ra_answered u 2 k (a, s, rs)"
proof -
  from ras.cyc_safe [OF inv] obtain y where y: "ra_cyc u (a, s, rs) = Some y" by blast
  from ra_cyc_idle_tx [OF q(2) y] obtain b t where t: "y = (b, t, rs)" "b = rxAppWrapper (ra_connect a s)"
    "rx_sar_table u (ra_return b s) = Some t" by blast
  then have b: "rasi_fsmState b" "appRxDataRspMetadata b = appRxDataRspMetadata a"
    "ra_upd_req b = [rxSarAppd_read k]" "ra_upd_rsp b = []"
    using f q by (simp_all add: ra_connect_def rx_app_stream_if_def)
  have "\<exists>x. rxSar2rxApp_upd_rsp t = [rxSarAppd_write k x]"
    using t(3) b q(2)
    by (auto simp: rx_sar_table_def ra_return_def rxSarAppd_read_def bind_eq_Some_conv)
  then obtain x where "rxSar2rxApp_upd_rsp t = [rxSarAppd_write k x]" ..
  from ra_answer_now [OF _ b(1) this, of n J p0 rs u] ra_inv_cyc [OF inv y] t(1)
  have "ra_answered u 1 k y" by (simp add: rxSarAppd_write_def)
  from ra_answered_step [OF y _ this] b(2) t(1) show ?thesis by (simp add: numeral_2_eq_2)
qed

lemma ra_serve_pending:
  assumes inv: "ra_inv n J p0 (a, s, rs)" and f: "rasi_fsmState a" and q: "txEng2rxSar_req s = []"
    and l: "ra_link n J ptr [r] True (rasi_readLength a) s"
  shows "ra_answered u 3 (arr_sessionID r) (a, s, rs)"
proof (cases "rxSar2rxApp_upd_rsp s")
  case Cons
  with l obtain v where "rxSar2rxApp_upd_rsp s = [rxSarAppd_write (arr_sessionID r) v]"
    by (auto simp: ra_link_def)
  from ra_answer_now [OF inv f this, of u] have "ra_answered u 1 (arr_sessionID r) (a, s, rs)"
    by (simp add: rxSarAppd_write_def)
  then show ?thesis by (rule ra_answered_mono) simp
next
  case Nil
  with l consider "rxApp2rxSar_upd_req s = [rxSarAppd_read (arr_sessionID r)]" |
    i x where "rxApp2rxSar_upd_req s = [rxSarAppd_write i x, rxSarAppd_read (arr_sessionID r)]"
    by (auto simp: ra_link_def)
  then show ?thesis
  proof cases
    case 1
    show ?thesis by (rule ra_answered_mono [OF ra_serve_read [OF inv f Nil 1 q]]) simp
  next
    case 2
    from ras.cyc_safe [OF inv] obtain y where y: "ra_cyc u (a, s, rs) = Some y" by blast
    from ra_cyc_idle_tx [OF q y] obtain b t where t: "y = (b, t, rs)" "txEng2rxSar_req t = []"
      "b = rxAppWrapper (ra_connect a s)" "rx_sar_table u (ra_return b s) = Some t" by blast
    then have b: "rasi_fsmState b" "appRxDataRspMetadata b = appRxDataRspMetadata a"
      "ra_upd_req b = [rxSarAppd_write i x, rxSarAppd_read (arr_sessionID r)]" "ra_upd_rsp b = []"
      using f Nil 2 by (simp_all add: ra_connect_def rx_app_stream_if_def)
    have tq: "rxSar2rxApp_upd_rsp t = []" "rxApp2rxSar_upd_req t = [rxSarAppd_read (arr_sessionID r)]"
      using t(4) b q by (auto simp: rx_sar_table_def ra_return_def rxSarAppd_write_def bind_eq_Some_conv)
    have "ra_inv n J p0 (b, t, rs)" using ra_inv_cyc [OF inv y] t(1) by simp
    from ra_serve_read [OF this b(1) tq t(2)] have "ra_answered u 2 (arr_sessionID r) y" by (simp add: t(1))
    from ra_answered_step [OF y _ this] b(2) t(1) show ?thesis by (simp add: numeral_3_eq_3)
  qed
qed

text \<open>Requests of the transmit engine that are queued come first.\<close>

lemma ra_serve_queued:
  assumes "ra_inv n J p0 (a, s, rs)" "rasi_fsmState a" "ra_link n J ptr [r] True (rasi_readLength a) s"
  shows "ra_answered u (3 + length (txEng2rxSar_req s)) (arr_sessionID r) (a, s, rs)"
  using assms
proof (induction "txEng2rxSar_req s" arbitrary: a s)
  case Nil
  then show ?case using ra_serve_pending [of n J p0 a s rs ptr r u] by simp
next
  case (Cons q qs)
  note inv = Cons.prems(1) and f = Cons.prems(2)
  show ?case
  proof (cases "rxSar2rxApp_upd_rsp s")
    case rsp: Cons
    then obtain v where "rxSar2rxApp_upd_rsp s = [rxSarAppd_write (arr_sessionID r) v]"
      using Cons.prems(3) by (auto simp: ra_link_def)
    from ra_answer_now [OF inv f this, of u] have "ra_answered u 1 (arr_sessionID r) (a, s, rs)"
      by (simp add: rxSarAppd_write_def)
    then show ?thesis by (rule ra_answered_mono) simp
  next
    case Nil
    from ras.cyc_safe [OF inv] obtain y where y: "ra_cyc u (a, s, rs) = Some y" by blast
    let ?b = "rxAppWrapper (ra_connect a s)"
    from y obtain t where t: "rx_sar_table u (ra_return ?b s) = Some t" "y = (?b, t, rs)"
      by (auto simp: ra_cyc_def Let_def)
    have b: "rasi_fsmState ?b" "rasi_readLength ?b = rasi_readLength a"
      "appRxDataRspMetadata ?b = appRxDataRspMetadata a" "ra_return ?b s = s"
      using f Nil by (simp_all add: ra_connect_def ra_return_def rx_app_stream_if_def)
    have q: "txEng2rxSar_req t = qs"
      using t(1) Cons.hyps(2) [symmetric] unfolding b(4) by (auto simp: rx_sar_table_def bind_eq_Some_conv)
    have i: "rx_sar_inv n s" "\<forall>q\<in>set (rxEng2rxSar_upd_req s). keeps_open J q"
      using inv by (auto simp: ra_inv_def)
    have "ra_link n J ptr [r] True (rasi_readLength ?b) t"
      using ra_link_table [OF Cons.prems(3) t(1) [unfolded b(4)] i] by (simp only: b(2))
    moreover have "ra_inv n J p0 (?b, t, rs)" using ra_inv_cyc [OF inv y] t(2) by simp
    ultimately have "ra_answered u (3 + length qs) (arr_sessionID r) y"
      using Cons.hyps(1) [of t ?b] b(1) q unfolding t(2) by simp
    from ra_answered_step [OF y _ this] b(3) t(2) Cons.hyps(2) [symmetric] show ?thesis by simp
  qed
qed

lemma ra_inv_start: "ra_start n J (a, s, rs) \<Longrightarrow> ra_inv n J (\<lambda>k. rse_appd (rx_table s ! k)) (a, s, rs)"
  by (auto simp: ra_start_def ra_inv_def ra_link_def at_pointer_def consumed_def)

lemma ra_inv_link:
  assumes "ra_inv n J p0 (a, s, rs)" "rasi_fsmState a"
  obtains ptr r where "ra_link n J ptr [r] True (rasi_readLength a) s" "arr_length r = rasi_readLength a"
proof -
  from assms obtain dn pend where "ra_link n J (\<lambda>k. p0 k + consumed k dn) pend True (rasi_readLength a) s"
    by (auto simp: ra_inv_def)
  moreover from this obtain r where "pend = [r]" "arr_length r = rasi_readLength a"
    by (auto simp: ra_link_def)
  ultimately show ?thesis using that by blast
qed

text \<open>C23: reading received data.  Whatever the engines and the application do in between, the read
  requests with a length are answered once each and in order, and the read pointer of every session
  in \<open>J\<close>, the sessions that are not opened anew by a SYN during the run, is where it was plus the
  lengths of its answered requests (or the write that puts it there is under way); a SYN for any
  other session sets the pointer of that session only.  A request being served is answered within
  three cycles and one more for every request the transmit engine has in its queue (they come
  first), if no further ones arrive; and no access leaves the table.\<close>

theorem rx_read_pointer:
  assumes start: "ra_start n J (a0, s0, rs0)"
    and r: "reach (ra_env n J) ra_cyc (a0, s0, rs0) (a, s, rs)"
  shows "(\<exists>dn pend. real_reads rs = dn @ pend @ real_reads (appRxDataReq a) \<and>
      length pend = (if rasi_fsmState a then 1 else 0) \<and>
      appRxDataRspMetadata a = map arr_sessionID dn \<and>
      (\<forall>k<n. k \<in> J \<longrightarrow> (let p = rse_appd (rx_table s0 ! k) + consumed k dn in
         rse_appd (rx_table s ! k) = p \<or> rxSarAppd_write (of_nat k) p \<in> set (rxApp2rxSar_upd_req s))) \<and>
      (\<forall>q u. pend = [q] \<longrightarrow>
         ra_answered u (3 + length (txEng2rxSar_req s)) (arr_sessionID q) (a, s, rs))) \<and>
    (\<forall>u. \<exists>y. ra_cyc u (a, s, rs) = Some y)"
proof (intro conjI allI)
  let ?p0 = "\<lambda>k. rse_appd (rx_table s0 ! k)"
  from ras.reach_inv [OF r ra_inv_start [OF start]] have inv: "ra_inv n J ?p0 (a, s, rs)" .
  show "\<exists>y. ra_cyc u (a, s, rs) = Some y" for u using ras.cyc_safe [OF inv] .
  from inv obtain dn pend where i: "real_reads rs = dn @ pend @ real_reads (appRxDataReq a)"
    "appRxDataRspMetadata a = map arr_sessionID dn"
    "ra_link n J (\<lambda>k. ?p0 k + consumed k dn) pend (rasi_fsmState a) (rasi_readLength a) s"
    by (auto simp: ra_inv_def)
  have "length pend = (if rasi_fsmState a then 1 else 0)" using i(3) by (auto simp: ra_link_def)
  moreover have "\<forall>k<n. k \<in> J \<longrightarrow> (let p = ?p0 k + consumed k dn in
      rse_appd (rx_table s ! k) = p \<or> rxSarAppd_write (of_nat k) p \<in> set (rxApp2rxSar_upd_req s))"
    using i(3) by (auto simp: ra_link_def at_pointer_def Let_def)
  moreover have "ra_answered u (3 + length (txEng2rxSar_req s)) (arr_sessionID q) (a, s, rs)"
    if "pend = [q]" for q u
  proof -
    from that have f: "rasi_fsmState a" using i(3) by (auto simp: ra_link_def split: if_splits)
    with that show ?thesis using i(3) by (intro ra_serve_queued [OF inv f]) auto
  qed
  ultimately show "\<exists>dn pend. real_reads rs = dn @ pend @ real_reads (appRxDataReq a) \<and>
      length pend = (if rasi_fsmState a then 1 else 0) \<and>
      appRxDataRspMetadata a = map arr_sessionID dn \<and>
      (\<forall>k<n. k \<in> J \<longrightarrow> (let p = ?p0 k + consumed k dn in
         rse_appd (rx_table s ! k) = p \<or> rxSarAppd_write (of_nat k) p \<in> set (rxApp2rxSar_upd_req s))) \<and>
      (\<forall>q u. pend = [q] \<longrightarrow>
         ra_answered u (3 + length (txEng2rxSar_req s)) (arr_sessionID q) (a, s, rs))"
    using i(1,2) by blast
qed

definition ra_ex_if :: "(u16, u2) net_axis rxapp_st" where
  "ra_ex_if = \<lparr>rasi_fsmState = False, rasi_readLength = 0, appRxDataReq = [], ra_upd_rsp = [],
     appRxDataRspMetadata = [], ra_upd_req = [], rxBufferReadCmd = [], ramdr_fsmState = False,
     rxBufferReadData = [], rxDataRsp = [], rai_wait = False, appListenPortReq = [],
     ra_listen_rsp = [], appListenPortRsp = [], ra_listen_req = [],
     rxEng2rxApp_notification = [], timer2rxApp_notification = [], appNotificationOut = []\<rparr>"

definition ra_ex_req :: appReadRequest where
  "ra_ex_req = \<lparr>arr_sessionID = 0, arr_length = 5\<rparr>"

definition ra_ex_sar :: rx_sar_st where
  "ra_ex_sar = rx_ex\<lparr>txEng2rxSar_req := []\<rparr>"

definition ra_ex_served :: "(u16, u2) ra_sys" where
  "ra_ex_served = (ra_ex_if\<lparr>rasi_fsmState := True, rasi_readLength := 5,
     ra_upd_req := [rxSarAppd_read 0]\<rparr>, ra_ex_sar\<lparr>rxSar2rxApp_upd_rsp := [rxSarAppd_write 0 0]\<rparr>,
     [ra_ex_req])"

lemma ra_ex_reach: "reach (ra_env 1 UNIV) ra_cyc (ra_ex_if, ra_ex_sar, []) ra_ex_served"
proof -
  have e: "ra_env 1 UNIV (ra_ex_if, ra_ex_sar, []) (ra_ex_if\<lparr>appRxDataReq := [ra_ex_req]\<rparr>, ra_ex_sar, [ra_ex_req])"
    by (simp add: ra_env_def rx_sar_env_def ra_ex_req_def ra_ex_if_def)
  have c: "ra_cyc u (ra_ex_if\<lparr>appRxDataReq := [ra_ex_req]\<rparr>, ra_ex_sar, [ra_ex_req]) = Some ra_ex_served" for u
    by (simp add: ra_cyc_def rxAppWrapper_def ra_merge_def stream_merger_def rx_app_if_def
        rxAppMemDataRead_def rx_app_stream_if_def ra_connect_def ra_return_def rx_sar_table_def
        ra_ex_if_def ra_ex_sar_def rx_ex_def rx_ex_entry_def ra_ex_req_def ra_ex_served_def
        rxSarAppd_read_def rxSarAppd_write_def)
  from reach_init e have "reach (ra_env 1 UNIV) ra_cyc (ra_ex_if, ra_ex_sar, [])
      (ra_ex_if\<lparr>appRxDataReq := [ra_ex_req]\<rparr>, ra_ex_sar, [ra_ex_req])" by (rule reach_env)
  from this c show ?thesis by (rule reach_cyc)
qed

theorem rx_read_pointer_witness: "\<forall>u. ra_answered u 3 0 ra_ex_served"
proof
  fix u
  have "ra_start 1 UNIV (ra_ex_if, ra_ex_sar, [])"
    by (simp add: ra_start_def ra_ex_if_def ra_ex_sar_def rx_ex_def rx_sar_inv_def)
  from rx_read_pointer [OF this ra_ex_reach [unfolded ra_ex_served_def]]
  show "ra_answered u 3 0 ra_ex_served"
    by (auto simp: ra_ex_served_def ra_ex_if_def ra_ex_sar_def rx_ex_def ra_ex_req_def
        length_Suc_conv append_eq_Cons_conv)
qed

end
