(* ===== verification/Multi_Queue.thy ===== *)
theory Multi_Queue
  imports Prelude
begin

text \<open>
  \<open>ib_transport_protocol/multi_queue/multi_queue.hpp\<close>: many FIFO queues in one memory.  Four
  processes share the work: a table of the queues' ends, a table of linked elements, a supply of
  free element indices, and the process that turns a push or pop into requests to the tables.

  They run concurrently, so a step of the model is a call of any one of them, in any order.  The
  specification is a map from keys to lists and the sequence of completed operations.
\<close>

section \<open>Data\<close>

datatype mqPopOperation = POP | FRONT

record 'v mqInsertReq =
  mi_key :: u16
  mi_value :: 'v

record mqPopReq =
  mp_op :: mqPopOperation
  mp_key :: u16

record mqPointerEntry =
  mpe_head :: u16
  mpe_tail :: u16
  mpe_valid :: bool

record 'v mqMetaEntry =
  mme_value :: 'v
  mme_next :: u16
  mme_valid :: bool
  mme_isTail :: bool

record 'v mqMetaReq =
  mmr_idx :: u16
  mmr_entry :: "'v mqMetaEntry"
  mmr_write :: bool
  mmr_append :: bool

record mqPointerReq =
  mpr_key :: u16
  mpr_lock :: bool

record mqPointerUpdate =
  mpu_key :: u16
  mpu_entry :: mqPointerEntry

text \<open>The constructors; \<open>u\<close> is what the fields that are not initialised hold.\<close>

definition mqMetaEntry_of :: "'v mqInsertReq \<Rightarrow> 'v mqMetaEntry" where
  "mqMetaEntry_of e =
     \<lparr>mme_value = mi_value e, mme_next = 0, mme_valid = True, mme_isTail = True\<rparr>"

definition mqMetaReq_read :: "'v mqMetaEntry \<Rightarrow> u16 \<Rightarrow> 'v mqMetaReq" where
  "mqMetaReq_read u i = \<lparr>mmr_idx = i, mmr_entry = u, mmr_write = False, mmr_append = False\<rparr>"

definition mqMetaReq_append :: "'v mqMetaEntry \<Rightarrow> u16 \<Rightarrow> u16 \<Rightarrow> 'v mqMetaReq" where
  "mqMetaReq_append u i nxt =
     \<lparr>mmr_idx = i, mmr_entry = u\<lparr>mme_next := nxt\<rparr>, mmr_write = False, mmr_append = True\<rparr>"

definition mqMetaReq_write :: "u16 \<Rightarrow> 'v mqMetaEntry \<Rightarrow> 'v mqMetaReq" where
  "mqMetaReq_write i e = \<lparr>mmr_idx = i, mmr_entry = e, mmr_write = True, mmr_append = False\<rparr>"

datatype retransStateType = STATE_MAIN | STATE_PUSH | STATE_PUSH_2 | STATE_POP | STATE_POP_2

record 'v mq_st =
  ptr_table :: "mqPointerEntry list"
  mq_lockedKey :: u16
  mq_isLocked :: bool
  mq_wait :: bool
  mq_request :: mqPointerReq
  meta_table :: "'v mqMetaEntry list"
  freeListCounter :: u16
  rt_state :: retransStateType
  newMetaIdx :: u16
  insert_req :: "'v mqInsertReq"
  popRequest :: mqPopReq
  ptrMeta :: mqPointerEntry
  pointerReqFifo :: "mqPointerReq fifo"
  pointerUpdFifo :: "mqPointerUpdate fifo"
  pointerRspFifo :: "mqPointerEntry fifo"
  metaReqFifo :: "'v mqMetaReq fifo"
  metaRspFifo :: "'v mqMetaEntry fifo"
  freeListFifo :: "u16 fifo"
  releaseFifo :: "u16 fifo"
  multiQueue_push :: "'v mqInsertReq fifo"
  multiQueue_pop_req :: "mqPopReq fifo"
  multiQueue_pop_rsp :: "'v fifo"

section \<open>The four processes\<close>

definition mq_pointer_table :: "'v mq_st \<Rightarrow> 'v mq_st option" where
  "mq_pointer_table s =
     (if pointerUpdFifo s \<noteq> [] then do {
        let u = hd (pointerUpdFifo s);
        t \<leftarrow> tset (ptr_table s) (mpu_key u) (mpu_entry u);
        Some (s\<lparr>ptr_table := t,
                mq_isLocked := (if mq_lockedKey s = mpu_key u then False else mq_isLocked s),
                pointerUpdFifo := tl (pointerUpdFifo s)\<rparr>)
      }
      else if pointerReqFifo s \<noteq> [] \<and> \<not> mq_wait s then do {
        let r = hd (pointerReqFifo s);
        let s = s\<lparr>mq_request := r, pointerReqFifo := tl (pointerReqFifo s)\<rparr>;
        if mpr_lock r \<and> mq_isLocked s then Some (s\<lparr>mq_wait := True\<rparr>)
        else do {
          e \<leftarrow> tget (ptr_table s) (mpr_key r);
          let s = s\<lparr>pointerRspFifo := pointerRspFifo s @ [e]\<rparr>;
          Some (if mpr_lock r then s\<lparr>mq_lockedKey := mpr_key r, mq_isLocked := True\<rparr> else s)
        }
      }
      else if mq_wait s \<and> \<not> mq_isLocked s then do {
        e \<leftarrow> tget (ptr_table s) (mpr_key (mq_request s));
        Some (s\<lparr>mq_lockedKey := mpr_key (mq_request s), mq_isLocked := True, mq_wait := False,
                pointerRspFifo := pointerRspFifo s @ [e]\<rparr>)
      }
      else Some s)"

text \<open>\<open>N\<close> is \<open>MULTI_QUEUE_SIZE\<close>, \<open>full\<close> is \<open>rt_freeListFifo.full()\<close>.\<close>

definition mq_freelist_handler :: "nat \<Rightarrow> bool \<Rightarrow> 'v mq_st \<Rightarrow> 'v mq_st" where
  "mq_freelist_handler N full s =
     (case releaseFifo s of
        i # rest \<Rightarrow> s\<lparr>freeListFifo := freeListFifo s @ [i], releaseFifo := rest\<rparr>
      | [] \<Rightarrow> if unat (freeListCounter s) < N \<and> \<not> full
              then s\<lparr>freeListCounter := freeListCounter s + 1,
                     freeListFifo := freeListFifo s @ [freeListCounter s]\<rparr>
              else s)"

definition mq_meta_table :: "'v mq_st \<Rightarrow> 'v mq_st option" where
  "mq_meta_table s =
     (case metaReqFifo s of
        req # rest \<Rightarrow> do {
          let s = s\<lparr>metaReqFifo := rest\<rparr>;
          e \<leftarrow> tget (meta_table s) (mmr_idx req);
          if mmr_write req then do {
            t \<leftarrow> tset (meta_table s) (mmr_idx req) (mmr_entry req);
            Some (s\<lparr>meta_table := t\<rparr>)
          }
          else if mmr_append req then do {
            t \<leftarrow> tset (meta_table s) (mmr_idx req)
              (e\<lparr>mme_next := mme_next (mmr_entry req), mme_isTail := False\<rparr>);
            Some (s\<lparr>meta_table := t\<rparr>)
          }
          else Some (s\<lparr>metaRspFifo := metaRspFifo s @ [e]\<rparr>)
        }
      | [] \<Rightarrow> Some s)"

definition mq_main :: "'v mq_st \<Rightarrow> 'v mq_st" where
  "mq_main s =
     (if multiQueue_push s \<noteq> [] \<and> freeListFifo s \<noteq> []
      then let ins = hd (multiQueue_push s)
           in s\<lparr>rt_state := STATE_PUSH, newMetaIdx := hd (freeListFifo s), insert_req := ins,
                pointerReqFifo := pointerReqFifo s @ [\<lparr>mpr_key = mi_key ins, mpr_lock = True\<rparr>],
                freeListFifo := tl (freeListFifo s), multiQueue_push := tl (multiQueue_push s)\<rparr>
      else if multiQueue_pop_req s \<noteq> []
      then let p = hd (multiQueue_pop_req s)
           in s\<lparr>rt_state := STATE_POP, popRequest := p,
                pointerReqFifo := pointerReqFifo s @ [\<lparr>mpr_key = mp_key p, mpr_lock = False\<rparr>],
                multiQueue_pop_req := tl (multiQueue_pop_req s)\<rparr>
      else s)"

definition mq_push :: "'v mqMetaEntry \<Rightarrow> 'v mq_st \<Rightarrow> 'v mq_st" where
  "mq_push u s =
     (case pointerRspFifo s of
        e # rest \<Rightarrow>
          if \<not> mpe_valid e
          then let e = \<lparr>mpe_head = newMetaIdx s, mpe_tail = newMetaIdx s, mpe_valid = True\<rparr>
               in s\<lparr>rt_state := STATE_MAIN, ptrMeta := e,
                    pointerUpdFifo := pointerUpdFifo s @
                      [\<lparr>mpu_key = mi_key (insert_req s), mpu_entry = e\<rparr>],
                    pointerRspFifo := rest,
                    metaReqFifo := metaReqFifo s @
                      [mqMetaReq_write (newMetaIdx s) (mqMetaEntry_of (insert_req s))]\<rparr>
          else s\<lparr>rt_state := STATE_PUSH_2, ptrMeta := e\<lparr>mpe_tail := newMetaIdx s\<rparr>,
                 pointerRspFifo := rest,
                 metaReqFifo := metaReqFifo s @ [mqMetaReq_append u (mpe_tail e) (newMetaIdx s)]\<rparr>
      | [] \<Rightarrow> s)"

definition mq_pop :: "'v mqMetaEntry \<Rightarrow> 'v mq_st \<Rightarrow> 'v mq_st" where
  "mq_pop u s =
     (case pointerRspFifo s of
        e # rest \<Rightarrow>
          if mpe_valid e
          then s\<lparr>rt_state := STATE_POP_2, ptrMeta := e, pointerRspFifo := rest,
                 metaReqFifo := metaReqFifo s @ [mqMetaReq_read u (mpe_head e)]\<rparr>
          else s\<lparr>rt_state := STATE_MAIN, ptrMeta := e, pointerRspFifo := rest\<rparr>
      | [] \<Rightarrow> s)"

definition mq_pop_2 :: "'v mq_st \<Rightarrow> 'v mq_st" where
  "mq_pop_2 s =
     (case metaRspFifo s of
        m # rest \<Rightarrow>
          let s = s\<lparr>rt_state := STATE_MAIN, metaRspFifo := rest\<rparr>
          in if mme_valid m
             then let s = s\<lparr>multiQueue_pop_rsp := multiQueue_pop_rsp s @ [mme_value m]\<rparr>
                  in if mp_op (popRequest s) = POP
                     then let e = (ptrMeta s)\<lparr>mpe_valid := \<not> mme_isTail m, mpe_head := mme_next m\<rparr>
                          in s\<lparr>ptrMeta := e,
                               pointerUpdFifo := pointerUpdFifo s @
                                 [\<lparr>mpu_key = mp_key (popRequest s), mpu_entry = e\<rparr>],
                               releaseFifo := releaseFifo s @ [mpe_head (ptrMeta s)]\<rparr>
                     else s
             else s
      | [] \<Rightarrow> s)"

definition mq_process_requests :: "'v mqMetaEntry \<Rightarrow> 'v mq_st \<Rightarrow> 'v mq_st" where
  "mq_process_requests u s =
     (case rt_state s of
        STATE_MAIN \<Rightarrow> mq_main s
      | STATE_PUSH \<Rightarrow> mq_push u s
      | STATE_PUSH_2 \<Rightarrow>
          s\<lparr>rt_state := STATE_MAIN,
            pointerUpdFifo := pointerUpdFifo s @
              [\<lparr>mpu_key = mi_key (insert_req s), mpu_entry = ptrMeta s\<rparr>],
            metaReqFifo := metaReqFifo s @
              [mqMetaReq_write (newMetaIdx s) (mqMetaEntry_of (insert_req s))]\<rparr>
      | STATE_POP \<Rightarrow> mq_pop u s
      | STATE_POP_2 \<Rightarrow> mq_pop_2 s)"

text \<open>A cycle of the whole in C simulation: the four processes in the order of the code.\<close>

definition multi_queue :: "nat \<Rightarrow> bool \<times> 'v mqMetaEntry \<Rightarrow> 'v mq_st \<Rightarrow> 'v mq_st option" where
  "multi_queue N i s = do {
     s \<leftarrow> mq_pointer_table (mq_freelist_handler N (fst i) s);
     s \<leftarrow> mq_meta_table s;
     Some (mq_process_requests (snd i) s)
   }"

section \<open>Specification: a map of lists\<close>

datatype 'v mq_op = Push u16 'v | Take mqPopOperation u16

fun mq_apply :: "'v mq_op \<Rightarrow> (nat \<Rightarrow> 'v list) \<times> 'v list \<Rightarrow> (nat \<Rightarrow> 'v list) \<times> 'v list" where
  "mq_apply (Push k v) (q, out) = (q(unat k := q (unat k) @ [v]), out)"
| "mq_apply (Take p k) (q, out) =
     (if q (unat k) = [] then (q, out)
      else (if p = POP then q(unat k := tl (q (unat k))) else q, out @ [hd (q (unat k))]))"

definition mq_spec :: "'v mq_op list \<Rightarrow> (nat \<Rightarrow> 'v list) \<times> 'v list" where
  "mq_spec ops = fold mq_apply ops (\<lambda>_. [], [])"

definition pushes_of :: "'v mq_op list \<Rightarrow> 'v mqInsertReq list" where
  "pushes_of ops = concat (map (\<lambda>p. case p of Push k v \<Rightarrow> [\<lparr>mi_key = k, mi_value = v\<rparr>] | _ \<Rightarrow> []) ops)"

definition takes_of :: "'v mq_op list \<Rightarrow> mqPopReq list" where
  "takes_of ops = concat (map (\<lambda>p. case p of Take q k \<Rightarrow> [\<lparr>mp_op = q, mp_key = k\<rparr>] | _ \<Rightarrow> []) ops)"

lemma mq_spec_snoc: "mq_spec (ops @ [p]) = mq_apply p (mq_spec ops)"
  by (simp add: mq_spec_def)

lemma pushes_of_simps [simp]:
  "pushes_of [] = []" "pushes_of (ops @ ops') = pushes_of ops @ pushes_of ops'"
  "pushes_of [Push k v] = [\<lparr>mi_key = k, mi_value = v\<rparr>]" "pushes_of [Take q k] = []"
  by (simp_all add: pushes_of_def)

lemma takes_of_simps [simp]:
  "takes_of [] = []" "takes_of (ops @ ops') = takes_of ops @ takes_of ops'"
  "takes_of [Push k v] = []" "takes_of [Take q k] = [\<lparr>mp_op = q, mp_key = k\<rparr>]"
  by (simp_all add: takes_of_def)

section \<open>Linked lists in the element table\<close>

text \<open>\<open>chain m is vs\<close>: from the element \<open>hd is\<close> the links visit \<open>is\<close>, which hold the values \<open>vs\<close>,
  and the last one is marked as the tail.\<close>

fun chain :: "'v mqMetaEntry list \<Rightarrow> u16 list \<Rightarrow> 'v list \<Rightarrow> bool" where
  "chain m [] vs \<longleftrightarrow> vs = []"
| "chain m (i # is) vs \<longleftrightarrow> (let e = m ! unat i in
     vs \<noteq> [] \<and> mme_value e = hd vs \<and> mme_valid e \<and> mme_isTail e = (is = []) \<and>
     (is \<noteq> [] \<longrightarrow> mme_next e = hd is) \<and> chain m is (tl vs))"

lemma chain_frame: "i \<notin> set is \<Longrightarrow> chain (m[unat i := e]) is vs = chain m is vs"
  by (induction "is" arbitrary: vs) (auto simp: Let_def nth_list_update)

lemma chain_Nil_iff: "chain m is vs \<Longrightarrow> vs = [] \<longleftrightarrow> is = []"
  by (cases "is") (auto simp: Let_def)

lemma chain_snoc:
  assumes "chain m is vs" "is \<noteq> []" "distinct is" "j \<notin> set is" "\<forall>i\<in>set is. unat i < length m"
    and "unat j < length m" and "mme_value e = v" "mme_valid e" "mme_isTail e"
  defines "t \<equiv> List.last is"
  shows "chain (m[unat t := (m ! unat t)\<lparr>mme_next := j, mme_isTail := False\<rparr>, unat j := e]) (is @ [j]) (vs @ [v])"
  using assms(1-5) unfolding t_def
proof (induction "is" arbitrary: vs)
  case (Cons i "is")
  show ?case
  proof (cases "is = []")
    case True
    then show ?thesis using Cons.prems assms(6-) by (auto simp: Let_def nth_list_update hd_append)
  next
    case False
    then have "chain (m[unat (List.last is) := (m ! unat (List.last is))\<lparr>mme_next := j, mme_isTail := False\<rparr>,
        unat j := e]) (is @ [j]) (tl vs @ [v])"
      using Cons.prems by (intro Cons.IH) (auto simp: Let_def)
    moreover have "i \<noteq> j" "List.last is \<noteq> i" using Cons.prems False last_in_set [of "is"] by auto
    ultimately show ?thesis using False Cons.prems by (auto simp: Let_def nth_list_update hd_append)
  qed
qed simp

definition rep :: "mqPointerEntry \<Rightarrow> 'v mqMetaEntry list \<Rightarrow> u16 list \<Rightarrow> 'v list \<Rightarrow> bool" where
  "rep e m is vs \<longleftrightarrow> chain m is vs \<and> mpe_valid e = (is \<noteq> []) \<and>
     (is \<noteq> [] \<longrightarrow> mpe_head e = hd is \<and> mpe_tail e = List.last is)"

definition owned :: "(nat \<Rightarrow> u16 list) \<Rightarrow> nat \<Rightarrow> u16 list" where
  "owned idx n = concat (map idx [0..<n])"

text \<open>All the queues, and no element in two places: \<open>rest\<close> are the elements in no queue.\<close>

definition queues ::
  "nat \<Rightarrow> nat \<Rightarrow> mqPointerEntry list \<Rightarrow> 'v mqMetaEntry list \<Rightarrow> (nat \<Rightarrow> u16 list) \<Rightarrow>
   (nat \<Rightarrow> 'v list) \<Rightarrow> u16 list \<Rightarrow> bool" where
  "queues n N P m idx Q rest \<longleftrightarrow> length P = n \<and> length m = N \<and>
     (\<forall>k<n. rep (P ! k) m (idx k) (Q k)) \<and> (\<forall>k\<ge>n. Q k = []) \<and>
     mset (owned idx n @ rest) = mset (map of_nat [0..<N])"

lemma owned_upd: "k < n \<Longrightarrow> mset (owned (idx(k := is)) n) + mset (idx k) = mset (owned idx n) + mset is"
proof -
  assume k: "k < n"
  have o: "mset (owned f n) = mset (f k) + (\<Sum>j\<in>{0..<n} - {k}. mset (f j))" for f
  proof -
    have "mset (owned f n) = (\<Sum>j\<leftarrow>[0..<n]. mset (f j))"
      by (simp add: owned_def mset_concat comp_def)
    also have "\<dots> = (\<Sum>j\<in>{0..<n}. mset (f j))" by (simp add: interv_sum_list_conv_sum_set_nat)
    also have "\<dots> = mset (f k) + (\<Sum>j\<in>{0..<n} - {k}. mset (f j))"
      by (rule sum.remove) (use k in auto)
    finally show ?thesis .
  qed
  have "(\<Sum>j\<in>{0..<n} - {k}. mset ((idx(k := is)) j)) = (\<Sum>j\<in>{0..<n} - {k}. mset (idx j))"
    by (rule sum.cong) auto
  then show ?thesis by (simp add: o)
qed

lemma indices_distinct: "N < 2 ^ 16 \<Longrightarrow> mset xs = mset (map (of_nat :: nat \<Rightarrow> u16) [0..<N]) \<Longrightarrow>
    distinct xs \<and> (\<forall>x\<in>set xs. unat x < N)"
proof -
  assume N: "N < 2 ^ 16" and m: "mset xs = mset (map (of_nat :: nat \<Rightarrow> u16) [0..<N])"
  have u: "unat (of_nat i :: u16) = i" if "i < N" for i
    using that N by (intro unat_of_nat_eq) simp
  have "inj_on (of_nat :: nat \<Rightarrow> u16) (set [0..<N])"
    by (intro inj_onI) (metis u atLeastLessThan_iff set_upt)
  then have "distinct (map (of_nat :: nat \<Rightarrow> u16) [0..<N])" by (simp add: distinct_map)
  with m have "distinct xs" by (metis mset_eq_imp_distinct_iff)
  moreover from m have "set xs = of_nat ` {0..<N}" by (metis mset_eq_setD set_map set_upt)
  ultimately show ?thesis using u by auto
qed

lemma queues_distinct:
  assumes "queues n N P m idx Q rest" "N < 2 ^ 16" "k < n"
  shows "distinct (idx k)" "\<forall>i\<in>set (idx k). unat i < N" "\<forall>i\<in>set rest. unat i < N"
    "set (idx k) \<inter> set rest = {}" "\<And>k'. k' < n \<Longrightarrow> k' \<noteq> k \<Longrightarrow> set (idx k') \<inter> set (idx k) = {}"
proof -
  have d: "distinct (owned idx n @ rest)" "\<forall>i\<in>set (owned idx n @ rest). unat i < N"
    using indices_distinct [OF assms(2), of "owned idx n @ rest"] assms(1)
    unfolding queues_def by blast+
  have sub: "set (idx j) \<subseteq> set (owned idx n)" if "j < n" for j using that by (auto simp: owned_def)
  show "\<forall>i\<in>set (idx k). unat i < N" "\<forall>i\<in>set rest. unat i < N"
    using d(2) sub [OF assms(3)] by auto
  show "set (idx k) \<inter> set rest = {}" using d(1) sub [OF assms(3)] by auto
  have "distinct (concat (map idx [0..<n]))" using d(1) by (simp add: owned_def)
  moreover have "idx k \<in> set (map idx [0..<n])" using assms(3) by simp
  ultimately show "distinct (idx k)" by (auto simp: distinct_concat_iff)
  fix k' assume k': "k' < n" "k' \<noteq> k"
  have "mset (owned idx n) = mset (owned (idx(k := [])) n) + mset (idx k)"
    using owned_upd [OF assms(3), of idx "[]"] by simp
  moreover have "mset (owned (idx(k := [])) n) = mset (owned (idx(k := [], k' := [])) n) + mset (idx k')"
    using owned_upd [OF k'(1), of "idx(k := [])" "[]"] k'(2) by simp
  ultimately have "mset (owned idx n) = mset (owned (idx(k := [], k' := [])) n @ idx k' @ idx k)" by simp
  with d(1) have "distinct (owned (idx(k := [], k' := [])) n @ idx k' @ idx k)"
    by (metis distinct_append mset_eq_imp_distinct_iff)
  then show "set (idx k') \<inter> set (idx k) = {}" by auto
qed

lemma rep_frame:
  assumes "\<And>i. i \<in> set is \<Longrightarrow> m' ! unat i = m ! unat i"
  shows "rep e m' is vs = rep e m is vs"
proof -
  have "chain m' is vs = chain m is vs"
    using assms by (induction "is" arbitrary: vs) (auto simp: Let_def)
  then show ?thesis by (simp add: rep_def)
qed

lemma rep_Nil_iff: "rep e m is vs \<Longrightarrow> vs = [] \<longleftrightarrow> \<not> mpe_valid e"
  using chain_Nil_iff by (auto simp: rep_def)

text \<open>The three operations on the tables; \<open>j\<close> is a free element.\<close>

definition append_at :: "u16 \<Rightarrow> u16 \<Rightarrow> 'v mqMetaEntry list \<Rightarrow> 'v mqMetaEntry list" where
  "append_at t j m = m[unat t := (m ! unat t)\<lparr>mme_next := j, mme_isTail := False\<rparr>]"

lemma queues_push:
  fixes P :: "mqPointerEntry list"
  assumes q: "queues n N P m idx Q (rest @ [j] @ rest')" "N < 2 ^ 16" and k: "k < n"
    and e: "mme_value e = v" "mme_valid e" "mme_isTail e"
  defines "p \<equiv> P ! k"
  defines "m' \<equiv> (if mpe_valid p then append_at (mpe_tail p) j m else m)[unat j := e]"
  defines "p' \<equiv> (if mpe_valid p then p\<lparr>mpe_tail := j\<rparr> else \<lparr>mpe_head = j, mpe_tail = j, mpe_valid = True\<rparr>)"
  shows "queues n N (P[k := p']) m' (idx(k := idx k @ [j])) (Q(k := Q k @ [v])) (rest @ rest')"
proof -
  note d = queues_distinct [OF q k]
  have len: "length m = N" "length P = n" using q(1) by (simp_all add: queues_def)
  have r: "rep p m (idx k) (Q k)" using q(1) k by (simp add: queues_def p_def)
  have j: "j \<notin> set (idx k)" "unat j < N" using d(3,4) by auto
  have tail: "mpe_valid p \<Longrightarrow> mpe_tail p = List.last (idx k) \<and> idx k \<noteq> []"
    using r by (auto simp: rep_def)
  have "rep p' m' (idx k @ [j]) (Q k @ [v])"
  proof (cases "mpe_valid p")
    case True
    then have "chain m' (idx k @ [j]) (Q k @ [v])"
      unfolding m'_def append_at_def using tail [OF True] r d(1,2) j len e
      by (simp add: chain_snoc rep_def)
    then show ?thesis using True r tail by (simp add: rep_def p'_def)
  next
    case False
    then have "idx k = []" "Q k = []" using r chain_Nil_iff by (auto simp: rep_def)
    then show ?thesis using False j(2) len e by (simp add: rep_def m'_def p'_def)
  qed
  moreover have "rep (P ! k') m' (idx k') (Q k')" if k': "k' < n" "k' \<noteq> k" for k'
  proof -
    have "m' ! unat i = m ! unat i" if i: "i \<in> set (idx k')" for i
    proof -
      have "i \<noteq> j" using queues_distinct(4) [OF q k'(1)] i by auto
      moreover have "mpe_valid p \<Longrightarrow> i \<noteq> mpe_tail p"
        using d(5) [OF k'] i tail last_in_set [of "idx k"] by auto
      ultimately show ?thesis by (cases "mpe_valid p") (auto simp: m'_def append_at_def)
    qed
    then have "rep (P ! k') m' (idx k') (Q k') = rep (P ! k') m (idx k') (Q k')" by (rule rep_frame)
    then show ?thesis using q(1) k' by (simp add: queues_def)
  qed
  moreover have "mset (owned (idx(k := idx k @ [j])) n @ rest @ rest') = mset (owned idx n @ rest @ [j] @ rest')"
    using owned_upd [OF k, of idx "idx k @ [j]"] by simp
  moreover have "length m' = N" by (simp add: m'_def append_at_def len)
  ultimately show ?thesis using q(1) k len
    unfolding queues_def by (auto simp: nth_list_update)
qed

lemma queues_pop:
  fixes P :: "mqPointerEntry list"
  assumes q: "queues n N P m idx Q rest" and k: "k < n" and v: "mpe_valid (P ! k)"
  defines "h \<equiv> mpe_head (P ! k)"
  defines "e \<equiv> m ! unat h"
  shows "mme_valid e" "mme_value e = hd (Q k)" "Q k \<noteq> []"
    "queues n N (P[k := (P ! k)\<lparr>mpe_valid := \<not> mme_isTail e, mpe_head := mme_next e\<rparr>]) m
       (idx(k := tl (idx k))) (Q(k := tl (Q k))) (rest @ [h])"
proof -
  have r: "rep (P ! k) m (idx k) (Q k)" using q k by (simp add: queues_def)
  with v obtain i "is" where i: "idx k = i # is" by (auto simp: rep_def neq_Nil_conv)
  with r have h: "h = i" by (simp add: rep_def h_def)
  have c: "chain m (i # is) (Q k)" using r i by (simp add: rep_def)
  then show "mme_valid e" "mme_value e = hd (Q k)" "Q k \<noteq> []"
    by (simp_all add: e_def h Let_def)
  have t: "mme_isTail e = (is = [])" "is \<noteq> [] \<Longrightarrow> mme_next e = hd is" "chain m is (tl (Q k))"
    using c by (simp_all add: e_def h Let_def)
  have "rep ((P ! k)\<lparr>mpe_valid := \<not> mme_isTail e, mpe_head := mme_next e\<rparr>) m is (tl (Q k))"
    using t r i by (auto simp: rep_def)
  moreover have "mset (owned (idx(k := is)) n @ rest @ [h]) = mset (map of_nat [0..<N])"
  proof -
    have "mset (owned (idx(k := is)) n @ rest @ [h]) = mset (owned idx n @ rest)"
      using owned_upd [OF k, of idx "is"] by (simp add: i h)
    with q show ?thesis unfolding queues_def by metis
  qed
  moreover have "length P = n" using q by (simp add: queues_def)
  ultimately show "queues n N (P[k := (P ! k)\<lparr>mpe_valid := \<not> mme_isTail e, mpe_head := mme_next e\<rparr>]) m
       (idx(k := tl (idx k))) (Q(k := tl (Q k))) (rest @ [h])"
    using q k i unfolding queues_def by (auto simp: nth_list_update)
qed

section \<open>The system\<close>

text \<open>
  A state: the module, and all pushes and pops it was ever given.  The environment adds to the
  two input streams; the answers are left where they are.
\<close>

type_synonym 'v mq_sys = "'v mq_st \<times> 'v mqInsertReq list \<times> mqPopReq list"

datatype 'v mq_call = Freelist bool | Pointers | Elements | Requests "'v mqMetaEntry"

definition mq_call :: "nat \<Rightarrow> 'v mq_call \<Rightarrow> 'v mq_sys \<Rightarrow> 'v mq_sys option" where
  "mq_call N c x = (case x of (s, ins, pops) \<Rightarrow> map_option (\<lambda>t. (t, ins, pops))
     (case c of Freelist full \<Rightarrow> Some (mq_freelist_handler N full s)
      | Pointers \<Rightarrow> mq_pointer_table s
      | Elements \<Rightarrow> mq_meta_table s
      | Requests u \<Rightarrow> Some (mq_process_requests u s)))"

definition mq_env :: "nat \<Rightarrow> 'v mq_sys \<Rightarrow> 'v mq_sys \<Rightarrow> bool" where
  "mq_env n x y \<longleftrightarrow> (case (x, y) of ((s, ins, pops), (t, ins', pops')) \<Rightarrow>
     \<exists>a b. t = s\<lparr>multiQueue_push := multiQueue_push s @ a,
                 multiQueue_pop_req := multiQueue_pop_req s @ b\<rparr> \<and>
       ins' = ins @ a \<and> pops' = pops @ b \<and>
       (\<forall>r\<in>set a. unat (mi_key r) < n) \<and> (\<forall>r\<in>set b. unat (mp_key r) < n))"

section \<open>Invariant\<close>

text \<open>The tables with the updates that are still in the streams.\<close>

definition ptr_apply :: "mqPointerUpdate \<Rightarrow> mqPointerEntry list \<Rightarrow> mqPointerEntry list" where
  "ptr_apply u t = t[unat (mpu_key u) := mpu_entry u]"

definition meta_apply :: "'v mqMetaReq \<Rightarrow> 'v mqMetaEntry list \<Rightarrow> 'v mqMetaEntry list" where
  "meta_apply r m =
     (if mmr_write r then m[unat (mmr_idx r) := mmr_entry r]
      else if mmr_append r then append_at (mmr_idx r) (mme_next (mmr_entry r)) m else m)"

definition vptr :: "'v mq_st \<Rightarrow> mqPointerEntry list" where
  "vptr s = fold ptr_apply (pointerUpdFifo s) (ptr_table s)"

definition vmeta :: "'v mq_st \<Rightarrow> 'v mqMetaEntry list" where
  "vmeta s = fold meta_apply (metaReqFifo s) (meta_table s)"

text \<open>What is in the streams to and from the two tables.\<close>

definition lock_ok :: "'v mq_st \<Rightarrow> bool" where
  "lock_ok s \<longleftrightarrow> length (pointerUpdFifo s) \<le> 1 \<and>
     (mq_isLocked s \<longrightarrow> (\<exists>u. pointerUpdFifo s = [u] \<and> mpu_key u = mq_lockedKey s))"

definition ptr_quiet :: "'v mq_st \<Rightarrow> bool" where
  "ptr_quiet s \<longleftrightarrow> pointerReqFifo s = [] \<and> pointerRspFifo s = []"

definition ptr_asked :: "u16 \<Rightarrow> bool \<Rightarrow> 'v mq_st \<Rightarrow> bool" where
  "ptr_asked k l s \<longleftrightarrow>
     (if pointerRspFifo s = [] then pointerReqFifo s = [\<lparr>mpr_key = k, mpr_lock = l\<rparr>] \<and> lock_ok s
      else pointerReqFifo s = [] \<and> pointerUpdFifo s = [] \<and>
        pointerRspFifo s = [ptr_table s ! unat k] \<and> (mq_isLocked s \<longrightarrow> l \<and> mq_lockedKey s = k))"

definition is_update :: "'v mqMetaReq \<Rightarrow> bool" where
  "is_update r \<longleftrightarrow> mmr_write r \<or> mmr_append r"

definition elem_quiet :: "'v mq_st \<Rightarrow> bool" where
  "elem_quiet s \<longleftrightarrow> metaRspFifo s = [] \<and> list_all is_update (metaReqFifo s)"

definition elem_asked :: "u16 \<Rightarrow> 'v mq_st \<Rightarrow> bool" where
  "elem_asked i s \<longleftrightarrow>
     (if metaRspFifo s = []
      then \<exists>ws r. metaReqFifo s = ws @ [r] \<and> list_all is_update ws \<and> \<not> is_update r \<and> mmr_idx r = i
      else metaReqFifo s = [] \<and> metaRspFifo s = [meta_table s ! unat i])"

definition mq_proto :: "nat \<Rightarrow> nat \<Rightarrow> 'v mq_st \<Rightarrow> bool" where
  "mq_proto n N s \<longleftrightarrow> \<not> mq_wait s \<and> length (ptr_table s) = n \<and> length (meta_table s) = N \<and>
     unat (freeListCounter s) \<le> N \<and>
     (\<forall>u\<in>set (pointerUpdFifo s). unat (mpu_key u) < n) \<and>
     (\<forall>r\<in>set (metaReqFifo s). unat (mmr_idx r) < N) \<and>
     (\<forall>r\<in>set (multiQueue_push s). unat (mi_key r) < n) \<and>
     (\<forall>r\<in>set (multiQueue_pop_req s). unat (mp_key r) < n) \<and>
     (case rt_state s of
        STATE_MAIN \<Rightarrow> ptr_quiet s \<and> lock_ok s \<and> elem_quiet s
      | STATE_PUSH \<Rightarrow> unat (mi_key (insert_req s)) < n \<and> ptr_asked (mi_key (insert_req s)) True s \<and> elem_quiet s
      | STATE_PUSH_2 \<Rightarrow> unat (mi_key (insert_req s)) < n \<and> ptr_quiet s \<and> pointerUpdFifo s = [] \<and>
          (mq_isLocked s \<longrightarrow> mq_lockedKey s = mi_key (insert_req s)) \<and> elem_quiet s
      | STATE_POP \<Rightarrow> unat (mp_key (popRequest s)) < n \<and> ptr_asked (mp_key (popRequest s)) False s \<and> elem_quiet s
      | STATE_POP_2 \<Rightarrow> unat (mp_key (popRequest s)) < n \<and> ptr_quiet s \<and> pointerUpdFifo s = [] \<and>
          \<not> mq_isLocked s \<and> elem_asked (mpe_head (ptrMeta s)) s)"

text \<open>
  The data: \<open>P\<close> and \<open>V\<close> are the two tables, \<open>F\<close> the free elements.  In the middle of a push
  to a queue that is not empty the new element is already linked but not yet written.
\<close>

definition pushing :: "'v mq_st \<Rightarrow> bool" where
  "pushing s \<longleftrightarrow> rt_state s = STATE_PUSH \<or> rt_state s = STATE_PUSH_2"

definition popping :: "'v mq_st \<Rightarrow> bool" where
  "popping s \<longleftrightarrow> rt_state s = STATE_POP \<or> rt_state s = STATE_POP_2"

definition mq_heap ::
  "nat \<Rightarrow> nat \<Rightarrow> 'v mq_st \<Rightarrow> mqPointerEntry list \<Rightarrow> 'v mqMetaEntry list \<Rightarrow> u16 list \<Rightarrow>
   (nat \<Rightarrow> u16 list) \<Rightarrow> (nat \<Rightarrow> 'v list) \<Rightarrow> bool" where
  "mq_heap n N s P V F idx Q \<longleftrightarrow>
     (\<exists>m. queues n N P m idx Q ((if pushing s then [newMetaIdx s] else []) @ F) \<and>
        (if rt_state s = STATE_PUSH_2
         then let e = P ! unat (mi_key (insert_req s))
              in mpe_valid e \<and> ptrMeta s = e\<lparr>mpe_tail := newMetaIdx s\<rparr> \<and>
                 V = append_at (mpe_tail e) (newMetaIdx s) m
         else V = m) \<and>
        (rt_state s = STATE_POP_2 \<longrightarrow> mpe_valid (ptrMeta s) \<and>
           ptrMeta s = P ! unat (mp_key (popRequest s))))"

definition mq_hist :: "'v mq_op list \<Rightarrow> 'v mq_sys \<Rightarrow> bool" where
  "mq_hist ops x \<longleftrightarrow> (case x of (s, ins, pops) \<Rightarrow>
     ins = pushes_of ops @ (if pushing s then [insert_req s] else []) @ multiQueue_push s \<and>
     pops = takes_of ops @ (if popping s then [popRequest s] else []) @ multiQueue_pop_req s \<and>
     multiQueue_pop_rsp s = snd (mq_spec ops))"

definition mq_free :: "nat \<Rightarrow> 'v mq_st \<Rightarrow> u16 list" where
  "mq_free N s = releaseFifo s @ freeListFifo s @ map of_nat [unat (freeListCounter s)..<N]"

definition mq_inv :: "nat \<Rightarrow> nat \<Rightarrow> 'v mq_sys \<Rightarrow> bool" where
  "mq_inv n N x \<longleftrightarrow> N < 2 ^ 16 \<and> mq_proto n N (fst x) \<and>
     (\<exists>ops idx. mq_hist ops x \<and>
        mq_heap n N (fst x) (vptr (fst x)) (vmeta (fst x)) (mq_free N (fst x)) idx (fst (mq_spec ops)))"

lemma queues_mset: "mset F = mset F' \<Longrightarrow> queues n N P m idx Q F = queues n N P m idx Q F'"
  by (simp add: queues_def)

lemma mq_heap_mset: "mset F = mset F' \<Longrightarrow> mq_heap n N s P V F idx Q = mq_heap n N s P V F' idx Q"
  by (simp add: mq_heap_def queues_def)

text \<open>The tables and the supply of free elements do not change the data.\<close>

definition same_requests :: "'v mq_st \<Rightarrow> 'v mq_st \<Rightarrow> bool" where
  "same_requests s t \<longleftrightarrow> rt_state t = rt_state s \<and> newMetaIdx t = newMetaIdx s \<and>
     insert_req t = insert_req s \<and> popRequest t = popRequest s \<and> ptrMeta t = ptrMeta s \<and>
     multiQueue_push t = multiQueue_push s \<and> multiQueue_pop_req t = multiQueue_pop_req s \<and>
     multiQueue_pop_rsp t = multiQueue_pop_rsp s"

lemma mq_heap_same: "same_requests s t \<Longrightarrow> mq_heap n N t P V F idx Q = mq_heap n N s P V F idx Q"
  by (simp add: mq_heap_def same_requests_def pushing_def)

lemma mq_inv_same:
  assumes "mq_inv n N (s, ins, pops)" "same_requests s t" "mq_proto n N t"
    and "vptr t = vptr s" "vmeta t = vmeta s" "mset (mq_free N t) = mset (mq_free N s)"
  shows "mq_inv n N (t, ins, pops)"
proof -
  from assms(1) obtain ops idx where i: "N < 2 ^ 16" "mq_hist ops (s, ins, pops)"
    "mq_heap n N s (vptr s) (vmeta s) (mq_free N s) idx (fst (mq_spec ops))"
    by (auto simp: mq_inv_def)
  have "mq_hist ops (t, ins, pops)" using i(2) assms(2)
    by (simp add: mq_hist_def same_requests_def pushing_def popping_def)
  moreover have "mq_heap n N t (vptr t) (vmeta t) (mq_free N s) idx (fst (mq_spec ops))"
    using i(3) assms(4,5) mq_heap_same [OF assms(2)] by metis
  ultimately show ?thesis
    using i(1) assms(3) unfolding mq_inv_def fst_conv mq_heap_mset [OF assms(6)] by blast
qed

lemma mq_freelist_inv:
  assumes inv: "mq_inv n N (s, ins, pops)"
  shows "mq_inv n N (mq_freelist_handler N full s, ins, pops)"
proof (rule mq_inv_same [OF inv])
  let ?t = "mq_freelist_handler N full s" and ?c = "unat (freeListCounter s)"
  have p: "mq_proto n N s" "N < 2 ^ 16" using inv by (simp_all add: mq_inv_def)
  show "same_requests s ?t" "vptr ?t = vptr s" "vmeta ?t = vmeta s"
    by (simp_all add: same_requests_def mq_freelist_handler_def vptr_def vmeta_def split: list.splits)
  have c: "unat (freeListCounter s + 1) = Suc ?c" if "?c < N"
    using that p(2) by (simp add: unat_word_ariths)
  have u: "mset_set {?c..<N} = add_mset ?c (mset_set {Suc ?c..<N})" if "?c < N"
    using arg_cong [OF upt_conv_Cons [OF that], of mset] by simp
  show "mq_proto n N ?t"
    using p c unfolding mq_freelist_handler_def
    by (auto simp: mq_proto_def lock_ok_def ptr_quiet_def ptr_asked_def elem_quiet_def elem_asked_def
        split: list.splits retransStateType.splits)
  show "mset (mq_free N ?t) = mset (mq_free N s)"
    using c u by (auto simp: mq_free_def mq_freelist_handler_def split: list.splits)
qed

lemma mq_pointers_inv:
  assumes inv: "mq_inv n N (s, ins, pops)"
  shows "\<exists>t. mq_pointer_table s = Some t \<and> mq_inv n N (t, ins, pops)"
proof -
  have p: "mq_proto n N s" using inv by (simp add: mq_inv_def)
  then have w: "\<not> mq_wait s" and len: "length (ptr_table s) = n" by (simp_all add: mq_proto_def)
  show ?thesis
  proof (cases "pointerUpdFifo s")
    case (Cons u us)
    have k: "unat (mpu_key u) < n" using p Cons by (simp add: mq_proto_def)
    let ?t = "s\<lparr>ptr_table := ptr_apply u (ptr_table s),
        mq_isLocked := (if mq_lockedKey s = mpu_key u then False else mq_isLocked s), pointerUpdFifo := us\<rparr>"
    have t: "mq_pointer_table s = Some ?t"
      using Cons k len by (simp add: mq_pointer_table_def Let_def ptr_apply_def)
    have "mq_inv n N (?t, ins, pops)"
    proof (rule mq_inv_same [OF inv])
      have "us = []" "mq_lockedKey s \<noteq> mpu_key u \<Longrightarrow> \<not> mq_isLocked s"
        using p Cons unfolding mq_proto_def
        by (auto simp: lock_ok_def ptr_asked_def split: retransStateType.splits if_splits)
      then show "mq_proto n N ?t"
        using p Cons unfolding mq_proto_def
        by (auto simp: lock_ok_def ptr_asked_def ptr_quiet_def elem_quiet_def elem_asked_def ptr_apply_def
            split: retransStateType.splits if_splits)
    qed (simp_all add: same_requests_def vptr_def vmeta_def mq_free_def Cons)
    with t show ?thesis by blast
  next
    case Nil
    show ?thesis
    proof (cases "pointerReqFifo s")
      case req: (Cons r rs)
      let ?t = "s\<lparr>mq_request := r, pointerReqFifo := [], pointerRspFifo := [ptr_table s ! unat (mpr_key r)],
          mq_lockedKey := (if mpr_lock r then mpr_key r else mq_lockedKey s), mq_isLocked := mpr_lock r\<rparr>"
      have r: "rs = []" "\<not> mq_isLocked s" "unat (mpr_key r) < n" "pointerRspFifo s = []"
        using p Nil req unfolding mq_proto_def
        by (auto simp: lock_ok_def ptr_asked_def ptr_quiet_def split: retransStateType.splits if_splits)
      have t: "mq_pointer_table s = Some ?t"
        using Nil req r w len by (cases s) (simp add: mq_pointer_table_def Let_def)
      have "mq_inv n N (?t, ins, pops)"
      proof (rule mq_inv_same [OF inv])
        show "mq_proto n N ?t"
          using p Nil req r unfolding mq_proto_def
          by (auto simp: lock_ok_def ptr_asked_def ptr_quiet_def elem_quiet_def elem_asked_def
              split: retransStateType.splits if_splits)
      qed (simp_all add: same_requests_def vptr_def vmeta_def mq_free_def Nil)
      with t show ?thesis by blast
    next
      case req: Nil
      then have "mq_pointer_table s = Some s" using Nil w by (simp add: mq_pointer_table_def)
      with inv show ?thesis by blast
    qed
  qed
qed

lemma meta_apply_simps:
  "length (meta_apply r m) = length m" "\<not> is_update r \<Longrightarrow> meta_apply r m = m"
  by (simp_all add: meta_apply_def is_update_def append_at_def)

lemma mq_elements_inv:
  assumes inv: "mq_inv n N (s, ins, pops)"
  shows "\<exists>t. mq_meta_table s = Some t \<and> mq_inv n N (t, ins, pops)"
proof -
  have p: "mq_proto n N s" using inv by (simp add: mq_inv_def)
  then have len: "length (meta_table s) = N" by (simp add: mq_proto_def)
  show ?thesis
  proof (cases "metaReqFifo s")
    case (Cons r rs)
    have k: "unat (mmr_idx r) < N" using p Cons by (simp add: mq_proto_def)
    let ?t = "s\<lparr>meta_table := meta_apply r (meta_table s), metaReqFifo := rs,
        metaRspFifo := metaRspFifo s @ (if is_update r then [] else [meta_table s ! unat (mmr_idx r)])\<rparr>"
    have t: "mq_meta_table s = Some ?t"
      using Cons k len
      by (cases s) (simp add: mq_meta_table_def Let_def meta_apply_def append_at_def is_update_def)
    have "mq_inv n N (?t, ins, pops)"
    proof (rule mq_inv_same [OF inv])
      have "elem_quiet s \<Longrightarrow> elem_quiet ?t" using Cons by (simp add: elem_quiet_def)
      moreover have "elem_asked i s \<Longrightarrow> elem_asked i ?t" for i
        using Cons by (auto simp: elem_asked_def meta_apply_simps Cons_eq_append_conv split: if_splits)
      ultimately show "mq_proto n N ?t"
        using p Cons unfolding mq_proto_def
        by (auto simp: lock_ok_def ptr_asked_def ptr_quiet_def meta_apply_simps
            split: retransStateType.splits if_splits)
    qed (simp_all add: same_requests_def vptr_def vmeta_def mq_free_def Cons)
    with t show ?thesis by blast
  next
    case Nil
    then have "mq_meta_table s = Some s" by (simp add: mq_meta_table_def)
    with inv show ?thesis by blast
  qed
qed

text \<open>The five states of the process that serves the requests.\<close>

lemma mq_invI:
  assumes "N < 2 ^ 16" "mq_proto n N s" "mq_hist ops (s, ins, pops)"
    "mq_heap n N s (vptr s) (vmeta s) (mq_free N s) idx (fst (mq_spec ops))"
  shows "mq_inv n N (s, ins, pops)"
  using assms by (auto simp: mq_inv_def)

lemma mq_invE:
  assumes "mq_inv n N (s, ins, pops)"
  obtains ops idx where "N < 2 ^ 16" "mq_proto n N s" "mq_hist ops (s, ins, pops)"
    "mq_heap n N s (vptr s) (vmeta s) (mq_free N s) idx (fst (mq_spec ops))"
  using assms by (auto simp: mq_inv_def)

lemma queues_front:
  assumes "queues n N P m idx Q rest" "mset rest = mset (j # F)"
  shows "queues n N P m idx Q (j # F)"
  by (rule queues_mset [THEN iffD1, OF assms(2,1)])

lemma mq_main_inv:
  assumes inv: "mq_inv n N (s, ins, pops)" and st: "rt_state s = STATE_MAIN"
  shows "mq_inv n N (mq_main s, ins, pops)"
proof -
  from inv obtain ops idx where i: "N < 2 ^ 16" "mq_proto n N s" "mq_hist ops (s, ins, pops)"
    "mq_heap n N s (vptr s) (vmeta s) (mq_free N s) idx (fst (mq_spec ops))" by (rule mq_invE)
  have q: "queues n N (vptr s) (vmeta s) idx (fst (mq_spec ops)) (mq_free N s)"
    using i(4) st by (simp add: mq_heap_def pushing_def)
  have pr: "ptr_quiet s" "lock_ok s" "elem_quiet s" using i(2) st by (simp_all add: mq_proto_def)
  consider (push) a as j js where "multiQueue_push s = a # as" "freeListFifo s = j # js"
    | (pop) b bs where "\<not> (multiQueue_push s \<noteq> [] \<and> freeListFifo s \<noteq> [])" "multiQueue_pop_req s = b # bs"
    | (none) "mq_main s = s"
    by (cases "multiQueue_push s"; cases "freeListFifo s"; cases "multiQueue_pop_req s")
      (auto simp: mq_main_def)
  then show ?thesis
  proof cases
    case push
    let ?t = "mq_main s"
    have "mset (mq_free N s) = mset (j # mq_free N ?t)"
      using push by (simp add: mq_free_def mq_main_def)
    from queues_front [OF q this]
    have "mq_heap n N ?t (vptr ?t) (vmeta ?t) (mq_free N ?t) idx (fst (mq_spec ops))"
      using push by (simp add: mq_heap_def pushing_def mq_main_def vptr_def vmeta_def)
    moreover have "mq_hist ops (?t, ins, pops)"
      using i(3) push st by (simp add: mq_hist_def mq_main_def pushing_def popping_def)
    moreover have "mq_proto n N ?t"
      using i(2) pr push st
      by (auto simp: mq_proto_def mq_main_def ptr_quiet_def ptr_asked_def lock_ok_def elem_quiet_def)
    ultimately show ?thesis using i(1) by (auto intro: mq_invI)
  next
    case pop
    let ?t = "mq_main s"
    have t: "?t = s\<lparr>rt_state := STATE_POP, popRequest := b,
        pointerReqFifo := pointerReqFifo s @ [\<lparr>mpr_key = mp_key b, mpr_lock = False\<rparr>],
        multiQueue_pop_req := bs\<rparr>"
      using pop by (auto simp: mq_main_def)
    have "mq_heap n N ?t (vptr ?t) (vmeta ?t) (mq_free N ?t) idx (fst (mq_spec ops))"
      using q by (simp add: mq_heap_def pushing_def t vptr_def vmeta_def mq_free_def)
    moreover have "mq_hist ops (?t, ins, pops)"
      using i(3) pop st by (simp add: mq_hist_def t pushing_def popping_def)
    moreover have "mq_proto n N ?t"
      using i(2) pr pop st
      by (auto simp: mq_proto_def t ptr_quiet_def ptr_asked_def lock_ok_def elem_quiet_def)
    ultimately show ?thesis using i(1) by (auto intro: mq_invI)
  next
    case none
    with inv show ?thesis by simp
  qed
qed

lemma mq_hist_push:
  assumes "mq_hist ops (s, ins, pops)" "pushing s" "rt_state t = STATE_MAIN"
    and "multiQueue_push t = multiQueue_push s" "multiQueue_pop_req t = multiQueue_pop_req s"
      "multiQueue_pop_rsp t = multiQueue_pop_rsp s"
  shows "mq_hist (ops @ [Push (mi_key (insert_req s)) (mi_value (insert_req s))]) (t, ins, pops)"
  using assms by (auto simp: mq_hist_def pushing_def popping_def mq_spec_snoc split_beta)
    (cases "mq_spec ops"; simp)+

lemma fst_spec_push: "fst (mq_spec (ops @ [Push k v])) =
    (fst (mq_spec ops))(unat k := fst (mq_spec ops) (unat k) @ [v])"
  by (cases "mq_spec ops") (simp add: mq_spec_snoc)

lemma mq_push_done:
  fixes P :: "mqPointerEntry list"
  assumes q: "queues n N P m idx Q (j # F)" "N < 2 ^ 16" "unat (mi_key r) < n"
    and e: "P ! unat (mi_key r) = e"
  shows "queues n N (ptr_apply \<lparr>mpu_key = mi_key r, mpu_entry =
        (if mpe_valid e then e\<lparr>mpe_tail := j\<rparr> else \<lparr>mpe_head = j, mpe_tail = j, mpe_valid = True\<rparr>)\<rparr> P)
      (meta_apply (mqMetaReq_write j (mqMetaEntry_of r)) (if mpe_valid e then append_at (mpe_tail e) j m else m))
      (idx(unat (mi_key r) := idx (unat (mi_key r)) @ [j]))
      (Q(unat (mi_key r) := Q (unat (mi_key r)) @ [mi_value r])) F"
  using queues_push [of n N P m idx Q "[]" j F "unat (mi_key r)" "mqMetaEntry_of r" "mi_value r"] assms
  by (cases "mpe_valid e") (simp_all add: mqMetaEntry_of_def ptr_apply_def meta_apply_def mqMetaReq_write_def)

lemma mq_push_inv:
  assumes inv: "mq_inv n N (s, ins, pops)" and st: "rt_state s = STATE_PUSH"
  shows "mq_inv n N (mq_push u s, ins, pops)"
proof (cases "pointerRspFifo s")
  case Nil
  with inv show ?thesis by (simp add: mq_push_def)
next
  case (Cons e es)
  let ?t = "mq_push u s" and ?k = "unat (mi_key (insert_req s))" and ?j = "newMetaIdx s"
  from inv obtain ops idx where i: "N < 2 ^ 16" "mq_proto n N s" "mq_hist ops (s, ins, pops)"
    "mq_heap n N s (vptr s) (vmeta s) (mq_free N s) idx (fst (mq_spec ops))" by (rule mq_invE)
  have q: "queues n N (vptr s) (vmeta s) idx (fst (mq_spec ops)) (?j # mq_free N s)"
    using i(4) st by (simp add: mq_heap_def pushing_def)
  have pr: "?k < n" "elem_quiet s" "es = []" "e = vptr s ! ?k" "pointerUpdFifo s = []"
    "pointerReqFifo s = []" "mq_isLocked s \<longrightarrow> mq_lockedKey s = mi_key (insert_req s)"
    using i(2) st Cons by (auto simp: mq_proto_def ptr_asked_def vptr_def split: if_splits)
  have j: "unat ?j < N" and tl: "mpe_valid e \<Longrightarrow> unat (mpe_tail e) < N"
  proof -
    note d = queues_distinct [OF q i(1) pr(1)]
    show "unat ?j < N" using d(3) by simp
    assume "mpe_valid e"
    then have "mpe_tail e \<in> set (idx ?k)"
      using q pr(1,4) by (auto simp: queues_def rep_def)
    with d(2) show "unat (mpe_tail e) < N" by blast
  qed
  show ?thesis
  proof (cases "mpe_valid e")
    case True
    then have t: "?t = s\<lparr>rt_state := STATE_PUSH_2, ptrMeta := e\<lparr>mpe_tail := ?j\<rparr>, pointerRspFifo := [],
        metaReqFifo := metaReqFifo s @ [mqMetaReq_append u (mpe_tail e) ?j]\<rparr>"
      using Cons pr(3) by (simp add: mq_push_def)
    have "mq_heap n N ?t (vptr ?t) (vmeta ?t) (mq_free N ?t) idx (fst (mq_spec ops))"
      using q True pr(4,5)
      by (auto simp: mq_heap_def pushing_def t vptr_def vmeta_def mq_free_def meta_apply_def
          mqMetaReq_append_def intro!: exI [of _ "fold meta_apply (metaReqFifo s) (meta_table s)"])
    moreover have "mq_hist ops (?t, ins, pops)"
      using i(3) st by (simp add: mq_hist_def t pushing_def popping_def)
    moreover have "mq_proto n N ?t"
      using i(2) pr st tl [OF True]
      by (auto simp: mq_proto_def t ptr_quiet_def elem_quiet_def mqMetaReq_append_def is_update_def)
    ultimately show ?thesis using i(1) by (auto intro: mq_invI)
  next
    case False
    let ?e = "\<lparr>mpe_head = ?j, mpe_tail = ?j, mpe_valid = True\<rparr>"
    from False have t: "?t = s\<lparr>rt_state := STATE_MAIN, ptrMeta := ?e,
        pointerUpdFifo := [\<lparr>mpu_key = mi_key (insert_req s), mpu_entry = ?e\<rparr>], pointerRspFifo := [],
        metaReqFifo := metaReqFifo s @ [mqMetaReq_write ?j (mqMetaEntry_of (insert_req s))]\<rparr>"
      using Cons pr(3,5) by (simp add: mq_push_def Let_def)
    let ?ops = "ops @ [Push (mi_key (insert_req s)) (mi_value (insert_req s))]"
    have "mq_heap n N ?t (vptr ?t) (vmeta ?t) (mq_free N ?t) (idx(?k := idx ?k @ [?j])) (fst (mq_spec ?ops))"
      using mq_push_done [OF q i(1) pr(1) pr(4) [symmetric]] False pr(5)
      by (simp add: mq_heap_def pushing_def t vptr_def vmeta_def mq_free_def fst_spec_push)
    moreover have "mq_hist ?ops (?t, ins, pops)"
      by (rule mq_hist_push [OF i(3)]) (use st in \<open>simp_all add: pushing_def t\<close>)
    moreover have "mq_proto n N ?t"
      using i(2) pr st j
      by (auto simp: mq_proto_def t ptr_quiet_def lock_ok_def elem_quiet_def mqMetaReq_write_def is_update_def)
    ultimately show ?thesis using i(1) by (auto intro: mq_invI)
  qed
qed

lemma mq_push_2_inv:
  assumes inv: "mq_inv n N (s, ins, pops)" and st: "rt_state s = STATE_PUSH_2"
  shows "mq_inv n N (mq_process_requests u s, ins, pops)"
proof -
  let ?t = "mq_process_requests u s" and ?k = "unat (mi_key (insert_req s))" and ?j = "newMetaIdx s"
  from inv obtain ops idx where i: "N < 2 ^ 16" "mq_proto n N s" "mq_hist ops (s, ins, pops)"
    "mq_heap n N s (vptr s) (vmeta s) (mq_free N s) idx (fst (mq_spec ops))" by (rule mq_invE)
  let ?e = "vptr s ! ?k"
  obtain m where q: "queues n N (vptr s) m idx (fst (mq_spec ops)) (?j # mq_free N s)"
    and e: "mpe_valid ?e" "ptrMeta s = ?e\<lparr>mpe_tail := ?j\<rparr>" "vmeta s = append_at (mpe_tail ?e) ?j m"
    using i(4) st by (auto simp: mq_heap_def pushing_def Let_def)
  have pr: "?k < n" "elem_quiet s" "pointerUpdFifo s = []" "ptr_quiet s"
    "mq_isLocked s \<longrightarrow> mq_lockedKey s = mi_key (insert_req s)"
    using i(2) st by (auto simp: mq_proto_def)
  have j: "unat ?j < N" using queues_distinct(3) [OF q i(1) pr(1)] by simp
  have t: "?t = s\<lparr>rt_state := STATE_MAIN,
      pointerUpdFifo := [\<lparr>mpu_key = mi_key (insert_req s), mpu_entry = ptrMeta s\<rparr>],
      metaReqFifo := metaReqFifo s @ [mqMetaReq_write ?j (mqMetaEntry_of (insert_req s))]\<rparr>"
    using st pr(3) by (simp add: mq_process_requests_def)
  let ?ops = "ops @ [Push (mi_key (insert_req s)) (mi_value (insert_req s))]"
  have v: "vmeta ?t = meta_apply (mqMetaReq_write ?j (mqMetaEntry_of (insert_req s))) (append_at (mpe_tail ?e) ?j m)"
    using e(3) by (simp add: vmeta_def t)
  have "mq_heap n N ?t (vptr ?t) (vmeta ?t) (mq_free N ?t) (idx(?k := idx ?k @ [?j])) (fst (mq_spec ?ops))"
    unfolding v using mq_push_done [OF q i(1) pr(1) HOL.refl] e(1,2) pr(3)
    by (simp add: mq_heap_def pushing_def t vptr_def mq_free_def fst_spec_push)
  moreover have "mq_hist ?ops (?t, ins, pops)"
    by (rule mq_hist_push [OF i(3)]) (use st in \<open>simp_all add: pushing_def t\<close>)
  moreover have "mq_proto n N ?t"
    using i(2) pr st j
    by (auto simp: mq_proto_def t ptr_quiet_def lock_ok_def elem_quiet_def mqMetaReq_write_def is_update_def)
  ultimately show ?thesis using i(1) by (auto intro: mq_invI)
qed

lemma mq_hist_take:
  assumes "mq_hist ops (s, ins, pops)" "popping s" "rt_state t = STATE_MAIN"
    and "multiQueue_push t = multiQueue_push s" "multiQueue_pop_req t = multiQueue_pop_req s"
      "multiQueue_pop_rsp t = multiQueue_pop_rsp s @
        (let q = fst (mq_spec ops) (unat (mp_key (popRequest s))) in if q = [] then [] else [hd q])"
  shows "mq_hist (ops @ [Take (mp_op (popRequest s)) (mp_key (popRequest s))]) (t, ins, pops)"
  using assms by (auto simp: mq_hist_def pushing_def popping_def mq_spec_snoc split_beta Let_def)
    (cases "mq_spec ops"; simp)+

lemma fst_spec_take: "fst (mq_spec (ops @ [Take p k])) =
    (if fst (mq_spec ops) (unat k) = [] \<or> p \<noteq> POP then fst (mq_spec ops)
     else (fst (mq_spec ops))(unat k := tl (fst (mq_spec ops) (unat k))))"
  by (cases "mq_spec ops") (simp add: mq_spec_snoc)

lemma mq_pop_inv:
  assumes inv: "mq_inv n N (s, ins, pops)" and st: "rt_state s = STATE_POP"
  shows "mq_inv n N (mq_pop u s, ins, pops)"
proof (cases "pointerRspFifo s")
  case Nil
  with inv show ?thesis by (simp add: mq_pop_def)
next
  case (Cons e es)
  let ?t = "mq_pop u s" and ?k = "unat (mp_key (popRequest s))"
  from inv obtain ops idx where i: "N < 2 ^ 16" "mq_proto n N s" "mq_hist ops (s, ins, pops)"
    "mq_heap n N s (vptr s) (vmeta s) (mq_free N s) idx (fst (mq_spec ops))" by (rule mq_invE)
  have q: "queues n N (vptr s) (vmeta s) idx (fst (mq_spec ops)) (mq_free N s)"
    using i(4) st by (simp add: mq_heap_def pushing_def)
  have pr: "?k < n" "elem_quiet s" "es = []" "e = vptr s ! ?k" "pointerUpdFifo s = []"
    "pointerReqFifo s = []" "\<not> mq_isLocked s"
    using i(2) st Cons by (auto simp: mq_proto_def ptr_asked_def vptr_def split: if_splits)
  have r: "rep e (vmeta s) (idx ?k) (fst (mq_spec ops) ?k)" using q pr(1,4) by (simp add: queues_def)
  show ?thesis
  proof (cases "mpe_valid e")
    case True
    then have t: "?t = s\<lparr>rt_state := STATE_POP_2, ptrMeta := e, pointerRspFifo := [],
        metaReqFifo := metaReqFifo s @ [mqMetaReq_read u (mpe_head e)]\<rparr>"
      using Cons pr(3) by (simp add: mq_pop_def)
    have "mpe_head e \<in> set (idx ?k)" using r True by (auto simp: rep_def)
    then have h: "unat (mpe_head e) < N" using queues_distinct(2) [OF q i(1) pr(1)] by blast
    have "mq_heap n N ?t (vptr ?t) (vmeta ?t) (mq_free N ?t) idx (fst (mq_spec ops))"
      using q True pr(4)
      by (simp add: mq_heap_def pushing_def t vptr_def vmeta_def mq_free_def meta_apply_def mqMetaReq_read_def)
    moreover have "mq_hist ops (?t, ins, pops)"
      using i(3) st by (simp add: mq_hist_def t pushing_def popping_def)
    moreover have "mq_proto n N ?t"
      using i(2) pr st h
      by (auto simp: mq_proto_def t ptr_quiet_def elem_quiet_def elem_asked_def mqMetaReq_read_def is_update_def)
    ultimately show ?thesis using i(1) by (auto intro: mq_invI)
  next
    case False
    then have t: "?t = s\<lparr>rt_state := STATE_MAIN, ptrMeta := e, pointerRspFifo := []\<rparr>"
      using Cons pr(3) by (simp add: mq_pop_def)
    have emp: "fst (mq_spec ops) ?k = []" using rep_Nil_iff [OF r] False by simp
    let ?ops = "ops @ [Take (mp_op (popRequest s)) (mp_key (popRequest s))]"
    have "mq_heap n N ?t (vptr ?t) (vmeta ?t) (mq_free N ?t) idx (fst (mq_spec ?ops))"
      using q emp by (simp add: mq_heap_def pushing_def t vptr_def vmeta_def mq_free_def fst_spec_take)
    moreover have "mq_hist ?ops (?t, ins, pops)"
      by (rule mq_hist_take [OF i(3)]) (use st emp in \<open>simp_all add: popping_def t\<close>)
    moreover have "mq_proto n N ?t"
      using i(2) pr st by (auto simp: mq_proto_def t ptr_quiet_def lock_ok_def elem_quiet_def)
    ultimately show ?thesis using i(1) by (auto intro: mq_invI)
  qed
qed

lemma mq_pop_2_inv:
  assumes inv: "mq_inv n N (s, ins, pops)" and st: "rt_state s = STATE_POP_2"
  shows "mq_inv n N (mq_pop_2 s, ins, pops)"
proof (cases "metaRspFifo s")
  case Nil
  with inv show ?thesis by (simp add: mq_pop_2_def)
next
  case (Cons e es)
  let ?t = "mq_pop_2 s" and ?k = "unat (mp_key (popRequest s))"
  from inv obtain ops idx where i: "N < 2 ^ 16" "mq_proto n N s" "mq_hist ops (s, ins, pops)"
    "mq_heap n N s (vptr s) (vmeta s) (mq_free N s) idx (fst (mq_spec ops))" by (rule mq_invE)
  have q: "queues n N (vptr s) (vmeta s) idx (fst (mq_spec ops)) (mq_free N s)"
    and p: "mpe_valid (vptr s ! ?k)" "ptrMeta s = vptr s ! ?k"
    using i(4) st by (auto simp: mq_heap_def pushing_def)
  have pr: "?k < n" "ptr_quiet s" "pointerUpdFifo s = []" "\<not> mq_isLocked s"
    "metaReqFifo s = []" "es = []" "e = meta_table s ! unat (mpe_head (ptrMeta s))"
    using i(2) st Cons by (auto simp: mq_proto_def elem_asked_def split: if_splits)
  have e: "e = vmeta s ! unat (mpe_head (vptr s ! ?k))" using pr(5,7) p(2) by (simp add: vmeta_def)
  note pop = queues_pop [OF q pr(1) p(1), folded e]
  let ?ops = "ops @ [Take (mp_op (popRequest s)) (mp_key (popRequest s))]"
  let ?e = "(ptrMeta s)\<lparr>mpe_valid := \<not> mme_isTail e, mpe_head := mme_next e\<rparr>"
  show ?thesis
  proof (cases "mp_op (popRequest s) = POP")
    case True
    then have t: "?t = s\<lparr>rt_state := STATE_MAIN, ptrMeta := ?e,
        pointerUpdFifo := [\<lparr>mpu_key = mp_key (popRequest s), mpu_entry = ?e\<rparr>], metaRspFifo := [],
        releaseFifo := releaseFifo s @ [mpe_head (ptrMeta s)],
        multiQueue_pop_rsp := multiQueue_pop_rsp s @ [mme_value e]\<rparr>"
      using Cons pr(3,6) pop(1) by (cases s) (simp add: mq_pop_2_def Let_def)
    have f: "mset (mq_free N s @ [mpe_head (vptr s ! ?k)]) = mset (mq_free N ?t)"
      by (simp add: mq_free_def t p(2))
    from queues_mset [THEN iffD1, OF f pop(4)] have "queues n N ((vptr s)[?k := ?e]) (vmeta s) (idx(?k := tl (idx ?k)))
        ((fst (mq_spec ops))(?k := tl (fst (mq_spec ops) ?k))) (mq_free N ?t)" by (simp add: p(2))
    then have "mq_heap n N ?t (vptr ?t) (vmeta ?t) (mq_free N ?t) (idx(?k := tl (idx ?k))) (fst (mq_spec ?ops))"
      using True pop(3) pr(3)
      by (simp add: mq_heap_def pushing_def t vptr_def vmeta_def fst_spec_take ptr_apply_def mq_free_def)
    moreover have "mq_hist ?ops (?t, ins, pops)"
      by (rule mq_hist_take [OF i(3)]) (use st pop(2,3) in \<open>simp_all add: popping_def t\<close>)
    moreover have "mq_proto n N ?t"
      using i(2) pr st by (auto simp: mq_proto_def t ptr_quiet_def lock_ok_def elem_quiet_def)
    ultimately show ?thesis using i(1) by (auto intro: mq_invI)
  next
    case False
    then have t: "?t = s\<lparr>rt_state := STATE_MAIN, metaRspFifo := [],
        multiQueue_pop_rsp := multiQueue_pop_rsp s @ [mme_value e]\<rparr>"
      using Cons pr(6) pop(1) by (cases s) (simp add: mq_pop_2_def Let_def)
    have "mq_heap n N ?t (vptr ?t) (vmeta ?t) (mq_free N ?t) idx (fst (mq_spec ?ops))"
      using q False by (simp add: mq_heap_def pushing_def t vptr_def vmeta_def fst_spec_take mq_free_def)
    moreover have "mq_hist ?ops (?t, ins, pops)"
      by (rule mq_hist_take [OF i(3)]) (use st pop(2,3) in \<open>simp_all add: popping_def t\<close>)
    moreover have "mq_proto n N ?t"
      using i(2) pr st by (auto simp: mq_proto_def t ptr_quiet_def lock_ok_def elem_quiet_def)
    ultimately show ?thesis using i(1) by (auto intro: mq_invI)
  qed
qed

lemma mq_requests_inv:
  assumes "mq_inv n N (s, ins, pops)"
  shows "mq_inv n N (mq_process_requests u s, ins, pops)"
  using mq_main_inv [OF assms] mq_push_inv [OF assms, of u] mq_push_2_inv [OF assms, of u]
    mq_pop_inv [OF assms, of u] mq_pop_2_inv [OF assms]
  by (cases "rt_state s") (simp_all add: mq_process_requests_def)

lemma mq_call_inv:
  assumes "mq_inv n N x"
  shows "\<exists>y. mq_call N c x = Some y \<and> mq_inv n N y"
proof -
  obtain s ins pops where x: "x = (s, ins, pops)" by (cases x)
  note inv = assms [unfolded x]
  show ?thesis
  proof (cases c)
    case (Freelist f)
    then show ?thesis using mq_freelist_inv [OF inv] by (simp add: x mq_call_def)
  next
    case Pointers
    then show ?thesis using mq_pointers_inv [OF inv] by (auto simp: x mq_call_def)
  next
    case Elements
    then show ?thesis using mq_elements_inv [OF inv] by (auto simp: x mq_call_def)
  next
    case (Requests u)
    then show ?thesis using mq_requests_inv [OF inv] by (simp add: x mq_call_def)
  qed
qed

lemma mq_env_inv:
  assumes "mq_inv n N x" "mq_env n x y"
  shows "mq_inv n N y"
proof -
  obtain s ins pops where x: "x = (s, ins, pops)" by (cases x)
  from assms(2) x obtain a b where y: "y = (s\<lparr>multiQueue_push := multiQueue_push s @ a,
      multiQueue_pop_req := multiQueue_pop_req s @ b\<rparr>, ins @ a, pops @ b)"
    "\<forall>r\<in>set a. unat (mi_key r) < n" "\<forall>r\<in>set b. unat (mp_key r) < n"
    by (cases y) (auto simp: mq_env_def)
  let ?t = "s\<lparr>multiQueue_push := multiQueue_push s @ a, multiQueue_pop_req := multiQueue_pop_req s @ b\<rparr>"
  from assms(1) [unfolded x] obtain ops idx where i: "N < 2 ^ 16" "mq_proto n N s" "mq_hist ops (s, ins, pops)"
    "mq_heap n N s (vptr s) (vmeta s) (mq_free N s) idx (fst (mq_spec ops))" by (rule mq_invE)
  have "mq_proto n N ?t" using i(2) y(2,3)
    by (auto simp: mq_proto_def lock_ok_def ptr_quiet_def ptr_asked_def elem_quiet_def elem_asked_def
        split: retransStateType.splits)
  moreover have "mq_hist ops (?t, ins @ a, pops @ b)"
    using i(3) by (simp add: mq_hist_def pushing_def popping_def)
  moreover have "mq_heap n N ?t (vptr ?t) (vmeta ?t) (mq_free N ?t) idx (fst (mq_spec ops))"
  proof -
    have "mq_heap n N ?t P V F idx Q = mq_heap n N s P V F idx Q" for P V F and Q :: "nat \<Rightarrow> 'a list"
      by (simp add: mq_heap_def pushing_def)
    with i(4) show ?thesis by (simp add: vptr_def vmeta_def mq_free_def)
  qed
  ultimately show ?thesis unfolding y(1) by (rule mq_invI [OF i(1)])
qed

interpretation mq: clocked "mq_inv n N" "mq_env n" "mq_call N" for n N
proof unfold_locales
  show "\<exists>t. mq_call N c s = Some t" if "mq_inv n N s" for c and s :: "'v mq_sys"
    using mq_call_inv [OF that] by blast
  show "mq_inv n N t" if "mq_inv n N s" "mq_call N c s = Some t" for c and s t :: "'v mq_sys"
    using mq_call_inv [OF that(1), of c] that(2) by auto
qed (rule mq_env_inv)

definition mq_reset :: "nat \<Rightarrow> nat \<Rightarrow> 'v mq_st \<Rightarrow> bool" where
  "mq_reset n N s \<longleftrightarrow> N < 2 ^ 16 \<and> length (ptr_table s) = n \<and> length (meta_table s) = N \<and>
     list_all (\<lambda>e. \<not> mpe_valid e) (ptr_table s) \<and> \<not> mq_isLocked s \<and> \<not> mq_wait s \<and>
     freeListCounter s = 0 \<and> rt_state s = STATE_MAIN \<and> pointerReqFifo s = [] \<and> pointerUpdFifo s = [] \<and>
     pointerRspFifo s = [] \<and> metaReqFifo s = [] \<and> metaRspFifo s = [] \<and> freeListFifo s = [] \<and>
     releaseFifo s = [] \<and> multiQueue_push s = [] \<and> multiQueue_pop_req s = [] \<and> multiQueue_pop_rsp s = []"

lemma mq_inv_reset:
  assumes "mq_reset n N s"
  shows "mq_inv n N (s, [], [])"
proof (rule mq_invI [where ops = "[]" and idx = "\<lambda>_. []"])
  show "N < 2 ^ 16" using assms by (simp add: mq_reset_def)
  show "mq_proto n N s" using assms
    by (simp add: mq_reset_def mq_proto_def ptr_quiet_def lock_ok_def elem_quiet_def)
  show "mq_hist [] (s, [], [])" using assms
    by (simp add: mq_reset_def mq_hist_def pushing_def popping_def mq_spec_def)
  have "owned (\<lambda>_. []) n = []" by (simp add: owned_def)
  then show "mq_heap n N s (vptr s) (vmeta s) (mq_free N s) (\<lambda>_. []) (fst (mq_spec []))"
    using assms by (auto simp: mq_reset_def mq_heap_def pushing_def vptr_def vmeta_def mq_free_def
        queues_def rep_def mq_spec_def list_all_length)
qed

section \<open>Every operation completes\<close>

fun mq_run :: "nat \<Rightarrow> bool \<times> 'v mqMetaEntry \<Rightarrow> nat \<Rightarrow> 'v mq_st \<Rightarrow> 'v mq_st option" where
  "mq_run N i 0 s = Some s"
| "mq_run N i (Suc m) s = Option.bind (multi_queue N i s) (mq_run N i m)"

lemma multi_queue_calls:
  assumes "mq_inv n N (s, ins, pops)"
  shows "\<exists>t. multi_queue N i s = Some t \<and> mq_inv n N (t, ins, pops)"
proof -
  from mq_pointers_inv [OF mq_freelist_inv [OF assms, of "fst i"]] obtain t
    where t: "mq_pointer_table (mq_freelist_handler N (fst i) s) = Some t" "mq_inv n N (t, ins, pops)" by blast
  from mq_elements_inv [OF t(2)] obtain r where r: "mq_meta_table t = Some r" "mq_inv n N (r, ins, pops)" by blast
  from mq_requests_inv [OF r(2)] t(1) r(1) show ?thesis by (simp add: multi_queue_def)
qed

text \<open>How many more cycles the operation in progress needs at most.\<close>

definition mq_todo :: "'v mq_st \<Rightarrow> nat" where
  "mq_todo s = (case rt_state s of
     STATE_MAIN \<Rightarrow> 0
   | STATE_PUSH \<Rightarrow> 2 + length (pointerUpdFifo s)
   | STATE_PUSH_2 \<Rightarrow> 1
   | STATE_POP \<Rightarrow> length (metaReqFifo s) + 2 + length (pointerUpdFifo s)
   | STATE_POP_2 \<Rightarrow> max 1 (length (metaReqFifo s)))"

lemma mq_freelist_frame:
  "same_requests s (mq_freelist_handler N f s) \<and>
   pointerUpdFifo (mq_freelist_handler N f s) = pointerUpdFifo s \<and>
   pointerReqFifo (mq_freelist_handler N f s) = pointerReqFifo s \<and>
   pointerRspFifo (mq_freelist_handler N f s) = pointerRspFifo s \<and>
   metaReqFifo (mq_freelist_handler N f s) = metaReqFifo s \<and>
   metaRspFifo (mq_freelist_handler N f s) = metaRspFifo s"
  by (simp add: mq_freelist_handler_def same_requests_def split: list.splits)

lemma mq_pointers_effect:
  assumes "mq_proto n N s" "mq_pointer_table s = Some t"
  shows "same_requests s t \<and> metaReqFifo t = metaReqFifo s \<and> metaRspFifo t = metaRspFifo s \<and>
    pointerUpdFifo t = tl (pointerUpdFifo s) \<and>
    (pointerUpdFifo s = [] \<and> rt_state s \<in> {STATE_PUSH, STATE_POP} \<longrightarrow> pointerRspFifo t \<noteq> [])"
proof (cases "pointerUpdFifo s")
  case Cons
  then show ?thesis using assms(2) by (auto simp: mq_pointer_table_def Let_def bind_eq_Some_conv same_requests_def)
next
  case Nil
  have w: "\<not> mq_wait s" using assms(1) by (simp add: mq_proto_def)
  show ?thesis
  proof (cases "pointerReqFifo s")
    case req: (Cons r rs)
    have "\<not> mq_isLocked s" using assms(1) Nil req unfolding mq_proto_def
      by (auto simp: lock_ok_def ptr_asked_def ptr_quiet_def split: retransStateType.splits if_splits)
    then show ?thesis using assms(2) Nil req w
      by (cases "mpr_lock r") (auto simp: mq_pointer_table_def Let_def bind_eq_Some_conv same_requests_def)
  next
    case req: Nil
    then have "rt_state s \<in> {STATE_PUSH, STATE_POP} \<longrightarrow> pointerRspFifo s \<noteq> []"
      using assms(1) unfolding mq_proto_def
      by (auto simp: ptr_asked_def split: retransStateType.splits if_splits)
    then show ?thesis using assms(2) Nil req w
      by (auto simp: mq_pointer_table_def same_requests_def)
  qed
qed

lemma mq_elements_effect:
  assumes "mq_meta_table s = Some t"
  shows "same_requests s t \<and> metaReqFifo t = tl (metaReqFifo s) \<and> pointerUpdFifo t = pointerUpdFifo s \<and>
    pointerRspFifo t = pointerRspFifo s \<and>
    (rt_state s = STATE_POP_2 \<and> elem_asked i s \<and> length (metaReqFifo s) \<le> 1 \<longrightarrow> metaRspFifo t \<noteq> [])"
proof (cases "metaReqFifo s")
  case Nil
  then show ?thesis using assms by (auto simp: mq_meta_table_def same_requests_def elem_asked_def)
next
  case (Cons r rs)
  have "\<not> is_update r" if "elem_asked i s" "rs = []"
    using that Cons by (auto simp: elem_asked_def Cons_eq_append_conv split: if_splits)
  then show ?thesis
    using assms Cons
    by (cases "mmr_write r"; cases "mmr_append r")
      (auto simp: mq_meta_table_def Let_def bind_eq_Some_conv same_requests_def is_update_def)
qed

lemma mq_cycle_progress:
  assumes inv: "mq_inv n N (s, ins, pops)" and st: "rt_state s \<noteq> STATE_MAIN"
  shows "\<exists>t. multi_queue N i s = Some t \<and> mq_inv n N (t, ins, pops) \<and> mq_todo t < mq_todo s \<and>
    multiQueue_push t = multiQueue_push s \<and> multiQueue_pop_req t = multiQueue_pop_req s"
proof -
  let ?a = "mq_freelist_handler N (fst i) s"
  note inv0 = mq_freelist_inv [OF inv, of "fst i"]
  from mq_pointers_inv [OF inv0] obtain b
    where b: "mq_pointer_table ?a = Some b" "mq_inv n N (b, ins, pops)" by blast
  from mq_elements_inv [OF b(2)] obtain c where c: "mq_meta_table b = Some c" "mq_inv n N (c, ins, pops)" by blast
  have pa: "mq_proto n N ?a" and pb: "mq_proto n N b" using inv0 b(2) by (simp_all add: mq_inv_def)
  note eb = mq_pointers_effect [OF pa b(1)] and ec = mq_elements_effect [OF c(1)]
  let ?t = "mq_process_requests (snd i) c"
  have c_eq: "rt_state c = rt_state s" "metaReqFifo c = tl (metaReqFifo s)"
    "pointerUpdFifo c = tl (pointerUpdFifo s)"
    "pointerUpdFifo s = [] \<and> rt_state s \<in> {STATE_PUSH, STATE_POP} \<longrightarrow> pointerRspFifo c \<noteq> []"
    using mq_freelist_frame [of s N "fst i"] eb ec by (auto simp: same_requests_def)
  have pop2: "metaRspFifo c \<noteq> []" if "rt_state s = STATE_POP_2" "length (metaReqFifo s) \<le> 1"
  proof -
    have "rt_state b = STATE_POP_2" "length (metaReqFifo b) \<le> 1"
      using that mq_freelist_frame [of s N "fst i"] eb by (simp_all add: same_requests_def)
    moreover from this have "elem_asked (mpe_head (ptrMeta b)) b" using pb by (simp add: mq_proto_def)
    ultimately show ?thesis using ec by blast
  qed
  have "mq_todo ?t < mq_todo s"
  proof (cases "rt_state s")
    case STATE_PUSH
    with c_eq show ?thesis
      by (cases "pointerUpdFifo s"; cases "pointerRspFifo c")
        (auto simp: mq_process_requests_def mq_push_def mq_todo_def Let_def)
  next
    case STATE_POP
    with c_eq show ?thesis
      by (cases "pointerUpdFifo s"; cases "pointerRspFifo c"; cases "metaReqFifo s")
        (auto simp: mq_process_requests_def mq_pop_def mq_todo_def Let_def)
  next
    case STATE_POP_2
    show ?thesis
    proof (cases "length (metaReqFifo s) \<le> 1")
      case True
      from pop2 [OF STATE_POP_2 this] STATE_POP_2 c_eq(1) show ?thesis
        by (auto simp: mq_process_requests_def mq_pop_2_def mq_todo_def Let_def neq_Nil_conv)
    next
      case False
      with STATE_POP_2 c_eq show ?thesis
        by (auto simp: mq_process_requests_def mq_pop_2_def mq_todo_def Let_def split: list.splits)
    qed
  qed (use st c_eq in \<open>simp_all add: mq_process_requests_def mq_todo_def\<close>)
  moreover have "multiQueue_push ?t = multiQueue_push s \<and> multiQueue_pop_req ?t = multiQueue_pop_req s"
  proof -
    have "multiQueue_push ?t = multiQueue_push c \<and> multiQueue_pop_req ?t = multiQueue_pop_req c"
      using st c_eq(1)
      by (simp add: mq_process_requests_def mq_push_def mq_pop_def mq_pop_2_def Let_def
          split: retransStateType.splits list.splits)
    then show ?thesis using mq_freelist_frame [of s N "fst i"] eb ec by (simp add: same_requests_def)
  qed
  moreover have "multi_queue N i s = Some ?t" using b(1) c(1) by (simp add: multi_queue_def)
  moreover have "mq_inv n N (?t, ins, pops)" by (rule mq_requests_inv [OF c(2)])
  ultimately show ?thesis by blast
qed

lemma mq_completes:
  assumes "mq_inv n N (s, ins, pops)"
  shows "\<exists>j t. j \<le> mq_todo s \<and> mq_run N i j s = Some t \<and> rt_state t = STATE_MAIN \<and> mq_inv n N (t, ins, pops) \<and>
    multiQueue_push t = multiQueue_push s \<and> multiQueue_pop_req t = multiQueue_pop_req s"
  using assms
proof (induction "mq_todo s" arbitrary: s rule: less_induct)
  case less
  show ?case
  proof (cases "rt_state s = STATE_MAIN")
    case True
    with less.prems show ?thesis by (intro exI [of _ 0] exI [of _ s]) simp
  next
    case False
    from mq_cycle_progress [OF less.prems this, of i] obtain t
      where t: "multi_queue N i s = Some t" "mq_inv n N (t, ins, pops)" "mq_todo t < mq_todo s"
        "multiQueue_push t = multiQueue_push s" "multiQueue_pop_req t = multiQueue_pop_req s" by blast
    from less.hyps [OF t(3,2)] obtain j r where "j \<le> mq_todo t" "mq_run N i j t = Some r"
      "rt_state r = STATE_MAIN" "mq_inv n N (r, ins, pops)"
      "multiQueue_push r = multiQueue_push t" "multiQueue_pop_req r = multiQueue_pop_req t" by blast
    with t show ?thesis by (intro exI [of _ "Suc j"] exI [of _ r]) simp
  qed
qed

lemma mq_todo_bound: "mq_proto n N s \<Longrightarrow> mq_todo s \<le> length (metaReqFifo s) + 3"
  by (auto simp: mq_todo_def mq_proto_def ptr_asked_def lock_ok_def split: retransStateType.splits if_splits)

section \<open>Correctness\<close>

lemma chain_length: "chain m is vs \<Longrightarrow> length vs = length is"
  by (induction "is" arbitrary: vs) (auto simp: Let_def neq_Nil_conv)

lemma queues_count:
  assumes "queues n N P m idx Q rest"
  shows "(\<Sum>k<n. length (Q k)) + length rest = N"
proof -
  have "size (mset (owned idx n @ rest)) = N" using assms by (simp add: queues_def)
  moreover have "length (owned idx n) = (\<Sum>k<n. length (idx k))"
    by (simp add: owned_def length_concat comp_def interv_sum_list_conv_sum_set_nat lessThan_atLeast0)
  moreover have "(\<Sum>k<n. length (idx k)) = (\<Sum>k<n. length (Q k))"
    using assms by (intro sum.cong) (auto simp: queues_def rep_def chain_length)
  ultimately show ?thesis by simp
qed

text \<open>C26: the module is a map of FIFO queues.  Whatever the order in which the four processes run,
  there is a sequence of completed pushes, pops and looks at the front that takes the requests of
  each input stream in order and answers exactly as a map from keys to lists does; an empty queue
  gives no answer.  Every element of the memory is in one queue, in use by the push in progress or
  free, so the supply never runs dry by loss, and no table is accessed out of bounds.\<close>

theorem multi_queue_refines:
  assumes "mq_reset n N s0" and r: "reach (mq_env n) (mq_call N) (s0, [], []) (s, ins, pops)"
  shows "(\<exists>ops. ins = pushes_of ops @ (if pushing s then [insert_req s] else []) @ multiQueue_push s \<and>
      pops = takes_of ops @ (if popping s then [popRequest s] else []) @ multiQueue_pop_req s \<and>
      multiQueue_pop_rsp s = snd (mq_spec ops) \<and>
      (\<Sum>k<n. length (fst (mq_spec ops) k)) + (if pushing s then 1 else 0) + length (mq_free N s) = N) \<and>
    (\<forall>c. \<exists>y. mq_call N c (s, ins, pops) = Some y)"
proof
  from mq.reach_inv [OF r mq_inv_reset [OF assms(1)]] have inv: "mq_inv n N (s, ins, pops)" .
  show "\<forall>c. \<exists>y. mq_call N c (s, ins, pops) = Some y" using mq.cyc_safe [OF inv] by blast
  from inv obtain ops idx where i: "mq_hist ops (s, ins, pops)"
    "mq_heap n N s (vptr s) (vmeta s) (mq_free N s) idx (fst (mq_spec ops))" by (rule mq_invE)
  then obtain m where "queues n N (vptr s) m idx (fst (mq_spec ops))
      ((if pushing s then [newMetaIdx s] else []) @ mq_free N s)" by (auto simp: mq_heap_def)
  from queues_count [OF this] i(1)
  show "\<exists>ops. ins = pushes_of ops @ (if pushing s then [insert_req s] else []) @ multiQueue_push s \<and>
      pops = takes_of ops @ (if popping s then [popRequest s] else []) @ multiQueue_pop_req s \<and>
      multiQueue_pop_rsp s = snd (mq_spec ops) \<and>
      (\<Sum>k<n. length (fst (mq_spec ops) k)) + (if pushing s then 1 else 0) + length (mq_free N s) = N"
    unfolding mq_hist_def prod.case by (intro exI [of _ ops]) auto
qed

text \<open>C27: no operation hangs.  From every reachable state, in however strange an order the
  processes have run before, a few whole cycles complete the operation in progress: nothing waits
  for the lock for ever, and the answer is there.  The bound is the number of element updates that
  are still queued, plus three.\<close>

theorem multi_queue_completes:
  assumes "mq_reset n N s0" and r: "reach (mq_env n) (mq_call N) (s0, [], []) (s, ins, pops)"
  shows "\<exists>j t ops. j \<le> length (metaReqFifo s) + 3 \<and> mq_run N i j s = Some t \<and> rt_state t = STATE_MAIN \<and>
    ins = pushes_of ops @ multiQueue_push s \<and> pops = takes_of ops @ multiQueue_pop_req s \<and>
    multiQueue_pop_rsp t = snd (mq_spec ops)"
proof -
  from mq.reach_inv [OF r mq_inv_reset [OF assms(1)]] have inv: "mq_inv n N (s, ins, pops)" .
  from mq_completes [OF inv, of i] obtain j t where t: "j \<le> mq_todo s" "mq_run N i j s = Some t"
    "rt_state t = STATE_MAIN" "mq_inv n N (t, ins, pops)"
    "multiQueue_push t = multiQueue_push s" "multiQueue_pop_req t = multiQueue_pop_req s" by blast
  from t(4) obtain ops idx where "mq_hist ops (t, ins, pops)" by (rule mq_invE)
  moreover have "mq_todo s \<le> length (metaReqFifo s) + 3"
    using mq_todo_bound inv by (auto simp: mq_inv_def)
  ultimately show ?thesis using t
    by (intro exI [of _ j] exI [of _ t] exI [of _ ops]) (auto simp: mq_hist_def pushing_def popping_def)
qed

definition mq_ex_entry :: "u8 mqMetaEntry" where
  "mq_ex_entry = \<lparr>mme_value = 0, mme_next = 0, mme_valid = False, mme_isTail = False\<rparr>"

definition mq_ex :: "u8 mq_st" where
  "mq_ex = \<lparr>ptr_table = [\<lparr>mpe_head = 0, mpe_tail = 0, mpe_valid = False\<rparr>], mq_lockedKey = 0,
     mq_isLocked = False, mq_wait = False, mq_request = \<lparr>mpr_key = 0, mpr_lock = False\<rparr>,
     meta_table = [mq_ex_entry, mq_ex_entry], freeListCounter = 0, rt_state = STATE_MAIN,
     newMetaIdx = 0, insert_req = \<lparr>mi_key = 0, mi_value = 0\<rparr>,
     popRequest = \<lparr>mp_op = POP, mp_key = 0\<rparr>,
     ptrMeta = \<lparr>mpe_head = 0, mpe_tail = 0, mpe_valid = False\<rparr>,
     pointerReqFifo = [], pointerUpdFifo = [], pointerRspFifo = [], metaReqFifo = [],
     metaRspFifo = [], freeListFifo = [], releaseFifo = [], multiQueue_push = [],
     multiQueue_pop_req = [], multiQueue_pop_rsp = []\<rparr>"

definition mq_ex1 :: "u8 mq_st" where
  "mq_ex1 = mq_ex\<lparr>rt_state := STATE_PUSH, insert_req := \<lparr>mi_key = 0, mi_value = 7\<rparr>,
     pointerReqFifo := [\<lparr>mpr_key = 0, mpr_lock = True\<rparr>], freeListCounter := 1\<rparr>"

lemma mq_ex_reset: "mq_reset 1 2 mq_ex"
  by (simp add: mq_reset_def mq_ex_def)

lemma mq_ex_reach: "reach (mq_env 1) (mq_call 2) (mq_ex, [], []) (mq_ex1, [\<lparr>mi_key = 0, mi_value = 7\<rparr>], [])"
proof -
  let ?p = "\<lparr>mi_key = 0, mi_value = 7\<rparr> :: u8 mqInsertReq"
  have 1: "mq_env 1 (mq_ex, [], []) (mq_ex\<lparr>multiQueue_push := [?p]\<rparr>, [?p], [])"
    by (simp add: mq_env_def mq_ex_def)
  have 2: "mq_call 2 (Freelist False) (mq_ex\<lparr>multiQueue_push := [?p]\<rparr>, [?p], []) =
      Some (mq_ex\<lparr>multiQueue_push := [?p], freeListCounter := 1, freeListFifo := [0]\<rparr>, [?p], [])"
    by (simp add: mq_call_def mq_freelist_handler_def mq_ex_def)
  have 3: "mq_call 2 (Requests mq_ex_entry)
      (mq_ex\<lparr>multiQueue_push := [?p], freeListCounter := 1, freeListFifo := [0]\<rparr>, [?p], []) =
      Some (mq_ex1, [?p], [])"
    by (simp add: mq_call_def mq_process_requests_def mq_main_def mq_ex_def mq_ex1_def)
  from reach_init 1 have "reach (mq_env 1) (mq_call 2) (mq_ex, [], []) (mq_ex\<lparr>multiQueue_push := [?p]\<rparr>, [?p], [])"
    by (rule reach_env)
  from reach_cyc [OF this 2] 3 show ?thesis by (rule reach_cyc)
qed

theorem multi_queue_refines_witness:
  "multiQueue_pop_rsp mq_ex1 = [] \<and> (\<forall>c. \<exists>y. mq_call 2 c (mq_ex1, [\<lparr>mi_key = 0, mi_value = 7\<rparr>], []) = Some y) \<and>
   length (mq_free 2 mq_ex1) = 1"
  using multi_queue_refines [OF mq_ex_reset mq_ex_reach]
  by (auto simp: mq_ex1_def mq_ex_def mq_free_def pushing_def)

theorem multi_queue_completes_witness:
  "\<exists>j t. j \<le> 3 \<and> mq_run 2 (False, mq_ex_entry) j mq_ex1 = Some t \<and> rt_state t = STATE_MAIN"
proof -
  have "metaReqFifo mq_ex1 = []" by (simp add: mq_ex1_def mq_ex_def)
  with multi_queue_completes [OF mq_ex_reset mq_ex_reach, of "(False, mq_ex_entry)"] show ?thesis by auto
qed

end
