(* ===== verification/Checksum.thy ===== *)
theory Checksum
  imports Axi_Utils
begin

text \<open>
  The Internet checksum: \<open>two_complement_subchecksums.hpp\<close>, the functions that check and
  finalize checksums in \<open>ipv4/ipv4.hpp\<close>, and \<open>compute_ipv4_checksum\<close> for every width in
  \<open>ipv4/ipv4_utils.cpp\<close>.  The hardware sums the 16-bit lanes of every word separately, with
  end-around carry after each addition, and adds the lanes in a tree at the end of the packet.
  The reference is the algorithm of RFC 1071 on the bytes of the packet.
\<close>

type_synonym u17 = "17 word"

section \<open>The reference\<close>

text \<open>RFC 1071, section 4.1: sum the 16-bit words, fold the carries until none is left, complement.\<close>

fun be_words :: "u8 list \<Rightarrow> nat list" where
  "be_words [] = []"
| "be_words [a] = [256 * unat a]"
| "be_words (a # b # bs) = (256 * unat a + unat b) # be_words bs"

function fold_carries :: "nat \<Rightarrow> nat" where
  "fold_carries s = (if s < 65536 then s else fold_carries (s mod 65536 + s div 65536))"
  by auto
termination
proof (relation "measure id")
  fix s :: nat assume "\<not> s < 65536"
  then have "s div 65536 \<ge> 1" by (simp add: Suc_le_eq div_greater_zero_iff)
  moreover have "s = 65536 * (s div 65536) + s mod 65536" by simp
  ultimately have "s mod 65536 + s div 65536 < s" by linarith
  then show "(s mod 65536 + s div 65536, s) \<in> measure id" by simp
qed simp

declare fold_carries.simps [simp del]

definition rfc1071 :: "u8 list \<Rightarrow> u16" where
  "rfc1071 bs = NOT (of_nat (fold_carries (sum_list (be_words bs))))"

section \<open>Ones' complement arithmetic\<close>

text \<open>What a sum with end-around carries stands for: the representative of its class modulo
  65535 in 1 to 65535, and 0 only for 0.\<close>

definition norm :: "nat \<Rightarrow> nat" where
  "norm n = (if n = 0 then 0 else (n - 1) mod 65535 + 1)"

lemma norm_0 [simp]: "norm 0 = 0"
  by (simp add: norm_def)

lemma norm_le: "norm n \<le> 65535"
proof -
  have "(n - 1) mod 65535 < 65535" by simp
  then have "(n - 1) mod 65535 + 1 \<le> 65535" by linarith
  then show ?thesis unfolding norm_def by (auto simp del: One_nat_def)
qed

lemma norm_small: "n \<le> 65535 \<Longrightarrow> norm n = n"
  by (simp add: norm_def)

lemma norm_mod: "norm n mod 65535 = n mod 65535"
proof (cases n)
  case (Suc m)
  then show ?thesis by (simp add: norm_def mod_Suc_eq)
qed simp

lemma norm_eq_iff: "norm a = norm b \<longleftrightarrow> a mod 65535 = b mod 65535 \<and> (a = 0 \<longleftrightarrow> b = 0)"
proof
  assume e: "norm a = norm b"
  then have "a mod 65535 = b mod 65535" by (metis norm_mod)
  with e show "a mod 65535 = b mod 65535 \<and> (a = 0 \<longleftrightarrow> b = 0)" by (auto simp: norm_def split: if_splits)
next
  assume e: "a mod 65535 = b mod 65535 \<and> (a = 0 \<longleftrightarrow> b = 0)"
  show "norm a = norm b"
  proof (cases "a = 0")
    case False
    with e obtain x y where xy: "a = Suc x" "b = Suc y" by (metis not0_implies_Suc)
    with e have "Suc x mod 65535 = Suc y mod 65535" by simp
    then have "x mod 65535 = y mod 65535" by (simp add: mod_Suc split: if_splits)
    with xy show ?thesis by (simp add: norm_def)
  qed (use e in simp)
qed

lemma norm_eq_0 [simp]: "norm n = 0 \<longleftrightarrow> n = 0"
  using norm_eq_iff [of n 0] by auto

lemma norm_norm [simp]: "norm (norm n) = norm n"
  by (simp add: norm_small norm_le)

lemma norm_add: "norm (norm a + norm b) = norm (a + b)"
proof -
  have "(norm a + norm b) mod 65535 = (a + b) mod 65535"
    using norm_mod [of a] norm_mod [of b] by (metis mod_add_eq)
  then show ?thesis by (simp add: norm_eq_iff)
qed

lemma norm_add_right: "norm (a + norm b) = norm (a + b)"
  using norm_add [of a "norm b"] norm_add [of a b] by simp

lemma norm_sum: "norm (sum_list (map (\<lambda>x. norm (f x)) xs)) = norm (sum_list (map f xs))"
proof (induction xs)
  case (Cons x xs)
  have "norm (norm (f x) + sum_list (map (\<lambda>x. norm (f x)) xs)) = norm (norm (norm (f x)) + norm (sum_list (map (\<lambda>x. norm (f x)) xs)))"
    by (rule norm_add [symmetric])
  also have "\<dots> = norm (f x + sum_list (map f xs))" by (simp add: Cons norm_add)
  finally show ?case by simp
qed simp

lemma fold_carries_norm: "fold_carries s = norm s"
proof (induction s rule: fold_carries.induct)
  case (1 s)
  show ?case
  proof (cases "s < 65536")
    case True
    then show ?thesis by (simp add: fold_carries.simps [of s] norm_small)
  next
    case False
    have "s = 65535 * (s div 65536) + (s mod 65536 + s div 65536)" by simp
    then have "s mod 65535 = (s mod 65536 + s div 65536) mod 65535" by (metis mod_mult_self4)
    moreover have "s mod 65536 + s div 65536 \<noteq> 0" using False by (auto simp: div_eq_0_iff)
    ultimately have "norm (s mod 65536 + s div 65536) = norm s" using False by (auto simp: norm_eq_iff)
    then show ?thesis using False 1 by (simp add: fold_carries.simps [of s])
  qed
qed

section \<open>Lanes\<close>

text \<open>\<open>(s + (s >> 16)) & 0xFFFF\<close>; the sum has 18 bits in C++.\<close>

definition fold17 :: "u17 \<Rightarrow> u17" where
  "fold17 s = ucast ((ucast s + drop_bit 16 (ucast s) :: u18) AND 0xFFFF)"

lemma unat_fold17: "unat s \<le> 0x1FFFE \<Longrightarrow> unat (fold17 s) = norm (unat s)"
proof -
  assume s: "unat s \<le> 0x1FFFE"
  have u: "unat (ucast s :: u18) = unat s"
    using unat_less [of s] by (simp add: unsigned_ucast_eq take_bit_nat_eq_self)
  have d: "unat (drop_bit 16 (ucast s :: u18)) = unat s div 65536"
  proof -
    have "unat (drop_bit 16 (ucast s :: u18)) = drop_bit 16 (unat (ucast s :: u18))"
      by (simp only: unsigned_drop_bit_eq take_bit_nat_eq_self [OF unat_less])
    then show ?thesis by (simp add: u drop_bit_eq_div)
  qed
  have q: "unat s div 65536 \<le> 1" using div_le_mono [OF s, of 65536] by simp
  have "unat (ucast s + drop_bit 16 (ucast s) :: u18) = unat s + unat s div 65536"
    using s q by (simp add: unat_word_ariths u d)
  moreover have "unat (x AND 0xFFFF) = unat x mod 65536" for x :: u18
  proof -
    have "x AND 0xFFFF = take_bit 16 x" by (simp add: take_bit_eq_mask mask_eq_exp_minus_1)
    then have "unat (x AND 0xFFFF) = take_bit 16 (unat x)" by (simp only: unsigned_take_bit_eq)
    then show ?thesis by (simp add: take_bit_eq_mod)
  qed
  ultimately have "unat (fold17 s) = (unat s + unat s div 65536) mod 65536"
    by (simp add: fold17_def unsigned_ucast_eq take_bit_eq_mod)
  also have "\<dots> = norm (unat s)"
  proof (cases "unat s < 65536")
    case True
    then show ?thesis by (simp add: norm_small)
  next
    case False
    then have "unat s div 65536 = 1" using q by (metis One_nat_def Suc_le_eq div_greater_zero_iff le_antisym linorder_not_less zero_less_numeral)
    moreover have "norm (unat s) = unat s - 65535"
    proof -
      have "unat s = (unat s - 65535) + 65535" using False by simp
      then have "unat s mod 65535 = (unat s - 65535) mod 65535" by (metis mod_add_self2)
      then have "norm (unat s) = norm (unat s - 65535)" using False by (auto simp: norm_eq_iff)
      then show ?thesis using s by (simp add: norm_small)
    qed
    ultimately show ?thesis using False s by (simp add: le_mod_geq)
  qed
  finally show ?thesis .
qed

text \<open>
  \<open>subSums\<close> is the list of its \<open>N\<close> lanes.  \<open>sum[i] += t; sum[i] = (sum[i] + (sum[i] >> 16)) & 0xFFFF\<close>:
\<close>

definition lane_add :: "u17 \<Rightarrow> u17 \<Rightarrow> u17" where
  "lane_add s t = fold17 (s + t)"

definition lane_ok :: "u17 \<Rightarrow> bool" where
  "lane_ok s \<longleftrightarrow> unat s \<le> 65535"

lemma unat_lane_add:
  assumes "lane_ok s" "lane_ok t"
  shows "unat (lane_add s t) = norm (unat s + unat t)"
proof -
  have "unat (s + t) = unat s + unat t"
    using assms by (simp add: unat_word_ariths lane_ok_def)
  with assms show ?thesis by (simp add: lane_add_def unat_fold17 lane_ok_def)
qed

lemma lane_ok_add: "lane_ok s \<Longrightarrow> lane_ok t \<Longrightarrow> lane_ok (lane_add s t)"
  by (simp add: lane_ok_def [of "lane_add s t"] unat_lane_add norm_le)

lemma lane_ok_u16: "lane_ok (ucast (t :: u16))" "unat (ucast (t :: u16) :: u17) = unat t"
proof -
  show u: "unat (ucast t :: u17) = unat t"
    using unat_less [of t] by (simp add: unsigned_ucast_eq take_bit_nat_eq_self)
  show "lane_ok (ucast t)" using unat_less [of t] by (simp add: lane_ok_def u)
qed

text \<open>The sum of all lanes.\<close>

definition total :: "u17 list \<Rightarrow> nat" where
  "total ss = sum_list (map unat ss)"

lemma total_nth: "total ss = sum_list (map (\<lambda>i. unat (ss ! i)) [0..<length ss])"
  unfolding total_def by (rule arg_cong [of _ _ sum_list]) (intro nth_equalityI; simp)

section \<open>The tree\<close>

text \<open>\<open>for (i < h) { sum[i] += sum[i+h]; sum[i] = (sum[i] + (sum[i] >> 16)) & 0xFFFF; }\<close>\<close>

definition add_halves :: "nat \<Rightarrow> u17 list \<Rightarrow> u17 list" where
  "add_halves h ss = map (\<lambda>i. if i < h then lane_add (ss ! i) (ss ! (i + h)) else ss ! i) [0..<length ss]"

definition sum_tree :: "u17 list \<Rightarrow> u17" where
  "sum_tree ss =
     (let n = length ss;
          ss = (if 32 \<le> n then add_halves 16 ss else ss);
          ss = (if 16 \<le> n then add_halves 8 ss else ss);
          ss = (if 8 \<le> n then add_halves 4 ss else ss);
          ss = add_halves 2 ss
      in lane_add (ss ! 0) (ss ! 1))"

definition checksum_of :: "u17 list \<Rightarrow> u16" where
  "checksum_of ss = bits 15 0 (NOT (sum_tree ss))"

definition finalize_ipv4_checksum ::
  "u17 list fifo \<times> u16 fifo \<Rightarrow> u17 list fifo \<times> u16 fifo" where
  "finalize_ipv4_checksum s = (case s of (subSumFiFoIn, checkSumFifoOut) \<Rightarrow>
     (case subSumFiFoIn of
        ss # rest \<Rightarrow> (rest, checkSumFifoOut @ [checksum_of ss])
      | [] \<Rightarrow> s))"

definition mac_finalize_ipv4_checksum ::
  "u17 list fifo \<times> u16 fifo \<Rightarrow> u17 list fifo \<times> u16 fifo" where
  "mac_finalize_ipv4_checksum s = (case s of (subSumFiFoIn, checkSumFifoOut) \<Rightarrow>
     (case subSumFiFoIn of
        ss # rest \<Rightarrow> (rest, checkSumFifoOut @ [checksum_of ss])
      | [] \<Rightarrow> s))"

definition toe_check_ipv4_checksum ::
  "u17 list fifo \<times> bool fifo \<Rightarrow> u17 list fifo \<times> bool fifo" where
  "toe_check_ipv4_checksum s = (case s of (subSumFiFoIn, checkSumFifoOut) \<Rightarrow>
     (case subSumFiFoIn of
        ss # rest \<Rightarrow> (rest, checkSumFifoOut @ [checksum_of ss = 0])
      | [] \<Rightarrow> s))"

definition ip_handler_check_ipv4_checksum ::
  "u17 list fifo \<times> bool fifo \<Rightarrow> u17 list fifo \<times> bool fifo" where
  "ip_handler_check_ipv4_checksum s = (case s of (subSumFiFoIn, checkSumFifoOut) \<Rightarrow>
     (case subSumFiFoIn of
        ss # rest \<Rightarrow> (rest, checkSumFifoOut @ [checksum_of ss = 0])
      | [] \<Rightarrow> s))"

text \<open>Every level of the tree keeps the class of the sum of the lanes it still uses.\<close>

lemma add_halves_total:
  assumes "list_all lane_ok ss" "2 * h \<le> length ss"
  shows "norm (total (take h (add_halves h ss))) = norm (total (take (2 * h) ss))"
    "list_all lane_ok (add_halves h ss)" "length (add_halves h ss) = length ss"
proof -
  have ok: "lane_ok (ss ! i)" if "i < length ss" for i using assms(1) that by (simp add: list_all_length)
  have "take h (add_halves h ss) = map (\<lambda>i. lane_add (ss ! i) (ss ! (i + h))) [0..<h]"
    using assms(2) by (intro nth_equalityI) (auto simp: add_halves_def)
  then have "total (take h (add_halves h ss)) = sum_list (map (\<lambda>i. norm (unat (ss ! i) + unat (ss ! (i + h)))) [0..<h])"
    using assms(2) ok by (auto simp: total_def comp_def unat_lane_add intro!: arg_cong [of _ _ sum_list])
  then have "norm (total (take h (add_halves h ss))) = norm (sum_list (map (\<lambda>i. unat (ss ! i) + unat (ss ! (i + h))) [0..<h]))"
    by (simp only: norm_sum)
  also have "sum_list (map (\<lambda>i. unat (ss ! i) + unat (ss ! (i + h))) [0..<h]) = total (take (2 * h) ss)"
  proof -
    have "take (2 * h) ss = map ((!) ss) [0..<h] @ map (\<lambda>i. ss ! (i + h)) [0..<h]"
      using assms(2) by (intro nth_equalityI) (auto simp: nth_append)
    then show ?thesis by (simp add: total_def sum_list_addf comp_def)
  qed
  finally show "norm (total (take h (add_halves h ss))) = norm (total (take (2 * h) ss))" .
  show "list_all lane_ok (add_halves h ss)"
    using assms(2) ok by (auto simp: add_halves_def list_all_length lane_ok_add)
  show "length (add_halves h ss) = length ss" by (simp add: add_halves_def)
qed

lemma sum_tree_total:
  assumes ok: "list_all lane_ok ss" and n: "length ss \<in> {4, 8, 16, 32}"
  shows "unat (sum_tree ss) = norm (total ss)"
proof -
  define n where "n = length ss"
  define a where "a = (if 32 \<le> n then add_halves 16 ss else ss)"
  define b where "b = (if 16 \<le> n then add_halves 8 a else a)"
  define c where "c = (if 8 \<le> n then add_halves 4 b else b)"
  define d where "d = add_halves 2 c"
  have ss: "list_all lane_ok ss" "norm (total (take n ss)) = norm (total ss)"
    using ok by (simp_all add: n_def)
  have n4: "n \<in> {4, 8, 16, 32}" using n by (simp add: n_def)
  have la: "list_all lane_ok a \<and> length a = n \<and> norm (total (take (min 16 n) a)) = norm (total ss)"
    using add_halves_total [OF ok, of 16] ss n4 by (auto simp: a_def n_def [symmetric])
  have lb: "list_all lane_ok b \<and> length b = n \<and> norm (total (take (min 8 n) b)) = norm (total ss)"
    using add_halves_total [of a 8] la n4 by (auto simp: b_def)
  have lc: "list_all lane_ok c \<and> length c = n \<and> norm (total (take (min 4 n) c)) = norm (total ss)"
    using add_halves_total [of b 4] lb n4 by (auto simp: c_def)
  have ld: "list_all lane_ok d \<and> length d = n \<and> norm (total (take 2 d)) = norm (total ss)"
    using add_halves_total [of c 2] lc n4 by (auto simp: d_def)
  have t: "sum_tree ss = lane_add (d ! 0) (d ! 1)"
    by (simp only: sum_tree_def Let_def n_def a_def b_def c_def d_def)
  have "1 < length d" using ld n4 by auto
  then have "take 2 d = [d ! 0, d ! 1]" by (cases d; cases "tl d") (auto simp: numeral_2_eq_2)
  moreover have "lane_ok (d ! 0)" "lane_ok (d ! 1)" using ld \<open>1 < length d\<close> by (auto simp: list_all_length)
  ultimately show ?thesis using ld by (simp add: t unat_lane_add total_def)
qed

lemma checksum_of_total:
  assumes "list_all lane_ok ss" "length ss \<in> {4, 8, 16, 32}"
  shows "checksum_of ss = NOT (of_nat (norm (total ss)))"
proof -
  have u: "unat (sum_tree ss) = norm (total ss)" by (rule sum_tree_total [OF assms])
  then have "(of_nat (norm (total ss)) :: u16) = ucast (sum_tree ss)"
    by (metis of_nat_unat)
  then show ?thesis
    by (intro bit_word_eqI) (auto simp: checksum_of_def bit_bits bit_simps)
qed

section \<open>Summing a packet\<close>

text \<open>
  \<open>temp(7, 0) = data(i*16+15, i*16+8); temp(15, 8) = data(i*16+7, i*16)\<close>, and the same with
  the second byte 0.
\<close>

definition lane16 :: "nat \<Rightarrow> 'w::len word \<Rightarrow> u16" where
  "lane16 i d = put_bits 15 8 (bits (i * 16 + 7) (i * 16) d :: u8)
     (put_bits 7 0 (bits (i * 16 + 15) (i * 16 + 8) d :: u8) 0)"

definition lane8 :: "nat \<Rightarrow> 'w::len word \<Rightarrow> u16" where
  "lane8 i d = put_bits 15 8 (bits (i * 16 + 7) (i * 16) d :: u8) (put_bits 7 0 (0 :: u8) 0)"

record 'a tcts_st =
  tcts_tcp_sums :: "u17 list"
  tcts_dataIn :: "'a fifo"
  tcts_dataOut :: "'a fifo"
  tcts_subSums :: "u17 list fifo"

definition tcts_add :: "('w::len, 'k::len) axis \<Rightarrow> u17 list \<Rightarrow> u17 list" where
  "tcts_add w ss = map (\<lambda>i.
     if (bits (2 * i + 1) (2 * i) (na_keep w) :: u2) = 3
     then lane_add (ss ! i) (ucast (lane16 i (na_data w)))
     else if bit (na_keep w) (2 * i)
     then lane_add (ss ! i) (ucast (lane8 i (na_data w)))
     else ss ! i) [0..<length ss]"

definition two_complement_subchecksums ::
  "('w::len, 'k::len) axis tcts_st \<Rightarrow> ('w, 'k) axis tcts_st" where
  "two_complement_subchecksums s =
     (case tcts_dataIn s of
        w # rest \<Rightarrow>
          let s = s\<lparr>tcts_dataIn := rest, tcts_dataOut := tcts_dataOut s @ [w],
                    tcts_tcp_sums := tcts_add w (tcts_tcp_sums s)\<rparr>
          in if na_last w
             then s\<lparr>tcts_subSums := tcts_subSums s @ [tcts_tcp_sums s],
                    tcts_tcp_sums := replicate (length (tcts_tcp_sums s)) 0\<rparr>
             else s
      | [] \<Rightarrow> s)"

lemma unat_pair: "unat (put_bits 15 8 (a :: u8) (put_bits 7 0 (b :: u8) 0) :: u16) = 256 * unat a + unat b"
proof -
  let ?w = "put_bits 15 8 a (put_bits 7 0 b 0) :: u16"
  have "drop_bit 8 ?w = ucast a" "take_bit 8 ?w = ucast b"
    by (intro bit_word_eqI; auto simp: bit_put_bits bit_simps dest: bit_imp_le_length)+
  then have "drop_bit 8 (unat ?w) = unat a" "take_bit 8 (unat ?w) = unat b"
    using unsigned_drop_bit_eq [of 8 ?w, where ?'a = nat] unsigned_take_bit_eq [of 8 ?w, where ?'a = nat]
      unat_less [of a] unat_less [of b]
    by (simp_all add: unsigned_ucast_eq take_bit_nat_eq_self take_bit_nat_eq_self [OF unat_less [of ?w], simplified])
  then have "unat ?w div 256 = unat a" "unat ?w mod 256 = unat b"
    by (simp_all add: drop_bit_eq_div take_bit_eq_mod)
  then show ?thesis by (metis mult.commute div_mult_mod_eq)
qed

lemma unat_lane16: "unat (lane16 i d) = 256 * unat (byte (2 * i) d) + unat (byte (2 * i + 1) d)"
  by (simp add: lane16_def unat_pair byte_def mult.commute add.commute)

lemma unat_lane8: "unat (lane8 i d) = 256 * unat (byte (2 * i) d)"
  by (simp add: lane8_def unat_pair byte_def mult.commute)

text \<open>What a word adds, in terms of its bytes.\<close>

fun cell_pair :: "u8 option \<Rightarrow> u8 option \<Rightarrow> nat" where
  "cell_pair (Some a) (Some b) = 256 * unat a + unat b"
| "cell_pair (Some a) None = 256 * unat a"
| "cell_pair None _ = 0"

fun cell_sum :: "u8 option list \<Rightarrow> nat" where
  "cell_sum (a # b # cs) = cell_pair a b + cell_sum cs"
| "cell_sum cs = 0"

lemma cell_sum_nth: "length cs = 2 * n \<Longrightarrow>
    cell_sum cs = sum_list (map (\<lambda>i. cell_pair (cs ! (2 * i)) (cs ! (2 * i + 1))) [0..<n])"
proof (induction n arbitrary: cs)
  case (Suc n)
  then obtain a b r where cs: "cs = a # b # r" "length r = 2 * n"
    by (cases cs; cases "tl cs") auto
  have "[0..<Suc n] = 0 # map Suc [0..<n]" by (simp add: upt_conv_Cons map_Suc_upt del: upt_Suc)
  then show ?case using Suc.IH [OF cs(2)] by (simp add: cs(1) comp_def del: upt_Suc)
qed simp

lemma cell_sum_append: "even (length cs) \<Longrightarrow> cell_sum (cs @ ds) = cell_sum cs + cell_sum ds"
  by (induction cs rule: cell_sum.induct) auto

lemma cell_sum_None: "cell_sum (replicate k None) = 0"
  by (induction k rule: induct_nat_012) simp_all

lemma cell_sum_Some: "cell_sum (map Some bs @ replicate k None) =
    (if k = 0 \<and> odd (length bs) then sum_list (be_words (butlast bs)) else sum_list (be_words bs))"
proof (induction bs rule: be_words.induct)
  case (2 a)
  show ?case by (cases k) (simp_all add: cell_sum_None)
next
  case (3 a b bs)
  then show ?case by (cases bs) auto
qed (simp add: cell_sum_None)

lemma tcts_add_total:
  fixes w :: "('w::len, 'k::len) axis"
  assumes "list_all lane_ok ss" "2 * length ss = LENGTH('k)"
  shows "norm (total (tcts_add w ss)) = norm (total ss + cell_sum (cells w))"
    "list_all lane_ok (tcts_add w ss)" "length (tcts_add w ss) = length ss"
proof -
  let ?c = "\<lambda>i. cell_pair (cells w ! (2 * i)) (cells w ! (2 * i + 1))"
  have ok: "lane_ok (ss ! i)" if "i < length ss" for i using assms(1) that by (simp add: list_all_length)
  have k: "(bits (2 * i + 1) (2 * i) (na_keep w) :: u2) = 3 \<longleftrightarrow> bit (na_keep w) (2 * i) \<and> bit (na_keep w) (2 * i + 1)" for i
  proof -
    have "(bits (2 * i + 1) (2 * i) (na_keep w) :: u2) = 3 \<longleftrightarrow>
        (\<forall>n < 2. bit (bits (2 * i + 1) (2 * i) (na_keep w) :: u2) n)"
    proof
      assume all: "\<forall>n < 2. bit (bits (2 * i + 1) (2 * i) (na_keep w) :: u2) n"
      have "bit (3 :: u2) n" if "n < 2" for n using that by (auto simp: less_2_cases_iff)
      with all show "(bits (2 * i + 1) (2 * i) (na_keep w) :: u2) = 3" by (intro bit_word_eqI) simp
    qed (auto simp: less_2_cases_iff)
    then show ?thesis by (auto simp: less_2_cases_iff bit_bits)
  qed
  have step: "unat (tcts_add w ss ! i) = norm (unat (ss ! i) + ?c i) \<and> lane_ok (tcts_add w ss ! i)"
    if i: "i < length ss" for i
  proof -
    have n: "2 * i < LENGTH('k)" "2 * i + 1 < LENGTH('k)" using i assms(2) by linarith+
    have keep: "unat (ss ! i) = norm (unat (ss ! i))" using ok [OF i] by (simp add: norm_small lane_ok_def)
    show ?thesis
      using i ok [OF i] lane_ok_u16 keep n
      by (auto simp: tcts_add_def k [simplified] nth_cells unat_lane_add lane_ok_add unat_lane16 unat_lane8)
  qed
  have len: "length (tcts_add w ss) = length ss" by (simp add: tcts_add_def)
  have "total (tcts_add w ss) = sum_list (map (\<lambda>i. norm (unat (ss ! i) + ?c i)) [0..<length ss])"
    unfolding total_nth len by (rule arg_cong [of _ _ sum_list], rule map_cong [OF HOL.refl]) (use step in simp)
  then have "norm (total (tcts_add w ss)) = norm (sum_list (map (\<lambda>i. unat (ss ! i) + ?c i) [0..<length ss]))"
    by (simp only: norm_sum)
  also have "sum_list (map (\<lambda>i. unat (ss ! i) + ?c i) [0..<length ss]) = total ss + cell_sum (cells w)"
  proof -
    show ?thesis
      using cell_sum_nth [of "cells w" "length ss"] assms(2) by (simp add: total_nth sum_list_addf)
  qed
  finally show "norm (total (tcts_add w ss)) = norm (total ss + cell_sum (cells w))" .
  show "list_all lane_ok (tcts_add w ss)" "length (tcts_add w ss) = length ss"
    using step len by (auto simp: list_all_length)
qed

lemma be_words_append: "even (length as) \<Longrightarrow> be_words (as @ bs) = be_words as @ be_words bs"
  by (induction as rule: be_words.induct) auto

lemma tcts_packet:
  fixes ws :: "('w::len, 'k::len) axis list"
  assumes "carries bs ws" "tcts_dataIn s = ws @ rest" "list_all lane_ok (tcts_tcp_sums s)"
    "2 * length (tcts_tcp_sums s) = LENGTH('k)"
  shows "\<exists>ss. (two_complement_subchecksums ^^ length ws) s =
      s\<lparr>tcts_tcp_sums := replicate (LENGTH('k) div 2) 0, tcts_dataIn := rest,
        tcts_dataOut := tcts_dataOut s @ ws, tcts_subSums := tcts_subSums s @ [ss]\<rparr> \<and>
    norm (total ss) = norm (total (tcts_tcp_sums s) + sum_list (be_words bs)) \<and>
    list_all lane_ok ss \<and> length ss = LENGTH('k) div 2"
  using assms
proof (induction ws arbitrary: bs s)
  case Nil
  then show ?case by (simp add: carries_def)
next
  case (Cons w ws)
  let ?ss = "tcts_add w (tcts_tcp_sums s)"
  note add = tcts_add_total [OF Cons.prems(3,4), of w]
  have N: "length (tcts_tcp_sums s) = LENGTH('k) div 2" using Cons.prems(4) by linarith
  have even: "even (LENGTH('k))" using Cons.prems(4) by (metis dvd_triv_left)
  show ?case
  proof (cases "ws = []")
    case True
    with Cons.prems(1) obtain k where k: "na_last w" "k < LENGTH('k)" "cells w = map Some bs @ replicate k None"
      by (auto simp: carries_single)
    from arg_cong [OF k(3), of length] have "length bs + k = LENGTH('k)" by simp
    then have "\<not> (k = 0 \<and> odd (length bs))" using even by (cases "k = 0") auto
    then have "cell_sum (cells w) = sum_list (be_words bs)" by (subst k(3), subst cell_sum_Some) (simp only: if_False)
    moreover have "two_complement_subchecksums s = s\<lparr>tcts_tcp_sums := replicate (LENGTH('k) div 2) 0,
        tcts_dataIn := rest, tcts_dataOut := tcts_dataOut s @ [w], tcts_subSums := tcts_subSums s @ [?ss]\<rparr>"
      using Cons.prems(2) True k(1) add(3) N
      by (cases s) (simp add: two_complement_subchecksums_def Let_def)
    ultimately show ?thesis using add True N by (intro exI [of _ ?ss]) simp
  next
    case False
    with Cons.prems(1) have w: "\<not> na_last w" "LENGTH('k) \<le> length bs"
      "cells w = map Some (take (LENGTH('k)) bs)" "carries (drop (LENGTH('k)) bs) ws"
      by (simp_all add: carries_Cons)
    let ?t = "s\<lparr>tcts_tcp_sums := ?ss, tcts_dataIn := ws @ rest, tcts_dataOut := tcts_dataOut s @ [w]\<rparr>"
    have t: "two_complement_subchecksums s = ?t"
      using Cons.prems(2) w(1) by (cases s) (simp add: two_complement_subchecksums_def Let_def)
    have "tcts_dataIn ?t = ws @ rest" "list_all lane_ok (tcts_tcp_sums ?t)"
      "2 * length (tcts_tcp_sums ?t) = LENGTH('k)" using add Cons.prems(4) by simp_all
    from Cons.IH [OF w(4) this] obtain ss where ss:
      "(two_complement_subchecksums ^^ length ws) ?t = ?t\<lparr>tcts_tcp_sums := replicate (LENGTH('k) div 2) 0,
        tcts_dataIn := rest, tcts_dataOut := tcts_dataOut ?t @ ws, tcts_subSums := tcts_subSums ?t @ [ss]\<rparr>"
      "norm (total ss) = norm (total ?ss + sum_list (be_words (drop (LENGTH('k)) bs)))"
      "list_all lane_ok ss" "length ss = LENGTH('k) div 2" by auto
    have c: "cell_sum (cells w) = sum_list (be_words (take (LENGTH('k)) bs))"
      using cell_sum_Some [of "take (LENGTH('k)) bs" 0] w(2) even by (simp add: w(3))
    have "be_words bs = be_words (take (LENGTH('k)) bs) @ be_words (drop (LENGTH('k)) bs)"
      using be_words_append [of "take (LENGTH('k)) bs" "drop (LENGTH('k)) bs"] w(2) even by simp
    then have "sum_list (be_words bs) = cell_sum (cells w) + sum_list (be_words (drop (LENGTH('k)) bs))"
      by (simp add: c)
    moreover have "norm (total ?ss + x) = norm (total (tcts_tcp_sums s) + cell_sum (cells w) + x)" for x
      using norm_add [of "total ?ss" x] norm_add [of "total (tcts_tcp_sums s) + cell_sum (cells w)" x] add(1)
      by simp
    ultimately show ?thesis
      using ss t by (intro exI [of _ ss]) (simp add: funpow_Suc_right add.assoc del: funpow.simps(2))
  qed
qed

lemma rfc1071_norm: "rfc1071 bs = NOT (of_nat (norm (sum_list (be_words bs))))"
  by (simp add: rfc1071_def fold_carries_norm)

text \<open>C29: the streaming checksum is the Internet checksum.  For every packet, \<open>length ws\<close> cycles of
  \<open>two_complement_subchecksums\<close> pass it on unchanged and give one set of lane sums;
  \<open>finalize_ipv4_checksum\<close> turns it into the RFC 1071 checksum of the bytes of the packet, and
  \<open>toe_check_ipv4_checksum\<close> accepts iff that checksum is 0.  The lanes are clear again for the next
  packet.\<close>

theorem checksum_equiv:
  fixes ws :: "('w::len, 'k::len) axis list"
  assumes "LENGTH('k) \<in> {8, 16, 32, 64}" "carries bs ws"
    and "tcts_tcp_sums s = replicate (LENGTH('k) div 2) 0" "tcts_dataIn s = ws @ rest"
  shows "\<exists>ss. (two_complement_subchecksums ^^ length ws) s =
      s\<lparr>tcts_dataIn := rest, tcts_dataOut := tcts_dataOut s @ ws, tcts_subSums := tcts_subSums s @ [ss]\<rparr> \<and>
    finalize_ipv4_checksum ([ss], out) = ([], out @ [rfc1071 bs]) \<and>
    toe_check_ipv4_checksum ([ss], valid) = ([], valid @ [rfc1071 bs = 0])"
proof -
  have "list_all lane_ok (tcts_tcp_sums s)" "2 * length (tcts_tcp_sums s) = LENGTH('k)" "total (tcts_tcp_sums s) = 0"
    using assms(1,3) by (auto simp: lane_ok_def list_all_length total_def sum_list_replicate)
  from tcts_packet [OF assms(2,4) this(1,2)] this(3) obtain ss where ss:
    "(two_complement_subchecksums ^^ length ws) s = s\<lparr>tcts_tcp_sums := replicate (LENGTH('k) div 2) 0,
      tcts_dataIn := rest, tcts_dataOut := tcts_dataOut s @ ws, tcts_subSums := tcts_subSums s @ [ss]\<rparr>"
    "norm (total ss) = norm (sum_list (be_words bs))" "list_all lane_ok ss" "length ss = LENGTH('k) div 2" by auto
  have "length ss \<in> {4, 8, 16, 32}" using assms(1) ss(4) by auto
  from checksum_of_total [OF ss(3) this] have "checksum_of ss = rfc1071 bs"
    by (simp add: rfc1071_norm ss(2))
  then show ?thesis
    using ss(1) assms(3) by (intro exI [of _ ss])
      (cases s; simp add: finalize_ipv4_checksum_def toe_check_ipv4_checksum_def)
qed

lemma checksum_equiv_witness:
  "\<exists>ss. (two_complement_subchecksums ^^ length [\<lparr>na_data = 0x0807060504030201, na_keep = 0xFF, na_last = False\<rparr>,
        \<lparr>na_data = 0x090A, na_keep = 0x01, na_last = True\<rparr>])
      \<lparr>tcts_tcp_sums = replicate 4 0, tcts_dataIn = [\<lparr>na_data = 0x0807060504030201, na_keep = 0xFF, na_last = False\<rparr>,
        \<lparr>na_data = 0x090A, na_keep = 0x01, na_last = True\<rparr> :: (64, 8) axis], tcts_dataOut = [], tcts_subSums = []\<rparr> =
      \<lparr>tcts_tcp_sums = replicate 4 0, tcts_dataIn = [], tcts_dataOut = [\<lparr>na_data = 0x0807060504030201, na_keep = 0xFF, na_last = False\<rparr>,
        \<lparr>na_data = 0x090A, na_keep = 0x01, na_last = True\<rparr>], tcts_subSums = [ss]\<rparr> \<and>
    finalize_ipv4_checksum ([ss], []) = ([], [rfc1071 [1, 2, 3, 4, 5, 6, 7, 8, 10]]) \<and>
    toe_check_ipv4_checksum ([ss], []) = ([], [False])"
proof -
  let ?ws = "[\<lparr>na_data = 0x0807060504030201, na_keep = 0xFF, na_last = False\<rparr>,
        \<lparr>na_data = 0x090A, na_keep = 0x01, na_last = True\<rparr>] :: (64, 8) axis list"
  have "carries [1, 2, 3, 4, 5, 6, 7, 8, 10] ?ws"
    unfolding carries_def
  proof (intro conjI exI [of _ 7])
    show "concat (map cells ?ws) = map Some [1, 2, 3, 4, 5, 6, 7, 8, 10] @ replicate 7 None" by code_simp
  qed simp_all
  moreover have "rfc1071 [1, 2, 3, 4, 5, 6, 7, 8, 10] \<noteq> 0"
    by (simp add: rfc1071_norm norm_def)
  ultimately show ?thesis
    using checksum_equiv [of "[1, 2, 3, 4, 5, 6, 7, 8, 10]" ?ws
      "\<lparr>tcts_tcp_sums = replicate 4 0, tcts_dataIn = ?ws, tcts_dataOut = [], tcts_subSums = []\<rparr>" "[]" "[]" "[]"]
    by simp
qed

section \<open>The checksum of the IP header\<close>

text \<open>
  The four overloads of \<open>compute_ipv4_checksum\<close>.  \<open>cics_add p\<close> is the loop over the lanes that
  adds those for which \<open>p\<close> holds.
\<close>

record 'a cics_st =
  cics_ip_sums :: "u17 list"
  cics_ipHeaderLen :: u4
  cics_wordCount :: u3
  cics_dataIn :: "'a fifo"
  cics_dataOut :: "'a fifo"
  cics_subSumFiFoOut :: "u17 list fifo"

definition cics_add :: "(nat \<Rightarrow> bool) \<Rightarrow> ('w::len, 'k::len) axis \<Rightarrow> u17 list \<Rightarrow> u17 list" where
  "cics_add p w ss = map (\<lambda>i.
     if p i then lane_add (ss ! i) (ucast (lane16 i (na_data w))) else ss ! i) [0..<length ss]"

text \<open>
  The \<open>default\<close> case of the word counter: with \<open>N\<close> lanes per word, header length 0 is payload,
  lengths 1 to \<open>N/2 - 1\<close> end in this word, and the others take all of it.
\<close>

definition cics_default :: "('w::len, 'k::len) axis \<Rightarrow> ('w, 'k) axis cics_st \<Rightarrow> ('w, 'k) axis cics_st" where
  "cics_default w s =
     (let len = unat (cics_ipHeaderLen s); half = length (cics_ip_sums s) div 2 in
      if len = 0 then s
      else if len < half then
        let s = s\<lparr>cics_ip_sums := cics_add (\<lambda>i. i < 2 * len) w (cics_ip_sums s), cics_ipHeaderLen := 0\<rparr>
        in s\<lparr>cics_subSumFiFoOut := cics_subSumFiFoOut s @ [cics_ip_sums s]\<rparr>
      else
        let s = s\<lparr>cics_ip_sums := cics_add (\<lambda>i. True) w (cics_ip_sums s)\<rparr>;
            s = (if len = half then s\<lparr>cics_subSumFiFoOut := cics_subSumFiFoOut s @ [cics_ip_sums s]\<rparr> else s)
        in s\<lparr>cics_ipHeaderLen := cics_ipHeaderLen s - of_nat half\<rparr>)"

definition cics_word64 :: "bool \<Rightarrow> (64, 8) axis \<Rightarrow> (64, 8) axis cics_st \<Rightarrow> (64, 8) axis cics_st" where
  "cics_word64 skipChecksum w s =
     (if cics_wordCount s = 0 then
        s\<lparr>cics_ip_sums := cics_add (\<lambda>i. True) w (cics_ip_sums s),
          cics_ipHeaderLen := bits 3 0 (na_data w) - 2, cics_wordCount := cics_wordCount s + 1\<rparr>
      else if cics_wordCount s = 1 then
        s\<lparr>cics_ip_sums := cics_add (\<lambda>i. \<not> skipChecksum \<or> i \<noteq> 1) w (cics_ip_sums s),
          cics_ipHeaderLen := cics_ipHeaderLen s - 2, cics_wordCount := cics_wordCount s + 1\<rparr>
      else cics_default w s)"

definition cics_word128 :: "bool \<Rightarrow> (128, 16) axis \<Rightarrow> (128, 16) axis cics_st \<Rightarrow> (128, 16) axis cics_st" where
  "cics_word128 skipChecksum w s =
     (if cics_wordCount s = 0 then
        s\<lparr>cics_ip_sums := cics_add (\<lambda>i. \<not> skipChecksum \<or> i \<noteq> 5) w (cics_ip_sums s),
          cics_ipHeaderLen := bits 3 0 (na_data w) - 4, cics_wordCount := cics_wordCount s + 1\<rparr>
      else cics_default w s)"

definition cics_word256 :: "bool \<Rightarrow> (256, 32) axis \<Rightarrow> (256, 32) axis cics_st \<Rightarrow> (256, 32) axis cics_st" where
  "cics_word256 skipChecksum w s =
     (if cics_wordCount s = 0 then
        let len = bits 3 0 (na_data w) :: u4;
            s = s\<lparr>cics_ip_sums := cics_add (\<lambda>i. (\<not> skipChecksum \<or> i \<noteq> 5) \<and> i div 2 < unat len) w (cics_ip_sums s)\<rparr>;
            s = (if len > 8 then s\<lparr>cics_ipHeaderLen := len - 8\<rparr>
                 else s\<lparr>cics_subSumFiFoOut := cics_subSumFiFoOut s @ [cics_ip_sums s], cics_ipHeaderLen := 0\<rparr>)
        in s\<lparr>cics_wordCount := cics_wordCount s + 1\<rparr>
      else cics_default w s)"

definition cics_cycle :: "(('w::len, 'k::len) axis \<Rightarrow> ('w, 'k) axis cics_st \<Rightarrow> ('w, 'k) axis cics_st) \<Rightarrow>
    ('w, 'k) axis cics_st \<Rightarrow> ('w, 'k) axis cics_st" where
  "cics_cycle word s =
     (case cics_dataIn s of
        w # rest \<Rightarrow>
          let s = word w (s\<lparr>cics_dataIn := rest, cics_dataOut := cics_dataOut s @ [w]\<rparr>)
          in if na_last w
             then s\<lparr>cics_ip_sums := replicate (length (cics_ip_sums s)) 0, cics_wordCount := 0\<rparr>
             else s
      | [] \<Rightarrow> s)"

definition compute_ipv4_checksum_64 :: "bool \<Rightarrow> (64, 8) axis cics_st \<Rightarrow> (64, 8) axis cics_st" where
  "compute_ipv4_checksum_64 skipChecksum = cics_cycle (cics_word64 skipChecksum)"

definition compute_ipv4_checksum_128 :: "bool \<Rightarrow> (128, 16) axis cics_st \<Rightarrow> (128, 16) axis cics_st" where
  "compute_ipv4_checksum_128 skipChecksum = cics_cycle (cics_word128 skipChecksum)"

definition compute_ipv4_checksum_256 :: "bool \<Rightarrow> (256, 32) axis cics_st \<Rightarrow> (256, 32) axis cics_st" where
  "compute_ipv4_checksum_256 skipChecksum = cics_cycle (cics_word256 skipChecksum)"

text \<open>The overload for 512 bits, where the whole header is in the first word.\<close>

record 'a cics512_st =
  c5_ip_sums :: "u17 list"
  c5_ipHeaderLen :: u4
  c5_firstWord :: bool
  c5_dataIn :: "'a fifo"
  c5_dataOut :: "'a fifo"
  c5_subSumFiFoOut :: "u17 list fifo"

definition cics_add_rev :: "(nat \<Rightarrow> bool) \<Rightarrow> ('w::len, 'k::len) axis \<Rightarrow> u17 list \<Rightarrow> u17 list" where
  "cics_add_rev p w ss = map (\<lambda>i.
     if p i then lane_add (ss ! i) (ucast (reverse16 (bits (i * 16 + 15) (i * 16) (na_data w)))) else ss ! i)
     [0..<length ss]"

definition compute_ipv4_checksum_512 :: "bool \<Rightarrow> (512, 64) axis cics512_st \<Rightarrow> (512, 64) axis cics512_st" where
  "compute_ipv4_checksum_512 skipChecksum s =
     (case c5_dataIn s of
        w # rest \<Rightarrow>
          let s = s\<lparr>c5_dataIn := rest, c5_dataOut := c5_dataOut s @ [w]\<rparr>;
              s = (if c5_firstWord s then
                     let len = bits 3 0 (na_data w) :: u4;
                         s = s\<lparr>c5_ipHeaderLen := len,
                               c5_ip_sums := cics_add_rev (\<lambda>i. (\<not> skipChecksum \<or> i \<noteq> 5) \<and> i div 2 < unat len)
                                 w (c5_ip_sums s)\<rparr>
                     in s\<lparr>c5_subSumFiFoOut := c5_subSumFiFoOut s @ [c5_ip_sums s], c5_firstWord := False\<rparr>
                   else s)
          in if na_last w
             then s\<lparr>c5_ip_sums := replicate (length (c5_ip_sums s)) 0, c5_firstWord := True\<rparr>
             else s
      | [] \<Rightarrow> s)"

text \<open>The copies of it for the two other modules have the same text and their own static variables.\<close>

definition mac_compute_ipv4_checksum :: "bool \<Rightarrow> (512, 64) axis cics512_st \<Rightarrow> (512, 64) axis cics512_st" where
  "mac_compute_ipv4_checksum = compute_ipv4_checksum_512"

definition ip_handler_compute_ipv4_checksum :: "bool \<Rightarrow> (512, 64) axis cics512_st \<Rightarrow> (512, 64) axis cics512_st" where
  "ip_handler_compute_ipv4_checksum = compute_ipv4_checksum_512"

section \<open>What the header checksum is\<close>

text \<open>All bytes of the words, kept or not, and the lanes of a word; the header is the first
  \<open>4 * h\<close> bytes.  A sender skips its checksum field, the bytes 10 and 11, which is lane 5.\<close>

definition data_bytes :: "('w::len, 'k::len) axis list \<Rightarrow> u8 list" where
  "data_bytes ws = concat (map (\<lambda>w. map (\<lambda>i. byte i (na_data w)) [0..<LENGTH('k)]) ws)"

definition lanes :: "('w::len, 'k::len) axis \<Rightarrow> nat list" where
  "lanes w = map (\<lambda>i. unat (lane16 i (na_data w))) [0..<LENGTH('k) div 2]"

definition header_words :: "bool \<Rightarrow> nat \<Rightarrow> nat list \<Rightarrow> nat list" where
  "header_words skip h ls = (if skip then (take (2 * h) ls)[5 := 0] else take (2 * h) ls)"

definition ip_header_bytes :: "bool \<Rightarrow> nat \<Rightarrow> ('w::len, 'k::len) axis list \<Rightarrow> u8 list" where
  "ip_header_bytes skip h ws =
     (if skip then (take (4 * h) (data_bytes ws))[10 := 0, 11 := 0] else take (4 * h) (data_bytes ws))"

lemma length_lanes [simp]: "length (lanes (w :: ('w::len, 'k::len) axis)) = LENGTH('k) div 2"
  by (simp add: lanes_def)

lemma be_words_map: "be_words (map f [0..<2 * n]) =
    map (\<lambda>i. 256 * unat (f (2 * i)) + unat (f (2 * i + 1))) [0..<n]"
proof (induction n arbitrary: f)
  case (Suc n)
  have "[0..<2 * Suc n] = 0 # 1 # map (\<lambda>i. Suc (Suc i)) [0..<2 * n]"
    by (simp add: upt_conv_Cons map_Suc_upt del: upt_Suc flip: map_map [unfolded comp_def])
  moreover have "[0..<Suc n] = 0 # map Suc [0..<n]" by (simp add: upt_conv_Cons map_Suc_upt del: upt_Suc)
  ultimately show ?case using Suc.IH [of "\<lambda>i. f (Suc (Suc i))"] by (simp add: comp_def del: upt_Suc)
qed simp

lemma be_words_data: "even (LENGTH('k)) \<Longrightarrow>
    be_words (data_bytes (ws :: ('w::len, 'k::len) axis list)) = concat (map lanes ws)"
proof (induction ws)
  case (Cons w ws)
  then have "be_words (map (\<lambda>i. byte i (na_data w)) [0..<LENGTH('k)]) = lanes w"
    using be_words_map [of "\<lambda>i. byte i (na_data w)" "LENGTH('k) div 2"]
    by (simp add: lanes_def unat_lane16)
  then show ?case using Cons by (simp add: data_bytes_def be_words_append)
qed (simp add: data_bytes_def)

lemma be_words_take: "2 * n \<le> length bs \<Longrightarrow> be_words (take (2 * n) bs) = take n (be_words bs)"
proof (induction n arbitrary: bs)
  case (Suc n)
  then obtain a b r where "bs = a # b # r" by (cases bs; cases "tl bs") auto
  with Suc show ?case by simp
qed simp

lemma be_words_update: "2 * i + 1 < length bs \<Longrightarrow>
    be_words (bs[2 * i := 0, 2 * i + 1 := 0]) = (be_words bs)[i := 0]"
proof (induction i arbitrary: bs)
  case 0
  then obtain a b r where "bs = a # b # r" by (cases bs; cases "tl bs") auto
  then show ?case by simp
next
  case (Suc i)
  then obtain a b r where "bs = a # b # r" by (cases bs; cases "tl bs") auto
  with Suc show ?case by simp
qed

lemma length_data_bytes [simp]: "length (data_bytes (ws :: ('w::len, 'k::len) axis list)) = LENGTH('k) * length ws"
  by (induction ws) (simp_all add: data_bytes_def)

lemma be_words_header:
  fixes ws :: "('w::len, 'k::len) axis list"
  assumes "even (LENGTH('k))" "4 * h \<le> LENGTH('k) * length ws" "3 \<le> h"
  shows "be_words (ip_header_bytes skip h ws) = header_words skip h (concat (map lanes ws))"
proof -
  have t: "be_words (take (4 * h) (data_bytes ws)) = take (2 * h) (concat (map lanes ws))"
    using be_words_take [of "2 * h" "data_bytes ws"] assms(2) be_words_data [OF assms(1), of ws] by simp
  have "be_words ((take (4 * h) (data_bytes ws))[10 := 0, 11 := 0]) =
      (be_words (take (4 * h) (data_bytes ws)))[5 := 0]"
    using be_words_update [of 5 "take (4 * h) (data_bytes ws)"] assms by simp
  then show ?thesis by (simp add: ip_header_bytes_def header_words_def t)
qed

text \<open>What one word adds.\<close>

lemma lane_rev: "reverse16 (bits (i * 16 + 15) (i * 16) d) = lane16 i d"
proof -
  have "bits (i * 16 + 15) (i * 16) d = (put_bits 15 8 (bits (i * 16 + 15) (i * 16 + 8) d :: u8)
      (put_bits 7 0 (bits (i * 16 + 7) (i * 16) d :: u8) 0) :: u16)"
    by (intro bit_word_eqI) (auto simp: bit_put_bits bit_bits)
  then show ?thesis
    by (intro bit_word_eqI) (auto simp: bit_reverse16 lane16_def bit_put_bits bit_bits)
qed

lemma cics_add_rev: "cics_add_rev p w ss = cics_add p w ss"
  by (simp add: cics_add_rev_def cics_add_def lane_rev)

lemma cics_add_total:
  assumes "list_all lane_ok ss"
  shows "norm (total (cics_add p w ss)) =
      norm (total ss + sum_list (map (\<lambda>i. if p i then unat (lane16 i (na_data w)) else 0) [0..<length ss]))"
    "list_all lane_ok (cics_add p w ss)" "length (cics_add p w ss) = length ss"
proof -
  let ?c = "\<lambda>i. if p i then unat (lane16 i (na_data w)) else 0"
  have ok: "lane_ok (ss ! i)" if "i < length ss" for i using assms that by (simp add: list_all_length)
  show len: "length (cics_add p w ss) = length ss" by (simp add: cics_add_def)
  have step: "unat (cics_add p w ss ! i) = norm (unat (ss ! i) + ?c i) \<and> lane_ok (cics_add p w ss ! i)"
    if i: "i < length ss" for i
    using i ok [OF i] lane_ok_u16
    by (auto simp: cics_add_def unat_lane_add lane_ok_add norm_small lane_ok_def [of "ss ! i"])
  then show "list_all lane_ok (cics_add p w ss)" by (simp add: list_all_length len)
  have "total (cics_add p w ss) = sum_list (map (\<lambda>i. norm (unat (ss ! i) + ?c i)) [0..<length ss])"
    unfolding total_nth len by (rule arg_cong [of _ _ sum_list], rule map_cong [OF HOL.refl]) (use step in simp)
  also have "norm \<dots> = norm (sum_list (map (\<lambda>i. unat (ss ! i) + ?c i) [0..<length ss]))"
    by (rule norm_sum)
  finally show "norm (total (cics_add p w ss)) = norm (total ss + sum_list (map ?c [0..<length ss]))"
    by (simp add: total_nth sum_list_addf)
qed

text \<open>The lanes below \<open>n\<close>, without lane \<open>j\<close> if the checksum field is skipped.\<close>

lemma sum_lanes_take:
  "sum_list (map (\<lambda>i. if (\<not> skip \<or> i \<noteq> j) \<and> i < n then unat (lane16 i (na_data w)) else 0)
      [0..<LENGTH('k) div 2]) =
    sum_list (if skip then (take n (lanes (w :: ('w::len, 'k::len) axis)))[j := 0] else take n (lanes w))"
    (is "sum_list (map ?f _) = sum_list ?r")
proof -
  have "map ?f [0..<LENGTH('k) div 2] = ?r @ replicate (LENGTH('k) div 2 - n) 0"
    by (intro nth_equalityI) (auto simp: lanes_def nth_append nth_list_update)
  then show ?thesis by (simp add: sum_list_replicate)
qed

text \<open>The words after the first ones: the header ends in them, or has ended (length 0).\<close>

definition packet_words :: "('w::len, 'k::len) axis list \<Rightarrow> bool" where
  "packet_words ws \<longleftrightarrow> ws \<noteq> [] \<and> (\<forall>w\<in>set (butlast ws). \<not> na_last w) \<and> na_last (List.last ws)"

lemma packet_words_Cons: "packet_words (w # ws) \<longleftrightarrow> (if ws = [] then na_last w else \<not> na_last w \<and> packet_words ws)"
  by (auto simp: packet_words_def)

definition lanes_ok :: "nat \<Rightarrow> u17 list \<Rightarrow> bool" where
  "lanes_ok n ss \<longleftrightarrow> list_all lane_ok ss \<and> length ss = n"

lemma lanes_ok_zero [simp]: "lanes_ok n (replicate n 0)" "total (replicate n 0) = 0"
  by (simp_all add: lanes_ok_def lane_ok_def list_all_length total_def sum_list_replicate)

lemma lanes_ok_add: "lanes_ok n ss \<Longrightarrow> lanes_ok n (cics_add p w ss)"
  by (simp add: lanes_ok_def cics_add_total)

lemma cics_default_word:
  fixes w :: "('w::len, 'k::len) axis"
  assumes k: "4 dvd LENGTH('k)" "LENGTH('k) < 64" and ok: "lanes_ok (LENGTH('k) div 2) (cics_ip_sums s)"
    and r: "unat (cics_ipHeaderLen s) = r"
  shows "r = 0 \<Longrightarrow> cics_default w s = s"
    "0 < r \<Longrightarrow> \<exists>ss l. cics_default w s = s\<lparr>cics_ip_sums := ss, cics_ipHeaderLen := l,
        cics_subSumFiFoOut := cics_subSumFiFoOut s @ (if r \<le> LENGTH('k) div 4 then [ss] else [])\<rparr> \<and>
      lanes_ok (LENGTH('k) div 2) ss \<and> unat l = r - LENGTH('k) div 4 \<and>
      norm (total ss) = norm (total (cics_ip_sums s) + sum_list (take (2 * r) (lanes w)))"
proof -
  show "cics_default w s = s" if "r = 0" using that r by (simp add: cics_default_def)
  let ?h = "LENGTH('k) div 4"
  have h: "length (cics_ip_sums s) div 2 = ?h" "LENGTH('k) div 2 = 2 * ?h"
    using ok k(1) by (auto simp: lanes_ok_def)
  assume "0 < r"
  show "\<exists>ss l. cics_default w s = s\<lparr>cics_ip_sums := ss, cics_ipHeaderLen := l,
        cics_subSumFiFoOut := cics_subSumFiFoOut s @ (if r \<le> ?h then [ss] else [])\<rparr> \<and>
      lanes_ok (LENGTH('k) div 2) ss \<and> unat l = r - ?h \<and>
      norm (total ss) = norm (total (cics_ip_sums s) + sum_list (take (2 * r) (lanes w)))"
  proof (cases "r < ?h")
    case True
    let ?ss = "cics_add (\<lambda>i. i < 2 * r) w (cics_ip_sums s)"
    have "cics_default w s = s\<lparr>cics_ip_sums := ?ss, cics_ipHeaderLen := 0,
        cics_subSumFiFoOut := cics_subSumFiFoOut s @ [?ss]\<rparr>"
      using True r \<open>0 < r\<close> unfolding cics_default_def Let_def h(1) by (cases s) simp
    moreover have "norm (total ?ss) = norm (total (cics_ip_sums s) + sum_list (take (2 * r) (lanes w)))"
      using cics_add_total(1) [of "cics_ip_sums s" "\<lambda>i. i < 2 * r" w] ok True
        sum_lanes_take [where w = w and n = "2 * r" and skip = False] h(2)
      by (simp add: lanes_ok_def)
    ultimately show ?thesis using True ok lanes_ok_add by (intro exI [of _ ?ss] exI [of _ 0]) simp
  next
    case False
    let ?ss = "cics_add (\<lambda>i. True) w (cics_ip_sums s)"
    let ?l = "cics_ipHeaderLen s - of_nat ?h"
    have "cics_default w s = s\<lparr>cics_ip_sums := ?ss, cics_ipHeaderLen := ?l,
        cics_subSumFiFoOut := cics_subSumFiFoOut s @ (if r \<le> ?h then [?ss] else [])\<rparr>"
      using False r \<open>0 < r\<close> unfolding cics_default_def Let_def h(1) by (cases s) (simp add: not_less)
    moreover have "unat ?l = r - ?h" using False r unat_minus_of_nat [of ?h "cics_ipHeaderLen s"] by simp
    moreover have "norm (total ?ss) = norm (total (cics_ip_sums s) + sum_list (take (2 * r) (lanes w)))"
    proof -
      have "LENGTH('k) div 2 \<le> 2 * r" using False h(2) by simp
      moreover have "sum_list (map (\<lambda>i. if True then unat (lane16 i (na_data w)) else 0) [0..<LENGTH('k) div 2])
          = sum_list (lanes w)" by (simp add: lanes_def)
      ultimately show ?thesis
        using cics_add_total(1) [of "cics_ip_sums s" "\<lambda>i. True" w] ok by (simp add: lanes_ok_def)
    qed
    ultimately show ?thesis using ok lanes_ok_add by (intro exI [of _ ?ss] exI [of _ ?l]) simp
  qed
qed

lemma norm_cong_add: "norm a = norm b \<Longrightarrow> norm (a + x) = norm (b + x)"
  using norm_add [of a x] norm_add [of b x] by simp

lemma cics_rest_run:
  fixes ws :: "('w::len, 'k::len) axis list"
  assumes word: "\<And>w s. cics_wordCount s = c \<Longrightarrow> word w s = cics_default w s"
    and k: "4 dvd LENGTH('k)" "LENGTH('k) < 64"
  shows "packet_words ws \<Longrightarrow> lanes_ok (LENGTH('k) div 2) (cics_ip_sums s) \<Longrightarrow> cics_wordCount s = c \<Longrightarrow>
    cics_dataIn s = ws @ rest \<Longrightarrow> unat (cics_ipHeaderLen s) = r \<Longrightarrow> 4 * r \<le> LENGTH('k) * length ws \<Longrightarrow>
    \<exists>ss. (cics_cycle word ^^ length ws) s = s\<lparr>cics_ip_sums := replicate (LENGTH('k) div 2) 0,
        cics_ipHeaderLen := 0, cics_wordCount := 0, cics_dataIn := rest, cics_dataOut := cics_dataOut s @ ws,
        cics_subSumFiFoOut := cics_subSumFiFoOut s @ (if r = 0 then [] else [ss])\<rparr> \<and>
      (0 < r \<longrightarrow> lanes_ok (LENGTH('k) div 2) ss \<and>
        norm (total ss) = norm (total (cics_ip_sums s) + sum_list (take (2 * r) (concat (map lanes ws)))))"
proof (induction ws arbitrary: s r)
  case Nil
  then show ?case by (simp add: packet_words_def)
next
  case (Cons w ws)
  have len: "length (cics_ip_sums s) = LENGTH('k) div 2" using Cons.prems(2) by (simp add: lanes_ok_def)
  let ?h = "LENGTH('k) div 4"
  let ?s = "s\<lparr>cics_dataIn := ws @ rest, cics_dataOut := cics_dataOut s @ [w]\<rparr>"
  have st: "lanes_ok (LENGTH('k) div 2) (cics_ip_sums ?s)" "unat (cics_ipHeaderLen ?s) = r"
    "word w ?s = cics_default w ?s" using Cons.prems word by simp_all
  note d = cics_default_word [OF k st(1,2), of w]
  define r' where "r' = r - ?h"
  obtain ss l where sl: "cics_default w ?s = ?s\<lparr>cics_ip_sums := ss, cics_ipHeaderLen := l,
        cics_subSumFiFoOut := cics_subSumFiFoOut s @ (if 0 < r \<and> r' = 0 then [ss] else [])\<rparr>"
    "lanes_ok (LENGTH('k) div 2) ss" "unat l = r'"
    "norm (total ss) = norm (total (cics_ip_sums s) + sum_list (take (2 * r) (lanes w)))"
  proof (cases "r = 0")
    case True
    show thesis
      by (rule that [of "cics_ip_sums s" "cics_ipHeaderLen s"]) (use True d(1) Cons.prems in \<open>simp_all add: r'_def\<close>)
  next
    case False
    with d(2) obtain ss l where "cics_default w ?s = ?s\<lparr>cics_ip_sums := ss, cics_ipHeaderLen := l,
        cics_subSumFiFoOut := cics_subSumFiFoOut ?s @ (if r \<le> ?h then [ss] else [])\<rparr>"
      "lanes_ok (LENGTH('k) div 2) ss" "unat l = r - ?h"
      "norm (total ss) = norm (total (cics_ip_sums ?s) + sum_list (take (2 * r) (lanes w)))" by auto
    then show thesis using False by (intro that [of ss l]) (simp_all add: r'_def)
  qed
  let ?t = "cics_default w ?s"
  have cyc: "cics_cycle word s = (if na_last w
      then ?t\<lparr>cics_ip_sums := replicate (LENGTH('k) div 2) 0, cics_wordCount := 0\<rparr> else ?t)"
    using Cons.prems(4) st(3) sl(1,2) unfolding cics_cycle_def Let_def by (simp add: lanes_ok_def)
  show ?case
  proof (cases "ws = []")
    case True
    have "r' = 0" using Cons.prems(6) True k(1) by (auto simp: r'_def elim!: dvdE)
    then have "l = 0" using sl(3) by (simp add: unat_eq_zero)
    show ?thesis
      using Cons.prems(1) True sl cyc \<open>r' = 0\<close> \<open>l = 0\<close>
      by (intro exI [of _ ss]) (cases s; simp add: packet_words_Cons)
  next
    case False
    then have last: "\<not> na_last w" "packet_words ws" using Cons.prems(1) by (simp_all add: packet_words_Cons)
    have r': "4 * r' \<le> LENGTH('k) * length ws" using Cons.prems(6) k(1) by (auto simp: r'_def elim!: dvdE)
    from Cons.IH [OF last(2), of ?t r'] sl Cons.prems r' obtain u where u:
      "(cics_cycle word ^^ length ws) ?t = ?t\<lparr>cics_ip_sums := replicate (LENGTH('k) div 2) 0,
        cics_ipHeaderLen := 0, cics_wordCount := 0, cics_dataIn := rest, cics_dataOut := cics_dataOut ?t @ ws,
        cics_subSumFiFoOut := cics_subSumFiFoOut ?t @ (if r' = 0 then [] else [u])\<rparr>"
      "0 < r' \<longrightarrow> lanes_ok (LENGTH('k) div 2) u \<and>
        norm (total u) = norm (total ss + sum_list (take (2 * r') (concat (map lanes ws))))"
      by auto
    have run: "(cics_cycle word ^^ length (w # ws)) s = (cics_cycle word ^^ length ws) ?t"
      using cyc last(1) by (simp add: funpow_Suc_right del: funpow.simps(2))
    have split: "sum_list (take (2 * r) (concat (map lanes (w # ws)))) =
        sum_list (take (2 * r) (lanes w)) + sum_list (take (2 * r') (concat (map lanes ws)))"
    proof -
      have "2 * r - LENGTH('k) div 2 = 2 * r'" using k(1) by (auto simp: r'_def elim!: dvdE)
      then show ?thesis by simp
    qed
    define L where "L = sum_list (take (2 * r) (concat (map lanes (w # ws))))"
    show ?thesis
    proof (cases "r' = 0")
      case True
      then have "L = sum_list (take (2 * r) (lanes w))" using split by (simp add: L_def)
      then show ?thesis
        unfolding L_def [symmetric] using u(1) sl run True by (intro exI [of _ ss]) simp
    next
      case False
      then have "0 < r" by (simp add: r'_def)
      have "norm (total u) = norm (total ss + sum_list (take (2 * r') (concat (map lanes ws))))"
        using u(2) False by simp
      also have "\<dots> = norm (total (cics_ip_sums s) + L)"
        unfolding L_def split add.assoc [symmetric] by (rule norm_cong_add [OF sl(4)])
      finally show ?thesis
        unfolding L_def [symmetric] using False u sl run \<open>0 < r\<close> by (intro exI [of _ u]) simp
    qed
  qed
qed

text \<open>
  A header of \<open>h\<close> 32-bit words, \<open>h\<close> in its first four bits.  After as many cycles as the packet has
  words, every overload has given one set of sums and is ready for the next packet.
\<close>

definition header_len :: "('w::len, 'k::len) axis list \<Rightarrow> nat" where
  "header_len ws = unat (bits 3 0 (na_data (hd ws)) :: u4)"

lemma checksum_of_header:
  fixes ws :: "('w::len, 'k::len) axis list"
  assumes "LENGTH('k) \<in> {8, 16, 32, 64}" "lanes_ok (LENGTH('k) div 2) ss"
    and "norm (total ss) = norm (sum_list (header_words skip h (concat (map lanes ws))))"
    and "3 \<le> h" "4 * h \<le> LENGTH('k) * length ws"
  shows "checksum_of ss = rfc1071 (ip_header_bytes skip h ws)"
proof -
  have "length ss \<in> {4, 8, 16, 32}" "list_all lane_ok ss" using assms(1,2) by (auto simp: lanes_ok_def)
  moreover have "even (LENGTH('k))" using assms(1) by auto
  ultimately show ?thesis
    using assms by (simp add: checksum_of_total rfc1071_norm be_words_header)
qed

lemma sum_list_split_take: "length xs = n \<Longrightarrow> n \<le> m \<Longrightarrow>
    take m (xs @ ys) = xs @ take (m - n) ys"
  by simp

lemma cics_add_skip:
  fixes w :: "('w::len, 'k::len) axis"
  assumes "lanes_ok (LENGTH('k) div 2) ss"
  shows "norm (total (cics_add (\<lambda>i. \<not> skip \<or> i \<noteq> j) w ss)) =
    norm (total ss + sum_list (if skip then (lanes w)[j := 0] else lanes w))"
proof -
  have "map (\<lambda>i. if \<not> skip \<or> i \<noteq> j then unat (lane16 i (na_data w)) else 0) [0..<LENGTH('k) div 2] =
      (if skip then (lanes w)[j := 0] else lanes w)"
    by (intro nth_equalityI) (auto simp: lanes_def nth_list_update)
  then show ?thesis using assms cics_add_total(1) [of ss "\<lambda>i. \<not> skip \<or> i \<noteq> j" w] by (simp add: lanes_ok_def)
qed

lemma compute_64_packet:
  assumes "packet_words ws" "cics_ip_sums s = replicate 4 0" "cics_wordCount s = 0" "cics_dataIn s = ws @ rest"
    and h: "h = header_len ws" "5 \<le> h" "4 * h \<le> 8 * length ws"
  shows "\<exists>ss. (compute_ipv4_checksum_64 skip ^^ length ws) s = s\<lparr>cics_ipHeaderLen := 0, cics_dataIn := rest,
      cics_dataOut := cics_dataOut s @ ws, cics_subSumFiFoOut := cics_subSumFiFoOut s @ [ss]\<rparr> \<and>
    checksum_of ss = rfc1071 (ip_header_bytes skip h ws)"
proof -
  have "length ws \<ge> 3" using h by linarith
  then obtain w0 w1 vs where ws: "ws = w0 # w1 # vs" "vs \<noteq> []"
    by (cases ws; cases "tl ws"; cases "tl (tl ws)") auto
  have nl: "\<not> na_last w0" "\<not> na_last w1" "packet_words vs"
    using assms(1) ws by (simp_all add: packet_words_Cons)
  define s1 where "s1 = cics_add (\<lambda>i. True) w0 (replicate 4 0)"
  define s2 where "s2 = cics_add (\<lambda>i. \<not> skip \<or> i \<noteq> 1) w1 s1"
  let ?t = "s\<lparr>cics_ip_sums := s2, cics_ipHeaderLen := bits 3 0 (na_data w0) - 2 - 2, cics_wordCount := 2,
    cics_dataIn := vs @ rest, cics_dataOut := cics_dataOut s @ [w0, w1]\<rparr>"
  have run: "(compute_ipv4_checksum_64 skip ^^ length ws) s = (compute_ipv4_checksum_64 skip ^^ length vs) ?t"
    using assms(2-4) nl by (cases s)
      (simp add: ws funpow_Suc_right compute_ipv4_checksum_64_def cics_cycle_def cics_word64_def Let_def s1_def s2_def
        del: funpow.simps(2))
  have word: "cics_wordCount u = 2 \<Longrightarrow> cics_word64 skip w u = cics_default w u" for w u
    by (simp add: cics_word64_def)
  have len: "unat (cics_ipHeaderLen ?t) = h - 4"
    using unat_minus_of_nat [of 4 "bits 3 0 (na_data w0) :: u4"] h(1,2)
    by (simp add: header_len_def ws diff_diff_eq)
  have ok: "lanes_ok 4 s1" "lanes_ok 4 s2" by (simp_all add: s1_def s2_def lanes_ok_add)
  have t1: "norm (total s1) = norm (sum_list (lanes w0))"
    using cics_add_total(1) [of "replicate 4 0" "\<lambda>i. True" w0] lanes_ok_zero(1) [of 4]
    by (simp add: s1_def lanes_ok_def lanes_def)
  have t2: "norm (total s2) = norm (sum_list (lanes w0) + sum_list (if skip then (lanes w1)[1 := 0] else lanes w1))"
  proof -
    have "norm (total s2) = norm (total s1 + sum_list (if skip then (lanes w1)[1 := 0] else lanes w1))"
      unfolding s2_def by (rule cics_add_skip) (use ok(1) in simp)
    then show ?thesis using norm_cong_add [OF t1] by simp
  qed
  have le: "4 * (h - 4) \<le> 8 * length vs" "0 < h - 4" using h(2,3) by (simp_all add: ws)
  from cics_rest_run [of 2 "cics_word64 skip", OF word, of vs ?t rest "h - 4"] nl(3) ok(2) len le
  obtain ss where ss: "(compute_ipv4_checksum_64 skip ^^ length vs) ?t =
      ?t\<lparr>cics_ip_sums := replicate 4 0, cics_ipHeaderLen := 0, cics_wordCount := 0, cics_dataIn := rest,
        cics_dataOut := cics_dataOut ?t @ vs, cics_subSumFiFoOut := cics_subSumFiFoOut s @ [ss]\<rparr>"
    "lanes_ok 4 ss" "norm (total ss) = norm (total s2 + sum_list (take (2 * (h - 4)) (concat (map lanes vs))))"
    by (auto simp: compute_ipv4_checksum_64_def)
  have "header_words skip h (concat (map lanes ws)) =
      lanes w0 @ (if skip then (lanes w1)[1 := 0] else lanes w1) @ take (2 * (h - 4)) (concat (map lanes vs))"
    using h(2) by (simp add: header_words_def ws list_update_append diff_mult_distrib2)
  then have "norm (total ss) = norm (sum_list (header_words skip h (concat (map lanes ws))))"
    using ss(3) norm_cong_add [OF t2] by (simp add: add.assoc)
  then have "checksum_of ss = rfc1071 (ip_header_bytes skip h ws)"
    using checksum_of_header [of ss skip h ws] ss(2) h by simp
  then show ?thesis
    using run ss(1) assms(2,3) by (intro exI [of _ ss]) (cases s; simp add: ws)
qed

lemma compute_128_packet:
  assumes "packet_words ws" "cics_ip_sums s = replicate 8 0" "cics_wordCount s = 0" "cics_dataIn s = ws @ rest"
    and h: "h = header_len ws" "5 \<le> h" "4 * h \<le> 16 * length ws"
  shows "\<exists>ss. (compute_ipv4_checksum_128 skip ^^ length ws) s = s\<lparr>cics_ipHeaderLen := 0, cics_dataIn := rest,
      cics_dataOut := cics_dataOut s @ ws, cics_subSumFiFoOut := cics_subSumFiFoOut s @ [ss]\<rparr> \<and>
    checksum_of ss = rfc1071 (ip_header_bytes skip h ws)"
proof -
  have "length ws \<ge> 2" using h by linarith
  then obtain w0 vs where ws: "ws = w0 # vs" "vs \<noteq> []"
    by (cases ws; cases "tl ws") auto
  have nl: "\<not> na_last w0" "packet_words vs"
    using assms(1) ws by (simp_all add: packet_words_Cons)
  define s1 where "s1 = cics_add (\<lambda>i. \<not> skip \<or> i \<noteq> 5) w0 (replicate 8 0)"
  let ?t = "s\<lparr>cics_ip_sums := s1, cics_ipHeaderLen := bits 3 0 (na_data w0) - 4, cics_wordCount := 1,
    cics_dataIn := vs @ rest, cics_dataOut := cics_dataOut s @ [w0]\<rparr>"
  have run: "(compute_ipv4_checksum_128 skip ^^ length ws) s = (compute_ipv4_checksum_128 skip ^^ length vs) ?t"
    using assms(2-4) nl by (cases s)
      (simp add: ws funpow_Suc_right compute_ipv4_checksum_128_def cics_cycle_def cics_word128_def Let_def s1_def
        del: funpow.simps(2))
  have word: "cics_wordCount u = 1 \<Longrightarrow> cics_word128 skip w u = cics_default w u" for w u
    by (simp add: cics_word128_def)
  have len: "unat (cics_ipHeaderLen ?t) = h - 4"
    using unat_minus_of_nat [of 4 "bits 3 0 (na_data w0) :: u4"] h(1,2) by (simp add: header_len_def ws)
  have ok: "lanes_ok 8 s1" by (simp add: s1_def lanes_ok_add)
  have t1: "norm (total s1) = norm (sum_list (if skip then (lanes w0)[5 := 0] else lanes w0))"
    using cics_add_skip [of "replicate 8 0" skip 5 w0] by (simp add: s1_def)
  have le: "4 * (h - 4) \<le> 16 * length vs" "0 < h - 4" using h(2,3) by (simp_all add: ws)
  from cics_rest_run [of 1 "cics_word128 skip", OF word, of vs ?t rest "h - 4"] nl(2) ok len le
  obtain ss where ss: "(compute_ipv4_checksum_128 skip ^^ length vs) ?t =
      ?t\<lparr>cics_ip_sums := replicate 8 0, cics_ipHeaderLen := 0, cics_wordCount := 0, cics_dataIn := rest,
        cics_dataOut := cics_dataOut ?t @ vs, cics_subSumFiFoOut := cics_subSumFiFoOut s @ [ss]\<rparr>"
    "lanes_ok 8 ss" "norm (total ss) = norm (total s1 + sum_list (take (2 * (h - 4)) (concat (map lanes vs))))"
    by (auto simp: compute_ipv4_checksum_128_def)
  have "header_words skip h (concat (map lanes ws)) =
      (if skip then (lanes w0)[5 := 0] else lanes w0) @ take (2 * (h - 4)) (concat (map lanes vs))"
    using h(2) by (simp add: header_words_def ws list_update_append diff_mult_distrib2)
  then have "norm (total ss) = norm (sum_list (header_words skip h (concat (map lanes ws))))"
    using ss(3) norm_cong_add [OF t1] by (simp add: add.assoc)
  then have "checksum_of ss = rfc1071 (ip_header_bytes skip h ws)"
    using checksum_of_header [of ss skip h ws] ss(2) h by simp
  then show ?thesis
    using run ss(1) assms(2,3) by (intro exI [of _ ss]) (cases s; simp add: ws)
qed

lemma compute_256_packet:
  assumes "packet_words ws" "cics_ip_sums s = replicate 16 0" "cics_wordCount s = 0" "cics_dataIn s = ws @ rest"
    and h: "h = header_len ws" "5 \<le> h" "4 * h \<le> 32 * length ws"
  shows "\<exists>ss. (compute_ipv4_checksum_256 skip ^^ length ws) s = s\<lparr>cics_ipHeaderLen := 0, cics_dataIn := rest,
      cics_dataOut := cics_dataOut s @ ws, cics_subSumFiFoOut := cics_subSumFiFoOut s @ [ss]\<rparr> \<and>
    checksum_of ss = rfc1071 (ip_header_bytes skip h ws)"
proof -
  obtain w0 vs where ws: "ws = w0 # vs" using h by (cases ws) auto
  define s1 where "s1 = cics_add (\<lambda>i. (\<not> skip \<or> i \<noteq> 5) \<and> i div 2 < h) w0 (replicate 16 0)"
  let ?out = "cics_subSumFiFoOut s @ (if h \<le> 8 then [s1] else [])"
  let ?t = "s\<lparr>cics_ip_sums := s1, cics_ipHeaderLen := if h \<le> 8 then 0 else bits 3 0 (na_data w0) - 8, cics_wordCount := 1,
    cics_dataIn := vs @ rest, cics_dataOut := cics_dataOut s @ [w0], cics_subSumFiFoOut := ?out\<rparr>"
  have h8: "(bits 3 0 (na_data w0) :: u4) > 8 \<longleftrightarrow> \<not> h \<le> 8" by (simp add: h(1) header_len_def ws word_less_nat_alt not_le)
  have hb: "unat (bits 3 0 (na_data w0) :: u4) = h" by (simp add: h(1) header_len_def ws)
  have w: "cics_word256 skip w0 (s\<lparr>cics_dataIn := vs @ rest, cics_dataOut := cics_dataOut s @ [w0]\<rparr>) = ?t"
    using assms(2,3) by (cases s) (simp add: cics_word256_def Let_def s1_def h8 hb)
  have word: "cics_wordCount u = 1 \<Longrightarrow> cics_word256 skip w u = cics_default w u" for w u
    by (simp add: cics_word256_def)
  have len: "unat (cics_ipHeaderLen ?t) = h - 8"
    using unat_minus_of_nat [of 8 "bits 3 0 (na_data w0) :: u4"] h(1) by (simp add: header_len_def ws)
  have ok: "lanes_ok 16 s1" by (simp add: s1_def lanes_ok_add)
  have t1: "norm (total s1) = norm (sum_list (if skip then (take (2 * h) (lanes w0))[5 := 0] else take (2 * h) (lanes w0)))"
  proof -
    have n: "i div 2 < h \<longleftrightarrow> i < 2 * h" for i by auto
    then show ?thesis
      using cics_add_total(1) [of "replicate 16 0" "\<lambda>i. (\<not> skip \<or> i \<noteq> 5) \<and> i div 2 < h" w0] lanes_ok_zero(1) [of 16]
        sum_lanes_take [where n = "2 * h" and skip = skip and j = 5 and w = w0]
      by (simp add: s1_def lanes_ok_def n)
  qed
  have hw: "header_words skip h (concat (map lanes ws)) =
      (if skip then (take (2 * h) (lanes w0))[5 := 0] else take (2 * h) (lanes w0)) @
        take (2 * (h - 8)) (concat (map lanes vs))"
    using h(2) by (simp add: header_words_def ws list_update_append diff_mult_distrib2)
  show ?thesis
  proof (cases "vs = []")
    case True
    then have "na_last w0" "h \<le> 8" using assms(1) h(3) by (simp_all add: ws packet_words_Cons)
    moreover from this have "compute_ipv4_checksum_256 skip s = s\<lparr>cics_ipHeaderLen := 0, cics_dataIn := rest,
        cics_dataOut := cics_dataOut s @ ws, cics_subSumFiFoOut := cics_subSumFiFoOut s @ [s1]\<rparr>"
      using w assms(2-4) ws True ok unfolding compute_ipv4_checksum_256_def cics_cycle_def Let_def
      by (cases s) (simp add: lanes_ok_def)
    moreover have "checksum_of s1 = rfc1071 (ip_header_bytes skip h ws)"
      using checksum_of_header [of s1 skip h ws] ok t1 h hw \<open>h \<le> 8\<close> by simp
    ultimately show ?thesis using True ws by (intro exI [of _ s1]) simp
  next
    case False
    then have nl: "\<not> na_last w0" "packet_words vs" using assms(1) by (simp_all add: ws packet_words_Cons)
    have run: "(compute_ipv4_checksum_256 skip ^^ length ws) s = (compute_ipv4_checksum_256 skip ^^ length vs) ?t"
      using assms(4) nl w unfolding compute_ipv4_checksum_256_def
      by (simp add: ws funpow_Suc_right cics_cycle_def Let_def del: funpow.simps(2))
    have le: "4 * (h - 8) \<le> 32 * length vs" using h(3) by (simp add: ws)
    from cics_rest_run [of 1 "cics_word256 skip", OF word, of vs ?t rest "h - 8"] nl(2) ok len le
    obtain u where u: "(compute_ipv4_checksum_256 skip ^^ length vs) ?t =
        ?t\<lparr>cics_ip_sums := replicate 16 0, cics_ipHeaderLen := 0, cics_wordCount := 0, cics_dataIn := rest,
          cics_dataOut := cics_dataOut ?t @ vs, cics_subSumFiFoOut := ?out @ (if h - 8 = 0 then [] else [u])\<rparr>"
      "0 < h - 8 \<longrightarrow> lanes_ok 16 u \<and> norm (total u) = norm (total s1 + sum_list (take (2 * (h - 8)) (concat (map lanes vs))))"
      by (auto simp: compute_ipv4_checksum_256_def)
    define ss where "ss = (if h \<le> 8 then s1 else u)"
    have "lanes_ok 16 ss" using ok u(2) by (simp add: ss_def)
    moreover have "norm (total ss) = norm (sum_list (header_words skip h (concat (map lanes ws))))"
      using u(2) t1 norm_cong_add [OF t1] by (auto simp: ss_def hw)
    ultimately have "checksum_of ss = rfc1071 (ip_header_bytes skip h ws)"
      using checksum_of_header [of ss skip h ws] h by simp
    then show ?thesis
      using run u(1) assms(2,3) by (intro exI [of _ ss]) (cases s; simp add: ws ss_def)
  qed
qed

lemma compute_512_packet:
  assumes "packet_words ws" "c5_ip_sums s = replicate 32 0" "c5_firstWord s" "c5_dataIn s = ws @ rest"
    and h: "h = header_len ws" "3 \<le> h"
  shows "\<exists>ss. (compute_ipv4_checksum_512 skip ^^ length ws) s = s\<lparr>c5_ipHeaderLen := bits 3 0 (na_data (hd ws)),
      c5_dataIn := rest, c5_dataOut := c5_dataOut s @ ws, c5_subSumFiFoOut := c5_subSumFiFoOut s @ [ss]\<rparr> \<and>
    checksum_of ss = rfc1071 (ip_header_bytes skip h ws)"
proof -
  obtain w0 vs where ws: "ws = w0 # vs" using assms(1) by (cases ws) (auto simp: packet_words_def)
  define s1 where "s1 = cics_add (\<lambda>i. (\<not> skip \<or> i \<noteq> 5) \<and> i div 2 < h) w0 (replicate 32 0)"
  have ok: "lanes_ok 32 s1" by (simp add: s1_def lanes_ok_add)
  have h15: "h \<le> 15" using unat_less [of "bits 3 0 (na_data w0) :: u4"] by (simp add: h(1) header_len_def ws)
  have t1: "norm (total s1) = norm (sum_list (header_words skip h (concat (map lanes ws))))"
  proof -
    have n: "i div 2 < h \<longleftrightarrow> i < 2 * h" for i by auto
    have "header_words skip h (concat (map lanes ws)) =
        (if skip then (take (2 * h) (lanes w0))[5 := 0] else take (2 * h) (lanes w0))"
      using h15 by (simp add: header_words_def ws)
    then show ?thesis
      using cics_add_total(1) [of "replicate 32 0" "\<lambda>i. (\<not> skip \<or> i \<noteq> 5) \<and> i div 2 < h" w0] lanes_ok_zero(1) [of 32]
        sum_lanes_take [where n = "2 * h" and skip = skip and j = 5 and w = w0] h15
      by (simp add: s1_def lanes_ok_def n)
  qed
  define t where "t = s\<lparr>c5_ip_sums := s1, c5_ipHeaderLen := bits 3 0 (na_data w0), c5_firstWord := False,
      c5_dataIn := vs @ rest, c5_dataOut := c5_dataOut s @ [w0], c5_subSumFiFoOut := c5_subSumFiFoOut s @ [s1]\<rparr>"
  have one: "compute_ipv4_checksum_512 skip s =
      (if na_last w0 then t\<lparr>c5_ip_sums := replicate 32 0, c5_firstWord := True\<rparr> else t)"
    using assms(2-4) ok h(1) by (cases s)
      (simp add: compute_ipv4_checksum_512_def Let_def ws t_def s1_def cics_add_rev header_len_def lanes_ok_def)
  have more_words: "packet_words vs \<Longrightarrow> \<not> c5_firstWord u \<Longrightarrow> length (c5_ip_sums u) = 32 \<Longrightarrow> c5_dataIn u = vs @ rest \<Longrightarrow>
      (compute_ipv4_checksum_512 skip ^^ length vs) u = u\<lparr>c5_ip_sums := replicate 32 0, c5_firstWord := True,
        c5_dataIn := rest, c5_dataOut := c5_dataOut u @ vs\<rparr>" for u vs
  proof (induction vs arbitrary: u)
    case (Cons v vs)
    then have "compute_ipv4_checksum_512 skip u = (let u = u\<lparr>c5_dataIn := vs @ rest, c5_dataOut := c5_dataOut u @ [v]\<rparr>
        in if na_last v then u\<lparr>c5_ip_sums := replicate 32 0, c5_firstWord := True\<rparr> else u)"
      by (cases u) (simp add: compute_ipv4_checksum_512_def Let_def)
    then show ?case using Cons by (cases u; cases "vs = []")
        (simp_all add: packet_words_Cons funpow_Suc_right del: funpow.simps(2))
  qed (simp add: packet_words_def)
  have "(compute_ipv4_checksum_512 skip ^^ length ws) s = t\<lparr>c5_ip_sums := replicate 32 0, c5_firstWord := True,
      c5_dataIn := rest, c5_dataOut := c5_dataOut s @ ws\<rparr>"
    using one more_words [of vs t] assms(1) ok
    by (cases "vs = []") (simp_all add: ws packet_words_Cons funpow_Suc_right t_def lanes_ok_def del: funpow.simps(2))
  moreover have "checksum_of s1 = rfc1071 (ip_header_bytes skip h ws)"
    using checksum_of_header [of s1 skip h ws] ok t1 h h15 by (simp add: ws)
  ultimately show ?thesis
    using assms(2,3) by (intro exI [of _ s1]) (cases s; simp add: ws t_def)
qed

text \<open>
  A sender leaves its field out of the sum and puts the checksum there, most significant byte first.
  With the checksum in place the sum is 0.
\<close>

lemma rfc1071_inserted:
  assumes "bs ! 10 = (bits 15 8 c :: u8)" "bs ! 11 = (bits 7 0 c :: u8)" "12 \<le> length bs"
    and "c = rfc1071 (bs[10 := 0, 11 := 0])"
  shows "rfc1071 bs = 0"
proof -
  let ?ws = "be_words (bs[10 := 0, 11 := 0])"
  have u: "be_words bs = ?ws[5 := unat c]" "length ?ws > 5" "?ws ! 5 = 0"
  proof -
    have bs: "bs = take 10 bs @ bs ! 10 # bs ! 11 # drop 12 bs"
      using assms(3) id_take_nth_drop [of 10 bs] Cons_nth_drop_Suc [of 11 bs] by simp
    have "length (take 10 bs) = 10" using assms(3) by simp
    then have bs0: "bs[10 := 0, 11 := 0] = take 10 bs @ 0 # 0 # drop 12 bs"
      by (subst bs) (simp add: list_update_append)
    have "map ((!) bs) [0..<2 * 5] = take 10 bs"
      using assms(3) by (intro nth_equalityI) simp_all
    then have "length (be_words (take 10 bs)) = 5" using be_words_map [of "(!) bs" 5] by simp
    moreover have "256 * unat (bs ! 10) + unat (bs ! 11) = unat c"
    proof -
      have "c = put_bits 15 8 (bs ! 10) (put_bits 7 0 (bs ! 11) 0)"
        using assms(1,2) by (intro bit_word_eqI) (auto simp: bit_put_bits bit_bits)
      then show ?thesis by (simp add: unat_pair)
    qed
    moreover have "be_words bs = be_words (take 10 bs) @ (256 * unat (bs ! 10) + unat (bs ! 11)) # be_words (drop 12 bs)"
      by (subst bs, subst be_words_append) (use assms(3) in simp_all)
    moreover have "?ws = be_words (take 10 bs) @ 0 # be_words (drop 12 bs)"
      unfolding bs0 by (subst be_words_append) (use assms(3) in simp_all)
    ultimately show "be_words bs = ?ws[5 := unat c]" "length ?ws > 5" "?ws ! 5 = 0"
      by (simp_all add: list_update_append nth_append)
  qed
  define S where "S = sum_list ?ws"
  have "sum_list (be_words bs) = S + unat c"
    using u by (simp add: sum_list_update S_def)
  moreover have c: "unat c = 65535 - norm S"
  proof -
    have "unat c = 65535 - unat (of_nat (norm S) :: u16)"
      using assms(4) by (simp add: rfc1071_norm unat_not S_def)
    moreover have "unat (of_nat (norm S) :: u16) = norm S"
      using norm_le [of S] by (intro unat_of_nat_eq) simp
    ultimately show ?thesis by simp
  qed
  moreover have "norm (S + (65535 - norm S)) = 65535"
  proof -
    have "norm (S + (65535 - norm S)) = norm (norm S + (65535 - norm S))" by (rule norm_cong_add) simp
    also have "norm S + (65535 - norm S) = 65535" using norm_le [of S] by simp
    finally show ?thesis by (simp add: norm_small)
  qed
  ultimately show ?thesis by (simp add: rfc1071_norm)
qed

end
