(* ===== verification/Rx_Engine.thy ===== *)
theory Rx_Engine
  imports Sar_Tables State_Table Axi_Utils
begin

text \<open>
  The control part of \<open>rx_engine/rx_engine.cpp\<close>: the metadata handler, which looks a segment up,
  the TCP state machine \<open>rxTcpFSM\<close>, the packet dropper that follows their decisions, and the
  small processes around them.  \<open>e\<close> holds what the build and the environment decide: \<open>RX_DDR_BYPASS\<close>
  (on in the default build), \<open>MSS\<close>, the two counters of the receive buffer, and the indeterminate
  objects of constructors and locals that leave members unset.
\<close>

section \<open>Types\<close>

record rxEngineMetaData =
  rm_seqNumb :: u32
  rm_ackNumb :: u32
  rm_winSize :: u16
  rm_winScale :: u4
  rm_length :: u16
  rm_ack :: bool
  rm_rst :: bool
  rm_syn :: bool
  rm_fin :: bool
  rm_dataOffset :: u4

record rxFsmMetaData =
  fm_sessionID :: u16
  fm_srcIpAddress :: u32
  fm_dstIpPort :: u16
  fm_meta :: rxEngineMetaData
  fm_srcIpPort :: u16

definition WINDOW_SCALE_BITS :: u4 where "WINDOW_SCALE_BITS = 2"

definition CONGESTION_WINDOW_MAX :: nat where "CONGESTION_WINDOW_MAX = BUFFER_SIZE - 2048"

definition appNotification_mk :: "u16 \<Rightarrow> u16 \<Rightarrow> u32 \<Rightarrow> u16 \<Rightarrow> bool \<Rightarrow> appNotification" where
  "appNotification_mk i len addr port c =
     \<lparr>an_sessionID = i, an_length = len, an_ipAddress = addr, an_dstPort = port, an_closed = c\<rparr>"

definition rxTxSarQuery_read :: "u4 \<Rightarrow> u16 \<Rightarrow> rxTxSarQuery" where
  "rxTxSarQuery_read u i =
     \<lparr>rtq_sessionID = i, rtq_ackd = 0, rtq_recv_window = 0, rtq_cong_window = 0, rtq_count = 0,
      rtq_fastRetransmitted = False, rtq_win_shift = u, rtq_write = False, rtq_init = False\<rparr>"

definition rxTxSarQuery_upd :: "u4 \<Rightarrow> u16 \<Rightarrow> u32 \<Rightarrow> u16 \<Rightarrow> u18 \<Rightarrow> u2 \<Rightarrow> bool \<Rightarrow> rxTxSarQuery" where
  "rxTxSarQuery_upd u i ackd win cong cnt fr =
     \<lparr>rtq_sessionID = i, rtq_ackd = ackd, rtq_recv_window = win, rtq_cong_window = cong, rtq_count = cnt,
      rtq_fastRetransmitted = fr, rtq_win_shift = u, rtq_write = True, rtq_init = False\<rparr>"

definition rxTxSarQuery_init :: "u16 \<Rightarrow> u32 \<Rightarrow> u16 \<Rightarrow> u18 \<Rightarrow> u2 \<Rightarrow> bool \<Rightarrow> u4 \<Rightarrow> rxTxSarQuery" where
  "rxTxSarQuery_init i ackd win cong cnt fr ws =
     \<lparr>rtq_sessionID = i, rtq_ackd = ackd, rtq_recv_window = win, rtq_cong_window = cong, rtq_count = cnt,
      rtq_fastRetransmitted = fr, rtq_win_shift = ws, rtq_write = True, rtq_init = True\<rparr>"

section \<open>The metadata handler\<close>

datatype mhStateType = MH_META | MH_LOOKUP

record mh_st =
  mh_state :: mhStateType
  mh_meta :: rxEngineMetaData
  mh_srcIpAddress :: u32
  mh_dstIpPort :: u16
  mh_srcIpPort :: u16
  mh_metaDataFifoIn :: "rxEngineMetaData fifo"
  mh_sLookup_rsp :: "sessionLookupReply fifo"
  mh_portTable_rsp :: "bool fifo"
  mh_tupleBufferIn :: "fourTuple fifo"
  mh_sLookup_req :: "sessionLookupQuery fifo"
  mh_event :: "extendedEvent fifo"
  mh_drop :: "bool fifo"
  mh_fsmMetaDataFifo :: "rxFsmMetaData fifo"

definition switchedTuple :: "fourTuple \<Rightarrow> fourTuple" where
  "switchedTuple t = \<lparr>srcIp = dstIp t, dstIp = srcIp t, srcPort = dstPort t, dstPort = srcPort t\<rparr>"

definition mh_rst :: "rxEngineMetaData \<Rightarrow> fourTuple \<Rightarrow> extendedEvent" where
  "mh_rst m t = extendedEvent_of (switchedTuple t)
     (if rm_syn m \<or> rm_fin m then rstEvent 0 (rm_seqNumb m + ucast (rm_length m) + 1) False
      else rstEvent 0 (rm_seqNumb m + ucast (rm_length m)) False)"

definition rxMetadataHandler :: "mh_st \<Rightarrow> mh_st" where
  "rxMetadataHandler s =
     (case mh_state s of
        MH_META \<Rightarrow>
          if mh_metaDataFifoIn s \<noteq> [] \<and> mh_portTable_rsp s \<noteq> [] \<and> mh_tupleBufferIn s \<noteq> [] then
            let m = hd (mh_metaDataFifoIn s); portIsOpen = hd (mh_portTable_rsp s); tuple = hd (mh_tupleBufferIn s);
                s = s\<lparr>mh_metaDataFifoIn := tl (mh_metaDataFifoIn s), mh_portTable_rsp := tl (mh_portTable_rsp s),
                      mh_tupleBufferIn := tl (mh_tupleBufferIn s), mh_meta := m,
                      mh_srcIpAddress := reverse32 (srcIp tuple), mh_dstIpPort := reverse16 (dstPort tuple),
                      mh_srcIpPort := reverse16 (srcPort tuple)\<rparr>
            in if \<not> portIsOpen then
                 let s = (if \<not> rm_rst m then s\<lparr>mh_event := mh_event s @ [mh_rst m tuple]\<rparr> else s)
                 in if rm_length m \<noteq> 0 then s\<lparr>mh_drop := mh_drop s @ [True]\<rparr> else s
               else s\<lparr>mh_sLookup_req := mh_sLookup_req s @
                        [\<lparr>slq_tuple = tuple, slq_allowCreation = rm_syn m \<and> \<not> rm_rst m \<and> \<not> rm_fin m\<rparr>],
                      mh_state := MH_LOOKUP\<rparr>
          else s
      | MH_LOOKUP \<Rightarrow>
          (case mh_sLookup_rsp s of
             lup # rest \<Rightarrow>
               let s = s\<lparr>mh_sLookup_rsp := rest\<rparr>;
                   s = (if slr_hit lup
                        then s\<lparr>mh_fsmMetaDataFifo := mh_fsmMetaDataFifo s @
                               [\<lparr>fm_sessionID = slr_sessionID lup, fm_srcIpAddress = mh_srcIpAddress s,
                                 fm_dstIpPort = mh_dstIpPort s, fm_meta = mh_meta s, fm_srcIpPort = mh_srcIpPort s\<rparr>]\<rparr>
                        else s);
                   s = (if rm_length (mh_meta s) \<noteq> 0 then s\<lparr>mh_drop := mh_drop s @ [\<not> slr_hit lup]\<rparr> else s)
               in s\<lparr>mh_state := MH_META\<rparr>
           | [] \<Rightarrow> s))"

section \<open>The state machine\<close>

datatype fsmStateType = FSM_LOAD | FSM_TRANSITION

record rxfsm_env =
  fe_bypass :: bool
  fe_MSS :: u16
  fe_data_count :: u16
  fe_max_data_count :: u16
  fe_recvd :: rxSarRecvd
  fe_shift :: u4
  fe_txSar :: rxTxSarReply

record rxfsm_st =
  rf_state :: fsmStateType
  rf_meta :: rxFsmMetaData
  rf_txSarRequest :: bool
  rf_fsmMetaDataFifo :: "rxFsmMetaData fifo"
  rf_stateTable_rsp :: "sessionState fifo"
  rf_rxSar_rsp :: "rxSarEntry fifo"
  rf_txSar_rsp :: "rxTxSarReply fifo"
  rf_stateTable_req :: "stateQuery fifo"
  rf_rxSar_req :: "rxSarRecvd fifo"
  rf_txSar_req :: "rxTxSarQuery fifo"
  rf_clearRetransmitTimer :: "rxRetransmitTimerUpdate fifo"
  rf_clearProbeTimer :: "u16 fifo"
  rf_setCloseTimer :: "u16 fifo"
  rf_openConStatus :: "openStatus fifo"
  rf_event :: "event fifo"
  rf_drop :: "bool fifo"
  rf_bufferWriteCmd :: "mmCmd fifo"
  rf_notification :: "appNotification fifo"

text \<open>\<open>stream.write(x)\<close> for each output, and the constructors with the session of the segment.\<close>

definition set_state :: "sessionState \<Rightarrow> rxfsm_st \<Rightarrow> rxfsm_st" where
  "set_state t s = s\<lparr>rf_stateTable_req := rf_stateTable_req s @ [stateQuery_write (fm_sessionID (rf_meta s)) t]\<rparr>"

definition set_event :: "event \<Rightarrow> rxfsm_st \<Rightarrow> rxfsm_st" where
  "set_event e s = s\<lparr>rf_event := rf_event s @ [e]\<rparr>"

definition set_rxSar :: "rxSarRecvd \<Rightarrow> rxfsm_st \<Rightarrow> rxfsm_st" where
  "set_rxSar q s = s\<lparr>rf_rxSar_req := rf_rxSar_req s @ [q]\<rparr>"

definition set_txSar :: "rxTxSarQuery \<Rightarrow> rxfsm_st \<Rightarrow> rxfsm_st" where
  "set_txSar q s = s\<lparr>rf_txSar_req := rf_txSar_req s @ [q]\<rparr>"

definition set_drop :: "bool \<Rightarrow> rxfsm_st \<Rightarrow> rxfsm_st" where
  "set_drop d s = s\<lparr>rf_drop := rf_drop s @ [d]\<rparr>"

definition notify_app :: "u16 \<Rightarrow> bool \<Rightarrow> rxfsm_st \<Rightarrow> rxfsm_st" where
  "notify_app len c s = s\<lparr>rf_notification := rf_notification s @
     [appNotification_mk (fm_sessionID (rf_meta s)) len (fm_srcIpAddress (rf_meta s)) (fm_dstIpPort (rf_meta s)) c]\<rparr>"

definition write_buffer :: "mmCmd \<Rightarrow> rxfsm_st \<Rightarrow> rxfsm_st" where
  "write_buffer c s = s\<lparr>rf_bufferWriteCmd := rf_bufferWriteCmd s @ [c]\<rparr>"

definition clear_retransmit :: "bool \<Rightarrow> rxfsm_st \<Rightarrow> rxfsm_st" where
  "clear_retransmit stop s = s\<lparr>rf_clearRetransmitTimer := rf_clearRetransmitTimer s @
     [\<lparr>rru_sessionID = fm_sessionID (rf_meta s), rru_stop = stop\<rparr>]\<rparr>"

definition clear_probe :: "rxfsm_st \<Rightarrow> rxfsm_st" where
  "clear_probe s = s\<lparr>rf_clearProbeTimer := rf_clearProbeTimer s @ [fm_sessionID (rf_meta s)]\<rparr>"

definition set_close_timer :: "rxfsm_st \<Rightarrow> rxfsm_st" where
  "set_close_timer s = s\<lparr>rf_setCloseTimer := rf_setCloseTimer s @ [fm_sessionID (rf_meta s)]\<rparr>"

definition open_status :: "u8 \<Rightarrow> rxfsm_st \<Rightarrow> rxfsm_st" where
  "open_status ok s = s\<lparr>rf_openConStatus := rf_openConStatus s @
     [\<lparr>os_sessionID = fm_sessionID (rf_meta s), os_success = ok, os_ip = fm_srcIpAddress (rf_meta s),
       os_port = fm_srcIpPort (rf_meta s)\<rparr>]\<rparr>"

lemmas rf_emit_defs = set_state_def set_event_def set_rxSar_def set_txSar_def set_drop_def notify_app_def
  write_buffer_def clear_retransmit_def clear_probe_def set_close_timer_def open_status_def

abbreviation rf_id :: "rxfsm_st \<Rightarrow> u16" where "rf_id s \<equiv> fm_sessionID (rf_meta s)"
abbreviation rf_seg :: "rxfsm_st \<Rightarrow> rxEngineMetaData" where "rf_seg s \<equiv> fm_meta (rf_meta s)"

subsection \<open>ACK\<close>

text \<open>Duplicate acknowledgements and the congestion window.  \<open>slowstart_threshold - MSS\<close> is signed.\<close>

definition is_duplicate :: "rxEngineMetaData \<Rightarrow> rxTxSarReply \<Rightarrow> bool" where
  "is_duplicate m txSar \<longleftrightarrow> rm_ackNumb m = rtr_prevAck txSar \<and> rtr_prevAck txSar \<noteq> rtr_nextByte txSar"

definition grow_window :: "u16 \<Rightarrow> rxTxSarReply \<Rightarrow> rxTxSarReply" where
  "grow_window mss txSar =
     (if int (unat (rtr_cong_window txSar)) \<le> int (unat (rtr_slowstart_threshold txSar)) - int (unat mss)
      then txSar\<lparr>rtr_cong_window := rtr_cong_window txSar + ucast mss\<rparr>
      else if unat (rtr_cong_window txSar) \<le> CONGESTION_WINDOW_MAX
      then txSar\<lparr>rtr_cong_window := rtr_cong_window txSar + 365\<rparr>
      else txSar)"

definition count_ack :: "u16 \<Rightarrow> rxEngineMetaData \<Rightarrow> rxTxSarReply \<Rightarrow> rxTxSarReply" where
  "count_ack mss m txSar =
     (if is_duplicate m txSar
      then if rm_length m = 0 then txSar\<lparr>rtr_count := rtr_count txSar + 1\<rparr> else txSar
      else (grow_window mss txSar)\<lparr>rtr_count := 0, rtr_fastRetransmitted := False\<rparr>)"

definition ack_in_window :: "u32 \<Rightarrow> u32 \<Rightarrow> u32 \<Rightarrow> bool" where
  "ack_in_window prevAck nextByte ack \<longleftrightarrow>
     (prevAck \<le> ack \<and> ack \<le> nextByte) \<or> ((prevAck \<le> ack \<or> ack \<le> nextByte) \<and> nextByte < prevAck)"

text \<open>The address of the segment in the receive buffer.\<close>

definition rf_pkgAddr :: "rxfsm_st \<Rightarrow> u32" where
  "rf_pkgAddr s = put_bits 17 0 (bits 17 0 (rm_seqNumb (rf_seg s)) :: u18)
     (put_bits 29 WINDOW_BITS (ucast (bits 13 0 (rf_id s) :: u14) :: u12) 0)"

definition free_space :: "rxSarEntry \<Rightarrow> u18" where
  "free_space rxSar = (rse_appd rxSar - ucast (rse_head rxSar)) - 1"

definition buffer_has_room :: "rxfsm_env \<Rightarrow> bool" where
  "buffer_has_room e \<longleftrightarrow> int (unat (fe_max_data_count e)) - int (unat (fe_data_count e)) > 375"

text \<open>The payload with \<open>RX_DDR_BYPASS\<close>: in order only.\<close>

definition rf_payload_bypass :: "rxfsm_env \<Rightarrow> rxSarEntry \<Rightarrow> rxfsm_st \<Rightarrow> rxfsm_st" where
  "rf_payload_bypass e rxSar s =
     (let m = rf_seg s in
      if rm_length m = 0 then s
      else
        let newRecvd = rm_seqNumb m + ucast (rm_length m) in
        if rm_seqNumb m = rse_recvd rxSar \<and> buffer_has_room e
        then set_drop False (notify_app (rm_length m) False
               (set_rxSar (rxSarRecvd_upd (fe_recvd e) (rf_id s) newRecvd newRecvd (rse_offset rxSar) (rse_gap rxSar)) s))
        else set_drop True s)"

text \<open>The payload with the buffer in memory: one gap is kept.  Comparisons of \<open>seqNumb + length\<close>
  are at 33 bits.\<close>

definition rf_payload_ddr :: "rxfsm_env \<Rightarrow> rxSarEntry \<Rightarrow> rxfsm_st \<Rightarrow> rxfsm_st" where
  "rf_payload_ddr e rxSar s =
     (let m = rf_seg s; i = rf_id s; u = fe_recvd e; len = rm_length m; seq = rm_seqNumb m;
          recvd = rse_recvd rxSar; head = rse_head rxSar; offset = rse_offset rxSar; gap = rse_gap rxSar;
          cmd = mmCmd_mk (rf_pkgAddr s) len; next = seq + ucast len; free = free_space rxSar in
      if len = 0 then s
      else if \<not> gap \<and> seq = recvd \<and> unat free > unat len
      then set_drop False (notify_app len False (write_buffer cmd
             (set_rxSar (rxSarRecvd_upd u i next next offset gap) s)))
      else if \<not> gap \<and> seq > recvd \<and> free > ucast (next - head)
      then set_drop False (write_buffer cmd (notify_app 0 False
             (set_rxSar (rxSarRecvd_upd u i recvd next seq True) s)))
      else if gap \<and> seq = head \<and> unat free > unat len
      then set_drop False (notify_app 0 False (write_buffer cmd
             (set_rxSar (rxSarRecvd_upd u i recvd next offset gap) s)))
      else if gap \<and> seq = recvd
      then if unat seq + unat len = unat offset
           then set_drop False (notify_app (ucast (ucast (head - seq) :: u18)) False (write_buffer cmd
                  (set_rxSar (rxSarRecvd_upd u i head head offset False) s)))
           else if unat seq + unat len < unat offset
           then set_drop False (notify_app len False (write_buffer cmd
                  (set_rxSar (rxSarRecvd_upd u i next head offset gap) s)))
           else s
      else set_drop True s)"

definition rf_in_order :: "rxfsm_env \<Rightarrow> rxSarEntry \<Rightarrow> rxfsm_st \<Rightarrow> bool" where
  "rf_in_order e rxSar s \<longleftrightarrow>
     (if fe_bypass e then rm_seqNumb (rf_seg s) = rse_recvd rxSar \<and> buffer_has_room e
      else \<not> rse_gap rxSar \<and> rm_seqNumb (rf_seg s) = rse_recvd rxSar \<and>
        unat (free_space rxSar) > unat (rm_length (rf_seg s)))"

definition ack_accepts :: "sessionState \<Rightarrow> bool" where
  "ack_accepts t \<longleftrightarrow> t \<in> {ESTABLISHED, SYN_RECEIVED, FIN_WAIT_1, CLOSING, LAST_ACK}"

definition rf_ack_state :: "sessionState \<Rightarrow> rxTxSarReply \<Rightarrow> rxfsm_st \<Rightarrow> rxfsm_st" where
  "rf_ack_state tcpState txSar s =
     (if rm_ackNumb (rf_seg s) = rtr_nextByte txSar then
        case tcpState of
          SYN_RECEIVED \<Rightarrow> set_state ESTABLISHED s
        | CLOSING \<Rightarrow> set_close_timer (set_state TIME_WAIT s)
        | LAST_ACK \<Rightarrow> set_state CLOSED s
        | _ \<Rightarrow> set_state tcpState s
      else set_state tcpState s)"

text \<open>The stages of the handler; \<open>txSar\<close> is the reply after \<open>count_ack\<close>.\<close>

definition rf_ack_window :: "rxfsm_env \<Rightarrow> rxTxSarReply \<Rightarrow> rxfsm_st \<Rightarrow> rxfsm_st" where
  "rf_ack_window e txSar s =
     (let m = rf_seg s in
      if ack_in_window (rtr_prevAck txSar) (rtr_nextByte txSar) (rm_ackNumb m)
      then set_txSar (rxTxSarQuery_upd (fe_shift e) (rf_id s) (rm_ackNumb m) (rm_winSize m) (rtr_cong_window txSar)
             (rtr_count txSar) (rtr_count txSar = 3 \<or> rtr_fastRetransmitted txSar)) s
      else s)"

definition rf_payload :: "rxfsm_env \<Rightarrow> rxSarEntry \<Rightarrow> rxfsm_st \<Rightarrow> rxfsm_st" where
  "rf_payload e rxSar s = (if fe_bypass e then rf_payload_bypass e rxSar s else rf_payload_ddr e rxSar s)"

definition rf_ack_event :: "rxfsm_env \<Rightarrow> rxSarEntry \<Rightarrow> rxTxSarReply \<Rightarrow> rxfsm_st \<Rightarrow> rxfsm_st" where
  "rf_ack_event e rxSar txSar s =
     (if rtr_count txSar = 3 \<and> \<not> rtr_fastRetransmitted txSar then set_event (event_simple RT (rf_id s)) s
      else if rm_length (rf_seg s) \<noteq> 0
      then if rf_in_order e rxSar s then set_event (event_simple ACK (rf_id s)) s
           else set_event (event_simple ACK_NODELAY (rf_id s)) s
      else s)"

definition rf_ack_open :: "rxfsm_env \<Rightarrow> sessionState \<Rightarrow> rxSarEntry \<Rightarrow> rxTxSarReply \<Rightarrow> rxfsm_st \<Rightarrow> rxfsm_st" where
  "rf_ack_open e tcpState rxSar txSar s =
     (let s = (if is_duplicate (rf_seg s) txSar then s else clear_probe s);
          txSar = count_ack (fe_MSS e) (rf_seg s) txSar
      in rf_ack_state tcpState txSar (rf_ack_event e rxSar txSar (rf_payload e rxSar (rf_ack_window e txSar s))))"

definition rf_ack_closed :: "sessionState \<Rightarrow> rxfsm_st \<Rightarrow> rxfsm_st" where
  "rf_ack_closed tcpState s =
     (let m = rf_seg s;
          s = set_event (rstEvent (rf_id s) (rm_seqNumb m + ucast (rm_length m)) True) s;
          s = (if rm_length m \<noteq> 0 then set_drop True s else s)
      in set_state tcpState s)"

definition rf_ack :: "rxfsm_env \<Rightarrow> sessionState \<Rightarrow> rxSarEntry \<Rightarrow> rxTxSarReply \<Rightarrow> rxfsm_st \<Rightarrow> rxfsm_st" where
  "rf_ack e tcpState rxSar txSar s =
     (let s = clear_retransmit (rm_ackNumb (rf_seg s) = rtr_nextByte txSar) s in
      if ack_accepts tcpState then rf_ack_open e tcpState rxSar txSar s else rf_ack_closed tcpState s)"

subsection \<open>SYN, SYN-ACK, FIN, RST\<close>

definition rx_win_shift :: "rxEngineMetaData \<Rightarrow> u4" where
  "rx_win_shift m = (if rm_winScale m = 0 then 0 else WINDOW_SCALE_BITS)"

definition rf_syn :: "sessionState \<Rightarrow> rxSarEntry \<Rightarrow> rxTxSarReply \<Rightarrow> rxfsm_st \<Rightarrow> rxfsm_st" where
  "rf_syn tcpState rxSar txSar s =
     (let m = rf_seg s; i = rf_id s in
      if tcpState = CLOSED \<or> tcpState = SYN_SENT then
        set_state SYN_RECEIVED (set_event (event_simple SYN_ACK i)
          (set_txSar (rxTxSarQuery_init i 0 (rm_winSize m) (rtr_cong_window txSar) 0 False (rm_winScale m))
          (set_rxSar (rxSarRecvd_init i (rm_seqNumb m + 1) (rm_seqNumb m + 1) 0 False (rx_win_shift m)) s)))
      else if tcpState = SYN_RECEIVED then
        if unat (rm_seqNumb m) + 1 = unat (rse_recvd rxSar)
        then set_state tcpState (set_event (event_rt SYN_ACK i 1) s)
        else set_state CLOSED (set_event (rstEvent i (rm_seqNumb m + 1) True) s)
      else set_state tcpState (set_event (event_simple ACK_NODELAY i) s))"

definition rf_syn_ack :: "sessionState \<Rightarrow> rxTxSarReply \<Rightarrow> rxfsm_st \<Rightarrow> rxfsm_st" where
  "rf_syn_ack tcpState txSar s =
     (let m = rf_seg s; i = rf_id s;
          s = clear_retransmit (rm_ackNumb m = rtr_nextByte txSar) s in
      if tcpState = SYN_SENT \<and> rm_ackNumb m = rtr_nextByte txSar then
        open_status 1 (set_state ESTABLISHED (set_event (event_simple ACK_NODELAY i)
          (set_txSar (rxTxSarQuery_init i (rm_ackNumb m) (rm_winSize m) (rtr_cong_window txSar) 0 False (rm_winScale m))
          (set_rxSar (rxSarRecvd_init i (rm_seqNumb m + 1) (rm_seqNumb m + 1) 0 False (rx_win_shift m)) s))))
      else if tcpState = SYN_SENT then
        set_state CLOSED (set_event (rstEvent i (rm_seqNumb m + ucast (rm_length m) + 1) True) s)
      else set_state tcpState (set_event (event_simple ACK_NODELAY i) s))"

definition rf_fin_payload :: "rxfsm_env \<Rightarrow> sessionState \<Rightarrow> rxfsm_st \<Rightarrow> rxfsm_st" where
  "rf_fin_payload e tcpState s =
     (let m = rf_seg s in
      if rm_length m \<noteq> 0 then
        let s = (if fe_bypass e then s else write_buffer (mmCmd_mk (rf_pkgAddr s) (rm_length m)) s)
        in set_drop False (notify_app (rm_length m) True s)
      else if tcpState = ESTABLISHED then notify_app 0 True s
      else s)"

definition rf_fin_state :: "sessionState \<Rightarrow> rxTxSarReply \<Rightarrow> rxfsm_st \<Rightarrow> rxfsm_st" where
  "rf_fin_state tcpState txSar s =
     (if tcpState = ESTABLISHED then set_state LAST_ACK (set_event (event_simple FIN (rf_id s)) s)
      else
        let s = (if rm_ackNumb (rf_seg s) = rtr_nextByte txSar then set_close_timer (set_state TIME_WAIT s)
                 else set_state CLOSING s)
        in set_event (event_simple ACK (rf_id s)) s)"

definition rf_fin :: "rxfsm_env \<Rightarrow> sessionState \<Rightarrow> rxSarEntry \<Rightarrow> rxTxSarReply \<Rightarrow> rxfsm_st \<Rightarrow> rxfsm_st" where
  "rf_fin e tcpState rxSar txSar s =
     (let m = rf_seg s; i = rf_id s;
          s = clear_retransmit (rm_ackNumb m = rtr_nextByte txSar) s in
      if (tcpState = ESTABLISHED \<or> tcpState = FIN_WAIT_1 \<or> tcpState = FIN_WAIT_2) \<and> rse_recvd rxSar = rm_seqNumb m then
        let next = rm_seqNumb m + ucast (rm_length m) + 1;
            s = set_txSar (rxTxSarQuery_upd (fe_shift e) i (rm_ackNumb m) (rm_winSize m) (rtr_cong_window txSar)
                  (rtr_count txSar) (rtr_fastRetransmitted txSar)) s;
            s = set_rxSar (rxSarRecvd_upd (fe_recvd e) i next next (rse_offset rxSar) (rse_gap rxSar)) s
        in rf_fin_state tcpState txSar (rf_fin_payload e tcpState (clear_probe s))
      else
        let s = set_state tcpState (set_event (event_simple ACK i) s)
        in if rm_length m \<noteq> 0 then set_drop True s else s)"

definition rf_default :: "sessionState \<Rightarrow> rxSarEntry \<Rightarrow> rxTxSarReply \<Rightarrow> rxfsm_st \<Rightarrow> rxfsm_st" where
  "rf_default tcpState rxSar txSar s =
     (let m = rf_seg s in
      if rm_rst m then
        if tcpState = SYN_SENT then
          if rm_ackNumb m = rtr_nextByte txSar
          then clear_retransmit True (set_state CLOSED (open_status 0 s))
          else set_state tcpState s
        else if rm_seqNumb m = rse_recvd rxSar
        then clear_retransmit True (set_state CLOSED (notify_app 0 True s))
        else set_state tcpState s
      else set_state tcpState s)"

text \<open>
  The control bits \<open>ack\<close>, \<open>syn\<close>, \<open>fin\<close>, \<open>rst\<close> are the bits 0 to 3.  A read from a stream that is
  empty (\<open>read_nb\<close>, or C simulation of \<open>read\<close>) leaves the local \<open>txSar\<close> indeterminate.
\<close>

definition control_bits :: "rxEngineMetaData \<Rightarrow> nat" where
  "control_bits m = of_bool (rm_ack m) + 2 * of_bool (rm_syn m) + 4 * of_bool (rm_fin m) + 8 * of_bool (rm_rst m)"

definition rf_segment :: "rxfsm_env \<Rightarrow> sessionState \<Rightarrow> rxSarEntry \<Rightarrow> rxTxSarReply \<Rightarrow> rxfsm_st \<Rightarrow> rxfsm_st" where
  "rf_segment e tcpState rxSar txSar s =
     (let bits = control_bits (rf_seg s) in
      if bits = 1 then rf_ack e tcpState rxSar txSar s
      else if bits = 2 then rf_syn tcpState rxSar txSar s
      else if bits = 3 then rf_syn_ack tcpState txSar s
      else if bits = 5 then rf_fin e tcpState rxSar txSar s
      else rf_default tcpState rxSar txSar s)"

definition rf_load :: "rxfsm_env \<Rightarrow> rxfsm_st \<Rightarrow> rxfsm_st" where
  "rf_load e s =
     (case rf_fsmMetaDataFifo s of
        m # rest \<Rightarrow>
          let s = s\<lparr>rf_meta := m, rf_fsmMetaDataFifo := rest,
                    rf_stateTable_req := rf_stateTable_req s @ [stateQuery_read (fm_sessionID m)],
                    rf_rxSar_req := rf_rxSar_req s @ [rxSarRecvd_read (fe_recvd e) (fm_sessionID m)]\<rparr>;
              s = (if rm_ack (fm_meta m)
                   then s\<lparr>rf_txSar_req := rf_txSar_req s @ [rxTxSarQuery_read (fe_shift e) (fm_sessionID m)],
                          rf_txSarRequest := True\<rparr>
                   else s)
          in s\<lparr>rf_state := FSM_TRANSITION\<rparr>
      | [] \<Rightarrow> s)"

definition rf_ready :: "rxfsm_st \<Rightarrow> bool" where
  "rf_ready s \<longleftrightarrow> rf_stateTable_rsp s \<noteq> [] \<and> rf_rxSar_rsp s \<noteq> [] \<and> \<not> (rf_txSarRequest s \<and> rf_txSar_rsp s = [])"

definition rf_transition :: "rxfsm_env \<Rightarrow> rxfsm_st \<Rightarrow> rxfsm_st" where
  "rf_transition e s =
     (if rf_ready s then
        let tcpState = hd (rf_stateTable_rsp s); rxSar = hd (rf_rxSar_rsp s);
            syn = (control_bits (rf_seg s) = 2);
            txSar = (if syn \<or> rf_txSar_rsp s = [] then fe_txSar e else hd (rf_txSar_rsp s));
            s = s\<lparr>rf_state := FSM_LOAD, rf_txSarRequest := False,
                  rf_stateTable_rsp := tl (rf_stateTable_rsp s), rf_rxSar_rsp := tl (rf_rxSar_rsp s),
                  rf_txSar_rsp := (if syn then rf_txSar_rsp s else tl (rf_txSar_rsp s))\<rparr>
        in rf_segment e tcpState rxSar txSar s
      else s)"

definition rxTcpFSM :: "rxfsm_env \<Rightarrow> rxfsm_st \<Rightarrow> rxfsm_st" where
  "rxTcpFSM e s = (case rf_state s of FSM_LOAD \<Rightarrow> rf_load e s | FSM_TRANSITION \<Rightarrow> rf_transition e s)"

section \<open>Around the state machine\<close>

datatype tpfStateType = READ_DROP1 | READ_DROP2 | TPF_FWD | TPF_DROP

record 'a tpf_st =
  tpf_state :: tpfStateType
  tpf_dataIn :: "'a fifo"
  tpf_dropFifoIn1 :: "bool fifo"
  tpf_dropFifoIn2 :: "bool fifo"
  tpf_out :: "'a fifo"

definition rxPackageDropper :: "('w::len, 'k::len) axis tpf_st \<Rightarrow> ('w, 'k) axis tpf_st" where
  "rxPackageDropper s =
     (case tpf_state s of
        READ_DROP1 \<Rightarrow>
          (case tpf_dropFifoIn1 s of
             d # rest \<Rightarrow> s\<lparr>tpf_dropFifoIn1 := rest, tpf_state := (if d then TPF_DROP else READ_DROP2)\<rparr>
           | [] \<Rightarrow> s)
      | READ_DROP2 \<Rightarrow>
          (case tpf_dropFifoIn2 s of
             d # rest \<Rightarrow> s\<lparr>tpf_dropFifoIn2 := rest, tpf_state := (if d then TPF_DROP else TPF_FWD)\<rparr>
           | [] \<Rightarrow> s)
      | TPF_FWD \<Rightarrow>
          (case tpf_dataIn s of
             w # rest \<Rightarrow>
               s\<lparr>tpf_dataIn := rest, tpf_state := (if na_last w then READ_DROP1 else TPF_FWD),
                 tpf_out := tpf_out s @ [w]\<rparr>
           | [] \<Rightarrow> s)
      | TPF_DROP \<Rightarrow>
          (case tpf_dataIn s of
             w # rest \<Rightarrow> s\<lparr>tpf_dataIn := rest, tpf_state := (if na_last w then READ_DROP1 else TPF_DROP)\<rparr>
           | [] \<Rightarrow> s))"

text \<open>\<open>extendedEvent(event)\<close> leaves the tuple indeterminate: \<open>u\<close>.\<close>

definition rxEventMerger ::
  "fourTuple \<Rightarrow> extendedEvent fifo \<times> event fifo \<times> extendedEvent fifo \<Rightarrow> extendedEvent fifo \<times> event fifo \<times> extendedEvent fifo" where
  "rxEventMerger u s =
     (case s of (in1, in2, out) \<Rightarrow>
        if in1 \<noteq> [] then (tl in1, in2, out @ [hd in1])
        else if in2 \<noteq> [] then (in1, tl in2, out @ [extendedEvent_of u (hd in2)])
        else s)"

record mhm_st =
  mhm_state :: bool
  mhm_meta :: rxEngineMetaData
  mhm_winScaleFifo :: "u4 fifo"
  mhm_headerMetaFifo :: "rxEngineMetaData fifo"
  mhm_metaDataFifo :: "rxEngineMetaData fifo"

definition merge_header_meta :: "mhm_st \<Rightarrow> mhm_st" where
  "merge_header_meta s =
     (if \<not> mhm_state s then
        (case mhm_headerMetaFifo s of
           m # rest \<Rightarrow>
             let s = s\<lparr>mhm_headerMetaFifo := rest, mhm_meta := m\<rparr> in
             if rm_syn m \<and> rm_dataOffset m > 5 then s\<lparr>mhm_state := True\<rparr>
             else let s = s\<lparr>mhm_meta := m\<lparr>rm_winScale := 0\<rparr>\<rparr>
                  in s\<lparr>mhm_metaDataFifo := mhm_metaDataFifo s @ [mhm_meta s]\<rparr>
         | [] \<Rightarrow> s)
      else
        (case mhm_winScaleFifo s of
           ws # rest \<Rightarrow>
             let s = s\<lparr>mhm_winScaleFifo := rest, mhm_meta := (mhm_meta s)\<lparr>rm_winScale := ws\<rparr>\<rparr>
             in s\<lparr>mhm_metaDataFifo := mhm_metaDataFifo s @ [mhm_meta s], mhm_state := False\<rparr>
         | [] \<Rightarrow> s))"

text \<open>
  The options of a SYN.  \<open>dataOffset\<close> counts the 32-bit words of options and has 4 bits; the option
  lengths, in bytes, are subtracted from it.
\<close>

record pof_st =
  pof_parse :: bool
  pof_dataOffset :: u4
  pof_fields :: "320 word"
  pof_dataOffsetIn :: "u4 fifo"
  pof_fieldsIn :: "320 word fifo"
  pof_windowScaleOut :: "u4 fifo"

definition parse_optional_header_fields :: "pof_st \<Rightarrow> pof_st" where
  "parse_optional_header_fields s =
     (if \<not> pof_parse s then
        if pof_dataOffsetIn s \<noteq> [] \<and> pof_fieldsIn s \<noteq> []
        then s\<lparr>pof_dataOffset := hd (pof_dataOffsetIn s), pof_dataOffsetIn := tl (pof_dataOffsetIn s),
               pof_fields := hd (pof_fieldsIn s), pof_fieldsIn := tl (pof_fieldsIn s), pof_parse := True\<rparr>
        else s
      else
        let optionKind = bits 7 0 (pof_fields s) :: u8; optionLength = bits 15 8 (pof_fields s) :: u8;
            s' = (if optionKind = 0
                  then s\<lparr>pof_windowScaleOut := pof_windowScaleOut s @ [0], pof_parse := False\<rparr>
                  else if optionKind = 1 then s
                  else if optionKind = 3
                  then s\<lparr>pof_windowScaleOut := pof_windowScaleOut s @ [bits 19 16 (pof_fields s)], pof_parse := False\<rparr>
                  else if unat (pof_dataOffset s) = unat optionLength
                  then s\<lparr>pof_windowScaleOut := pof_windowScaleOut s @ [0], pof_parse := False\<rparr>
                  else s);
            len = (if optionKind = 1 then 1 else optionLength)
        in s'\<lparr>pof_dataOffset := pof_dataOffset s - ucast len,
              pof_fields := drop_bit (unat len * 8) (pof_fields s)\<rparr>)"

record rand_st =
  rand_doubleFlag :: bool
  rand_fifoCount :: "5 word"
  rand_status1 :: mmStatus
  rand_status2 :: mmStatus
  rand_notification :: appNotification
  rand_buffer :: "appNotification fifo"
  rand_writeStatusIn :: "mmStatus fifo"
  rand_notificationIn :: "appNotification fifo"
  rand_notificationOut :: "appNotification fifo"
  rand_doubleAccess :: "bool fifo"

definition rxAppNotificationDelayer :: "rand_st \<Rightarrow> rand_st" where
  "rxAppNotificationDelayer s =
     (if rand_doubleFlag s then
        (case rand_writeStatusIn s of
           st # rest \<Rightarrow>
             let s = s\<lparr>rand_writeStatusIn := rest, rand_status2 := st, rand_fifoCount := rand_fifoCount s - 1\<rparr>;
                 s = (if ms_okay (rand_status1 s) \<and> ms_okay (rand_status2 s) \<and> an_length (rand_notification s) \<noteq> 0
                      then s\<lparr>rand_notificationOut := rand_notificationOut s @ [rand_notification s]\<rparr> else s)
             in s\<lparr>rand_doubleFlag := False\<rparr>
         | [] \<Rightarrow> s)
      else if rand_writeStatusIn s \<noteq> [] \<and> rand_buffer s \<noteq> [] \<and> rand_doubleAccess s \<noteq> [] then
        let s = s\<lparr>rand_status1 := hd (rand_writeStatusIn s), rand_writeStatusIn := tl (rand_writeStatusIn s),
                  rand_notification := hd (rand_buffer s), rand_buffer := tl (rand_buffer s),
                  rand_doubleFlag := hd (rand_doubleAccess s), rand_doubleAccess := tl (rand_doubleAccess s)\<rparr>
        in if \<not> rand_doubleFlag s then
             let s = s\<lparr>rand_fifoCount := rand_fifoCount s - 1\<rparr>
             in if ms_okay (rand_status1 s) \<and> an_length (rand_notification s) \<noteq> 0
                then s\<lparr>rand_notificationOut := rand_notificationOut s @ [rand_notification s]\<rparr> else s
           else s
      else if rand_notificationIn s \<noteq> [] \<and> rand_fifoCount s < 31 then
        let s = s\<lparr>rand_notification := hd (rand_notificationIn s), rand_notificationIn := tl (rand_notificationIn s)\<rparr>
        in if an_closed (rand_notification s) \<and> an_length (rand_notification s) = 0
           then s\<lparr>rand_notificationOut := rand_notificationOut s @ [rand_notification s]\<rparr>
           else s\<lparr>rand_buffer := rand_buffer s @ [rand_notification s], rand_fifoCount := rand_fifoCount s + 1\<rparr>
      else s)"

section \<open>What a segment does\<close>

lemma control_bits_iff:
  "control_bits m = 1 \<longleftrightarrow> rm_ack m \<and> \<not> rm_syn m \<and> \<not> rm_fin m \<and> \<not> rm_rst m"
  "control_bits m = 2 \<longleftrightarrow> \<not> rm_ack m \<and> rm_syn m \<and> \<not> rm_fin m \<and> \<not> rm_rst m"
  "control_bits m = 3 \<longleftrightarrow> rm_ack m \<and> rm_syn m \<and> \<not> rm_fin m \<and> \<not> rm_rst m"
  "control_bits m = 5 \<longleftrightarrow> rm_ack m \<and> \<not> rm_syn m \<and> rm_fin m \<and> \<not> rm_rst m"
  by (simp_all add: control_bits_def)

lemmas rf_segment_defs = rf_segment_def rf_ack_def rf_syn_def rf_syn_ack_def rf_fin_def rf_default_def
  rf_ack_state_def rf_payload_bypass_def rf_payload_ddr_def rf_fin_payload_def rf_fin_state_def
  rf_ack_open_def rf_ack_closed_def rf_ack_window_def rf_ack_event_def rf_payload_def

text \<open>The transitions of RFC 793 that a segment can cause, for a session in \<open>t\<close>: \<open>in_seq\<close> says that it
  starts at the next expected byte, \<open>acks_all\<close> that it acknowledges everything sent.  CLOSE-WAIT is
  left at once (the stack answers a FIN with its own), so it is merged with LAST-ACK.\<close>

inductive rfc793 :: "rxEngineMetaData \<Rightarrow> bool \<Rightarrow> bool \<Rightarrow> sessionState \<Rightarrow> sessionState \<Rightarrow> bool"
  for m in_seq acks_all where
  stay: "rfc793 m in_seq acks_all t t"
| open_passive: "rm_syn m \<Longrightarrow> \<not> rm_ack m \<Longrightarrow> \<not> rm_rst m \<Longrightarrow> rfc793 m in_seq acks_all CLOSED SYN_RECEIVED"
| open_both: "rm_syn m \<Longrightarrow> \<not> rm_ack m \<Longrightarrow> \<not> rm_rst m \<Longrightarrow> rfc793 m in_seq acks_all SYN_SENT SYN_RECEIVED"
| open_active: "rm_syn m \<Longrightarrow> rm_ack m \<Longrightarrow> acks_all \<Longrightarrow> \<not> rm_rst m \<Longrightarrow> rfc793 m in_seq acks_all SYN_SENT ESTABLISHED"
| opened: "rm_ack m \<Longrightarrow> acks_all \<Longrightarrow> \<not> rm_syn m \<Longrightarrow> \<not> rm_rst m \<Longrightarrow> rfc793 m in_seq acks_all SYN_RECEIVED ESTABLISHED"
| fin: "rm_fin m \<Longrightarrow> rm_ack m \<Longrightarrow> in_seq \<Longrightarrow> \<not> rm_rst m \<Longrightarrow> rfc793 m in_seq acks_all ESTABLISHED LAST_ACK"
| fin_both: "rm_fin m \<Longrightarrow> rm_ack m \<Longrightarrow> in_seq \<Longrightarrow> \<not> acks_all \<Longrightarrow> \<not> rm_rst m \<Longrightarrow> rfc793 m in_seq acks_all FIN_WAIT_1 CLOSING"
| fin_last: "rm_fin m \<Longrightarrow> rm_ack m \<Longrightarrow> in_seq \<Longrightarrow> acks_all \<Longrightarrow> \<not> rm_rst m \<Longrightarrow> rfc793 m in_seq acks_all FIN_WAIT_1 TIME_WAIT"
| closing: "rm_ack m \<Longrightarrow> acks_all \<Longrightarrow> \<not> rm_rst m \<Longrightarrow> rfc793 m in_seq acks_all CLOSING TIME_WAIT"
| last_ack: "rm_ack m \<Longrightarrow> acks_all \<Longrightarrow> \<not> rm_rst m \<Longrightarrow> rfc793 m in_seq acks_all LAST_ACK CLOSED"
| reset_opening: "rm_rst m \<Longrightarrow> acks_all \<Longrightarrow> rfc793 m in_seq acks_all SYN_SENT CLOSED"
| reset: "rm_rst m \<Longrightarrow> in_seq \<Longrightarrow> t \<noteq> SYN_SENT \<Longrightarrow> rfc793 m in_seq acks_all t CLOSED"
| syn_again: "rm_syn m \<Longrightarrow> \<not> rm_ack m \<Longrightarrow> \<not> rm_rst m \<Longrightarrow> rfc793 m in_seq acks_all SYN_RECEIVED CLOSED"

text \<open>Each stage writes its own streams only.\<close>

definition rf_frame :: "rxfsm_st \<Rightarrow> rxfsm_st \<Rightarrow> bool" where
  "rf_frame s t \<longleftrightarrow> rf_meta t = rf_meta s \<and> rf_state t = rf_state s \<and> rf_txSarRequest t = rf_txSarRequest s \<and>
     rf_fsmMetaDataFifo t = rf_fsmMetaDataFifo s \<and> rf_stateTable_rsp t = rf_stateTable_rsp s \<and>
     rf_rxSar_rsp t = rf_rxSar_rsp s \<and> rf_txSar_rsp t = rf_txSar_rsp s"

lemma emit_frame [simp]:
  "rf_frame u (set_state x s) = rf_frame u s" "rf_frame u (set_event ev s) = rf_frame u s"
  "rf_frame u (set_rxSar q s) = rf_frame u s" "rf_frame u (set_txSar r s) = rf_frame u s"
  "rf_frame u (set_drop d s) = rf_frame u s" "rf_frame u (notify_app l c s) = rf_frame u s"
  "rf_frame u (write_buffer cmd s) = rf_frame u s" "rf_frame u (clear_retransmit b s) = rf_frame u s"
  "rf_frame u (clear_probe s) = rf_frame u s" "rf_frame u (set_close_timer s) = rf_frame u s"
  "rf_frame u (open_status k s) = rf_frame u s"
  by (simp_all add: rf_emit_defs rf_frame_def)

lemma emit_meta [simp]:
  "rf_meta (set_state x s) = rf_meta s" "rf_meta (set_event ev s) = rf_meta s"
  "rf_meta (set_rxSar q s) = rf_meta s" "rf_meta (set_txSar r s) = rf_meta s"
  "rf_meta (set_drop d s) = rf_meta s" "rf_meta (notify_app l c s) = rf_meta s"
  "rf_meta (write_buffer cmd s) = rf_meta s" "rf_meta (clear_retransmit b s) = rf_meta s"
  "rf_meta (clear_probe s) = rf_meta s" "rf_meta (set_close_timer s) = rf_meta s"
  "rf_meta (open_status k s) = rf_meta s"
  by (simp_all add: rf_emit_defs)

lemma emit_stateTable_req [simp]:
  "rf_stateTable_req (set_state x s) = rf_stateTable_req s @ [stateQuery_write (rf_id s) x]"
  "rf_stateTable_req (set_event ev s) = rf_stateTable_req s"
  "rf_stateTable_req (set_rxSar q s) = rf_stateTable_req s" "rf_stateTable_req (set_txSar r s) = rf_stateTable_req s"
  "rf_stateTable_req (set_drop d s) = rf_stateTable_req s" "rf_stateTable_req (notify_app l c s) = rf_stateTable_req s"
  "rf_stateTable_req (write_buffer cmd s) = rf_stateTable_req s" "rf_stateTable_req (clear_retransmit b s) = rf_stateTable_req s"
  "rf_stateTable_req (clear_probe s) = rf_stateTable_req s" "rf_stateTable_req (set_close_timer s) = rf_stateTable_req s"
  "rf_stateTable_req (open_status k s) = rf_stateTable_req s"
  by (simp_all add: rf_emit_defs)

lemma emit_rxSar_req [simp]:
  "rf_rxSar_req (set_state x s) = rf_rxSar_req s"
  "rf_rxSar_req (set_event ev s) = rf_rxSar_req s"
  "rf_rxSar_req (set_rxSar q s) = rf_rxSar_req s @ [q]" "rf_rxSar_req (set_txSar r s) = rf_rxSar_req s"
  "rf_rxSar_req (set_drop d s) = rf_rxSar_req s" "rf_rxSar_req (notify_app l c s) = rf_rxSar_req s"
  "rf_rxSar_req (write_buffer cmd s) = rf_rxSar_req s" "rf_rxSar_req (clear_retransmit b s) = rf_rxSar_req s"
  "rf_rxSar_req (clear_probe s) = rf_rxSar_req s" "rf_rxSar_req (set_close_timer s) = rf_rxSar_req s"
  "rf_rxSar_req (open_status k s) = rf_rxSar_req s"
  by (simp_all add: rf_emit_defs)

lemma emit_drop [simp]:
  "rf_drop (set_state x s) = rf_drop s" "rf_drop (set_event ev s) = rf_drop s"
  "rf_drop (set_rxSar q s) = rf_drop s" "rf_drop (set_txSar r s) = rf_drop s"
  "rf_drop (set_drop d s) = rf_drop s @ [d]" "rf_drop (notify_app l c s) = rf_drop s"
  "rf_drop (write_buffer cmd s) = rf_drop s" "rf_drop (clear_retransmit b s) = rf_drop s"
  "rf_drop (clear_probe s) = rf_drop s" "rf_drop (set_close_timer s) = rf_drop s"
  "rf_drop (open_status k s) = rf_drop s"
  by (simp_all add: rf_emit_defs)

lemma emit_event [simp]:
  "rf_event (set_state x s) = rf_event s" "rf_event (set_event ev s) = rf_event s @ [ev]"
  "rf_event (set_rxSar q s) = rf_event s" "rf_event (set_txSar r s) = rf_event s"
  "rf_event (set_drop d s) = rf_event s" "rf_event (notify_app l c s) = rf_event s"
  "rf_event (write_buffer cmd s) = rf_event s" "rf_event (clear_retransmit b s) = rf_event s"
  "rf_event (clear_probe s) = rf_event s" "rf_event (set_close_timer s) = rf_event s"
  "rf_event (open_status k s) = rf_event s"
  by (simp_all add: rf_emit_defs)

lemma emit_notification [simp]:
  "rf_notification (set_state x s) = rf_notification s" "rf_notification (set_event ev s) = rf_notification s"
  "rf_notification (set_rxSar q s) = rf_notification s" "rf_notification (set_txSar r s) = rf_notification s"
  "rf_notification (set_drop d s) = rf_notification s"
  "rf_notification (notify_app l c s) = rf_notification s @
     [appNotification_mk (rf_id s) l (fm_srcIpAddress (rf_meta s)) (fm_dstIpPort (rf_meta s)) c]"
  "rf_notification (write_buffer cmd s) = rf_notification s" "rf_notification (clear_retransmit b s) = rf_notification s"
  "rf_notification (clear_probe s) = rf_notification s" "rf_notification (set_close_timer s) = rf_notification s"
  "rf_notification (open_status k s) = rf_notification s"
  by (simp_all add: rf_emit_defs)

lemma rf_payload_frame [simp]:
  "rf_stateTable_req (rf_payload e r s) = rf_stateTable_req s"
  "rf_meta (rf_payload e r s) = rf_meta s" "rf_frame u (rf_payload e r s) = rf_frame u s"
  "rf_event (rf_payload e r s) = rf_event s"
  by (simp_all add: rf_payload_def rf_payload_bypass_def rf_payload_ddr_def Let_def)

lemma rf_ack_event_frame [simp]:
  "rf_stateTable_req (rf_ack_event e r x s) = rf_stateTable_req s" "rf_meta (rf_ack_event e r x s) = rf_meta s"
  "rf_frame u (rf_ack_event e r x s) = rf_frame u s" "rf_rxSar_req (rf_ack_event e r x s) = rf_rxSar_req s"
  "rf_drop (rf_ack_event e r x s) = rf_drop s" "rf_notification (rf_ack_event e r x s) = rf_notification s"
  by (simp_all add: rf_ack_event_def)

lemma rf_ack_window_frame [simp]:
  "rf_stateTable_req (rf_ack_window e x s) = rf_stateTable_req s" "rf_meta (rf_ack_window e x s) = rf_meta s"
  "rf_frame u (rf_ack_window e x s) = rf_frame u s" "rf_rxSar_req (rf_ack_window e x s) = rf_rxSar_req s"
  "rf_drop (rf_ack_window e x s) = rf_drop s" "rf_notification (rf_ack_window e x s) = rf_notification s"
  "rf_event (rf_ack_window e x s) = rf_event s"
  by (simp_all add: rf_ack_window_def Let_def)

lemma rf_ack_state_frame [simp]:
  "rf_meta (rf_ack_state t x s) = rf_meta s"
  "rf_frame u (rf_ack_state t x s) = rf_frame u s" "rf_rxSar_req (rf_ack_state t x s) = rf_rxSar_req s"
  "rf_drop (rf_ack_state t x s) = rf_drop s" "rf_notification (rf_ack_state t x s) = rf_notification s"
  "rf_event (rf_ack_state t x s) = rf_event s"
  by (cases t; simp add: rf_ack_state_def)+

definition ack_next :: "bool \<Rightarrow> sessionState \<Rightarrow> sessionState" where
  "ack_next acks_all t =
     (if \<not> acks_all then t
      else case t of SYN_RECEIVED \<Rightarrow> ESTABLISHED | CLOSING \<Rightarrow> TIME_WAIT | LAST_ACK \<Rightarrow> CLOSED | _ \<Rightarrow> t)"

lemma rf_ack_state_req [simp]: "rf_stateTable_req (rf_ack_state t txSar s) =
    rf_stateTable_req s @ [stateQuery_write (rf_id s) (ack_next (rm_ackNumb (rf_seg s) = rtr_nextByte txSar) t)]"
  by (cases t) (simp_all add: rf_ack_state_def ack_next_def)

lemma count_ack_simps [simp]:
  "rtr_nextByte (count_ack mss m r) = rtr_nextByte r" "rtr_prevAck (count_ack mss m r) = rtr_prevAck r"
  by (simp_all add: count_ack_def grow_window_def)

lemma rf_ack_req: "rf_stateTable_req (rf_ack e t rxSar txSar s) = rf_stateTable_req s @
    [stateQuery_write (rf_id s) (ack_next (rm_ackNumb (rf_seg s) = rtr_nextByte txSar \<and> ack_accepts t) t)]"
  by (simp add: rf_ack_def rf_ack_open_def rf_ack_closed_def Let_def ack_next_def)

lemma ack_next_rfc793: "rm_ack m \<Longrightarrow> \<not> rm_syn m \<Longrightarrow> \<not> rm_rst m \<Longrightarrow> rfc793 m q a t (ack_next (a \<and> ack_accepts t) t)"
  by (cases t) (auto simp: ack_next_def ack_accepts_def intro: rfc793.intros)

lemma rf_fin_payload_frame [simp]:
  "rf_stateTable_req (rf_fin_payload e t s) = rf_stateTable_req s" "rf_meta (rf_fin_payload e t s) = rf_meta s"
  "rf_frame u (rf_fin_payload e t s) = rf_frame u s" "rf_event (rf_fin_payload e t s) = rf_event s"
  "rf_rxSar_req (rf_fin_payload e t s) = rf_rxSar_req s"
  by (simp_all add: rf_fin_payload_def Let_def)

lemma rf_segment_state:
  assumes "t \<noteq> FIN_WAIT_2"
  shows "\<exists>t'. rf_stateTable_req (rf_segment e t rxSar txSar s) = rf_stateTable_req s @ [stateQuery_write (rf_id s) t'] \<and>
    t' \<noteq> FIN_WAIT_2 \<and>
    (rfc793 (rf_seg s) (rm_seqNumb (rf_seg s) = rse_recvd rxSar) (rm_ackNumb (rf_seg s) = rtr_nextByte txSar) t t' \<or>
     t = SYN_SENT \<and> t' = CLOSED \<and> rm_syn (rf_seg s) \<and> rm_ack (rf_seg s) \<and> rm_ackNumb (rf_seg s) \<noteq> rtr_nextByte txSar)"
    (is "\<exists>t'. ?P t'")
proof -
  let ?m = "rf_seg s"
  consider (ack) "control_bits ?m = 1" | (syn) "control_bits ?m = 2" | (syn_ack) "control_bits ?m = 3"
    | (fin) "control_bits ?m = 5" | (other) "control_bits ?m \<notin> {1, 2, 3, 5}" by blast
  then show ?thesis
  proof cases
    case ack
    then have "rm_ack ?m" "\<not> rm_syn ?m" "\<not> rm_rst ?m" by (simp_all add: control_bits_iff [simplified])
    then show ?thesis
      using ack assms ack_next_rfc793 [of ?m]
      by (intro exI [of _ "ack_next (rm_ackNumb ?m = rtr_nextByte txSar \<and> ack_accepts t) t"])
        (auto simp: rf_segment_def rf_ack_req ack_next_def split: sessionState.splits)
  next
    case syn
    then show ?thesis
      using assms by (auto simp: rf_segment_def rf_syn_def Let_def control_bits_iff [simplified] intro: rfc793.intros)
  next
    case syn_ack
    then show ?thesis
      using assms by (auto simp: rf_segment_def rf_syn_ack_def Let_def control_bits_iff [simplified] intro: rfc793.intros)
  next
    case fin
    then show ?thesis
      using assms by (auto simp: rf_segment_def rf_fin_def rf_fin_state_def Let_def control_bits_iff [simplified] intro: rfc793.intros)
  next
    case other
    then show ?thesis
      using assms by (auto simp: rf_segment_def rf_default_def Let_def intro: rfc793.intros)
  qed
qed

section \<open>Acknowledgements\<close>

text \<open>C34: the window test of \<open>rxTcpFSM\<close>, written with plain comparisons and a case for the wrap-around,
  is the comparison of distances modulo \<open>2 ^ 32\<close>: the acknowledgement lies between the last one and
  the last byte sent, wherever the sequence numbers wrap.\<close>

theorem ack_window_modular:
  "ack_in_window prevAck nextByte ack \<longleftrightarrow> ack - prevAck \<le> nextByte - prevAck"
proof -
  note u = word_le_nat_alt word_less_nat_alt unat_sub_if'
  have b: "unat prevAck < 4294967296" "unat nextByte < 4294967296" "unat ack < 4294967296"
    using unat_less [of prevAck] unat_less [of nextByte] unat_less [of ack] by simp_all
  show ?thesis
    unfolding ack_in_window_def u using b by (auto split: if_splits)
qed

lemma unat_grow_window:
  "unat (rtr_cong_window (grow_window mss r)) =
    (if unat (rtr_cong_window r) + unat mss \<le> unat (rtr_slowstart_threshold r) then unat (rtr_cong_window r) + unat mss
     else if unat (rtr_cong_window r) \<le> CONGESTION_WINDOW_MAX then unat (rtr_cong_window r) + 365
     else unat (rtr_cong_window r))"
proof -
  let ?c = "rtr_cong_window r"
  have t: "unat (rtr_slowstart_threshold r) < 262144" using unat_less [of "rtr_slowstart_threshold r"] by simp
  have m: "unat (ucast mss :: u18) = unat mss"
    using unat_less [of mss] by (simp add: unsigned_ucast_eq take_bit_nat_eq_self)
  have 1: "unat (?c + ucast mss) = unat ?c + unat mss" if "unat ?c + unat mss \<le> unat (rtr_slowstart_threshold r)"
    using that t by (simp add: unat_word_ariths m)
  have 2: "unat (?c + 365) = unat ?c + 365" if "unat ?c \<le> CONGESTION_WINDOW_MAX"
    using that by (simp add: unat_word_ariths CONGESTION_WINDOW_MAX_def BUFFER_SIZE_eq)
  have "int (unat ?c) \<le> int (unat (rtr_slowstart_threshold r)) - int (unat mss) \<longleftrightarrow>
      unat ?c + unat mss \<le> unat (rtr_slowstart_threshold r)" by linarith
  then show ?thesis using 1 2 unfolding grow_window_def by simp
qed

text \<open>The congestion window never wraps.  An acknowledgement leaves it or makes it larger, by at most
  one segment; slow start stops at the threshold, and additive increase below
  \<open>CONGESTION_WINDOW_MAX + 365\<close>, which 18 bits hold.\<close>

theorem congestion_window_bound:
  "unat (rtr_cong_window r) \<le> unat (rtr_cong_window (count_ack mss m r)) \<and>
   unat (rtr_cong_window (count_ack mss m r)) \<le> unat (rtr_cong_window r) + max (unat mss) 365 \<and>
   unat (rtr_cong_window (count_ack mss m r)) \<le>
     Max {unat (rtr_cong_window r), unat (rtr_slowstart_threshold r), CONGESTION_WINDOW_MAX + 365}"
  by (auto simp: count_ack_def unat_grow_window)

text \<open>An acknowledgement and the entry of the transmit table it is checked against and written to.\<close>

definition ack_with_table ::
  "rxfsm_env \<Rightarrow> sessionState \<Rightarrow> rxSarEntry \<Rightarrow> rxFsmMetaData \<Rightarrow> rxfsm_st \<times> txSarEntry \<Rightarrow> rxfsm_st \<times> txSarEntry" where
  "ack_with_table e t rxSar m x =
     (let s = rf_segment e t rxSar (tx_sar_rx_read (snd x)) ((fst x)\<lparr>rf_meta := m, rf_txSar_req := []\<rparr>)
      in (s, fold tx_sar_rx_write (rf_txSar_req s) (snd x)))"

definition duplicate_ack :: "u16 \<Rightarrow> txSarEntry \<Rightarrow> rxFsmMetaData \<Rightarrow> bool" where
  "duplicate_ack i en m \<longleftrightarrow> fm_sessionID m = i \<and> control_bits (fm_meta m) = 1 \<and>
     rm_ackNumb (fm_meta m) = tse_ackd en \<and> rm_length (fm_meta m) = 0"

lemma emit_txSar_req [simp]:
  "rf_txSar_req (set_state x s) = rf_txSar_req s" "rf_txSar_req (set_event ev s) = rf_txSar_req s"
  "rf_txSar_req (set_rxSar q s) = rf_txSar_req s" "rf_txSar_req (set_txSar r s) = rf_txSar_req s @ [r]"
  "rf_txSar_req (set_drop d s) = rf_txSar_req s" "rf_txSar_req (notify_app l c s) = rf_txSar_req s"
  "rf_txSar_req (write_buffer cmd s) = rf_txSar_req s" "rf_txSar_req (clear_retransmit b s) = rf_txSar_req s"
  "rf_txSar_req (clear_probe s) = rf_txSar_req s" "rf_txSar_req (set_close_timer s) = rf_txSar_req s"
  "rf_txSar_req (open_status k s) = rf_txSar_req s"
  by (simp_all add: rf_emit_defs)

lemma duplicate_step:
  fixes k :: nat and e :: rxfsm_env and rxSar :: rxSarEntry and s :: rxfsm_st
  assumes d: "duplicate_ack i en m" and o: "ack_accepts t" and w: "tse_ackd en \<noteq> tse_not_ackd en"
    and k: "tse_count en = of_nat k" "tse_fastRetransmitted en = (3 \<le> k)"
  defines "x \<equiv> ack_with_table e t rxSar m (s, en)"
  shows "rf_event (fst x) = rf_event s @ (if k = 2 then [event_simple RT i] else [])"
    "tse_ackd (snd x) = tse_ackd en" "tse_not_ackd (snd x) = tse_not_ackd en"
    "tse_count (snd x) = of_nat (Suc k)" "tse_fastRetransmitted (snd x) = (3 \<le> Suc k)"
proof -
  let ?m = "fm_meta m"
  let ?u = "s\<lparr>rf_meta := m, rf_txSar_req := []\<rparr>"
  have m: "fm_sessionID m = i" "rm_ackNumb ?m = tse_ackd en" "rm_length ?m = 0" "control_bits ?m = 1"
    using d by (auto simp: duplicate_ack_def)
  let ?r = "tx_sar_rx_read en"
  have r: "rtr_prevAck ?r = tse_ackd en" "rtr_nextByte ?r = tse_not_ackd en" "rtr_count ?r = of_nat k"
    "rtr_fastRetransmitted ?r = (3 \<le> k)" by (simp_all add: tx_sar_rx_read_def k)
  have dup: "is_duplicate ?m ?r" using m r w by (simp add: is_duplicate_def)
  have c: "count_ack (fe_MSS e) ?m ?r = ?r\<lparr>rtr_count := of_nat (Suc k)\<rparr>"
    using dup m r by (simp add: count_ack_def add.commute)
  have ev: "(of_nat (Suc k) :: u2) = 3 \<and> \<not> 3 \<le> k \<longleftrightarrow> k = 2"
  proof
    assume a: "(of_nat (Suc k) :: u2) = 3 \<and> \<not> 3 \<le> k"
    then have "k \<in> {0, 1, 2}" by auto
    with a show "k = 2" by auto
  qed simp
  have fr: "(of_nat (Suc k) :: u2) = 3 \<or> 3 \<le> k \<longleftrightarrow> 3 \<le> Suc k"
  proof
    assume "(of_nat (Suc k) :: u2) = 3 \<or> 3 \<le> k"
    with ev show "3 \<le> Suc k" by auto
  next
    assume "3 \<le> Suc k"
    then show "(of_nat (Suc k) :: u2) = 3 \<or> 3 \<le> k" by (cases "k = 2") auto
  qed
  have pay: "rf_payload e rxSar v = v" if "rf_meta v = m" for v
    using that m by (simp add: rf_payload_def rf_payload_bypass_def rf_payload_ddr_def Let_def)
  have win: "ack_in_window (tse_ackd en) n (tse_ackd en)" for n by (simp add: ack_window_modular)
  have q: "rf_txSar_req (rf_segment e t rxSar ?r ?u) = [rxTxSarQuery_upd (fe_shift e) i (tse_ackd en) (rm_winSize ?m)
      (rtr_cong_window ?r) (of_nat (Suc k)) (3 \<le> Suc k)]"
    and "rf_event (rf_segment e t rxSar ?r ?u) = rf_event s @ (if k = 2 then [event_simple RT i] else [])"
  proof -
    let ?v = "rf_ack_window e (?r\<lparr>rtr_count := of_nat (Suc k)\<rparr>) (clear_retransmit (tse_ackd en = tse_not_ackd en) ?u)"
    have seg: "rf_segment e t rxSar ?r ?u =
        rf_ack_state t (?r\<lparr>rtr_count := of_nat (Suc k)\<rparr>) (rf_ack_event e rxSar (?r\<lparr>rtr_count := of_nat (Suc k)\<rparr>) ?v)"
      using o m dup c r by (simp add: rf_segment_def rf_ack_def rf_ack_open_def Let_def pay)
    have v: "rf_txSar_req ?v = [rxTxSarQuery_upd (fe_shift e) i (tse_ackd en) (rm_winSize ?m)
      (rtr_cong_window ?r) (of_nat (Suc k)) (3 \<le> Suc k)]"
      using m r win fr by (simp add: rf_ack_window_def Let_def rf_emit_defs)
    have "rf_txSar_req (rf_ack_state t y z) = rf_txSar_req z" "rf_txSar_req (rf_ack_event e rxSar y z) = rf_txSar_req z" for y z
      by (cases t; simp add: rf_ack_state_def) (simp add: rf_ack_event_def)
    then show "rf_txSar_req (rf_segment e t rxSar ?r ?u) = [rxTxSarQuery_upd (fe_shift e) i (tse_ackd en) (rm_winSize ?m)
      (rtr_cong_window ?r) (of_nat (Suc k)) (3 \<le> Suc k)]"
      unfolding seg by (simp only: v)
    show "rf_event (rf_segment e t rxSar ?r ?u) = rf_event s @ (if k = 2 then [event_simple RT i] else [])"
      unfolding seg using m r ev by (simp add: rf_ack_event_def del: of_nat_Suc)
  qed
  then show "rf_event (fst x) = rf_event s @ (if k = 2 then [event_simple RT i] else [])"
    "tse_ackd (snd x) = tse_ackd en" "tse_not_ackd (snd x) = tse_not_ackd en"
    "tse_count (snd x) = of_nat (Suc k)" "tse_fastRetransmitted (snd x) = (3 \<le> Suc k)"
    by (simp_all add: x_def ack_with_table_def Let_def tx_sar_rx_write_def rxTxSarQuery_upd_def)
qed

text \<open>C32: fast retransmit.  However many duplicates of the last acknowledgement arrive, with the table
  entry read and written back for each, exactly one retransmission is asked for, by the third; fewer
  than three ask for none.\<close>

theorem fast_retransmit_once:
  assumes "ack_accepts t" and "tse_ackd en \<noteq> tse_not_ackd en" and "tse_count en = 0" "\<not> tse_fastRetransmitted en"
    and "\<forall>m\<in>set ms. duplicate_ack i en m"
  shows "rf_event (fst (fold (ack_with_table e t rxSar) ms (s, en))) =
    rf_event s @ (if 3 \<le> length ms then [event_simple RT i] else [])"
proof -
  have "\<forall>m\<in>set ms. duplicate_ack i en' m \<Longrightarrow> tse_ackd en' \<noteq> tse_not_ackd en' \<Longrightarrow> tse_count en' = of_nat k \<Longrightarrow>
      tse_fastRetransmitted en' = (3 \<le> k) \<Longrightarrow>
    rf_event (fst (fold (ack_with_table e t rxSar) ms (s, en'))) =
      rf_event s @ (if k < 3 \<and> 3 \<le> k + length ms then [event_simple RT i] else [])" for k en'
  proof (induction ms arbitrary: s en' k)
    case (Cons m ms)
    obtain s1 en1 where x: "ack_with_table e t rxSar m (s, en') = (s1, en1)" by fastforce
    note st = duplicate_step [OF _ assms(1) Cons.prems(2-4), of i m e rxSar s, unfolded x, simplified fst_conv snd_conv]
    have d: "duplicate_ack i en' m" using Cons.prems(1) by simp
    have "\<forall>m\<in>set ms. duplicate_ack i en1 m" using Cons.prems(1) st(2) [OF d] by (auto simp: duplicate_ack_def)
    from Cons.IH [OF this, of "Suc k" s1] st [OF d] Cons.prems(2)
    show ?case by (auto simp: x simp del: of_nat_Suc)
  qed simp
  from this [of en 0] assms show ?thesis by simp
qed

section \<open>Payload\<close>

text \<open>What the default configuration accepts, and where a segment opens the receive window.\<close>

definition takes :: "rxfsm_env \<Rightarrow> sessionState \<Rightarrow> rxSarEntry \<Rightarrow> rxEngineMetaData \<Rightarrow> bool" where
  "takes e t rxSar m \<longleftrightarrow> rm_seqNumb m = rse_recvd rxSar \<and>
     (control_bits m = 1 \<and> ack_accepts t \<and> buffer_has_room e \<or>
      control_bits m = 5 \<and> t \<in> {ESTABLISHED, FIN_WAIT_1, FIN_WAIT_2})"

definition opens :: "sessionState \<Rightarrow> rxTxSarReply \<Rightarrow> rxEngineMetaData \<Rightarrow> bool" where
  "opens t txSar m \<longleftrightarrow> control_bits m = 2 \<and> t \<in> {CLOSED, SYN_SENT} \<or>
     control_bits m = 3 \<and> t = SYN_SENT \<and> rm_ackNumb m = rtr_nextByte txSar"

definition segment_end :: "rxEngineMetaData \<Rightarrow> u32" where
  "segment_end m = rm_seqNumb m + ucast (rm_length m) + (if rm_fin m then 1 else 0)"

lemma control_bits_cases:
  obtains (ack) "control_bits m = 1" "\<not> rm_fin m" | (syn) "control_bits m = 2" | (syn_ack) "control_bits m = 3"
    | (fin) "control_bits m = 5" "rm_fin m" | (other) "control_bits m \<notin> {1, 2, 3, 5}"
  using control_bits_iff [of m] by blast

lemma rf_segment_rxSar:
  assumes "fe_bypass e"
  shows "rf_rxSar_req (rf_segment e t rxSar txSar s) = rf_rxSar_req s @
    (let m = rf_seg s; i = rf_id s in
     if takes e t rxSar m \<and> (rm_length m \<noteq> 0 \<or> rm_fin m)
     then [rxSarRecvd_upd (fe_recvd e) i (segment_end m) (segment_end m) (rse_offset rxSar) (rse_gap rxSar)]
     else if opens t txSar m
     then [rxSarRecvd_init i (rm_seqNumb m + 1) (rm_seqNumb m + 1) 0 False (rx_win_shift m)]
     else [])"
proof (cases rule: control_bits_cases [of "rf_seg s"])
  case ack
  then show ?thesis
    using assms by (auto simp: rf_segment_def rf_ack_def rf_ack_open_def rf_ack_closed_def rf_payload_def
        rf_payload_bypass_def takes_def opens_def segment_end_def Let_def)
next
  case syn
  then show ?thesis by (auto simp: rf_segment_def rf_syn_def takes_def opens_def Let_def)
next
  case syn_ack
  then show ?thesis by (auto simp: rf_segment_def rf_syn_ack_def takes_def opens_def Let_def)
next
  case fin
  then show ?thesis
    by (auto simp: rf_segment_def rf_fin_def rf_fin_state_def takes_def opens_def segment_end_def Let_def)
next
  case other
  then show ?thesis by (auto simp: rf_segment_def rf_default_def takes_def opens_def Let_def)
qed

lemma rf_segment_drop:
  assumes "fe_bypass e"
  shows "rf_drop (rf_segment e t rxSar txSar s) = rf_drop s @
    (if rm_length (rf_seg s) \<noteq> 0 \<and> control_bits (rf_seg s) \<in> {1, 5}
     then [\<not> takes e t rxSar (rf_seg s)] else [])"
proof (cases rule: control_bits_cases [of "rf_seg s"])
  case ack
  then show ?thesis
    using assms by (auto simp: rf_segment_def rf_ack_def rf_ack_open_def rf_ack_closed_def rf_payload_def
        rf_payload_bypass_def takes_def Let_def)
next
  case fin
  then show ?thesis
    by (auto simp: rf_segment_def rf_fin_def rf_fin_state_def rf_fin_payload_def takes_def Let_def)
qed (auto simp: rf_segment_def rf_syn_def rf_syn_ack_def rf_default_def Let_def)

lemma rf_segment_notification:
  assumes "fe_bypass e"
  shows "filter (\<lambda>a. an_length a \<noteq> 0) (rf_notification (rf_segment e t rxSar txSar s)) =
    filter (\<lambda>a. an_length a \<noteq> 0) (rf_notification s) @
    (if rm_length (rf_seg s) \<noteq> 0 \<and> takes e t rxSar (rf_seg s)
     then [appNotification_mk (rf_id s) (rm_length (rf_seg s)) (fm_srcIpAddress (rf_meta s)) (fm_dstIpPort (rf_meta s))
             (rm_fin (rf_seg s))] else [])"
proof (cases rule: control_bits_cases [of "rf_seg s"])
  case ack
  then show ?thesis
    using assms by (auto simp: rf_segment_def rf_ack_def rf_ack_open_def rf_ack_closed_def rf_payload_def
        rf_payload_bypass_def takes_def appNotification_mk_def Let_def)
next
  case fin
  then show ?thesis
    by (auto simp: rf_segment_def rf_fin_def rf_fin_state_def rf_fin_payload_def takes_def appNotification_mk_def Let_def)
qed (auto simp: rf_segment_def rf_syn_def rf_syn_ack_def rf_default_def takes_def appNotification_mk_def Let_def)

text \<open>C33: one decision for the payload.  Every segment with ACK or FIN-ACK and payload gives exactly one
  drop flag, and it agrees with everything else the machine does with the segment: the flag is to
  keep the payload iff the application is told of exactly its bytes, iff the receive pointer moves to
  the end of the segment; and that is so iff \<open>takes\<close>: it starts at the receive pointer, in a state that
  takes data, and (without FIN) the buffer has room.\<close>

theorem rx_payload_decision:
  assumes "fe_bypass e" "control_bits (rf_seg s) \<in> {1, 5}" "rm_length (rf_seg s) \<noteq> 0"
    and u: "u = rf_segment e t rxSar txSar s"
  shows "let keep = takes e t rxSar (rf_seg s) in rf_drop u = rf_drop s @ [\<not> keep] \<and>
    filter (\<lambda>a. an_length a \<noteq> 0) (rf_notification u) = filter (\<lambda>a. an_length a \<noteq> 0) (rf_notification s) @
      (if keep then [appNotification_mk (rf_id s) (rm_length (rf_seg s)) (fm_srcIpAddress (rf_meta s))
         (fm_dstIpPort (rf_meta s)) (rm_fin (rf_seg s))] else []) \<and>
    map rsv_recvd (rf_rxSar_req u) = map rsv_recvd (rf_rxSar_req s) @ (if keep then [segment_end (rf_seg s)] else [])"
  using assms(1-3) unfolding u
  by (auto simp: rf_segment_drop rf_segment_notification rf_segment_rxSar Let_def rxSarRecvd_upd_def opens_def takes_def)

text \<open>A payload on any other segment is a different matter.\<close>

lemma tpf_two_packets:
  assumes "na_last v"
  shows "(rxPackageDropper ^^ 4) \<lparr>tpf_state = READ_DROP1, tpf_dataIn = [v, w], tpf_dropFifoIn1 = [False, False],
      tpf_dropFifoIn2 = [d], tpf_out = []\<rparr> =
    \<lparr>tpf_state = READ_DROP2, tpf_dataIn = [w], tpf_dropFifoIn1 = [], tpf_dropFifoIn2 = [],
      tpf_out = (if d then [] else [v])\<rparr>"
  using assms by (simp add: numeral_eq_Suc rxPackageDropper_def)

text \<open>C35: a SYN with payload (likewise SYN-ACK, RST, or no flag at all) for an open port and a session
  that exists.  The metadata handler tells the dropper to wait for a decision, and the state machine
  never gives one, whatever its state.  So the dropper takes the decision of the next segment \<open>w\<close> for
  the payload \<open>v\<close> of this one, and \<open>w\<close> is left without.\<close>

theorem syn_payload_undecided:
  assumes "mh_state h = MH_LOOKUP" "mh_sLookup_rsp h = lup # ls" "slr_hit lup"
    and "rm_length (mh_meta h) \<noteq> 0" "control_bits (mh_meta h) \<notin> {1, 5}" "fe_bypass e" "na_last v"
  shows "mh_drop (rxMetadataHandler h) = mh_drop h @ [False] \<and>
    (\<exists>fm. fm_meta fm = mh_meta h \<and> mh_fsmMetaDataFifo (rxMetadataHandler h) = mh_fsmMetaDataFifo h @ [fm] \<and>
      (\<forall>t rxSar txSar s. rf_meta s = fm \<longrightarrow> rf_drop (rf_segment e t rxSar txSar s) = rf_drop s)) \<and>
    (rxPackageDropper ^^ 4) \<lparr>tpf_state = READ_DROP1, tpf_dataIn = [v, w], tpf_dropFifoIn1 = [False, False],
        tpf_dropFifoIn2 = [d], tpf_out = []\<rparr> =
      \<lparr>tpf_state = READ_DROP2, tpf_dataIn = [w], tpf_dropFifoIn1 = [], tpf_dropFifoIn2 = [],
        tpf_out = (if d then [] else [v])\<rparr>"
  using assms
  by (simp add: tpf_two_packets rf_segment_drop) (simp add: rxMetadataHandler_def Let_def rf_segment_drop)

text \<open>An option of length 0 (any kind but 0, 1 and 3) stops the parser for ever: it neither finds a
  window scale nor returns to IDLE, however often it is called, and the segments behind it wait in
  \<open>merge_header_meta\<close>.\<close>

theorem zero_length_option_hangs:
  assumes "pof_parse s" "bits 7 0 (pof_fields s) \<notin> {0, 1, 3 :: u8}" "bits 15 8 (pof_fields s) = (0 :: u8)"
    and "pof_dataOffset s \<noteq> 0"
  shows "(parse_optional_header_fields ^^ n) s = s"
proof (induction n)
  case (Suc n)
  have "parse_optional_header_fields s = s"
    using assms by (cases s) (simp add: parse_optional_header_fields_def Let_def unat_eq_zero)
  with Suc show ?case by simp
qed simp

lemma merge_waits: "mhm_state s \<Longrightarrow> mhm_winScaleFifo s = [] \<Longrightarrow> merge_header_meta s = s"
  by (simp add: merge_header_meta_def)

section \<open>Witnesses\<close>

definition rf_reset :: rxfsm_st where
  "rf_reset = \<lparr>rf_state = FSM_LOAD,
     rf_meta = \<lparr>fm_sessionID = 0, fm_srcIpAddress = 0, fm_dstIpPort = 0,
       fm_meta = \<lparr>rm_seqNumb = 0, rm_ackNumb = 0, rm_winSize = 0, rm_winScale = 0, rm_length = 0, rm_ack = False,
         rm_rst = False, rm_syn = False, rm_fin = False, rm_dataOffset = 0\<rparr>, fm_srcIpPort = 0\<rparr>,
     rf_txSarRequest = False, rf_fsmMetaDataFifo = [], rf_stateTable_rsp = [], rf_rxSar_rsp = [], rf_txSar_rsp = [],
     rf_stateTable_req = [], rf_rxSar_req = [], rf_txSar_req = [], rf_clearRetransmitTimer = [],
     rf_clearProbeTimer = [], rf_setCloseTimer = [], rf_openConStatus = [], rf_event = [], rf_drop = [],
     rf_bufferWriteCmd = [], rf_notification = []\<rparr>"

definition ex_env :: rxfsm_env where
  "ex_env = \<lparr>fe_bypass = True, fe_MSS = 4096, fe_data_count = 0, fe_max_data_count = 1024,
     fe_recvd = \<lparr>rsv_sessionID = 0, rsv_recvd = 0, rsv_win_shift = 0, rsv_write = False, rsv_init = False,
       rsv_head = 0, rsv_offset = 0, rsv_gap = False\<rparr>, fe_shift = 0,
     fe_txSar = \<lparr>rtr_prevAck = 0, rtr_nextByte = 0, rtr_cong_window = 0, rtr_slowstart_threshold = 0,
       rtr_count = 0, rtr_fastRetransmitted = False\<rparr>\<rparr>"

definition ex_meta :: "u32 \<Rightarrow> u32 \<Rightarrow> u16 \<Rightarrow> bool \<Rightarrow> bool \<Rightarrow> rxEngineMetaData" where
  "ex_meta seq ack len a syn = \<lparr>rm_seqNumb = seq, rm_ackNumb = ack, rm_winSize = 100, rm_winScale = 0, rm_length = len,
     rm_ack = a, rm_rst = False, rm_syn = syn, rm_fin = False, rm_dataOffset = 5\<rparr>"

definition ex_fm :: "u16 \<Rightarrow> rxEngineMetaData \<Rightarrow> rxFsmMetaData" where
  "ex_fm i m = \<lparr>fm_sessionID = i, fm_srcIpAddress = 1, fm_dstIpPort = 80, fm_meta = m, fm_srcIpPort = 1024\<rparr>"

definition ex_rxSar :: "u32 \<Rightarrow> rxSarEntry" where
  "ex_rxSar r = \<lparr>rse_recvd = r, rse_appd = ucast r, rse_win_shift = 0, rse_head = r, rse_offset = 0, rse_gap = False\<rparr>"

definition ex_entry :: txSarEntry where
  "ex_entry = \<lparr>tse_ackd = 7, tse_not_ackd = 1000, tse_recv_window = 100, tse_win_shift = 0, tse_cong_window = 0x3908,
     tse_slowstart_threshold = 0xFFFF, tse_app = 1000, tse_count = 0, tse_fastRetransmitted = False,
     tse_finReady = False, tse_finSent = False\<rparr>"

lemmas ex_defs = ex_env_def ex_meta_def ex_fm_def ex_rxSar_def ex_entry_def rf_reset_def

theorem fast_retransmit_once_witness:
  "rf_event (fst (fold (ack_with_table ex_env ESTABLISHED (ex_rxSar 5))
     (replicate 9 (ex_fm 2 (ex_meta 5 7 0 True False))) (rf_reset, ex_entry))) = [event_simple RT 2]"
proof -
  have "\<forall>m\<in>set (replicate 9 (ex_fm 2 (ex_meta 5 7 0 True False))). duplicate_ack 2 ex_entry m"
    by (simp add: duplicate_ack_def ex_defs control_bits_def)
  moreover have "rf_event rf_reset = []" by (simp add: rf_reset_def)
  ultimately show ?thesis
    using fast_retransmit_once [of ESTABLISHED ex_entry "replicate 9 (ex_fm 2 (ex_meta 5 7 0 True False))" 2
        ex_env "ex_rxSar 5" rf_reset]
    by (simp add: ack_accepts_def ex_entry_def)
qed

theorem rx_payload_decision_witness:
  "rf_drop (rf_segment ex_env ESTABLISHED (ex_rxSar 5) (tx_sar_rx_read ex_entry)
      (rf_reset\<lparr>rf_meta := ex_fm 2 (ex_meta 5 7 10 True False)\<rparr>)) = [False]"
  using rx_payload_decision [of ex_env "rf_reset\<lparr>rf_meta := ex_fm 2 (ex_meta 5 7 10 True False)\<rparr>" _
      ESTABLISHED "ex_rxSar 5" "tx_sar_rx_read ex_entry", OF _ _ _ HOL.refl]
  by (simp add: ex_defs control_bits_def takes_def ack_accepts_def buffer_has_room_def Let_def)

definition ex_handler :: mh_st where
  "ex_handler = \<lparr>mh_state = MH_LOOKUP, mh_meta = ex_meta 5 0 10 False True, mh_srcIpAddress = 1, mh_dstIpPort = 80,
     mh_srcIpPort = 1024, mh_metaDataFifoIn = [], mh_sLookup_rsp = [\<lparr>slr_sessionID = 2, slr_hit = True\<rparr>],
     mh_portTable_rsp = [], mh_tupleBufferIn = [], mh_sLookup_req = [], mh_event = [], mh_drop = [],
     mh_fsmMetaDataFifo = []\<rparr>"

theorem syn_payload_undecided_witness:
  "mh_drop (rxMetadataHandler ex_handler) = [False]"
  using syn_payload_undecided [of ex_handler "\<lparr>slr_sessionID = 2, slr_hit = True\<rparr>" "[]" ex_env
      "\<lparr>na_data = 0, na_keep = 0, na_last = True\<rparr> :: (64, 8) axis" "\<lparr>na_data = 0, na_keep = 0, na_last = True\<rparr>" False]
  by (simp add: ex_handler_def ex_defs control_bits_def)

theorem zero_length_option_hangs_witness:
  "(parse_optional_header_fields ^^ 1000) \<lparr>pof_parse = True, pof_dataOffset = 1, pof_fields = 2,
      pof_dataOffsetIn = [], pof_fieldsIn = [], pof_windowScaleOut = []\<rparr> =
    \<lparr>pof_parse = True, pof_dataOffset = 1, pof_fields = 2, pof_dataOffsetIn = [], pof_fieldsIn = [],
      pof_windowScaleOut = []\<rparr>"
proof (rule zero_length_option_hangs)
  have "bits 7 0 (2 :: 320 word) = (2 :: u8)" "bits 15 8 (2 :: 320 word) = (0 :: u8)" by code_simp+
  then show "bits 7 0 (pof_fields \<lparr>pof_parse = True, pof_dataOffset = 1, pof_fields = 2, pof_dataOffsetIn = [],
      pof_fieldsIn = [], pof_windowScaleOut = []\<rparr>) \<notin> {0, 1, 3 :: u8}"
    "bits 15 8 (pof_fields \<lparr>pof_parse = True, pof_dataOffset = 1, pof_fields = 2, pof_dataOffsetIn = [],
      pof_fieldsIn = [], pof_windowScaleOut = []\<rparr>) = (0 :: u8)" by simp_all
qed simp_all

end
