(* ===== verification/Rx_Fsm.thy ===== *)
theory Rx_Fsm
  imports Rx_Engine Tx_App
begin

text \<open>
  \<open>rxTcpFSM\<close> composed with the tables it reads and writes.  With \<open>state_table.cpp\<close>: it follows the
  locking protocol, decides on the current state, and moves every session along RFC 793.  With
  \<open>rx_sar_table.cpp\<close>: the segments it accepts for a session are contiguous.
\<close>

section \<open>With the state table\<close>

text \<open>The environment is everything else: the application, the timers and the transmit side on the
  side of the table; the metadata handler and the other tables on the side of the machine.\<close>

definition rf_connect :: "rxfsm_st \<Rightarrow> state_table_st \<Rightarrow> rxfsm_st" where
  "rf_connect a s = a\<lparr>rf_stateTable_rsp := stateTable2rxEng_upd_rsp s,
     rf_stateTable_req := rxEng2stateTable_upd_req s\<rparr>"

definition rf_return :: "rxfsm_st \<Rightarrow> state_table_st \<Rightarrow> state_table_st" where
  "rf_return a s = s\<lparr>rxEng2stateTable_upd_req := rf_stateTable_req a,
     stateTable2rxEng_upd_rsp := rf_stateTable_rsp a\<rparr>"

text \<open>What a decision of the machine rests on: the segment, whether it starts at the receive pointer of
  the answer of the receive table, and whether it acknowledges the last byte sent of the answer of the
  transmit table (for a SYN, and for a RST without ACK, an uninitialised variable of the code).  The
  last decision is kept as a history.\<close>

type_synonym decision = "rxFsmMetaData \<times> bool \<times> bool"

definition rf_answer :: "rxfsm_env \<Rightarrow> rxfsm_st \<Rightarrow> rxTxSarReply" where
  "rf_answer e a = (if control_bits (rf_seg a) = 2 \<or> rf_txSar_rsp a = [] then fe_txSar e else hd (rf_txSar_rsp a))"

definition rf_decision :: "rxfsm_env \<Rightarrow> rxfsm_st \<Rightarrow> decision" where
  "rf_decision e a = (rf_meta a, rm_seqNumb (rf_seg a) = rse_recvd (hd (rf_rxSar_rsp a)),
     rm_ackNumb (rf_seg a) = rtr_nextByte (rf_answer e a))"

definition decides :: "rxfsm_st \<Rightarrow> bool" where
  "decides a \<longleftrightarrow> rf_state a = FSM_TRANSITION \<and> rf_ready a"

definition record_decision :: "rxfsm_env \<Rightarrow> rxfsm_st \<Rightarrow> decision \<Rightarrow> decision" where
  "record_decision e a g = (if decides a then rf_decision e a else g)"

type_synonym rfs_st = "(rxfsm_st \<times> state_table_st) \<times> decision"

definition rfs_cyc :: "rxfsm_env \<Rightarrow> rfs_st \<Rightarrow> rfs_st option" where
  "rfs_cyc e x =
     (let a = rf_connect (fst (fst x)) (snd (fst x)); b = rxTcpFSM e a
      in map_option (\<lambda>t. ((b, t), record_decision e a (snd x))) (state_table (rf_return b (snd (fst x)))))"

definition rfs_env :: "nat \<Rightarrow> rfs_st \<Rightarrow> rfs_st \<Rightarrow> bool" where
  "rfs_env n x y \<longleftrightarrow> (case (x, y) of (((a, s), g), ((b, t), h)) \<Rightarrow> h = g \<and>
     stt_env n s t \<and> rxEng2stateTable_upd_req t = rxEng2stateTable_upd_req s \<and>
     stateTable2rxEng_upd_rsp t = stateTable2rxEng_upd_rsp s \<and>
     rf_state b = rf_state a \<and> rf_meta b = rf_meta a \<and>
     (\<exists>ms. rf_fsmMetaDataFifo b = rf_fsmMetaDataFifo a @ ms \<and> (\<forall>m\<in>set ms. unat (fm_sessionID m) < n)))"

text \<open>The change of state that a segment must cause (the normal course of a connection, and a valid
  reset), and the changes that it may cause: those of RFC 793, an abort of an opening connection by a
  SYN-ACK that acknowledges the wrong byte (RFC 793 keeps SYN-SENT), and out of FIN-WAIT-2 those out of
  FIN-WAIT-1, with which the stack merges it.\<close>

definition must_move :: "rxEngineMetaData \<Rightarrow> bool \<Rightarrow> bool \<Rightarrow> sessionState \<Rightarrow> sessionState option" where
  "must_move m in_seq acks_all t =
     (if rm_rst m then if (if t = SYN_SENT then acks_all else in_seq) then Some CLOSED else None
      else case (rm_ack m, rm_syn m, rm_fin m) of
        (False, True, False) \<Rightarrow> if t \<in> {CLOSED, SYN_SENT} then Some SYN_RECEIVED else None
      | (True, True, False) \<Rightarrow> if t = SYN_SENT \<and> acks_all then Some ESTABLISHED else None
      | (True, False, False) \<Rightarrow>
          if \<not> acks_all then None
          else if t = SYN_RECEIVED then Some ESTABLISHED
          else if t = CLOSING then Some TIME_WAIT
          else if t = LAST_ACK then Some CLOSED
          else None
      | (True, False, True) \<Rightarrow>
          if \<not> in_seq then None
          else if t = ESTABLISHED then Some LAST_ACK
          else if t = FIN_WAIT_1 then Some (if acks_all then TIME_WAIT else CLOSING)
          else None
      | _ \<Rightarrow> None)"

definition may_move :: "rxEngineMetaData \<Rightarrow> bool \<Rightarrow> bool \<Rightarrow> sessionState \<Rightarrow> sessionState \<Rightarrow> bool" where
  "may_move m in_seq acks_all t t' \<longleftrightarrow> rfc793 m in_seq acks_all t t' \<or>
     t = SYN_SENT \<and> t' = CLOSED \<and> rm_syn m \<and> rm_ack m \<and> \<not> acks_all \<or>
     t = FIN_WAIT_2 \<and> rfc793 m in_seq acks_all FIN_WAIT_1 t'"

definition rx_edge :: "decision \<Rightarrow> sessionState \<Rightarrow> sessionState \<Rightarrow> bool" where
  "rx_edge g t t' \<longleftrightarrow> (case g of (f, in_seq, acks_all) \<Rightarrow>
     may_move (fm_meta f) in_seq acks_all t t' \<and>
     (must_move (fm_meta f) in_seq acks_all t = None \<or> must_move (fm_meta f) in_seq acks_all t = Some t') \<and>
     (t' = FIN_WAIT_2 \<longrightarrow> t = FIN_WAIT_2))"

lemma rf_segment_may:
  "\<exists>t'. rf_stateTable_req (rf_segment e t rxSar txSar s) = rf_stateTable_req s @ [stateQuery_write (rf_id s) t'] \<and>
    may_move (rf_seg s) (rm_seqNumb (rf_seg s) = rse_recvd rxSar) (rm_ackNumb (rf_seg s) = rtr_nextByte txSar) t t' \<and>
    (t' = FIN_WAIT_2 \<longrightarrow> t = FIN_WAIT_2)"
proof (cases "t = FIN_WAIT_2")
  case False
  then show ?thesis using rf_segment_state [of t e rxSar txSar s] unfolding may_move_def by blast
next
  case True
  show ?thesis
  proof (cases rule: control_bits_cases [of "rf_seg s"])
    case ack
    with True show ?thesis
      by (intro exI [of _ FIN_WAIT_2]) (simp add: rf_segment_def rf_ack_req ack_next_def may_move_def rfc793.stay)
  next
    case fin
    then have "rm_ack (rf_seg s)" "\<not> rm_rst (rf_seg s)" "rm_fin (rf_seg s)" by (simp_all add: control_bits_iff [simplified])
    with True fin show ?thesis
      by (auto simp: rf_segment_def rf_fin_def rf_fin_state_def Let_def may_move_def intro: rfc793.intros)
  next
    case other
    with True show ?thesis
      by (auto simp: rf_segment_def rf_default_def Let_def may_move_def intro: rfc793.intros)
  qed (use True in \<open>auto simp: rf_segment_def rf_syn_def rf_syn_ack_def Let_def may_move_def intro: rfc793.stay\<close>)
qed

lemma rf_segment_must:
  assumes "rf_stateTable_req (rf_segment e t rxSar txSar s) = rf_stateTable_req s @ [stateQuery_write (rf_id s) t']"
    and "must_move (rf_seg s) (rm_seqNumb (rf_seg s) = rse_recvd rxSar) (rm_ackNumb (rf_seg s) = rtr_nextByte txSar) t = Some d"
  shows "t' = d"
proof (cases rule: control_bits_cases [of "rf_seg s"])
  case ack
  with assms show ?thesis
    by (auto simp: rf_segment_def rf_ack_req ack_next_def ack_accepts_def must_move_def control_bits_iff [simplified]
        stateQuery_write_def split: if_splits)
next
  case syn
  with assms show ?thesis
    by (auto simp: rf_segment_def rf_syn_def Let_def must_move_def control_bits_iff [simplified] stateQuery_write_def
        split: if_splits)
next
  case syn_ack
  with assms show ?thesis
    by (auto simp: rf_segment_def rf_syn_ack_def Let_def must_move_def control_bits_iff [simplified] stateQuery_write_def
        split: if_splits)
next
  case fin
  with assms show ?thesis
    by (auto simp: rf_segment_def rf_fin_def rf_fin_state_def Let_def must_move_def control_bits_iff [simplified]
        stateQuery_write_def split: if_splits)
next
  case other
  with assms(2) have "rm_rst (rf_seg s)"
    by (auto simp: must_move_def control_bits_def split: if_splits bool.splits)
  with other assms show ?thesis
    by (auto simp: rf_segment_def rf_default_def Let_def must_move_def stateQuery_write_def split: if_splits)
qed

lemma rf_segment_edge:
  "\<exists>t'. rf_stateTable_req (rf_segment e t rxSar txSar s) = rf_stateTable_req s @ [stateQuery_write (rf_id s) t'] \<and>
    rx_edge (rf_meta s, rm_seqNumb (rf_seg s) = rse_recvd rxSar, rm_ackNumb (rf_seg s) = rtr_nextByte txSar) t t'"
proof -
  from rf_segment_may [of e t rxSar txSar s] obtain t' where
    t': "rf_stateTable_req (rf_segment e t rxSar txSar s) = rf_stateTable_req s @ [stateQuery_write (rf_id s) t']"
    "may_move (rf_seg s) (rm_seqNumb (rf_seg s) = rse_recvd rxSar) (rm_ackNumb (rf_seg s) = rtr_nextByte txSar) t t'"
    "t' = FIN_WAIT_2 \<longrightarrow> t = FIN_WAIT_2" by blast
  with rf_segment_must [OF t'(1)] show ?thesis
    by (intro exI [of _ t'])
      (cases "must_move (rf_seg s) (rm_seqNumb (rf_seg s) = rse_recvd rxSar) (rm_ackNumb (rf_seg s) = rtr_nextByte txSar) t";
        simp add: rx_edge_def)
qed

lemma rf_segment_frame: "rf_frame u (rf_segment e t rxSar txSar s) = rf_frame u s"
proof (cases rule: control_bits_cases [of "rf_seg s"])
  case ack
  then show ?thesis by (simp add: rf_segment_def rf_ack_def rf_ack_open_def rf_ack_closed_def Let_def)
next
  case fin
  then show ?thesis by (simp add: rf_segment_def rf_fin_def rf_fin_state_def Let_def)
qed (simp_all add: rf_segment_def rf_syn_def rf_syn_ack_def rf_default_def Let_def)

lemma rf_moves:
  assumes "b = rxTcpFSM e a"
  obtains (stay) "rf_state b = rf_state a" "rf_meta b = rf_meta a" "rf_stateTable_req b = rf_stateTable_req a"
      "rf_stateTable_rsp b = rf_stateTable_rsp a" "rf_fsmMetaDataFifo b = rf_fsmMetaDataFifo a" "\<not> decides a"
  | (load) m where "rf_state a = FSM_LOAD" "rf_state b = FSM_TRANSITION" "rf_meta b = m"
      "rf_fsmMetaDataFifo a = m # rf_fsmMetaDataFifo b"
      "rf_stateTable_req b = rf_stateTable_req a @ [stateQuery_read (fm_sessionID m)]"
      "rf_stateTable_rsp b = rf_stateTable_rsp a" "\<not> decides a"
  | (answer) v t where "decides a" "rf_state a = FSM_TRANSITION" "rf_state b = FSM_LOAD" "rf_meta b = rf_meta a"
      "rf_stateTable_rsp a = v # rf_stateTable_rsp b" "rf_fsmMetaDataFifo b = rf_fsmMetaDataFifo a"
      "rf_stateTable_req b = rf_stateTable_req a @ [stateQuery_write (rf_id a) t]" "rx_edge (rf_decision e a) v t"
proof (cases "rf_state a")
  case FSM_LOAD
  then have b: "b = rf_load e a" using assms by (simp add: rxTcpFSM_def)
  show thesis
  proof (cases "rf_fsmMetaDataFifo a")
    case Nil
    then show thesis using b FSM_LOAD by (intro stay) (simp_all add: rf_load_def decides_def)
  next
    case (Cons m ms)
    then show thesis using b FSM_LOAD by (intro load [of m]) (simp_all add: rf_load_def Let_def decides_def)
  qed
next
  case FSM_TRANSITION
  then have b: "b = rf_transition e a" using assms by (simp add: rxTcpFSM_def)
  show thesis
  proof (cases "rf_ready a")
    case False
    then show thesis using b by (intro stay) (simp_all add: rf_transition_def decides_def)
  next
    case True
    then obtain v vs where v: "rf_stateTable_rsp a = v # vs" by (auto simp: rf_ready_def neq_Nil_conv)
    define u where "u = a\<lparr>rf_state := FSM_LOAD, rf_txSarRequest := False,
                  rf_stateTable_rsp := tl (rf_stateTable_rsp a), rf_rxSar_rsp := tl (rf_rxSar_rsp a),
                  rf_txSar_rsp := (if control_bits (rf_seg a) = 2 then rf_txSar_rsp a else tl (rf_txSar_rsp a))\<rparr>"
    define r where "r = hd (rf_rxSar_rsp a)"
    have bu: "b = rf_segment e v r (rf_answer e a) u"
      using b True v by (simp add: rf_transition_def u_def r_def rf_answer_def Let_def)
    have "rf_frame u b" unfolding bu rf_segment_frame by (simp add: rf_frame_def)
    then have f: "rf_state b = FSM_LOAD" "rf_meta b = rf_meta a" "rf_stateTable_rsp b = vs"
      "rf_fsmMetaDataFifo b = rf_fsmMetaDataFifo a"
      by (simp_all add: rf_frame_def u_def v)
    have "rf_stateTable_req u = rf_stateTable_req a" "rf_meta u = rf_meta a" by (simp_all add: u_def)
    with rf_segment_edge [of e v r "rf_answer e a" u] obtain t where
      "rf_stateTable_req b = rf_stateTable_req a @ [stateQuery_write (rf_id a) t]" "rx_edge (rf_decision e a) v t"
      unfolding bu rf_decision_def r_def by metis
    with f v FSM_TRANSITION True show thesis by (intro answer [of v t]) (simp_all add: decides_def)
  qed
qed

subsection \<open>The invariant\<close>

definition rx_pending :: "state_table_st \<Rightarrow> stateQuery list" where
  "rx_pending s = (if stt_rxWait s then [stt_rxAccess s] else []) @ rxEng2stateTable_upd_req s"

definition rf_question :: "fsmStateType \<Rightarrow> u16 \<Rightarrow> stateQuery list" where
  "rf_question f i = (case f of FSM_LOAD \<Rightarrow> [] | FSM_TRANSITION \<Rightarrow> [stateQuery_read i])"

text \<open>Either the answer has not come: then what is pending is the write of the session it holds, if
  any, which is the last decision, and the question; or it has: then it is the state of the session, which the machine holds.\<close>

definition rf_waits :: "decision \<Rightarrow> fsmStateType \<Rightarrow> u16 \<Rightarrow> state_table_st \<Rightarrow> bool" where
  "rf_waits g f i s \<longleftrightarrow>
     (if stateTable2rxEng_upd_rsp s = [] then
        if stt_rxSessionLocked s
        then \<exists>w. rx_pending s = w # rf_question f i \<and> sq_write w \<and> sq_sessionID w = stt_rxSessionID s \<and>
          fm_sessionID (fst g) = sq_sessionID w \<and>
          rx_edge g (stt_table s ! unat (sq_sessionID w)) (sq_state w)
        else rx_pending s = rf_question f i
      else f = FSM_TRANSITION \<and> rx_pending s = [] \<and> rx_holds s i \<and>
        stateTable2rxEng_upd_rsp s = [stt_table s ! unat i])"

definition rfs_inv :: "nat \<Rightarrow> rfs_st \<Rightarrow> bool" where
  "rfs_inv n x \<longleftrightarrow> (case x of ((a, s), g) \<Rightarrow>
     stt_inv n s \<and> (stt_rxWait s \<longrightarrow> \<not> stt_rxSessionLocked s) \<and> rf_waits g (rf_state a) (rf_id a) s \<and>
     (rf_state a = FSM_TRANSITION \<longrightarrow> unat (rf_id a) < n) \<and> (\<forall>m\<in>set (rf_fsmMetaDataFifo a). unat (fm_sessionID m) < n))"

lemma rx_pending_step:
  assumes "stt_step s t" "stt_rxWait s \<longrightarrow> \<not> stt_rxSessionLocked s" "stt_exclusive s"
  shows "rx_pending t = rx_pending s \<and> stateTable2rxEng_upd_rsp t = stateTable2rxEng_upd_rsp s \<and>
       stt_rxSessionLocked t = stt_rxSessionLocked s \<and> stt_rxSessionID t = stt_rxSessionID s
    \<or> (\<exists>q. rx_pending s = q # rx_pending t \<and> (if sq_write q
         then stateTable2rxEng_upd_rsp t = stateTable2rxEng_upd_rsp s \<and> \<not> stt_rxSessionLocked t
         else stateTable2rxEng_upd_rsp t =
                stateTable2rxEng_upd_rsp s @ [stt_table t ! unat (sq_sessionID q)] \<and>
              rx_holds t (sq_sessionID q)))"
  using assms
  by (induction rule: stt_step.induct)
    (auto simp: rx_pending_def stt_exec_Some stt_txapp_read_Some stt_take_defs Let_def rx_holds_def)

lemma rf_waits_step:
  assumes st: "stt_step s t" and x: "stt_exclusive s" "stt_rxWait s \<longrightarrow> \<not> stt_rxSessionLocked s"
    and w: "rf_waits g f i s"
  shows "rf_waits g f i t"
  using rx_pending_step [OF st x(2,1)]
proof (elim disjE exE conjE)
  assume same: "rx_pending t = rx_pending s" "stateTable2rxEng_upd_rsp t = stateTable2rxEng_upd_rsp s"
    "stt_rxSessionLocked t = stt_rxSessionLocked s" "stt_rxSessionID t = stt_rxSessionID s"
  then have h: "rx_holds t = rx_holds s" by (simp add: rx_holds_def fun_eq_iff)
  have "stt_table t ! unat k = stt_table s ! unat k" if "rx_holds s k" for k
    using rx_held_entry [OF st, of k] that h x by simp
  with same w h show ?thesis by (auto simp: rf_waits_def rx_holds_def split: if_splits)
next
  fix q assume p: "rx_pending s = q # rx_pending t" and "if sq_write q
         then stateTable2rxEng_upd_rsp t = stateTable2rxEng_upd_rsp s \<and> \<not> stt_rxSessionLocked t
         else stateTable2rxEng_upd_rsp t =
                stateTable2rxEng_upd_rsp s @ [stt_table t ! unat (sq_sessionID q)] \<and>
              rx_holds t (sq_sessionID q)"
  moreover note w p
  ultimately show ?thesis
    by (cases f) (auto simp: rf_waits_def rf_question_def stateQuery_read_def split: if_splits)
qed

lemma rf_return_simps [simp]:
  "rx_pending (rf_return b s) = (if stt_rxWait s then [stt_rxAccess s] else []) @ rf_stateTable_req b"
  "stateTable2rxEng_upd_rsp (rf_return b s) = rf_stateTable_rsp b"
  "stt_rxSessionLocked (rf_return b s) = stt_rxSessionLocked s"
  "stt_rxSessionID (rf_return b s) = stt_rxSessionID s"
  "stt_rxWait (rf_return b s) = stt_rxWait s" "stt_table (rf_return b s) = stt_table s"
  "rx_holds (rf_return b s) = rx_holds s" "tx_pending (rf_return b s) = tx_pending s"
  "timer2stateTable_releaseState (rf_return b s) = timer2stateTable_releaseState s"
  "stt_closeWait (rf_return b s) = stt_closeWait s" "stt_closeSessionID (rf_return b s) = stt_closeSessionID s"
  by (simp_all add: rf_return_def rx_pending_def tx_pending_def rx_holds_def fun_eq_iff)

lemma stt_inv_rf_return:
  "stt_inv n s \<Longrightarrow> \<forall>q\<in>set (rf_stateTable_req b). unat (sq_sessionID q) < n \<Longrightarrow> stt_inv n (rf_return b s)"
  by (simp add: stt_inv_def stt_ids_ok_def stt_exclusive_def rx_holds_def tx_holds_def rf_return_def)

lemma rf_call:
  assumes inv: "rfs_inv n ((a, s), g)" and b: "b = rxTcpFSM e (rf_connect a s)"
    and h: "h = record_decision e (rf_connect a s) g"
  shows "rfs_inv n ((b, rf_return b s), h)"
proof -
  have i: "stt_inv n s" "stt_rxWait s \<longrightarrow> \<not> stt_rxSessionLocked s" "rf_waits g (rf_state a) (rf_id a) s"
    "rf_state a = FSM_TRANSITION \<longrightarrow> unat (rf_id a) < n" "\<forall>m\<in>set (rf_fsmMetaDataFifo a). unat (fm_sessionID m) < n"
    using inv by (simp_all add: rfs_inv_def)
  have q: "\<forall>q\<in>set (rxEng2stateTable_upd_req s). unat (sq_sessionID q) < n"
    using i(1) by (simp add: stt_inv_def stt_ids_ok_def)
  from b show ?thesis
  proof (cases rule: rf_moves)
    case stay
    then have "rf_return b s = s" by (simp add: rf_return_def rf_connect_def)
    with stay i show ?thesis by (simp add: rfs_inv_def rf_connect_def h record_decision_def)
  next
    case (load m)
    have rsp: "stateTable2rxEng_upd_rsp s = []" "rf_stateTable_rsp b = []"
      using i(3) load by (auto simp: rf_waits_def rf_connect_def split: if_splits)
    have p: "rx_pending (rf_return b s) = rx_pending s @ [stateQuery_read (rf_id b)]"
      by (simp add: load rf_connect_def rx_pending_def [of s])
    have "rf_state a = FSM_LOAD" using load by (simp add: rf_connect_def)
    then have "rf_waits g (rf_state b) (rf_id b) (rf_return b s)"
      using i(3) load(2) rsp by (auto simp: rf_waits_def rf_question_def p simp del: rf_return_simps(1) split: if_splits)
    with load i q show ?thesis
      by (auto simp: rfs_inv_def rf_connect_def stateQuery_read_def h record_decision_def intro!: stt_inv_rf_return)
  next
    case (answer v t)
    have w: "rx_pending s = []" "rx_holds s (rf_id a)" "v = stt_table s ! unat (rf_id a)" "rf_stateTable_rsp b = []"
      using i(3) answer by (auto simp: rf_waits_def rf_connect_def split: if_splits)
    then have "\<not> stt_rxWait s" "rxEng2stateTable_upd_req s = []"
      by (auto simp: rx_pending_def split: if_splits)
    with w answer i show ?thesis
      by (auto simp: rfs_inv_def rf_connect_def rf_waits_def rf_question_def stateQuery_write_def rx_holds_def
          h record_decision_def rf_decision_def
          intro!: stt_inv_rf_return)
  qed
qed

lemma rfs_inv_env: "rfs_inv n x \<Longrightarrow> rfs_env n x y \<Longrightarrow> rfs_inv n y"
proof -
  assume i: "rfs_inv n x" and e: "rfs_env n x y"
  obtain a s g b t h where xy: "x = ((a, s), g)" "y = ((b, t), h)" by (metis surj_pair)
  from e obtain p q r u v w z where t: "t = s\<lparr>txApp2stateTable_upd_req := p, txApp2stateTable_req := q,
      timer2stateTable_releaseState := r, stateTable2TxApp_upd_rsp := u,
      stateTable2txApp_rsp := v, stateTable2sLookup_releaseSession := w\<rparr>"
    by (auto simp: xy rfs_env_def stt_env_def)
  have "stt_rxWait t = stt_rxWait s" "stt_rxSessionLocked t = stt_rxSessionLocked s" "rf_waits g f c t = rf_waits g f c s" for f c
    by (simp_all add: t rf_waits_def rx_pending_def rx_holds_def)
  with i e show ?thesis
    by (auto simp: xy rfs_inv_def rfs_env_def intro: stt_env_inv)
qed

lemma stt_step_rx_wait:
  "stt_step s t \<Longrightarrow> stt_exclusive s \<Longrightarrow> rf_waits g f i s \<Longrightarrow> stt_rxWait s \<longrightarrow> \<not> stt_rxSessionLocked s \<Longrightarrow>
   stt_rxWait t \<longrightarrow> \<not> stt_rxSessionLocked t"
  by (induction rule: stt_step.induct)
    (auto simp: stt_exec_Some stt_txapp_read_Some stt_take_defs Let_def stt_exclusive_def rx_holds_def tx_holds_def
      rf_waits_def rx_pending_def split: if_splits)

lemma rfs_inv_cyc:
  fixes e :: rxfsm_env and a :: rxfsm_st and s :: state_table_st and g :: decision
  assumes i: "rfs_inv n ((a, s), g)"
  defines "b \<equiv> rxTcpFSM e (rf_connect a s)"
    and "h \<equiv> record_decision e (rf_connect a s) g"
  shows "\<exists>t. state_table (rf_return b s) = Some t \<and> rfs_cyc e ((a, s), g) = Some ((b, t), h) \<and> rfs_inv n ((b, t), h)"
proof -
  have c: "rfs_inv n ((b, rf_return b s), h)"
    by (rule rf_call [OF i b_def [THEN meta_eq_to_obj_eq] h_def [THEN meta_eq_to_obj_eq]])
  then have "stt_inv n (rf_return b s)" by (simp add: rfs_inv_def)
  then obtain t where t: "state_table (rf_return b s) = Some t" using stt.cyc_safe by blast
  note st = state_table_step [OF t]
  from c have r: "stt_exclusive (rf_return b s)" "stt_ids_ok n (rf_return b s)"
    "stt_rxWait (rf_return b s) \<longrightarrow> \<not> stt_rxSessionLocked (rf_return b s)"
    "rf_waits h (rf_state b) (rf_id b) (rf_return b s)"
    by (simp_all add: rfs_inv_def stt_inv_def del: rf_return_simps)
  from c have "rfs_inv n ((b, t), h)"
    using rf_waits_step [OF st r(1,3,4)] stt_step_ids [OF st r(2)] stt_step_exclusive [OF st r(1)]
      stt_step_rx_wait [OF st r(1,4,3)]
    by (simp add: rfs_inv_def stt_inv_def)
  moreover have "rfs_cyc e ((a, s), g) = Some ((b, t), h)"
    using t by (simp add: rfs_cyc_def b_def h_def Let_def)
  ultimately show ?thesis using t by blast
qed

interpretation rfs: clocked "rfs_inv n" "rfs_env n" rfs_cyc for n
proof unfold_locales
  show "rfs_inv n y" if "rfs_inv n x" "rfs_env n x y" for x y
    using that by (rule rfs_inv_env)
  fix e x assume i: "rfs_inv n x"
  obtain a s g where x: "x = ((a, s), g)" by (metis surj_pair)
  note c = rfs_inv_cyc [OF i [unfolded x], of e]
  from c show "\<exists>y. rfs_cyc e x = Some y" unfolding x by blast
  show "rfs_inv n y" if "rfs_cyc e x = Some y" for y
    using c that unfolding x by auto
qed

lemma rfs_inv_reset: "rfs_inv n ((rf_reset, stt_init n), g)"
  using stt_inv_init [of n]
  by (simp add: rfs_inv_def rf_reset_def rf_waits_def rx_pending_def rf_question_def) (simp add: stt_init_def)

text \<open>How a cycle of the table changes the state of a session.\<close>

lemma stt_step_change:
  assumes "stt_step s t"
  shows "stt_table t ! unat k = stt_table s ! unat k
    \<or> (\<exists>q. rx_pending s = q # rx_pending t \<and> sq_write q \<and> sq_sessionID q = k \<and> stt_table t ! unat k = sq_state q)
    \<or> (\<exists>q. tx_pending s = q # tx_pending t \<and> sq_write q \<and> sq_sessionID q = k \<and> stt_table t ! unat k = sq_state q)
    \<or> stt_table t ! unat k = CLOSED \<and>
       k \<in> set (timer2stateTable_releaseState s) \<union> (if stt_closeWait s then {stt_closeSessionID s} else {})"
  using assms
  by (induction rule: stt_step.induct)
    (auto simp: rx_pending_def tx_pending_def stt_exec_Some stt_txapp_read_Some stt_take_defs Let_def nth_list_update
      split: if_splits)

text \<open>C30: connections follow RFC 793.  Whatever the network, the application and the timers do:
  when the machine decides on a segment, the answer it decides on is the state the session is really
  in, and the state it writes is what RFC 793 allows, and what it requires, for the control bits of
  this very segment, its sequence number against the receive pointer that was answered and its
  acknowledgement against the last byte sent that was answered.  In every cycle the state of each
  session stays, or moves from the state it is in along the edge of the last decision, which was for
  this session, or takes what the transmit side writes, or is closed by a timer.  The receive engine
  follows the locking protocol (\<open>rx_disciplined\<close>), and never enters FIN-WAIT-2.\<close>

theorem connections_follow_rfc793:
  assumes r: "reach (rfs_env n) rfs_cyc ((rf_reset, stt_init n), g0) ((a, s), g)" and k: "unat k < n"
  shows "\<exists>b t h. rfs_cyc e ((a, s), g) = Some ((b, t), h) \<and> rx_disciplined s \<and>
    (decides (rf_connect a s) \<longrightarrow> h = rf_decision e (rf_connect a s) \<and>
       stateTable2rxEng_upd_rsp s = [stt_table s ! unat (rf_id a)] \<and>
       (\<exists>t'. rf_stateTable_req b = [stateQuery_write (rf_id a) t'] \<and> rx_edge h (stt_table s ! unat (rf_id a)) t')) \<and>
    (stt_table t ! unat k = stt_table s ! unat k
     \<or> fm_sessionID (fst h) = k \<and> rx_edge h (stt_table s ! unat k) (stt_table t ! unat k)
     \<or> (\<exists>q\<in>set (tx_pending s). sq_write q \<and> sq_sessionID q = k \<and> stt_table t ! unat k = sq_state q)
     \<or> stt_table t ! unat k = CLOSED \<and>
        k \<in> set (timer2stateTable_releaseState s) \<union> (if stt_closeWait s then {stt_closeSessionID s} else {}))"
proof -
  have inv: "rfs_inv n ((a, s), g)" by (rule rfs.reach_inv [OF r rfs_inv_reset])
  let ?b = "rxTcpFSM e (rf_connect a s)"
  let ?u = "rf_return ?b s"
  let ?h = "record_decision e (rf_connect a s) g"
  obtain t where t: "state_table ?u = Some t" "rfs_cyc e ((a, s), g) = Some ((?b, t), ?h)"
    using rfs_inv_cyc [OF inv, of e] by blast
  have w: "rf_waits ?h (rf_state ?b) (rf_id ?b) ?u"
    using rf_call [OF inv HOL.refl HOL.refl, of e] by (simp add: rfs_inv_def del: rf_return_simps)
  have d: "rx_disciplined s"
    using inv by (cases "rf_state a")
      (auto simp: rfs_inv_def rx_disciplined_def rf_waits_def rf_question_def rx_pending_def stateQuery_read_def
        rx_holds_def split: if_splits)
  have "fm_sessionID (fst ?h) = k \<and> rx_edge ?h (stt_table s ! unat k) (sq_state q)"
    if "rx_pending ?u = q # qs" "sq_write q" "sq_sessionID q = k" for q qs
    using w that by (cases "rf_state ?b")
      (auto simp: rf_waits_def rf_question_def stateQuery_read_def simp del: rf_return_simps(1) split: if_splits)
  note edge = this
  show ?thesis
  proof (intro exI conjI)
    show "rfs_cyc e ((a, s), g) = Some ((?b, t), ?h)" by (rule t(2))
    show "rx_disciplined s" by (rule d)
    show "decides (rf_connect a s) \<longrightarrow> ?h = rf_decision e (rf_connect a s) \<and>
       stateTable2rxEng_upd_rsp s = [stt_table s ! unat (rf_id a)] \<and>
       (\<exists>t'. rf_stateTable_req ?b = [stateQuery_write (rf_id a) t'] \<and> rx_edge ?h (stt_table s ! unat (rf_id a)) t')"
    proof
      assume dec: "decides (rf_connect a s)"
      from HOL.refl [of ?b] show "?h = rf_decision e (rf_connect a s) \<and>
       stateTable2rxEng_upd_rsp s = [stt_table s ! unat (rf_id a)] \<and>
       (\<exists>t'. rf_stateTable_req ?b = [stateQuery_write (rf_id a) t'] \<and> rx_edge ?h (stt_table s ! unat (rf_id a)) t')"
      proof (cases rule: rf_moves)
        case (answer v t')
        have "rf_waits g (rf_state a) (rf_id a) s" using inv by (simp add: rfs_inv_def)
        with answer have "rx_pending s = []" "stateTable2rxEng_upd_rsp s = [stt_table s ! unat (rf_id a)]"
          "v = stt_table s ! unat (rf_id a)"
          by (auto simp: rf_waits_def rf_connect_def split: if_splits)
        with answer dec show ?thesis
          by (auto simp: record_decision_def rf_connect_def rx_pending_def split: if_splits)
      qed (use dec in simp_all)
    qed
    show "stt_table t ! unat k = stt_table s ! unat k
     \<or> fm_sessionID (fst ?h) = k \<and> rx_edge ?h (stt_table s ! unat k) (stt_table t ! unat k)
     \<or> (\<exists>q\<in>set (tx_pending s). sq_write q \<and> sq_sessionID q = k \<and> stt_table t ! unat k = sq_state q)
     \<or> stt_table t ! unat k = CLOSED \<and>
        k \<in> set (timer2stateTable_releaseState s) \<union> (if stt_closeWait s then {stt_closeSessionID s} else {})"
      using stt_step_change [OF state_table_step [OF t(1)], of k]
    proof (elim disjE exE conjE)
      fix q assume "rx_pending ?u = q # rx_pending t" "sq_write q" "sq_sessionID q = k" "stt_table t ! unat k = sq_state q"
      with edge [OF this(1-3)] show ?thesis by auto
    qed (auto simp del: rf_return_simps(1))
  qed
qed

text \<open>A listening session receives a SYN: the decision and, in the same cycle, the change of its state.\<close>

definition rfs_ex :: rfs_st where
  "rfs_ex = (let x = the (rfs_cyc ex_env
       ((rf_reset\<lparr>rf_fsmMetaDataFifo := [ex_fm 1 (ex_meta 5 0 0 False True)]\<rparr>, stt_init 2), (ex_fm 0 (ex_meta 0 0 0 False False), False, False)))
     in (((fst (fst x))\<lparr>rf_rxSar_rsp := [ex_rxSar 0]\<rparr>, snd (fst x)), snd x))"

theorem connections_follow_rfc793_witness:
  "\<exists>b t h. rfs_cyc ex_env rfs_ex = Some ((b, t), h) \<and> stt_table t = [CLOSED, SYN_RECEIVED] \<and>
     fm_sessionID (fst h) = 1 \<and> rx_edge h CLOSED SYN_RECEIVED \<and>
     must_move (fm_meta (fst h)) (fst (snd h)) (snd (snd h)) CLOSED = Some SYN_RECEIVED"
proof -
  let ?g = "(ex_fm 0 (ex_meta 0 0 0 False False), False, False)"
  let ?r = "reach (rfs_env 2) rfs_cyc ((rf_reset, stt_init 2), ?g)"
  have env: "stt_env 2 s s" for s
    unfolding stt_env_def
    by (rule exI [of _ "[]"], rule exI [of _ "[]"], rule exI [of _ "[]"], rule exI [of _ "[]"],
        rule exI [of _ "stateTable2rxEng_upd_rsp s"], rule exI [of _ "stateTable2TxApp_upd_rsp s"],
        rule exI [of _ "stateTable2txApp_rsp s"], rule exI [of _ "stateTable2sLookup_releaseSession s"]) simp
  let ?x = "((rf_reset\<lparr>rf_fsmMetaDataFifo := [ex_fm 1 (ex_meta 5 0 0 False True)]\<rparr>, stt_init 2), ?g)"
  have "?r ?x"
    by (intro reach_env [OF reach_init]) (simp add: rfs_env_def env rf_reset_def ex_fm_def)
  then have "?r (the (rfs_cyc ex_env ?x))" by (rule rfs.reach_next [OF _ rfs_inv_reset])
  then have r: "?r ((fst (fst rfs_ex), snd (fst rfs_ex)), snd rfs_ex)"
    by (rule reach_env) (simp add: rfs_ex_def Let_def rfs_env_def env split: prod.split)
  have k: "unat (1 :: u16) < 2" by simp
  have dec: "decides (rf_connect (fst (fst rfs_ex)) (snd (fst rfs_ex)))" "rf_id (fst (fst rfs_ex)) = 1"
    "stt_table (snd (fst rfs_ex)) = [CLOSED, CLOSED]" by code_simp+
  from connections_follow_rfc793 [OF r k, of ex_env, THEN exE] obtain b where
    "\<exists>t h. rfs_cyc ex_env rfs_ex = Some ((b, t), h) \<and>
      (\<exists>t'. rf_stateTable_req b = [stateQuery_write 1 t'] \<and> rx_edge h CLOSED t')"
    by (simp add: dec) metis
  then obtain t h t' where bt: "rfs_cyc ex_env rfs_ex = Some ((b, t), h)"
    "rf_stateTable_req b = [stateQuery_write 1 t']" "rx_edge h CLOSED t'" by blast
  have c: "map_option (\<lambda>x. (stt_table (snd (fst x)), rf_stateTable_req (fst (fst x)),
      fm_sessionID (fst (snd x)), must_move (fm_meta (fst (snd x))) (fst (snd (snd x))) (snd (snd (snd x))) CLOSED))
      (rfs_cyc ex_env rfs_ex) =
    Some ([CLOSED, SYN_RECEIVED], [stateQuery_write 1 SYN_RECEIVED], 1, Some SYN_RECEIVED)" by code_simp
  with bt show ?thesis using c by (auto simp: stateQuery_write_def)
qed

section \<open>With the receive table\<close>

text \<open>
  The machine (default configuration) and \<open>rx_sar_table\<close> in one cycle.  The history keeps for every
  session what has been accepted since it was opened: the first and the end sequence number of the
  SYN, then of each segment whose payload or FIN was taken.
\<close>

type_synonym history = "u16 \<Rightarrow> (u32 \<times> u32) list"

definition rfx_connect :: "rxfsm_st \<Rightarrow> rx_sar_st \<Rightarrow> rxfsm_st" where
  "rfx_connect a s = a\<lparr>rf_rxSar_rsp := rxSar2rxEng_upd_rsp s, rf_rxSar_req := rxEng2rxSar_upd_req s\<rparr>"

definition rfx_return :: "rxfsm_st \<Rightarrow> rx_sar_st \<Rightarrow> rx_sar_st" where
  "rfx_return a s = s\<lparr>rxEng2rxSar_upd_req := rf_rxSar_req a, rxSar2rxEng_upd_rsp := rf_rxSar_rsp a\<rparr>"

definition record_segment :: "rxfsm_env \<Rightarrow> rxfsm_st \<Rightarrow> history \<Rightarrow> history" where
  "record_segment e a g =
     (if rf_state a = FSM_TRANSITION \<and> rf_ready a then
        let m = rf_seg a; i = rf_id a; t = hd (rf_stateTable_rsp a); rxSar = hd (rf_rxSar_rsp a);
            txSar = (if control_bits m = 2 \<or> rf_txSar_rsp a = [] then fe_txSar e else hd (rf_txSar_rsp a))
        in if takes e t rxSar m \<and> (rm_length m \<noteq> 0 \<or> rm_fin m)
           then g(i := g i @ [(rm_seqNumb m, segment_end m)])
           else if opens t txSar m then g(i := [(rm_seqNumb m, rm_seqNumb m + 1)])
           else g
      else g)"

definition rfx_cyc :: "rxfsm_env \<times> rxSarReply \<Rightarrow> (rxfsm_st \<times> rx_sar_st) \<times> history \<Rightarrow>
    ((rxfsm_st \<times> rx_sar_st) \<times> history) option" where
  "rfx_cyc i x =
     (let e = (fst i)\<lparr>fe_bypass := True\<rparr>;
          a = rfx_connect (fst (fst x)) (snd (fst x)); b = rxTcpFSM e a
      in map_option (\<lambda>t. ((b, t), record_segment e a (snd x)))
           (rx_sar_table (snd i) (rfx_return b (snd (fst x)))))"

definition rfx_env :: "nat \<Rightarrow> (rxfsm_st \<times> rx_sar_st) \<times> history \<Rightarrow> (rxfsm_st \<times> rx_sar_st) \<times> history \<Rightarrow> bool" where
  "rfx_env n x y \<longleftrightarrow> (case (x, y) of (((a, s), g), ((b, t), h)) \<Rightarrow>
     h = g \<and> rx_sar_env n s t \<and> rxEng2rxSar_upd_req t = rxEng2rxSar_upd_req s \<and>
     rxSar2rxEng_upd_rsp t = rxSar2rxEng_upd_rsp s \<and> rf_state b = rf_state a \<and> rf_meta b = rf_meta a \<and>
     (\<exists>ms. rf_fsmMetaDataFifo b = rf_fsmMetaDataFifo a @ ms \<and> (\<forall>m\<in>set ms. unat (fm_sessionID m) < n)))"

text \<open>The receive pointer of a session: the last write that is pending, or the table's.\<close>

definition pointer_of :: "u16 \<Rightarrow> u32 \<Rightarrow> rxSarRecvd list \<Rightarrow> u32" where
  "pointer_of k = foldl (\<lambda>p q. if rsv_write q \<and> rsv_sessionID q = k then rsv_recvd q else p)"

definition pointer :: "u16 \<Rightarrow> rx_sar_st \<Rightarrow> u32" where
  "pointer k s = pointer_of k (rse_recvd (rx_table s ! unat k)) (rxEng2rxSar_upd_req s)"

fun chained :: "(u32 \<times> u32) list \<Rightarrow> bool" where
  "chained (x # y # xs) \<longleftrightarrow> snd x = fst y \<and> chained (y # xs)"
| "chained _ \<longleftrightarrow> True"

lemma chained_snoc: "chained (xs @ [y]) \<longleftrightarrow> chained xs \<and> (xs \<noteq> [] \<longrightarrow> snd (List.last xs) = fst y)"
  by (induction xs rule: chained.induct) auto

definition rfx_waits :: "fsmStateType \<Rightarrow> u16 \<Rightarrow> rx_sar_st \<Rightarrow> bool" where
  "rfx_waits f i s \<longleftrightarrow>
     (if rxSar2rxEng_upd_rsp s = [] then
        \<exists>ws. (\<forall>q\<in>set ws. rsv_write q) \<and> (case f of FSM_LOAD \<Rightarrow> rxEng2rxSar_upd_req s = ws
          | FSM_TRANSITION \<Rightarrow> \<exists>q. rxEng2rxSar_upd_req s = ws @ [q] \<and> \<not> rsv_write q \<and> rsv_sessionID q = i)
      else f = FSM_TRANSITION \<and> rxEng2rxSar_upd_req s = [] \<and>
        (\<exists>en. rxSar2rxEng_upd_rsp s = [en] \<and> rse_recvd en = rse_recvd (rx_table s ! unat i)))"

definition rfx_inv :: "nat \<Rightarrow> (rxfsm_st \<times> rx_sar_st) \<times> history \<Rightarrow> bool" where
  "rfx_inv n x \<longleftrightarrow> (case x of ((a, s), g) \<Rightarrow>
     rx_sar_inv n s \<and> rfx_waits (rf_state a) (rf_id a) s \<and>
     (rf_state a = FSM_TRANSITION \<longrightarrow> unat (rf_id a) < n) \<and>
     (\<forall>m\<in>set (rf_fsmMetaDataFifo a). unat (fm_sessionID m) < n) \<and>
     (\<forall>k. unat k < n \<longrightarrow> g k \<noteq> [] \<and> chained (g k) \<and> snd (List.last (g k)) = pointer k s))"

lemma pointer_of_simps [simp]:
  "pointer_of k p [] = p"
  "pointer_of k p (q # qs) = pointer_of k (if rsv_write q \<and> rsv_sessionID q = k then rsv_recvd q else p) qs"
  "pointer_of k p (ps @ qs) = pointer_of k (pointer_of k p ps) qs"
  by (simp_all add: pointer_of_def)

text \<open>What a cycle of the table does to the receive engine's requests.\<close>

lemma rx_sar_step:
  assumes "rx_sar_table u s = Some t"
  shows "rxEng2rxSar_upd_req t = rxEng2rxSar_upd_req s \<and> rxSar2rxEng_upd_rsp t = rxSar2rxEng_upd_rsp s \<and>
       length (rx_table t) = length (rx_table s) \<and>
       (\<forall>k. rse_recvd (rx_table t ! unat k) = rse_recvd (rx_table s ! unat (k :: u16)))
    \<or> (\<exists>q. rxEng2rxSar_upd_req s = q # rxEng2rxSar_upd_req t \<and>
        (if rsv_write q
         then rxSar2rxEng_upd_rsp t = rxSar2rxEng_upd_rsp s \<and> unat (rsv_sessionID q) < length (rx_table s) \<and>
           rx_table t = (rx_table s)[unat (rsv_sessionID q) := rx_sar_write q (rx_table s ! unat (rsv_sessionID q))]
         else rxSar2rxEng_upd_rsp t = rxSar2rxEng_upd_rsp s @ [rx_table s ! unat (rsv_sessionID q)] \<and>
           rx_table t = rx_table s))"
  using assms
  by (cases "rxEng2rxSar_upd_req s")
    (auto simp: rx_sar_table_def Let_def table_simps nth_list_update bind_eq_Some_conv split: if_splits)

lemma rse_recvd_write [simp]: "rse_recvd (rx_sar_write q en) = rsv_recvd q"
  by (simp add: rx_sar_write_def Let_def)

lemma pointer_step:
  assumes "rx_sar_table u s = Some t" "unat k < length (rx_table s)"
  shows "pointer k t = pointer k s"
  using rx_sar_step [OF assms(1)] assms(2)
  by (elim disjE exE conjE) (auto simp: pointer_def nth_list_update split: if_splits)

lemma rfx_waits_step:
  assumes "rx_sar_table u s = Some t" "rfx_waits f i s" "unat i < length (rx_table s)"
  shows "rfx_waits f i t"
  using rx_sar_step [OF assms(1)]
proof (elim disjE exE conjE)
  fix q assume p: "rxEng2rxSar_upd_req s = q # rxEng2rxSar_upd_req t" and "if rsv_write q
         then rxSar2rxEng_upd_rsp t = rxSar2rxEng_upd_rsp s \<and> unat (rsv_sessionID q) < length (rx_table s) \<and>
           rx_table t = (rx_table s)[unat (rsv_sessionID q) := rx_sar_write q (rx_table s ! unat (rsv_sessionID q))]
         else rxSar2rxEng_upd_rsp t = rxSar2rxEng_upd_rsp s @ [rx_table s ! unat (rsv_sessionID q)] \<and>
           rx_table t = rx_table s"
  with assms(2) show ?thesis
    by (cases f) (auto simp: rfx_waits_def Cons_eq_append_conv split: if_splits)
qed (use assms(2) in \<open>cases f; auto simp: rfx_waits_def split: if_splits\<close>)

text \<open>What a cycle of the machine does to them.\<close>

lemma rfx_moves:
  assumes "b = rxTcpFSM e a" "fe_bypass e" "h = record_segment e a g"
  obtains (stay) "rf_state b = rf_state a" "rf_meta b = rf_meta a" "rf_rxSar_req b = rf_rxSar_req a"
      "rf_rxSar_rsp b = rf_rxSar_rsp a" "rf_fsmMetaDataFifo b = rf_fsmMetaDataFifo a" "h = g"
  | (load) m where "rf_state a = FSM_LOAD" "rf_state b = FSM_TRANSITION" "rf_meta b = m"
      "rf_fsmMetaDataFifo a = m # rf_fsmMetaDataFifo b"
      "rf_rxSar_req b = rf_rxSar_req a @ [rxSarRecvd_read (fe_recvd e) (fm_sessionID m)]"
      "rf_rxSar_rsp b = rf_rxSar_rsp a" "h = g"
  | (fire) en ws where "rf_state a = FSM_TRANSITION" "rf_state b = FSM_LOAD" "rf_meta b = rf_meta a"
      "rf_rxSar_rsp a = en # rf_rxSar_rsp b" "rf_fsmMetaDataFifo b = rf_fsmMetaDataFifo a"
      "rf_rxSar_req b = rf_rxSar_req a @ ws"
      "ws = [] \<and> h = g \<or>
       (\<exists>w. ws = [w] \<and> rsv_write w \<and> rsv_sessionID w = rf_id a \<and>
         (rm_seqNumb (rf_seg a) = rse_recvd en \<and> h = g(rf_id a := g (rf_id a) @ [(rm_seqNumb (rf_seg a), rsv_recvd w)]) \<or>
          h = g(rf_id a := [(rm_seqNumb (rf_seg a), rsv_recvd w)])))"
proof (cases "rf_state a")
  case FSM_LOAD
  then have b: "b = rf_load e a" "h = g" using assms by (simp_all add: rxTcpFSM_def record_segment_def)
  show thesis
  proof (cases "rf_fsmMetaDataFifo a")
    case Nil
    then show thesis using b by (intro stay) (simp_all add: rf_load_def)
  next
    case (Cons m ms)
    then show thesis using b FSM_LOAD by (intro load [of m]) (simp_all add: rf_load_def Let_def)
  qed
next
  case FSM_TRANSITION
  then have b: "b = rf_transition e a" using assms by (simp add: rxTcpFSM_def)
  show thesis
  proof (cases "rf_ready a")
    case False
    then show thesis using b assms(3) by (intro stay) (simp_all add: rf_transition_def record_segment_def)
  next
    case True
    then obtain en ens where v: "rf_rxSar_rsp a = en # ens" by (auto simp: rf_ready_def neq_Nil_conv)
    define u where "u = a\<lparr>rf_state := FSM_LOAD, rf_txSarRequest := False,
                  rf_stateTable_rsp := tl (rf_stateTable_rsp a), rf_rxSar_rsp := tl (rf_rxSar_rsp a),
                  rf_txSar_rsp := (if control_bits (rf_seg a) = 2 then rf_txSar_rsp a else tl (rf_txSar_rsp a))\<rparr>"
    define t where "t = hd (rf_stateTable_rsp a)"
    define x where "x = (if control_bits (rf_seg a) = 2 \<or> rf_txSar_rsp a = [] then fe_txSar e else hd (rf_txSar_rsp a))"
    have bu: "b = rf_segment e t en x u"
      using b True v by (simp add: rf_transition_def u_def t_def x_def Let_def)
    have h: "h = (if takes e t en (rf_seg a) \<and> (rm_length (rf_seg a) \<noteq> 0 \<or> rm_fin (rf_seg a))
           then g(rf_id a := g (rf_id a) @ [(rm_seqNumb (rf_seg a), segment_end (rf_seg a))])
           else if opens t x (rf_seg a) then g(rf_id a := [(rm_seqNumb (rf_seg a), rm_seqNumb (rf_seg a) + 1)])
           else g)"
      unfolding assms(3) record_segment_def Let_def t_def x_def v
      by (simp only: True FSM_TRANSITION list.sel simp_thms if_True)
    have "rf_frame u b" unfolding bu rf_segment_frame by (simp add: rf_frame_def)
    then have f: "rf_state b = FSM_LOAD" "rf_meta b = rf_meta a" "rf_rxSar_rsp b = ens"
      "rf_fsmMetaDataFifo b = rf_fsmMetaDataFifo a"
      by (simp_all add: rf_frame_def u_def v)
    have ua: "rf_rxSar_req u = rf_rxSar_req a" "rf_meta u = rf_meta a" by (simp_all add: u_def)
    define ws where "ws = (let m = rf_seg a; i = rf_id a in
     if takes e t en m \<and> (rm_length m \<noteq> 0 \<or> rm_fin m)
     then [rxSarRecvd_upd (fe_recvd e) i (segment_end m) (segment_end m) (rse_offset en) (rse_gap en)]
     else if opens t x m
     then [rxSarRecvd_init i (rm_seqNumb m + 1) (rm_seqNumb m + 1) 0 False (rx_win_shift m)]
     else [])"
    have "rf_rxSar_req b = rf_rxSar_req a @ ws"
      unfolding bu rf_segment_rxSar [OF assms(2)] ua ws_def ..
    moreover have "ws = [] \<and> h = g \<or>
       (\<exists>w. ws = [w] \<and> rsv_write w \<and> rsv_sessionID w = rf_id a \<and>
         (rm_seqNumb (rf_seg a) = rse_recvd en \<and> h = g(rf_id a := g (rf_id a) @ [(rm_seqNumb (rf_seg a), rsv_recvd w)]) \<or>
          h = g(rf_id a := [(rm_seqNumb (rf_seg a), rsv_recvd w)])))"
      unfolding h ws_def Let_def
      by (auto simp: rxSarRecvd_upd_def rxSarRecvd_init_def takes_def)
    ultimately show thesis using f v FSM_TRANSITION by (intro fire [of en ws]) simp_all
  qed
qed

lemma rfx_return_simps [simp]:
  "rxEng2rxSar_upd_req (rfx_return b s) = rf_rxSar_req b" "rxSar2rxEng_upd_rsp (rfx_return b s) = rf_rxSar_rsp b"
  "rx_table (rfx_return b s) = rx_table s"
  "pointer k (rfx_return b s) = pointer_of k (rse_recvd (rx_table s ! unat k)) (rf_rxSar_req b)"
  by (simp_all add: rfx_return_def pointer_def)

lemma rx_sar_inv_return:
  "rx_sar_inv n s \<Longrightarrow> \<forall>q\<in>set (rf_rxSar_req b). unat (rsv_sessionID q) < n \<Longrightarrow> rx_sar_inv n (rfx_return b s)"
  by (simp add: rx_sar_inv_def rfx_return_def)

lemma rfx_call:
  assumes inv: "rfx_inv n ((a, s), g)" and b: "b = rxTcpFSM e (rfx_connect a s)" and e: "fe_bypass e"
  shows "rfx_inv n ((b, rfx_return b s), record_segment e (rfx_connect a s) g)"
proof -
  have i: "rx_sar_inv n s" "rfx_waits (rf_state a) (rf_id a) s"
    "rf_state a = FSM_TRANSITION \<longrightarrow> unat (rf_id a) < n" "\<forall>m\<in>set (rf_fsmMetaDataFifo a). unat (fm_sessionID m) < n"
    "\<And>k. unat k < n \<Longrightarrow> g k \<noteq> [] \<and> chained (g k) \<and> snd (List.last (g k)) = pointer k s"
    using inv by (simp_all add: rfx_inv_def)
  have q: "\<forall>q\<in>set (rxEng2rxSar_upd_req s). unat (rsv_sessionID q) < n"
    using i(1) by (simp add: rx_sar_inv_def)
  have pt: "pointer k s = pointer_of k (rse_recvd (rx_table s ! unat k)) (rxEng2rxSar_upd_req s)" for k
    by (simp add: pointer_def)
  define h where "h = record_segment e (rfx_connect a s) g"
  from b e h_def have "rfx_inv n ((b, rfx_return b s), h)"
  proof (cases rule: rfx_moves)
    case stay
    then have "rfx_return b s = s" by (simp add: rfx_return_def rfx_connect_def)
    with stay i show ?thesis by (simp add: rfx_inv_def rfx_connect_def)
  next
    case (load m)
    have rsp: "rxSar2rxEng_upd_rsp s = []"
      using i(2) load by (auto simp: rfx_waits_def rfx_connect_def split: if_splits)
    then obtain ws where ws: "\<forall>q\<in>set ws. rsv_write q" "rxEng2rxSar_upd_req s = ws"
      using i(2) load by (auto simp: rfx_waits_def rfx_connect_def)
    have "rfx_waits (rf_state b) (rf_id b) (rfx_return b s)"
      using load rsp ws by (auto simp: rfx_waits_def rfx_connect_def rxSarRecvd_read_def)
    with load i q show ?thesis
      by (auto simp: rfx_inv_def rfx_connect_def rxSarRecvd_read_def pt intro!: rx_sar_inv_return)
  next
    case (fire en ws)
    then have en: "rxEng2rxSar_upd_req s = []" "rxSar2rxEng_upd_rsp s = [en]" "unat (rf_id a) < n"
      "rse_recvd en = rse_recvd (rx_table s ! unat (rf_id a))" "rf_rxSar_rsp b = []"
      using i(2,3) by (auto simp: rfx_waits_def rfx_connect_def split: if_splits)
    have p0: "pointer k s = rse_recvd (rx_table s ! unat k)" for k by (simp add: pt en(1))
    have w: "rfx_waits (rf_state b) (rf_id b) (rfx_return b s)"
      using fire en by (auto simp: rfx_waits_def rfx_connect_def)
    have ids: "\<forall>q\<in>set (rf_rxSar_req b). unat (rsv_sessionID q) < n"
      using fire en by (auto simp: rfx_connect_def)
    have "h k \<noteq> [] \<and> chained (h k) \<and> snd (List.last (h k)) = pointer k (rfx_return b s)" if k: "unat k < n" for k
      using fire(6,7) i(5) [OF k] p0 [of k] en(1,4) by (auto simp: rfx_connect_def chained_snoc split: if_splits)
    with fire w i ids show ?thesis by (auto simp: rfx_inv_def rfx_connect_def intro!: rx_sar_inv_return)
  qed
  then show ?thesis unfolding h_def .
qed

lemma rfx_inv_env: "rfx_inv n x \<Longrightarrow> rfx_env n x y \<Longrightarrow> rfx_inv n y"
  by (cases x; cases y) (force simp: rfx_inv_def rfx_env_def rx_sar_inv_def rx_sar_env_def rfx_waits_def pointer_def
      split: fsmStateType.splits if_splits)

lemma rfx_inv_cyc:
  assumes "rfx_inv n x"
  shows "\<exists>y. rfx_cyc i x = Some y \<and> rfx_inv n y"
proof -
  obtain a s g where x: "x = ((a, s), g)" by (metis surj_pair)
  let ?e = "(fst i)\<lparr>fe_bypass := True\<rparr>"
  let ?b = "rxTcpFSM ?e (rfx_connect a s)"
  let ?g = "record_segment ?e (rfx_connect a s) g"
  have inv: "rfx_inv n ((?b, rfx_return ?b s), ?g)"
    using assms by (intro rfx_call) (simp_all add: x)
  then have si: "rx_sar_inv n (rfx_return ?b s)" by (simp add: rfx_inv_def)
  obtain t where t: "rx_sar_table (snd i) (rfx_return ?b s) = Some t" using rxs.cyc_safe [OF si] by blast
  have len: "length (rx_table (rfx_return ?b s)) = n" using si by (simp add: rx_sar_inv_def)
  have "rfx_waits (rf_state ?b) (rf_id ?b) t"
  proof (cases "rf_state ?b")
    case FSM_LOAD
    then show ?thesis using inv rx_sar_step [OF t]
      by (auto simp: rfx_inv_def rfx_waits_def split: if_splits simp del: rfx_return_simps)
  next
    case FSM_TRANSITION
    then show ?thesis using inv len by (intro rfx_waits_step [OF t]) (simp_all add: rfx_inv_def del: rfx_return_simps)
  qed
  moreover have "pointer k t = pointer k (rfx_return ?b s)" if "unat k < n" for k
    using that len by (intro pointer_step [OF t]) simp
  ultimately have "rfx_inv n ((?b, t), ?g)"
    using inv rxs.cyc_inv [OF si t] by (simp add: rfx_inv_def del: rfx_return_simps)
  then show ?thesis using t by (simp add: rfx_cyc_def x Let_def)
qed

interpretation rfx: clocked "rfx_inv n" "rfx_env n" rfx_cyc for n
proof unfold_locales
  show "rfx_inv n y" if "rfx_inv n x" "rfx_env n x y" for x y
    using that by (rule rfx_inv_env)
  show "\<exists>t. rfx_cyc i s = Some t" if "rfx_inv n s" for i s
    using rfx_inv_cyc [OF that] by blast
  show "rfx_inv n t" if "rfx_inv n s" "rfx_cyc i s = Some t" for i s t
    using rfx_inv_cyc [OF that(1), of i] that(2) by auto
qed

definition rx_sar_fresh :: "nat \<Rightarrow> rx_sar_st" where
  "rx_sar_fresh n = \<lparr>rx_table = replicate n (ex_rxSar 0), txEng2rxSar_req = [], rxApp2rxSar_upd_req = [],
     rxEng2rxSar_upd_req = [], rxSar2txEng_rsp = [], rxSar2rxApp_upd_rsp = [], rxSar2rxEng_upd_rsp = []\<rparr>"

text \<open>C31: the bytes a session accepts are a gap-free sequence.  From the reset state, whatever segments
  arrive and whatever the other tables answer, the segments whose payload or FIN the machine has
  accepted for a session since its SYN follow one another (each starts at the sequence number at
  which the one before it ended), the last one ends at the receive pointer (the one the table holds,
  or the write still on its way to it), and neither machine nor table is ever stuck.
\<close>

theorem rx_in_order:
  assumes "reach (rfx_env n) rfx_cyc ((rf_reset, rx_sar_fresh n), \<lambda>_. [(0, 0)]) ((a, s), g)" "unat k < n"
  shows "chained (g k) \<and> snd (List.last (g k)) = pointer k s \<and> (\<exists>y. rfx_cyc i ((a, s), g) = Some y)"
proof -
  have "rfx_inv n ((rf_reset, rx_sar_fresh n), \<lambda>_. [(0, 0)])"
    by (simp add: rfx_inv_def rf_reset_def rx_sar_fresh_def rx_sar_inv_def rfx_waits_def pointer_def ex_rxSar_def)
  from rfx.reach_inv [OF assms(1) this] have inv: "rfx_inv n ((a, s), g)" .
  with rfx.cyc_safe [OF inv, of i] assms(2) show ?thesis by (simp add: rfx_inv_def)
qed

text \<open>A SYN and a segment of ten bytes: what the others contribute is their answers and the two
  segments.\<close>

definition rfx_put :: "(rxfsm_st \<Rightarrow> rxfsm_st) \<Rightarrow> (rxfsm_st \<times> rx_sar_st) \<times> history \<Rightarrow> (rxfsm_st \<times> rx_sar_st) \<times> history" where
  "rfx_put f x = ((f (fst (fst x)), snd (fst x)), snd x)"

definition rfx_run :: "(rxfsm_st \<times> rx_sar_st) \<times> history \<Rightarrow> (rxfsm_st \<times> rx_sar_st) \<times> history" where
  "rfx_run x = the (rfx_cyc (ex_env, \<lparr>rsr_recvd = 0, rsr_win_shift = 0, rsr_windowSize = 0, rsr_usedLength = 0\<rparr>) x)"

definition rfx_ex :: "(rxfsm_st \<times> rx_sar_st) \<times> history" where
  "rfx_ex =
     (let x = rfx_put (\<lambda>a. a\<lparr>rf_fsmMetaDataFifo := [ex_fm 1 (ex_meta 5 0 0 False True), ex_fm 1 (ex_meta 6 7 10 True False)]\<rparr>)
                ((rf_reset, rx_sar_fresh 2), \<lambda>_. [(0, 0)]);
          x = rfx_put (\<lambda>a. a\<lparr>rf_stateTable_rsp := [CLOSED]\<rparr>) (rfx_run x);
          x = rfx_run (rfx_run x);
          x = rfx_put (\<lambda>a. a\<lparr>rf_stateTable_rsp := [ESTABLISHED], rf_txSar_rsp := [tx_sar_rx_read ex_entry]\<rparr>) x
      in rfx_run x)"

lemma rfx_env_put:
  assumes "\<And>a. rf_state (f a) = rf_state a" "\<And>a. rf_meta (f a) = rf_meta a"
    "\<And>a. \<exists>ms. rf_fsmMetaDataFifo (f a) = rf_fsmMetaDataFifo a @ ms \<and> (\<forall>m\<in>set ms. unat (fm_sessionID m) < n)"
  shows "rfx_env n x (rfx_put f x)"
  using assms by (auto simp: rfx_env_def rfx_put_def rx_sar_env_def split: prod.split)

theorem rx_in_order_witness:
  "snd rfx_ex 1 = [(5, 6), (6, 16)] \<and> chained [(5 :: u32, 6), (6, 16)] \<and> pointer 1 (snd (fst rfx_ex)) = 16"
proof -
  let ?r = "reach (rfx_env 2) rfx_cyc ((rf_reset, rx_sar_fresh 2), \<lambda>_. [(0, 0)])"
  let ?x = "((rf_reset, rx_sar_fresh 2), \<lambda>_. [(0, 0)])"
  have inv: "rfx_inv 2 ?x"
    by (simp add: rfx_inv_def rf_reset_def rx_sar_fresh_def rx_sar_inv_def rfx_waits_def pointer_def ex_rxSar_def)
  have run: "?r (rfx_run x)" if "?r x" for x unfolding rfx_run_def by (rule rfx.reach_next [OF that inv])
  have first: "?r (rfx_put (\<lambda>a. a\<lparr>rf_fsmMetaDataFifo := [ex_fm 1 (ex_meta 5 0 0 False True), ex_fm 1 (ex_meta 6 7 10 True False)]\<rparr>) ?x)"
    by (rule reach_env [OF reach_init])
      (simp add: rfx_env_def rfx_put_def rx_sar_env_def rf_reset_def ex_fm_def)
  have put: "?r (rfx_put f x)" if "?r x" "\<And>a. rf_state (f a) = rf_state a" "\<And>a. rf_meta (f a) = rf_meta a"
    "\<And>a. rf_fsmMetaDataFifo (f a) = rf_fsmMetaDataFifo a" for f x
    using that(1) by (rule reach_env) (rule rfx_env_put; simp add: that(2-4))
  have "?r rfx_ex"
    unfolding rfx_ex_def Let_def
    by (intro run put first) simp_all
  then have r: "?r ((fst (fst rfx_ex), snd (fst rfx_ex)), snd rfx_ex)" by simp
  have "snd rfx_ex 1 = [(5, 6), (6, 16)]" by code_simp
  with rx_in_order [OF r, of 1 "(ex_env, \<lparr>rsr_recvd = 0, rsr_win_shift = 0, rsr_windowSize = 0, rsr_usedLength = 0\<rparr>)"]
  show ?thesis by simp
qed

end
