(* ===== verification/Tx_Engine.thy ===== *)
theory Tx_Engine
  imports Pkg_Pusher Rx_Fsm
begin

text \<open>
  The control path of \<open>tx_engine/tx_engine.cpp\<close>: \<open>metaLoader\<close> turns the events of the event engine
  into segments, \<open>txEngMemAccessBreakdown\<close> splits the reads of the transmit buffers and
  \<open>tupleSplitter\<close> finds the addresses of each segment.  \<open>TCP_NODELAY\<close> and \<open>WINDOW_SCALE\<close> are 1 (the
  code does not compile without the first), and \<open>mss\<close> is the constant \<open>MSS\<close>.
\<close>

section \<open>The meta loader\<close>

record tx_engine_meta =
  tem_seqNumb :: u32
  tem_ackNumb :: u32
  tem_window_size :: u16
  tem_win_shift :: u4
  tem_length :: u16
  tem_ack :: bool
  tem_rst :: bool
  tem_syn :: bool
  tem_fin :: bool

text \<open>The constructor leaves \<open>win_shift\<close> uninitialised: \<open>ws\<close>.\<close>

definition tx_engine_meta_rst :: "u4 \<Rightarrow> u32 \<Rightarrow> u32 \<Rightarrow> tx_engine_meta" where
  "tx_engine_meta_rst ws seq ack =
     \<lparr>tem_seqNumb = seq, tem_ackNumb = ack, tem_window_size = 0, tem_win_shift = ws, tem_length = 0,
      tem_ack = True, tem_rst = True, tem_syn = False, tem_fin = False\<rparr>"

definition txTxSarQuery_read :: "u16 \<Rightarrow> txTxSarQuery" where
  "txTxSarQuery_read i =
     \<lparr>ttq_sessionID = i, ttq_not_ackd = 0, ttq_write = False, ttq_init = False,
      ttq_finReady = False, ttq_finSent = False, ttq_isRtQuery = False\<rparr>"

definition txTxSarQuery_write :: "u16 \<Rightarrow> u32 \<Rightarrow> bool \<Rightarrow> bool \<Rightarrow> bool \<Rightarrow> txTxSarQuery" where
  "txTxSarQuery_write i not_ackd init finReady finSent =
     \<lparr>ttq_sessionID = i, ttq_not_ackd = not_ackd, ttq_write = True, ttq_init = init,
      ttq_finReady = finReady, ttq_finSent = finSent, ttq_isRtQuery = False\<rparr>"

record meta_loader_st =
  ml_FsmState :: bool
  ml_sarLoaded :: bool
  ml_curEvent :: extendedEvent
  ml_randomValue :: u32
  ml_segmentCount :: u2
  ml_rxSar :: rxSarReply
  ml_txSarReg :: txTxSarReply
  ml_meta :: tx_engine_meta
  ml_event :: "extendedEvent fifo"
  ml_rxSar_rsp :: "rxSarReply fifo"
  ml_txSar_rsp :: "txTxSarReply fifo"
  ml_rxSar_req :: "u16 fifo"
  ml_txSar_req :: "txTxSarQuery fifo"
  ml_setRetransmit :: "txRetransmitTimerSet fifo"
  ml_setProbe :: "u16 fifo"
  ml_ipMeta :: "u16 fifo"
  ml_tcpMeta :: "tx_engine_meta fifo"
  ml_readCmd :: "mmCmd fifo"
  ml_rev_req :: "u16 fifo"
  ml_isLookUp :: "bool fifo"
  ml_isDDRbypass :: "bool fifo"
  ml_tupleShortCut :: "fourTuple fifo"
  ml_readCount :: "bool fifo"

abbreviation ml_id :: "meta_loader_st \<Rightarrow> u16" where
  "ml_id s \<equiv> ev_sessionID (ml_curEvent s)"

abbreviation ml_rt_count :: "meta_loader_st \<Rightarrow> u3" where
  "ml_rt_count s \<equiv> ev_rt_count (ml_curEvent s)"

text \<open>State 0: fetch an event and ask for the windows it needs.\<close>

definition ml_needs_rxSar :: "extendedEvent \<Rightarrow> bool" where
  "ml_needs_rxSar ev \<longleftrightarrow> (case ev_type ev of SYN \<Rightarrow> False | RST \<Rightarrow> False | _ \<Rightarrow> True)"

definition ml_needs_txSar :: "extendedEvent \<Rightarrow> bool" where
  "ml_needs_txSar ev \<longleftrightarrow> (case ev_type ev of SYN \<Rightarrow> ev_rt_count ev \<noteq> 0
     | RST \<Rightarrow> rst_hasSessionID (event.truncate ev) | _ \<Rightarrow> True)"

definition ml_load :: "meta_loader_st \<Rightarrow> meta_loader_st" where
  "ml_load s =
     (let s = s\<lparr>ml_segmentCount := 0\<rparr>
      in case ml_event s of
        [] \<Rightarrow> s
      | ev # evs \<Rightarrow>
          s\<lparr>ml_event := evs, ml_curEvent := ev, ml_readCount := ml_readCount s @ [True],
            ml_sarLoaded := False,
            ml_rxSar_req := ml_rxSar_req s @ (if ml_needs_rxSar ev then [ev_sessionID ev] else []),
            ml_txSar_req := ml_txSar_req s @
              (if ml_needs_txSar ev then [txTxSarQuery_read (ev_sessionID ev)] else []),
            ml_FsmState := True, ml_randomValue := ml_randomValue s + 1\<rparr>)"

text \<open>What every segment of a known session needs: its length for the IP header, its data for the
  TCP header, and the tuple of the session.\<close>

definition ml_send :: "tx_engine_meta \<Rightarrow> meta_loader_st \<Rightarrow> meta_loader_st" where
  "ml_send m s =
     s\<lparr>ml_meta := m, ml_ipMeta := ml_ipMeta s @ [tem_length m], ml_tcpMeta := ml_tcpMeta s @ [m],
       ml_isLookUp := ml_isLookUp s @ [True], ml_rev_req := ml_rev_req s @ [ml_id s]\<rparr>"

definition ml_source :: "bool \<Rightarrow> meta_loader_st \<Rightarrow> meta_loader_st" where
  "ml_source bypass s = s\<lparr>ml_isDDRbypass := ml_isDDRbypass s @ [bypass]\<rparr>"

definition ml_timer :: "eventType \<Rightarrow> meta_loader_st \<Rightarrow> meta_loader_st" where
  "ml_timer ty s = s\<lparr>ml_setRetransmit := ml_setRetransmit s @ [\<lparr>trs_sessionID = ml_id s, trs_type = ty\<rparr>]\<rparr>"

definition ml_update :: "txTxSarQuery \<Rightarrow> meta_loader_st \<Rightarrow> meta_loader_st" where
  "ml_update q s = s\<lparr>ml_txSar_req := ml_txSar_req s @ [q]\<rparr>"

definition ml_both_ready :: "meta_loader_st \<Rightarrow> bool" where
  "ml_both_ready s \<longleftrightarrow> ml_rxSar_rsp s \<noteq> [] \<and> ml_txSar_rsp s \<noteq> []"

definition ml_read_both :: "meta_loader_st \<Rightarrow> txTxSarReply \<times> meta_loader_st" where
  "ml_read_both s =
     (hd (ml_txSar_rsp s),
      s\<lparr>ml_rxSar := hd (ml_rxSar_rsp s), ml_rxSar_rsp := tl (ml_rxSar_rsp s),
        ml_txSar_rsp := tl (ml_txSar_rsp s)\<rparr>)"

text \<open>The segment that acknowledges what has been received and sends \<open>len\<close> bytes from \<open>seq\<close>.\<close>

definition ml_ack_meta :: "u32 \<Rightarrow> u16 \<Rightarrow> bool \<Rightarrow> meta_loader_st \<Rightarrow> tx_engine_meta" where
  "ml_ack_meta seq len fin s =
     (ml_meta s)\<lparr>tem_ackNumb := rsr_recvd (ml_rxSar s), tem_seqNumb := seq,
        tem_window_size := rsr_windowSize (ml_rxSar s), tem_ack := True, tem_rst := False,
        tem_syn := False, tem_fin := fin, tem_length := len\<rparr>"

definition ml_tx :: "meta_loader_st \<Rightarrow> meta_loader_st" where
  "ml_tx s =
     (if \<not> ml_both_ready s then s
      else let (txSar, s) = ml_read_both s;
               len = ev_length (ml_curEvent s);
               m = ml_ack_meta (ttr_not_ackd txSar) len False s;
               s = (if 0x7FFF < len then s\<lparr>ml_setProbe := ml_setProbe s @ [ml_id s]\<rparr> else s);
               s = ml_update (txTxSarQuery_write (ml_id s) (ttr_not_ackd txSar + ucast len) False False False) s;
               s = s\<lparr>ml_FsmState := False, ml_meta := m\<rparr>
           in if tem_length m \<noteq> 0
              then ml_timer RT (ml_source True (ml_send m s))
              else s)"

text \<open>Retransmission: one segment per cycle from the first unacknowledged byte on.\<close>

definition rt_threshold :: "u16 \<Rightarrow> u18 \<Rightarrow> u18" where
  "rt_threshold mss currLength =
     (if 4 * unat mss < unat currLength then currLength div 2 else 2 * ucast mss)"

definition ml_rt_segment :: "u16 \<Rightarrow> txTxSarReply \<Rightarrow> meta_loader_st \<Rightarrow> meta_loader_st" where
  "ml_rt_segment mss txSar s =
     (let currLength = ttr_usedLength txSar;
          pkgAddr = tasi_pkgAddr (ml_id s) (bits (WINDOW_BITS - 1) 0 (ttr_ackd txSar));
          m = ml_ack_meta (ttr_ackd txSar) (if unat mss < unat currLength then mss else ucast currLength) False s;
          s = s\<lparr>ml_sarLoaded := True, ml_meta := m\<rparr>;
          s = (if unat mss < unat currLength
               then s\<lparr>ml_txSarReg := txSar\<lparr>ttr_ackd := ttr_ackd txSar + ucast mss,
                                           ttr_usedLength := ttr_usedLength txSar - ucast mss\<rparr>,
                      ml_FsmState := (if ml_segmentCount s = 3 then False else ml_FsmState s),
                      ml_segmentCount := ml_segmentCount s + 1\<rparr>
               else if ttr_finSent txSar
               then s\<lparr>ml_txSarReg := txSar, ml_curEvent := (ml_curEvent s)\<lparr>ev_type := FIN\<rparr>\<rparr>
               else s\<lparr>ml_txSarReg := txSar, ml_FsmState := False\<rparr>)
      in if tem_length m \<noteq> 0
         then ml_timer RT (ml_source False (ml_send m
                (s\<lparr>ml_readCmd := ml_readCmd s @ [mmCmd_mk pkgAddr (tem_length m)]\<rparr>)))
         else s)"

definition ml_rt :: "u16 \<Rightarrow> meta_loader_st \<Rightarrow> meta_loader_st" where
  "ml_rt mss s =
     (if \<not> (ml_both_ready s \<or> ml_sarLoaded s) then s
      else let (txSar, s) = (if \<not> ml_sarLoaded s then ml_read_both s else (ml_txSarReg s, s))
           in ml_rt_segment mss txSar
                (if \<not> ml_sarLoaded s \<and> ml_rt_count s = 1
                 then ml_update (txTxSarRtQuery (ml_id s) (rt_threshold mss (ttr_usedLength txSar))) s
                 else s))"

definition ml_ack :: "meta_loader_st \<Rightarrow> meta_loader_st" where
  "ml_ack s =
     (if \<not> ml_both_ready s then s
      else let (txSar, s) = ml_read_both s
           in ml_send (ml_ack_meta (ttr_not_ackd txSar) 0 False s) (s\<lparr>ml_FsmState := False\<rparr>))"

text \<open>The initial sequence number is drawn from a generator that also steps with every event.\<close>

definition initial_seq :: "u32 \<Rightarrow> u32" where
  "initial_seq r = push_bit 6 r - 1"

definition next_random :: "u32 \<Rightarrow> u32" where
  "next_random r = r * 8 XOR r"

definition ml_syn :: "meta_loader_st \<Rightarrow> meta_loader_st" where
  "ml_syn s =
     (if ml_rt_count s \<noteq> 0 \<and> ml_txSar_rsp s = [] then s
      else let (seq, s) =
                 (if ml_rt_count s \<noteq> 0
                  then (ttr_ackd (hd (ml_txSar_rsp s)), s\<lparr>ml_txSar_rsp := tl (ml_txSar_rsp s)\<rparr>)
                  else let seq = initial_seq (ml_randomValue s)
                       in (seq, ml_update (txTxSarQuery_write (ml_id s) (seq + 1) True False False)
                                  (s\<lparr>ml_randomValue := next_random (ml_randomValue s)\<rparr>)));
               m = (ml_meta s)\<lparr>tem_seqNumb := seq, tem_ackNumb := 0, tem_window_size := 0xFFFF,
                     tem_length := 8, tem_win_shift := WINDOW_SCALE_BITS, tem_ack := False,
                     tem_rst := False, tem_syn := True, tem_fin := False\<rparr>
           in ml_timer SYN (ml_send m (s\<lparr>ml_FsmState := False\<rparr>)))"

definition ml_syn_ack :: "meta_loader_st \<Rightarrow> meta_loader_st" where
  "ml_syn_ack s =
     (if \<not> ml_both_ready s then s
      else let (txSar, s) = ml_read_both s;
               (seq, s) =
                 (if ml_rt_count s \<noteq> 0 then (ttr_ackd txSar, s)
                  else let seq = initial_seq (ml_randomValue s)
                       in (seq, ml_update (txTxSarQuery_write (ml_id s) (seq + 1) True False False)
                                  (s\<lparr>ml_randomValue := next_random (ml_randomValue s)\<rparr>)));
               ws = rsr_win_shift (ml_rxSar s);
               m = (ml_meta s)\<lparr>tem_seqNumb := seq, tem_ackNumb := rsr_recvd (ml_rxSar s),
                     tem_window_size := 0xFFFF, tem_length := (if ws \<noteq> 0 then 8 else 4),
                     tem_win_shift := ws, tem_ack := True, tem_rst := False, tem_syn := True,
                     tem_fin := False\<rparr>
           in ml_timer SYN_ACK (ml_send m (s\<lparr>ml_FsmState := False\<rparr>)))"

definition ml_fin :: "meta_loader_st \<Rightarrow> meta_loader_st" where
  "ml_fin s =
     (if \<not> (ml_both_ready s \<or> ml_sarLoaded s) then s
      else let (txSar, s) = (if \<not> ml_sarLoaded s then ml_read_both s else (ml_txSarReg s, s));
               (seq, s) =
                 (if ml_rt_count s \<noteq> 0 then (ttr_not_ackd txSar - 1, s)
                  else (ttr_not_ackd txSar,
                        ml_update (txTxSarQuery_write (ml_id s) (ttr_not_ackd txSar + 1) False True True) s))
           in ml_timer RT (ml_send (ml_ack_meta seq 0 True s) (s\<lparr>ml_FsmState := False\<rparr>)))"

definition ml_rst :: "u4 \<Rightarrow> meta_loader_st \<Rightarrow> meta_loader_st" where
  "ml_rst ws s =
     (let ev = event.truncate (ml_curEvent s); ackNumb = rst_getAckNumb 0 ev
      in if \<not> rst_hasSessionID ev
         then s\<lparr>ml_ipMeta := ml_ipMeta s @ [0],
                ml_tcpMeta := ml_tcpMeta s @ [tx_engine_meta_rst ws 0 ackNumb],
                ml_isLookUp := ml_isLookUp s @ [False],
                ml_tupleShortCut := ml_tupleShortCut s @ [ev_tuple (ml_curEvent s)],
                ml_FsmState := False\<rparr>
         else case ml_txSar_rsp s of
           [] \<Rightarrow> s
         | txSar # rest \<Rightarrow>
             s\<lparr>ml_txSar_rsp := rest, ml_ipMeta := ml_ipMeta s @ [0],
               ml_isLookUp := ml_isLookUp s @ [True], ml_rev_req := ml_rev_req s @ [ml_id s],
               ml_tcpMeta := ml_tcpMeta s @ [tx_engine_meta_rst ws (ttr_not_ackd txSar) ackNumb],
               ml_FsmState := False\<rparr>)"

definition metaLoader :: "u16 \<Rightarrow> u4 \<Rightarrow> meta_loader_st \<Rightarrow> meta_loader_st" where
  "metaLoader mss ws s =
     (if \<not> ml_FsmState s then ml_load s
      else case ev_type (ml_curEvent s) of
        TX \<Rightarrow> ml_tx s
      | RT \<Rightarrow> ml_rt mss s
      | ACK \<Rightarrow> ml_ack s
      | ACK_NODELAY \<Rightarrow> ml_ack s
      | SYN \<Rightarrow> ml_syn s
      | SYN_ACK \<Rightarrow> ml_syn_ack s
      | FIN \<Rightarrow> ml_fin s
      | RST \<Rightarrow> ml_rst ws s)"


section \<open>Splitting the reads\<close>

record mem_breakdown_st =
  mb_state :: bool
  mb_cmd :: mmCmd
  mb_lengthFirstAccess :: u18
  mb_in :: "mmCmd fifo"
  mb_out :: "mmCmd fifo"
  mb_stitch :: "bool fifo"

definition txEngMemAccessBreakdown :: "mem_breakdown_st \<Rightarrow> mem_breakdown_st" where
  "txEngMemAccessBreakdown s =
     (if \<not> mb_state s
      then case mb_in s of
          [] \<Rightarrow> s
        | cmd # cmds \<Rightarrow>
            let s = s\<lparr>mb_in := cmds, mb_cmd := cmd\<rparr>
            in if crosses_end cmd
               then let len = ucast ((of_nat BUFFER_SIZE :: u32) - mm_saddr cmd) :: u18
                    in s\<lparr>mb_lengthFirstAccess := len, mb_stitch := mb_stitch s @ [True],
                         mb_out := mb_out s @ [mmCmd_mk (mm_saddr cmd) (ucast len)], mb_state := True\<rparr>
               else s\<lparr>mb_stitch := mb_stitch s @ [False], mb_out := mb_out s @ [cmd]\<rparr>
      else s\<lparr>mb_out := mb_out s @ [mmCmd_mk 0 (ucast (mm_bbt (mb_cmd s) - ucast (mb_lengthFirstAccess s)))],
             mb_state := False\<rparr>)"

section \<open>The addresses of a segment\<close>

record twoTuple =
  tt_srcIp :: u32
  tt_dstIp :: u32

record tuple_splitter_st =
  ts_getMeta :: bool
  ts_isLookUp :: bool
  ts_rev_rsp :: "fourTuple fifo"
  ts_tupleShortCut :: "fourTuple fifo"
  ts_isLookUpFifo :: "bool fifo"
  ts_ipTuple :: "twoTuple fifo"
  ts_tcpTuple :: "fourTuple fifo"

definition ts_put :: "fourTuple \<Rightarrow> tuple_splitter_st \<Rightarrow> tuple_splitter_st" where
  "ts_put t s =
     s\<lparr>ts_ipTuple := ts_ipTuple s @ [\<lparr>tt_srcIp = srcIp t, tt_dstIp = dstIp t\<rparr>],
       ts_tcpTuple := ts_tcpTuple s @ [t], ts_getMeta := True\<rparr>"

definition tupleSplitter :: "tuple_splitter_st \<Rightarrow> tuple_splitter_st" where
  "tupleSplitter s =
     (if ts_getMeta s
      then case ts_isLookUpFifo s of
          [] \<Rightarrow> s
        | b # bs \<Rightarrow> s\<lparr>ts_isLookUpFifo := bs, ts_isLookUp := b, ts_getMeta := False\<rparr>
      else if ts_rev_rsp s \<noteq> [] \<and> ts_isLookUp s
      then ts_put (hd (ts_rev_rsp s)) (s\<lparr>ts_rev_rsp := tl (ts_rev_rsp s)\<rparr>)
      else if ts_tupleShortCut s \<noteq> [] \<and> \<not> ts_isLookUp s
      then ts_put (hd (ts_tupleShortCut s)) (s\<lparr>ts_tupleShortCut := tl (ts_tupleShortCut s)\<rparr>)
      else s)"

section \<open>Retransmission\<close>

text \<open>\<open>n\<close> bytes cut into segments of \<open>mss\<close> bytes, the last one with the rest; and where segments of
  these lengths start.\<close>

definition cut :: "nat \<Rightarrow> nat \<Rightarrow> nat list" where
  "cut mss n = replicate (n div mss) mss @ (if n mod mss = 0 then [] else [n mod mss])"

fun starts :: "u32 \<Rightarrow> nat list \<Rightarrow> (u32 \<times> nat) list" where
  "starts q [] = []"
| "starts q (l # ls) = (q, l) # starts (q + of_nat l) ls"

lemma cut_one: "0 < n \<Longrightarrow> n \<le> mss \<Longrightarrow> cut mss n = [n]"
  by (cases "n = mss") (auto simp: cut_def)

lemma cut_zero [simp]: "cut mss 0 = []"
  by (simp add: cut_def)

lemma cut_more: "0 < mss \<Longrightarrow> mss \<le> n \<Longrightarrow> cut mss n = mss # cut mss (n - mss)"
  by (auto simp: cut_def le_div_geq le_mod_geq)

lemma cut_sum: "sum_list (cut mss n) = n"
  using div_mult_mod_eq [of n mss] by (auto simp: cut_def sum_list_replicate simp del: div_mult_mod_eq)

lemma unat_ucast_fits:
  fixes w :: "'a::len word"
  shows "unat w < 2 ^ LENGTH('b::len) \<Longrightarrow> unat (ucast w :: 'b word) = unat w"
  by (simp add: unsigned_ucast_eq take_bit_nat_eq_self)

lemma unat_ucast_23 [simp]: "unat (ucast (l :: u16) :: u23) = unat l"
  by (intro unat_ucast_fits order_less_le_trans [OF unat_less]) simp

text \<open>The segments with the starts and lengths \<open>xs\<close> are sent, each with its read of the buffer.\<close>

definition rt_sends :: "(u32 \<times> nat) list \<Rightarrow> meta_loader_st \<Rightarrow> meta_loader_st \<Rightarrow> bool" where
  "rt_sends xs s t \<longleftrightarrow>
     ml_tcpMeta t = ml_tcpMeta s @ map (\<lambda>(q, l). ml_ack_meta q (of_nat l) False s) xs \<and>
     ml_ipMeta t = ml_ipMeta s @ map (\<lambda>(q, l). of_nat l) xs \<and>
     ml_readCmd t = ml_readCmd s @ map (\<lambda>(q, l). mmCmd_mk (tasi_pkgAddr (ml_id s) (ucast q)) (of_nat l)) xs \<and>
     ml_isDDRbypass t = ml_isDDRbypass s @ map (\<lambda>_. False) xs \<and>
     ml_isLookUp t = ml_isLookUp s @ map (\<lambda>_. True) xs \<and> ml_rev_req t = ml_rev_req s @ map (\<lambda>_. ml_id s) xs \<and>
     ml_setRetransmit t = ml_setRetransmit s @ map (\<lambda>_. \<lparr>trs_sessionID = ml_id s, trs_type = RT\<rparr>) xs \<and>
     ml_txSar_req t = ml_txSar_req s \<and> ml_rxSar t = ml_rxSar s \<and> ml_id t = ml_id s \<and>
     ml_rt_count t = ml_rt_count s \<and> tem_win_shift (ml_meta t) = tem_win_shift (ml_meta s) \<and>
     ml_tupleShortCut t = ml_tupleShortCut s \<and> ml_rxSar_rsp t = ml_rxSar_rsp s \<and>
     ml_txSar_rsp t = ml_txSar_rsp s \<and> ml_event t = ml_event s"

lemma ml_ack_meta_cong:
  "ml_rxSar t = ml_rxSar s \<Longrightarrow> tem_win_shift (ml_meta t) = tem_win_shift (ml_meta s) \<Longrightarrow>
   ml_ack_meta q l fin t = ml_ack_meta q l fin s"
  by (simp add: ml_ack_meta_def)

lemma rt_sends_trans:
  assumes "rt_sends xs s t" "rt_sends ys t u"
  shows "rt_sends (xs @ ys) s u"
proof -
  have "ml_rxSar t = ml_rxSar s" "tem_win_shift (ml_meta t) = tem_win_shift (ml_meta s)"
    using assms(1) by (simp_all only: rt_sends_def)
  note meta = ml_ack_meta_cong [OF this]
  show ?thesis using assms unfolding rt_sends_def meta by (simp only: map_append append_assoc)
qed

lemma low18: "(bits 17 0 (a :: u32) :: u18) = ucast a"
  by (intro bit_word_eqI) (auto simp: bit_bits bit_simps)

lemma rt_first:
  assumes "ml_rxSar_rsp s = r # rs" "ml_txSar_rsp s = x # xs" "\<not> ml_sarLoaded s"
  shows "ml_rt mss s = ml_rt_segment mss x (s\<lparr>ml_rxSar := r, ml_rxSar_rsp := rs, ml_txSar_rsp := xs,
     ml_txSar_req := ml_txSar_req s @ (if ml_rt_count s = 1
       then [txTxSarRtQuery (ml_id s) (rt_threshold mss (ttr_usedLength x))] else [])\<rparr>)"
proof -
  define s1 where "s1 = s\<lparr>ml_rxSar := r, ml_rxSar_rsp := rs, ml_txSar_rsp := xs\<rparr>"
  have f: "ml_read_both s = (x, s1)" by (simp add: ml_read_both_def s1_def assms)
  have r: "ml_both_ready s" by (simp add: ml_both_ready_def assms)
  have p: "ml_sarLoaded s1 = False" "ml_rt_count s1 = ml_rt_count s" "ml_id s1 = ml_id s" "ml_txSar_req s1 = ml_txSar_req s"
    by (simp_all add: s1_def assms)
  have "ml_rt mss s = ml_rt_segment mss x (if ml_rt_count s = 1
      then ml_update (txTxSarRtQuery (ml_id s) (rt_threshold mss (ttr_usedLength x))) s1 else s1)"
    by (simp only: ml_rt_def Let_def r assms(3) f p if_True if_False simp_thms prod.case)
  also have "(if ml_rt_count s = 1
      then ml_update (txTxSarRtQuery (ml_id s) (rt_threshold mss (ttr_usedLength x))) s1 else s1) =
     s1\<lparr>ml_txSar_req := ml_txSar_req s @ (if ml_rt_count s = 1
       then [txTxSarRtQuery (ml_id s) (rt_threshold mss (ttr_usedLength x))] else [])\<rparr>"
    by (simp add: ml_update_def p)
  finally show ?thesis by (simp add: s1_def)
qed

lemma rt_next: "ml_sarLoaded s \<Longrightarrow> ml_rt mss s = ml_rt_segment mss (ml_txSarReg s) s"
  by (simp add: ml_rt_def)

lemma rt_long:
  assumes "ml_FsmState s" "0 < mss" "unat mss < unat (ttr_usedLength x)"
  defines "t \<equiv> ml_rt_segment mss x s"
  shows "rt_sends [(ttr_ackd x, unat mss)] s t" "ml_sarLoaded t" "ml_FsmState t = (ml_segmentCount s \<noteq> 3)"
    "ml_segmentCount t = ml_segmentCount s + 1" "ml_curEvent t = ml_curEvent s"
    "ml_txSarReg t = x\<lparr>ttr_ackd := ttr_ackd x + ucast mss, ttr_usedLength := ttr_usedLength x - ucast mss\<rparr>"
  using assms(1-3)
  by (simp_all add: t_def ml_rt_segment_def ml_send_def ml_source_def ml_timer_def Let_def rt_sends_def low18
      ml_ack_meta_def word_neq_0_conv)

lemma rt_short:
  assumes "ml_FsmState s" "unat (ttr_usedLength x) \<le> unat mss"
  defines "t \<equiv> ml_rt_segment mss x s"
  shows "rt_sends (starts (ttr_ackd x) (cut (unat mss) (unat (ttr_usedLength x)))) s t" "ml_sarLoaded t"
    "ml_FsmState t = ttr_finSent x" "ml_txSarReg t = x" "ttr_finSent x \<Longrightarrow> ev_type (ml_curEvent t) = FIN"
proof -
  have l16: "unat (ttr_usedLength x) < 2 ^ 16" using assms(2) unat_less [of mss] by simp
  have z: "(ucast (ttr_usedLength x) :: u16) = 0 \<longleftrightarrow> ttr_usedLength x = 0"
  proof -
    have "unat (ucast (ttr_usedLength x) :: u16) = unat (ttr_usedLength x)"
      using l16 by (simp add: unsigned_ucast_eq take_bit_nat_eq_self)
    then show ?thesis by (metis unat_eq_zero)
  qed
  note defs = t_def ml_rt_segment_def ml_send_def ml_source_def ml_timer_def Let_def ml_ack_meta_def
  show "ml_sarLoaded t" "ml_FsmState t = ttr_finSent x" "ml_txSarReg t = x"
    "ttr_finSent x \<Longrightarrow> ev_type (ml_curEvent t) = FIN"
    using assms(1,2) by (simp_all add: defs)
  show "rt_sends (starts (ttr_ackd x) (cut (unat mss) (unat (ttr_usedLength x)))) s t"
  proof (cases "ttr_usedLength x = 0")
    case True
    then show ?thesis by (simp add: defs rt_sends_def)
  next
    case False
    then have c: "cut (unat mss) (unat (ttr_usedLength x)) = [unat (ttr_usedLength x)]"
      using assms(2) by (intro cut_one) (simp_all add: unat_gt_0)
    show ?thesis
      unfolding c using assms(2) False z by (simp add: defs rt_sends_def low18)
  qed
qed


definition rt_result :: "txTxSarReply \<Rightarrow> nat \<Rightarrow> nat \<Rightarrow> meta_loader_st \<Rightarrow> meta_loader_st \<Rightarrow> bool" where
  "rt_result x mss n s t \<longleftrightarrow>
     rt_sends (starts (ttr_ackd x) (cut mss (min (unat (ttr_usedLength x)) n))) s t \<and> ml_sarLoaded t \<and>
     ml_FsmState t = (unat (ttr_usedLength x) \<le> n \<and> ttr_finSent x) \<and>
     (ml_FsmState t \<longrightarrow> ev_type (ml_curEvent t) = FIN) \<and> ttr_not_ackd (ml_txSarReg t) = ttr_not_ackd x"

lemma rt_result_short:
  assumes "ml_FsmState s" "unat (ttr_usedLength x) \<le> unat mss" "unat mss \<le> n"
  shows "rt_result x (unat mss) n s (ml_rt_segment mss x s)"
  using rt_short [OF assms(1,2)] assms(2,3) by (simp add: rt_result_def min_absorb1)

lemma rt_result_long:
  fixes mss :: u16
  assumes "0 < mss" "unat mss < unat (ttr_usedLength x)" "rt_sends [(ttr_ackd x, unat mss)] s t"
    and "rt_result (x\<lparr>ttr_ackd := ttr_ackd x + ucast mss, ttr_usedLength := ttr_usedLength x - ucast mss\<rparr>) (unat mss) n t u"
  shows "rt_result x (unat mss) (unat mss + n) s u"
proof -
  have p: "0 < unat mss" using assms(1) by (simp add: unat_gt_0 word_neq_0_conv)
  have m: "unat (ucast mss :: u18) = unat mss"
    by (intro unat_ucast_fits order_less_le_trans [OF unat_less]) simp
  have u: "unat (ttr_usedLength x - ucast mss) = unat (ttr_usedLength x) - unat mss"
    using assms(2) m by (simp add: unat_sub word_le_nat_alt)
  have "min (unat (ttr_usedLength x)) (unat mss + n) = unat mss + min (unat (ttr_usedLength x) - unat mss) n"
    using assms(2) by simp
  then have c: "cut (unat mss) (min (unat (ttr_usedLength x)) (unat mss + n)) =
      unat mss # cut (unat mss) (min (unat (ttr_usedLength x) - unat mss) n)"
    by (simp add: cut_more [OF p])
  have o: "of_nat (unat mss) = (ucast mss :: u32)" by simp
  have "rt_sends ([(ttr_ackd x, unat mss)] @ starts (ttr_ackd x + ucast mss)
      (cut (unat mss) (min (unat (ttr_usedLength x) - unat mss) n))) s u"
    using assms(4) by (intro rt_sends_trans [OF assms(3)]) (simp add: rt_result_def u)
  then show ?thesis using assms(2,4) by (simp add: rt_result_def c o u) arith
qed

lemma rt_run:
  assumes "ml_FsmState s" "ev_type (ml_curEvent s) = RT" "0 < mss" "ml_segmentCount s = of_nat (3 - k)" "k \<le> 3"
  shows "\<exists>m\<le>k. rt_result x (unat mss) (Suc k * unat mss) s ((metaLoader mss ws ^^ m) (ml_rt_segment mss x s))"
  using assms
proof (induction k arbitrary: s x)
  case 0
  show ?case
  proof (cases "unat (ttr_usedLength x) \<le> unat mss")
    case True
    with rt_result_short [OF 0(1) True] show ?thesis by (intro exI [of _ 0]) simp
  next
    case False
    then have l: "unat mss < unat (ttr_usedLength x)" by simp
    from rt_long [OF 0(1,3) l] 0(4) l
    have "rt_sends [(ttr_ackd x, unat mss)] s (ml_rt_segment mss x s)" "\<not> ml_FsmState (ml_rt_segment mss x s)"
      "ml_sarLoaded (ml_rt_segment mss x s)" "ttr_not_ackd (ml_txSarReg (ml_rt_segment mss x s)) = ttr_not_ackd x"
      by simp_all
    moreover have "0 < unat mss" using 0(3) by (simp add: unat_gt_0 word_neq_0_conv)
    ultimately show ?thesis using l
      by (intro exI [of _ 0]) (simp add: rt_result_def min_absorb2 cut_one)
  qed
next
  case (Suc k)
  show ?case
  proof (cases "unat (ttr_usedLength x) \<le> unat mss")
    case True
    with rt_result_short [OF Suc.prems(1) True] show ?thesis by (intro exI [of _ 0]) simp
  next
    case False
    then have l: "unat mss < unat (ttr_usedLength x)" by simp
    let ?t = "ml_rt_segment mss x s"
    note t = rt_long [OF Suc.prems(1,3) l]
    have c: "ml_segmentCount s \<noteq> 3" "ml_segmentCount s + 1 = of_nat (3 - k)"
    proof -
      have "k = 0 \<or> k = 1 \<or> k = 2" using Suc.prems(5) by auto
      then show "ml_segmentCount s \<noteq> 3" "ml_segmentCount s + 1 = of_nat (3 - k)"
        using Suc.prems(4) by auto
    qed
    have "\<exists>m\<le>k. rt_result (ml_txSarReg ?t) (unat mss) (Suc k * unat mss) ?t
        ((metaLoader mss ws ^^ m) (ml_rt_segment mss (ml_txSarReg ?t) ?t))"
      using Suc.prems(2,3,5) c t by (intro Suc.IH) simp_all
    then obtain m where m: "m \<le> k" "rt_result (ml_txSarReg ?t) (unat mss) (Suc k * unat mss) ?t
        ((metaLoader mss ws ^^ m) (ml_rt_segment mss (ml_txSarReg ?t) ?t))" by blast
    have "metaLoader mss ws ?t = ml_rt_segment mss (ml_txSarReg ?t) ?t"
      using t c(1) Suc.prems(2) by (simp add: metaLoader_def rt_next)
    with m rt_result_long [OF Suc.prems(3) l t(1), of "Suc k * unat mss"] t(6)
    show ?thesis
      by (intro exI [of _ "Suc m"]) (simp add: funpow_Suc_right del: funpow.simps(2))
  qed
qed


text \<open>A segment that carries the receive window \<open>r\<close>, and the FIN of a retransmission.\<close>

definition segment_of :: "rxSarReply \<Rightarrow> u4 \<Rightarrow> u32 \<Rightarrow> nat \<Rightarrow> bool \<Rightarrow> tx_engine_meta" where
  "segment_of r ws q l fin =
     \<lparr>tem_seqNumb = q, tem_ackNumb = rsr_recvd r, tem_window_size = rsr_windowSize r, tem_win_shift = ws,
      tem_length = of_nat l, tem_ack = True, tem_rst = False, tem_syn = False, tem_fin = fin\<rparr>"

lemma ml_ack_meta_segment:
  "ml_ack_meta q (of_nat l) fin s = segment_of (ml_rxSar s) (tem_win_shift (ml_meta s)) q l fin"
  by (simp add: ml_ack_meta_def segment_of_def)

definition rt_data :: "u16 \<Rightarrow> txTxSarReply \<Rightarrow> (u32 \<times> nat) list" where
  "rt_data mss x = starts (ttr_ackd x) (cut (unat mss) (min (unat (ttr_usedLength x)) (4 * unat mss)))"

definition rt_fin :: "u16 \<Rightarrow> txTxSarReply \<Rightarrow> u3 \<Rightarrow> u32 list" where
  "rt_fin mss x rt_count =
     (if ttr_finSent x \<and> unat (ttr_usedLength x) \<le> 4 * unat mss
      then [if rt_count = 0 then ttr_not_ackd x else ttr_not_ackd x - 1] else [])"

lemma ml_fin_loaded:
  fixes mss :: u16 and ws :: u4 and s :: meta_loader_st
  assumes "ml_sarLoaded s" "ml_FsmState s" "ev_type (ml_curEvent s) = FIN"
  defines "q \<equiv> if ml_rt_count s = 0 then ttr_not_ackd (ml_txSarReg s) else ttr_not_ackd (ml_txSarReg s) - 1"
  defines "t \<equiv> metaLoader mss ws s"
  shows "\<not> ml_FsmState t" "ml_tcpMeta t = ml_tcpMeta s @ [segment_of (ml_rxSar s) (tem_win_shift (ml_meta s)) q 0 True]"
    "ml_readCmd t = ml_readCmd s" "ml_isDDRbypass t = ml_isDDRbypass s" "ml_rxSar_rsp t = ml_rxSar_rsp s"
    "ml_txSar_rsp t = ml_txSar_rsp s" "ml_rev_req t = ml_rev_req s @ [ml_id s]" "ml_isLookUp t = ml_isLookUp s @ [True]"
    "ml_ipMeta t = ml_ipMeta s @ [0]"
  using assms(1-3)
  by (cases "ml_rt_count s = 0"; simp add: t_def q_def metaLoader_def ml_fin_def ml_update_def Let_def ml_send_def
      ml_timer_def ml_ack_meta_def segment_of_def)+

lemma rt_all:
  assumes "ml_FsmState s" "ev_type (ml_curEvent s) = RT" "\<not> ml_sarLoaded s" "ml_segmentCount s = 0" "0 < mss"
    and "ml_rxSar_rsp s = r # rs" "ml_txSar_rsp s = x # xs"
  shows "\<exists>k\<le>5. let t = (metaLoader mss ws ^^ k) s; data = rt_data mss x; fins = rt_fin mss x (ml_rt_count s);
      seg = segment_of r (tem_win_shift (ml_meta s))
    in \<not> ml_FsmState t \<and> ml_rxSar_rsp t = rs \<and> ml_txSar_rsp t = xs \<and>
       ml_tcpMeta t = ml_tcpMeta s @ map (\<lambda>(q, l). seg q l False) data @ map (\<lambda>q. seg q 0 True) fins \<and>
       ml_readCmd t = ml_readCmd s @ map (\<lambda>(q, l). mmCmd_mk (tasi_pkgAddr (ml_id s) (ucast q)) (of_nat l)) data \<and>
       ml_isDDRbypass t = ml_isDDRbypass s @ map (\<lambda>_. False) data \<and>
       ml_rev_req t = ml_rev_req s @ replicate (length data + length fins) (ml_id s) \<and>
       sum_list (map snd data) = min (unat (ttr_usedLength x)) (4 * unat mss)"
proof -
  define u where "u = s\<lparr>ml_rxSar := r, ml_rxSar_rsp := rs, ml_txSar_rsp := xs,
     ml_txSar_req := ml_txSar_req s @ (if ml_rt_count s = 1
       then [txTxSarRtQuery (ml_id s) (rt_threshold mss (ttr_usedLength x))] else [])\<rparr>"
  have first: "metaLoader mss ws s = ml_rt_segment mss x u"
    using assms(1,2) rt_first [OF assms(6,7,3), of mss] by (simp add: metaLoader_def u_def)
  have us: "ml_FsmState u" "ml_curEvent u = ml_curEvent s" "ml_segmentCount u = 0" "ml_rxSar u = r"
    "ml_rxSar_rsp u = rs" "ml_txSar_rsp u = xs" "ml_tcpMeta u = ml_tcpMeta s" "ml_readCmd u = ml_readCmd s"
    "ml_isDDRbypass u = ml_isDDRbypass s" "ml_rev_req u = ml_rev_req s" "ml_meta u = ml_meta s"
    using assms(1,4) by (simp_all add: u_def)
  from rt_run [of u mss 3 x ws] us assms(2,5) obtain m where m: "m \<le> 3"
    "rt_result x (unat mss) (4 * unat mss) u ((metaLoader mss ws ^^ m) (ml_rt_segment mss x u))" by auto
  define v where "v = (metaLoader mss ws ^^ Suc m) s"
  have v: "rt_result x (unat mss) (4 * unat mss) u v"
    using m(2) first by (simp add: v_def funpow_Suc_right del: funpow.simps(2))
  have sum: "sum_list (map snd (starts q ls)) = sum_list ls" for q ls by (induction ls arbitrary: q) auto
  have seg: "(\<lambda>(q, l). ml_ack_meta q (of_nat l) False u) = (\<lambda>(q, l). segment_of r (tem_win_shift (ml_meta s)) q l False)"
    by (simp add: ml_ack_meta_segment us)
  have data: "ml_tcpMeta v = ml_tcpMeta s @ map (\<lambda>(q, l). segment_of r (tem_win_shift (ml_meta s)) q l False) (rt_data mss x)"
    "ml_readCmd v = ml_readCmd s @ map (\<lambda>(q, l). mmCmd_mk (tasi_pkgAddr (ml_id s) (ucast q)) (of_nat l)) (rt_data mss x)"
    "ml_isDDRbypass v = ml_isDDRbypass s @ map (\<lambda>_. False) (rt_data mss x)"
    "ml_rev_req v = ml_rev_req s @ replicate (length (rt_data mss x)) (ml_id s)"
    "ml_rxSar_rsp v = rs" "ml_txSar_rsp v = xs" "ml_rxSar v = r" "ml_id v = ml_id s" "ml_rt_count v = ml_rt_count s"
    "tem_win_shift (ml_meta v) = tem_win_shift (ml_meta s)"
    using v unfolding rt_result_def rt_sends_def seg by (simp_all add: us rt_data_def map_replicate_const)
  have total: "sum_list (map snd (rt_data mss x)) = min (unat (ttr_usedLength x)) (4 * unat mss)"
    by (simp add: rt_data_def sum cut_sum)
  show ?thesis
  proof (cases "ml_FsmState v")
    case False
    then have "rt_fin mss x (ml_rt_count s) = []" using v by (auto simp: rt_result_def rt_fin_def)
    with False data total m(1) show ?thesis
      by (intro exI [of _ "Suc m"]) (simp add: Let_def flip: v_def del: funpow.simps)
  next
    case True
    then have f: "ml_sarLoaded v" "ev_type (ml_curEvent v) = FIN" "ttr_not_ackd (ml_txSarReg v) = ttr_not_ackd x"
      "rt_fin mss x (ml_rt_count s) = [if ml_rt_count s = 0 then ttr_not_ackd x else ttr_not_ackd x - 1]"
      using v by (auto simp: rt_result_def rt_fin_def)
    have w: "(metaLoader mss ws ^^ Suc (Suc m)) s = metaLoader mss ws v" by (simp add: v_def)
    show ?thesis
      using ml_fin_loaded [OF f(1) True f(2), of mss ws] data total m(1) f(3)
      by (intro exI [of _ "Suc (Suc m)"]) (simp add: Let_def w f(4) replicate_append_same del: funpow.simps)
  qed
qed


text \<open>C24: what a retransmission sends.  The \<open>usedLength\<close> bytes (they count a FIN that was sent) from
  the first unacknowledged one on, cut into segments of \<open>MSS\<close> bytes, at most four of them, in order and
  without gap or overlap; each is read from the position of its first byte in the ring of the session
  and none bypasses the memory.  If the FIN has been sent and everything before it fits, the FIN
  follows.  With the answers of the tables there, the engine is back at the next event after at most
  five cycles.\<close>

theorem retransmission:
  assumes "ml_FsmState s" "ev_type (ml_curEvent s) = RT" "\<not> ml_sarLoaded s" "ml_segmentCount s = 0" "0 < mss"
    and "ml_rxSar_rsp s = r # rs" "ml_txSar_rsp s = x # xs"
  shows "\<exists>k\<le>5. let t = (metaLoader mss ws ^^ k) s; data = rt_data mss x; fins = rt_fin mss x (ml_rt_count s);
      seg = segment_of r (tem_win_shift (ml_meta s))
    in \<not> ml_FsmState t \<and> ml_rxSar_rsp t = rs \<and> ml_txSar_rsp t = xs \<and>
       ml_tcpMeta t = ml_tcpMeta s @ map (\<lambda>(q, l). seg q l False) data @ map (\<lambda>q. seg q 0 True) fins \<and>
       ml_readCmd t = ml_readCmd s @ map (\<lambda>(q, l). mmCmd_mk (tasi_pkgAddr (ml_id s) (ucast q)) (of_nat l)) data \<and>
       ml_isDDRbypass t = ml_isDDRbypass s @ map (\<lambda>_. False) data \<and>
       ml_rev_req t = ml_rev_req s @ replicate (length data + length fins) (ml_id s) \<and>
       sum_list (map snd data) = min (unat (ttr_usedLength x)) (4 * unat mss)"
  by (rule rt_all [OF assms])

definition tx_ex_reply :: txTxSarReply where
  "tx_ex_reply = \<lparr>ttr_ackd = 0x1000, ttr_not_ackd = 0x100B, ttr_usableWindow = 0, ttr_app = 0,
     ttr_usedLength = 11, ttr_finReady = True, ttr_finSent = True, ttr_win_shift = 0\<rparr>"

definition tx_ex_rx :: rxSarReply where
  "tx_ex_rx = \<lparr>rsr_recvd = 77, rsr_win_shift = 0, rsr_windowSize = 500, rsr_usedLength = 0\<rparr>"

definition tx_ex :: "u16 \<Rightarrow> eventType \<Rightarrow> u3 \<Rightarrow> txTxSarReply \<Rightarrow> meta_loader_st" where
  "tx_ex i ty rt x =
     \<lparr>ml_FsmState = True, ml_sarLoaded = False,
      ml_curEvent = extendedEvent_of \<lparr>srcIp = 0, dstIp = 0, srcPort = 0, dstPort = 0\<rparr> (event_rt ty i rt),
      ml_randomValue = 0x562301af, ml_segmentCount = 0, ml_rxSar = tx_ex_rx, ml_txSarReg = x,
      ml_meta = tx_engine_meta_rst 0 0 0, ml_event = [], ml_rxSar_rsp = [tx_ex_rx], ml_txSar_rsp = [x],
      ml_rxSar_req = [], ml_txSar_req = [], ml_setRetransmit = [], ml_setProbe = [], ml_ipMeta = [], ml_tcpMeta = [],
      ml_readCmd = [], ml_rev_req = [], ml_isLookUp = [], ml_isDDRbypass = [], ml_tupleShortCut = [], ml_readCount = []\<rparr>"

lemma tx_ex_simps [simp]:
  "ml_FsmState (tx_ex i ty rt x)" "\<not> ml_sarLoaded (tx_ex i ty rt x)" "ml_segmentCount (tx_ex i ty rt x) = 0"
  "ml_rxSar_rsp (tx_ex i ty rt x) = [tx_ex_rx]" "ml_txSar_rsp (tx_ex i ty rt x) = [x]" "ml_tcpMeta (tx_ex i ty rt x) = []"
  "ev_type (ml_curEvent (tx_ex i ty rt x)) = ty" "ml_rt_count (tx_ex i ty rt x) = rt" "ml_id (tx_ex i ty rt x) = i"
  by (simp_all add: tx_ex_def extendedEvent_of_def event_rt_def)

theorem retransmission_witness:
  "rt_data 4 tx_ex_reply = [(0x1000, 4), (0x1004, 4), (0x1008, 3)] \<and> rt_fin 4 tx_ex_reply 1 = [0x100A] \<and>
   (\<exists>k\<le>5. let s = tx_ex 3 RT 1 tx_ex_reply; t = (metaLoader 4 0 ^^ k) s; data = rt_data 4 tx_ex_reply;
        fins = rt_fin 4 tx_ex_reply (ml_rt_count s); seg = segment_of tx_ex_rx (tem_win_shift (ml_meta s))
      in \<not> ml_FsmState t \<and> ml_rxSar_rsp t = [] \<and> ml_txSar_rsp t = [] \<and>
         ml_tcpMeta t = ml_tcpMeta s @ map (\<lambda>(q, l). seg q l False) data @ map (\<lambda>q. seg q 0 True) fins \<and>
         ml_readCmd t = ml_readCmd s @ map (\<lambda>(q, l). mmCmd_mk (tasi_pkgAddr (ml_id s) (ucast q)) (of_nat l)) data \<and>
         ml_isDDRbypass t = ml_isDDRbypass s @ map (\<lambda>_. False) data \<and>
         ml_rev_req t = ml_rev_req s @ replicate (length data + length fins) (ml_id s) \<and>
         sum_list (map snd data) = min (unat (ttr_usedLength tx_ex_reply)) (4 * unat (4 :: u16)))"
proof -
  have u: "unat (4 :: u16) = 4" "unat (ttr_usedLength tx_ex_reply) = 11" by (simp_all add: tx_ex_reply_def)
  have "cut 4 11 = replicate 2 4 @ [3]" by (simp add: cut_def)
  then have c: "cut 4 11 = [4, 4, 3]" by (simp add: numeral_2_eq_2)
  have v: "rt_data 4 tx_ex_reply = [(0x1000, 4), (0x1004, 4), (0x1008, 3)]" "rt_fin 4 tx_ex_reply 1 = [0x100A]"
    unfolding rt_data_def rt_fin_def u by (simp_all add: c) (simp_all add: tx_ex_reply_def)
  have four: "0 < (4 :: u16)" by simp
  show ?thesis
    using retransmission [where mss = 4 and ws = 0, OF tx_ex_simps(1) tx_ex_simps(7) tx_ex_simps(2,3) four tx_ex_simps(4,5), of 3 1 tx_ex_reply]
    unfolding Let_def by (intro conjI v)
qed

section \<open>Retransmission of a FIN\<close>

text \<open>\<open>m\<close> is what the receive engine of the peer reads out of the headers of the segment \<open>g\<close>.\<close>

definition received_as :: "tx_engine_meta \<Rightarrow> rxEngineMetaData \<Rightarrow> bool" where
  "received_as g m \<longleftrightarrow> rm_seqNumb m = tem_seqNumb g \<and> rm_ackNumb m = tem_ackNumb g \<and> rm_length m = tem_length g \<and>
     rm_ack m = tem_ack g \<and> rm_rst m = tem_rst g \<and> rm_syn m = tem_syn g \<and> rm_fin m = tem_fin g"

text \<open>C25: when only a FIN is unacknowledged, its retransmission sends first a segment with one byte of
  data, which the application never wrote, and then the FIN; both have the sequence number of the FIN.  A
  receive engine of this stack that accepts the byte does not accept the FIN behind it: its receive pointer
  has moved.  (\<open>usedLength\<close> counts the FIN; the table computes the length without it, but does not
  send it.)\<close>

theorem fin_retransmission:
  assumes "ml_FsmState s" "ev_type (ml_curEvent s) = RT" "\<not> ml_sarLoaded s" "ml_segmentCount s = 0" "0 < mss"
    and "ml_rxSar_rsp s = r # rs" "ml_txSar_rsp s = tx_sar_read u e # xs"
    and "tse_finSent e" "tse_not_ackd e = tse_ackd e + 1" "ml_rt_count s \<noteq> 0"
  shows "\<exists>k\<le>5. \<exists>g h. let t = (metaLoader mss ws ^^ k) s
    in ml_tcpMeta t = ml_tcpMeta s @ [g, h] \<and> tem_length g = 1 \<and> \<not> tem_fin g \<and> tem_fin h \<and>
       tem_seqNumb g = tse_not_ackd e - 1 \<and> tem_seqNumb h = tse_not_ackd e - 1 \<and>
       ml_readCmd t = ml_readCmd s @ [mmCmd_mk (tasi_pkgAddr (ml_id s) (ucast (tse_not_ackd e - 1))) 1] \<and>
       (\<forall>env c c' en m m'. received_as g m \<and> received_as h m' \<and> takes env c en m \<longrightarrow>
          \<not> takes env c' (en\<lparr>rse_recvd := segment_end m\<rparr>) m')"
proof -
  let ?x = "tx_sar_read u e"
  have x: "ttr_ackd ?x = tse_ackd e" "ttr_not_ackd ?x = tse_ackd e + 1" "ttr_finSent ?x" "ttr_usedLength ?x = 1"
  proof -
    have "(ucast (tse_ackd e + 1) :: u18) = ucast (tse_ackd e) + 1"
      by (simp add: word_uint_eq_iff unsigned_ucast_eq uint_word_ariths take_bit_eq_mod mod_mod_cancel mod_add_left_eq)
    then show "ttr_usedLength ?x = 1" by (simp add: tx_sar_read_def Let_def assms(9))
  qed (simp_all add: tx_sar_read_def Let_def assms(8,9))
  have p: "0 < unat mss" using assms(5) by (simp add: unat_gt_0 word_neq_0_conv)
  then have d: "rt_data mss ?x = [(tse_ackd e, 1)]" "rt_fin mss ?x (ml_rt_count s) = [tse_ackd e]"
    using assms(10) by (simp_all add: rt_data_def rt_fin_def x cut_one)
  from rt_all [OF assms(1-7), of ws] obtain k where k: "k \<le> 5"
    "ml_tcpMeta ((metaLoader mss ws ^^ k) s) = ml_tcpMeta s @
       [segment_of r (tem_win_shift (ml_meta s)) (tse_ackd e) 1 False, segment_of r (tem_win_shift (ml_meta s)) (tse_ackd e) 0 True]"
    "ml_readCmd ((metaLoader mss ws ^^ k) s) = ml_readCmd s @ [mmCmd_mk (tasi_pkgAddr (ml_id s) (ucast (tse_ackd e))) 1]"
    by (auto simp: Let_def d)
  show ?thesis
    by (rule exI [of _ k], intro conjI exI [of _ "segment_of r (tem_win_shift (ml_meta s)) (tse_ackd e) 1 False"]
      exI [of _ "segment_of r (tem_win_shift (ml_meta s)) (tse_ackd e) 0 True"])
      (use k in \<open>auto simp: Let_def segment_of_def assms(9) received_as_def takes_def segment_end_def\<close>)
qed

definition fin_ex_entry :: txSarEntry where
  "fin_ex_entry = \<lparr>tse_ackd = 0x1000, tse_not_ackd = 0x1001, tse_recv_window = 0x1000, tse_win_shift = 0,
     tse_cong_window = 0x3908, tse_slowstart_threshold = 0xFFFF, tse_app = 0, tse_count = 0,
     tse_fastRetransmitted = False, tse_finReady = True, tse_finSent = True\<rparr>"

theorem fin_retransmission_witness:
  "\<exists>k\<le>5. \<exists>g h. ml_tcpMeta ((metaLoader 1460 0 ^^ k) (tx_ex 3 RT 1 (tx_sar_read (0, 0) fin_ex_entry))) = [g, h] \<and>
     tem_seqNumb g = 0x1000 \<and> tem_length g = 1 \<and> tem_seqNumb h = 0x1000 \<and> tem_fin h"
proof -
  let ?s = "tx_ex 3 RT 1 (tx_sar_read (0, 0) fin_ex_entry)"
  have s: "ml_FsmState ?s" "ev_type (ml_curEvent ?s) = RT" "\<not> ml_sarLoaded ?s" "ml_segmentCount ?s = 0"
    "ml_rxSar_rsp ?s = [tx_ex_rx]" "ml_txSar_rsp ?s = [tx_sar_read (0, 0) fin_ex_entry]"
    "ml_rt_count ?s \<noteq> 0" "ml_tcpMeta ?s = []"
    by simp_all
  have e: "tse_finSent fin_ex_entry" "tse_not_ackd fin_ex_entry = tse_ackd fin_ex_entry + 1"
    "tse_not_ackd fin_ex_entry - 1 = 0x1000"
    by (simp_all add: fin_ex_entry_def)
  from fin_retransmission [OF s(1-4) _ s(5,6) e(1,2) s(7), of 1460 0]
  show ?thesis by (auto simp: Let_def s(8) e(3))
qed

section \<open>Reading the ring\<close>

definition read_addresses :: "mmCmd \<Rightarrow> u32 list" where
  "read_addresses c = map (\<lambda>j. mm_saddr c + of_nat j) [0..<unat (mm_bbt c)]"

lemma placed_addresses: "length bs = unat (mm_bbt c) \<Longrightarrow> map fst (placed c bs) = read_addresses c"
  by (simp add: placed_def read_addresses_def)

lemma ring_addresses: "map fst (ring_bytes a bs) = map (ring_address a) [0..<length bs]"
  by (simp add: ring_bytes_def)

lemma pkgAddr_session: "unat (tasi_pkgAddr i p) div 2 ^ 18 = unat i mod 4096"
proof -
  have "drop_bit 18 (tasi_pkgAddr i p) = ucast (take_bit 12 i)"
    by (intro bit_word_eqI) (auto simp: bit_simps bit_tasi_pkgAddr)
  from arg_cong [OF this, of unat]
  have "drop_bit 18 (unat (tasi_pkgAddr i p)) = unat (ucast (take_bit 12 i) :: u32)"
    by (simp only: unsigned_drop_bit_eq take_bit_nat_eq_self [OF unat_less])
  also have "\<dots> = unat (take_bit 12 i)"
    by (intro unat_ucast_fits order_less_le_trans [OF unat_less]) simp
  also have "\<dots> = take_bit 12 (unat i)" by (simp only: unsigned_take_bit_eq)
  finally show ?thesis by (simp add: drop_bit_eq_div take_bit_eq_mod)
qed

lemma ring_address_wrapped:
  assumes "l = 2 ^ 18 - unat a mod 2 ^ 18" "j < 2 ^ 18"
  shows "ring_address a (l + j) = of_nat j \<longleftrightarrow> unat a div 2 ^ 18 = 0"
proof -
  have "unat a mod 2 ^ 18 < 2 ^ 18" by simp
  then have "(unat a mod 2 ^ 18 + (l + j)) mod 2 ^ 18 = j" using assms by simp
  then have "unat (ring_address a (l + j)) = unat a div 2 ^ 18 * 2 ^ 18 + j" by (simp add: unat_ring_address)
  moreover have "unat (of_nat j :: u32) = j" using assms(2) by (simp add: unsigned_of_nat take_bit_nat_eq_self)
  ultimately show ?thesis unfolding word_unat_eq_iff by simp
qed

text \<open>The reads of a retransmission.  A segment that does not cross the end of the ring is read from
  the addresses to which it was written.  For a segment that crosses it there are two reads, of the right
  lengths, but the second one starts at address 0 and not at the start of the session's ring: the right
  bytes are read for the sessions whose ring lies at address 0, and for no others.\<close>

theorem retransmit_reads:
  fixes i len :: u16 and p :: u18
  defines "c \<equiv> mmCmd_mk (tasi_pkgAddr i p) len"
  assumes "\<not> mb_state s" "mb_in s = c # cs"
  shows "\<exists>k\<le>2. \<exists>new. let t = (txEngMemAccessBreakdown ^^ k) s
    in \<not> mb_state t \<and> mb_in t = cs \<and> mb_out t = mb_out s @ new \<and> mb_stitch t = mb_stitch s @ [crosses_end c] \<and>
       length new = (if crosses_end c then 2 else 1) \<and> sum_list (map (\<lambda>d. unat (mm_bbt d)) new) = unat len \<and>
       ((concat (map read_addresses new) = map (ring_address (tasi_pkgAddr i p)) [0..<unat len]) \<longleftrightarrow>
        \<not> crosses_end c \<or> unat i mod 4096 = 0)"
proof (cases "crosses_end c")
  case False
  have "read_addresses c = map (ring_address (tasi_pkgAddr i p)) [0..<unat len]"
  proof -
    have "unat (tasi_pkgAddr i p) mod 2 ^ 18 + unat len \<le> 2 ^ 18"
      using False by (simp add: c_def crosses_end_def mmCmd_mk_def low_bits unat_low_bits BUFFER_SIZE_eq unat_ucast_fits)
    then show ?thesis
      by (auto simp: read_addresses_def c_def mmCmd_mk_def unat_ucast_fits ring_straight)
  qed
  with False show ?thesis using assms(2,3)
    by (intro exI [of _ 1] exI [of _ "[c]"])
      (simp add: txEngMemAccessBreakdown_def Let_def, simp add: c_def mmCmd_mk_def unat_ucast_fits)
next
  case True
  let ?a = "tasi_pkgAddr i p" and ?L = "ucast ((of_nat BUFFER_SIZE :: u32) - tasi_pkgAddr i p) :: u18"
  define l where "l = unat ?L"
  have c: "mm_saddr c = ?a" "mm_bbt c = ucast len" by (simp_all add: c_def mmCmd_mk_def)
  have b: "unat (mm_bbt c) < 2 ^ 16" using unat_less [of len] by (simp add: c)
  from unat_first_length [OF True b] have l: "l = 2 ^ 18 - unat ?a mod 2 ^ 18" "0 < l" "l < unat len"
    by (simp_all add: l_def c)
  have l16: "l < 2 ^ 16" using l(3) unat_less [of len] by simp
  define c1 c2 where "c1 = mmCmd_mk ?a (ucast ?L)" and "c2 = mmCmd_mk 0 (ucast (ucast len - ucast ?L :: u23))"
  have b1: "unat (mm_bbt c1) = l" using l16 by (simp add: c1_def mmCmd_mk_def l_def unat_ucast_fits)
  have L: "unat (ucast ?L :: u23) = l" using l16 by (simp add: l_def unat_ucast_fits)
  have d: "unat (ucast len - ucast ?L :: u23) = unat len - l"
    using l(3) L by (simp add: unat_sub word_le_nat_alt)
  have b2: "unat (mm_bbt c2) = unat len - l"
    using unat_less [of len] by (simp add: c2_def mmCmd_mk_def unat_ucast_fits d)
  have r1: "read_addresses c1 = map (ring_address ?a) [0..<l]"
    using l(1) by (auto simp: read_addresses_def b1 ring_straight) (simp add: c1_def mmCmd_mk_def)
  have r2: "read_addresses c2 = map of_nat [0..<unat len - l]"
    by (simp add: read_addresses_def b2) (simp add: c2_def mmCmd_mk_def)
  have "[0..<unat len] = [0..<l] @ map ((+) l) [0..<unat len - l]"
    using l(3) by (auto intro!: nth_equalityI simp: nth_append)
  then have "(concat (map read_addresses [c1, c2]) = map (ring_address ?a) [0..<unat len]) \<longleftrightarrow>
      (\<forall>j < unat len - l. ring_address ?a (l + j) = of_nat j)"
    by (auto simp: r1 r2)
  also have "\<dots> \<longleftrightarrow> unat i mod 4096 = 0"
  proof -
    have "j < 2 ^ 18" if "j < unat len - l" for j using that unat_less [of len] by simp
    with ring_address_wrapped [OF l(1)] l(3) show ?thesis unfolding pkgAddr_session by (metis zero_less_diff)
  qed
  finally have reads: "(concat (map read_addresses [c1, c2]) = map (ring_address ?a) [0..<unat len]) \<longleftrightarrow> unat i mod 4096 = 0" .
  have two: "(txEngMemAccessBreakdown ^^ 2) s = s\<lparr>mb_in := cs, mb_cmd := c, mb_lengthFirstAccess := ?L,
      mb_stitch := mb_stitch s @ [True], mb_out := mb_out s @ [c1, c2], mb_state := False\<rparr>"
    using assms(2,3) True by (simp add: numeral_2_eq_2 txEngMemAccessBreakdown_def Let_def c c1_def c2_def)
  show ?thesis
    by (rule exI [of _ 2], rule conjI, simp, rule exI [of _ "[c1, c2]"])
      (use reads True l(3) in \<open>simp add: two Let_def b1 b2\<close>)
qed

definition reads_ex :: "u16 \<Rightarrow> mem_breakdown_st" where
  "reads_ex i = \<lparr>mb_state = False, mb_cmd = mmCmd_mk 0 0, mb_lengthFirstAccess = 0,
     mb_in = [mmCmd_mk (tasi_pkgAddr i 0x3FFFE) 5], mb_out = [], mb_stitch = []\<rparr>"

theorem retransmit_reads_witness:
  "\<exists>k\<le>2. \<exists>new. mb_out ((txEngMemAccessBreakdown ^^ k) (reads_ex 1)) = new \<and> length new = 2 \<and>
     concat (map read_addresses new) \<noteq> map (ring_address (tasi_pkgAddr 1 0x3FFFE)) [0..<5]"
proof -
  have "crosses_end (mmCmd_mk (tasi_pkgAddr 1 0x3FFFE) 5)"
    by (simp add: crosses_end_def mmCmd_mk_def low_bits BUFFER_SIZE_eq tasi_pkgAddr_def bits_def put_bits_def)
  with retransmit_reads [of "reads_ex 1" 1 "0x3FFFE" 5 "[]"] show ?thesis
    by (simp add: reads_ex_def Let_def) blast
qed

end
