(* ===== verification/Dataflow.thy ===== *)
theory Dataflow
  imports Prelude
begin

text \<open>
  HLS dataflow regions.  A region is a list of processes, each called once per clock cycle; they
  talk over FIFOs with one writer and one reader, and a process that waits for input changes
  nothing.  Such a network is determinate: in which order and how often the processes are called
  has no influence on what they compute.  So a run of the whole region, one call of each process per cycle, ends in the
  state that is found by running the processes one after the other to completion.

  \<open>ok\<close> is what the states of the region satisfy, \<open>en p s\<close> that the process \<open>p\<close> can do something.
\<close>

definition commuting :: "('s \<Rightarrow> bool) \<Rightarrow> ('s \<Rightarrow> bool) \<times> ('s \<Rightarrow> 's) \<Rightarrow> ('s \<Rightarrow> bool) \<times> ('s \<Rightarrow> 's) \<Rightarrow> bool" where
  "commuting ok p q \<longleftrightarrow> (\<forall>s. ok s \<and> fst p s \<and> fst q s \<longrightarrow>
     snd p (snd q s) = snd q (snd p s) \<and> fst p (snd q s) \<and> fst q (snd p s))"

lemma commuting_sym: "commuting ok p q \<Longrightarrow> commuting ok q p"
  by (simp add: commuting_def)

fun pairwise_commuting :: "('s \<Rightarrow> bool) \<Rightarrow> (('s \<Rightarrow> bool) \<times> ('s \<Rightarrow> 's)) list \<Rightarrow> bool" where
  "pairwise_commuting ok [] \<longleftrightarrow> True"
| "pairwise_commuting ok (p # ps) \<longleftrightarrow> (\<forall>q\<in>set ps. commuting ok p q) \<and> pairwise_commuting ok ps"

lemma pairwise_commutingD:
  "pairwise_commuting ok ps \<Longrightarrow> p \<in> set ps \<Longrightarrow> q \<in> set ps \<Longrightarrow> p = q \<or> commuting ok p q"
  by (induction ps) (auto dest: commuting_sym)

definition region :: "(('s \<Rightarrow> bool) \<times> ('s \<Rightarrow> 's)) list \<Rightarrow> 's \<Rightarrow> 's" where
  "region ps s = fold (\<lambda>p. snd p) ps s"

locale dataflow =
  fixes ok :: "'s \<Rightarrow> bool" and ps :: "(('s \<Rightarrow> bool) \<times> ('s \<Rightarrow> 's)) list"
  assumes ok_step: "p \<in> set ps \<Longrightarrow> ok s \<Longrightarrow> ok (snd p s)"
    and blocked: "p \<in> set ps \<Longrightarrow> ok s \<Longrightarrow> \<not> fst p s \<Longrightarrow> snd p s = s"
    and pairwise: "pairwise_commuting ok ps"

text \<open>\<open>steps ps n s t\<close>: some \<open>n\<close> calls that do something lead from \<open>s\<close> to \<open>t\<close>.\<close>

inductive steps :: "(('s \<Rightarrow> bool) \<times> ('s \<Rightarrow> 's)) list \<Rightarrow> nat \<Rightarrow> 's \<Rightarrow> 's \<Rightarrow> bool" for ps where
  steps_0: "steps ps 0 s s"
| steps_Suc: "p \<in> set ps \<Longrightarrow> fst p s \<Longrightarrow> steps ps n (snd p s) t \<Longrightarrow> steps ps (Suc n) s t"

inductive_cases steps_0E: "steps ps 0 s t"
inductive_cases steps_SucE: "steps ps (Suc n) s t"

lemma steps_trans: "steps ps m s t \<Longrightarrow> steps ps n t u \<Longrightarrow> steps ps (m + n) s u"
  by (induction rule: steps.induct) (auto intro: steps.intros)

definition quiet :: "(('s \<Rightarrow> bool) \<times> ('s \<Rightarrow> 's)) list \<Rightarrow> 's \<Rightarrow> bool" where
  "quiet ps t \<longleftrightarrow> (\<forall>p\<in>set ps. \<not> fst p t)"

context dataflow begin

lemma steps_ok: "steps ps n s t \<Longrightarrow> ok s \<Longrightarrow> ok t"
  by (induction rule: steps.induct) (auto intro: ok_step)

lemma random_descent:
  assumes "ok s" "steps ps n s t" "quiet ps t" "p \<in> set ps" "fst p s"
  shows "\<exists>m. n = Suc m \<and> steps ps m (snd p s) t"
  using assms
proof (induction n arbitrary: s)
  case 0
  then show ?case by (auto simp: quiet_def elim: steps_0E)
next
  case (Suc n)
  from Suc.prems(2) obtain q where q: "q \<in> set ps" "fst q s" "steps ps n (snd q s) t"
    by (auto elim: steps_SucE)
  show ?case
  proof (cases "p = q")
    case True
    with q show ?thesis by auto
  next
    case False
    with pairwise_commutingD [OF pairwise Suc.prems(4) q(1)] Suc.prems(1,5) q(2)
    have c: "snd p (snd q s) = snd q (snd p s)" "fst p (snd q s)" "fst q (snd p s)"
      by (auto simp: commuting_def)
    from Suc.IH [OF ok_step [OF q(1) Suc.prems(1)] q(3) Suc.prems(3,4) c(2)]
    obtain m where "n = Suc m" "steps ps m (snd q (snd p s)) t" using c(1) by auto
    with q(1) c(3) show ?thesis by (auto intro: steps.intros)
  qed
qed

lemma fold_descends:
  assumes "set qs \<subseteq> set ps" "ok s" "steps ps n s t" "quiet ps t"
  shows "\<exists>m\<le>n. steps ps m (fold (\<lambda>p. snd p) qs s) t \<and> ok (fold (\<lambda>p. snd p) qs s) \<and>
    ((\<exists>p\<in>set qs. fst p s) \<longrightarrow> m < n)"
  using assms
proof (induction qs arbitrary: s n)
  case Nil
  then show ?case by auto
next
  case (Cons q qs)
  show ?case
  proof (cases "fst q s")
    case True
    from random_descent [OF Cons.prems(2-4) _ True] Cons.prems(1)
    obtain m where m: "n = Suc m" "steps ps m (snd q s) t" by auto
    from Cons.IH [OF _ ok_step m(2) Cons.prems(4)] Cons.prems(1,2) obtain k where
      "k \<le> m" "steps ps k (fold (\<lambda>p. snd p) qs (snd q s)) t" "ok (fold (\<lambda>p. snd p) qs (snd q s))" by auto
    with m(1) show ?thesis by (intro exI [of _ k]) auto
  next
    case False
    then have s: "snd q s = s" using blocked Cons.prems(1,2) by auto
    from Cons.IH [OF _ Cons.prems(2-4)] Cons.prems(1) s False show ?thesis by auto
  qed
qed

lemma region_quiet: "ok t \<Longrightarrow> quiet ps t \<Longrightarrow> region ps t = t"
proof -
  have "set qs \<subseteq> set ps \<Longrightarrow> ok t \<Longrightarrow> quiet ps t \<Longrightarrow> fold (\<lambda>p. snd p) qs t = t" for qs
    by (induction qs) (auto simp: quiet_def blocked)
  then show "ok t \<Longrightarrow> quiet ps t \<Longrightarrow> region ps t = t" by (simp add: region_def)
qed

lemma region_run:
  assumes "ok s" "steps ps n s t" "quiet ps t" "n \<le> k"
  shows "(region ps ^^ k) s = t"
  using assms
proof (induction k arbitrary: n s)
  case 0
  then show ?case by (auto elim: steps_0E)
next
  case (Suc k)
  show ?case
  proof (cases n)
    case 0
    with Suc.prems have s: "s = t" by (auto elim: steps_0E)
    have "(region ps ^^ j) t = t" for j
      using region_quiet [of t] Suc.prems(1,3) s by (induction j) auto
    with s show ?thesis by blast
  next
    case (Suc n')
    with Suc.prems(2) obtain p where "p \<in> set ps" "fst p s" by (auto elim: steps_SucE)
    with fold_descends [OF order_refl Suc.prems(1-3)] obtain m where
      "m < n" "steps ps m (region ps s) t" "ok (region ps s)" by (auto simp: region_def)
    from Suc.IH [OF this(3,2) Suc.prems(3)] this(1) Suc.prems(4)
    show ?thesis by (simp add: funpow_Suc_right del: funpow.simps(2))
  qed
qed

text \<open>A process run by itself.\<close>

lemma run_process:
  assumes "p \<in> set ps" "ok s"
  shows "\<exists>m\<le>n. steps ps m s ((snd p ^^ n) s) \<and> ok ((snd p ^^ n) s)"
  using assms(2)
proof (induction n arbitrary: s)
  case 0
  then show ?case by (auto intro: steps.intros)
next
  case (Suc n)
  show ?case
  proof (cases "fst p s")
    case True
    from Suc.IH [OF ok_step [OF assms(1) Suc.prems]] obtain m where
      "m \<le> n" "steps ps m (snd p s) ((snd p ^^ n) (snd p s))" "ok ((snd p ^^ n) (snd p s))" by auto
    with True assms(1) show ?thesis
      by (intro exI [of _ "Suc m"]) (auto simp: funpow_Suc_right intro: steps.intros simp del: funpow.simps(2))
  next
    case False
    then have "snd p s = s" using blocked assms(1) Suc.prems by auto
    with Suc.IH [OF Suc.prems] show ?thesis
      by (auto simp: funpow_Suc_right intro: le_SucI simp del: funpow.simps(2))
  qed
qed

end

text \<open>
  A process \<open>F\<close> with a state of its own inside a larger one: \<open>P a s\<close> puts its state \<open>a\<close> back and
  moves its output (which \<open>clr\<close> removes) to the readers.
\<close>

lemma placed_run:
  assumes "\<And>s. p s = P (F (get s)) s" "\<And>a s. get (P a s) = clr a"
    "\<And>a s. P (F (clr a)) (P a s) = P (F a) s" "P (get s) s = s"
  shows "(p ^^ n) s = P ((F ^^ n) (get s)) s"
proof (induction n)
  case 0
  then show ?case using assms(4) by simp
next
  case (Suc n)
  then show ?case by (simp add: assms(1-3))
qed

text \<open>Items processed one after the other: \<open>Q ys xs s\<close> says what has been done and what waits.\<close>

lemma run_items:
  assumes "\<And>ys x xs s. Q ys (x # xs) s \<Longrightarrow> \<exists>n\<le>b x. Q (ys @ [x]) xs ((F ^^ n) s)"
  shows "Q ys xs s \<Longrightarrow> \<exists>n\<le> sum_list (map b xs). Q (ys @ xs) [] ((F ^^ n) s)"
proof (induction xs arbitrary: ys s)
  case Nil
  then show ?case by auto
next
  case (Cons x xs)
  from assms [OF Cons.prems] obtain n where n: "n \<le> b x" "Q (ys @ [x]) xs ((F ^^ n) s)" by auto
  from Cons.IH [OF n(2)] obtain m where "m \<le> sum_list (map b xs)" "Q (ys @ x # xs) [] ((F ^^ m) ((F ^^ n) s))"
    by auto
  with n(1) show ?case by (intro exI [of _ "m + n"]) (simp add: funpow_add)
qed

text \<open>Items one after the other, each with output that is in the relation \<open>R\<close> to it, and with \<open>g\<close> of it on
  a second stream.\<close>

lemma run_relation:
  assumes "\<And>x xs t. A (x # xs) t \<Longrightarrow> \<exists>n us. A xs ((F ^^ n) t) \<and> out ((F ^^ n) t) = out t @ us \<and>
      log ((F ^^ n) t) = log t @ g x \<and> R x us"
  shows "A xs s \<Longrightarrow> \<exists>n uss. A [] ((F ^^ n) s) \<and> out ((F ^^ n) s) = out s @ concat uss \<and>
      log ((F ^^ n) s) = log s @ concat (map g xs) \<and> list_all2 R xs uss"
proof (induction xs arbitrary: s)
  case Nil
  then show ?case by (intro exI [of _ 0] exI [of _ "[]"]) simp
next
  case (Cons x xs)
  from assms [OF Cons.prems] obtain n us where n: "A xs ((F ^^ n) s)" "out ((F ^^ n) s) = out s @ us"
    "log ((F ^^ n) s) = log s @ g x" "R x us" by auto
  from Cons.IH [OF n(1)] obtain m uss where "A [] ((F ^^ m) ((F ^^ n) s))"
    "out ((F ^^ m) ((F ^^ n) s)) = out ((F ^^ n) s) @ concat uss"
    "log ((F ^^ m) ((F ^^ n) s)) = log ((F ^^ n) s) @ concat (map g xs)" "list_all2 R xs uss" by auto
  with n show ?case by (intro exI [of _ "m + n"] exI [of _ "us # uss"]) (simp add: funpow_add)
qed

lemma relates_map: "list_all2 (\<lambda>x y. y = f x) xs ys \<longleftrightarrow> ys = map f xs"
  by (induction xs arbitrary: ys) (auto simp: list_all2_Cons1)

text \<open>A schedule: processes with the number of their calls, one after the other.\<close>

fun schedule :: "(('s \<Rightarrow> 's) \<times> nat) list \<Rightarrow> 's \<Rightarrow> 's" where
  "schedule [] s = s"
| "schedule ((f, n) # fs) s = schedule fs ((f ^^ n) s)"

lemma schedule_append [simp]: "schedule (fs @ gs) s = schedule gs (schedule fs s)"
  by (induction fs arbitrary: s) auto

context dataflow begin

lemma schedule_steps:
  assumes "ok s" "fst ` set fs \<subseteq> snd ` set ps"
  shows "\<exists>m \<le> sum_list (map snd fs). steps ps m s (schedule fs s) \<and> ok (schedule fs s)"
  using assms
proof (induction fs arbitrary: s)
  case Nil
  then show ?case by (auto intro: steps.intros)
next
  case (Cons f fs)
  obtain p n where f: "f = (snd p, n)" "p \<in> set ps" using Cons.prems(2) by (cases f) auto
  from run_process [OF f(2) Cons.prems(1), of n] obtain m where m: "m \<le> n"
    "steps ps m s ((snd p ^^ n) s)" "ok ((snd p ^^ n) s)" by auto
  from Cons.IH [OF m(3)] Cons.prems(2) obtain k where k: "k \<le> sum_list (map snd fs)"
    "steps ps k ((snd p ^^ n) s) (schedule fs ((snd p ^^ n) s))" "ok (schedule fs ((snd p ^^ n) s))" by auto
  from steps_trans [OF m(2) k(2)] m(1) k(1,3) f(1) show ?case by (auto intro!: exI [of _ "m + k"])
qed

theorem lockstep:
  assumes "ok s" "fst ` set fs \<subseteq> snd ` set ps" "schedule fs s = t" "quiet ps t"
    "sum_list (map snd fs) \<le> k"
  shows "(region ps ^^ k) s = t"
  using schedule_steps [OF assms(1,2)] assms(3-5) region_run [OF assms(1) _ assms(4)] by auto

end

end
