(* ===== verification/Packet.thy ===== *)
theory Packet
  imports Axi_Pkg
begin

text \<open>
  \<open>packet.hpp\<close>: a header of \<open>HEADER_SIZE\<close> bits that is read from, and written to, the words of a
  packet one at a time, and the headers of \<open>ethernet.hpp\<close> and \<open>ipv4.hpp\<close> on top of it.
\<close>

section \<open>Headers\<close>

record 'd packetHeader =
  ph_ready :: bool
  ph_idx :: u16
  ph_header :: 'd

definition parseWord :: "'w::len word \<Rightarrow> 'h::len word packetHeader \<Rightarrow> 'h word packetHeader" where
  "parseWord w h =
     (if ph_ready h then h
      else let i = unat (ph_idx h)
           in if i * LENGTH('w) + LENGTH('w) < LENGTH('h)
              then h\<lparr>ph_header := put_bits (i * LENGTH('w) + LENGTH('w) - 1) (i * LENGTH('w)) w (ph_header h),
                     ph_idx := ph_idx h + 1\<rparr>
              else h\<lparr>ph_header := put_bits (LENGTH('h) - 1) (i * LENGTH('w)) w (ph_header h),
                     ph_ready := True, ph_idx := ph_idx h + 1\<rparr>)"

definition consumeWord :: "'h::len word packetHeader \<Rightarrow> 'w::len word \<Rightarrow> 'h word packetHeader \<times> 'w word \<times> u8" where
  "consumeWord h w =
     (let i = unat (ph_idx h)
      in if (i + 1) * LENGTH('w) \<le> LENGTH('h)
         then let w = bits ((i + 1) * LENGTH('w) - 1) (i * LENGTH('w)) (ph_header h); h = h\<lparr>ph_idx := ph_idx h + 1\<rparr>
              in (h, w, of_nat ((LENGTH('h) - unat (ph_idx h) * LENGTH('w)) div 8))
         else if i * LENGTH('w) < LENGTH('h)
         then (h\<lparr>ph_idx := ph_idx h + 1\<rparr>,
               put_bits (LENGTH('h) mod LENGTH('w) - 1) 0
                 (bits (LENGTH('h) - 1) (i * LENGTH('w)) (ph_header h) :: 'w word) w, 0)
         else (h, w, 0))"

definition clear_header :: "'d packetHeader \<Rightarrow> 'd packetHeader" where
  "clear_header h = h\<lparr>ph_ready := False, ph_idx := 0\<rparr>"

lemma clear_header_simps [simp]:
  "ph_ready (clear_header h) = False" "ph_idx (clear_header h) = 0" "ph_header (clear_header h) = ph_header h"
  by (simp_all add: clear_header_def)

text \<open>A header written into a packet: word by word, over the first words of the packet.\<close>

fun consume_all :: "'h::len word packetHeader \<Rightarrow> 'w::len word list \<Rightarrow> 'w word list" where
  "consume_all h [] = []"
| "consume_all h (w # ws) = (case consumeWord h w of (h', w', _) \<Rightarrow> w' # consume_all h' ws)"

definition parse_all :: "'w::len word list \<Rightarrow> 'h::len word packetHeader \<Rightarrow> 'h word packetHeader" where
  "parse_all ws h = fold parseWord ws h"

definition header_span :: "'w::len itself \<Rightarrow> 'h::len itself \<Rightarrow> nat" where
  "header_span W H = (LENGTH('h) + LENGTH('w) - 1) div LENGTH('w)"

lemma header_span_bounds:
  "(header_span TYPE('w) TYPE('h) - 1) * LENGTH('w::len) < LENGTH('h::len)"
  "LENGTH('h) \<le> header_span TYPE('w) TYPE('h) * LENGTH('w)"
  "0 < header_span TYPE('w) TYPE('h)"
proof -
  let ?W = "LENGTH('w)" and ?H = "LENGTH('h)" and ?q = "(LENGTH('h) + LENGTH('w) - 1) div LENGTH('w)"
  have W: "0 < ?W" "0 < ?H" by simp_all
  have e: "?q * ?W + (?H + ?W - 1) mod ?W = ?H + ?W - 1" by (rule div_mult_mod_eq)
  have m: "(?H + ?W - 1) mod ?W < ?W" by simp
  show "?H \<le> header_span TYPE('w) TYPE('h) * ?W" unfolding header_span_def using e m W by linarith
  have "?W \<le> ?H + ?W - 1" using W by linarith
  then show q: "0 < header_span TYPE('w) TYPE('h)" by (simp add: header_span_def div_greater_zero_iff)
  have "(?q - 1) * ?W = ?q * ?W - ?W" by (simp add: diff_mult_distrib)
  then show "(header_span TYPE('w) TYPE('h) - 1) * ?W < ?H"
    unfolding header_span_def using e m W by linarith
qed

text \<open>What parsing leaves: after \<open>k\<close> words the bits below \<open>k * W\<close> are those of the words.\<close>

definition word_bit :: "'w::len word list \<Rightarrow> nat \<Rightarrow> bool" where
  "word_bit ws n \<longleftrightarrow> bit (ws ! (n div LENGTH('w))) (n mod LENGTH('w))"

lemma parse_prefix:
  fixes ws :: "'w::len word list" and h :: "'h::len word packetHeader"
  assumes "\<not> ph_ready h" "ph_idx h = 0" "k \<le> length ws" "k * LENGTH('w) < LENGTH('h)" "k < 2 ^ 16"
  shows "parse_all (take k ws) h = h\<lparr>ph_idx := of_nat k, ph_header := ph_header (parse_all (take k ws) h)\<rparr> \<and>
    (\<forall>n. bit (ph_header (parse_all (take k ws) h)) n = (if n < k * LENGTH('w) then word_bit ws n else bit (ph_header h) n))"
  using assms(3-5)
proof (induction k)
  case 0
  then show ?case using assms(2) by (simp add: parse_all_def)
next
  case (Suc k)
  let ?g = "parse_all (take k ws) h"
  have less: "k * LENGTH('w) < LENGTH('h)" "k < length ws" "k < 2 ^ 16"
    using Suc.prems by (auto intro: le_less_trans [OF _ Suc.prems(2)])
  have g: "?g = h\<lparr>ph_idx := of_nat k, ph_header := ph_header ?g\<rparr>"
    "bit (ph_header ?g) n = (if n < k * LENGTH('w) then word_bit ws n else bit (ph_header h) n)" for n
    using Suc.IH less by simp_all
  have e: "parse_all (take (Suc k) ws) h = parseWord (ws ! k) ?g"
    using less by (simp add: parse_all_def take_Suc_conv_app_nth)
  have i: "ph_ready ?g = ph_ready h" "unat (ph_idx ?g) = k"
    using less by (subst g(1); simp add: unat_of_nat_eq)+
  have l: "k * LENGTH('w) + LENGTH('w) < LENGTH('h)" using Suc.prems(2) by simp
  have s: "parse_all (take (Suc k) ws) h = ?g\<lparr>ph_header := put_bits (k * LENGTH('w) + LENGTH('w) - 1)
      (k * LENGTH('w)) (ws ! k) (ph_header ?g), ph_idx := ph_idx ?g + 1\<rparr>"
    unfolding e using l i assms(1) by (simp add: parseWord_def Let_def)
  have "bit (ph_header (parse_all (take (Suc k) ws) h)) n =
      (if n < Suc k * LENGTH('w) then word_bit ws n else bit (ph_header h) n)" for n
  proof -
    consider "n < k * LENGTH('w)" | (mid) j where "n = k * LENGTH('w) + j" "j < LENGTH('w)"
      | (above) "k * LENGTH('w) + LENGTH('w) \<le> n"
      by (metis add.commute le_Suc_ex less_diff_conv not_le_imp_less nat_add_left_cancel_less)
    then show ?thesis
    proof cases
      case mid
      then have "k * LENGTH('w) + j \<le> k * LENGTH('w) + LENGTH('w) - 1" by linarith
      with mid l show ?thesis unfolding s by (simp add: bit_put_bits word_bit_def)
    next
      case above
      then have "\<not> n \<le> k * LENGTH('w) + LENGTH('w) - 1"
        using len_gt_0 [where 'a = 'w] by linarith
      with above l show ?thesis unfolding s by (auto simp: bit_put_bits g(2) dest: bit_imp_le_length)
    qed (use l in \<open>auto simp: s bit_put_bits g(2) dest: bit_imp_le_length\<close>)
  qed
  moreover have "ph_idx ?g + 1 = of_nat (Suc k)" by (subst g(1)) simp
  ultimately show ?case unfolding s using g(1) by (cases ?g; cases h) simp
qed

text \<open>\<open>header_span\<close> words are enough, and the header is then what the words say.\<close>

lemma parse_all_words:
  fixes ws :: "'w::len word list" and h :: "'h::len word packetHeader"
  assumes "\<not> ph_ready h" "ph_idx h = 0" "length ws = header_span TYPE('w) TYPE('h)" "length ws < 2 ^ 16"
  shows "ph_ready (parse_all ws h) \<and> (\<forall>n < LENGTH('h). bit (ph_header (parse_all ws h)) n = word_bit ws n)"
proof -
  define K where "K = length ws - 1"
  define g where "g = parse_all (take K ws) h"
  have k: "K * LENGTH('w) < LENGTH('h)" "LENGTH('h) \<le> K * LENGTH('w) + LENGTH('w)" "0 < length ws"
    using header_span_bounds [where 'w = 'w and 'h = 'h] assms(3) by (auto simp: K_def diff_mult_distrib)
  have "take (Suc K) ws = take K ws @ [ws ! K]" using k by (intro take_Suc_conv_app_nth) (simp add: K_def)
  then have ws: "ws = take K ws @ [ws ! K]" using k(3) by (simp add: K_def)
  have g: "g = h\<lparr>ph_idx := of_nat K, ph_header := ph_header g\<rparr>"
    "bit (ph_header g) n = (if n < K * LENGTH('w) then word_bit ws n else bit (ph_header h) n)" for n
    using parse_prefix [OF assms(1,2), of K ws] k(1) assms(4) by (simp_all add: g_def K_def)
  have i: "ph_ready g = ph_ready h" "unat (ph_idx g) = K"
    using assms(4) k(3) by (subst g(1); simp add: unat_of_nat_eq K_def)+
  have "parse_all ws h = parseWord (ws ! K) g"
    by (subst ws) (simp add: parse_all_def g_def)
  then have s: "parse_all ws h = g\<lparr>ph_header := put_bits (LENGTH('h) - 1) (K * LENGTH('w)) (ws ! K) (ph_header g),
      ph_ready := True, ph_idx := ph_idx g + 1\<rparr>"
    using k i assms(1) by (simp add: parseWord_def Let_def)
  have "bit (ph_header (parse_all ws h)) n = word_bit ws n" if n: "n < LENGTH('h)" for n
  proof (cases "n < K * LENGTH('w)")
    case True
    with n show ?thesis by (simp add: s bit_put_bits g(2))
  next
    case False
    then obtain j where j: "n = K * LENGTH('w) + j" using le_Suc_ex not_less by blast
    with n k(2) have "j < LENGTH('w)" by simp
    with j n show ?thesis by (simp add: s bit_put_bits word_bit_def)
  qed
  then show ?thesis by (simp add: s)
qed

lemma consume_all_nth:
  fixes ws :: "'w::len word list" and h :: "'h::len word packetHeader"
  assumes "unat (ph_idx h) = i" "i + length ws \<le> header_span TYPE('w) TYPE('h)" "i + length ws < 2 ^ 16"
  shows "length (consume_all h ws) = length ws \<and>
    (\<forall>k < length ws. \<forall>j < LENGTH('w). bit (consume_all h ws ! k) j =
      (if (i + k) * LENGTH('w) + j < LENGTH('h) then bit (ph_header h) ((i + k) * LENGTH('w) + j) else bit (ws ! k) j))"
  using assms
proof (induction ws arbitrary: h i)
  case Nil
  then show ?case by simp
next
  case (Cons w ws)
  have hw: "(header_span TYPE('w) TYPE('h) - 1) * LENGTH('w) < LENGTH('h)" by (rule header_span_bounds)
  have "i \<le> header_span TYPE('w) TYPE('h) - 1" using Cons.prems(2) by simp
  then have lo: "i * LENGTH('w) < LENGTH('h)"
    by (rule le_less_trans [OF mult_le_mono1 hw])
  let ?c = "consumeWord h w"
  have idx: "fst ?c = h\<lparr>ph_idx := ph_idx h + 1\<rparr>"
    using lo Cons.prems(1) by (simp add: consumeWord_def Let_def)
  have w': "bit (fst (snd ?c)) j = (if i * LENGTH('w) + j < LENGTH('h) then bit (ph_header h) (i * LENGTH('w) + j) else bit w j)"
    if j: "j < LENGTH('w)" for j
  proof (cases "(i + 1) * LENGTH('w) \<le> LENGTH('h)")
    case True
    moreover have "i * LENGTH('w) + j \<le> LENGTH('w) + i * LENGTH('w) - Suc 0" using j by linarith
    ultimately show ?thesis using j Cons.prems(1) by (simp add: consumeWord_def Let_def bit_bits)
  next
    case False
    then have d: "LENGTH('h) < i * LENGTH('w) + LENGTH('w)" by simp
    obtain r where r: "LENGTH('h) = i * LENGTH('w) + r" using lo le_Suc_ex less_imp_le by blast
    with d lo have r': "r < LENGTH('w)" "0 < r" by simp_all
    then have "LENGTH('h) mod LENGTH('w) = r" by (simp add: r)
    then show ?thesis using j False lo r r' Cons.prems(1)
      by (auto simp: consumeWord_def Let_def bit_put_bits bit_bits)
  qed
  have u: "unat (ph_idx (fst ?c)) = i + 1"
  proof -
    have "unat (ph_idx h + 1) = i + 1"
      using Cons.prems(1,3) by (subst unat_add_lem [THEN iffD1]) simp_all
    with idx show ?thesis by simp
  qed
  have e: "consume_all h (w # ws) = fst (snd ?c) # consume_all (fst ?c) ws"
    by (simp split: prod.split)
  have IH: "length (consume_all (fst ?c) ws) = length ws"
    "k < length ws \<Longrightarrow> j < LENGTH('w) \<Longrightarrow> bit (consume_all (fst ?c) ws ! k) j =
      (if (i + 1 + k) * LENGTH('w) + j < LENGTH('h) then bit (ph_header h) ((i + 1 + k) * LENGTH('w) + j) else bit (ws ! k) j)" for k j
    using Cons.IH [OF u] Cons.prems(2,3) idx by simp_all
  show ?case unfolding e
  proof (intro conjI allI impI)
    fix k j assume k: "k < length (w # ws)" and j: "j < LENGTH('w)"
    show "bit ((fst (snd ?c) # consume_all (fst ?c) ws) ! k) j =
      (if (i + k) * LENGTH('w) + j < LENGTH('h) then bit (ph_header h) ((i + k) * LENGTH('w) + j) else bit ((w # ws) ! k) j)"
      using w' [OF j] IH(2) [OF _ j, of "k - 1"] k by (cases k) simp_all
  qed (use IH(1) in simp)
qed

text \<open>C37: headers survive the wire.  For every header size and word width, writing a header into the
  first words of a packet and parsing these words gives the same header, ready exactly after the
  last of its words; the bits of the packet behind the header are not touched.\<close>

theorem packet_header_roundtrip:
  fixes ws :: "'w::len word list" and h g :: "'h::len word packetHeader"
  assumes "length ws = header_span TYPE('w) TYPE('h)" "length ws < 2 ^ 16" "ph_idx h = 0"
    and "\<not> ph_ready g" "ph_idx g = 0"
  defines "vs \<equiv> consume_all h ws"
  shows "ph_ready (parse_all vs g) \<and> ph_header (parse_all vs g) = ph_header h \<and>
    (\<forall>k < length ws. \<not> ph_ready (parse_all (take k vs) g)) \<and>
    (\<forall>n. LENGTH('h) \<le> n \<and> n < length ws * LENGTH('w) \<longrightarrow> word_bit vs n = word_bit ws n)"
proof -
  have vs: "length vs = length ws"
    "k < length ws \<Longrightarrow> j < LENGTH('w) \<Longrightarrow> bit (vs ! k) j =
      (if k * LENGTH('w) + j < LENGTH('h) then bit (ph_header h) (k * LENGTH('w) + j) else bit (ws ! k) j)" for k j
    using consume_all_nth [of h 0 ws] assms by (simp_all add: vs_def)
  have wb: "word_bit vs n = (if n < LENGTH('h) then bit (ph_header h) n else word_bit ws n)"
    if n: "n < length ws * LENGTH('w)" for n
    using vs(2) [of "n div LENGTH('w)" "n mod LENGTH('w)"] n
    by (simp add: word_bit_def less_mult_imp_div_less)
  have H: "LENGTH('h) \<le> length ws * LENGTH('w)" using header_span_bounds(2) assms(1) by simp
  from parse_all_words [OF assms(4,5), of vs] vs(1) assms(1,2)
  have r: "ph_ready (parse_all vs g)" "\<forall>n < LENGTH('h). bit (ph_header (parse_all vs g)) n = word_bit vs n"
    by simp_all
  have "ph_header (parse_all vs g) = ph_header h"
    by (rule bit_word_eqI) (use r(2) wb H in \<open>auto dest!: less_le_trans\<close>)
  moreover have "\<not> ph_ready (parse_all (take k vs) g)" if "k < length ws" for k
  proof -
    have "k * LENGTH('w) \<le> (length ws - 1) * LENGTH('w)" using that by (intro mult_le_mono1) simp
    then have "k * LENGTH('w) < LENGTH('h)"
      using header_span_bounds(1) [where 'w = 'w and 'h = 'h] unfolding assms(1) by (rule le_less_trans)
    from parse_prefix [OF assms(4,5) _ this, of vs] that vs(1) assms(2)
    have "parse_all (take k vs) g = g\<lparr>ph_idx := of_nat k, ph_header := ph_header (parse_all (take k vs) g)\<rparr>" by simp
    from arg_cong [OF this, of ph_ready] assms(4) show ?thesis by simp
  qed
  ultimately show ?thesis using r(1) wb by auto
qed

definition header_ex :: "20 word packetHeader" where
  "header_ex = \<lparr>ph_ready = False, ph_idx = 0, ph_header = 0xABCDE\<rparr>"

theorem packet_header_roundtrip_witness:
  "ph_header (parse_all (consume_all header_ex [1, 2, 3 :: 8 word]) (header_ex\<lparr>ph_header := 0\<rparr>)) = 0xABCDE \<and>
    ph_ready (parse_all (consume_all header_ex [1, 2, 3 :: 8 word]) (header_ex\<lparr>ph_header := 0\<rparr>))"
proof -
  have l: "length [1, 2, 3 :: 8 word] = header_span TYPE(8) TYPE(20)" by (simp add: header_span_def)
  from packet_header_roundtrip [OF l, of header_ex "header_ex\<lparr>ph_header := 0\<rparr>"]
  show ?thesis by (simp add: header_ex_def del: consume_all.simps)
qed

section \<open>The bytes of a header in a packet\<close>

definition header_bytes :: "'h::len word \<Rightarrow> u8 list" where
  "header_bytes h = map (\<lambda>i. byte i h) [0..<LENGTH('h) div 8]"

lemma length_header_bytes [simp]: "length (header_bytes (h :: 'h::len word)) = LENGTH('h) div 8"
  by (simp add: header_bytes_def)

lemma carries_pkt: "carries bs ws \<Longrightarrow> pkt ws"
  by (simp add: carries_def pkt_def)

text \<open>A first word whose low bytes are exchanged.\<close>

lemma carries_replace:
  fixes w w' :: "('w::len, 'k::len) axis"
  assumes c: "carries (xs @ bs) (w # ws)" and n: "length xs = n" "length ys = n" "n \<le> LENGTH('k)"
    and w': "cells w' = map Some ys @ drop n (cells w)" "na_last w' = na_last w"
  shows "carries (ys @ bs) (w' # ws)"
proof (cases "ws = []")
  case True
  with c obtain k where k: "na_last w" "k < LENGTH('k)" "cells w = map Some (xs @ bs) @ replicate k None"
    by (auto simp: carries_single)
  then have "cells w' = map Some (ys @ bs) @ replicate k None" using w'(1) n by simp
  with True k w'(2) show ?thesis by (auto simp: carries_single)
next
  case False
  with c have k: "\<not> na_last w" "LENGTH('k) \<le> length (xs @ bs)" "cells w = map Some (take (LENGTH('k)) (xs @ bs))"
    "carries (drop (LENGTH('k)) (xs @ bs)) ws" by (simp_all only: carries_Cons [OF False]) auto
  have "cells w' = map Some (take (LENGTH('k)) (ys @ bs))"
    using w'(1) k(3) n by (simp add: take_map drop_map)
  moreover have "drop (LENGTH('k)) (ys @ bs) = drop (LENGTH('k)) (xs @ bs)" using n by simp
  ultimately show ?thesis using k w'(2) n False by (simp add: carries_Cons)
qed

lemma cells_put_header:
  fixes w :: "('w::len, 'k::len) axis" and h :: "'h::len word"
  assumes "LENGTH('w) = 8 * LENGTH('k)" "LENGTH('h) = 8 * n" "n \<le> LENGTH('k)"
    and "cells w = map Some xs @ r" "length xs = n"
    and d: "\<And>j. j < LENGTH('w) \<Longrightarrow> bit d j = (if j < LENGTH('h) then bit h j else bit (na_data w) j)"
  shows "cells (w\<lparr>na_data := d\<rparr>) = map Some (header_bytes h) @ drop n (cells w)"
proof (rule nth_equalityI)
  show "length (cells (w\<lparr>na_data := d\<rparr>)) = length (map Some (header_bytes h) @ drop n (cells w))"
    using assms(2,3) by simp
  fix i assume "i < length (cells (w\<lparr>na_data := d\<rparr>))"
  then have i: "i < LENGTH('k)" by simp
  show "cells (w\<lparr>na_data := d\<rparr>) ! i = (map Some (header_bytes h) @ drop n (cells w)) ! i"
  proof (cases "i < n")
    case True
    have "bit (na_keep w) i"
      using arg_cong [OF assms(4), of "\<lambda>l. l ! i"] True i assms(5) by (auto simp: nth_cells nth_append split: if_splits)
    moreover have "byte i d = byte i h"
    proof (rule bit_word_eqI)
      fix j assume "j < LENGTH(8)"
      then have "8 * i + j < LENGTH('h)" "8 * i + j < LENGTH('w)" using True i assms(1,2) by simp_all
      then show "bit (byte i d) j = bit (byte i h) j" by (simp add: bit_byte d)
    qed
    ultimately show ?thesis using True i assms(2) by (simp add: nth_cells nth_append header_bytes_def)
  next
    case False
    have "byte i d = byte i (na_data w)"
    proof (rule bit_word_eqI)
      fix j assume "j < LENGTH(8)"
      then have "\<not> 8 * i + j < LENGTH('h)" "8 * i + j < LENGTH('w)" using False i assms(1,2) by simp_all
      then show "bit (byte i d) j = bit (byte i (na_data w)) j" by (simp add: bit_byte d)
    qed
    then show ?thesis using False i assms(2) by (simp add: nth_cells nth_append)
  qed
qed

text \<open>The header at the front of a packet.\<close>

lemma carries_header:
  fixes w :: "('w::len, 'k::len) axis" and h :: "'h::len word"
  assumes "LENGTH('w) = 8 * LENGTH('k)" "LENGTH('h) = 8 * n" "n \<le> LENGTH('k)"
    and c: "carries (xs @ bs) (w # ws)" "length xs = n"
    and d: "\<And>j. j < LENGTH('w) \<Longrightarrow> bit d j = (if j < LENGTH('h) then bit h j else bit (na_data w) j)"
  shows "carries (header_bytes h @ bs) (w\<lparr>na_data := d\<rparr> # ws)"
proof (rule carries_replace [OF c(1,2) _ assms(3)])
  show "length (header_bytes h) = n" using assms(2) by simp
  have "\<exists>r. cells w = map Some xs @ r"
  proof (cases "ws = []")
    case True
    with c show ?thesis by (auto simp: carries_single)
  next
    case False
    with c have "cells w = map Some (take (LENGTH('k)) (xs @ bs))" by (simp add: carries_Cons)
    with c(2) assms(3) show ?thesis by simp
  qed
  then obtain r where "cells w = map Some xs @ r" ..
  from cells_put_header [OF assms(1-3) this c(2) d]
  show "cells (w\<lparr>na_data := d\<rparr>) = map Some (header_bytes h) @ drop n (cells w)" .
qed simp

lemma carries_header_word:
  fixes w :: "('w::len, 'k::len) axis" and h :: "'h::len word"
  assumes "LENGTH('w) = 8 * LENGTH('k)" "LENGTH('h) = 8 * n" "n \<le> LENGTH('k)"
    and c: "carries (header_bytes h @ bs) (w # ws)"
  shows "ucast (na_data w) = h"
proof (rule bit_word_eqI)
  fix j assume j: "j < LENGTH('h)"
  let ?i = "j div 8"
  have i: "?i < n" using j assms(2) by simp
  have "\<exists>r. cells w = map Some (header_bytes h) @ r"
  proof (cases "ws = []")
    case True
    with c show ?thesis by (auto simp: carries_single)
  next
    case False
    with c have "cells w = map Some (take (LENGTH('k)) (header_bytes h @ bs))" by (simp add: carries_Cons)
    with assms(2,3) show ?thesis by simp
  qed
  then obtain r where "cells w = map Some (header_bytes h) @ r" ..
  from arg_cong [OF this, of "\<lambda>l. l ! ?i"] i assms(2,3) have "byte ?i (na_data w) = byte ?i h"
    by (simp add: nth_cells nth_append header_bytes_def split: if_splits)
  from arg_cong [OF this, of "\<lambda>b. bit b (j mod 8)"] have "bit (na_data w) j = bit h j"
    by (simp add: bit_byte)
  with j show "bit (ucast (na_data w) :: 'h word) j = bit h j" by (simp add: bit_ucast_iff)
qed

text \<open>Reading and writing a header that fits into the first word.\<close>

lemma parseWord_first:
  fixes w :: "'w::len word" and h :: "'h::len word packetHeader"
  assumes "\<not> ph_ready h" "ph_idx h = 0" "LENGTH('h) \<le> LENGTH('w)"
  shows "parseWord w h = h\<lparr>ph_header := ucast w, ph_ready := True, ph_idx := 1\<rparr>"
proof -
  have "put_bits (LENGTH('h) - Suc 0) 0 w (ph_header h) = ucast w"
    by (rule bit_word_eqI) (use assms(3) in \<open>auto simp: bit_put_bits bit_ucast_iff\<close>)
  with assms show ?thesis by (simp add: parseWord_def)
qed

lemma parseWord_ready [simp]: "ph_ready h \<Longrightarrow> parseWord w h = h"
  by (simp add: parseWord_def)

lemma consumeWord_first:
  fixes w :: "'w::len word" and h :: "'h::len word packetHeader"
  assumes "ph_idx h = 0" "LENGTH('h) < LENGTH('w)"
  shows "fst (consumeWord h w) = h\<lparr>ph_idx := 1\<rparr>"
    and "j < LENGTH('w) \<Longrightarrow> bit (fst (snd (consumeWord h w))) j =
      (if j < LENGTH('h) then bit (ph_header h) j else bit w j)"
  using assms by (auto simp: consumeWord_def bit_put_bits bit_bits)

lemma idx_one [simp]: "unat (1 :: u16) = 1"
  by simp

section \<open>Ethernet\<close>

type_synonym ethHeader = "112 word packetHeader"

definition ETH_HEADER_SIZE :: nat where "ETH_HEADER_SIZE = 112"

definition map_header :: "('h word \<Rightarrow> 'h word) \<Rightarrow> 'h word packetHeader \<Rightarrow> 'h word packetHeader" where
  "map_header f h = h\<lparr>ph_header := f (ph_header h)\<rparr>"

lemma map_header_simps [simp]:
  "ph_ready (map_header f h) = ph_ready h" "ph_idx (map_header f h) = ph_idx h"
  "ph_header (map_header f h) = f (ph_header h)"
  by (simp_all add: map_header_def)

definition setDstAddress :: "u48 \<Rightarrow> ethHeader \<Rightarrow> ethHeader" where
  "setDstAddress addr = map_header (put_bits 47 0 addr)"

definition setSrcAddress :: "u48 \<Rightarrow> ethHeader \<Rightarrow> ethHeader" where
  "setSrcAddress addr = map_header (put_bits 95 48 addr)"

definition setEthertype :: "u16 \<Rightarrow> ethHeader \<Rightarrow> ethHeader" where
  "setEthertype type = map_header (put_bits 111 96 (reverse16 type))"

definition getEthertype :: "ethHeader \<Rightarrow> u16" where
  "getEthertype h = reverse16 (bits 111 96 (ph_header h))"

lemma getEthertype_set: "getEthertype (setEthertype t h) = t"
  by (simp add: getEthertype_def setEthertype_def bits_put_bits)

section \<open>Packets through a process\<close>

text \<open>\<open>Q ys xs s\<close>: of the words of a packet, \<open>ys\<close> have been read and \<open>xs\<close> wait.\<close>

lemma pkt_middle: "pkt (ys @ w # xs) \<Longrightarrow> na_last w \<longleftrightarrow> xs = []"
  by (cases xs) (auto simp: pkt_def butlast_append)

lemma run_packet:
  assumes "pkt ws" "Q [] ws s"
    and "\<And>ys w xs t. ws = ys @ w # xs \<Longrightarrow> na_last w \<longleftrightarrow> xs = [] \<Longrightarrow> Q ys (w # xs) t \<Longrightarrow> Q (ys @ [w]) xs (F t)"
  shows "Q ws [] ((F ^^ length ws) s)"
proof -
  have "ws = ys @ xs \<Longrightarrow> Q ys xs t \<Longrightarrow> Q ws [] ((F ^^ length xs) t)" for ys xs t
  proof (induction xs arbitrary: ys t)
    case (Cons w xs)
    from Cons.prems assms(1) pkt_middle [of ys w xs] have "na_last w \<longleftrightarrow> xs = []" by simp
    from assms(3) [OF Cons.prems(1) this Cons.prems(2)] Cons.IH [of "ys @ [w]" "F t"] Cons.prems(1) show ?case
      by (simp add: funpow_Suc_right del: funpow.simps(2))
  qed simp
  from this [of "[]" ws s] show ?thesis using assms(2) by simp
qed

end
