(* ===== verification/Ipv4.thy ===== *)
theory Ipv4
  imports Packet Dataflow
begin

text \<open>
  The IPv4 module: \<open>ipv4.cpp\<close> and the header processing of \<open>ipv4.hpp\<close>.  On the way in
  \<open>process_ipv4\<close> reads the header of each datagram and \<open>drop_optional_ip_header\<close> removes it; on
  the way out \<open>lshiftWordByOctet\<close> makes room and \<open>generate_ipv4\<close> writes the header.
\<close>

section \<open>The header\<close>

type_synonym ipv4Header = "160 word packetHeader"

definition IPV4_HEADER_SIZE :: nat where "IPV4_HEADER_SIZE = 160"

record ipv4Meta =
  im_address :: u32
  im_length :: u16

definition ipv4Header_init :: "160 word \<Rightarrow> ipv4Header" where
  "ipv4Header_init u = \<lparr>ph_ready = False, ph_idx = 0,
     ph_header = put_bits 71 64 (0x64 :: u8) (put_bits 7 0 (0x45 :: u8) u)\<rparr>"

definition setSrcAddr :: "u32 \<Rightarrow> ipv4Header \<Rightarrow> ipv4Header" where
  "setSrcAddr a = map_header (put_bits 127 96 a)"

definition getSrcAddr :: "ipv4Header \<Rightarrow> u32" where
  "getSrcAddr h = bits 127 96 (ph_header h)"

definition setDstAddr :: "u32 \<Rightarrow> ipv4Header \<Rightarrow> ipv4Header" where
  "setDstAddr a = map_header (put_bits 159 128 a)"

definition getDstAddr :: "ipv4Header \<Rightarrow> u32" where
  "getDstAddr h = bits 159 128 (ph_header h)"

definition setLength :: "u16 \<Rightarrow> ipv4Header \<Rightarrow> ipv4Header" where
  "setLength len = map_header (put_bits 31 16 (reverse16 len))"

definition getLength :: "ipv4Header \<Rightarrow> u16" where
  "getLength h = reverse16 (bits 31 16 (ph_header h))"

definition setFlags :: "1 word \<Rightarrow> ipv4Header \<Rightarrow> ipv4Header" where
  "setFlags flag = map_header (put_bits 54 54 flag)"

definition setECN :: "1 word \<Rightarrow> ipv4Header \<Rightarrow> ipv4Header" where
  "setECN ECN = map_header (put_bits 9 9 ECN)"

definition setProtocol :: "u8 \<Rightarrow> ipv4Header \<Rightarrow> ipv4Header" where
  "setProtocol protocol = map_header (put_bits 79 72 protocol)"

definition getProtocol :: "ipv4Header \<Rightarrow> u8" where
  "getProtocol h = bits 79 72 (ph_header h)"

definition getHeaderLength :: "ipv4Header \<Rightarrow> u4" where
  "getHeaderLength h = bits 3 0 (ph_header h)"

section \<open>Receiving\<close>

record 'a pip_st =
  pi_header :: ipv4Header
  pi_headerWordsDropped :: u4
  pi_metaWritten :: bool
  pi_in :: "'a fifo"
  pi_length :: "u4 fifo"
  pi_meta :: "ipv4Meta fifo"
  pi_out :: "'a fifo"

definition process_ipv4 :: "('w::len, 'k::len) axis pip_st \<Rightarrow> ('w, 'k) axis pip_st" where
  "process_ipv4 s =
     (case pi_in s of
        currWord # rest \<Rightarrow>
          let h = parseWord (na_data currWord) (pi_header s);
              s = s\<lparr>pi_in := rest, pi_header := h\<rparr>;
              s = (if ph_ready h then
                     let s = s\<lparr>pi_out := pi_out s @ [currWord]\<rparr>
                     in if \<not> pi_metaWritten s
                        then s\<lparr>pi_length := pi_length s @ [getHeaderLength h - pi_headerWordsDropped s],
                               pi_meta := pi_meta s @ [\<lparr>im_address = getSrcAddr h, im_length = getLength h\<rparr>],
                               pi_metaWritten := True\<rparr>
                        else s
                   else s);
              s = s\<lparr>pi_headerWordsDropped := pi_headerWordsDropped s + of_nat (LENGTH('w) div 32)\<rparr>
          in if na_last currWord
             then s\<lparr>pi_metaWritten := False, pi_header := clear_header h, pi_headerWordsDropped := 0\<rparr>
             else s
      | [] \<Rightarrow> s)"

datatype doh_fsmStateType = DOH_META | DOH_DROP | DOH_BODY | DOH_SHIFT | DOH_LAST | DOH_SHIFT_FIVE | DOH_LAST_FIVE

record 'a doh_st =
  doh_state :: doh_fsmStateType
  doh_length :: u4
  doh_prevWord :: 'a
  doh_lengthFifo :: "u4 fifo"
  doh_in :: "'a fifo"
  doh_out :: "'a fifo"

text \<open>\<open>sendWord\<close> is put together like in \<open>rshiftWordByOctet\<close>, for 4 and for 20 bytes; only the test
  for the end of the packet differs.\<close>

definition doh_join :: "nat \<Rightarrow> ('w::len, 'k::len) axis \<Rightarrow> ('w, 'k) axis \<Rightarrow> ('w, 'k) axis" where
  "doh_join n prevWord currWord =
     (rshift_join n prevWord currWord)\<lparr>na_last := \<not> bit (na_keep currWord) n\<rparr>"

definition doh_shift ::
  "nat \<Rightarrow> doh_fsmStateType \<Rightarrow> ('w::len, 'k::len) axis doh_st \<Rightarrow> ('w, 'k) axis doh_st" where
  "doh_shift n last_state s =
     (case doh_in s of
        currWord # rest \<Rightarrow>
          let sendWord = doh_join n (doh_prevWord s) currWord
          in s\<lparr>doh_in := rest, doh_out := doh_out s @ [sendWord], doh_prevWord := currWord,
               doh_state := (if na_last sendWord then DOH_META else if na_last currWord then last_state else doh_state s)\<rparr>
      | [] \<Rightarrow> s)"

definition drop_optional_ip_header :: "('w::len, 'k::len) axis doh_st \<Rightarrow> ('w, 'k) axis doh_st" where
  "drop_optional_ip_header s =
     (case doh_state s of
        DOH_META \<Rightarrow>
          if doh_lengthFifo s \<noteq> [] \<and> doh_in s \<noteq> [] then
            let len = hd (doh_lengthFifo s); word = hd (doh_in s);
                s = s\<lparr>doh_lengthFifo := tl (doh_lengthFifo s), doh_length := len\<rparr>
            in if LENGTH('w) = 64 \<or> LENGTH('w) = 128 then
                 if len > 1 then s\<lparr>doh_state := DOH_DROP\<rparr>
                 else s\<lparr>doh_in := tl (doh_in s), doh_prevWord := word, doh_state := DOH_SHIFT\<rparr>
               else if (LENGTH('w) = 256 \<or> LENGTH('w) = 512) \<and> len = 5
               then s\<lparr>doh_in := tl (doh_in s), doh_prevWord := word,
                      doh_state := (if na_last word then DOH_LAST_FIVE else DOH_SHIFT_FIVE)\<rparr>
               else s
          else s
      | DOH_DROP \<Rightarrow>
          (case doh_in s of
             w # rest \<Rightarrow>
               let len = doh_length s - 2
               in s\<lparr>doh_in := rest, doh_prevWord := w, doh_length := len,
                    doh_state := (if len = 1 then DOH_SHIFT else if len = 0 then DOH_BODY else DOH_DROP)\<rparr>
           | [] \<Rightarrow> s)
      | DOH_BODY \<Rightarrow>
          (case doh_in s of
             w # rest \<Rightarrow> s\<lparr>doh_in := rest, doh_out := doh_out s @ [w],
                           doh_state := (if na_last w then DOH_META else DOH_BODY)\<rparr>
           | [] \<Rightarrow> s)
      | DOH_SHIFT \<Rightarrow> doh_shift 4 DOH_LAST s
      | DOH_SHIFT_FIVE \<Rightarrow> doh_shift 20 DOH_LAST_FIVE s
      | DOH_LAST \<Rightarrow> s\<lparr>doh_out := doh_out s @ [rshift_remainder 4 (doh_prevWord s)], doh_state := DOH_META\<rparr>
      | DOH_LAST_FIVE \<Rightarrow> s\<lparr>doh_out := doh_out s @ [rshift_remainder 20 (doh_prevWord s)], doh_state := DOH_META\<rparr>)"

definition ipv4_drop_optional_ip_header :: "('w::len, 'k::len) axis doh_st \<Rightarrow> ('w, 'k) axis doh_st" where
  "ipv4_drop_optional_ip_header = drop_optional_ip_header"

section \<open>Sending\<close>

datatype gi_fsmStateType = GI_META | GI_HEADER | GI_PARTIAL_HEADER | GI_BODY

record 'a gi_st =
  gi_state :: gi_fsmStateType
  gi_header :: ipv4Header
  gi_meta :: "ipv4Meta fifo"
  gi_in :: "'a fifo"
  gi_out :: "'a fifo"

text \<open>The two copies of the function differ in the argument of \<open>setECN\<close> and \<open>setFlags\<close>, an
  \<open>ap_uint<1>\<close>: \<open>v\<close>.  \<open>u\<close> is the indeterminate word that \<open>consumeWord\<close> fills.\<close>

definition gi_set_header :: "1 word \<Rightarrow> u32 \<Rightarrow> u8 \<Rightarrow> ipv4Meta \<Rightarrow> ipv4Header \<Rightarrow> ipv4Header" where
  "gi_set_header v local_ipv4_address protocol meta h =
     setFlags v (setECN v (setProtocol protocol (setSrcAddr local_ipv4_address (setDstAddr (im_address meta)
       (setLength (im_length meta + 20) (clear_header h))))))"

definition generate_ipv4_with ::
  "1 word \<Rightarrow> u32 \<Rightarrow> u8 \<Rightarrow> 'w word \<Rightarrow> ('w::len, 'k::len) axis gi_st \<Rightarrow> ('w, 'k) axis gi_st" where
  "generate_ipv4_with v local_ipv4_address protocol u s =
     (case gi_state s of
        GI_META \<Rightarrow>
          (case gi_meta s of
             meta # rest \<Rightarrow>
               s\<lparr>gi_meta := rest, gi_header := gi_set_header v local_ipv4_address protocol meta (gi_header s),
                 gi_state := (if IPV4_HEADER_SIZE \<ge> LENGTH('w) then GI_HEADER else GI_PARTIAL_HEADER)\<rparr>
           | [] \<Rightarrow> s)
      | GI_HEADER \<Rightarrow>
          (case consumeWord (gi_header s) u of
             (h, d, left) \<Rightarrow>
               s\<lparr>gi_header := h, gi_out := gi_out s @ [\<lparr>na_data = d, na_keep = ucast (0xFFFFFFFF :: u32), na_last = False\<rparr>],
                 gi_state := (if unat left < LENGTH('w) div 8 then GI_PARTIAL_HEADER else GI_HEADER)\<rparr>)
      | GI_PARTIAL_HEADER \<Rightarrow>
          (case gi_in s of
             w # rest \<Rightarrow>
               (case consumeWord (gi_header s) (na_data w) of
                  (h, d, _) \<Rightarrow> s\<lparr>gi_in := rest, gi_header := h, gi_out := gi_out s @ [w\<lparr>na_data := d\<rparr>],
                                gi_state := (if na_last w then GI_META else GI_BODY)\<rparr>)
           | [] \<Rightarrow> s)
      | GI_BODY \<Rightarrow>
          (case gi_in s of
             w # rest \<Rightarrow> s\<lparr>gi_in := rest, gi_out := gi_out s @ [w],
                           gi_state := (if na_last w then GI_META else GI_BODY)\<rparr>
           | [] \<Rightarrow> s))"

definition generate_ipv4 :: "u32 \<Rightarrow> u8 \<Rightarrow> 'w word \<Rightarrow> ('w::len, 'k::len) axis gi_st \<Rightarrow> ('w, 'k) axis gi_st" where
  "generate_ipv4 = generate_ipv4_with 2"

definition ipv4_generate_ipv4 :: "u32 \<Rightarrow> u8 \<Rightarrow> 'w word \<Rightarrow> ('w::len, 'k::len) axis gi_st \<Rightarrow> ('w, 'k) axis gi_st" where
  "ipv4_generate_ipv4 = generate_ipv4_with 1"

section \<open>The module\<close>

text \<open>Each internal FIFO is a field of its reader; a writer's output is moved there at the end of its
  call.\<close>

record 'a ipv4_st =
  ip_process :: "'a pip_st"
  ip_drop :: "'a doh_st"
  ip_shift :: "'a lshift_st"
  ip_generate :: "'a gi_st"

definition ipv4_place_process :: "'a pip_st \<Rightarrow> 'a ipv4_st \<Rightarrow> 'a ipv4_st" where
  "ipv4_place_process a s =
     s\<lparr>ip_process := a\<lparr>pi_out := [], pi_length := []\<rparr>,
       ip_drop := (ip_drop s)\<lparr>doh_in := doh_in (ip_drop s) @ pi_out a,
                              doh_lengthFifo := doh_lengthFifo (ip_drop s) @ pi_length a\<rparr>\<rparr>"

definition ipv4_process :: "('w::len, 'k::len) axis ipv4_st \<Rightarrow> ('w, 'k) axis ipv4_st" where
  "ipv4_process s = ipv4_place_process (process_ipv4 (ip_process s)) s"

definition ipv4_drop :: "('w::len, 'k::len) axis ipv4_st \<Rightarrow> ('w, 'k) axis ipv4_st" where
  "ipv4_drop s = s\<lparr>ip_drop := ipv4_drop_optional_ip_header (ip_drop s)\<rparr>"

definition ipv4_place_shift :: "'a lshift_st \<Rightarrow> 'a ipv4_st \<Rightarrow> 'a ipv4_st" where
  "ipv4_place_shift a s =
     s\<lparr>ip_shift := a\<lparr>ls_output := []\<rparr>,
       ip_generate := (ip_generate s)\<lparr>gi_in := gi_in (ip_generate s) @ ls_output a\<rparr>\<rparr>"

definition ipv4_shift :: "('w::len, 'k::len) axis ipv4_st \<Rightarrow> ('w, 'k) axis ipv4_st" where
  "ipv4_shift s =
     ipv4_place_shift (ipv4_lshiftWordByOctet (IPV4_HEADER_SIZE mod LENGTH('w) div 8) (ip_shift s)) s"

definition ipv4_generate :: "u32 \<Rightarrow> u8 \<Rightarrow> 'w word \<Rightarrow> ('w::len, 'k::len) axis ipv4_st \<Rightarrow> ('w, 'k) axis ipv4_st" where
  "ipv4_generate local_ipv4_address protocol u s =
     s\<lparr>ip_generate := ipv4_generate_ipv4 local_ipv4_address protocol u (ip_generate s)\<rparr>"

definition ipv4 :: "u32 \<Rightarrow> u8 \<Rightarrow> 'w word \<Rightarrow> ('w::len, 'k::len) axis ipv4_st \<Rightarrow> ('w, 'k) axis ipv4_st" where
  "ipv4 local_ipv4_address protocol u s =
     ipv4_generate local_ipv4_address protocol u (ipv4_shift (ipv4_drop (ipv4_process s)))"

section \<open>The processes with more input, and with less output\<close>

text \<open>What a process writes does not depend on what is in its output FIFOs, and more input does not
  change a call that has enough.\<close>

lemma process_ipv4_frame:
  "process_ipv4 (a\<lparr>pi_out := x, pi_length := y\<rparr>) =
     (let b = process_ipv4 (a\<lparr>pi_out := [], pi_length := []\<rparr>) in b\<lparr>pi_out := x @ pi_out b, pi_length := y @ pi_length b\<rparr>)"
  by (cases a) (simp add: process_ipv4_def Let_def split: list.splits)

lemma lshift_frame:
  "lshiftWordByOctet m (a\<lparr>ls_output := x\<rparr>) =
     (let b = lshiftWordByOctet m (a\<lparr>ls_output := []\<rparr>) in b\<lparr>ls_output := x @ ls_output b\<rparr>)"
  by (cases a) (simp add: lshiftWordByOctet_def Let_def split: list.splits)

lemma doh_mono:
  assumes "drop_optional_ip_header a \<noteq> a"
  shows "drop_optional_ip_header (a\<lparr>doh_in := doh_in a @ x, doh_lengthFifo := doh_lengthFifo a @ y\<rparr>) =
    (let b = drop_optional_ip_header a in b\<lparr>doh_in := doh_in b @ x, doh_lengthFifo := doh_lengthFifo b @ y\<rparr>)"
  using assms
  by (cases a; cases "doh_state a"; cases "doh_in a"; cases "doh_lengthFifo a")
    (simp_all add: drop_optional_ip_header_def doh_shift_def Let_def)

lemma gi_mono:
  assumes "generate_ipv4_with v l p u a \<noteq> a"
  shows "generate_ipv4_with v l p u (a\<lparr>gi_in := gi_in a @ x\<rparr>) =
    (let b = generate_ipv4_with v l p u a in b\<lparr>gi_in := gi_in b @ x\<rparr>)"
  using assms
  by (cases a; cases "gi_state a"; cases "gi_in a"; cases "gi_meta a")
    (simp_all add: generate_ipv4_with_def Let_def split: prod.splits)

section \<open>The module is determinate\<close>

definition ipv4_processes ::
  "u32 \<Rightarrow> u8 \<Rightarrow> 'w word \<Rightarrow> ((('w::len, 'k::len) axis ipv4_st \<Rightarrow> bool) \<times> (('w, 'k) axis ipv4_st \<Rightarrow> ('w, 'k) axis ipv4_st)) list" where
  "ipv4_processes local_ipv4_address protocol u =
     [(\<lambda>s. process_ipv4 (ip_process s) \<noteq> ip_process s, ipv4_process),
      (\<lambda>s. drop_optional_ip_header (ip_drop s) \<noteq> ip_drop s, ipv4_drop),
      (\<lambda>s. lshiftWordByOctet (IPV4_HEADER_SIZE mod LENGTH('w) div 8) (ip_shift s) \<noteq> ip_shift s, ipv4_shift),
      (\<lambda>s. ipv4_generate_ipv4 local_ipv4_address protocol u (ip_generate s) \<noteq> ip_generate s,
       ipv4_generate local_ipv4_address protocol u)]"

definition ipv4_ok :: "'a ipv4_st \<Rightarrow> bool" where
  "ipv4_ok s \<longleftrightarrow> pi_out (ip_process s) = [] \<and> pi_length (ip_process s) = [] \<and> ls_output (ip_shift s) = []"

lemma ipv4_region: "ipv4 l p u = region (ipv4_processes l p u)"
  by (rule ext) (simp add: ipv4_def region_def ipv4_processes_def)

lemmas ipv4_step_defs = ipv4_process_def ipv4_drop_def ipv4_shift_def ipv4_generate_def ipv4_place_process_def
  ipv4_place_shift_def ipv4_drop_optional_ip_header_def ipv4_lshiftWordByOctet_def ipv4_generate_ipv4_def

lemma doh_cancel:
  "b\<lparr>doh_in := doh_in b @ x, doh_lengthFifo := doh_lengthFifo b @ y\<rparr> =
   c\<lparr>doh_in := doh_in c @ x, doh_lengthFifo := doh_lengthFifo c @ y\<rparr> \<longleftrightarrow> b = c"
  by (cases b; cases c) auto

lemma gi_cancel: "b\<lparr>gi_in := gi_in b @ x\<rparr> = c\<lparr>gi_in := gi_in c @ x\<rparr> \<longleftrightarrow> b = c"
  by (cases b; cases c) auto

lemma ipv4_pairwise: "pairwise_commuting ipv4_ok (ipv4_processes l p u)"
  by (simp add: ipv4_processes_def commuting_def ipv4_step_defs doh_mono gi_mono doh_cancel gi_cancel Let_def)

interpretation ipv4: dataflow ipv4_ok "ipv4_processes l p u" for l p u
proof (unfold_locales, goal_cases)
  case (1 q s)
  then show ?case by (auto simp: ipv4_processes_def ipv4_ok_def ipv4_step_defs)
next
  case (2 q s)
  then show ?case by (auto simp: ipv4_processes_def ipv4_ok_def ipv4_step_defs)
qed (rule ipv4_pairwise)

section \<open>One datagram through each process\<close>

definition pi_idle :: "'a pip_st \<Rightarrow> bool" where
  "pi_idle s \<longleftrightarrow> \<not> ph_ready (pi_header s) \<and> ph_idx (pi_header s) = 0 \<and> \<not> pi_metaWritten s \<and> pi_headerWordsDropped s = 0"

lemma process_rest:
  assumes "pkt ws" "ph_ready (pi_header s)" "pi_metaWritten s" "pi_in s = ws @ rest"
  shows "let t = (process_ipv4 ^^ length ws) s in pi_idle t \<and> pi_in t = rest \<and> pi_out t = pi_out s @ ws \<and>
    pi_length t = pi_length s \<and> pi_meta t = pi_meta s"
  using assms
proof (induction ws arbitrary: s)
  case (Cons w ws)
  let ?t = "process_ipv4 s"
  have t: "pi_in ?t = ws @ rest" "pi_out ?t = pi_out s @ [w]" "pi_length ?t = pi_length s" "pi_meta ?t = pi_meta s"
    "if na_last w then pi_idle ?t else ph_ready (pi_header ?t) \<and> pi_metaWritten ?t"
    using Cons.prems(2-4) by (simp_all add: process_ipv4_def Let_def pi_idle_def)
  show ?case
  proof (cases "ws = []")
    case True
    then show ?thesis using t Cons.prems(1) by (simp add: pkt_Cons)
  next
    case False
    then have "pkt ws" "\<not> na_last w" using Cons.prems(1) by (simp_all add: pkt_Cons)
    with Cons.IH [of ?t] t show ?thesis by (simp add: funpow_Suc_right Let_def del: funpow.simps(2))
  qed
qed (simp add: pkt_def)

lemma process_packet:
  fixes ws :: "('w::len, 'k::len) axis list"
  assumes "LENGTH('w) \<ge> 160" "pkt ws" "pi_idle s" "pi_in s = ws @ rest"
  defines "h \<equiv> (pi_header s)\<lparr>ph_header := ucast (na_data (hd ws))\<rparr>"
  shows "let t = (process_ipv4 ^^ length ws) s in pi_idle t \<and> pi_in t = rest \<and> pi_out t = pi_out s @ ws \<and>
    pi_length t = pi_length s @ [getHeaderLength h] \<and>
    pi_meta t = pi_meta s @ [\<lparr>im_address = getSrcAddr h, im_length = getLength h\<rparr>]"
proof -
  obtain w vs where ws: "ws = w # vs" using assms(2) by (cases ws) (auto simp: pkt_def)
  let ?t = "process_ipv4 s"
  have p: "parseWord (na_data w) (pi_header s) = (pi_header s)\<lparr>ph_header := ucast (na_data w), ph_ready := True, ph_idx := 1\<rparr>"
    using assms(1,3) by (intro parseWord_first) (simp_all add: pi_idle_def)
  have t: "pi_in ?t = vs @ rest" "pi_out ?t = pi_out s @ [w]" "pi_length ?t = pi_length s @ [getHeaderLength h]"
    "pi_meta ?t = pi_meta s @ [\<lparr>im_address = getSrcAddr h, im_length = getLength h\<rparr>]"
    "if na_last w then pi_idle ?t else ph_ready (pi_header ?t) \<and> pi_metaWritten ?t"
    using assms(3,4) ws by (simp_all add: process_ipv4_def Let_def p pi_idle_def h_def getHeaderLength_def getSrcAddr_def getLength_def)
  show ?thesis
  proof (cases "vs = []")
    case True
    then show ?thesis using t assms(2) ws by (simp add: pkt_Cons)
  next
    case False
    then have "pkt vs" "\<not> na_last w" using assms(2) ws by (simp_all add: pkt_Cons)
    with process_rest [of vs ?t rest] t ws show ?thesis by (simp add: funpow_Suc_right Let_def del: funpow.simps(2))
  qed
qed

text \<open>The dropper, for wide words and a header of five 32-bit words.\<close>

definition doh_mid :: "u8 option list \<Rightarrow> ('w::len, 'k::len) axis doh_st \<Rightarrow> bool" where
  "doh_mid c s \<longleftrightarrow> LENGTH('w) = 8 * LENGTH('k) \<and> 20 < LENGTH('k) \<and>
     doh_state s = DOH_SHIFT_FIVE \<and> c = drop 20 (cells (doh_prevWord s))"

definition doh_residue :: "u8 option list \<Rightarrow> ('w::len, 'k::len) axis doh_st \<Rightarrow> bool" where
  "doh_residue c s \<longleftrightarrow> LENGTH('w) = 8 * LENGTH('k) \<and> 20 < LENGTH('k) \<and>
     doh_state s = DOH_LAST_FIVE \<and> c = drop 20 (cells (doh_prevWord s))"

lemma contiguous_keep:
  fixes w :: "('w::len, 'k::len) axis"
  assumes "contiguous w" "n < LENGTH('k)"
  shows "\<not> bit (na_keep w) n \<longleftrightarrow> drop n (cells w) = replicate (LENGTH('k) - n) None"
proof -
  obtain bs k where w: "cells w = map Some bs @ replicate k None" using assms(1) by (auto simp: contiguous_def)
  have l: "length bs + k = LENGTH('k)" using arg_cong [OF w, of length] by simp
  have "bit (na_keep w) n \<longleftrightarrow> cells w ! n \<noteq> None" using assms(2) by (simp add: nth_cells)
  also have "\<dots> \<longleftrightarrow> n < length bs" unfolding w using assms(2) l by (auto simp: nth_append)
  finally have n: "bit (na_keep w) n \<longleftrightarrow> n < length bs" .
  show ?thesis
  proof (cases "n < length bs")
    case True
    then have "drop n (cells w) ! 0 \<noteq> None" unfolding w by (simp add: nth_append)
    moreover have "replicate (LENGTH('k) - n) None ! 0 = None" using assms(2) by simp
    ultimately have "drop n (cells w) \<noteq> replicate (LENGTH('k) - n) None" by metis
    with True n show ?thesis by simp
  next
    case False
    then show ?thesis using n l unfolding w by simp
  qed
qed

interpretation doh: realign drop_optional_ip_header doh_in doh_out "\<lambda>s. doh_state s = DOH_META" doh_mid doh_residue
proof (unfold_locales, goal_cases)
  case (1 c s w ws)
  from 1(1) have m: "LENGTH('a) = 8 * LENGTH('b)" "0 < (20 :: nat)" "20 < LENGTH('b)"
    and s: "doh_state s = DOH_SHIFT_FIVE" "c = drop 20 (cells (doh_prevWord s))" by (simp_all add: doh_mid_def)
  have c: "length c = LENGTH('b) - 20" "LENGTH('b) - (LENGTH('b) - 20) = 20" using s(2) m by simp_all
  have full: "\<not> na_last w \<Longrightarrow> drop 20 (cells w) \<noteq> replicate (LENGTH('b) - 20) None"
    using 1(4) m(3) by (metis in_set_dropD in_set_replicate neq0_conv zero_less_diff)
  note j = cells_rshift_join [OF m, of "doh_prevWord s" w] contiguous_keep [OF 1(3) m(3)]
  have cj: "cells (doh_join 20 (doh_prevWord s) w) = cells (rshift_join 20 (doh_prevWord s) w)"
    by (simp add: doh_join_def cells_def)
  show ?case unfolding c
    by (rule exI [of _ "doh_join 20 (doh_prevWord s) w"])
      (use m s 1(2) full j cj in \<open>simp add: drop_optional_ip_header_def doh_shift_def Let_def doh_mid_def
        doh_residue_def doh_join_def\<close>)
next
  case (2 c s)
  then have m: "LENGTH('a) = 8 * LENGTH('b)" "0 < (20 :: nat)" "20 < LENGTH('b)"
    and s: "doh_state s = DOH_LAST_FIVE" "c = drop 20 (cells (doh_prevWord s))" by (simp_all add: doh_residue_def)
  then show ?case
    using cells_rshift_remainder [OF m, of "doh_prevWord s"]
    by (intro exI [of _ "rshift_remainder 20 (doh_prevWord s)"])
      (simp add: drop_optional_ip_header_def rshift_remainder_def)
qed

lemma doh_first:
  fixes s :: "('w::len, 'k::len) axis doh_st"
  assumes "LENGTH('w) = 256 \<or> LENGTH('w) = 512" "doh_state s = DOH_META" "doh_in s = w # ws" "doh_lengthFifo s = 5 # ls"
  shows "drop_optional_ip_header s = s\<lparr>doh_lengthFifo := ls, doh_length := 5, doh_in := ws, doh_prevWord := w,
    doh_state := (if na_last w then DOH_LAST_FIVE else DOH_SHIFT_FIVE)\<rparr>"
  using assms by (cases s) (auto simp: drop_optional_ip_header_def Let_def)

lemma doh_lengthFifo_Nil: "doh_lengthFifo s = [] \<Longrightarrow> doh_lengthFifo (drop_optional_ip_header s) = []"
  by (cases "doh_state s") (auto simp: drop_optional_ip_header_def doh_shift_def Let_def split: list.splits)

lemma doh_packet_alone:
  fixes ws :: "('w::len, 'k::len) axis list"
  assumes w: "LENGTH('w) = 8 * LENGTH('k)" "LENGTH('w) = 256 \<or> LENGTH('w) = 512"
    and bs: "carries bs ws" "20 < length bs"
    and s: "doh_state s = DOH_META" "doh_in s = ws" "doh_lengthFifo s = [5]"
  shows "\<exists>n vs. n \<le> length ws + 1 \<and> (let t = (drop_optional_ip_header ^^ n) s in doh_state t = DOH_META \<and>
    doh_in t = [] \<and> doh_lengthFifo t = [] \<and> doh_out t = doh_out s @ vs \<and> carries (drop 20 bs) vs)"
proof -
  have m: "LENGTH('w) = 8 * LENGTH('k)" "0 < (20 :: nat)" "20 < LENGTH('k)" using w by auto
  obtain x xs where ws: "ws = x # xs" using bs(1) by (cases ws) (auto simp: carries_def)
  let ?s = "drop_optional_ip_header s"
  note st = doh_first [OF w(2) s(1), of x xs "[]"]
  have lf: "doh_lengthFifo ((drop_optional_ip_header ^^ n) ?s) = []" for n
    by (induction n) (use st s ws in \<open>simp_all add: doh_lengthFifo_Nil\<close>)
  show ?thesis
  proof (cases "xs = []")
    case True
    with bs(1) ws obtain k where k: "na_last x" "k < LENGTH('k)"
      "cells x = map Some bs @ replicate k None" by (auto simp: carries_single)
    have l: "length bs + k = LENGTH('k)" using arg_cong [OF k(3), of length] by simp
    have "doh_residue (drop 20 (cells x)) ?s" using st k(1) m s ws by (simp add: doh_residue_def)
    from doh.residue_word [OF this] obtain v where v: "doh_in (drop_optional_ip_header ?s) = []"
      "doh_out (drop_optional_ip_header ?s) = doh_out s @ [v]" "na_last v"
      "cells v = drop 20 (cells x) @ replicate 20 None" "doh_state (drop_optional_ip_header ?s) = DOH_META"
      using st ws True s m(3) by auto
    have "cells v = map Some (drop 20 bs) @ replicate (k + 20) None"
      using v(4) k(3) bs(2) by (simp add: drop_map replicate_add)
    then have "carries (drop 20 bs) [v]"
      using v(3) bs(2) l by (auto simp: carries_single)
    with v True ws lf [of 1] show ?thesis
      by (intro exI [of _ 2] exI [of _ "[v]"]) (simp add: numeral_2_eq_2)
  next
    case False
    with bs(1) ws have x: "\<not> na_last x" "LENGTH('k) \<le> length bs"
      "cells x = map Some (take (LENGTH('k)) bs)" "carries (drop (LENGTH('k)) bs) xs"
      by (simp_all add: carries_Cons)
    let ?ds = "drop 20 (take (LENGTH('k)) bs)"
    have "doh_mid (map Some ?ds) ?s" using st x(1,3) m s ws by (simp add: doh_mid_def drop_map)
    from doh.run [OF this _ _ _ x(4), of "[]"] obtain n vs where n: "n \<le> length xs + 1"
      "doh_state ((drop_optional_ip_header ^^ n) ?s) = DOH_META" "doh_in ((drop_optional_ip_header ^^ n) ?s) = []"
      "doh_out ((drop_optional_ip_header ^^ n) ?s) = doh_out s @ vs" "carries (?ds @ drop (LENGTH('k)) bs) vs"
      using st x(1,2) m s ws by auto
    have "?ds @ drop (LENGTH('k)) bs = drop 20 bs" using m(3) x(2) by (simp add: drop_take_drop)
    with n ws lf [of n] show ?thesis
      by (intro exI [of _ "Suc n"] exI [of _ vs]) (simp add: funpow_Suc_right Let_def del: funpow.simps(2))
  qed
qed

lemma doh_mono_run:
  "\<exists>k\<le>n. (drop_optional_ip_header ^^ k) (a\<lparr>doh_in := doh_in a @ x, doh_lengthFifo := doh_lengthFifo a @ y\<rparr>) =
    (let b = (drop_optional_ip_header ^^ n) a in b\<lparr>doh_in := doh_in b @ x, doh_lengthFifo := doh_lengthFifo b @ y\<rparr>)"
proof (induction n arbitrary: a)
  case 0
  then show ?case by simp
next
  case (Suc n)
  let ?F = drop_optional_ip_header
  show ?case
  proof (cases "?F a = a")
    case True
    then have "(?F ^^ Suc n) a = (?F ^^ n) a" by (simp add: funpow_Suc_right del: funpow.simps(2))
    with Suc.IH [of a] show ?thesis by (metis le_SucI)
  next
    case False
    from Suc.IH [of "?F a"] obtain k where k: "k \<le> n"
      "(?F ^^ k) ((?F a)\<lparr>doh_in := doh_in (?F a) @ x, doh_lengthFifo := doh_lengthFifo (?F a) @ y\<rparr>) =
       (let b = (?F ^^ n) (?F a) in b\<lparr>doh_in := doh_in b @ x, doh_lengthFifo := doh_lengthFifo b @ y\<rparr>)" by auto
    then show ?thesis
      by (intro exI [of _ "Suc k"]) (simp add: funpow_Suc_right doh_mono [OF False] Let_def del: funpow.simps(2))
  qed
qed

lemma doh_packet:
  fixes ws :: "('w::len, 'k::len) axis list"
  assumes w: "LENGTH('w) = 8 * LENGTH('k)" "LENGTH('w) = 256 \<or> LENGTH('w) = 512"
    and bs: "carries bs ws" "20 < length bs"
    and s: "doh_state s = DOH_META" "doh_in s = ws @ rest" "doh_lengthFifo s = 5 # ls"
  shows "\<exists>n vs. n \<le> length ws + 1 \<and> (let t = (drop_optional_ip_header ^^ n) s in doh_state t = DOH_META \<and>
    doh_in t = rest \<and> doh_lengthFifo t = ls \<and> doh_out t = doh_out s @ vs \<and> carries (drop 20 bs) vs)"
proof -
  let ?a = "s\<lparr>doh_in := ws, doh_lengthFifo := [5]\<rparr>"
  from doh_packet_alone [OF w bs, of ?a] s(1) obtain n vs where n: "n \<le> length ws + 1"
    "let t = (drop_optional_ip_header ^^ n) ?a in doh_state t = DOH_META \<and> doh_in t = [] \<and> doh_lengthFifo t = [] \<and>
      doh_out t = doh_out s @ vs \<and> carries (drop 20 bs) vs" by auto
  have "s = ?a\<lparr>doh_in := doh_in ?a @ rest, doh_lengthFifo := doh_lengthFifo ?a @ ls\<rparr>" using s by (cases s) simp
  with doh_mono_run [of n ?a, where x = rest and y = ls] obtain k where "k \<le> n" "(drop_optional_ip_header ^^ k) s =
    (let b = (drop_optional_ip_header ^^ n) ?a in b\<lparr>doh_in := doh_in b @ rest, doh_lengthFifo := doh_lengthFifo b @ ls\<rparr>)"
    by metis
  with n show ?thesis by (intro exI [of _ k] exI [of _ vs]) (simp add: Let_def)
qed

section \<open>Writing the header\<close>

definition ip_header :: "1 word \<Rightarrow> u32 \<Rightarrow> u8 \<Rightarrow> ipv4Meta \<Rightarrow> 160 word \<Rightarrow> 160 word" where
  "ip_header v l p m t = ph_header (gi_set_header v l p m \<lparr>ph_ready = False, ph_idx = 0, ph_header = t\<rparr>)"

lemmas setter_defs = setFlags_def setECN_def setProtocol_def setSrcAddr_def setDstAddr_def setLength_def

lemma gi_set_header_simps [simp]:
  "ph_header (gi_set_header v l p m h) = ip_header v l p m (ph_header h)"
  "ph_idx (gi_set_header v l p m h) = 0" "ph_ready (gi_set_header v l p m h) = False"
  by (simp_all add: ip_header_def gi_set_header_def setter_defs)

lemma ip_header_again: "ip_header v l p m' (ip_header v l p m t) = ip_header v l p m' t"
  by (rule bit_word_eqI) (simp add: ip_header_def gi_set_header_def setter_defs bit_put_bits)

lemma ip_header_fields:
  "bits 127 96 (ip_header v l p m t) = l" "bits 159 128 (ip_header v l p m t) = im_address m"
  "bits 31 16 (ip_header v l p m t) = reverse16 (im_length m + 20)" "bits 79 72 (ip_header v l p m t) = p"
  "bits 3 0 (ip_header v l p m t) = (bits 3 0 t :: u4)"
  by (simp_all add: ip_header_def gi_set_header_def setter_defs bits_put_bits bits_put_bits_other)

lemma generate_body:
  assumes "pkt ws" "gi_state s = GI_BODY" "gi_in s = ws @ rest"
  shows "(generate_ipv4_with v l p u ^^ length ws) s =
    s\<lparr>gi_state := GI_META, gi_in := rest, gi_out := gi_out s @ ws\<rparr>"
  using assms
proof (induction ws arbitrary: s)
  case (Cons w ws)
  show ?case
  proof (cases "ws = []")
    case True
    then show ?thesis using Cons.prems by (cases s) (simp add: pkt_Cons generate_ipv4_with_def)
  next
    case False
    then have w: "pkt ws" "\<not> na_last w" using Cons.prems(1) by (simp_all add: pkt_Cons)
    let ?t = "generate_ipv4_with v l p u s"
    have t: "?t = s\<lparr>gi_in := ws @ rest, gi_out := gi_out s @ [w]\<rparr>"
      using Cons.prems(2,3) w(2) by (cases s) (simp add: generate_ipv4_with_def)
    then show ?thesis using Cons.IH [OF w(1), of ?t] Cons.prems(2)
      by (simp add: funpow_Suc_right del: funpow.simps(2))
  qed
qed (simp add: pkt_def)

lemma generate_packet:
  fixes vs :: "('w::len, 'k::len) axis list"
  assumes w: "LENGTH('w) = 8 * LENGTH('k)" "160 < LENGTH('w)"
    and c: "carries (xs @ bs) vs" "length xs = 20"
    and s: "gi_state s = GI_META" "gi_meta s = m # ms" "gi_in s = vs @ rest"
    and h: "h = ip_header v l p m (ph_header (gi_header s))"
  shows "\<exists>us. let t = (generate_ipv4_with v l p u ^^ (length vs + 1)) s in gi_state t = GI_META \<and> gi_meta t = ms \<and>
    gi_in t = rest \<and> gi_out t = gi_out s @ us \<and> ph_header (gi_header t) = h \<and> carries (header_bytes h @ bs) us"
proof -
  let ?F = "generate_ipv4_with v l p u"
  obtain x ys where vs: "vs = x # ys" using c(1) by (cases vs) (auto simp: carries_def)
  have one: "?F s = s\<lparr>gi_meta := ms, gi_header := gi_set_header v l p m (gi_header s), gi_state := GI_PARTIAL_HEADER\<rparr>"
    using s(1,2) w(2) by (simp add: generate_ipv4_with_def IPV4_HEADER_SIZE_def)
  let ?g = "gi_set_header v l p m (gi_header s)"
  let ?c = "consumeWord ?g (na_data x)"
  let ?x = "x\<lparr>na_data := fst (snd ?c)\<rparr>"
  have cw: "fst ?c = ?g\<lparr>ph_idx := 1\<rparr>" "\<And>j. j < LENGTH('w) \<Longrightarrow> bit (fst (snd ?c)) j =
      (if j < LENGTH(160) then bit h j else bit (na_data x) j)"
    using consumeWord_first [where 'w = 'w and h = ?g and w = "na_data x"] w(2) by (simp_all add: h)
  have two: "?F (?F s) = s\<lparr>gi_meta := ms, gi_in := ys @ rest, gi_header := fst ?c, gi_out := gi_out s @ [?x],
      gi_state := (if na_last x then GI_META else GI_BODY)\<rparr>"
    unfolding one using s(3) vs by (cases s) (simp add: generate_ipv4_with_def split: prod.split)
  have car: "carries (header_bytes h @ bs) (?x # ys)"
    by (rule carries_header [where n = 20, OF w(1) _ _ c(1) [unfolded vs] c(2) cw(2)]) (use w in simp_all)
  show ?thesis
  proof (cases "ys = []")
    case True
    then have "na_last x" using c(1) vs by (simp add: carries_single)
    then show ?thesis using True two vs car cw(1) by (intro exI [of _ "[?x]"]) (simp add: numeral_2_eq_2 h)
  next
    case False
    have "pkt (x # ys)" using carries_pkt [OF c(1)] vs by simp
    then have y: "pkt ys" "\<not> na_last x" using False by (simp_all add: pkt_Cons)
    have "(?F ^^ (length vs + 1)) s = (?F ^^ length ys) (?F (?F s))"
      using vs by (simp add: funpow_Suc_right del: funpow.simps(2))
    also have "\<dots> = (?F (?F s))\<lparr>gi_state := GI_META, gi_in := rest, gi_out := gi_out s @ ?x # ys\<rparr>"
      by (subst generate_body [OF y(1), where rest = rest]) (use two y(2) in simp_all)
    finally have "(?F ^^ (length vs + 1)) s = (?F (?F s))\<lparr>gi_state := GI_META, gi_in := rest, gi_out := gi_out s @ ?x # ys\<rparr>" .
    then show ?thesis using car cw(1) by (intro exI [of _ "?x # ys"]) (simp add: two h)
  qed
qed

section \<open>Datagrams through the module\<close>

text \<open>A datagram: what the sender is told, the bytes, and the words that carry them.\<close>

type_synonym datagram = "ipv4Meta \<times> u8 list \<times> (512, 64) axis list"

definition dg_meta :: "datagram \<Rightarrow> ipv4Meta" where "dg_meta d = fst d"
definition dg_bytes :: "datagram \<Rightarrow> u8 list" where "dg_bytes d = fst (snd d)"
definition dg_words :: "datagram \<Rightarrow> (512, 64) axis list" where "dg_words d = snd (snd d)"

definition gap :: nat where "gap = IPV4_HEADER_SIZE mod 512 div 8"

lemma gap [simp]: "gap = 20" by (simp add: gap_def IPV4_HEADER_SIZE_def)

lemma shift_datagrams:
  fixes s :: "(512, 64) axis lshift_st"
  assumes "\<forall>d\<in>set ds. carries (dg_bytes d) (dg_words d)" "ls_idle s" "ls_input s = concat (map dg_words ds)"
  shows "\<exists>n vss. let t = (lshiftWordByOctet gap ^^ n) s in ls_idle t \<and> ls_input t = [] \<and>
    ls_output t = ls_output s @ concat vss \<and> list_all2 (\<lambda>d vs. carries (replicate 20 0 @ dg_bytes d) vs) ds vss"
proof -
  define Q where "Q ys xs t \<longleftrightarrow> ls_idle t \<and> ls_input t = concat (map dg_words xs) \<and> (\<exists>vss. ls_output t = ls_output s @ concat vss \<and>
    list_all2 (\<lambda>d vs. carries (replicate 20 0 @ dg_bytes d) vs) ys vss) \<and> (\<forall>d\<in>set xs. carries (dg_bytes d) (dg_words d))"
    for ys xs :: "datagram list" and t :: "(512, 64) axis lshift_st"
  have "\<exists>n\<le>length (dg_words x) + 1. Q (ys @ [x]) xs ((lshiftWordByOctet gap ^^ n) t)" if q: "Q ys (x # xs) t" for ys x xs t
  proof -
    from q obtain vss where v: "ls_output t = ls_output s @ concat vss"
      "list_all2 (\<lambda>d vs. carries (replicate 20 0 @ dg_bytes d) vs) ys vss" by (auto simp: Q_def)
    from q lshift_packet [of gap "dg_bytes x" "dg_words x" t "concat (map dg_words xs)"] obtain n vs where
      n: "n \<le> length (dg_words x) + 1" "ls_idle ((lshiftWordByOctet gap ^^ n) t)"
      "ls_input ((lshiftWordByOctet gap ^^ n) t) = concat (map dg_words xs)"
      "ls_output ((lshiftWordByOctet gap ^^ n) t) = ls_output t @ vs" "carries (replicate 20 0 @ dg_bytes x) vs"
      by (auto simp: Q_def)
    with v q show ?thesis
      by (intro exI [of _ n]) (auto simp: Q_def intro!: exI [of _ "vss @ [vs]"] list_all2_appendI)
  qed
  moreover have "Q [] ds s"
    unfolding Q_def by (intro conjI exI [of _ "[]"]) (use assms in simp_all)
  ultimately have "\<exists>n\<le> sum_list (map (\<lambda>x. length (dg_words x) + 1) ds). Q ([] @ ds) [] ((lshiftWordByOctet gap ^^ n) s)"
    by (rule run_items)
  then show ?thesis by (auto simp: Q_def Let_def)
qed

lemma generate_datagrams:
  fixes s :: "(512, 64) axis gi_st"
  assumes "list_all2 (\<lambda>d vs. carries (replicate 20 0 @ dg_bytes d) vs) ds vss" "gi_state s = GI_META"
    "gi_meta s = map dg_meta ds" "gi_in s = concat vss"
  shows "\<exists>n uss. let t = (generate_ipv4_with v l p u ^^ n) s in gi_state t = GI_META \<and> gi_meta t = [] \<and> gi_in t = [] \<and>
    gi_out t = gi_out s @ concat uss \<and>
    list_all2 (\<lambda>d us. carries (header_bytes (ip_header v l p (dg_meta d) (ph_header (gi_header s))) @ dg_bytes d) us) ds uss"
proof -
  let ?h = "\<lambda>d. ip_header v l p (dg_meta d) (ph_header (gi_header s))"
  define Q where "Q ys xs t \<longleftrightarrow> gi_state t = GI_META \<and> gi_meta t = map (dg_meta \<circ> fst) xs \<and> gi_in t = concat (map snd xs) \<and>
    (\<forall>m. ip_header v l p m (ph_header (gi_header t)) = ip_header v l p m (ph_header (gi_header s))) \<and>
    (\<exists>uss. gi_out t = gi_out s @ concat uss \<and> list_all2 (\<lambda>x us. carries (header_bytes (?h (fst x)) @ dg_bytes (fst x)) us) ys uss) \<and>
    (\<forall>x\<in>set xs. carries (replicate 20 0 @ dg_bytes (fst x)) (snd x))" for ys xs :: "(datagram \<times> (512, 64) axis list) list" and t :: "(512, 64) axis gi_st"
  have "\<exists>n\<le>length (snd x) + 1. Q (ys @ [x]) xs ((generate_ipv4_with v l p u ^^ n) t)" if q: "Q ys (x # xs) t" for ys x xs t
  proof -
    from q obtain uss where v: "gi_out t = gi_out s @ concat uss"
      "list_all2 (\<lambda>x us. carries (header_bytes (?h (fst x)) @ dg_bytes (fst x)) us) ys uss" by (auto simp: Q_def)
    from q have same: "ip_header v l p (dg_meta (fst x)) (ph_header (gi_header t)) = ?h (fst x)" by (simp add: Q_def)
    from q have pre: "gi_state t = GI_META" "gi_meta t = dg_meta (fst x) # map (dg_meta \<circ> fst) xs"
      "gi_in t = snd x @ concat (map snd xs)" "carries (replicate 20 0 @ dg_bytes (fst x)) (snd x)"
      by (simp_all add: Q_def)
    have "\<exists>us. let r = (generate_ipv4_with v l p u ^^ (length (snd x) + 1)) t in gi_state r = GI_META \<and>
         gi_meta r = map (dg_meta \<circ> fst) xs \<and> gi_in r = concat (map snd xs) \<and> gi_out r = gi_out t @ us \<and>
         ph_header (gi_header r) = ?h (fst x) \<and> carries (header_bytes (?h (fst x)) @ dg_bytes (fst x)) us"
      by (rule generate_packet [OF _ _ pre(4) _ pre(1-3) same [symmetric]]) simp_all
    then obtain us where
      n: "let r = (generate_ipv4_with v l p u ^^ (length (snd x) + 1)) t in gi_state r = GI_META \<and>
         gi_meta r = map (dg_meta \<circ> fst) xs \<and> gi_in r = concat (map snd xs) \<and> gi_out r = gi_out t @ us \<and>
         ph_header (gi_header r) = ?h (fst x) \<and> carries (header_bytes (?h (fst x)) @ dg_bytes (fst x)) us" ..
    show ?thesis
      by (rule exI [of _ "length (snd x) + 1"])
        (use n v q ip_header_again in \<open>auto simp: Q_def Let_def intro!: exI [of _ "uss @ [us]"] list_all2_appendI\<close>)
  qed
  then have "\<exists>n\<le> sum_list (map (\<lambda>x. length (snd x) + 1) (zip ds vss)). Q ([] @ zip ds vss) [] ((generate_ipv4_with v l p u ^^ n) s)"
    by (rule run_items)
      (use assms in \<open>auto simp: Q_def list_all2_iff simp flip: map_map\<close>)
  then show ?thesis using list_all2_lengthD [OF assms(1)] by (fastforce simp: Q_def Let_def list_all2_iff in_set_zip)
qed

text \<open>What arrives: the header, the bytes behind it, and the words.\<close>

type_synonym arrival = "160 word \<times> u8 list \<times> (512, 64) axis list"

definition meta_of :: "160 word \<Rightarrow> ipv4Meta" where
  "meta_of h = \<lparr>im_address = bits 127 96 h, im_length = reverse16 (bits 31 16 h)\<rparr>"

definition arrives :: "arrival \<Rightarrow> bool" where
  "arrives x \<longleftrightarrow> (case x of (h, bs, ws) \<Rightarrow> carries (header_bytes h @ bs) ws \<and> bits 3 0 h = (5 :: u4) \<and> bs \<noteq> [])"

lemma process_arrivals:
  fixes s :: "(512, 64) axis pip_st"
  assumes "\<forall>x\<in>set xs. arrives x" "pi_idle s" "pi_in s = concat (map (snd \<circ> snd) xs)"
  shows "\<exists>n. let t = (process_ipv4 ^^ n) s in pi_idle t \<and> pi_in t = [] \<and> pi_out t = pi_out s @ concat (map (snd \<circ> snd) xs) \<and>
    pi_length t = pi_length s @ replicate (length xs) 5 \<and> pi_meta t = pi_meta s @ map (meta_of \<circ> fst) xs"
proof -
  define Q where "Q ys xs t \<longleftrightarrow> pi_idle t \<and> pi_in t = concat (map (snd \<circ> snd) xs) \<and> pi_out t = pi_out s @ concat (map (snd \<circ> snd) ys) \<and>
    pi_length t = pi_length s @ replicate (length ys) 5 \<and> pi_meta t = pi_meta s @ map (meta_of \<circ> fst) ys \<and> (\<forall>x\<in>set xs. arrives x)"
    for ys xs :: "arrival list" and t :: "(512, 64) axis pip_st"
  have "\<exists>n\<le>length (snd (snd x)). Q (ys @ [x]) xs ((process_ipv4 ^^ n) t)" if q: "Q ys (x # xs) t" for ys x xs t
  proof -
    obtain h bs ws where x: "x = (h, bs, ws)" by (metis surj_pair)
    from q x have a: "carries (header_bytes h @ bs) ws" "bits 3 0 h = (5 :: u4)" by (simp_all add: Q_def arrives_def)
    obtain w vs where ws: "ws = w # vs" using a(1) by (cases ws) (auto simp: carries_def)
    have u: "ucast (na_data w) = h"
      by (rule carries_header_word [where n = 20, OF _ _ _ a(1) [unfolded ws]]) simp_all
    from q x have pre: "pi_idle t" "pi_in t = ws @ concat (map (snd \<circ> snd) xs)" by (simp_all add: Q_def)
    from process_packet [OF _ carries_pkt [OF a(1)] pre] u ws a(2)
    have "let r = (process_ipv4 ^^ length ws) t in pi_idle r \<and> pi_in r = concat (map (snd \<circ> snd) xs) \<and> pi_out r = pi_out t @ ws \<and>
      pi_length r = pi_length t @ [5] \<and> pi_meta r = pi_meta t @ [meta_of h]"
      by (simp add: getHeaderLength_def getSrcAddr_def getLength_def meta_of_def)
    with q x show ?thesis
      by (intro exI [of _ "length ws"]) (auto simp: Q_def Let_def replicate_append_same simp del: replicate.simps simp flip: replicate_Suc)
  qed
  moreover have "Q [] xs s" unfolding Q_def using assms by simp
  ultimately have "\<exists>n\<le> sum_list (map (\<lambda>x. length (snd (snd x))) xs). Q ([] @ xs) [] ((process_ipv4 ^^ n) s)"
    by (rule run_items)
  then show ?thesis by (auto simp: Q_def Let_def)
qed

lemma drop_arrivals:
  fixes s :: "(512, 64) axis doh_st"
  assumes "\<forall>x\<in>set xs. arrives x" "doh_state s = DOH_META" "doh_in s = concat (map (snd \<circ> snd) xs)"
    "doh_lengthFifo s = replicate (length xs) 5"
  shows "\<exists>n uss. let t = (drop_optional_ip_header ^^ n) s in doh_state t = DOH_META \<and> doh_in t = [] \<and> doh_lengthFifo t = [] \<and>
    doh_out t = doh_out s @ concat uss \<and> list_all2 (\<lambda>x us. carries (fst (snd x)) us) xs uss"
proof -
  define Q where "Q ys xs t \<longleftrightarrow> doh_state t = DOH_META \<and> doh_in t = concat (map (snd \<circ> snd) xs) \<and>
    doh_lengthFifo t = replicate (length xs) 5 \<and> (\<exists>uss. doh_out t = doh_out s @ concat uss \<and>
      list_all2 (\<lambda>x us. carries (fst (snd x)) us) ys uss) \<and> (\<forall>x\<in>set xs. arrives x)"
    for ys xs :: "arrival list" and t :: "(512, 64) axis doh_st"
  have "\<exists>n\<le>length (snd (snd x)) + 1. Q (ys @ [x]) xs ((drop_optional_ip_header ^^ n) t)" if q: "Q ys (x # xs) t" for ys x xs t
  proof -
    obtain h bs ws where x: "x = (h, bs, ws)" by (metis surj_pair)
    from q x have a: "carries (header_bytes h @ bs) ws" "20 < length (header_bytes h @ bs)"
      by (simp_all add: Q_def arrives_def)
    from q x have pre: "doh_state t = DOH_META" "doh_in t = ws @ concat (map (snd \<circ> snd) xs)"
      "doh_lengthFifo t = 5 # replicate (length xs) 5" by (simp_all add: Q_def)
    from q obtain uss where v: "doh_out t = doh_out s @ concat uss" "list_all2 (\<lambda>x us. carries (fst (snd x)) us) ys uss"
      by (auto simp: Q_def)
    have "\<exists>n vs. n \<le> length ws + 1 \<and> (let r = (drop_optional_ip_header ^^ n) t in doh_state r = DOH_META \<and>
      doh_in r = concat (map (snd \<circ> snd) xs) \<and> doh_lengthFifo r = replicate (length xs) 5 \<and>
      doh_out r = doh_out t @ vs \<and> carries (drop 20 (header_bytes h @ bs)) vs)"
      by (rule doh_packet [OF _ _ a pre]) simp_all
    then obtain n vs where n: "n \<le> length ws + 1" "let r = (drop_optional_ip_header ^^ n) t in doh_state r = DOH_META \<and>
      doh_in r = concat (map (snd \<circ> snd) xs) \<and> doh_lengthFifo r = replicate (length xs) 5 \<and>
      doh_out r = doh_out t @ vs \<and> carries bs vs" by auto
    with v q x show ?thesis
      by (intro exI [of _ n]) (auto simp: Q_def Let_def intro!: exI [of _ "uss @ [vs]"] list_all2_appendI)
  qed
  moreover have "Q [] xs s" unfolding Q_def by (intro conjI exI [of _ "[]"]) (use assms in simp_all)
  ultimately have "\<exists>n\<le> sum_list (map (\<lambda>x. length (snd (snd x)) + 1) xs). Q ([] @ xs) [] ((drop_optional_ip_header ^^ n) s)"
    by (rule run_items)
  then show ?thesis by (auto simp: Q_def Let_def)
qed

section \<open>Round trip\<close>

definition ipv4_idle :: "('w::len, 'k::len) axis ipv4_st \<Rightarrow> bool" where
  "ipv4_idle s \<longleftrightarrow> ipv4_ok s \<and> pi_idle (ip_process s) \<and> pi_in (ip_process s) = [] \<and>
     doh_state (ip_drop s) = DOH_META \<and> doh_in (ip_drop s) = [] \<and> doh_lengthFifo (ip_drop s) = [] \<and>
     ls_idle (ip_shift s) \<and> ls_input (ip_shift s) = [] \<and>
     gi_state (ip_generate s) = GI_META \<and> gi_meta (ip_generate s) = [] \<and> gi_in (ip_generate s) = []"

lemma ipv4_idle_quiet: "ipv4_idle s \<Longrightarrow> quiet (ipv4_processes l p u) s"
  by (simp add: quiet_def ipv4_processes_def ipv4_idle_def process_ipv4_def drop_optional_ip_header_def
      lshiftWordByOctet_def ls_idle_def ipv4_generate_ipv4_def generate_ipv4_with_def)

lemma ipv4_process_run:
  "ipv4_ok s \<Longrightarrow> (ipv4_process ^^ n) s = ipv4_place_process ((process_ipv4 ^^ n) (ip_process s)) s"
  for s :: "('w::len, 'k::len) axis ipv4_st"
proof (rule placed_run [where clr = "\<lambda>a. a\<lparr>pi_out := [], pi_length := []\<rparr>"])
  fix a and s :: "('w, 'k) axis ipv4_st"
  show "ipv4_place_process (process_ipv4 (a\<lparr>pi_out := [], pi_length := []\<rparr>)) (ipv4_place_process a s) =
      ipv4_place_process (process_ipv4 a) s"
    using process_ipv4_frame [where a = a and x = "pi_out a" and y = "pi_length a"] by (simp add: ipv4_place_process_def Let_def)
qed (simp_all add: ipv4_process_def ipv4_place_process_def ipv4_ok_def)

lemma ipv4_drop_run: "(ipv4_drop ^^ n) s = s\<lparr>ip_drop := (drop_optional_ip_header ^^ n) (ip_drop s)\<rparr>"
  by (rule placed_run [where clr = "\<lambda>a. a" and P = "\<lambda>a s. s\<lparr>ip_drop := a\<rparr>"])
    (simp_all add: ipv4_drop_def ipv4_drop_optional_ip_header_def)

lemma ipv4_shift_run:
  "ipv4_ok s \<Longrightarrow> (ipv4_shift ^^ n) s = ipv4_place_shift ((lshiftWordByOctet (IPV4_HEADER_SIZE mod LENGTH('w) div 8) ^^ n) (ip_shift s)) s"
  for s :: "('w::len, 'k::len) axis ipv4_st"
proof (rule placed_run [where clr = "\<lambda>a. a\<lparr>ls_output := []\<rparr>"])
  fix a and s :: "('w, 'k) axis ipv4_st"
  show "ipv4_place_shift (lshiftWordByOctet (IPV4_HEADER_SIZE mod LENGTH('w) div 8) (a\<lparr>ls_output := []\<rparr>)) (ipv4_place_shift a s) =
      ipv4_place_shift (lshiftWordByOctet (IPV4_HEADER_SIZE mod LENGTH('w) div 8) a) s"
    using lshift_frame [where m = "IPV4_HEADER_SIZE mod LENGTH('w) div 8" and a = a and x = "ls_output a"] by (simp add: ipv4_place_shift_def Let_def)
qed (simp_all add: ipv4_shift_def ipv4_place_shift_def ipv4_ok_def ipv4_lshiftWordByOctet_def)

lemma ipv4_generate_run:
  "(ipv4_generate l p u ^^ n) s = s\<lparr>ip_generate := (ipv4_generate_ipv4 l p u ^^ n) (ip_generate s)\<rparr>"
  by (rule placed_run [where clr = "\<lambda>a. a" and P = "\<lambda>a s. s\<lparr>ip_generate := a\<rparr>"])
    (simp_all add: ipv4_generate_def)

text \<open>The sender: every datagram leaves with its header in front.\<close>

lemma ipv4_send:
  fixes s :: "(512, 64) axis ipv4_st"
  assumes s: "ipv4_idle s" and ds: "\<forall>d\<in>set ds. carries (dg_bytes d) (dg_words d)"
  defines "s' \<equiv> s\<lparr>ip_shift := (ip_shift s)\<lparr>ls_input := concat (map dg_words ds)\<rparr>,
    ip_generate := (ip_generate s)\<lparr>gi_meta := map dg_meta ds\<rparr>\<rparr>"
  shows "\<exists>N uss. (\<forall>k\<ge>N. ipv4_idle ((ipv4 l p u ^^ k) s') \<and>
      gi_out (ip_generate ((ipv4 l p u ^^ k) s')) = gi_out (ip_generate s) @ concat uss) \<and>
    list_all2 (\<lambda>d us. carries (header_bytes (ip_header 1 l p (dg_meta d) (ph_header (gi_header (ip_generate s)))) @ dg_bytes d) us) ds uss"
proof -
  from s have i: "ls_idle (ip_shift s)" "gi_state (ip_generate s) = GI_META" "gi_in (ip_generate s) = []" "ipv4_ok s"
    "ls_output (ip_shift s) = []" by (simp_all add: ipv4_idle_def ipv4_ok_def)
  from shift_datagrams [OF ds, of "ip_shift s'"] i obtain n vss where n:
    "let t = (lshiftWordByOctet gap ^^ n) (ip_shift s') in ls_idle t \<and> ls_input t = [] \<and> ls_output t = concat vss"
    "list_all2 (\<lambda>d vs. carries (replicate 20 0 @ dg_bytes d) vs) ds vss" by (auto simp: s'_def ls_idle_def Let_def)
  let ?a = "(lshiftWordByOctet gap ^^ n) (ip_shift s')"
  let ?g = "(ip_generate s')\<lparr>gi_in := concat vss\<rparr>"
  from generate_datagrams [OF n(2), of ?g 1 l p u] i obtain m uss where m:
    "let t = (generate_ipv4_with 1 l p u ^^ m) ?g in gi_state t = GI_META \<and> gi_meta t = [] \<and> gi_in t = [] \<and>
       gi_out t = gi_out (ip_generate s) @ concat uss"
    "list_all2 (\<lambda>d us. carries (header_bytes (ip_header 1 l p (dg_meta d) (ph_header (gi_header (ip_generate s)))) @ dg_bytes d) us) ds uss"
    by (auto simp: s'_def Let_def)
  let ?t = "schedule [(ipv4_shift, n), (ipv4_generate l p u, m)] s'"
  have ok: "ipv4_ok s'" using i by (simp add: s'_def ipv4_ok_def)
  have "?t = s'\<lparr>ip_shift := ?a\<lparr>ls_output := []\<rparr>, ip_generate := (generate_ipv4_with 1 l p u ^^ m) ?g\<rparr>"
    using ipv4_shift_run [OF ok, of n] n(1) i(3)
    by (simp add: ipv4_generate_run ipv4_place_shift_def ipv4_generate_ipv4_def Let_def s'_def flip: gap_def)
  then have t: "ipv4_idle ?t" "gi_out (ip_generate ?t) = gi_out (ip_generate s) @ concat uss"
    using s n(1) m(1) by (simp_all add: ipv4_idle_def ipv4_ok_def Let_def s'_def ls_idle_def)
  have "(ipv4 l p u ^^ k) s' = ?t" if "n + m \<le> k" for k
    unfolding ipv4_region
    by (rule ipv4.lockstep [OF ok _ HOL.refl ipv4_idle_quiet [OF t(1)]]) (use that in \<open>auto simp: ipv4_processes_def\<close>)
  with t m(2) show ?thesis by (intro exI [of _ "n + m"] exI [of _ uss]) simp
qed

lemma ipv4_receive:
  fixes r :: "(512, 64) axis ipv4_st"
  assumes r: "ipv4_idle r" and xs: "\<forall>x\<in>set xs. arrives x"
  defines "r' \<equiv> r\<lparr>ip_process := (ip_process r)\<lparr>pi_in := concat (map (snd \<circ> snd) xs)\<rparr>\<rparr>"
  shows "\<exists>N uss. (\<forall>k\<ge>N. ipv4_idle ((ipv4 l p u ^^ k) r') \<and>
      pi_meta (ip_process ((ipv4 l p u ^^ k) r')) = pi_meta (ip_process r) @ map (meta_of \<circ> fst) xs \<and>
      doh_out (ip_drop ((ipv4 l p u ^^ k) r')) = doh_out (ip_drop r) @ concat uss) \<and>
    list_all2 (\<lambda>x us. carries (fst (snd x)) us) xs uss"
proof -
  from r have i: "pi_idle (ip_process r)" "doh_state (ip_drop r) = DOH_META" "doh_in (ip_drop r) = []"
    "doh_lengthFifo (ip_drop r) = []" "ipv4_ok r" "pi_out (ip_process r) = []" "pi_length (ip_process r) = []"
    by (simp_all add: ipv4_idle_def ipv4_ok_def)
  from process_arrivals [OF xs, of "ip_process r'"] i obtain n where n:
    "let t = (process_ipv4 ^^ n) (ip_process r') in pi_idle t \<and> pi_in t = [] \<and> pi_out t = concat (map (snd \<circ> snd) xs) \<and>
      pi_length t = replicate (length xs) 5 \<and> pi_meta t = pi_meta (ip_process r) @ map (meta_of \<circ> fst) xs"
    by (auto simp: r'_def pi_idle_def Let_def)
  let ?a = "(process_ipv4 ^^ n) (ip_process r')"
  let ?g = "(ip_drop r)\<lparr>doh_in := concat (map (snd \<circ> snd) xs), doh_lengthFifo := replicate (length xs) 5\<rparr>"
  from drop_arrivals [OF xs, of ?g] i obtain m uss where m:
    "let t = (drop_optional_ip_header ^^ m) ?g in doh_state t = DOH_META \<and> doh_in t = [] \<and> doh_lengthFifo t = [] \<and>
      doh_out t = doh_out (ip_drop r) @ concat uss"
    "list_all2 (\<lambda>x us. carries (fst (snd x)) us) xs uss" by (auto simp: Let_def)
  let ?t = "schedule [(ipv4_process, n), (ipv4_drop, m)] r'"
  have ok: "ipv4_ok r'" using i by (simp add: r'_def ipv4_ok_def)
  have "?t = r'\<lparr>ip_process := ?a\<lparr>pi_out := [], pi_length := []\<rparr>, ip_drop := (drop_optional_ip_header ^^ m) ?g\<rparr>"
    using ipv4_process_run [OF ok, of n] n(1) i(3,4)
    by (simp add: ipv4_drop_run ipv4_place_process_def Let_def r'_def)
  then have t: "ipv4_idle ?t" "pi_meta (ip_process ?t) = pi_meta (ip_process r) @ map (meta_of \<circ> fst) xs"
    "doh_out (ip_drop ?t) = doh_out (ip_drop r) @ concat uss"
    using r n(1) m(1) by (simp_all add: ipv4_idle_def ipv4_ok_def Let_def r'_def pi_idle_def)
  have "(ipv4 l p u ^^ k) r' = ?t" if "n + m \<le> k" for k
    unfolding ipv4_region
    by (rule ipv4.lockstep [OF ok _ HOL.refl ipv4_idle_quiet [OF t(1)]]) (use that in \<open>auto simp: ipv4_processes_def\<close>)
  with t m(2) show ?thesis by (intro exI [of _ "n + m"] exI [of _ uss]) simp
qed

text \<open>C36: IPv4 round trip, for words of 512 bits (at 64, 128 and 256 bits the option dropper fails).  Any
  sequence of datagrams that are not empty, given to an idle module (whose header register still has
  a header length of five words) all at once, is sent, each with a
  header of 20 bytes in front that names the two addresses, the protocol and the length; an idle
  module that gets these words delivers the same bytes in the same order, each with the address of
  the sender and the length of the datagram.  Each module takes a bounded
  number of cycles, in each of which all its processes work once, with all its input there from the
  start, and is idle again afterwards; other timings are not covered.\<close>

theorem ipv4_roundtrip:
  fixes s r :: "(512, 64) axis ipv4_st" and ds :: "datagram list"
  assumes s: "ipv4_idle s" "bits 3 0 (ph_header (gi_header (ip_generate s))) = (5 :: u4)" and r: "ipv4_idle r"
    and ds: "\<forall>d\<in>set ds. carries (dg_bytes d) (dg_words d) \<and> dg_bytes d \<noteq> []"
  defines "s' \<equiv> s\<lparr>ip_shift := (ip_shift s)\<lparr>ls_input := concat (map dg_words ds)\<rparr>,
    ip_generate := (ip_generate s)\<lparr>gi_meta := map dg_meta ds\<rparr>\<rparr>"
  shows "\<exists>N wss. (\<forall>k\<ge>N. ipv4_idle ((ipv4 l p u ^^ k) s') \<and>
      gi_out (ip_generate ((ipv4 l p u ^^ k) s')) = gi_out (ip_generate s) @ concat wss) \<and>
    list_all2 (\<lambda>d ws. \<exists>h :: 160 word. carries (header_bytes h @ dg_bytes d) ws \<and> bits 127 96 h = l \<and>
      bits 159 128 h = im_address (dg_meta d) \<and> bits 79 72 h = p \<and> reverse16 (bits 31 16 h) = im_length (dg_meta d) + 20) ds wss \<and>
    (let r' = r\<lparr>ip_process := (ip_process r)\<lparr>pi_in := concat wss\<rparr>\<rparr> in
     \<exists>N uss. (\<forall>k\<ge>N. ipv4_idle ((ipv4 l' p' u' ^^ k) r') \<and>
        pi_meta (ip_process ((ipv4 l' p' u' ^^ k) r')) = pi_meta (ip_process r) @
          map (\<lambda>d. \<lparr>im_address = l, im_length = im_length (dg_meta d) + 20\<rparr>) ds \<and>
        doh_out (ip_drop ((ipv4 l' p' u' ^^ k) r')) = doh_out (ip_drop r) @ concat uss) \<and>
      list_all2 (\<lambda>d us. carries (dg_bytes d) us) ds uss)"
proof -
  let ?h = "\<lambda>d. ip_header 1 l p (dg_meta d) (ph_header (gi_header (ip_generate s)))"
  from ipv4_send [OF s(1), of ds l p u] ds obtain N wss where n:
    "\<forall>k\<ge>N. ipv4_idle ((ipv4 l p u ^^ k) s') \<and> gi_out (ip_generate ((ipv4 l p u ^^ k) s')) = gi_out (ip_generate s) @ concat wss"
    "list_all2 (\<lambda>d us. carries (header_bytes (?h d) @ dg_bytes d) us) ds wss"
    by (auto simp: s'_def)
  have l: "length ds = length wss" by (rule list_all2_lengthD [OF n(2)])
  let ?xs = "map (\<lambda>(d, ws). (?h d, dg_bytes d, ws)) (zip ds wss)"
  have f: "map (snd \<circ> snd) ?xs = wss" "map (fst \<circ> snd) ?xs = map dg_bytes ds" "map (meta_of \<circ> fst) ?xs =
      map (\<lambda>d. \<lparr>im_address = l, im_length = im_length (dg_meta d) + 20\<rparr>) ds"
    using l by (auto intro!: nth_equalityI simp: meta_of_def ip_header_fields)
  have "\<forall>x\<in>set ?xs. arrives x"
    using n(2) ds s(2) by (auto simp: arrives_def list_all2_iff ip_header_fields dest: set_zip_leftD)
  from ipv4_receive [OF r this, of l' p' u'] obtain M uss where m:
    "\<forall>k\<ge>M. ipv4_idle ((ipv4 l' p' u' ^^ k) (r\<lparr>ip_process := (ip_process r)\<lparr>pi_in := concat wss\<rparr>\<rparr>)) \<and>
      pi_meta (ip_process ((ipv4 l' p' u' ^^ k) (r\<lparr>ip_process := (ip_process r)\<lparr>pi_in := concat wss\<rparr>\<rparr>))) =
        pi_meta (ip_process r) @ map (\<lambda>d. \<lparr>im_address = l, im_length = im_length (dg_meta d) + 20\<rparr>) ds \<and>
      doh_out (ip_drop ((ipv4 l' p' u' ^^ k) (r\<lparr>ip_process := (ip_process r)\<lparr>pi_in := concat wss\<rparr>\<rparr>))) = doh_out (ip_drop r) @ concat uss"
    "list_all2 (\<lambda>x us. carries (fst (snd x)) us) ?xs uss"
    unfolding f by blast
  have "list_all2 (\<lambda>bs us. carries bs us) (map (fst \<circ> snd) ?xs) uss"
    using m(2) by (simp only: list_all2_map1 comp_def)
  then have u: "list_all2 (\<lambda>d us. carries (dg_bytes d) us) ds uss" unfolding f by (simp add: list_all2_map1)
  have w: "list_all2 (\<lambda>d ws. \<exists>h :: 160 word. carries (header_bytes h @ dg_bytes d) ws \<and> bits 127 96 h = l \<and>
      bits 159 128 h = im_address (dg_meta d) \<and> bits 79 72 h = p \<and> reverse16 (bits 31 16 h) = im_length (dg_meta d) + 20) ds wss"
    using n(2)
  proof (rule list_all2_mono)
    fix d ws assume "carries (header_bytes (?h d) @ dg_bytes d) ws"
    then show "\<exists>h :: 160 word. carries (header_bytes h @ dg_bytes d) ws \<and> bits 127 96 h = l \<and>
      bits 159 128 h = im_address (dg_meta d) \<and> bits 79 72 h = p \<and> reverse16 (bits 31 16 h) = im_length (dg_meta d) + 20"
      by (intro exI [of _ "?h d"]) (simp add: ip_header_fields)
  qed
  show ?thesis unfolding Let_def
    by (intro exI [of _ N] exI [of _ wss] conjI n(1) w exI [of _ M] exI [of _ uss] m(1) u)
qed

definition ipv4_reset :: "(512, 64) axis ipv4_st" where
  "ipv4_reset = (let w = \<lparr>na_data = 0, na_keep = 0, na_last = False\<rparr> in
     \<lparr>ip_process = \<lparr>pi_header = ipv4Header_init 0, pi_headerWordsDropped = 0, pi_metaWritten = False, pi_in = [],
        pi_length = [], pi_meta = [], pi_out = []\<rparr>,
      ip_drop = \<lparr>doh_state = DOH_META, doh_length = 0, doh_prevWord = w, doh_lengthFifo = [], doh_in = [], doh_out = []\<rparr>,
      ip_shift = \<lparr>ls_firstWord = True, ls_writeRemainder = False, ls_prevWord = w, ls_input = [], ls_output = []\<rparr>,
      ip_generate = \<lparr>gi_state = GI_META, gi_header = ipv4Header_init 0, gi_meta = [], gi_in = [], gi_out = []\<rparr>\<rparr>)"

definition datagram_ex :: datagram where
  "datagram_ex = (\<lparr>im_address = 0x0100000A, im_length = 3\<rparr>, [0x11, 0x22, 0x33],
     [\<lparr>na_data = 0x332211, na_keep = 7, na_last = True\<rparr>])"

lemma cells_ex: "cells \<lparr>na_data = (0x332211 :: 512 word), na_keep = (7 :: 64 word), na_last = True\<rparr> =
    map Some [0x11, 0x22, 0x33] @ replicate 61 None"
  by code_simp

theorem ipv4_roundtrip_witness:
  "\<exists>N wss. (\<forall>k\<ge>N. gi_out (ip_generate ((ipv4 7 6 0 ^^ k) (ipv4_reset\<lparr>ip_shift := (ip_shift ipv4_reset)\<lparr>ls_input := dg_words datagram_ex\<rparr>,
      ip_generate := (ip_generate ipv4_reset)\<lparr>gi_meta := [dg_meta datagram_ex]\<rparr>\<rparr>))) = concat wss) \<and>
    length wss = 1 \<and> (\<exists>h. carries (header_bytes h @ [0x11, 0x22, 0x33]) (hd wss) \<and> bits 127 96 (h :: 160 word) = (7 :: u32))"
proof -
  have "ipv4_idle ipv4_reset"
    by (simp add: ipv4_idle_def ipv4_reset_def Let_def ipv4_ok_def pi_idle_def ls_idle_def ipv4Header_init_def)
  moreover have "bits 3 0 (ph_header (gi_header (ip_generate ipv4_reset))) = (5 :: u4)" by code_simp
  moreover have "gi_out (ip_generate ipv4_reset) = []" by (simp add: ipv4_reset_def Let_def)
  moreover have "carries (dg_bytes datagram_ex) (dg_words datagram_ex) \<and> dg_bytes datagram_ex \<noteq> []"
    using cells_ex by (auto simp: datagram_ex_def dg_bytes_def dg_words_def carries_single intro!: exI [of _ 61])
  moreover have "dg_bytes datagram_ex = [0x11, 0x22, 0x33]" by (simp add: datagram_ex_def dg_bytes_def)
  ultimately show ?thesis
    using ipv4_roundtrip [of ipv4_reset ipv4_reset "[datagram_ex]" 7 6 0 7 6 0]
    by (fastforce simp: list_all2_Cons1)
qed

end
