(* ===== verification/Mac_Ip_Encode.thy ===== *)
theory Mac_Ip_Encode
  imports Ipv4 Checksum
begin

text \<open>
  \<open>mac_ip_encode.cpp\<close>: the last module before the wire.  It asks the ARP server for the MAC address
  of each datagram, puts the header checksum and the Ethernet header in, and drops datagrams whose
  address is unknown.  The module exists at 512 bits only, because the checksum function does; the
  other processes are generic in the width.
\<close>

section \<open>Types\<close>

record arpTableReply =
  atr_macAddress :: u48
  atr_hit :: bool

section \<open>The processes\<close>

record 'a eia_st =
  eia_header :: ipv4Header
  eia_metaWritten :: bool
  eia_in :: "'a fifo"
  eia_out :: "'a fifo"
  eia_arpTableOut :: "u32 fifo"

definition next_hop :: "u32 \<Rightarrow> u32 \<Rightarrow> u32 \<Rightarrow> u32" where
  "next_hop regSubNetMask regDefaultGateway dstIpAddress =
     (if dstIpAddress AND regSubNetMask = regDefaultGateway AND regSubNetMask then dstIpAddress else regDefaultGateway)"

definition extract_ip_address :: "u32 \<Rightarrow> u32 \<Rightarrow> ('w::len, 'k::len) axis eia_st \<Rightarrow> ('w, 'k) axis eia_st" where
  "extract_ip_address regSubNetMask regDefaultGateway s =
     (case eia_in s of
        currWord # rest \<Rightarrow>
          let h = parseWord (na_data currWord) (eia_header s);
              s = s\<lparr>eia_in := rest, eia_header := h, eia_out := eia_out s @ [currWord]\<rparr>;
              s = (if ph_ready h \<and> \<not> eia_metaWritten s
                   then s\<lparr>eia_arpTableOut := eia_arpTableOut s @ [next_hop regSubNetMask regDefaultGateway (getDstAddr h)],
                          eia_metaWritten := True\<rparr>
                   else s)
          in if na_last currWord then s\<lparr>eia_metaWritten := False, eia_header := clear_header h\<rparr> else s
      | [] \<Rightarrow> s)"

record 'a iic_st =
  iic_wordCount :: u4
  iic_checksum :: u16
  iic_in :: "'a fifo"
  iic_checksumFifo :: "u16 fifo"
  iic_out :: "'a fifo"

definition insert_ip_checksum :: "('w::len, 'k::len) axis iic_st \<Rightarrow> ('w, 'k) axis iic_st" where
  "insert_ip_checksum s =
     (if iic_wordCount s = 0 then
        if iic_in s \<noteq> [] \<and> iic_checksumFifo s \<noteq> [] then
          let w = hd (iic_in s); c = hd (iic_checksumFifo s);
              w = (if LENGTH('w) > 64 then w\<lparr>na_data := put_bits 95 80 (reverse16 c) (na_data w)\<rparr> else w)
          in s\<lparr>iic_in := tl (iic_in s), iic_checksumFifo := tl (iic_checksumFifo s), iic_checksum := c,
               iic_out := iic_out s @ [w], iic_wordCount := (if na_last w then 0 else 1)\<rparr>
        else s
      else if iic_wordCount s = 1 then
        (case iic_in s of
           w # rest \<Rightarrow>
             let w = (if LENGTH('w) = 64 then w\<lparr>na_data := put_bits 31 16 (reverse16 (iic_checksum s)) (na_data w)\<rparr> else w)
             in s\<lparr>iic_in := rest, iic_out := iic_out s @ [w], iic_wordCount := (if na_last w then 0 else 2)\<rparr>
         | [] \<Rightarrow> s)
      else
        (case iic_in s of
           w # rest \<Rightarrow> s\<lparr>iic_in := rest, iic_out := iic_out s @ [w],
                         iic_wordCount := (if na_last w then 0 else iic_wordCount s)\<rparr>
         | [] \<Rightarrow> s))"

datatype har_stateType = HAR_ARP | HAR_FWD | HAR_DROP

record 'a har_st =
  har_state :: har_stateType
  har_arpTableIn :: "arpTableReply fifo"
  har_in :: "'a fifo"
  har_headerOut :: "ethHeader fifo"
  har_out :: "'a fifo"

text \<open>The header is a local whose bits are all set.\<close>

definition har_header :: "u48 \<Rightarrow> u48 \<Rightarrow> ethHeader" where
  "har_header macAddress myMacAddress =
     setEthertype 0x0800 (setSrcAddress myMacAddress (setDstAddress macAddress
       \<lparr>ph_ready = False, ph_idx = 0, ph_header = 0\<rparr>))"

definition handle_arp_reply :: "u48 \<Rightarrow> ('w::len, 'k::len) axis har_st \<Rightarrow> ('w, 'k) axis har_st" where
  "handle_arp_reply myMacAddress s =
     (case har_state s of
        HAR_ARP \<Rightarrow>
          if har_arpTableIn s \<noteq> [] \<and> har_in s \<noteq> [] then
            let reply = hd (har_arpTableIn s); word = hd (har_in s);
                s = s\<lparr>har_arpTableIn := tl (har_arpTableIn s), har_in := tl (har_in s)\<rparr>
            in if atr_hit reply
               then s\<lparr>har_headerOut := har_headerOut s @ [har_header (atr_macAddress reply) myMacAddress],
                      har_out := har_out s @ [word], har_state := (if na_last word then HAR_ARP else HAR_FWD)\<rparr>
               else s\<lparr>har_state := (if na_last word then HAR_ARP else HAR_DROP)\<rparr>
          else s
      | HAR_FWD \<Rightarrow>
          (case har_in s of
             w # rest \<Rightarrow> s\<lparr>har_in := rest, har_out := har_out s @ [w], har_state := (if na_last w then HAR_ARP else HAR_FWD)\<rparr>
           | [] \<Rightarrow> s)
      | HAR_DROP \<Rightarrow>
          (case har_in s of
             w # rest \<Rightarrow> s\<lparr>har_in := rest, har_state := (if na_last w then HAR_ARP else HAR_DROP)\<rparr>
           | [] \<Rightarrow> s))"

datatype ieh_stateType = IEH_HEADER | IEH_PARTIAL_HEADER | IEH_BODY

record 'a ieh_st =
  ieh_state :: ieh_stateType
  ieh_header :: ethHeader
  ieh_headerIn :: "ethHeader fifo"
  ieh_in :: "'a fifo"
  ieh_out :: "'a fifo"

definition ieh_start :: "'w::len itself \<Rightarrow> ieh_stateType" where
  "ieh_start W = (if ETH_HEADER_SIZE \<ge> LENGTH('w) then IEH_HEADER else IEH_PARTIAL_HEADER)"

text \<open>\<open>u\<close> is the indeterminate word that the full header word is written into.\<close>

definition insert_ethernet_header :: "'w word \<Rightarrow> ('w::len, 'k::len) axis ieh_st \<Rightarrow> ('w, 'k) axis ieh_st" where
  "insert_ethernet_header u s =
     (case ieh_state s of
        IEH_HEADER \<Rightarrow>
          (case ieh_headerIn s of
             h # rest \<Rightarrow>
               (case consumeWord h u of
                  (h, d, _) \<Rightarrow>
                    s\<lparr>ieh_headerIn := rest, ieh_header := h, ieh_state := IEH_PARTIAL_HEADER,
                      ieh_out := ieh_out s @ [\<lparr>na_data = d, na_keep = NOT 0, na_last = False\<rparr>]\<rparr>)
           | [] \<Rightarrow> s)
      | IEH_PARTIAL_HEADER \<Rightarrow>
          if (ieh_headerIn s \<noteq> [] \<or> ETH_HEADER_SIZE \<ge> LENGTH('w)) \<and> ieh_in s \<noteq> [] then
            let s = (if ETH_HEADER_SIZE < LENGTH('w)
                     then s\<lparr>ieh_header := hd (ieh_headerIn s), ieh_headerIn := tl (ieh_headerIn s)\<rparr> else s);
                w = hd (ieh_in s)
            in (case consumeWord (ieh_header s) (na_data w) of
                  (h, d, _) \<Rightarrow>
                    s\<lparr>ieh_in := tl (ieh_in s), ieh_header := h, ieh_out := ieh_out s @ [w\<lparr>na_data := d\<rparr>],
                      ieh_state := (if \<not> na_last w then IEH_BODY else ieh_start TYPE('w))\<rparr>)
          else s
      | IEH_BODY \<Rightarrow>
          (case ieh_in s of
             w # rest \<Rightarrow> s\<lparr>ieh_in := rest, ieh_out := ieh_out s @ [w],
                           ieh_state := (if na_last w then ieh_start TYPE('w) else IEH_BODY)\<rparr>
           | [] \<Rightarrow> s))"

text \<open>An older variant of the last three processes, not called any more.\<close>

datatype ge_stateType = GE_META | GE_HEADER | GE_PARTIAL_HEADER | GE_BODY | GE_DROP

record 'a ge_st =
  ge_state :: ge_stateType
  ge_header :: ethHeader
  ge_in :: "'a fifo"
  ge_arpTableIn :: "arpTableReply fifo"
  ge_out :: "'a fifo"

definition generate_ethernet :: "u48 \<Rightarrow> 'w word \<Rightarrow> ('w::len, 'k::len) axis ge_st \<Rightarrow> ('w, 'k) axis ge_st" where
  "generate_ethernet myMacAddress u s =
     (case ge_state s of
        GE_META \<Rightarrow>
          (case ge_arpTableIn s of
             reply # rest \<Rightarrow>
               let s = s\<lparr>ge_arpTableIn := rest, ge_header := clear_header (ge_header s)\<rparr>
               in if atr_hit reply
                  then s\<lparr>ge_header := setEthertype 0x0800 (setSrcAddress myMacAddress
                           (setDstAddress (atr_macAddress reply) (ge_header s))),
                         ge_state := (if ETH_HEADER_SIZE \<ge> LENGTH('w) then GE_HEADER else GE_PARTIAL_HEADER)\<rparr>
                  else s\<lparr>ge_state := GE_DROP\<rparr>
           | [] \<Rightarrow> s)
      | GE_HEADER \<Rightarrow>
          (case consumeWord (ge_header s) u of
             (h, d, left) \<Rightarrow>
               s\<lparr>ge_header := h, ge_out := ge_out s @ [\<lparr>na_data = d, na_keep = NOT 0, na_last = False\<rparr>],
                 ge_state := (if unat left < LENGTH('w) div 8 then GE_PARTIAL_HEADER else GE_HEADER)\<rparr>)
      | GE_PARTIAL_HEADER \<Rightarrow>
          (case ge_in s of
             w # rest \<Rightarrow>
               (case consumeWord (ge_header s) (na_data w) of
                  (h, d, _) \<Rightarrow> s\<lparr>ge_in := rest, ge_header := h, ge_out := ge_out s @ [w\<lparr>na_data := d\<rparr>],
                                ge_state := (if na_last w then GE_META else GE_BODY)\<rparr>)
           | [] \<Rightarrow> s)
      | GE_BODY \<Rightarrow>
          (case ge_in s of
             w # rest \<Rightarrow> s\<lparr>ge_in := rest, ge_out := ge_out s @ [w],
                           ge_state := (if na_last w then GE_META else GE_BODY)\<rparr>
           | [] \<Rightarrow> s)
      | GE_DROP \<Rightarrow>
          (case ge_in s of
             w # rest \<Rightarrow> s\<lparr>ge_in := rest, ge_state := (if na_last w then GE_META else GE_DROP)\<rparr>
           | [] \<Rightarrow> s))"

section \<open>The module\<close>

type_synonym word512 = "(512, 64) axis"

record mac_st =
  me_extract :: "word512 eia_st"
  me_compute :: "word512 cics512_st"
  me_finalize :: "u17 list fifo \<times> u16 fifo"
  me_insert :: "word512 iic_st"
  me_arp :: "word512 har_st"
  me_shift :: "word512 lshift_st"
  me_ethernet :: "word512 ieh_st"

text \<open>Each writes its output into the FIFOs of its readers.\<close>

definition mac_place_extract :: "word512 eia_st \<Rightarrow> mac_st \<Rightarrow> mac_st" where
  "mac_place_extract a s = s\<lparr>me_extract := a\<lparr>eia_out := []\<rparr>,
     me_compute := (me_compute s)\<lparr>c5_dataIn := c5_dataIn (me_compute s) @ eia_out a\<rparr>\<rparr>"

definition mac_place_compute :: "word512 cics512_st \<Rightarrow> mac_st \<Rightarrow> mac_st" where
  "mac_place_compute a s = s\<lparr>me_compute := a\<lparr>c5_dataOut := [], c5_subSumFiFoOut := []\<rparr>,
     me_finalize := (fst (me_finalize s) @ c5_subSumFiFoOut a, snd (me_finalize s)),
     me_insert := (me_insert s)\<lparr>iic_in := iic_in (me_insert s) @ c5_dataOut a\<rparr>\<rparr>"

definition mac_place_finalize :: "u17 list fifo \<times> u16 fifo \<Rightarrow> mac_st \<Rightarrow> mac_st" where
  "mac_place_finalize a s = s\<lparr>me_finalize := (fst a, []),
     me_insert := (me_insert s)\<lparr>iic_checksumFifo := iic_checksumFifo (me_insert s) @ snd a\<rparr>\<rparr>"

definition mac_place_insert :: "word512 iic_st \<Rightarrow> mac_st \<Rightarrow> mac_st" where
  "mac_place_insert a s = s\<lparr>me_insert := a\<lparr>iic_out := []\<rparr>,
     me_arp := (me_arp s)\<lparr>har_in := har_in (me_arp s) @ iic_out a\<rparr>\<rparr>"

definition mac_place_arp :: "word512 har_st \<Rightarrow> mac_st \<Rightarrow> mac_st" where
  "mac_place_arp a s = s\<lparr>me_arp := a\<lparr>har_headerOut := [], har_out := []\<rparr>,
     me_shift := (me_shift s)\<lparr>ls_input := ls_input (me_shift s) @ har_out a\<rparr>,
     me_ethernet := (me_ethernet s)\<lparr>ieh_headerIn := ieh_headerIn (me_ethernet s) @ har_headerOut a\<rparr>\<rparr>"

definition mac_place_shift :: "word512 lshift_st \<Rightarrow> mac_st \<Rightarrow> mac_st" where
  "mac_place_shift a s = s\<lparr>me_shift := a\<lparr>ls_output := []\<rparr>,
     me_ethernet := (me_ethernet s)\<lparr>ieh_in := ieh_in (me_ethernet s) @ ls_output a\<rparr>\<rparr>"

record mac_cfg =
  mc_myMacAddress :: u48
  mc_regSubNetMask :: u32
  mc_regDefaultGateway :: u32
  mc_word :: "512 word"

definition eth_gap :: nat where "eth_gap = ETH_HEADER_SIZE mod 512 div 8"

definition mac_extract :: "mac_cfg \<Rightarrow> mac_st \<Rightarrow> mac_st" where
  "mac_extract c s = mac_place_extract (extract_ip_address (mc_regSubNetMask c) (mc_regDefaultGateway c) (me_extract s)) s"

definition mac_compute :: "mac_st \<Rightarrow> mac_st" where
  "mac_compute s = mac_place_compute (mac_compute_ipv4_checksum True (me_compute s)) s"

definition mac_finalize :: "mac_st \<Rightarrow> mac_st" where
  "mac_finalize s = mac_place_finalize (mac_finalize_ipv4_checksum (me_finalize s)) s"

definition mac_insert :: "mac_st \<Rightarrow> mac_st" where
  "mac_insert s = mac_place_insert (insert_ip_checksum (me_insert s)) s"

definition mac_arp :: "mac_cfg \<Rightarrow> mac_st \<Rightarrow> mac_st" where
  "mac_arp c s = mac_place_arp (handle_arp_reply (mc_myMacAddress c) (me_arp s)) s"

definition mac_shift :: "mac_st \<Rightarrow> mac_st" where
  "mac_shift s = mac_place_shift (mac_lshiftWordByOctet eth_gap (me_shift s)) s"

definition mac_ethernet :: "mac_cfg \<Rightarrow> mac_st \<Rightarrow> mac_st" where
  "mac_ethernet c s = s\<lparr>me_ethernet := insert_ethernet_header (mc_word c) (me_ethernet s)\<rparr>"

definition mac_ip_encode_core :: "mac_cfg \<Rightarrow> mac_st \<Rightarrow> mac_st" where
  "mac_ip_encode_core c s =
     mac_ethernet c (mac_shift (mac_arp c (mac_insert (mac_finalize (mac_compute (mac_extract c s))))))"

section \<open>The module is determinate\<close>

lemma compute_512_mono:
  assumes "compute_ipv4_checksum_512 b a \<noteq> a"
  shows "compute_ipv4_checksum_512 b (a\<lparr>c5_dataIn := c5_dataIn a @ x\<rparr>) =
    (let r = compute_ipv4_checksum_512 b a in r\<lparr>c5_dataIn := c5_dataIn r @ x\<rparr>)"
  using assms by (cases a; cases "c5_dataIn a") (simp_all add: compute_ipv4_checksum_512_def Let_def)

lemma compute_512_frame:
  "compute_ipv4_checksum_512 b (a\<lparr>c5_dataOut := x, c5_subSumFiFoOut := y\<rparr>) =
    (let r = compute_ipv4_checksum_512 b (a\<lparr>c5_dataOut := [], c5_subSumFiFoOut := []\<rparr>)
     in r\<lparr>c5_dataOut := x @ c5_dataOut r, c5_subSumFiFoOut := y @ c5_subSumFiFoOut r\<rparr>)"
  by (cases a; cases "c5_dataIn a") (simp_all add: compute_ipv4_checksum_512_def Let_def)

lemma finalize_busy: "mac_finalize_ipv4_checksum a = a \<longleftrightarrow> fst a = []"
  by (cases a; cases "fst a") (simp_all add: mac_finalize_ipv4_checksum_def)

lemma finalize_mono:
  assumes "fst a \<noteq> []"
  shows "mac_finalize_ipv4_checksum (fst a @ x, snd a) =
    (fst (mac_finalize_ipv4_checksum a) @ x, snd (mac_finalize_ipv4_checksum a))"
  using assms by (cases a; cases "fst a") (simp_all add: mac_finalize_ipv4_checksum_def)

lemma finalize_frame:
  "mac_finalize_ipv4_checksum (i, x) =
    (fst (mac_finalize_ipv4_checksum (i, [])), x @ snd (mac_finalize_ipv4_checksum (i, [])))"
  by (cases i) (simp_all add: mac_finalize_ipv4_checksum_def)

lemma extract_frame:
  "extract_ip_address m g (a\<lparr>eia_out := x\<rparr>) =
    (let r = extract_ip_address m g (a\<lparr>eia_out := []\<rparr>) in r\<lparr>eia_out := x @ eia_out r\<rparr>)"
  by (cases a; cases "eia_in a") (simp_all add: extract_ip_address_def Let_def)

lemma insert_mono:
  assumes "insert_ip_checksum a \<noteq> a"
  shows "insert_ip_checksum (a\<lparr>iic_in := iic_in a @ x\<rparr>) = (let r = insert_ip_checksum a in r\<lparr>iic_in := iic_in r @ x\<rparr>)"
    and "insert_ip_checksum (a\<lparr>iic_checksumFifo := iic_checksumFifo a @ y\<rparr>) =
      (let r = insert_ip_checksum a in r\<lparr>iic_checksumFifo := iic_checksumFifo r @ y\<rparr>)"
  using assms
  by (cases a; cases "iic_in a"; cases "iic_checksumFifo a"; cases "iic_wordCount a = 0"; cases "iic_wordCount a = 1";
      simp add: insert_ip_checksum_def Let_def)+

lemma insert_frame:
  "insert_ip_checksum (a\<lparr>iic_out := x\<rparr>) = (let r = insert_ip_checksum (a\<lparr>iic_out := []\<rparr>) in r\<lparr>iic_out := x @ iic_out r\<rparr>)"
  by (cases a; cases "iic_in a") (simp_all add: insert_ip_checksum_def Let_def)

lemma arp_mono:
  assumes "handle_arp_reply c a \<noteq> a"
  shows "handle_arp_reply c (a\<lparr>har_in := har_in a @ x\<rparr>) = (let r = handle_arp_reply c a in r\<lparr>har_in := har_in r @ x\<rparr>)"
  using assms
  by (cases a; cases "har_in a"; cases "har_state a") (simp_all add: handle_arp_reply_def Let_def)

lemma arp_frame:
  "handle_arp_reply c (a\<lparr>har_headerOut := x, har_out := y\<rparr>) =
    (let r = handle_arp_reply c (a\<lparr>har_headerOut := [], har_out := []\<rparr>)
     in r\<lparr>har_headerOut := x @ har_headerOut r, har_out := y @ har_out r\<rparr>)"
  by (cases a; cases "har_in a"; cases "har_state a") (simp_all add: handle_arp_reply_def Let_def)

lemma lshift_mono:
  assumes "lshiftWordByOctet n a \<noteq> a"
  shows "lshiftWordByOctet n (a\<lparr>ls_input := ls_input a @ x\<rparr>) = (let r = lshiftWordByOctet n a in r\<lparr>ls_input := ls_input r @ x\<rparr>)"
  using assms by (cases a; cases "ls_input a"; cases "ls_writeRemainder a") (simp_all add: lshiftWordByOctet_def Let_def)

lemma ethernet_mono:
  fixes u :: "'w::len word" and a :: "('w, 'k::len) axis ieh_st"
  assumes "insert_ethernet_header u a \<noteq> a"
  shows "insert_ethernet_header u (a\<lparr>ieh_headerIn := ieh_headerIn a @ x\<rparr>) =
      (let r = insert_ethernet_header u a in r\<lparr>ieh_headerIn := ieh_headerIn r @ x\<rparr>)"
    and "insert_ethernet_header u (a\<lparr>ieh_in := ieh_in a @ y\<rparr>) =
      (let r = insert_ethernet_header u a in r\<lparr>ieh_in := ieh_in r @ y\<rparr>)"
  using assms
  by (cases a; cases "ieh_in a"; cases "ieh_headerIn a"; cases "ieh_state a"; cases "ETH_HEADER_SIZE < LENGTH('w)";
      simp add: insert_ethernet_header_def Let_def split_beta not_less)+

text \<open>The same input on both sides can be left out.\<close>

lemma mac_cancel:
  "b\<lparr>c5_dataIn := c5_dataIn b @ x\<rparr> = d\<lparr>c5_dataIn := c5_dataIn d @ x\<rparr> \<longleftrightarrow> b = d"
  by (cases b; cases d) auto

lemma iic_cancel:
  "b\<lparr>iic_in := iic_in b @ x\<rparr> = d\<lparr>iic_in := iic_in d @ x\<rparr> \<longleftrightarrow> b = d"
  "b\<lparr>iic_checksumFifo := iic_checksumFifo b @ y\<rparr> = d\<lparr>iic_checksumFifo := iic_checksumFifo d @ y\<rparr> \<longleftrightarrow> b = d"
  by (cases b; cases d; auto)+

lemma har_cancel: "b\<lparr>har_in := har_in b @ x\<rparr> = d\<lparr>har_in := har_in d @ x\<rparr> \<longleftrightarrow> b = d"
  by (cases b; cases d) auto

lemma ls_cancel: "b\<lparr>ls_input := ls_input b @ x\<rparr> = d\<lparr>ls_input := ls_input d @ x\<rparr> \<longleftrightarrow> b = d"
  by (cases b; cases d) auto

lemma ieh_cancel:
  "b\<lparr>ieh_headerIn := ieh_headerIn b @ x\<rparr> = d\<lparr>ieh_headerIn := ieh_headerIn d @ x\<rparr> \<longleftrightarrow> b = d"
  "b\<lparr>ieh_in := ieh_in b @ y\<rparr> = d\<lparr>ieh_in := ieh_in d @ y\<rparr> \<longleftrightarrow> b = d"
  by (cases b; cases d; auto)+

lemma finalize_cancel: "((fst b @ x, snd b) = (fst d @ x, snd d)) \<longleftrightarrow> b = d"
  by (cases b; cases d) auto

definition mac_processes :: "mac_cfg \<Rightarrow> ((mac_st \<Rightarrow> bool) \<times> (mac_st \<Rightarrow> mac_st)) list" where
  "mac_processes c =
     [(\<lambda>s. extract_ip_address (mc_regSubNetMask c) (mc_regDefaultGateway c) (me_extract s) \<noteq> me_extract s, mac_extract c),
      (\<lambda>s. compute_ipv4_checksum_512 True (me_compute s) \<noteq> me_compute s, mac_compute),
      (\<lambda>s. mac_finalize_ipv4_checksum (me_finalize s) \<noteq> me_finalize s, mac_finalize),
      (\<lambda>s. insert_ip_checksum (me_insert s) \<noteq> me_insert s, mac_insert),
      (\<lambda>s. handle_arp_reply (mc_myMacAddress c) (me_arp s) \<noteq> me_arp s, mac_arp c),
      (\<lambda>s. lshiftWordByOctet eth_gap (me_shift s) \<noteq> me_shift s, mac_shift),
      (\<lambda>s. insert_ethernet_header (mc_word c) (me_ethernet s) \<noteq> me_ethernet s, mac_ethernet c)]"

definition mac_ok :: "mac_st \<Rightarrow> bool" where
  "mac_ok s \<longleftrightarrow> eia_out (me_extract s) = [] \<and> c5_dataOut (me_compute s) = [] \<and> c5_subSumFiFoOut (me_compute s) = [] \<and>
     snd (me_finalize s) = [] \<and> iic_out (me_insert s) = [] \<and> har_headerOut (me_arp s) = [] \<and> har_out (me_arp s) = [] \<and>
     ls_output (me_shift s) = []"

lemma mac_region: "mac_ip_encode_core c = region (mac_processes c)"
  by (rule ext) (simp add: mac_ip_encode_core_def region_def mac_processes_def)

lemmas mac_step_defs = mac_extract_def mac_compute_def mac_finalize_def mac_insert_def mac_arp_def mac_shift_def
  mac_ethernet_def mac_place_extract_def mac_place_compute_def mac_place_finalize_def mac_place_insert_def
  mac_place_arp_def mac_place_shift_def mac_compute_ipv4_checksum_def mac_lshiftWordByOctet_def

lemma mac_pairwise: "pairwise_commuting mac_ok (mac_processes c)"
  by (simp add: mac_processes_def commuting_def mac_step_defs compute_512_mono finalize_busy finalize_mono insert_mono arp_mono
      lshift_mono ethernet_mono mac_cancel iic_cancel har_cancel ls_cancel ieh_cancel finalize_cancel Let_def)

end
