(* ===== verification/Mac_Frames.thy ===== *)
theory Mac_Frames
  imports Mac_Ip_Encode
begin

text \<open>
  What \<open>mac_ip_encode\<close> does to the bytes of a datagram.
\<close>

section \<open>The header checksum in the bytes of the packet\<close>

lemma data_bytes_nth:
  fixes ws :: "('w::len, 'k::len) axis list"
  shows "i < length (concat (map cells ws)) \<Longrightarrow> concat (map cells ws) ! i = Some b \<Longrightarrow> data_bytes ws ! i = b"
proof (induction ws arbitrary: i)
  case (Cons w ws)
  then show ?case
    by (cases "i < LENGTH('k)") (auto simp: data_bytes_def nth_append nth_cells split: if_splits)
qed simp

lemma carries_data_bytes:
  fixes ws :: "('w::len, 'k::len) axis list"
  assumes "carries bs ws" "n \<le> length bs"
  shows "take n (data_bytes ws) = take n bs"
proof -
  from assms(1) obtain k where k: "concat (map cells ws) = map Some bs @ replicate k None" by (auto simp: carries_def)
  have "length (concat (map cells ws)) = LENGTH('k) * length ws" by (induction ws) simp_all
  with k assms(2) have l: "n \<le> length (data_bytes ws)" by simp
  show ?thesis
    by (rule nth_equalityI) (use l assms(2) data_bytes_nth [of _ ws] k in \<open>auto simp: nth_append\<close>)
qed

definition put_checksum :: "u16 \<Rightarrow> u8 list \<Rightarrow> u8 list" where
  "put_checksum c bs = bs[10 := bits 15 8 c, 11 := bits 7 0 c]"

lemma length_put_checksum [simp]: "length (put_checksum c bs) = length bs"
  by (simp add: put_checksum_def)

lemma carries_insert_checksum:
  fixes w :: "('w::len, 'k::len) axis"
  assumes w: "LENGTH('w) = 8 * LENGTH('k)" "12 \<le> LENGTH('k)" and c: "carries bs (w # ws)" "12 \<le> length bs"
  shows "carries (put_checksum c bs) (w\<lparr>na_data := put_bits 95 80 (reverse16 c) (na_data w)\<rparr> # ws)" (is "carries _ (?w # ws)")
proof -
  have cw: "take 12 (cells w) = map Some (take 12 bs)"
  proof (cases "ws = []")
    case True
    with c obtain k where "cells w = map Some bs @ replicate k None" by (auto simp: carries_single)
    with c(2) show ?thesis by (simp add: take_map)
  next
    case False
    with c have "cells w = map Some (take (LENGTH('k)) bs)" by (simp add: carries_Cons)
    with w(2) show ?thesis by (simp add: take_map min_def)
  qed
  have byte: "byte i (na_data ?w) = (if i = 10 then bits 15 8 c else if i = 11 then bits 7 0 c else byte i (na_data w))"
    if "i < LENGTH('k)" for i
    by (rule bit_word_eqI) (use w that in \<open>auto simp: bit_byte bit_put_bits bit_reverse16 bit_bits add.commute\<close>)
  have keep: "bit (na_keep w) i" "byte i (na_data w) = bs ! i" if "i < 12" for i
    using arg_cong [OF cw, of "\<lambda>l. l ! i"] that w(2) c(2) by (auto simp: nth_cells split: if_splits)
  have "cells ?w = map Some (put_checksum c (take 12 bs)) @ drop 12 (cells w)"
  proof (rule nth_equalityI)
    fix i assume "i < length (cells ?w)"
    then have i: "i < LENGTH('k)" by simp
    show "cells ?w ! i = (map Some (put_checksum c (take 12 bs)) @ drop 12 (cells w)) ! i"
      using i w(2) c(2) keep [of i] byte [OF i]
      by (auto simp: nth_cells nth_append put_checksum_def nth_list_update)
  qed (use w(2) c(2) in simp)
  then have "carries (put_checksum c (take 12 bs) @ drop 12 bs) (?w # ws)"
    by (rule carries_replace [where n = 12 and xs = "take 12 bs", rotated 4]) (use c w(2) in simp_all)
  then show ?thesis using c(2) by (simp add: put_checksum_def list_update_append1 flip: list_update_append1)
qed

section \<open>One datagram through each process\<close>

definition eia_idle :: "'a eia_st \<Rightarrow> bool" where
  "eia_idle s \<longleftrightarrow> \<not> ph_ready (eia_header s) \<and> ph_idx (eia_header s) = 0 \<and> \<not> eia_metaWritten s"

lemma extract_packet:
  fixes ws :: "('w::len, 'k::len) axis list"
  assumes "160 \<le> LENGTH('w)" "pkt ws" "eia_idle s" "eia_in s = ws @ rest"
  shows "let t = (extract_ip_address m g ^^ length ws) s in eia_idle t \<and> eia_in t = rest \<and> eia_out t = eia_out s @ ws \<and>
    eia_arpTableOut t = eia_arpTableOut s @ [next_hop m g (bits 159 128 (ucast (na_data (hd ws)) :: 160 word))]"
proof -
  define Q where "Q ys xs t \<longleftrightarrow> eia_in t = xs @ rest \<and> eia_out t = eia_out s @ ys \<and>
    eia_arpTableOut t = eia_arpTableOut s @ (if ys = [] then [] else
      [next_hop m g (bits 159 128 (ucast (na_data (hd ws)) :: 160 word))]) \<and>
    (if ys = [] \<or> xs = [] then eia_idle t else ph_ready (eia_header t) \<and> eia_metaWritten t)"
    for ys xs :: "('w, 'k) axis list" and t :: "('w, 'k) axis eia_st"
  have "Q ws [] ((extract_ip_address m g ^^ length ws) s)"
  proof (rule run_packet [OF assms(2)])
    show "Q [] ws s" using assms by (simp add: Q_def)
  next
    fix ys w xs t assume ws: "ws = ys @ w # xs" and last: "na_last w \<longleftrightarrow> xs = []" and q: "Q ys (w # xs) t"
    show "Q (ys @ [w]) xs (extract_ip_address m g t)"
    proof (cases "ys = []")
      case True
      with q assms(1) have "parseWord (na_data w) (eia_header t) =
          (eia_header t)\<lparr>ph_header := ucast (na_data w), ph_ready := True, ph_idx := 1\<rparr>"
        by (intro parseWord_first) (simp_all add: Q_def eia_idle_def)
      with True q last ws show ?thesis
        by (auto simp: Q_def extract_ip_address_def Let_def eia_idle_def getDstAddr_def)
    next
      case False
      with q last ws show ?thesis
        by (auto simp: Q_def extract_ip_address_def Let_def eia_idle_def hd_append)
    qed
  qed
  then show ?thesis using assms(2) by (auto simp: Q_def Let_def pkt_def)
qed

lemma insert_packet:
  fixes ws :: "('w::len, 'k::len) axis list"
  assumes "64 < LENGTH('w)" "pkt (w # ws)" "iic_wordCount s = 0" "iic_in s = w # ws @ rest" "iic_checksumFifo s = c # cs"
  shows "let t = (insert_ip_checksum ^^ Suc (length ws)) s in iic_wordCount t = 0 \<and> iic_in t = rest \<and> iic_checksumFifo t = cs \<and>
    iic_out t = iic_out s @ w\<lparr>na_data := put_bits 95 80 (reverse16 c) (na_data w)\<rparr> # ws"
proof -
  let ?w = "w\<lparr>na_data := put_bits 95 80 (reverse16 c) (na_data w)\<rparr>"
  define Q where "Q ys xs t \<longleftrightarrow> iic_in t = xs @ rest \<and> iic_checksumFifo t = (if ys = [] then c # cs else cs) \<and>
    iic_out t = iic_out s @ (if ys = [] then [] else ?w # tl ys) \<and>
    (if ys = [] \<or> xs = [] then iic_wordCount t = 0 else iic_wordCount t = 1 \<or> iic_wordCount t = 2)"
    for ys xs :: "('w, 'k) axis list" and t :: "('w, 'k) axis iic_st"
  have "Q (w # ws) [] ((insert_ip_checksum ^^ length (w # ws)) s)"
  proof (rule run_packet [OF assms(2)])
    show "Q [] (w # ws) s" using assms by (simp add: Q_def)
  next
    fix ys v xs t assume ws: "w # ws = ys @ v # xs" and last: "na_last v \<longleftrightarrow> xs = []" and q: "Q ys (v # xs) t"
    show "Q (ys @ [v]) xs (insert_ip_checksum t)"
      using q last ws assms(1) by (cases ys) (auto simp: Q_def insert_ip_checksum_def Let_def)
  qed
  then show ?thesis by (simp add: Q_def Let_def)
qed

lemma arp_packet:
  fixes ws :: "('w::len, 'k::len) axis list"
  assumes "pkt ws" "har_state s = HAR_ARP" "har_in s = ws @ rest" "har_arpTableIn s = r # rs"
  shows "let t = (handle_arp_reply mac ^^ length ws) s in har_state t = HAR_ARP \<and> har_in t = rest \<and> har_arpTableIn t = rs \<and>
    har_headerOut t = har_headerOut s @ (if atr_hit r then [har_header (atr_macAddress r) mac] else []) \<and>
    har_out t = har_out s @ (if atr_hit r then ws else [])"
proof -
  define Q where "Q ys xs t \<longleftrightarrow> har_in t = xs @ rest \<and> har_arpTableIn t = (if ys = [] then r # rs else rs) \<and>
    har_headerOut t = har_headerOut s @ (if atr_hit r \<and> ys \<noteq> [] then [har_header (atr_macAddress r) mac] else []) \<and>
    har_out t = har_out s @ (if atr_hit r then ys else []) \<and>
    har_state t = (if ys = [] \<or> xs = [] then HAR_ARP else if atr_hit r then HAR_FWD else HAR_DROP)"
    for ys xs :: "('w, 'k) axis list" and t :: "('w, 'k) axis har_st"
  have "Q ws [] ((handle_arp_reply mac ^^ length ws) s)"
  proof (rule run_packet [OF assms(1)])
    show "Q [] ws s" using assms by (simp add: Q_def)
  next
    fix ys w xs t assume "ws = ys @ w # xs" and last: "na_last w \<longleftrightarrow> xs = []" and q: "Q ys (w # xs) t"
    show "Q (ys @ [w]) xs (handle_arp_reply mac t)"
      using q last by (cases "ys = []"; cases "atr_hit r") (simp_all add: Q_def handle_arp_reply_def Let_def)
  qed
  then show ?thesis using assms(1) by (auto simp: Q_def Let_def pkt_def)
qed

lemma ethernet_packet:
  fixes ws :: "('w::len, 'k::len) axis list"
  assumes w: "LENGTH('w) = 8 * LENGTH('k)" "112 < LENGTH('w)" and c: "carries (replicate 14 0 @ bs) ws"
    and s: "ieh_state s = IEH_PARTIAL_HEADER" "ieh_in s = ws @ rest" "ieh_headerIn s = h # hs" "ph_idx h = 0"
  shows "\<exists>us. let t = (insert_ethernet_header u ^^ length ws) s in ieh_state t = IEH_PARTIAL_HEADER \<and> ieh_in t = rest \<and>
    ieh_headerIn t = hs \<and> ieh_out t = ieh_out s @ us \<and> carries (header_bytes (ph_header h) @ bs) us"
proof -
  have start: "ieh_start TYPE('w) = IEH_PARTIAL_HEADER" using w(2) by (simp add: ieh_start_def ETH_HEADER_SIZE_def)
  obtain x ys where ws: "ws = x # ys" using c by (cases ws) (auto simp: carries_def)
  let ?x = "x\<lparr>na_data := fst (snd (consumeWord h (na_data x)))\<rparr>"
  define Q where "Q zs xs t \<longleftrightarrow> ieh_in t = xs @ rest \<and> ieh_headerIn t = (if zs = [] then h # hs else hs) \<and>
    ieh_out t = ieh_out s @ (if zs = [] then [] else ?x # tl zs) \<and>
    ieh_state t = (if zs = [] \<or> xs = [] then IEH_PARTIAL_HEADER else IEH_BODY)"
    for zs xs :: "('w, 'k) axis list" and t :: "('w, 'k) axis ieh_st"
  have "Q ws [] ((insert_ethernet_header u ^^ length ws) s)"
  proof (rule run_packet [OF carries_pkt [OF c]])
    show "Q [] ws s" using s by (simp add: Q_def)
  next
    fix zs v xs t assume "ws = zs @ v # xs" and last: "na_last v \<longleftrightarrow> xs = []" and q: "Q zs (v # xs) t"
    then show "Q (zs @ [v]) xs (insert_ethernet_header u t)"
      using w(2) ws by (cases zs) (auto simp: Q_def insert_ethernet_header_def Let_def start ETH_HEADER_SIZE_def split: prod.splits)
  qed
  moreover have "carries (header_bytes (ph_header h) @ bs) (?x # ys)"
    by (rule carries_header [where n = 14, OF w(1) _ _ c [unfolded ws] _ consumeWord_first(2) [OF s(4)]]) (use w in simp_all)
  ultimately show ?thesis using ws by (intro exI [of _ "?x # ys"]) (simp add: Q_def Let_def)
qed

section \<open>Datagrams through each process\<close>

text \<open>A datagram that is to be sent (\<^typ>\<open>arrival\<close>): header, payload, words.\<close>

definition ip_bytes :: "arrival \<Rightarrow> u8 list" where "ip_bytes x = header_bytes (fst x) @ fst (snd x)"
definition ip_words :: "arrival \<Rightarrow> word512 list" where "ip_words x = snd (snd x)"
definition ip_destination :: "arrival \<Rightarrow> u32" where "ip_destination x = bits 159 128 (fst x)"
definition ip_header_length :: "arrival \<Rightarrow> nat" where "ip_header_length x = 4 * unat (bits 3 0 (fst x) :: u4)"

definition sendable :: "arrival \<Rightarrow> bool" where
  "sendable x \<longleftrightarrow> carries (ip_bytes x) (ip_words x) \<and> 20 \<le> ip_header_length x \<and> ip_header_length x \<le> length (ip_bytes x)"

text \<open>The sum over the header, with the checksum field skipped or not.\<close>

definition header_sum :: "bool \<Rightarrow> arrival \<Rightarrow> u16" where
  "header_sum skip x = rfc1071 (let bs = take (ip_header_length x) (ip_bytes x) in if skip then bs[10 := 0, 11 := 0] else bs)"

abbreviation ip_checksum :: "arrival \<Rightarrow> u16" where
  "ip_checksum \<equiv> header_sum True"

definition stamped :: "arrival \<Rightarrow> u8 list" where
  "stamped x = put_checksum (ip_checksum x) (ip_bytes x)"

lemma sendable_first:
  assumes "sendable x"
  shows "ucast (na_data (hd (ip_words x))) = fst x"
proof -
  from assms have c: "carries (header_bytes (fst x) @ fst (snd x)) (ip_words x)" by (simp add: sendable_def ip_bytes_def)
  then obtain w ws where w: "ip_words x = w # ws" by (cases "ip_words x") (auto simp: carries_def)
  from carries_header_word [where n = 20, OF _ _ _ c [unfolded w]] w show ?thesis by simp
qed

lemma sendable_pkt: "sendable x \<Longrightarrow> pkt (ip_words x)"
  by (auto simp: sendable_def dest: carries_pkt)

text \<open>The header checksum of what is sent is right: the receiver's sum over it is 0.\<close>

lemma stamped_valid:
  assumes "sendable x"
  shows "rfc1071 (take (ip_header_length x) (stamped x)) = 0"
proof (rule rfc1071_inserted [where c = "ip_checksum x"])
  let ?bs = "take (ip_header_length x) (stamped x)"
  from assms have l: "20 \<le> ip_header_length x" "ip_header_length x \<le> length (ip_bytes x)" by (simp_all add: sendable_def)
  show "?bs ! 10 = bits 15 8 (ip_checksum x)" "?bs ! 11 = bits 7 0 (ip_checksum x)" "12 \<le> length ?bs"
    using l by (simp_all add: stamped_def put_checksum_def)
  have "?bs[10 := 0, 11 := 0] = (take (ip_header_length x) (ip_bytes x))[10 := 0, 11 := 0]"
    using l by (auto simp: stamped_def put_checksum_def take_update_swap list_update_swap [of 10 11] intro!: nth_equalityI
        simp: nth_list_update)
  then show "ip_checksum x = rfc1071 (?bs[10 := 0, 11 := 0])" by (simp add: header_sum_def Let_def)
qed

lemma run_extract:
  fixes s :: "word512 eia_st"
  assumes "\<forall>x\<in>set xs. sendable x" "eia_idle s" "eia_in s = concat (map ip_words xs)"
  shows "\<exists>n. let t = (extract_ip_address m g ^^ n) s in eia_idle t \<and> eia_in t = [] \<and>
    eia_out t = eia_out s @ concat (map ip_words xs) \<and>
    eia_arpTableOut t = eia_arpTableOut s @ map (next_hop m g \<circ> ip_destination) xs"
proof -
  define A where "A xs t \<longleftrightarrow> (\<forall>x\<in>set xs. sendable x) \<and> eia_idle t \<and> eia_in t = concat (map ip_words xs)"
    for xs and t :: "word512 eia_st"
  have "\<exists>n us. A xs ((extract_ip_address m g ^^ n) t) \<and> eia_out ((extract_ip_address m g ^^ n) t) = eia_out t @ us \<and>
      eia_arpTableOut ((extract_ip_address m g ^^ n) t) = eia_arpTableOut t @ [next_hop m g (ip_destination x)] \<and> us = ip_words x"
    if a: "A (x # xs) t" for x xs t
    using extract_packet [of "ip_words x" t "concat (map ip_words xs)" m g] a sendable_pkt [of x] sendable_first [of x]
    by (intro exI [of _ "length (ip_words x)"]) (simp add: A_def Let_def ip_destination_def)
  moreover have "A xs s" using assms by (simp add: A_def)
  ultimately have "\<exists>n uss. A [] ((extract_ip_address m g ^^ n) s) \<and> eia_out ((extract_ip_address m g ^^ n) s) = eia_out s @ concat uss \<and>
      eia_arpTableOut ((extract_ip_address m g ^^ n) s) = eia_arpTableOut s @ concat (map (\<lambda>x. [next_hop m g (ip_destination x)]) xs) \<and>
      list_all2 (\<lambda>x us. us = ip_words x) xs uss"
    by (rule run_relation [where A = A])
  then show ?thesis by (auto simp: A_def Let_def relates_map comp_def)
qed

lemma run_compute:
  fixes s :: "word512 cics512_st"
  assumes "\<forall>x\<in>set xs. sendable x" "c5_ip_sums s = replicate 32 0" "c5_firstWord s" "c5_dataIn s = concat (map ip_words xs)"
  shows "\<exists>n sss. let t = (compute_ipv4_checksum_512 skip ^^ n) s in c5_ip_sums t = replicate 32 0 \<and> c5_firstWord t \<and>
    c5_dataIn t = [] \<and> c5_subSumFiFoOut t = c5_subSumFiFoOut s @ sss \<and> map checksum_of sss = map (header_sum skip) xs \<and>
    c5_dataOut t = c5_dataOut s @ concat (map ip_words xs)"
proof -
  let ?F = "compute_ipv4_checksum_512 skip"
  define A where "A xs t \<longleftrightarrow> (\<forall>x\<in>set xs. sendable x) \<and> c5_ip_sums t = replicate 32 0 \<and> c5_firstWord t \<and>
    c5_dataIn t = concat (map ip_words xs)" for xs and t :: "word512 cics512_st"
  have "\<exists>n us. A xs ((?F ^^ n) t) \<and> c5_subSumFiFoOut ((?F ^^ n) t) = c5_subSumFiFoOut t @ us \<and>
      c5_dataOut ((?F ^^ n) t) = c5_dataOut t @ ip_words x \<and> (\<exists>ss. us = [ss] \<and> checksum_of ss = header_sum skip x)"
    if a: "A (x # xs) t" for x xs t
  proof -
    let ?h = "header_len (ip_words x)"
    from a have x: "sendable x" by (simp add: A_def)
    have "bits 3 0 (na_data (hd (ip_words x))) = (bits 3 0 (fst x) :: u4)"
      unfolding sendable_first [OF x, symmetric] by (rule bit_word_eqI) (simp add: bit_bits bit_ucast_iff)
    then have h: "4 * ?h = ip_header_length x" by (simp add: header_len_def ip_header_length_def)
    have "packet_words (ip_words x)" using sendable_pkt [OF x] by (simp add: packet_words_def pkt_def)
    moreover have "3 \<le> ?h" using x h by (simp add: sendable_def)
    ultimately obtain ss where ss: "(?F ^^ length (ip_words x)) t = t\<lparr>c5_ipHeaderLen := bits 3 0 (na_data (hd (ip_words x))),
        c5_dataIn := concat (map ip_words xs), c5_dataOut := c5_dataOut t @ ip_words x, c5_subSumFiFoOut := c5_subSumFiFoOut t @ [ss]\<rparr>"
      "checksum_of ss = rfc1071 (ip_header_bytes skip ?h (ip_words x))"
      using compute_512_packet [of "ip_words x" t "concat (map ip_words xs)" ?h skip] a by (auto simp: A_def)
    have "ip_header_bytes skip ?h (ip_words x) =
        (let bs = take (ip_header_length x) (ip_bytes x) in if skip then bs[10 := 0, 11 := 0] else bs)"
      using x h carries_data_bytes [of "ip_bytes x" "ip_words x" "ip_header_length x"] by (simp add: ip_header_bytes_def sendable_def Let_def)
    with ss a show ?thesis
      by (intro exI [of _ "length (ip_words x)"] exI [of _ "[ss]"]) (simp add: A_def header_sum_def)
  qed
  moreover have "A xs s" using assms by (simp add: A_def)
  ultimately have "\<exists>n uss. A [] ((?F ^^ n) s) \<and> c5_subSumFiFoOut ((?F ^^ n) s) = c5_subSumFiFoOut s @ concat uss \<and>
      c5_dataOut ((?F ^^ n) s) = c5_dataOut s @ concat (map ip_words xs) \<and>
      list_all2 (\<lambda>x us. \<exists>ss. us = [ss] \<and> checksum_of ss = header_sum skip x) xs uss"
    by (rule run_relation [where A = A])
  moreover have "list_all2 (\<lambda>x us. \<exists>ss. us = [ss] \<and> checksum_of ss = header_sum skip x) xs uss \<Longrightarrow>
      map checksum_of (concat uss) = map (header_sum skip) xs" for uss
    by (induction xs arbitrary: uss) (auto simp: list_all2_Cons1)
  ultimately show ?thesis unfolding A_def Let_def by auto
qed

lemma run_finalize:
  "(mac_finalize_ipv4_checksum ^^ length ss) (ss @ r, o1) = (r, o1 @ map checksum_of ss)"
  by (induction ss arbitrary: o1)
    (simp_all add: mac_finalize_ipv4_checksum_def funpow_Suc_right del: funpow.simps(2))

lemma run_insert:
  fixes s :: "word512 iic_st"
  assumes "\<forall>x\<in>set xs. sendable x" "iic_wordCount s = 0" "iic_in s = concat (map ip_words xs)" "iic_checksumFifo s = map ip_checksum xs"
  shows "\<exists>n uss. let t = (insert_ip_checksum ^^ n) s in iic_wordCount t = 0 \<and> iic_in t = [] \<and> iic_checksumFifo t = [] \<and>
    iic_out t = iic_out s @ concat uss \<and> list_all2 (\<lambda>x us. carries (stamped x) us) xs uss"
proof -
  define A where "A xs t \<longleftrightarrow> (\<forall>x\<in>set xs. sendable x) \<and> iic_wordCount t = 0 \<and> iic_in t = concat (map ip_words xs) \<and>
    iic_checksumFifo t = map ip_checksum xs" for xs and t :: "word512 iic_st"
  have "\<exists>n us. A xs ((insert_ip_checksum ^^ n) t) \<and> iic_out ((insert_ip_checksum ^^ n) t) = iic_out t @ us \<and>
      [] = [] @ [] \<and> carries (stamped x) us" if a: "A (x # xs) t" for x xs t
  proof -
    from a have x: "sendable x" by (simp add: A_def)
    then obtain w ws where w: "ip_words x = w # ws" by (cases "ip_words x") (auto simp: sendable_def carries_def)
    let ?us = "w\<lparr>na_data := put_bits 95 80 (reverse16 (ip_checksum x)) (na_data w)\<rparr> # ws"
    have "carries (stamped x) ?us"
      unfolding stamped_def by (rule carries_insert_checksum) (use x w in \<open>auto simp: sendable_def\<close>)
    moreover have "let r = (insert_ip_checksum ^^ Suc (length ws)) t in iic_wordCount r = 0 \<and>
        iic_in r = concat (map ip_words xs) \<and> iic_checksumFifo r = map ip_checksum xs \<and> iic_out r = iic_out t @ ?us"
      by (rule insert_packet) (use a w sendable_pkt [OF x] in \<open>simp_all add: A_def\<close>)
    ultimately show ?thesis using a
      by (intro exI [of _ "Suc (length ws)"] exI [of _ ?us]) (simp add: A_def Let_def)
  qed
  moreover have "A xs s" using assms by (simp add: A_def)
  ultimately have "\<exists>n uss. A [] ((insert_ip_checksum ^^ n) s) \<and> iic_out ((insert_ip_checksum ^^ n) s) = iic_out s @ concat uss \<and>
      [] = [] @ concat (map (\<lambda>_. []) xs) \<and> list_all2 (\<lambda>x us. carries (stamped x) us) xs uss"
    by (rule run_relation [where A = A and log = "\<lambda>_. []"])
  then show ?thesis by (auto simp: A_def Let_def)
qed

text \<open>Behind the checksum, a packet is given by its bytes and its words; \<open>addressed\<close> adds the answer of
  the ARP server.\<close>

type_synonym addressed = "(u8 list \<times> word512 list) \<times> arpTableReply"

lemma run_arp:
  fixes s :: "word512 har_st" and xs :: "addressed list"
  assumes "\<forall>x\<in>set xs. pkt (snd (fst x))" "har_state s = HAR_ARP" "har_in s = concat (map (snd \<circ> fst) xs)" "har_arpTableIn s = map snd xs"
  shows "\<exists>n. let t = (handle_arp_reply mac ^^ n) s; hits = filter (atr_hit \<circ> snd) xs in har_state t = HAR_ARP \<and> har_in t = [] \<and>
    har_arpTableIn t = [] \<and> har_out t = har_out s @ concat (map (snd \<circ> fst) hits) \<and>
    har_headerOut t = har_headerOut s @ map (\<lambda>x. har_header (atr_macAddress (snd x)) mac) hits"
proof -
  let ?F = "handle_arp_reply mac"
  define A where "A xs t \<longleftrightarrow> (\<forall>x\<in>set xs. pkt (snd (fst x))) \<and> har_state t = HAR_ARP \<and> har_in t = concat (map (snd \<circ> fst) xs) \<and>
    har_arpTableIn t = map snd xs" for xs :: "addressed list" and t :: "word512 har_st"
  let ?g = "\<lambda>x. if atr_hit (snd x) then [har_header (atr_macAddress (snd x)) mac] else []"
  have "\<exists>n us. A xs ((?F ^^ n) t) \<and> har_out ((?F ^^ n) t) = har_out t @ us \<and> har_headerOut ((?F ^^ n) t) = har_headerOut t @ ?g x \<and>
      us = (if atr_hit (snd x) then snd (fst x) else [])" if a: "A (x # xs) t" for x xs t
    using arp_packet [of "snd (fst x)" t "concat (map (snd \<circ> fst) xs)" "snd x" "map snd xs" mac] a
    by (intro exI [of _ "length (snd (fst x))"]) (simp add: A_def Let_def)
  moreover have "A xs s" using assms by (simp add: A_def)
  ultimately have "\<exists>n uss. A [] ((?F ^^ n) s) \<and> har_out ((?F ^^ n) s) = har_out s @ concat uss \<and>
      har_headerOut ((?F ^^ n) s) = har_headerOut s @ concat (map ?g xs) \<and>
      list_all2 (\<lambda>x us. us = (if atr_hit (snd x) then snd (fst x) else [])) xs uss"
    by (rule run_relation [where A = A])
  moreover have "concat (map (\<lambda>x. if P x then h x else []) xs) = concat (map h (filter P xs))"
    "concat (map (\<lambda>x. if P x then [k x] else []) xs) = map k (filter P xs)" for P and h :: "addressed \<Rightarrow> word512 list" and k :: "addressed \<Rightarrow> ethHeader" and xs :: "addressed list"
    by (induction xs) simp_all
  ultimately show ?thesis by (auto simp: A_def Let_def relates_map comp_def)
qed

lemma run_shift:
  fixes s :: "word512 lshift_st" and xs :: "addressed list"
  assumes "\<forall>x\<in>set xs. carries (fst (fst x)) (snd (fst x))" "ls_idle s" "ls_input s = concat (map (snd \<circ> fst) xs)"
  shows "\<exists>n uss. let t = (lshiftWordByOctet 14 ^^ n) s in ls_idle t \<and> ls_input t = [] \<and> ls_output t = ls_output s @ concat uss \<and>
    list_all2 (\<lambda>x us. carries (replicate 14 0 @ fst (fst x)) us) xs uss"
proof -
  let ?F = "lshiftWordByOctet 14"
  define A where "A xs t \<longleftrightarrow> (\<forall>x\<in>set xs. carries (fst (fst x)) (snd (fst x))) \<and> ls_idle t \<and> ls_input t = concat (map (snd \<circ> fst) xs)"
    for xs :: "addressed list" and t :: "word512 lshift_st"
  have "\<exists>n us. A xs ((?F ^^ n) t) \<and> ls_output ((?F ^^ n) t) = ls_output t @ us \<and> [] = [] @ [] \<and>
      carries (replicate 14 0 @ fst (fst x)) us" if a: "A (x # xs) t" for x xs t
  proof -
    have "\<exists>n vs. n \<le> length (snd (fst x)) + 1 \<and> ls_idle ((?F ^^ n) t) \<and> ls_input ((?F ^^ n) t) = concat (map (snd \<circ> fst) xs) \<and>
        ls_output ((?F ^^ n) t) = ls_output t @ vs \<and> carries (replicate 14 0 @ fst (fst x)) vs"
      by (rule lshift_packet [where ws = "snd (fst x)"]) (use a in \<open>simp_all add: A_def\<close>)
    with a show ?thesis by (auto simp: A_def)
  qed
  moreover have "A xs s" using assms by (simp add: A_def)
  ultimately have "\<exists>n uss. A [] ((?F ^^ n) s) \<and> ls_output ((?F ^^ n) s) = ls_output s @ concat uss \<and>
      [] = [] @ concat (map (\<lambda>_. []) xs) \<and> list_all2 (\<lambda>x us. carries (replicate 14 0 @ fst (fst x)) us) xs uss"
    by (rule run_relation [where A = A and log = "\<lambda>_. []"])
  then show ?thesis by (auto simp: A_def Let_def)
qed

lemma run_ethernet:
  fixes s :: "word512 ieh_st" and xs :: "(addressed \<times> word512 list) list"
  assumes "\<forall>x\<in>set xs. carries (replicate 14 0 @ fst (fst (fst x))) (snd x)" "ieh_state s = IEH_PARTIAL_HEADER"
    "ieh_in s = concat (map snd xs)" "ieh_headerIn s = map (\<lambda>x. har_header (atr_macAddress (snd (fst x))) mac) xs"
  shows "\<exists>n uss. let t = (insert_ethernet_header u ^^ n) s in ieh_state t = IEH_PARTIAL_HEADER \<and> ieh_in t = [] \<and>
    ieh_headerIn t = [] \<and> ieh_out t = ieh_out s @ concat uss \<and>
    list_all2 (\<lambda>x us. carries (header_bytes (ph_header (har_header (atr_macAddress (snd (fst x))) mac)) @ fst (fst (fst x))) us) xs uss"
proof -
  let ?F = "insert_ethernet_header u" and ?h = "\<lambda>x. har_header (atr_macAddress (snd (fst x))) mac"
  define A where "A xs t \<longleftrightarrow> (\<forall>x\<in>set xs. carries (replicate 14 0 @ fst (fst (fst x))) (snd x)) \<and>
    ieh_state t = IEH_PARTIAL_HEADER \<and> ieh_in t = concat (map snd xs) \<and> ieh_headerIn t = map ?h xs"
    for xs :: "(addressed \<times> word512 list) list" and t :: "word512 ieh_st"
  have "\<exists>n us. A xs ((?F ^^ n) t) \<and> ieh_out ((?F ^^ n) t) = ieh_out t @ us \<and> [] = [] @ [] \<and>
      carries (header_bytes (ph_header (?h x)) @ fst (fst (fst x))) us" if a: "A (x # xs) t" for x xs t
  proof -
    have "\<exists>us. let r = (?F ^^ length (snd x)) t in ieh_state r = IEH_PARTIAL_HEADER \<and> ieh_in r = concat (map snd xs) \<and>
        ieh_headerIn r = map ?h xs \<and> ieh_out r = ieh_out t @ us \<and> carries (header_bytes (ph_header (?h x)) @ fst (fst (fst x))) us"
      by (rule ethernet_packet) (use a in \<open>simp_all add: A_def har_header_def setEthertype_def setSrcAddress_def setDstAddress_def\<close>)
    with a show ?thesis by (auto simp: A_def Let_def)
  qed
  moreover have "A xs s" using assms by (simp add: A_def)
  ultimately have "\<exists>n uss. A [] ((?F ^^ n) s) \<and> ieh_out ((?F ^^ n) s) = ieh_out s @ concat uss \<and>
      [] = [] @ concat (map (\<lambda>_. []) xs) \<and>
      list_all2 (\<lambda>x us. carries (header_bytes (ph_header (?h x)) @ fst (fst (fst x))) us) xs uss"
    by (rule run_relation [where A = A and log = "\<lambda>_. []"])
  then show ?thesis by (auto simp: A_def Let_def)
qed

section \<open>The frames on the wire\<close>

definition eth_bytes :: "u48 \<Rightarrow> u48 \<Rightarrow> u8 list" where
  "eth_bytes dst src = map (\<lambda>i. byte i dst) [0..<6] @ map (\<lambda>i. byte i src) [0..<6] @ [8, 0]"

lemma header_bytes_har: "header_bytes (ph_header (har_header dst src)) = eth_bytes dst src"
proof (rule nth_equalityI)
  fix i assume "i < length (header_bytes (ph_header (har_header dst src)))"
  then have i: "i < 14" by simp
  have c: "bit (0x0800 :: int) n \<longleftrightarrow> n = 11" "bit (8 :: int) n \<longleftrightarrow> n = 3" for n
    using bit_exp_iff [where 'a = int, of 11 n] bit_exp_iff [where 'a = int, of 3 n] by auto
  have "byte i (ph_header (har_header dst src)) = (if i < 6 then byte i dst else if i < 12 then byte (i - 6) src
      else if i = 12 then 8 else 0)"
  proof (rule bit_word_eqI)
    fix n assume n: "n < LENGTH(8)"
    have "i < 6 \<or> (\<exists>j. i = j + 6 \<and> j < 6) \<or> i = 12 \<or> i = 13"
    proof (cases "6 \<le> i \<and> i < 12")
      case True
      then have "i = (i - 6) + 6 \<and> i - 6 < 6" by arith
      then show ?thesis by blast
    qed (use i in auto)
    with n show "bit (byte i (ph_header (har_header dst src))) n = bit (if i < 6 then byte i dst
        else if i < 12 then byte (i - 6) src else if i = 12 then 8 else 0) n"
      by (elim disjE) (auto simp: bit_byte har_header_def setEthertype_def setSrcAddress_def setDstAddress_def bit_put_bits
        bit_reverse16 c)
  qed
  with i show "header_bytes (ph_header (har_header dst src)) ! i = eth_bytes dst src ! i"
    by (auto simp: header_bytes_def eth_bytes_def nth_append nth_Cons')
qed (simp add: eth_bytes_def)

lemma fst_only: "snd z = [] \<Longrightarrow> (fst z, []) = z"
  by (cases z) simp

interpretation mac: dataflow mac_ok "mac_processes c" for c
proof (unfold_locales, goal_cases)
  case (1 p s)
  then show ?case by (auto simp: mac_processes_def mac_ok_def mac_step_defs)
next
  case (2 p s)
  then show ?case by (auto simp: mac_processes_def mac_ok_def mac_step_defs fst_only)
qed (rule mac_pairwise)

definition mac_idle :: "mac_st \<Rightarrow> bool" where
  "mac_idle s \<longleftrightarrow> mac_ok s \<and> eia_idle (me_extract s) \<and> eia_in (me_extract s) = [] \<and>
     c5_ip_sums (me_compute s) = replicate 32 0 \<and> c5_firstWord (me_compute s) \<and> c5_dataIn (me_compute s) = [] \<and>
     fst (me_finalize s) = [] \<and> iic_wordCount (me_insert s) = 0 \<and> iic_in (me_insert s) = [] \<and> iic_checksumFifo (me_insert s) = [] \<and>
     har_state (me_arp s) = HAR_ARP \<and> har_in (me_arp s) = [] \<and> har_arpTableIn (me_arp s) = [] \<and>
     ls_idle (me_shift s) \<and> ls_input (me_shift s) = [] \<and>
     ieh_state (me_ethernet s) = IEH_PARTIAL_HEADER \<and> ieh_in (me_ethernet s) = [] \<and> ieh_headerIn (me_ethernet s) = []"

lemma mac_idle_quiet: "mac_idle s \<Longrightarrow> quiet (mac_processes c) s"
  by (simp add: quiet_def mac_processes_def mac_idle_def extract_ip_address_def compute_ipv4_checksum_512_def finalize_busy
      insert_ip_checksum_def handle_arp_reply_def lshiftWordByOctet_def ls_idle_def insert_ethernet_header_def)

lemma mac_extract_run:
  assumes "mac_ok s"
  shows "(mac_extract c ^^ n) s =
    mac_place_extract ((extract_ip_address (mc_regSubNetMask c) (mc_regDefaultGateway c) ^^ n) (me_extract s)) s"
proof (rule placed_run [where clr = "\<lambda>a. a\<lparr>eia_out := []\<rparr>"])
  let ?F = "extract_ip_address (mc_regSubNetMask c) (mc_regDefaultGateway c)"
  fix a s
  show "mac_place_extract (?F (a\<lparr>eia_out := []\<rparr>)) (mac_place_extract a s) = mac_place_extract (?F a) s"
    using extract_frame [where a = a and x = "eia_out a" and m = "mc_regSubNetMask c" and g = "mc_regDefaultGateway c"]
    by (simp add: mac_place_extract_def Let_def)
qed (use assms in \<open>simp_all add: mac_extract_def mac_place_extract_def mac_ok_def\<close>)

lemma mac_compute_run:
  assumes "mac_ok s"
  shows "(mac_compute ^^ n) s = mac_place_compute ((compute_ipv4_checksum_512 True ^^ n) (me_compute s)) s"
proof (rule placed_run [where clr = "\<lambda>a. a\<lparr>c5_dataOut := [], c5_subSumFiFoOut := []\<rparr>"])
  let ?F = "compute_ipv4_checksum_512 True :: word512 cics512_st \<Rightarrow> word512 cics512_st"
  fix a s
  show "mac_place_compute (?F (a\<lparr>c5_dataOut := [], c5_subSumFiFoOut := []\<rparr>)) (mac_place_compute a s) = mac_place_compute (?F a) s"
    using compute_512_frame [where a = a and x = "c5_dataOut a" and y = "c5_subSumFiFoOut a" and b = True]
    by (simp add: mac_place_compute_def Let_def)
qed (use assms in \<open>simp_all add: mac_compute_def mac_place_compute_def mac_ok_def mac_compute_ipv4_checksum_def fst_only\<close>)

lemma mac_finalize_run:
  assumes "mac_ok s"
  shows "(mac_finalize ^^ n) s = mac_place_finalize ((mac_finalize_ipv4_checksum ^^ n) (me_finalize s)) s"
proof (rule placed_run [where clr = "\<lambda>a. (fst a, [])"])
  fix a s
  show "mac_place_finalize (mac_finalize_ipv4_checksum (fst a, [])) (mac_place_finalize a s) =
      mac_place_finalize (mac_finalize_ipv4_checksum a) s"
    using finalize_frame [of "fst a" "snd a"] by (simp add: mac_place_finalize_def)
qed (use assms in \<open>simp_all add: mac_finalize_def mac_place_finalize_def mac_ok_def fst_only\<close>)

lemma mac_insert_run:
  assumes "mac_ok s"
  shows "(mac_insert ^^ n) s = mac_place_insert ((insert_ip_checksum ^^ n) (me_insert s)) s"
proof (rule placed_run [where clr = "\<lambda>a. a\<lparr>iic_out := []\<rparr>"])
  fix a s
  show "mac_place_insert (insert_ip_checksum (a\<lparr>iic_out := []\<rparr>)) (mac_place_insert a s) = mac_place_insert (insert_ip_checksum a) s"
    using insert_frame [where a = a and x = "iic_out a"] by (simp add: mac_place_insert_def Let_def)
qed (use assms in \<open>simp_all add: mac_insert_def mac_place_insert_def mac_ok_def\<close>)

lemma mac_arp_run:
  assumes "mac_ok s"
  shows "(mac_arp c ^^ n) s = mac_place_arp ((handle_arp_reply (mc_myMacAddress c) ^^ n) (me_arp s)) s"
proof (rule placed_run [where clr = "\<lambda>a. a\<lparr>har_headerOut := [], har_out := []\<rparr>"])
  let ?F = "handle_arp_reply (mc_myMacAddress c) :: word512 har_st \<Rightarrow> word512 har_st"
  fix a s
  show "mac_place_arp (?F (a\<lparr>har_headerOut := [], har_out := []\<rparr>)) (mac_place_arp a s) = mac_place_arp (?F a) s"
    using arp_frame [where a = a and x = "har_headerOut a" and y = "har_out a" and c = "mc_myMacAddress c"]
    by (simp add: mac_place_arp_def Let_def)
qed (use assms in \<open>simp_all add: mac_arp_def mac_place_arp_def mac_ok_def\<close>)

lemma eth_gap [simp]: "eth_gap = 14"
  by (simp add: eth_gap_def ETH_HEADER_SIZE_def)

lemma mac_shift_run:
  assumes "mac_ok s"
  shows "(mac_shift ^^ n) s = mac_place_shift ((lshiftWordByOctet 14 ^^ n) (me_shift s)) s"
proof (rule placed_run [where clr = "\<lambda>a. a\<lparr>ls_output := []\<rparr>"])
  let ?F = "lshiftWordByOctet 14 :: word512 lshift_st \<Rightarrow> word512 lshift_st"
  fix a s
  show "mac_place_shift (?F (a\<lparr>ls_output := []\<rparr>)) (mac_place_shift a s) = mac_place_shift (?F a) s"
    using lshift_frame [where a = a and x = "ls_output a" and m = 14] by (simp add: mac_place_shift_def Let_def)
qed (use assms in \<open>simp_all add: mac_shift_def mac_place_shift_def mac_ok_def mac_lshiftWordByOctet_def\<close>)

lemma mac_ethernet_run:
  "(mac_ethernet c ^^ n) s = s\<lparr>me_ethernet := (insert_ethernet_header (mc_word c) ^^ n) (me_ethernet s)\<rparr>"
  by (rule placed_run [where clr = "\<lambda>a. a" and P = "\<lambda>a s. s\<lparr>me_ethernet := a\<rparr>"]) (simp_all add: mac_ethernet_def)

text \<open>The first half, up to the checksum.\<close>

lemma mac_front:
  fixes rs :: "arpTableReply list" and xs :: "arrival list"
  assumes s: "mac_idle s" and xs: "\<forall>x\<in>set xs. sendable x"
  defines "s' \<equiv> s\<lparr>me_extract := (me_extract s)\<lparr>eia_in := concat (map ip_words xs)\<rparr>, me_arp := (me_arp s)\<lparr>har_arpTableIn := rs\<rparr>\<rparr>"
  shows "\<exists>fs uss. fst ` set fs \<subseteq> snd ` set (mac_processes c) \<and> list_all2 (\<lambda>x us. carries (stamped x) us) xs uss \<and>
    (let t = schedule fs s' in mac_idle (t\<lparr>me_arp := me_arp s\<rparr>) \<and> me_shift t = me_shift s \<and> me_ethernet t = me_ethernet s \<and>
       me_arp t = (me_arp s)\<lparr>har_arpTableIn := rs, har_in := concat uss\<rparr> \<and> eia_arpTableOut (me_extract t) =
       eia_arpTableOut (me_extract s) @ map (next_hop (mc_regSubNetMask c) (mc_regDefaultGateway c) \<circ> ip_destination) xs)"
proof -
  let ?m = "mc_regSubNetMask c" and ?g = "mc_regDefaultGateway c"
  have i: "mac_ok s'" "eia_idle (me_extract s')" "eia_out (me_extract s') = []"
    using s by (simp_all add: s'_def mac_idle_def mac_ok_def eia_idle_def)
  from run_extract [OF xs i(2), of ?m ?g] obtain n1 where n1: "let t = (extract_ip_address ?m ?g ^^ n1) (me_extract s') in
      eia_idle t \<and> eia_in t = [] \<and> eia_out t = concat (map ip_words xs) \<and>
      eia_arpTableOut t = eia_arpTableOut (me_extract s) @ map (next_hop ?m ?g \<circ> ip_destination) xs"
    using i(3) by (auto simp: s'_def Let_def)
  define t1 where "t1 = (mac_extract c ^^ n1) s'"
  have t1: "t1 = mac_place_extract ((extract_ip_address ?m ?g ^^ n1) (me_extract s')) s'" unfolding t1_def by (rule mac_extract_run [OF i(1)])
  then have c1: "c5_ip_sums (me_compute t1) = replicate 32 0" "c5_firstWord (me_compute t1)" "c5_dataIn (me_compute t1) = concat (map ip_words xs)"
    "mac_ok t1" "c5_dataOut (me_compute t1) = []" "c5_subSumFiFoOut (me_compute t1) = []"
    using n1 s i(1) by (simp_all add: mac_place_extract_def s'_def mac_idle_def mac_ok_def Let_def)
  from run_compute [OF xs c1(1-3), of True] c1(5,6) obtain n2 sss where n2: "let t = (compute_ipv4_checksum_512 True ^^ n2) (me_compute t1) in
      c5_ip_sums t = replicate 32 0 \<and> c5_firstWord t \<and> c5_dataIn t = [] \<and> c5_subSumFiFoOut t = sss \<and>
      map checksum_of sss = map ip_checksum xs \<and> c5_dataOut t = concat (map ip_words xs)" by auto
  define t2 where "t2 = (mac_compute ^^ n2) t1"
  have t2: "t2 = mac_place_compute ((compute_ipv4_checksum_512 True ^^ n2) (me_compute t1)) t1"
    unfolding t2_def by (rule mac_compute_run [OF c1(4)])
  then have c2: "me_finalize t2 = (sss, [])" "mac_ok t2"
    using n2 s c1(4) t1 by (simp_all add: mac_place_compute_def mac_place_extract_def s'_def mac_idle_def mac_ok_def Let_def)
  define t3 where "t3 = (mac_finalize ^^ length sss) t2"
  have t3: "t3 = mac_place_finalize ([], map ip_checksum xs) t2"
    using mac_finalize_run [OF c2(2), of "length sss"] run_finalize [of sss "[]" "[]"] c2(1) n2 by (simp add: t3_def Let_def)
  have c3: "iic_wordCount (me_insert t3) = 0" "iic_in (me_insert t3) = concat (map ip_words xs)"
    "iic_checksumFifo (me_insert t3) = map ip_checksum xs" "mac_ok t3" "iic_out (me_insert t3) = []"
    using t1 t2 t3 n2 s c2 by (simp_all add: mac_place_finalize_def mac_place_compute_def mac_place_extract_def s'_def mac_idle_def mac_ok_def Let_def)
  from run_insert [OF xs c3(1-3)] c3(5) obtain n4 uss where n4: "let t = (insert_ip_checksum ^^ n4) (me_insert t3) in
      iic_wordCount t = 0 \<and> iic_in t = [] \<and> iic_checksumFifo t = [] \<and> iic_out t = concat uss"
    "list_all2 (\<lambda>x us. carries (stamped x) us) xs uss" by (auto simp: Let_def)
  have t4: "(mac_insert ^^ n4) t3 = mac_place_insert ((insert_ip_checksum ^^ n4) (me_insert t3)) t3"
    by (rule mac_insert_run [OF c3(4)])
  let ?fs = "[(mac_extract c, n1), (mac_compute, n2), (mac_finalize, length sss), (mac_insert, n4)]"
  have t: "schedule ?fs s' = mac_place_insert ((insert_ip_checksum ^^ n4) (me_insert t3)) t3"
    by (simp add: t4 flip: t1_def t2_def t3_def)
  note steps = t1 t2 t3 mac_place_insert_def mac_place_finalize_def mac_place_compute_def mac_place_extract_def
  show ?thesis
  proof (intro exI [of _ ?fs] exI [of _ uss] conjI n4(2))
    show "fst ` set ?fs \<subseteq> snd ` set (mac_processes c)" by (auto simp: mac_processes_def)
    have "me_arp (schedule ?fs s') = (me_arp s)\<lparr>har_arpTableIn := rs, har_in := concat uss\<rparr>"
      "me_shift (schedule ?fs s') = me_shift s" "me_ethernet (schedule ?fs s') = me_ethernet s"
      "eia_arpTableOut (me_extract (schedule ?fs s')) = eia_arpTableOut (me_extract s) @ map (next_hop ?m ?g \<circ> ip_destination) xs"
      unfolding t using s n1 n4(1) by (simp_all add: steps s'_def mac_idle_def Let_def)
    moreover have "mac_idle ((schedule ?fs s')\<lparr>me_arp := me_arp s\<rparr>)"
      unfolding t using s n1 n2 n4(1) by (simp add: steps s'_def mac_idle_def mac_ok_def Let_def eia_idle_def)
    ultimately show "let t = schedule ?fs s' in mac_idle (t\<lparr>me_arp := me_arp s\<rparr>) \<and> me_shift t = me_shift s \<and>
        me_ethernet t = me_ethernet s \<and> me_arp t = (me_arp s)\<lparr>har_arpTableIn := rs, har_in := concat uss\<rparr> \<and>
        eia_arpTableOut (me_extract t) = eia_arpTableOut (me_extract s) @ map (next_hop ?m ?g \<circ> ip_destination) xs"
      by (simp add: Let_def)
  qed
qed

text \<open>The second half, with the answers of the ARP server.\<close>

lemma mac_back:
  fixes zs :: "addressed list"
  assumes t: "mac_idle (t\<lparr>me_arp := a\<rparr>)" "me_arp t = a\<lparr>har_arpTableIn := map snd zs, har_in := concat (map (snd \<circ> fst) zs)\<rparr>"
    and zs: "\<forall>z\<in>set zs. carries (fst (fst z)) (snd (fst z))"
  shows "\<exists>fs vss. fst ` set fs \<subseteq> snd ` set (mac_processes c) \<and>
    list_all2 (\<lambda>z us. carries (eth_bytes (atr_macAddress (snd z)) (mc_myMacAddress c) @ fst (fst z)) us) (filter (atr_hit \<circ> snd) zs) vss \<and>
    (let r = schedule fs t in mac_idle r \<and> me_extract r = me_extract t \<and>
       ieh_out (me_ethernet r) = ieh_out (me_ethernet t) @ concat vss)"
proof -
  let ?mac = "mc_myMacAddress c" and ?hits = "filter (atr_hit \<circ> snd) zs"
  have i: "mac_ok t" "har_state (me_arp t) = HAR_ARP" "har_out (me_arp t) = []" "har_headerOut (me_arp t) = []"
    using t by (simp_all add: mac_idle_def mac_ok_def)
  have "\<forall>z\<in>set zs. pkt (snd (fst z))" using zs carries_pkt by blast
  from run_arp [OF this i(2), of ?mac] t(2) i(3,4) obtain n1 where n1: "let r = (handle_arp_reply ?mac ^^ n1) (me_arp t) in
      har_state r = HAR_ARP \<and> har_in r = [] \<and> har_arpTableIn r = [] \<and> har_out r = concat (map (snd \<circ> fst) ?hits) \<and>
      har_headerOut r = map (\<lambda>x. har_header (atr_macAddress (snd x)) ?mac) ?hits" by (auto simp: Let_def)
  define t1 where "t1 = (mac_arp c ^^ n1) t"
  have t1: "t1 = mac_place_arp ((handle_arp_reply ?mac ^^ n1) (me_arp t)) t" unfolding t1_def by (rule mac_arp_run [OF i(1)])
  have c1: "ls_idle (me_shift t1)" "ls_input (me_shift t1) = concat (map (snd \<circ> fst) ?hits)" "mac_ok t1" "ls_output (me_shift t1) = []"
    using n1 t i(1) by (simp_all add: t1 mac_place_arp_def mac_idle_def mac_ok_def Let_def ls_idle_def)
  from run_shift [OF _ c1(1,2)] zs c1(4) obtain n2 uss where n2: "let r = (lshiftWordByOctet 14 ^^ n2) (me_shift t1) in
      ls_idle r \<and> ls_input r = [] \<and> ls_output r = concat uss"
    "list_all2 (\<lambda>x us. carries (replicate 14 0 @ fst (fst x)) us) ?hits uss" by (auto simp: Let_def)
  have l: "length ?hits = length uss" by (rule list_all2_lengthD [OF n2(2)])
  have z: "map snd (zip ?hits uss) = uss" "map (\<lambda>x. har_header (atr_macAddress (snd (fst x))) ?mac) (zip ?hits uss) =
      map (\<lambda>x. har_header (atr_macAddress (snd x)) ?mac) ?hits"
    using l by (auto intro!: nth_equalityI)
  define t2 where "t2 = (mac_shift ^^ n2) t1"
  have t2: "t2 = mac_place_shift ((lshiftWordByOctet 14 ^^ n2) (me_shift t1)) t1"
    unfolding t2_def by (rule mac_shift_run [OF c1(3)])
  have c2: "ieh_state (me_ethernet t2) = IEH_PARTIAL_HEADER" "ieh_in (me_ethernet t2) = concat (map snd (zip ?hits uss))"
    "ieh_headerIn (me_ethernet t2) = map (\<lambda>x. har_header (atr_macAddress (snd (fst x))) ?mac) (zip ?hits uss)"
    "ieh_out (me_ethernet t2) = ieh_out (me_ethernet t)"
    unfolding z using n1 n2 t by (simp_all add: t1 t2 mac_place_arp_def mac_place_shift_def mac_idle_def Let_def)
  have c3: "\<forall>x\<in>set (zip ?hits uss). carries (replicate 14 0 @ fst (fst (fst x))) (snd x)"
    using n2(2) by (auto simp: list_all2_iff)
  from run_ethernet [OF c3 c2(1-3), of "mc_word c"] c2(4) obtain n3 vss where n3:
    "let r = (insert_ethernet_header (mc_word c) ^^ n3) (me_ethernet t2) in ieh_state r = IEH_PARTIAL_HEADER \<and> ieh_in r = [] \<and>
      ieh_headerIn r = [] \<and> ieh_out r = ieh_out (me_ethernet t) @ concat vss"
    "list_all2 (\<lambda>x us. carries (eth_bytes (atr_macAddress (snd (fst x))) ?mac @ fst (fst (fst x))) us) (zip ?hits uss) vss"
    by (auto simp: Let_def header_bytes_har)
  have v: "list_all2 (\<lambda>z us. carries (eth_bytes (atr_macAddress (snd z)) ?mac @ fst (fst z)) us) ?hits vss"
    using n3(2) l list_all2_map1 [of "\<lambda>z us. carries (eth_bytes (atr_macAddress (snd z)) ?mac @ fst (fst z)) us" fst "zip ?hits uss" vss]
    by simp
  let ?fs = "[(mac_arp c, n1), (mac_shift, n2), (mac_ethernet c, n3)]"
  have r: "schedule ?fs t = t2\<lparr>me_ethernet := (insert_ethernet_header (mc_word c) ^^ n3) (me_ethernet t2)\<rparr>"
    by (simp add: mac_ethernet_run flip: t1_def t2_def)
  show ?thesis
  proof (intro exI [of _ ?fs] exI [of _ vss] conjI v)
    show "fst ` set ?fs \<subseteq> snd ` set (mac_processes c)" by (auto simp: mac_processes_def)
    show "let r = schedule ?fs t in mac_idle r \<and> me_extract r = me_extract t \<and>
       ieh_out (me_ethernet r) = ieh_out (me_ethernet t) @ concat vss"
      unfolding r using t n1 n2(1) n3(1)
      by (simp add: t1 t2 mac_place_arp_def mac_place_shift_def mac_idle_def mac_ok_def Let_def ls_idle_def)
  qed
qed

text \<open>C38: frames on the wire.  Any sequence of IPv4 datagrams given to an idle \<open>mac_ip_encode\<close>, with one
  answer of the ARP server for each, leaves in order as Ethernet frames: those whose address was
  found, and no others.  A frame is the MAC address of the answer, the own one, type 0x0800 and the
  datagram, in which the header checksum is the one of RFC 1071, so that the sum over the header is
  0.  For each datagram the address of the next hop is asked for: the destination in the own
  subnet, the gateway otherwise.  All this takes a bounded number of cycles, in which all processes
  work at once.\<close>

theorem mac_ip_encode_frames:
  fixes xs :: "arrival list" and rs :: "arpTableReply list"
  assumes s: "mac_idle s" and xs: "\<forall>x\<in>set xs. sendable x" and rs: "length rs = length xs"
  defines "s' \<equiv> s\<lparr>me_extract := (me_extract s)\<lparr>eia_in := concat (map ip_words xs)\<rparr>, me_arp := (me_arp s)\<lparr>har_arpTableIn := rs\<rparr>\<rparr>"
  shows "\<exists>N vss. list_all2 (\<lambda>(x, r) us. carries (eth_bytes (atr_macAddress r) (mc_myMacAddress c) @ stamped x) us \<and>
        rfc1071 (take (ip_header_length x) (stamped x)) = 0) (filter (atr_hit \<circ> snd) (zip xs rs)) vss \<and>
      (\<forall>k\<ge>N. let t = (mac_ip_encode_core c ^^ k) s' in mac_idle t \<and> ieh_out (me_ethernet t) = ieh_out (me_ethernet s) @ concat vss \<and>
         eia_arpTableOut (me_extract t) = eia_arpTableOut (me_extract s) @
           map (next_hop (mc_regSubNetMask c) (mc_regDefaultGateway c) \<circ> ip_destination) xs)"
proof -
  from mac_front [OF s xs, of c rs] obtain fs uss where f: "fst ` set fs \<subseteq> snd ` set (mac_processes c)"
    "list_all2 (\<lambda>x us. carries (stamped x) us) xs uss" "mac_idle ((schedule fs s')\<lparr>me_arp := me_arp s\<rparr>)"
    "me_ethernet (schedule fs s') = me_ethernet s" "me_arp (schedule fs s') = (me_arp s)\<lparr>har_arpTableIn := rs, har_in := concat uss\<rparr>"
    "eia_arpTableOut (me_extract (schedule fs s')) = eia_arpTableOut (me_extract s) @
       map (next_hop (mc_regSubNetMask c) (mc_regDefaultGateway c) \<circ> ip_destination) xs"
    unfolding s'_def Let_def by blast
  let ?zs = "zip (zip (map stamped xs) uss) rs"
  have l: "length uss = length xs" using list_all2_lengthD [OF f(2)] by simp
  have z: "map snd ?zs = rs" "map (snd \<circ> fst) ?zs = uss" using l rs by (auto intro!: nth_equalityI)
  have "me_arp (schedule fs s') = (me_arp s)\<lparr>har_arpTableIn := map snd ?zs, har_in := concat (map (snd \<circ> fst) ?zs)\<rparr>"
    unfolding z by (rule f(5))
  moreover have "\<forall>z\<in>set ?zs. carries (fst (fst z)) (snd (fst z))"
    using f(2) by (auto simp: list_all2_conv_all_nth set_zip)
  ultimately obtain gs vss where g: "fst ` set gs \<subseteq> snd ` set (mac_processes c)"
    "list_all2 (\<lambda>z us. carries (eth_bytes (atr_macAddress (snd z)) (mc_myMacAddress c) @ fst (fst z)) us) (filter (atr_hit \<circ> snd) ?zs) vss"
    "mac_idle (schedule (fs @ gs) s')" "me_extract (schedule (fs @ gs) s') = me_extract (schedule fs s')"
    "ieh_out (me_ethernet (schedule (fs @ gs) s')) = ieh_out (me_ethernet s) @ concat vss"
    using mac_back [OF f(3), of ?zs c] unfolding Let_def f(4) schedule_append by blast
  have "map (\<lambda>z. (fst (fst z), snd z)) (filter (atr_hit \<circ> snd) ?zs) = map (\<lambda>z. (stamped (fst z), snd z)) (filter (atr_hit \<circ> snd) (zip xs rs))"
    using l rs
  proof (induction xs arbitrary: uss rs)
    case (Cons x xs)
    then show ?case by (cases uss; cases rs) auto
  qed simp
  with list_all2_map1 [of "\<lambda>z us. carries (eth_bytes (atr_macAddress (snd z)) (mc_myMacAddress c) @ fst z) us"
      "\<lambda>z. (fst (fst z), snd z)" "filter (atr_hit \<circ> snd) ?zs" vss] g(2)
  have "list_all2 (\<lambda>z us. carries (eth_bytes (atr_macAddress (snd z)) (mc_myMacAddress c) @ stamped (fst z)) us)
      (filter (atr_hit \<circ> snd) (zip xs rs)) vss" by (simp add: list_all2_map1)
  then have v: "list_all2 (\<lambda>(x, r) us. carries (eth_bytes (atr_macAddress r) (mc_myMacAddress c) @ stamped x) us \<and>
        rfc1071 (take (ip_header_length x) (stamped x)) = 0) (filter (atr_hit \<circ> snd) (zip xs rs)) vss"
    using xs by (auto simp: list_all2_iff stamped_valid split_def dest!: set_zip_leftD)
  have ok: "mac_ok s'" using s by (simp add: s'_def mac_idle_def mac_ok_def)
  have "(mac_ip_encode_core c ^^ k) s' = schedule (fs @ gs) s'" if "sum_list (map snd (fs @ gs)) \<le> k" for k
    unfolding mac_region
    by (rule mac.lockstep [OF ok _ HOL.refl mac_idle_quiet [OF g(3)] that]) (use f(1) g(1) in auto)
  with v g(3-5) f(6) show ?thesis by (intro exI [of _ "sum_list (map snd (fs @ gs))"] exI [of _ vss]) (simp add: Let_def)
qed

definition arrival_ex :: arrival where
  "arrival_ex = (0x0100000A00000000000000000000000000000045, [0x11],
     [\<lparr>na_data = 0x110100000A00000000000000000000000000000045, na_keep = 0x1FFFFF, na_last = True\<rparr>])"

definition mac_reset :: mac_st where
  "mac_reset =
     \<lparr>me_extract = \<lparr>eia_header = ipv4Header_init 0, eia_metaWritten = False, eia_in = [], eia_out = [], eia_arpTableOut = []\<rparr>,
      me_compute = \<lparr>c5_ip_sums = replicate 32 0, c5_ipHeaderLen = 0, c5_firstWord = True, c5_dataIn = [], c5_dataOut = [], c5_subSumFiFoOut = []\<rparr>,
      me_finalize = ([], []),
      me_insert = \<lparr>iic_wordCount = 0, iic_checksum = 0, iic_in = [], iic_checksumFifo = [], iic_out = []\<rparr>,
      me_arp = \<lparr>har_state = HAR_ARP, har_arpTableIn = [], har_in = [], har_headerOut = [], har_out = []\<rparr>,
      me_shift = \<lparr>ls_firstWord = True, ls_writeRemainder = False, ls_prevWord = \<lparr>na_data = 0, na_keep = 0, na_last = False\<rparr>, ls_input = [], ls_output = []\<rparr>,
      me_ethernet = \<lparr>ieh_state = IEH_PARTIAL_HEADER, ieh_header = har_header 0 0, ieh_headerIn = [], ieh_in = [], ieh_out = []\<rparr>\<rparr>"

lemma arrival_ex_sendable: "sendable arrival_ex"
proof -
  have "cells (hd (ip_words arrival_ex)) = map Some (ip_bytes arrival_ex) @ replicate 43 None"
    "ip_words arrival_ex = [hd (ip_words arrival_ex)]" "na_last (hd (ip_words arrival_ex))" by code_simp+
  then have "carries (ip_bytes arrival_ex) (ip_words arrival_ex)"
    using carries_single [of "ip_bytes arrival_ex" "hd (ip_words arrival_ex)"] by auto
  moreover have "ip_header_length arrival_ex = 20" "length (ip_bytes arrival_ex) = 21" by code_simp+
  ultimately show ?thesis by (simp add: sendable_def)
qed

theorem mac_ip_encode_frames_witness:
  defines "c \<equiv> \<lparr>mc_myMacAddress = 0xE59D02350A00, mc_regSubNetMask = 0x00FFFFFF, mc_regDefaultGateway = 0x01D4010B, mc_word = 0\<rparr>"
  shows "\<exists>N us. carries (eth_bytes 0x112233445566 0xE59D02350A00 @ stamped arrival_ex) us \<and>
    ieh_out (me_ethernet ((mac_ip_encode_core c ^^ N) (mac_reset\<lparr>
      me_extract := (me_extract mac_reset)\<lparr>eia_in := ip_words arrival_ex @ ip_words arrival_ex\<rparr>,
      me_arp := (me_arp mac_reset)\<lparr>har_arpTableIn := [\<lparr>atr_macAddress = 0x112233445566, atr_hit = True\<rparr>,
        \<lparr>atr_macAddress = 0, atr_hit = False\<rparr>]\<rparr>\<rparr>))) = us"
proof -
  have "mac_idle mac_reset"
    by (simp add: mac_idle_def mac_ok_def mac_reset_def eia_idle_def ls_idle_def ipv4Header_init_def)
  moreover have "ieh_out (me_ethernet mac_reset) = []" by (simp add: mac_reset_def)
  ultimately show ?thesis
    using mac_ip_encode_frames [of mac_reset "[arrival_ex, arrival_ex]" "[\<lparr>atr_macAddress = 0x112233445566, atr_hit = True\<rparr>,
        \<lparr>atr_macAddress = 0, atr_hit = False\<rparr>]" c] arrival_ex_sendable
    by (fastforce simp: list_all2_Cons1 c_def Let_def)
qed

end
