(* ===== verification/Ip_Handler.thy ===== *)
theory Ip_Handler
  imports Mac_Frames
begin

text \<open>
  \<open>ip_handler.cpp\<close>: the first module behind the wire.  It tells frames apart by their Ethertype,
  removes the Ethernet header, checks the header checksum and the destination of IPv4 datagrams,
  cuts off the padding and hands each datagram to the module of its protocol.  The module exists at
  512 bits only, because the checksum function does.
\<close>

section \<open>The processes\<close>

definition ARP :: u16 where "ARP = 0x0806"
definition IPv4 :: u16 where "IPv4 = 0x0800"
definition IPv6 :: u16 where "IPv6 = 0x86DD"
definition ICMP :: u8 where "ICMP = 0x01"
definition ICMPv6 :: u8 where "ICMPv6 = 0x3a"
definition UDP :: u8 where "UDP = 0x11"
definition TCP :: u8 where "TCP = 0x06"

record 'a dep_st =
  dep_header :: ethHeader
  dep_metaWritten :: bool
  dep_in :: "'a fifo"
  dep_etherType :: "u16 fifo"
  dep_out :: "'a fifo"

definition detect_eth_protocol :: "('w::len, 'k::len) axis dep_st \<Rightarrow> ('w, 'k) axis dep_st" where
  "detect_eth_protocol s =
     (case dep_in s of
        word # rest \<Rightarrow>
          let h = parseWord (na_data word) (dep_header s);
              s = s\<lparr>dep_in := rest, dep_header := h\<rparr>;
              s = (if ph_ready h \<and> \<not> dep_metaWritten s
                   then s\<lparr>dep_etherType := dep_etherType s @ [getEthertype h], dep_metaWritten := True\<rparr> else s);
              s = s\<lparr>dep_out := dep_out s @ [word]\<rparr>
          in if na_last word then s\<lparr>dep_header := clear_header h, dep_metaWritten := False\<rparr> else s
      | [] \<Rightarrow> s)"

record 'a rep_st =
  rep_fsmState :: "1 word"
  rep_etherType :: u16
  rep_etherTypeIn :: "u16 fifo"
  rep_in :: "'a fifo"
  rep_ARP :: "'a fifo"
  rep_IP :: "'a fifo"
  rep_IPv6 :: "'a fifo"

definition route_by_eth_protocol :: "('w::len, 'k::len) axis rep_st \<Rightarrow> ('w, 'k) axis rep_st" where
  "route_by_eth_protocol s =
     (if rep_fsmState s = 0 then
        if rep_etherTypeIn s \<noteq> [] \<and> rep_in s \<noteq> [] then
          let ty = hd (rep_etherTypeIn s); word = hd (rep_in s);
              s = s\<lparr>rep_etherType := ty, rep_etherTypeIn := tl (rep_etherTypeIn s), rep_in := tl (rep_in s)\<rparr>;
              s = (if ty = ARP then s\<lparr>rep_ARP := rep_ARP s @ [word]\<rparr>
                   else if ty = IPv4 \<and> LENGTH('w) > 64 then s\<lparr>rep_IP := rep_IP s @ [word]\<rparr>
                   else if ty = IPv6 \<and> LENGTH('w) > 64 then s\<lparr>rep_IPv6 := rep_IPv6 s @ [word]\<rparr>
                   else s)
          in if \<not> na_last word then s\<lparr>rep_fsmState := 1\<rparr> else s
        else s
      else
        (case rep_in s of
           word # rest \<Rightarrow>
             let s = s\<lparr>rep_in := rest\<rparr>;
                 s = (if rep_etherType s = ARP then s\<lparr>rep_ARP := rep_ARP s @ [word]\<rparr>
                      else if rep_etherType s = IPv4 then s\<lparr>rep_IP := rep_IP s @ [word]\<rparr>
                      else if rep_etherType s = IPv6 then s\<lparr>rep_IPv6 := rep_IPv6 s @ [word]\<rparr>
                      else s)
             in if na_last word then s\<lparr>rep_fsmState := 0\<rparr> else s
         | [] \<Rightarrow> s))"

record 'a eim_st =
  eim_header :: ipv4Header
  eim_metaWritten :: bool
  eim_in :: "'a fifo"
  eim_out :: "'a fifo"
  eim_ipv4Protocol :: "u8 fifo"
  eim_validIpAddress :: "bool fifo"

definition extract_ip_meta :: "u32 \<Rightarrow> ('w::len, 'k::len) axis eim_st \<Rightarrow> ('w, 'k) axis eim_st" where
  "extract_ip_meta myIpAddress s =
     (case eim_in s of
        currWord # rest \<Rightarrow>
          let h = parseWord (na_data currWord) (eim_header s);
              s = s\<lparr>eim_in := rest, eim_header := h, eim_out := eim_out s @ [currWord]\<rparr>;
              s = (if ph_ready h \<and> \<not> eim_metaWritten s
                   then s\<lparr>eim_validIpAddress := eim_validIpAddress s @ [getDstAddr h = myIpAddress \<or> getDstAddr h = 0xFFFFFFFF],
                          eim_ipv4Protocol := eim_ipv4Protocol s @ [getProtocol h], eim_metaWritten := True\<rparr>
                   else s)
          in if na_last currWord then s\<lparr>eim_metaWritten := False, eim_header := clear_header h\<rparr> else s
      | [] \<Rightarrow> s)"

datatype iid_StateType = GET_VALID | IID_FWD | IID_DROP

record 'a iid_st =
  iid_state :: iid_StateType
  iid_in :: "'a fifo"
  iid_validChecksum :: "bool fifo"
  iid_validIpAddress :: "bool fifo"
  iid_out :: "'a fifo"
  iid_ipv4Valid :: "bool fifo"

definition ip_invalid_dropper :: "('w::len, 'k::len) axis iid_st \<Rightarrow> ('w, 'k) axis iid_st" where
  "ip_invalid_dropper s =
     (case iid_state s of
        GET_VALID \<Rightarrow>
          if iid_validChecksum s \<noteq> [] \<and> iid_validIpAddress s \<noteq> [] then
            let validChecksum = hd (iid_validChecksum s); validIpAddress = hd (iid_validIpAddress s);
                s = s\<lparr>iid_validChecksum := tl (iid_validChecksum s), iid_validIpAddress := tl (iid_validIpAddress s)\<rparr>
            in if validChecksum \<and> validIpAddress
               then s\<lparr>iid_ipv4Valid := iid_ipv4Valid s @ [True], iid_state := IID_FWD\<rparr>
               else s\<lparr>iid_ipv4Valid := iid_ipv4Valid s @ [False], iid_state := IID_DROP\<rparr>
          else s
      | IID_FWD \<Rightarrow>
          (case iid_in s of
             w # rest \<Rightarrow> s\<lparr>iid_in := rest, iid_out := iid_out s @ [w],
                           iid_state := (if na_last w then GET_VALID else IID_FWD)\<rparr>
           | [] \<Rightarrow> s)
      | IID_DROP \<Rightarrow>
          (case iid_in s of
             w # rest \<Rightarrow> s\<lparr>iid_in := rest, iid_state := (if na_last w then GET_VALID else IID_DROP)\<rparr>
           | [] \<Rightarrow> s))"

text \<open>The two overloads of \<open>cut_length\<close>: the template, and the one for 512 bits, which the module uses.\<close>

definition total_length :: "'w::len word \<Rightarrow> u16" where
  "total_length d = put_bits 15 8 (bits 23 16 d :: u8) (put_bits 7 0 (bits 31 24 d :: u8) 0)"

datatype cut_stateType = CUT_PKG | CUT_DROP

record 'a cutg_st =
  cutg_state :: cut_stateType
  cutg_wordCount :: u16
  cutg_totalLength :: u16
  cutg_in :: "'a fifo"
  cutg_out :: "'a fifo"

definition cut_length :: "('w::len, 'k::len) axis cutg_st \<Rightarrow> ('w, 'k) axis cutg_st" where
  "cut_length s =
     (case cutg_state s of
        CUT_PKG \<Rightarrow>
          (case cutg_in s of
             w # rest \<Rightarrow>
               let s = s\<lparr>cutg_in := rest\<rparr>;
                   (s, w) =
                     (if cutg_wordCount s = 0 then (s\<lparr>cutg_totalLength := total_length (na_data w)\<rparr>, w)
                      else if (unat (cutg_wordCount s) + 1) * 8 \<ge> unat (cutg_totalLength s)
                      then (if na_last w then s else s\<lparr>cutg_state := CUT_DROP\<rparr>,
                            let leftLength = ucast (cutg_totalLength s - cutg_wordCount s * 8) :: u4
                            in w\<lparr>na_last := True, na_keep := ucast (lenToKeep (ucast leftLength))\<rparr>)
                      else (s, w))
               in s\<lparr>cutg_out := cutg_out s @ [w], cutg_wordCount := (if na_last w then 0 else cutg_wordCount s + 1)\<rparr>
           | [] \<Rightarrow> s)
      | CUT_DROP \<Rightarrow>
          (case cutg_in s of
             w # rest \<Rightarrow> s\<lparr>cutg_in := rest, cutg_state := (if na_last w then CUT_PKG else CUT_DROP)\<rparr>
           | [] \<Rightarrow> s))"

datatype cl_stateType = CL_FIRST | CL_REST

record cl_st =
  cl_state :: cl_stateType
  cl_in :: "word512 fifo"
  cl_out :: "word512 fifo"

definition cut_length_512 :: "cl_st \<Rightarrow> cl_st" where
  "cut_length_512 s =
     (case cl_state s of
        CL_FIRST \<Rightarrow>
          (case cl_in s of
             w # rest \<Rightarrow>
               let totalLength = total_length (na_data w); s = s\<lparr>cl_in := rest\<rparr>
               in if na_last w
                  then s\<lparr>cl_out := cl_out s @ [w\<lparr>na_keep := lenToKeep (ucast totalLength)\<rparr>]\<rparr>
                  else s\<lparr>cl_out := cl_out s @ [w], cl_state := CL_REST\<rparr>
           | [] \<Rightarrow> s)
      | CL_REST \<Rightarrow>
          (case cl_in s of
             w # rest \<Rightarrow> s\<lparr>cl_in := rest, cl_out := cl_out s @ [w],
                           cl_state := (if na_last w then CL_FIRST else CL_REST)\<rparr>
           | [] \<Rightarrow> s))"

datatype dip_stateType = DIP_META | DIP_PKG

record 'a dip_st =
  dip_state :: dip_stateType
  dip_ipProtocol :: u8
  dip_ipv4Protocol :: "u8 fifo"
  dip_ipv4Valid :: "bool fifo"
  dip_in :: "'a fifo"
  dip_ICMP :: "'a fifo"
  dip_UDP :: "'a fifo"
  dip_TCP :: "'a fifo"

definition detect_ipv4_protocol :: "('w::len, 'k::len) axis dip_st \<Rightarrow> ('w, 'k) axis dip_st" where
  "detect_ipv4_protocol s =
     (case dip_state s of
        DIP_META \<Rightarrow>
          if dip_ipv4Protocol s \<noteq> [] \<and> dip_ipv4Valid s \<noteq> [] then
            s\<lparr>dip_ipProtocol := hd (dip_ipv4Protocol s), dip_ipv4Protocol := tl (dip_ipv4Protocol s),
              dip_ipv4Valid := tl (dip_ipv4Valid s), dip_state := (if hd (dip_ipv4Valid s) then DIP_PKG else DIP_META)\<rparr>
          else s
      | DIP_PKG \<Rightarrow>
          (case dip_in s of
             w # rest \<Rightarrow>
               let s = s\<lparr>dip_in := rest, dip_state := (if na_last w then DIP_META else DIP_PKG)\<rparr>
               in if dip_ipProtocol s = ICMP then s\<lparr>dip_ICMP := dip_ICMP s @ [w]\<rparr>
                  else if dip_ipProtocol s = UDP then s\<lparr>dip_UDP := dip_UDP s @ [w]\<rparr>
                  else if dip_ipProtocol s = TCP then s\<lparr>dip_TCP := dip_TCP s @ [w]\<rparr>
                  else s
           | [] \<Rightarrow> s))"

record 'a div6_st =
  div6_state :: "1 word"
  div6_nextHeader :: u8
  div6_in :: "'a fifo"
  div6_ICMPv6 :: "'a fifo"
  div6_UDP :: "'a fifo"

definition div6_put :: "'a \<Rightarrow> 'a div6_st \<Rightarrow> 'a div6_st" where
  "div6_put w s =
     (if div6_nextHeader s = ICMPv6 then s\<lparr>div6_ICMPv6 := div6_ICMPv6 s @ [w]\<rparr>
      else if div6_nextHeader s = UDP then s\<lparr>div6_UDP := div6_UDP s @ [w]\<rparr>
      else s)"

definition detect_ipv6_protocol :: "('w::len, 'k::len) axis div6_st \<Rightarrow> ('w, 'k) axis div6_st" where
  "detect_ipv6_protocol s =
     (case div6_in s of
        w # rest \<Rightarrow>
          if div6_state s = 0 then
            div6_put w (s\<lparr>div6_in := rest, div6_nextHeader := bits 55 48 (na_data w),
              div6_state := (if na_last w then 0 else 1)\<rparr>)
          else div6_put w (s\<lparr>div6_in := rest, div6_state := (if na_last w then 0 else 1)\<rparr>)
      | [] \<Rightarrow> s)"

section \<open>The module\<close>

record ih_st =
  ih_detect :: "word512 dep_st"
  ih_route :: "word512 rep_st"
  ih_shift4 :: "word512 rshift_st"
  ih_shift6 :: "word512 rshift_st"
  ih_meta :: "word512 eim_st"
  ih_compute :: "word512 cics512_st"
  ih_check :: "u17 list fifo \<times> bool fifo"
  ih_drop :: "word512 iid_st"
  ih_cut :: cl_st
  ih_ipv4 :: "word512 dip_st"
  ih_ipv6 :: "word512 div6_st"
  ih_duplicate :: "word512 fifo \<times> word512 fifo \<times> word512 fifo"

definition ih_place_detect :: "word512 dep_st \<Rightarrow> ih_st \<Rightarrow> ih_st" where
  "ih_place_detect a s = s\<lparr>ih_detect := a\<lparr>dep_etherType := [], dep_out := []\<rparr>,
     ih_route := (ih_route s)\<lparr>rep_etherTypeIn := rep_etherTypeIn (ih_route s) @ dep_etherType a, rep_in := rep_in (ih_route s) @ dep_out a\<rparr>\<rparr>"

definition ih_place_route :: "word512 rep_st \<Rightarrow> ih_st \<Rightarrow> ih_st" where
  "ih_place_route a s = s\<lparr>ih_route := a\<lparr>rep_IP := [], rep_IPv6 := []\<rparr>,
     ih_shift4 := (ih_shift4 s)\<lparr>rs_input := rs_input (ih_shift4 s) @ rep_IP a\<rparr>,
     ih_shift6 := (ih_shift6 s)\<lparr>rs_input := rs_input (ih_shift6 s) @ rep_IPv6 a\<rparr>\<rparr>"

definition ih_place_shift4 :: "word512 rshift_st \<Rightarrow> ih_st \<Rightarrow> ih_st" where
  "ih_place_shift4 a s = s\<lparr>ih_shift4 := a\<lparr>rs_output := []\<rparr>,
     ih_meta := (ih_meta s)\<lparr>eim_in := eim_in (ih_meta s) @ rs_output a\<rparr>\<rparr>"

definition ih_place_shift6 :: "word512 rshift_st \<Rightarrow> ih_st \<Rightarrow> ih_st" where
  "ih_place_shift6 a s = s\<lparr>ih_shift6 := a\<lparr>rs_output := []\<rparr>,
     ih_ipv6 := (ih_ipv6 s)\<lparr>div6_in := div6_in (ih_ipv6 s) @ rs_output a\<rparr>\<rparr>"

definition ih_place_meta :: "word512 eim_st \<Rightarrow> ih_st \<Rightarrow> ih_st" where
  "ih_place_meta a s = s\<lparr>ih_meta := a\<lparr>eim_out := [], eim_ipv4Protocol := [], eim_validIpAddress := []\<rparr>,
     ih_compute := (ih_compute s)\<lparr>c5_dataIn := c5_dataIn (ih_compute s) @ eim_out a\<rparr>,
     ih_drop := (ih_drop s)\<lparr>iid_validIpAddress := iid_validIpAddress (ih_drop s) @ eim_validIpAddress a\<rparr>,
     ih_ipv4 := (ih_ipv4 s)\<lparr>dip_ipv4Protocol := dip_ipv4Protocol (ih_ipv4 s) @ eim_ipv4Protocol a\<rparr>\<rparr>"

definition ih_place_compute :: "word512 cics512_st \<Rightarrow> ih_st \<Rightarrow> ih_st" where
  "ih_place_compute a s = s\<lparr>ih_compute := a\<lparr>c5_dataOut := [], c5_subSumFiFoOut := []\<rparr>,
     ih_check := (fst (ih_check s) @ c5_subSumFiFoOut a, snd (ih_check s)),
     ih_drop := (ih_drop s)\<lparr>iid_in := iid_in (ih_drop s) @ c5_dataOut a\<rparr>\<rparr>"

definition ih_place_check :: "u17 list fifo \<times> bool fifo \<Rightarrow> ih_st \<Rightarrow> ih_st" where
  "ih_place_check a s = s\<lparr>ih_check := (fst a, []),
     ih_drop := (ih_drop s)\<lparr>iid_validChecksum := iid_validChecksum (ih_drop s) @ snd a\<rparr>\<rparr>"

definition ih_place_drop :: "word512 iid_st \<Rightarrow> ih_st \<Rightarrow> ih_st" where
  "ih_place_drop a s = s\<lparr>ih_drop := a\<lparr>iid_out := [], iid_ipv4Valid := []\<rparr>,
     ih_cut := (ih_cut s)\<lparr>cl_in := cl_in (ih_cut s) @ iid_out a\<rparr>,
     ih_ipv4 := (ih_ipv4 s)\<lparr>dip_ipv4Valid := dip_ipv4Valid (ih_ipv4 s) @ iid_ipv4Valid a\<rparr>\<rparr>"

definition ih_place_cut :: "cl_st \<Rightarrow> ih_st \<Rightarrow> ih_st" where
  "ih_place_cut a s = s\<lparr>ih_cut := a\<lparr>cl_out := []\<rparr>,
     ih_ipv4 := (ih_ipv4 s)\<lparr>dip_in := dip_in (ih_ipv4 s) @ cl_out a\<rparr>\<rparr>"

definition ih_place_ipv4 :: "word512 dip_st \<Rightarrow> ih_st \<Rightarrow> ih_st" where
  "ih_place_ipv4 a s = s\<lparr>ih_ipv4 := a\<lparr>dip_UDP := []\<rparr>,
     ih_duplicate := (fst (ih_duplicate s) @ dip_UDP a, snd (ih_duplicate s))\<rparr>"

definition ih_run_detect :: "ih_st \<Rightarrow> ih_st" where
  "ih_run_detect s = ih_place_detect (detect_eth_protocol (ih_detect s)) s"

definition ih_run_route :: "ih_st \<Rightarrow> ih_st" where
  "ih_run_route s = ih_place_route (route_by_eth_protocol (ih_route s)) s"

definition ih_run_shift4 :: "ih_st \<Rightarrow> ih_st" where
  "ih_run_shift4 s = ih_place_shift4 (ip_handler_rshiftWordByOctet eth_gap (ih_shift4 s)) s"

definition ih_run_shift6 :: "ih_st \<Rightarrow> ih_st" where
  "ih_run_shift6 s = ih_place_shift6 (ip_handler_rshiftWordByOctet eth_gap (ih_shift6 s)) s"

definition ih_run_meta :: "u32 \<Rightarrow> ih_st \<Rightarrow> ih_st" where
  "ih_run_meta myIpAddress s = ih_place_meta (extract_ip_meta myIpAddress (ih_meta s)) s"

definition ih_run_compute :: "ih_st \<Rightarrow> ih_st" where
  "ih_run_compute s = ih_place_compute (ip_handler_compute_ipv4_checksum False (ih_compute s)) s"

definition ih_run_check :: "ih_st \<Rightarrow> ih_st" where
  "ih_run_check s = ih_place_check (ip_handler_check_ipv4_checksum (ih_check s)) s"

definition ih_run_drop :: "ih_st \<Rightarrow> ih_st" where
  "ih_run_drop s = ih_place_drop (ip_invalid_dropper (ih_drop s)) s"

definition ih_run_cut :: "ih_st \<Rightarrow> ih_st" where
  "ih_run_cut s = ih_place_cut (cut_length_512 (ih_cut s)) s"

definition ih_run_ipv4 :: "ih_st \<Rightarrow> ih_st" where
  "ih_run_ipv4 s = ih_place_ipv4 (detect_ipv4_protocol (ih_ipv4 s)) s"

definition ih_run_ipv6 :: "ih_st \<Rightarrow> ih_st" where
  "ih_run_ipv6 s = s\<lparr>ih_ipv6 := detect_ipv6_protocol (ih_ipv6 s)\<rparr>"

definition ih_run_duplicate :: "ih_st \<Rightarrow> ih_st" where
  "ih_run_duplicate s = s\<lparr>ih_duplicate := ip_handler_duplicate_stream (ih_duplicate s)\<rparr>"

definition ip_handler_core :: "u32 \<Rightarrow> ih_st \<Rightarrow> ih_st" where
  "ip_handler_core myIpAddress s =
     ih_run_duplicate (ih_run_ipv6 (ih_run_ipv4 (ih_run_cut (ih_run_drop (ih_run_check (ih_run_compute
       (ih_run_meta myIpAddress (ih_run_shift6 (ih_run_shift4 (ih_run_route (ih_run_detect s)))))))))))"

section \<open>The module is determinate\<close>

lemma detect_frame:
  "detect_eth_protocol (a\<lparr>dep_etherType := x, dep_out := y\<rparr>) =
    (let r = detect_eth_protocol (a\<lparr>dep_etherType := [], dep_out := []\<rparr>)
     in r\<lparr>dep_etherType := x @ dep_etherType r, dep_out := y @ dep_out r\<rparr>)"
  by (cases a; cases "dep_in a") (simp_all add: detect_eth_protocol_def Let_def)

lemma route_frame:
  "route_by_eth_protocol (a\<lparr>rep_IP := x, rep_IPv6 := y\<rparr>) =
    (let r = route_by_eth_protocol (a\<lparr>rep_IP := [], rep_IPv6 := []\<rparr>)
     in r\<lparr>rep_IP := x @ rep_IP r, rep_IPv6 := y @ rep_IPv6 r\<rparr>)"
  by (cases a; cases "rep_in a") (simp_all add: route_by_eth_protocol_def Let_def)

lemma route_mono:
  assumes "route_by_eth_protocol a \<noteq> a"
  shows "route_by_eth_protocol (a\<lparr>rep_etherTypeIn := rep_etherTypeIn a @ x, rep_in := rep_in a @ y\<rparr>) =
    (let r = route_by_eth_protocol a in r\<lparr>rep_etherTypeIn := rep_etherTypeIn r @ x, rep_in := rep_in r @ y\<rparr>)"
  using assms
  by (cases a; cases "rep_in a"; cases "rep_etherTypeIn a"; cases "rep_fsmState a = 0")
    (simp_all add: route_by_eth_protocol_def Let_def)

lemma rshift_frame:
  "rshiftWordByOctet m (a\<lparr>rs_output := x\<rparr>) =
    (let r = rshiftWordByOctet m (a\<lparr>rs_output := []\<rparr>) in r\<lparr>rs_output := x @ rs_output r\<rparr>)"
  by (cases a; cases "rs_input a"; cases "rs_fsmState a") (simp_all add: rshiftWordByOctet_def Let_def)

lemma rshift_mono:
  assumes "rshiftWordByOctet m a \<noteq> a"
  shows "rshiftWordByOctet m (a\<lparr>rs_input := rs_input a @ x\<rparr>) = (let r = rshiftWordByOctet m a in r\<lparr>rs_input := rs_input r @ x\<rparr>)"
  using assms by (cases a; cases "rs_input a"; cases "rs_fsmState a") (simp_all add: rshiftWordByOctet_def Let_def)

lemma meta_frame:
  "extract_ip_meta ip (a\<lparr>eim_out := x, eim_ipv4Protocol := y, eim_validIpAddress := z\<rparr>) =
    (let r = extract_ip_meta ip (a\<lparr>eim_out := [], eim_ipv4Protocol := [], eim_validIpAddress := []\<rparr>)
     in r\<lparr>eim_out := x @ eim_out r, eim_ipv4Protocol := y @ eim_ipv4Protocol r, eim_validIpAddress := z @ eim_validIpAddress r\<rparr>)"
  by (cases a; cases "eim_in a") (simp_all add: extract_ip_meta_def Let_def)

lemma meta_mono:
  assumes "extract_ip_meta ip a \<noteq> a"
  shows "extract_ip_meta ip (a\<lparr>eim_in := eim_in a @ x\<rparr>) = (let r = extract_ip_meta ip a in r\<lparr>eim_in := eim_in r @ x\<rparr>)"
  using assms by (cases a; cases "eim_in a") (simp_all add: extract_ip_meta_def Let_def)

lemma check_frame:
  "ip_handler_check_ipv4_checksum (i, x) =
    (fst (ip_handler_check_ipv4_checksum (i, [])), x @ snd (ip_handler_check_ipv4_checksum (i, [])))"
  by (cases i) (simp_all add: ip_handler_check_ipv4_checksum_def)

lemma check_idle: "fst a = [] \<Longrightarrow> ip_handler_check_ipv4_checksum a = a"
  by (cases a) (simp add: ip_handler_check_ipv4_checksum_def)

lemma check_mono:
  assumes "fst a \<noteq> []"
  shows "ip_handler_check_ipv4_checksum (fst a @ x, snd a) =
    (fst (ip_handler_check_ipv4_checksum a) @ x, snd (ip_handler_check_ipv4_checksum a))"
  using assms by (cases a; cases "fst a") (simp_all add: ip_handler_check_ipv4_checksum_def)

lemma drop_frame:
  "ip_invalid_dropper (a\<lparr>iid_out := x, iid_ipv4Valid := y\<rparr>) =
    (let r = ip_invalid_dropper (a\<lparr>iid_out := [], iid_ipv4Valid := []\<rparr>)
     in r\<lparr>iid_out := x @ iid_out r, iid_ipv4Valid := y @ iid_ipv4Valid r\<rparr>)"
  by (cases a; cases "iid_in a"; cases "iid_state a") (simp_all add: ip_invalid_dropper_def Let_def)

lemma drop_mono:
  assumes "ip_invalid_dropper a \<noteq> a"
  shows "ip_invalid_dropper (a\<lparr>iid_in := iid_in a @ x\<rparr>) = (let r = ip_invalid_dropper a in r\<lparr>iid_in := iid_in r @ x\<rparr>)"
    and "ip_invalid_dropper (a\<lparr>iid_validChecksum := iid_validChecksum a @ y\<rparr>) =
      (let r = ip_invalid_dropper a in r\<lparr>iid_validChecksum := iid_validChecksum r @ y\<rparr>)"
    and "ip_invalid_dropper (a\<lparr>iid_validIpAddress := iid_validIpAddress a @ z\<rparr>) =
      (let r = ip_invalid_dropper a in r\<lparr>iid_validIpAddress := iid_validIpAddress r @ z\<rparr>)"
  using assms
  by (cases a; cases "iid_in a"; cases "iid_state a"; cases "iid_validChecksum a"; cases "iid_validIpAddress a";
      simp add: ip_invalid_dropper_def Let_def)+

lemma cut_frame:
  "cut_length_512 (a\<lparr>cl_out := x\<rparr>) = (let r = cut_length_512 (a\<lparr>cl_out := []\<rparr>) in r\<lparr>cl_out := x @ cl_out r\<rparr>)"
  by (cases a; cases "cl_in a"; cases "cl_state a") (simp_all add: cut_length_512_def Let_def)

lemma cut_mono:
  assumes "cut_length_512 a \<noteq> a"
  shows "cut_length_512 (a\<lparr>cl_in := cl_in a @ x\<rparr>) = (let r = cut_length_512 a in r\<lparr>cl_in := cl_in r @ x\<rparr>)"
  using assms by (cases a; cases "cl_in a"; cases "cl_state a") (simp_all add: cut_length_512_def Let_def)

lemma dip_frame:
  "detect_ipv4_protocol (a\<lparr>dip_UDP := x\<rparr>) =
    (let r = detect_ipv4_protocol (a\<lparr>dip_UDP := []\<rparr>) in r\<lparr>dip_UDP := x @ dip_UDP r\<rparr>)"
  by (cases a; cases "dip_in a"; cases "dip_state a") (simp_all add: detect_ipv4_protocol_def Let_def)

lemma dip_mono:
  assumes "detect_ipv4_protocol a \<noteq> a"
  shows "detect_ipv4_protocol (a\<lparr>dip_in := dip_in a @ x\<rparr>) = (let r = detect_ipv4_protocol a in r\<lparr>dip_in := dip_in r @ x\<rparr>)"
    and "detect_ipv4_protocol (a\<lparr>dip_ipv4Protocol := dip_ipv4Protocol a @ y\<rparr>) =
      (let r = detect_ipv4_protocol a in r\<lparr>dip_ipv4Protocol := dip_ipv4Protocol r @ y\<rparr>)"
    and "detect_ipv4_protocol (a\<lparr>dip_ipv4Valid := dip_ipv4Valid a @ z\<rparr>) =
      (let r = detect_ipv4_protocol a in r\<lparr>dip_ipv4Valid := dip_ipv4Valid r @ z\<rparr>)"
  using assms
  by (cases a; cases "dip_in a"; cases "dip_state a"; cases "dip_ipv4Protocol a"; cases "dip_ipv4Valid a";
      simp add: detect_ipv4_protocol_def Let_def)+

lemma div6_mono:
  assumes "detect_ipv6_protocol a \<noteq> a"
  shows "detect_ipv6_protocol (a\<lparr>div6_in := div6_in a @ x\<rparr>) = (let r = detect_ipv6_protocol a in r\<lparr>div6_in := div6_in r @ x\<rparr>)"
  using assms by (cases a; cases "div6_in a") (simp_all add: detect_ipv6_protocol_def div6_put_def Let_def)

lemma duplicate_idle: "fst a = [] \<Longrightarrow> ip_handler_duplicate_stream a = a"
  by (cases a) (simp add: ip_handler_duplicate_stream_def)

lemma duplicate_mono:
  assumes "fst a \<noteq> []"
  shows "ip_handler_duplicate_stream (fst a @ x, snd a) =
    (fst (ip_handler_duplicate_stream a) @ x, snd (ip_handler_duplicate_stream a))"
  using assms by (cases a; cases "fst a") (simp_all add: ip_handler_duplicate_stream_def)

lemma route_cancel:
  "b\<lparr>rep_etherTypeIn := rep_etherTypeIn b @ x, rep_in := rep_in b @ y\<rparr> =
   d\<lparr>rep_etherTypeIn := rep_etherTypeIn d @ x, rep_in := rep_in d @ y\<rparr> \<longleftrightarrow> b = d"
  by (cases b; cases d) auto

lemma rs_cancel: "b\<lparr>rs_input := rs_input b @ x\<rparr> = d\<lparr>rs_input := rs_input d @ x\<rparr> \<longleftrightarrow> b = d"
  by (cases b; cases d) auto

lemma eim_cancel: "b\<lparr>eim_in := eim_in b @ x\<rparr> = d\<lparr>eim_in := eim_in d @ x\<rparr> \<longleftrightarrow> b = d"
  by (cases b; cases d) auto

lemma iid_cancel:
  "b\<lparr>iid_in := iid_in b @ x\<rparr> = d\<lparr>iid_in := iid_in d @ x\<rparr> \<longleftrightarrow> b = d"
  "b\<lparr>iid_validChecksum := iid_validChecksum b @ y\<rparr> = d\<lparr>iid_validChecksum := iid_validChecksum d @ y\<rparr> \<longleftrightarrow> b = d"
  "b\<lparr>iid_validIpAddress := iid_validIpAddress b @ y\<rparr> = d\<lparr>iid_validIpAddress := iid_validIpAddress d @ y\<rparr> \<longleftrightarrow> b = d"
  by (cases b; cases d; auto)+

lemma cl_cancel: "b\<lparr>cl_in := cl_in b @ x\<rparr> = d\<lparr>cl_in := cl_in d @ x\<rparr> \<longleftrightarrow> b = d"
  by (cases b; cases d) auto

lemma dip_cancel:
  "b\<lparr>dip_in := dip_in b @ x\<rparr> = d\<lparr>dip_in := dip_in d @ x\<rparr> \<longleftrightarrow> b = d"
  "b\<lparr>dip_ipv4Protocol := dip_ipv4Protocol b @ y\<rparr> = d\<lparr>dip_ipv4Protocol := dip_ipv4Protocol d @ y\<rparr> \<longleftrightarrow> b = d"
  "b\<lparr>dip_ipv4Valid := dip_ipv4Valid b @ z\<rparr> = d\<lparr>dip_ipv4Valid := dip_ipv4Valid d @ z\<rparr> \<longleftrightarrow> b = d"
  by (cases b; cases d; auto)+

lemma div6_cancel: "b\<lparr>div6_in := div6_in b @ x\<rparr> = d\<lparr>div6_in := div6_in d @ x\<rparr> \<longleftrightarrow> b = d"
  by (cases b; cases d) auto

lemma pair_cancel: "((fst b @ x, snd b) = (fst d @ x, snd d)) \<longleftrightarrow> b = d"
  by (cases b; cases d) auto

definition ih_processes :: "u32 \<Rightarrow> ((ih_st \<Rightarrow> bool) \<times> (ih_st \<Rightarrow> ih_st)) list" where
  "ih_processes ip =
     [(\<lambda>s. detect_eth_protocol (ih_detect s) \<noteq> ih_detect s, ih_run_detect),
      (\<lambda>s. route_by_eth_protocol (ih_route s) \<noteq> ih_route s, ih_run_route),
      (\<lambda>s. rshiftWordByOctet eth_gap (ih_shift4 s) \<noteq> ih_shift4 s, ih_run_shift4),
      (\<lambda>s. rshiftWordByOctet eth_gap (ih_shift6 s) \<noteq> ih_shift6 s, ih_run_shift6),
      (\<lambda>s. extract_ip_meta ip (ih_meta s) \<noteq> ih_meta s, ih_run_meta ip),
      (\<lambda>s. compute_ipv4_checksum_512 False (ih_compute s) \<noteq> ih_compute s, ih_run_compute),
      (\<lambda>s. fst (ih_check s) \<noteq> [], ih_run_check),
      (\<lambda>s. ip_invalid_dropper (ih_drop s) \<noteq> ih_drop s, ih_run_drop),
      (\<lambda>s. cut_length_512 (ih_cut s) \<noteq> ih_cut s, ih_run_cut),
      (\<lambda>s. detect_ipv4_protocol (ih_ipv4 s) \<noteq> ih_ipv4 s, ih_run_ipv4),
      (\<lambda>s. detect_ipv6_protocol (ih_ipv6 s) \<noteq> ih_ipv6 s, ih_run_ipv6),
      (\<lambda>s. fst (ih_duplicate s) \<noteq> [], ih_run_duplicate)]"

definition ih_ok :: "ih_st \<Rightarrow> bool" where
  "ih_ok s \<longleftrightarrow> dep_etherType (ih_detect s) = [] \<and> dep_out (ih_detect s) = [] \<and> rep_IP (ih_route s) = [] \<and> rep_IPv6 (ih_route s) = [] \<and>
     rs_output (ih_shift4 s) = [] \<and> rs_output (ih_shift6 s) = [] \<and> eim_out (ih_meta s) = [] \<and> eim_ipv4Protocol (ih_meta s) = [] \<and>
     eim_validIpAddress (ih_meta s) = [] \<and> c5_dataOut (ih_compute s) = [] \<and> c5_subSumFiFoOut (ih_compute s) = [] \<and>
     snd (ih_check s) = [] \<and> iid_out (ih_drop s) = [] \<and> iid_ipv4Valid (ih_drop s) = [] \<and> cl_out (ih_cut s) = [] \<and>
     dip_UDP (ih_ipv4 s) = []"

lemma ih_region: "ip_handler_core ip = region (ih_processes ip)"
  by (rule ext) (simp add: ip_handler_core_def region_def ih_processes_def)

lemmas ih_run_defs = ih_run_detect_def ih_run_route_def ih_run_shift4_def ih_run_shift6_def ih_run_meta_def ih_run_compute_def
  ih_run_check_def ih_run_drop_def ih_run_cut_def ih_run_ipv4_def ih_run_ipv6_def ih_run_duplicate_def
  ip_handler_rshiftWordByOctet_def ip_handler_compute_ipv4_checksum_def

lemmas ih_place_defs = ih_place_detect_def ih_place_route_def ih_place_shift4_def ih_place_shift6_def ih_place_meta_def
  ih_place_compute_def ih_place_check_def ih_place_drop_def ih_place_cut_def ih_place_ipv4_def

lemma ih_pairwise: "pairwise_commuting ih_ok (ih_processes ip)"
  by (simp add: ih_processes_def commuting_def ih_run_defs ih_place_defs compute_512_mono check_mono drop_mono cut_mono dip_mono
      div6_mono duplicate_mono route_mono rshift_mono meta_mono
      mac_cancel route_cancel rs_cancel eim_cancel iid_cancel cl_cancel dip_cancel div6_cancel pair_cancel Let_def)

lemma check_empty: "fst (ih_check s) = [] \<Longrightarrow> snd (ih_check s) = [] \<Longrightarrow> s\<lparr>ih_check := ([], [])\<rparr> = s"
  by (cases s) (auto simp: prod_eq_iff)

interpretation ih: dataflow ih_ok "ih_processes ip" for ip
proof (unfold_locales, goal_cases)
  case (1 p s)
  then show ?case by (auto simp: ih_processes_def ih_ok_def ih_run_defs ih_place_defs)
next
  case (2 p s)
  then show ?case by (auto simp: ih_processes_def ih_ok_def ih_run_defs ih_place_defs check_idle duplicate_idle fst_only check_empty)
qed (rule ih_pairwise)

end
