(* ===== verification/Ip_Delivery.thy ===== *)
theory Ip_Delivery
  imports Ip_Handler
begin

text \<open>
  What \<open>ip_handler\<close> does to the frames that arrive: which stream each is written to, and with
  which bytes.
\<close>

section \<open>Frames\<close>

text \<open>A frame has at least the Ethernet header and 20 more bytes, the IPv4 header where it is one.\<close>

record frame =
  fr_eth :: "112 word"
  fr_ip :: "160 word"
  fr_rest :: "u8 list"
  fr_words :: "word512 list"

definition fr_type :: "frame \<Rightarrow> u16" where "fr_type f = reverse16 (bits 111 96 (fr_eth f))"
definition fr_bytes :: "frame \<Rightarrow> u8 list" where "fr_bytes f = header_bytes (fr_ip f) @ fr_rest f"

text \<open>The datagram in a frame, in the words it has behind the shifter.\<close>

definition fr_datagram :: "frame \<times> word512 list \<Rightarrow> arrival" where
  "fr_datagram x = (fr_ip (fst x), fr_rest (fst x), snd x)"

lemma fr_datagram_simps [simp]:
  "ip_bytes (fr_datagram x) = fr_bytes (fst x)" "ip_words (fr_datagram x) = snd x" "fst (fr_datagram x) = fr_ip (fst x)"
  by (simp_all add: fr_datagram_def ip_bytes_def ip_words_def fr_bytes_def)

definition ip_total :: "arrival \<Rightarrow> nat" where "ip_total x = unat (reverse16 (bits 31 16 (fst x)))"
definition ip_protocol :: "arrival \<Rightarrow> u8" where "ip_protocol x = bits 79 72 (fst x)"

definition for_us :: "u32 \<Rightarrow> arrival \<Rightarrow> bool" where
  "for_us my x \<longleftrightarrow> ip_destination x = my \<or> ip_destination x = 0xFFFFFFFF"

definition accepted :: "u32 \<Rightarrow> arrival \<Rightarrow> bool" where
  "accepted my x \<longleftrightarrow> header_sum False x = 0 \<and> for_us my x"

text \<open>Padding is cut off a datagram that fits into one word.\<close>

definition trimmed :: "arrival \<Rightarrow> u8 list" where
  "trimmed x = (if length (ip_bytes x) \<le> 64 then take (ip_total x) (ip_bytes x) else ip_bytes x)"

definition deliverable :: "arrival \<Rightarrow> bool" where
  "deliverable x \<longleftrightarrow> sendable x \<and> ip_header_length x \<le> ip_total x \<and> ip_total x \<le> length (ip_bytes x)"

section \<open>Frames through each process\<close>

lemma first_header:
  fixes ws :: "word512 list" and h :: "'h::len word"
  assumes "carries (header_bytes h @ bs) ws" "LENGTH('h) = 8 * n" "n \<le> 64"
  shows "ucast (na_data (hd ws)) = h"
proof -
  from assms(1) obtain w vs where w: "ws = w # vs" by (cases ws) (auto simp: carries_def)
  from carries_header_word [OF _ assms(2) _ assms(1) [unfolded w]] assms(3) w show ?thesis by simp
qed

definition dep_idle :: "'a dep_st \<Rightarrow> bool" where
  "dep_idle s \<longleftrightarrow> \<not> ph_ready (dep_header s) \<and> ph_idx (dep_header s) = 0 \<and> \<not> dep_metaWritten s"

lemma detect_packet:
  fixes ws :: "('w::len, 'k::len) axis list"
  assumes "112 \<le> LENGTH('w)" "pkt ws" "dep_idle s" "dep_in s = ws @ rest"
  shows "let t = (detect_eth_protocol ^^ length ws) s in dep_idle t \<and> dep_in t = rest \<and> dep_out t = dep_out s @ ws \<and>
    dep_etherType t = dep_etherType s @ [reverse16 (bits 111 96 (ucast (na_data (hd ws)) :: 112 word))]"
proof -
  define Q where "Q ys xs t \<longleftrightarrow> dep_in t = xs @ rest \<and> dep_out t = dep_out s @ ys \<and>
    dep_etherType t = dep_etherType s @ (if ys = [] then [] else [reverse16 (bits 111 96 (ucast (na_data (hd ws)) :: 112 word))]) \<and>
    (if ys = [] \<or> xs = [] then dep_idle t else ph_ready (dep_header t) \<and> dep_metaWritten t)"
    for ys xs :: "('w, 'k) axis list" and t :: "('w, 'k) axis dep_st"
  have "Q ws [] ((detect_eth_protocol ^^ length ws) s)"
  proof (rule run_packet [OF assms(2)])
    show "Q [] ws s" using assms by (simp add: Q_def)
  next
    fix ys w xs t assume ws: "ws = ys @ w # xs" and last: "na_last w \<longleftrightarrow> xs = []" and q: "Q ys (w # xs) t"
    show "Q (ys @ [w]) xs (detect_eth_protocol t)"
    proof (cases "ys = []")
      case True
      with q assms(1) have "parseWord (na_data w) (dep_header t) =
          (dep_header t)\<lparr>ph_header := ucast (na_data w), ph_ready := True, ph_idx := 1\<rparr>"
        by (intro parseWord_first) (simp_all add: Q_def dep_idle_def)
      with True q last ws show ?thesis
        by (auto simp: Q_def detect_eth_protocol_def Let_def dep_idle_def getEthertype_def)
    next
      case False
      with q last ws show ?thesis
        by (auto simp: Q_def detect_eth_protocol_def Let_def dep_idle_def hd_append)
    qed
  qed
  then show ?thesis using assms(2) by (auto simp: Q_def Let_def pkt_def)
qed

lemma route_packet:
  fixes ws :: "('w::len, 'k::len) axis list"
  assumes "64 < LENGTH('w)" "pkt ws" "rep_fsmState s = 0" "rep_in s = ws @ rest" "rep_etherTypeIn s = ty # ts"
  shows "let t = (route_by_eth_protocol ^^ length ws) s in rep_fsmState t = 0 \<and> rep_in t = rest \<and> rep_etherTypeIn t = ts \<and>
    rep_ARP t = rep_ARP s @ (if ty = ARP then ws else []) \<and> rep_IP t = rep_IP s @ (if ty = IPv4 then ws else []) \<and>
    rep_IPv6 t = rep_IPv6 s @ (if ty = IPv6 then ws else [])"
proof -
  define Q where "Q ys xs t \<longleftrightarrow> rep_in t = xs @ rest \<and> rep_etherTypeIn t = (if ys = [] then ty # ts else ts) \<and>
    (if ys = [] \<or> xs = [] then rep_fsmState t = 0 else rep_fsmState t = 1 \<and> rep_etherType t = ty) \<and>
    rep_ARP t = rep_ARP s @ (if ty = ARP then ys else []) \<and> rep_IP t = rep_IP s @ (if ty = IPv4 then ys else []) \<and>
    rep_IPv6 t = rep_IPv6 s @ (if ty = IPv6 then ys else [])"
    for ys xs :: "('w, 'k) axis list" and t :: "('w, 'k) axis rep_st"
  have "Q ws [] ((route_by_eth_protocol ^^ length ws) s)"
  proof (rule run_packet [OF assms(2)])
    show "Q [] ws s" using assms by (simp add: Q_def)
  next
    fix ys w xs t assume "ws = ys @ w # xs" and last: "na_last w \<longleftrightarrow> xs = []" and q: "Q ys (w # xs) t"
    have ne: "ARP \<noteq> IPv4" "ARP \<noteq> IPv6" "IPv4 \<noteq> IPv6" by (simp_all add: ARP_def IPv4_def IPv6_def)
    consider "ty = ARP" | "ty = IPv4" | "ty = IPv6" | "ty \<notin> {ARP, IPv4, IPv6}" by blast
    then show "Q (ys @ [w]) xs (route_by_eth_protocol t)"
      using q last assms(1) ne by cases (cases "ys = []"; simp add: Q_def route_by_eth_protocol_def Let_def)+
  qed
  then show ?thesis using assms(2) by (auto simp: Q_def Let_def pkt_def)
qed

definition eim_idle :: "'a eim_st \<Rightarrow> bool" where
  "eim_idle s \<longleftrightarrow> \<not> ph_ready (eim_header s) \<and> ph_idx (eim_header s) = 0 \<and> \<not> eim_metaWritten s"

lemma meta_packet:
  fixes ws :: "('w::len, 'k::len) axis list"
  assumes "160 \<le> LENGTH('w)" "pkt ws" "eim_idle s" "eim_in s = ws @ rest" and h: "ucast (na_data (hd ws)) = (h :: 160 word)"
  shows "let t = (extract_ip_meta my ^^ length ws) s in eim_idle t \<and> eim_in t = rest \<and> eim_out t = eim_out s @ ws \<and>
    eim_ipv4Protocol t = eim_ipv4Protocol s @ [bits 79 72 h] \<and>
    eim_validIpAddress t = eim_validIpAddress s @ [bits 159 128 h = my \<or> bits 159 128 h = (0xFFFFFFFF :: u32)]"
proof -
  define Q where "Q ys xs t \<longleftrightarrow> eim_in t = xs @ rest \<and> eim_out t = eim_out s @ ys \<and>
    eim_ipv4Protocol t = eim_ipv4Protocol s @ (if ys = [] then [] else [bits 79 72 h]) \<and>
    eim_validIpAddress t = eim_validIpAddress s @ (if ys = [] then [] else [bits 159 128 h = my \<or> bits 159 128 h = (0xFFFFFFFF :: u32)]) \<and>
    (if ys = [] \<or> xs = [] then eim_idle t else ph_ready (eim_header t) \<and> eim_metaWritten t)"
    for ys xs :: "('w, 'k) axis list" and t :: "('w, 'k) axis eim_st"
  have "Q ws [] ((extract_ip_meta my ^^ length ws) s)"
  proof (rule run_packet [OF assms(2)])
    show "Q [] ws s" using assms by (simp add: Q_def)
  next
    fix ys w xs t assume ws: "ws = ys @ w # xs" and last: "na_last w \<longleftrightarrow> xs = []" and q: "Q ys (w # xs) t"
    show "Q (ys @ [w]) xs (extract_ip_meta my t)"
    proof (cases "ys = []")
      case True
      with q assms(1) have "parseWord (na_data w) (eim_header t) =
          (eim_header t)\<lparr>ph_header := ucast (na_data w), ph_ready := True, ph_idx := 1\<rparr>"
        by (intro parseWord_first) (simp_all add: Q_def eim_idle_def)
      with True q last ws h show ?thesis
        by (auto simp: Q_def extract_ip_meta_def Let_def eim_idle_def getDstAddr_def getProtocol_def)
    next
      case False
      with q last ws show ?thesis
        by (auto simp: Q_def extract_ip_meta_def Let_def eim_idle_def)
    qed
  qed
  then show ?thesis using assms(2) by (auto simp: Q_def Let_def pkt_def)
qed

lemma drop_packet:
  fixes ws :: "('w::len, 'k::len) axis list"
  assumes "pkt ws" "iid_state s = GET_VALID" "iid_in s = ws @ rest" "iid_validChecksum s = v # vs" "iid_validIpAddress s = a # as"
  shows "let t = (ip_invalid_dropper ^^ Suc (length ws)) s in iid_state t = GET_VALID \<and> iid_in t = rest \<and>
    iid_validChecksum t = vs \<and> iid_validIpAddress t = as \<and> iid_out t = iid_out s @ (if v \<and> a then ws else []) \<and>
    iid_ipv4Valid t = iid_ipv4Valid s @ [v \<and> a]"
proof -
  let ?s = "ip_invalid_dropper s"
  define Q where "Q ys xs t \<longleftrightarrow> iid_in t = xs @ rest \<and> iid_validChecksum t = vs \<and> iid_validIpAddress t = as \<and>
    iid_out t = iid_out s @ (if v \<and> a then ys else []) \<and> iid_ipv4Valid t = iid_ipv4Valid s @ [v \<and> a] \<and>
    iid_state t = (if xs = [] then GET_VALID else if v \<and> a then IID_FWD else IID_DROP)"
    for ys xs :: "('w, 'k) axis list" and t :: "('w, 'k) axis iid_st"
  have "Q ws [] ((ip_invalid_dropper ^^ length ws) ?s)"
  proof (rule run_packet [OF assms(1)])
    show "Q [] ws ?s" using assms by (auto simp: Q_def ip_invalid_dropper_def Let_def pkt_def)
  next
    fix ys w xs t assume "ws = ys @ w # xs" and last: "na_last w \<longleftrightarrow> xs = []" and q: "Q ys (w # xs) t"
    then show "Q (ys @ [w]) xs (ip_invalid_dropper t)"
      by (cases "v \<and> a") (auto simp: Q_def ip_invalid_dropper_def)
  qed
  then show ?thesis by (simp add: Q_def Let_def funpow_Suc_right del: funpow.simps(2))
qed

lemma dip_packet:
  fixes ws :: "('w::len, 'k::len) axis list"
  assumes "pkt ws" "dip_state s = DIP_META" "dip_in s = (if v then ws else []) @ rest"
    "dip_ipv4Protocol s = p # ps" "dip_ipv4Valid s = v # vs"
  shows "\<exists>n. let t = (detect_ipv4_protocol ^^ n) s in dip_state t = DIP_META \<and> dip_in t = rest \<and>
    dip_ipv4Protocol t = ps \<and> dip_ipv4Valid t = vs \<and> dip_ICMP t = dip_ICMP s @ (if v \<and> p = ICMP then ws else []) \<and>
    dip_UDP t = dip_UDP s @ (if v \<and> p = UDP then ws else []) \<and> dip_TCP t = dip_TCP s @ (if v \<and> p = TCP then ws else [])"
proof -
  let ?s = "detect_ipv4_protocol s"
  have s: "?s = s\<lparr>dip_ipProtocol := p, dip_ipv4Protocol := ps, dip_ipv4Valid := vs, dip_state := (if v then DIP_PKG else DIP_META)\<rparr>"
    using assms by (simp add: detect_ipv4_protocol_def)
  show ?thesis
  proof (cases v)
    case True
    define Q where "Q ys xs t \<longleftrightarrow> dip_in t = xs @ rest \<and> dip_ipv4Protocol t = ps \<and> dip_ipv4Valid t = vs \<and> dip_ipProtocol t = p \<and>
      dip_ICMP t = dip_ICMP s @ (if p = ICMP then ys else []) \<and> dip_UDP t = dip_UDP s @ (if p = UDP then ys else []) \<and>
      dip_TCP t = dip_TCP s @ (if p = TCP then ys else []) \<and> dip_state t = (if xs = [] then DIP_META else DIP_PKG)"
      for ys xs :: "('w, 'k) axis list" and t :: "('w, 'k) axis dip_st"
    have ne: "ICMP \<noteq> UDP" "ICMP \<noteq> TCP" "UDP \<noteq> TCP" by (simp_all add: ICMP_def UDP_def TCP_def)
    have "Q ws [] ((detect_ipv4_protocol ^^ length ws) ?s)"
    proof (rule run_packet [OF assms(1)])
      show "Q [] ws ?s" using assms(1,3) True by (auto simp: Q_def s pkt_def)
    next
      fix ys w xs t assume "ws = ys @ w # xs" and last: "na_last w \<longleftrightarrow> xs = []" and q: "Q ys (w # xs) t"
      consider "p = ICMP" | "p = UDP" | "p = TCP" | "p \<notin> {ICMP, UDP, TCP}" by blast
      then show "Q (ys @ [w]) xs (detect_ipv4_protocol t)"
        using q last ne by cases (simp_all add: Q_def detect_ipv4_protocol_def Let_def)
    qed
    then show ?thesis using True
      by (intro exI [of _ "Suc (length ws)"]) (simp add: Q_def Let_def funpow_Suc_right del: funpow.simps(2))
  next
    case False
    then show ?thesis using assms(3) by (intro exI [of _ 1]) (simp add: s)
  qed
qed

lemma total_length_reverse: "total_length d = reverse16 (bits 31 16 d)" for d :: "512 word"
  by (rule bit_word_eqI) (auto simp: total_length_def bit_put_bits bit_reverse16 bit_bits add.commute)

lemma carries_keep:
  fixes w :: word512
  assumes "carries bs [w]" "n \<le> length bs" "0 < n"
  shows "carries (take n bs) [w\<lparr>na_keep := lenToKeep (of_nat n)\<rparr>]"
proof -
  from assms(1) obtain k where k: "na_last w" "k < 64" "cells w = map Some bs @ replicate k None" by (auto simp: carries_single)
  from arg_cong [OF k(3), of length] have l: "length bs + k = 64" by simp
  have keep: "bit (lenToKeep (of_nat n)) i \<longleftrightarrow> i < n" if "i < 64" for i
  proof (cases "n = 64")
    case True
    then show ?thesis using that by (simp add: lenToKeep_eq bit_mask_iff)
  next
    case False
    then have "unat (of_nat n :: 6 word) = n" using assms(2) l by (intro unat_of_nat_eq) simp
    moreover from this have "(of_nat n :: 6 word) \<noteq> 0" using assms(3) by auto
    ultimately show ?thesis using that by (simp add: lenToKeep_eq bit_mask_iff)
  qed
  have byte: "bit (na_keep w) i" "byte i (na_data w) = bs ! i" if "i < n" for i
    using arg_cong [OF k(3), of "\<lambda>l. l ! i"] that assms(2) l by (auto simp: nth_cells nth_append split: if_splits)
  have "cells (w\<lparr>na_keep := lenToKeep (of_nat n)\<rparr>) = map Some (take n bs) @ replicate (64 - n) None"
  proof (rule nth_equalityI)
    fix i assume "i < length (cells (w\<lparr>na_keep := lenToKeep (of_nat n)\<rparr>))"
    then have i: "i < 64" by simp
    show "cells (w\<lparr>na_keep := lenToKeep (of_nat n)\<rparr>) ! i = (map Some (take n bs) @ replicate (64 - n) None) ! i"
      using i keep [OF i] byte [of i] assms(2) by (auto simp: nth_cells nth_append)
  qed (use assms(2) l in simp)
  then show ?thesis using k(1) assms(3) by (auto simp: carries_single)
qed

lemma carries_not_Nil:
  fixes ws :: "('w::len, 'k::len) axis list"
  assumes "carries bs ws"
  shows "bs \<noteq> []"
proof -
  from assms obtain k where k: "ws \<noteq> []" "k < LENGTH('k)" "concat (map cells ws) = map Some bs @ replicate k None"
    by (auto simp: carries_def)
  have "length (concat (map cells ws)) = LENGTH('k) * length ws" by (induction ws) simp_all
  with k show ?thesis by (cases ws) auto
qed

lemma cut_packet:
  assumes x: "deliverable x" and s: "cl_state s = CL_FIRST" "cl_in s = ip_words x @ rest"
  shows "\<exists>us. let t = (cut_length_512 ^^ length (ip_words x)) s in cl_state t = CL_FIRST \<and> cl_in t = rest \<and>
    cl_out t = cl_out s @ us \<and> carries (trimmed x) us"
proof -
  from x have send: "sendable x" and c: "carries (ip_bytes x) (ip_words x)" and n: "0 < ip_total x" "ip_total x \<le> length (ip_bytes x)"
    by (auto simp: deliverable_def sendable_def)
  have "bits 31 16 (na_data (hd (ip_words x))) = (bits 31 16 (fst x) :: u16)"
    unfolding sendable_first [OF send, symmetric] by (rule bit_word_eqI) (simp add: bit_bits bit_ucast_iff)
  then have total: "total_length (na_data (hd (ip_words x))) = of_nat (ip_total x)"
    by (simp add: total_length_reverse ip_total_def)
  obtain w ws where ws: "ip_words x = w # ws" using c by (cases "ip_words x") (auto simp: carries_def)
  show ?thesis
  proof (cases "ws = []")
    case True
    let ?w = "w\<lparr>na_keep := lenToKeep (of_nat (ip_total x))\<rparr>"
    obtain k where k: "na_last w" "cells w = map Some (ip_bytes x) @ replicate k None"
      using c ws True by (auto simp: carries_single)
    have l: "length (ip_bytes x) \<le> 64" using arg_cong [OF k(2), of length] by simp
    have "ucast (of_nat (ip_total x) :: u16) = (of_nat (ip_total x) :: 6 word)"
      by (rule bit_word_eqI) (simp add: bit_simps)
    then show ?thesis
      using carries_keep [of "ip_bytes x" w "ip_total x"] c n l k(1) total s ws True
      by (intro exI [of _ "[?w]"]) (simp add: cut_length_512_def Let_def trimmed_def)
  next
    case False
    then have "\<not> na_last w" "64 \<le> length (ip_bytes x)" "carries (drop 64 (ip_bytes x)) ws" using c ws by (simp_all add: carries_Cons)
    moreover from carries_not_Nil [OF this(3)] have "drop 64 (ip_bytes x) \<noteq> []" .
    ultimately have l: "\<not> na_last w" "64 < length (ip_bytes x)" by simp_all
    define Q where "Q ys xs t \<longleftrightarrow> cl_in t = xs @ rest \<and> cl_out t = cl_out s @ ys \<and>
      cl_state t = (if ys = [] \<or> xs = [] then CL_FIRST else CL_REST)" for ys xs :: "word512 list" and t :: cl_st
    have "Q (ip_words x) [] ((cut_length_512 ^^ length (ip_words x)) s)"
    proof (rule run_packet [OF sendable_pkt [OF send]])
      show "Q [] (ip_words x) s" using s by (simp add: Q_def)
    next
      fix ys v xs t assume e: "ip_words x = ys @ v # xs" and last: "na_last v \<longleftrightarrow> xs = []" and q: "Q ys (v # xs) t"
      show "Q (ys @ [v]) xs (cut_length_512 t)"
        using q last e ws l(1) by (cases ys) (auto simp: Q_def cut_length_512_def Let_def)
    qed
    then show ?thesis using l(2) c by (intro exI [of _ "ip_words x"]) (simp add: Q_def Let_def trimmed_def)
  qed
qed

lemma div6_packet:
  fixes ws :: "('w::len, 'k::len) axis list"
  assumes "pkt ws" "div6_state s = 0" "div6_in s = ws @ rest" and p: "bits 55 48 (na_data (hd ws)) = p"
  shows "let t = (detect_ipv6_protocol ^^ length ws) s in div6_state t = 0 \<and> div6_in t = rest \<and>
    div6_ICMPv6 t = div6_ICMPv6 s @ (if p = ICMPv6 then ws else []) \<and> div6_UDP t = div6_UDP s @ (if p = UDP then ws else [])"
proof -
  define Q where "Q ys xs t \<longleftrightarrow> div6_in t = xs @ rest \<and> div6_ICMPv6 t = div6_ICMPv6 s @ (if p = ICMPv6 then ys else []) \<and>
    div6_UDP t = div6_UDP s @ (if p = UDP then ys else []) \<and>
    (if ys = [] \<or> xs = [] then div6_state t = 0 else div6_state t = 1 \<and> div6_nextHeader t = p)"
    for ys xs :: "('w, 'k) axis list" and t :: "('w, 'k) axis div6_st"
  have ne: "ICMPv6 \<noteq> UDP" by (simp add: ICMPv6_def UDP_def)
  have "Q ws [] ((detect_ipv6_protocol ^^ length ws) s)"
  proof (rule run_packet [OF assms(1)])
    show "Q [] ws s" using assms by (simp add: Q_def)
  next
    fix ys w xs t assume ws: "ws = ys @ w # xs" and last: "na_last w \<longleftrightarrow> xs = []" and q: "Q ys (w # xs) t"
    show "Q (ys @ [w]) xs (detect_ipv6_protocol t)"
      using q last ne ws p by (cases "ys = []") (auto simp: Q_def detect_ipv6_protocol_def div6_put_def)
  qed
  then show ?thesis using assms(1) by (auto simp: Q_def Let_def pkt_def)
qed

section \<open>All frames through each process\<close>

lemma run_done:
  assumes "\<And>ys x xs s. Q ys (x # xs) s \<Longrightarrow> \<exists>n. Q (ys @ [x]) xs ((F ^^ n) s)"
  shows "Q ys xs s \<Longrightarrow> \<exists>n. Q (ys @ xs) [] ((F ^^ n) s)"
proof (induction xs arbitrary: ys s)
  case Nil
  then show ?case by (intro exI [of _ 0]) simp
next
  case (Cons x xs)
  from assms [OF Cons.prems] obtain n where n: "Q (ys @ [x]) xs ((F ^^ n) s)" by auto
  from Cons.IH [OF this] obtain m where "Q (ys @ x # xs) [] ((F ^^ m) ((F ^^ n) s))" by auto
  then show ?case by (intro exI [of _ "m + n"]) (simp add: funpow_add)
qed

definition frame_ok :: "frame \<Rightarrow> bool" where
  "frame_ok f \<longleftrightarrow> carries (header_bytes (fr_eth f) @ fr_bytes f) (fr_words f)"

lemma run_detect:
  fixes s :: "word512 dep_st"
  assumes "\<forall>f\<in>set fs. frame_ok f" "dep_idle s" "dep_in s = concat (map fr_words fs)"
  shows "\<exists>n. let t = (detect_eth_protocol ^^ n) s in dep_idle t \<and> dep_in t = [] \<and>
    dep_out t = dep_out s @ concat (map fr_words fs) \<and> dep_etherType t = dep_etherType s @ map fr_type fs"
proof -
  define Q where "Q ys xs t \<longleftrightarrow> (\<forall>f\<in>set xs. frame_ok f) \<and> dep_idle t \<and> dep_in t = concat (map fr_words xs) \<and>
    dep_out t = dep_out s @ concat (map fr_words ys) \<and> dep_etherType t = dep_etherType s @ map fr_type ys"
    for ys xs and t :: "word512 dep_st"
  have "\<exists>n. Q (ys @ [x]) xs ((detect_eth_protocol ^^ n) t)" if q: "Q ys (x # xs) t" for ys x xs t
  proof -
    from q have c: "carries (header_bytes (fr_eth x) @ fr_bytes x) (fr_words x)" by (simp add: Q_def frame_ok_def)
    from detect_packet [OF _ carries_pkt [OF c], of t "concat (map fr_words xs)"] first_header [OF c, of 14] q
    show ?thesis by (intro exI [of _ "length (fr_words x)"]) (simp add: Q_def Let_def fr_type_def)
  qed
  from run_done [of Q, OF this] have "Q [] fs s \<Longrightarrow> \<exists>n. Q ([] @ fs) [] ((detect_eth_protocol ^^ n) s)" .
  then show ?thesis using assms by (simp add: Q_def Let_def)
qed

abbreviation of_type :: "u16 \<Rightarrow> frame list \<Rightarrow> frame list" where
  "of_type ty \<equiv> filter (\<lambda>f. fr_type f = ty)"

lemma run_route:
  fixes s :: "word512 rep_st"
  assumes "\<forall>f\<in>set fs. frame_ok f" "rep_fsmState s = 0" "rep_in s = concat (map fr_words fs)" "rep_etherTypeIn s = map fr_type fs"
  shows "\<exists>n. let t = (route_by_eth_protocol ^^ n) s in rep_fsmState t = 0 \<and> rep_in t = [] \<and> rep_etherTypeIn t = [] \<and>
    rep_ARP t = rep_ARP s @ concat (map fr_words (of_type ARP fs)) \<and> rep_IP t = rep_IP s @ concat (map fr_words (of_type IPv4 fs)) \<and>
    rep_IPv6 t = rep_IPv6 s @ concat (map fr_words (of_type IPv6 fs))"
proof -
  define Q where "Q ys xs t \<longleftrightarrow> (\<forall>f\<in>set xs. frame_ok f) \<and> rep_fsmState t = 0 \<and> rep_in t = concat (map fr_words xs) \<and>
    rep_etherTypeIn t = map fr_type xs \<and>
    rep_ARP t = rep_ARP s @ concat (map fr_words (of_type ARP ys)) \<and> rep_IP t = rep_IP s @ concat (map fr_words (of_type IPv4 ys)) \<and>
    rep_IPv6 t = rep_IPv6 s @ concat (map fr_words (of_type IPv6 ys))" for ys xs and t :: "word512 rep_st"
  have "\<exists>n. Q (ys @ [x]) xs ((route_by_eth_protocol ^^ n) t)" if q: "Q ys (x # xs) t" for ys x xs t
  proof -
    from q have c: "pkt (fr_words x)" by (auto simp: Q_def frame_ok_def dest: carries_pkt)
    have ne: "ARP \<noteq> IPv4" "ARP \<noteq> IPv6" "IPv4 \<noteq> IPv6" by (simp_all add: ARP_def IPv4_def IPv6_def)
    from route_packet [OF _ c, of t "concat (map fr_words xs)" "fr_type x" "map fr_type xs"] q
    show ?thesis by (intro exI [of _ "length (fr_words x)"]) (simp add: Q_def Let_def ne)
  qed
  from run_done [of Q, OF this] have "Q [] fs s \<Longrightarrow> \<exists>n. Q ([] @ fs) [] ((route_by_eth_protocol ^^ n) s)" .
  then show ?thesis using assms by (simp add: Q_def Let_def)
qed

lemma run_rshift:
  fixes s :: "word512 rshift_st"
  assumes "\<forall>f\<in>set fs. frame_ok f" "rs_idle s" "rs_input s = concat (map fr_words fs)"
  shows "\<exists>n uss. let t = (rshiftWordByOctet 14 ^^ n) s in rs_idle t \<and> rs_input t = [] \<and> rs_output t = rs_output s @ concat uss \<and>
    list_all2 (\<lambda>f us. carries (fr_bytes f) us) fs uss"
proof -
  let ?F = "rshiftWordByOctet 14"
  define A where "A xs t \<longleftrightarrow> (\<forall>f\<in>set xs. frame_ok f) \<and> rs_idle t \<and> rs_input t = concat (map fr_words xs)"
    for xs and t :: "word512 rshift_st"
  have "\<exists>n us. A xs ((?F ^^ n) t) \<and> rs_output ((?F ^^ n) t) = rs_output t @ us \<and> [] = [] @ [] \<and> carries (fr_bytes x) us"
    if a: "A (x # xs) t" for x xs t
  proof -
    have "\<exists>n vs. n \<le> length (fr_words x) + 1 \<and> rs_idle ((?F ^^ n) t) \<and> rs_input ((?F ^^ n) t) = concat (map fr_words xs) \<and>
        rs_output ((?F ^^ n) t) = rs_output t @ vs \<and> carries (drop 14 (header_bytes (fr_eth x) @ fr_bytes x)) vs"
      by (rule rshift_packet [where ws = "fr_words x"]) (use a in \<open>simp_all add: A_def frame_ok_def fr_bytes_def\<close>)
    with a show ?thesis by (auto simp: A_def)
  qed
  moreover have "A fs s" using assms by (simp add: A_def)
  ultimately have "\<exists>n uss. A [] ((?F ^^ n) s) \<and> rs_output ((?F ^^ n) s) = rs_output s @ concat uss \<and>
      [] = [] @ concat (map (\<lambda>_. []) fs) \<and> list_all2 (\<lambda>f us. carries (fr_bytes f) us) fs uss"
    by (rule run_relation [where A = A and log = "\<lambda>_. []"])
  then show ?thesis by (auto simp: A_def Let_def)
qed

lemma run_meta:
  fixes s :: "word512 eim_st"
  assumes "\<forall>x\<in>set xs. sendable x" "eim_idle s" "eim_in s = concat (map ip_words xs)"
  shows "\<exists>n. let t = (extract_ip_meta my ^^ n) s in eim_idle t \<and> eim_in t = [] \<and> eim_out t = eim_out s @ concat (map ip_words xs) \<and>
    eim_ipv4Protocol t = eim_ipv4Protocol s @ map ip_protocol xs \<and>
    eim_validIpAddress t = eim_validIpAddress s @ map (for_us my) xs"
proof -
  define Q where "Q ys xs t \<longleftrightarrow> (\<forall>x\<in>set xs. sendable x) \<and> eim_idle t \<and> eim_in t = concat (map ip_words xs) \<and>
    eim_out t = eim_out s @ concat (map ip_words ys) \<and> eim_ipv4Protocol t = eim_ipv4Protocol s @ map ip_protocol ys \<and>
    eim_validIpAddress t = eim_validIpAddress s @ map (for_us my) ys"
    for ys xs and t :: "word512 eim_st"
  have "\<exists>n. Q (ys @ [x]) xs ((extract_ip_meta my ^^ n) t)" if q: "Q ys (x # xs) t" for ys x xs t
    using meta_packet [of "ip_words x" t "concat (map ip_words xs)" "fst x" my] q sendable_pkt [of x] sendable_first [of x]
    by (intro exI [of _ "length (ip_words x)"]) (simp add: Q_def Let_def ip_protocol_def for_us_def ip_destination_def)
  from run_done [of Q, OF this] have "Q [] xs s \<Longrightarrow> \<exists>n. Q ([] @ xs) [] ((extract_ip_meta my ^^ n) s)" .
  then show ?thesis using assms by (simp add: Q_def Let_def)
qed

lemma run_check:
  "(ip_handler_check_ipv4_checksum ^^ length ss) (ss @ r, o1) = (r, o1 @ map (\<lambda>ss. checksum_of ss = 0) ss)"
  by (induction ss arbitrary: o1)
    (simp_all add: ip_handler_check_ipv4_checksum_def funpow_Suc_right del: funpow.simps(2))

lemma run_duplicate:
  "(ip_handler_duplicate_stream ^^ length ws) (ws @ r, o1, o2) = (r, o1 @ ws, o2 @ ws)"
  by (induction ws arbitrary: o1 o2)
    (simp_all add: ip_handler_duplicate_stream_def funpow_Suc_right del: funpow.simps(2))

lemma run_drop:
  fixes s :: "word512 iid_st"
  assumes "\<forall>x\<in>set xs. sendable x" "iid_state s = GET_VALID" "iid_in s = concat (map ip_words xs)"
    "iid_validChecksum s = map (\<lambda>x. header_sum False x = 0) xs"
    "iid_validIpAddress s = map (for_us my) xs"
  shows "\<exists>n. let t = (ip_invalid_dropper ^^ n) s in iid_state t = GET_VALID \<and> iid_in t = [] \<and> iid_validChecksum t = [] \<and>
    iid_validIpAddress t = [] \<and> iid_out t = iid_out s @ concat (map ip_words (filter (accepted my) xs)) \<and>
    iid_ipv4Valid t = iid_ipv4Valid s @ map (accepted my) xs"
proof -
  define Q where "Q ys xs t \<longleftrightarrow> (\<forall>x\<in>set xs. sendable x) \<and> iid_state t = GET_VALID \<and> iid_in t = concat (map ip_words xs) \<and>
    iid_validChecksum t = map (\<lambda>x. header_sum False x = 0) xs \<and>
    iid_validIpAddress t = map (for_us my) xs \<and>
    iid_out t = iid_out s @ concat (map ip_words (filter (accepted my) ys)) \<and>
    iid_ipv4Valid t = iid_ipv4Valid s @ map (accepted my) ys" for ys xs and t :: "word512 iid_st"
  have "\<exists>n. Q (ys @ [x]) xs ((ip_invalid_dropper ^^ n) t)" if q: "Q ys (x # xs) t" for ys x xs t
    using drop_packet [of "ip_words x" t "concat (map ip_words xs)" "header_sum False x = 0" "map (\<lambda>x. header_sum False x = 0) xs"
        "for_us my x"
        "map (for_us my) xs"] q sendable_pkt [of x]
    by (intro exI [of _ "Suc (length (ip_words x))"]) (simp add: Q_def Let_def accepted_def del: funpow.simps)
  from run_done [of Q, OF this] have "Q [] xs s \<Longrightarrow> \<exists>n. Q ([] @ xs) [] ((ip_invalid_dropper ^^ n) s)" .
  then show ?thesis using assms by (simp add: Q_def Let_def)
qed

lemma run_cut:
  assumes "\<forall>x\<in>set xs. deliverable x" "cl_state s = CL_FIRST" "cl_in s = concat (map ip_words xs)"
  shows "\<exists>n uss. let t = (cut_length_512 ^^ n) s in cl_state t = CL_FIRST \<and> cl_in t = [] \<and> cl_out t = cl_out s @ concat uss \<and>
    list_all2 (\<lambda>x us. carries (trimmed x) us) xs uss"
proof -
  define A where "A xs t \<longleftrightarrow> (\<forall>x\<in>set xs. deliverable x) \<and> cl_state t = CL_FIRST \<and> cl_in t = concat (map ip_words xs)" for xs and t :: cl_st
  have "\<exists>n us. A xs ((cut_length_512 ^^ n) t) \<and> cl_out ((cut_length_512 ^^ n) t) = cl_out t @ us \<and> [] = [] @ [] \<and> carries (trimmed x) us"
    if a: "A (x # xs) t" for x xs t
    using cut_packet [of x t "concat (map ip_words xs)"] a by (auto simp: A_def Let_def)
  moreover have "A xs s" using assms by (simp add: A_def)
  ultimately have "\<exists>n uss. A [] ((cut_length_512 ^^ n) s) \<and> cl_out ((cut_length_512 ^^ n) s) = cl_out s @ concat uss \<and>
      [] = [] @ concat (map (\<lambda>_. []) xs) \<and> list_all2 (\<lambda>x us. carries (trimmed x) us) xs uss"
    by (rule run_relation [where A = A and log = "\<lambda>_. []"])
  then show ?thesis by (auto simp: A_def Let_def)
qed

text \<open>The words of the accepted packets among all packets.\<close>

lemma spread_filter:
  "list_all2 R (filter P xs) yss \<Longrightarrow> \<exists>zs. map fst zs = xs \<and> map snd (filter (P \<circ> fst) zs) = yss \<and>
    (\<forall>z\<in>set zs. P (fst z) \<longrightarrow> R (fst z) (snd z))"
proof (induction xs arbitrary: yss)
  case Nil
  then show ?case by simp
next
  case (Cons x xs)
  show ?case
  proof (cases "P x")
    case True
    with Cons.prems obtain y ys where y: "yss = y # ys" "R x y" "list_all2 R (filter P xs) ys" by (auto simp: list_all2_Cons1)
    from Cons.IH [OF y(3)] obtain zs where "map fst zs = xs" "map snd (filter (P \<circ> fst) zs) = ys"
      "\<forall>z\<in>set zs. P (fst z) \<longrightarrow> R (fst z) (snd z)" by blast
    with y True show ?thesis by (intro exI [of _ "(x, y) # zs"]) (simp add: comp_def)
  next
    case False
    with Cons.prems have "list_all2 R (filter P xs) yss" by simp
    from Cons.IH [OF this] obtain zs where "map fst zs = xs" "map snd (filter (P \<circ> fst) zs) = yss"
      "\<forall>z\<in>set zs. P (fst z) \<longrightarrow> R (fst z) (snd z)" by blast
    with False show ?thesis by (intro exI [of _ "(x, undefined) # zs"]) (simp add: comp_def)
  qed
qed

lemma run_dip:
  fixes s :: "word512 dip_st" and zs :: "(arrival \<times> word512 list) list"
  assumes "\<forall>z\<in>set zs. P (fst z) \<longrightarrow> carries (trimmed (fst z)) (snd z)" "dip_state s = DIP_META"
    "dip_in s = concat (map snd (filter (P \<circ> fst) zs))" "dip_ipv4Protocol s = map (ip_protocol \<circ> fst) zs"
    "dip_ipv4Valid s = map (P \<circ> fst) zs"
  defines "sel \<equiv> \<lambda>p zs :: (arrival \<times> word512 list) list. concat (map snd (filter (\<lambda>z. P (fst z) \<and> ip_protocol (fst z) = p) zs))"
  shows "\<exists>n. let t = (detect_ipv4_protocol ^^ n) s in dip_state t = DIP_META \<and> dip_in t = [] \<and> dip_ipv4Protocol t = [] \<and>
    dip_ipv4Valid t = [] \<and> dip_ICMP t = dip_ICMP s @ sel ICMP zs \<and> dip_UDP t = dip_UDP s @ sel UDP zs \<and> dip_TCP t = dip_TCP s @ sel TCP zs"
proof -
  define Q where "Q ys xs t \<longleftrightarrow> (\<forall>z\<in>set xs. P (fst z) \<longrightarrow> carries (trimmed (fst z)) (snd z)) \<and> dip_state t = DIP_META \<and>
    dip_in t = concat (map snd (filter (P \<circ> fst) xs)) \<and> dip_ipv4Protocol t = map (ip_protocol \<circ> fst) xs \<and>
    dip_ipv4Valid t = map (P \<circ> fst) xs \<and> dip_ICMP t = dip_ICMP s @ sel ICMP ys \<and> dip_UDP t = dip_UDP s @ sel UDP ys \<and>
    dip_TCP t = dip_TCP s @ sel TCP ys" for ys xs :: "(arrival \<times> word512 list) list" and t :: "word512 dip_st"
  have "\<exists>n. Q (ys @ [x]) xs ((detect_ipv4_protocol ^^ n) t)" if q: "Q ys (x # xs) t" for ys x xs t
  proof -
    let ?ws = "if P (fst x) then snd x else [\<lparr>na_data = 0, na_keep = 0, na_last = True\<rparr>]"
    have p: "pkt ?ws" using q carries_pkt by (auto simp: Q_def pkt_def)
    have "\<exists>n. let r = (detect_ipv4_protocol ^^ n) t in dip_state r = DIP_META \<and> dip_in r = concat (map snd (filter (P \<circ> fst) xs)) \<and>
      dip_ipv4Protocol r = map (ip_protocol \<circ> fst) xs \<and> dip_ipv4Valid r = map (P \<circ> fst) xs \<and>
      dip_ICMP r = dip_ICMP t @ (if P (fst x) \<and> ip_protocol (fst x) = ICMP then ?ws else []) \<and>
      dip_UDP r = dip_UDP t @ (if P (fst x) \<and> ip_protocol (fst x) = UDP then ?ws else []) \<and>
      dip_TCP r = dip_TCP t @ (if P (fst x) \<and> ip_protocol (fst x) = TCP then ?ws else [])"
      by (rule dip_packet [OF p]) (use q in \<open>simp_all add: Q_def\<close>)
    with q show ?thesis by (fastforce simp: Q_def Let_def sel_def)
  qed
  from run_done [of Q, OF this] have "Q [] zs s \<Longrightarrow> \<exists>n. Q ([] @ zs) [] ((detect_ipv4_protocol ^^ n) s)" .
  then show ?thesis using assms by (simp add: Q_def Let_def)
qed

definition fr_nextHeader :: "frame \<Rightarrow> u8" where "fr_nextHeader f = bits 55 48 (fr_ip f)"

lemma run_div6:
  fixes s :: "word512 div6_st" and zs :: "(frame \<times> word512 list) list"
  assumes "\<forall>z\<in>set zs. carries (fr_bytes (fst z)) (snd z)" "div6_state s = 0" "div6_in s = concat (map snd zs)"
  defines "sel \<equiv> \<lambda>p zs :: (frame \<times> word512 list) list. concat (map snd (filter (\<lambda>z. fr_nextHeader (fst z) = p) zs))"
  shows "\<exists>n. let t = (detect_ipv6_protocol ^^ n) s in div6_state t = 0 \<and> div6_in t = [] \<and>
    div6_ICMPv6 t = div6_ICMPv6 s @ sel ICMPv6 zs \<and> div6_UDP t = div6_UDP s @ sel UDP zs"
proof -
  define Q where "Q ys xs t \<longleftrightarrow> (\<forall>z\<in>set xs. carries (fr_bytes (fst z)) (snd z)) \<and> div6_state t = 0 \<and> div6_in t = concat (map snd xs) \<and>
    div6_ICMPv6 t = div6_ICMPv6 s @ sel ICMPv6 ys \<and> div6_UDP t = div6_UDP s @ sel UDP ys"
    for ys xs :: "(frame \<times> word512 list) list" and t :: "word512 div6_st"
  have "\<exists>n. Q (ys @ [x]) xs ((detect_ipv6_protocol ^^ n) t)" if q: "Q ys (x # xs) t" for ys x xs t
  proof -
    from q have c: "carries (header_bytes (fr_ip (fst x)) @ fr_rest (fst x)) (snd x)" by (simp add: Q_def fr_bytes_def)
    have "bits 55 48 (na_data (hd (snd x))) = fr_nextHeader (fst x)"
      unfolding fr_nextHeader_def first_header [OF c, of 20, simplified, symmetric]
      by (rule bit_word_eqI) (simp add: bit_bits bit_ucast_iff)
    from div6_packet [OF carries_pkt [OF c] _ _ this, of t "concat (map snd xs)"] q
    show ?thesis by (intro exI [of _ "length (snd x)"]) (simp add: Q_def Let_def sel_def)
  qed
  from run_done [of Q, OF this] have "Q [] zs s \<Longrightarrow> \<exists>n. Q ([] @ zs) [] ((detect_ipv6_protocol ^^ n) s)" .
  then show ?thesis using assms by (simp add: Q_def Let_def)
qed

section \<open>The module\<close>

definition ih_idle :: "ih_st \<Rightarrow> bool" where
  "ih_idle s \<longleftrightarrow> ih_ok s \<and> dep_idle (ih_detect s) \<and> dep_in (ih_detect s) = [] \<and>
     rep_fsmState (ih_route s) = 0 \<and> rep_in (ih_route s) = [] \<and> rep_etherTypeIn (ih_route s) = [] \<and>
     rs_idle (ih_shift4 s) \<and> rs_input (ih_shift4 s) = [] \<and> rs_idle (ih_shift6 s) \<and> rs_input (ih_shift6 s) = [] \<and>
     eim_idle (ih_meta s) \<and> eim_in (ih_meta s) = [] \<and>
     c5_ip_sums (ih_compute s) = replicate 32 0 \<and> c5_firstWord (ih_compute s) \<and> c5_dataIn (ih_compute s) = [] \<and>
     fst (ih_check s) = [] \<and> iid_state (ih_drop s) = GET_VALID \<and> iid_in (ih_drop s) = [] \<and>
     iid_validChecksum (ih_drop s) = [] \<and> iid_validIpAddress (ih_drop s) = [] \<and>
     cl_state (ih_cut s) = CL_FIRST \<and> cl_in (ih_cut s) = [] \<and>
     dip_state (ih_ipv4 s) = DIP_META \<and> dip_in (ih_ipv4 s) = [] \<and> dip_ipv4Protocol (ih_ipv4 s) = [] \<and> dip_ipv4Valid (ih_ipv4 s) = [] \<and>
     div6_state (ih_ipv6 s) = 0 \<and> div6_in (ih_ipv6 s) = [] \<and> fst (ih_duplicate s) = []"

lemma ih_idle_quiet: "ih_idle s \<Longrightarrow> quiet (ih_processes my) s"
  by (simp add: quiet_def ih_processes_def ih_idle_def detect_eth_protocol_def route_by_eth_protocol_def rshiftWordByOctet_def rs_idle_def
      extract_ip_meta_def compute_ipv4_checksum_512_def ip_invalid_dropper_def cut_length_512_def detect_ipv4_protocol_def
      detect_ipv6_protocol_def)

lemma ih_detect_run:
  assumes "ih_ok s"
  shows "(ih_run_detect ^^ n) s = ih_place_detect ((detect_eth_protocol ^^ n) (ih_detect s)) s"
proof (rule placed_run [where clr = "\<lambda>a. a\<lparr>dep_etherType := [], dep_out := []\<rparr>"])
  fix a s
  show "ih_place_detect (detect_eth_protocol ((\<lambda>a. a\<lparr>dep_etherType := [], dep_out := []\<rparr>) a)) (ih_place_detect a s) = ih_place_detect (detect_eth_protocol a) s"
    using detect_frame [where a = a and x = "dep_etherType a" and y = "dep_out a"] by (simp add: ih_place_detect_def Let_def)
qed (use assms in \<open>simp_all add: ih_run_detect_def ih_place_detect_def ih_ok_def \<close>)

lemma ih_route_run:
  assumes "ih_ok s"
  shows "(ih_run_route ^^ n) s = ih_place_route ((route_by_eth_protocol ^^ n) (ih_route s)) s"
proof (rule placed_run [where clr = "\<lambda>a. a\<lparr>rep_IP := [], rep_IPv6 := []\<rparr>"])
  fix a s
  show "ih_place_route (route_by_eth_protocol ((\<lambda>a. a\<lparr>rep_IP := [], rep_IPv6 := []\<rparr>) a)) (ih_place_route a s) = ih_place_route (route_by_eth_protocol a) s"
    using route_frame [where a = a and x = "rep_IP a" and y = "rep_IPv6 a"] by (simp add: ih_place_route_def Let_def)
qed (use assms in \<open>simp_all add: ih_run_route_def ih_place_route_def ih_ok_def \<close>)

lemma ih_shift4_run:
  assumes "ih_ok s"
  shows "(ih_run_shift4 ^^ n) s = ih_place_shift4 ((rshiftWordByOctet 14 ^^ n) (ih_shift4 s)) s"
proof (rule placed_run [where clr = "\<lambda>a. a\<lparr>rs_output := []\<rparr>"])
  fix a s
  show "ih_place_shift4 (rshiftWordByOctet 14 ((\<lambda>a. a\<lparr>rs_output := []\<rparr>) a)) (ih_place_shift4 a s) = ih_place_shift4 (rshiftWordByOctet 14 a) s"
    using rshift_frame [where a = a and x = "rs_output a" and m = 14] by (simp add: ih_place_shift4_def Let_def)
qed (use assms in \<open>simp_all add: ih_run_shift4_def ih_place_shift4_def ih_ok_def ip_handler_rshiftWordByOctet_def\<close>)

lemma ih_shift6_run:
  assumes "ih_ok s"
  shows "(ih_run_shift6 ^^ n) s = ih_place_shift6 ((rshiftWordByOctet 14 ^^ n) (ih_shift6 s)) s"
proof (rule placed_run [where clr = "\<lambda>a. a\<lparr>rs_output := []\<rparr>"])
  fix a s
  show "ih_place_shift6 (rshiftWordByOctet 14 ((\<lambda>a. a\<lparr>rs_output := []\<rparr>) a)) (ih_place_shift6 a s) = ih_place_shift6 (rshiftWordByOctet 14 a) s"
    using rshift_frame [where a = a and x = "rs_output a" and m = 14] by (simp add: ih_place_shift6_def Let_def)
qed (use assms in \<open>simp_all add: ih_run_shift6_def ih_place_shift6_def ih_ok_def ip_handler_rshiftWordByOctet_def\<close>)

lemma ih_meta_run:
  assumes "ih_ok s"
  shows "(ih_run_meta my ^^ n) s = ih_place_meta ((extract_ip_meta my ^^ n) (ih_meta s)) s"
proof (rule placed_run [where clr = "\<lambda>a. a\<lparr>eim_out := [], eim_ipv4Protocol := [], eim_validIpAddress := []\<rparr>"])
  fix a s
  show "ih_place_meta (extract_ip_meta my ((\<lambda>a. a\<lparr>eim_out := [], eim_ipv4Protocol := [], eim_validIpAddress := []\<rparr>) a)) (ih_place_meta a s) = ih_place_meta (extract_ip_meta my a) s"
    using meta_frame [where a = a and x = "eim_out a" and y = "eim_ipv4Protocol a" and z = "eim_validIpAddress a" and ip = my] by (simp add: ih_place_meta_def Let_def)
qed (use assms in \<open>simp_all add: ih_run_meta_def ih_place_meta_def ih_ok_def \<close>)

lemma ih_compute_run:
  assumes "ih_ok s"
  shows "(ih_run_compute ^^ n) s = ih_place_compute ((compute_ipv4_checksum_512 False ^^ n) (ih_compute s)) s"
proof (rule placed_run [where clr = "\<lambda>a. a\<lparr>c5_dataOut := [], c5_subSumFiFoOut := []\<rparr>"])
  fix a s
  show "ih_place_compute (compute_ipv4_checksum_512 False ((\<lambda>a. a\<lparr>c5_dataOut := [], c5_subSumFiFoOut := []\<rparr>) a)) (ih_place_compute a s) = ih_place_compute (compute_ipv4_checksum_512 False a) s"
    using compute_512_frame [where a = a and x = "c5_dataOut a" and y = "c5_subSumFiFoOut a" and b = False] by (simp add: ih_place_compute_def Let_def)
qed (use assms in \<open>simp_all add: ih_run_compute_def ih_place_compute_def ih_ok_def ip_handler_compute_ipv4_checksum_def fst_only\<close>)

lemma ih_check_run:
  assumes "ih_ok s"
  shows "(ih_run_check ^^ n) s = ih_place_check ((ip_handler_check_ipv4_checksum ^^ n) (ih_check s)) s"
proof (rule placed_run [where clr = "\<lambda>a. (fst a, [])"])
  fix a s
  show "ih_place_check (ip_handler_check_ipv4_checksum ((\<lambda>a. (fst a, [])) a)) (ih_place_check a s) = ih_place_check (ip_handler_check_ipv4_checksum a) s"
    using check_frame [of "fst a" "snd a"] by (simp add: ih_place_check_def Let_def)
qed (use assms in \<open>simp_all add: ih_run_check_def ih_place_check_def ih_ok_def fst_only\<close>)

lemma ih_drop_run:
  assumes "ih_ok s"
  shows "(ih_run_drop ^^ n) s = ih_place_drop ((ip_invalid_dropper ^^ n) (ih_drop s)) s"
proof (rule placed_run [where clr = "\<lambda>a. a\<lparr>iid_out := [], iid_ipv4Valid := []\<rparr>"])
  fix a s
  show "ih_place_drop (ip_invalid_dropper ((\<lambda>a. a\<lparr>iid_out := [], iid_ipv4Valid := []\<rparr>) a)) (ih_place_drop a s) = ih_place_drop (ip_invalid_dropper a) s"
    using drop_frame [where a = a and x = "iid_out a" and y = "iid_ipv4Valid a"] by (simp add: ih_place_drop_def Let_def)
qed (use assms in \<open>simp_all add: ih_run_drop_def ih_place_drop_def ih_ok_def \<close>)

lemma ih_cut_run:
  assumes "ih_ok s"
  shows "(ih_run_cut ^^ n) s = ih_place_cut ((cut_length_512 ^^ n) (ih_cut s)) s"
proof (rule placed_run [where clr = "\<lambda>a. a\<lparr>cl_out := []\<rparr>"])
  fix a s
  show "ih_place_cut (cut_length_512 ((\<lambda>a. a\<lparr>cl_out := []\<rparr>) a)) (ih_place_cut a s) = ih_place_cut (cut_length_512 a) s"
    using cut_frame [where a = a and x = "cl_out a"] by (simp add: ih_place_cut_def Let_def)
qed (use assms in \<open>simp_all add: ih_run_cut_def ih_place_cut_def ih_ok_def \<close>)

lemma ih_ipv4_run:
  assumes "ih_ok s"
  shows "(ih_run_ipv4 ^^ n) s = ih_place_ipv4 ((detect_ipv4_protocol ^^ n) (ih_ipv4 s)) s"
proof (rule placed_run [where clr = "\<lambda>a. a\<lparr>dip_UDP := []\<rparr>"])
  fix a s
  show "ih_place_ipv4 (detect_ipv4_protocol ((\<lambda>a. a\<lparr>dip_UDP := []\<rparr>) a)) (ih_place_ipv4 a s) = ih_place_ipv4 (detect_ipv4_protocol a) s"
    using dip_frame [where a = a and x = "dip_UDP a"] by (simp add: ih_place_ipv4_def Let_def)
qed (use assms in \<open>simp_all add: ih_run_ipv4_def ih_place_ipv4_def ih_ok_def \<close>)

lemma ih_ipv6_run: "(ih_run_ipv6 ^^ n) s = s\<lparr>ih_ipv6 := (detect_ipv6_protocol ^^ n) (ih_ipv6 s)\<rparr>"
  by (rule placed_run [where clr = "\<lambda>a. a" and P = "\<lambda>a s. s\<lparr>ih_ipv6 := a\<rparr>"]) (simp_all add: ih_run_ipv6_def)

lemma ih_duplicate_run: "(ih_run_duplicate ^^ n) s = s\<lparr>ih_duplicate := (ip_handler_duplicate_stream ^^ n) (ih_duplicate s)\<rparr>"
  by (rule placed_run [where clr = "\<lambda>a. a" and P = "\<lambda>a s. s\<lparr>ih_duplicate := a\<rparr>"]) (simp_all add: ih_run_duplicate_def)

text \<open>The first half: frames are told apart and shifted.\<close>

lemma ih_front:
  fixes fs :: "frame list"
  assumes s: "ih_idle s" and fs: "\<forall>f\<in>set fs. frame_ok f"
  defines "s' \<equiv> s\<lparr>ih_detect := (ih_detect s)\<lparr>dep_in := concat (map fr_words fs)\<rparr>\<rparr>"
  shows "\<exists>ps uss zs. fst ` set ps \<subseteq> snd ` set (ih_processes my) \<and> list_all2 (\<lambda>f us. carries (fr_bytes f) us) (of_type IPv4 fs) uss \<and>
    map fst zs = of_type IPv6 fs \<and> (\<forall>z\<in>set zs. carries (fr_bytes (fst z)) (snd z)) \<and>
    (let t = schedule ps s' in ih_idle (t\<lparr>ih_meta := ih_meta s\<rparr>) \<and> ih_meta t = (ih_meta s)\<lparr>eim_in := concat uss\<rparr> \<and>
       ih_ipv4 t = ih_ipv4 s \<and> ih_duplicate t = ih_duplicate s \<and>
       rep_ARP (ih_route t) = rep_ARP (ih_route s) @ concat (map fr_words (of_type ARP fs)) \<and>
       div6_ICMPv6 (ih_ipv6 t) = div6_ICMPv6 (ih_ipv6 s) @ concat (map snd (filter (\<lambda>z. fr_nextHeader (fst z) = ICMPv6) zs)) \<and>
       div6_UDP (ih_ipv6 t) = div6_UDP (ih_ipv6 s) @ concat (map snd (filter (\<lambda>z. fr_nextHeader (fst z) = UDP) zs)))"
proof -
  have i: "ih_ok s'" "dep_idle (ih_detect s')" "dep_out (ih_detect s') = []" "dep_etherType (ih_detect s') = []"
    using s by (simp_all add: s'_def ih_idle_def ih_ok_def dep_idle_def)
  from run_detect [OF fs i(2)] obtain n1 where n1: "let t = (detect_eth_protocol ^^ n1) (ih_detect s') in
      dep_idle t \<and> dep_in t = [] \<and> dep_out t = concat (map fr_words fs) \<and> dep_etherType t = map fr_type fs"
    using i(3,4) by (auto simp: s'_def Let_def)
  define t1 where "t1 = (ih_run_detect ^^ n1) s'"
  have t1: "t1 = ih_place_detect ((detect_eth_protocol ^^ n1) (ih_detect s')) s'" unfolding t1_def by (rule ih_detect_run [OF i(1)])
  have c1: "rep_fsmState (ih_route t1) = 0" "rep_in (ih_route t1) = concat (map fr_words fs)" "rep_etherTypeIn (ih_route t1) = map fr_type fs"
    "ih_ok t1" "rep_IP (ih_route t1) = []" "rep_IPv6 (ih_route t1) = []" "rep_ARP (ih_route t1) = rep_ARP (ih_route s)"
    using n1 s i(1) by (simp_all add: t1 ih_place_detect_def s'_def ih_idle_def ih_ok_def Let_def)
  from run_route [OF fs c1(1-3)] c1(5-7) obtain n2 where n2: "let t = (route_by_eth_protocol ^^ n2) (ih_route t1) in
      rep_fsmState t = 0 \<and> rep_in t = [] \<and> rep_etherTypeIn t = [] \<and>
      rep_ARP t = rep_ARP (ih_route s) @ concat (map fr_words (of_type ARP fs)) \<and> rep_IP t = concat (map fr_words (of_type IPv4 fs)) \<and>
      rep_IPv6 t = concat (map fr_words (of_type IPv6 fs))" by (auto simp: Let_def)
  define t2 where "t2 = (ih_run_route ^^ n2) t1"
  have t2: "t2 = ih_place_route ((route_by_eth_protocol ^^ n2) (ih_route t1)) t1" unfolding t2_def by (rule ih_route_run [OF c1(4)])
  have c2: "rs_idle (ih_shift4 t2)" "rs_input (ih_shift4 t2) = concat (map fr_words (of_type IPv4 fs))" "ih_ok t2" "rs_output (ih_shift4 t2) = []"
    "rs_idle (ih_shift6 t2)" "rs_input (ih_shift6 t2) = concat (map fr_words (of_type IPv6 fs))" "rs_output (ih_shift6 t2) = []"
    using n1 n2 s i(1) c1(4) by (simp_all add: t1 t2 ih_place_detect_def ih_place_route_def s'_def ih_idle_def ih_ok_def rs_idle_def Let_def)
  have ty: "\<forall>f\<in>set (of_type ty fs). frame_ok f" for ty using fs by simp
  from run_rshift [OF ty c2(1,2)] c2(4) obtain n3 uss where n3: "let t = (rshiftWordByOctet 14 ^^ n3) (ih_shift4 t2) in
      rs_idle t \<and> rs_input t = [] \<and> rs_output t = concat uss" "list_all2 (\<lambda>f us. carries (fr_bytes f) us) (of_type IPv4 fs) uss"
    by (auto simp: Let_def)
  define t3 where "t3 = (ih_run_shift4 ^^ n3) t2"
  have t3: "t3 = ih_place_shift4 ((rshiftWordByOctet 14 ^^ n3) (ih_shift4 t2)) t2" unfolding t3_def by (rule ih_shift4_run [OF c2(3)])
  have c3: "ih_ok t3" "rs_idle (ih_shift6 t3)" "rs_input (ih_shift6 t3) = concat (map fr_words (of_type IPv6 fs))" "rs_output (ih_shift6 t3) = []"
    using c2 by (simp_all add: t3 ih_place_shift4_def ih_ok_def rs_idle_def)
  from run_rshift [OF ty c3(2,3)] c3(4) obtain n4 yss where n4: "let t = (rshiftWordByOctet 14 ^^ n4) (ih_shift6 t3) in
      rs_idle t \<and> rs_input t = [] \<and> rs_output t = concat yss" "list_all2 (\<lambda>f us. carries (fr_bytes f) us) (of_type IPv6 fs) yss"
    by (auto simp: Let_def)
  define t4 where "t4 = (ih_run_shift6 ^^ n4) t3"
  have t4: "t4 = ih_place_shift6 ((rshiftWordByOctet 14 ^^ n4) (ih_shift6 t3)) t3" unfolding t4_def by (rule ih_shift6_run [OF c3(1)])
  from spread_filter [where P = "\<lambda>_. True" and xs = "of_type IPv6 fs" and yss = yss] n4(2) obtain zs where
    z: "map fst zs = of_type IPv6 fs" "map snd zs = yss" "\<forall>z\<in>set zs. carries (fr_bytes (fst z)) (snd z)" by auto
  have c4: "div6_state (ih_ipv6 t4) = 0" "div6_in (ih_ipv6 t4) = concat (map snd zs)" "div6_ICMPv6 (ih_ipv6 t4) = div6_ICMPv6 (ih_ipv6 s)"
    "div6_UDP (ih_ipv6 t4) = div6_UDP (ih_ipv6 s)"
    using n4(1) s z(2) by (simp_all add: t1 t2 t3 t4 ih_place_defs s'_def ih_idle_def Let_def)
  from run_div6 [OF z(3) c4(1,2)] c4(3,4) obtain n5 where n5: "let t = (detect_ipv6_protocol ^^ n5) (ih_ipv6 t4) in
      div6_state t = 0 \<and> div6_in t = [] \<and>
      div6_ICMPv6 t = div6_ICMPv6 (ih_ipv6 s) @ concat (map snd (filter (\<lambda>z. fr_nextHeader (fst z) = ICMPv6) zs)) \<and>
      div6_UDP t = div6_UDP (ih_ipv6 s) @ concat (map snd (filter (\<lambda>z. fr_nextHeader (fst z) = UDP) zs))" by (auto simp: Let_def)
  let ?ps = "[(ih_run_detect, n1), (ih_run_route, n2), (ih_run_shift4, n3), (ih_run_shift6, n4), (ih_run_ipv6, n5)]"
  have t: "schedule ?ps s' = t4\<lparr>ih_ipv6 := (detect_ipv6_protocol ^^ n5) (ih_ipv6 t4)\<rparr>"
    by (simp add: ih_ipv6_run flip: t1_def t2_def t3_def t4_def)
  note steps = t1 t2 t3 t4 ih_place_detect_def ih_place_route_def ih_place_shift4_def ih_place_shift6_def
  show ?thesis
  proof (intro exI [of _ ?ps] exI [of _ uss] exI [of _ zs] conjI n3(2) z(1,3))
    show "fst ` set ?ps \<subseteq> snd ` set (ih_processes my)" by (auto simp: ih_processes_def)
    have "ih_meta (schedule ?ps s') = (ih_meta s)\<lparr>eim_in := concat uss\<rparr>" "ih_ipv4 (schedule ?ps s') = ih_ipv4 s"
      "ih_duplicate (schedule ?ps s') = ih_duplicate s"
      "rep_ARP (ih_route (schedule ?ps s')) = rep_ARP (ih_route s) @ concat (map fr_words (of_type ARP fs))"
      unfolding t using s n2 n3(1) by (simp_all add: steps s'_def ih_idle_def Let_def)
    moreover have "ih_idle ((schedule ?ps s')\<lparr>ih_meta := ih_meta s\<rparr>)"
      unfolding t using s n1 n2 n3(1) n4(1) n5
      by (simp add: steps s'_def ih_idle_def ih_ok_def Let_def dep_idle_def rs_idle_def)
    ultimately show "let t = schedule ?ps s' in ih_idle (t\<lparr>ih_meta := ih_meta s\<rparr>) \<and> ih_meta t = (ih_meta s)\<lparr>eim_in := concat uss\<rparr> \<and>
       ih_ipv4 t = ih_ipv4 s \<and> ih_duplicate t = ih_duplicate s \<and>
       rep_ARP (ih_route t) = rep_ARP (ih_route s) @ concat (map fr_words (of_type ARP fs)) \<and>
       div6_ICMPv6 (ih_ipv6 t) = div6_ICMPv6 (ih_ipv6 s) @ concat (map snd (filter (\<lambda>z. fr_nextHeader (fst z) = ICMPv6) zs)) \<and>
       div6_UDP (ih_ipv6 t) = div6_UDP (ih_ipv6 s) @ concat (map snd (filter (\<lambda>z. fr_nextHeader (fst z) = UDP) zs))"
      using n5 unfolding t by (simp add: Let_def)
  qed
qed

text \<open>The second half: IPv4 datagrams are checked, trimmed and handed out by protocol.\<close>

abbreviation of_protocol :: "u32 \<Rightarrow> u8 \<Rightarrow> arrival list \<Rightarrow> arrival list" where
  "of_protocol my p \<equiv> filter (\<lambda>x. accepted my x \<and> ip_protocol x = p)"

lemma ih_back:
  assumes t: "ih_idle (t\<lparr>ih_meta := a\<rparr>)" "ih_meta t = a\<lparr>eim_in := concat (map ip_words xs)\<rparr>" and xs: "\<forall>x\<in>set xs. deliverable x"
  shows "\<exists>ps uss vss wss. fst ` set ps \<subseteq> snd ` set (ih_processes my) \<and>
    list_all2 (\<lambda>x us. carries (trimmed x) us) (of_protocol my ICMP xs) uss \<and>
    list_all2 (\<lambda>x us. carries (trimmed x) us) (of_protocol my UDP xs) vss \<and>
    list_all2 (\<lambda>x us. carries (trimmed x) us) (of_protocol my TCP xs) wss \<and>
    (let r = schedule ps t in ih_idle r \<and> ih_route r = ih_route t \<and> ih_ipv6 r = ih_ipv6 t \<and>
       dip_ICMP (ih_ipv4 r) = dip_ICMP (ih_ipv4 t) @ concat uss \<and> dip_TCP (ih_ipv4 r) = dip_TCP (ih_ipv4 t) @ concat wss \<and>
       snd (ih_duplicate r) = (fst (snd (ih_duplicate t)) @ concat vss, snd (snd (ih_duplicate t)) @ concat vss))"
proof -
  have send: "\<forall>x\<in>set xs. sendable x" using xs by (auto simp: deliverable_def)
  have i: "ih_ok t" "eim_idle (ih_meta t)" "eim_in (ih_meta t) = concat (map ip_words xs)" "eim_out (ih_meta t) = []"
    "eim_ipv4Protocol (ih_meta t) = []" "eim_validIpAddress (ih_meta t) = []"
    using t by (simp_all add: ih_idle_def ih_ok_def eim_idle_def)
  from run_meta [OF send i(2,3), of my] i(4-6) obtain n1 where n1: "let r = (extract_ip_meta my ^^ n1) (ih_meta t) in
      eim_idle r \<and> eim_in r = [] \<and> eim_out r = concat (map ip_words xs) \<and> eim_ipv4Protocol r = map ip_protocol xs \<and>
      eim_validIpAddress r = map (for_us my) xs" by (auto simp: Let_def)
  define t1 where "t1 = (ih_run_meta my ^^ n1) t"
  have t1: "t1 = ih_place_meta ((extract_ip_meta my ^^ n1) (ih_meta t)) t" unfolding t1_def by (rule ih_meta_run [OF i(1)])
  have c1: "c5_ip_sums (ih_compute t1) = replicate 32 0" "c5_firstWord (ih_compute t1)" "c5_dataIn (ih_compute t1) = concat (map ip_words xs)"
    "ih_ok t1" "c5_dataOut (ih_compute t1) = []" "c5_subSumFiFoOut (ih_compute t1) = []"
    using n1 t i(1) by (simp_all add: t1 ih_place_meta_def ih_idle_def ih_ok_def Let_def)
  from run_compute [OF send c1(1-3), of False] c1(5,6) obtain n2 sss where n2: "let r = (compute_ipv4_checksum_512 False ^^ n2) (ih_compute t1) in
      c5_ip_sums r = replicate 32 0 \<and> c5_firstWord r \<and> c5_dataIn r = [] \<and> c5_subSumFiFoOut r = sss \<and>
      map checksum_of sss = map (header_sum False) xs \<and> c5_dataOut r = concat (map ip_words xs)" by auto
  define t2 where "t2 = (ih_run_compute ^^ n2) t1"
  have t2: "t2 = ih_place_compute ((compute_ipv4_checksum_512 False ^^ n2) (ih_compute t1)) t1" unfolding t2_def by (rule ih_compute_run [OF c1(4)])
  have c2: "ih_check t2 = (sss, [])" "ih_ok t2"
    using n2 t c1(4) by (simp_all add: t1 t2 ih_place_compute_def ih_place_meta_def ih_idle_def ih_ok_def Let_def)
  define t3 where "t3 = (ih_run_check ^^ length sss) t2"
  have valid: "map (\<lambda>ss. checksum_of ss = 0) sss = map (\<lambda>x. header_sum False x = 0) xs"
  proof -
    from n2 have "map checksum_of sss = map (header_sum False) xs" by (simp add: Let_def)
    from arg_cong [OF this, of "map (\<lambda>c. c = 0)"] show ?thesis by (simp add: comp_def)
  qed
  have t3: "t3 = ih_place_check ([], map (\<lambda>x. header_sum False x = 0) xs) t2"
    using ih_check_run [OF c2(2), of "length sss"] run_check [of sss "[]" "[]"] c2(1) valid by (simp add: t3_def)
  have c3: "iid_state (ih_drop t3) = GET_VALID" "iid_in (ih_drop t3) = concat (map ip_words xs)"
    "iid_validChecksum (ih_drop t3) = map (\<lambda>x. header_sum False x = 0) xs" "iid_validIpAddress (ih_drop t3) = map (for_us my) xs"
    "ih_ok t3" "iid_out (ih_drop t3) = []" "iid_ipv4Valid (ih_drop t3) = []"
    using n1 n2 t c2 by (simp_all add: t1 t2 t3 ih_place_check_def ih_place_compute_def ih_place_meta_def ih_idle_def ih_ok_def Let_def)
  from run_drop [OF send c3(1-4)] c3(6,7) obtain n4 where n4: "let r = (ip_invalid_dropper ^^ n4) (ih_drop t3) in
      iid_state r = GET_VALID \<and> iid_in r = [] \<and> iid_validChecksum r = [] \<and> iid_validIpAddress r = [] \<and>
      iid_out r = concat (map ip_words (filter (accepted my) xs)) \<and> iid_ipv4Valid r = map (accepted my) xs" by (auto simp: Let_def)
  define t4 where "t4 = (ih_run_drop ^^ n4) t3"
  have t4: "t4 = ih_place_drop ((ip_invalid_dropper ^^ n4) (ih_drop t3)) t3" unfolding t4_def by (rule ih_drop_run [OF c3(5)])
  have c4: "cl_state (ih_cut t4) = CL_FIRST" "cl_in (ih_cut t4) = concat (map ip_words (filter (accepted my) xs))" "ih_ok t4" "cl_out (ih_cut t4) = []"
    using n4 t c3(5) by (simp_all add: t1 t2 t3 t4 ih_place_drop_def ih_place_check_def ih_place_compute_def ih_place_meta_def ih_idle_def ih_ok_def Let_def)
  have del: "\<forall>x\<in>set (filter (accepted my) xs). deliverable x" using xs by simp
  from run_cut [OF del c4(1,2)] c4(4) obtain n5 yss where n5: "let r = (cut_length_512 ^^ n5) (ih_cut t4) in
      cl_state r = CL_FIRST \<and> cl_in r = [] \<and> cl_out r = concat yss" "list_all2 (\<lambda>x us. carries (trimmed x) us) (filter (accepted my) xs) yss"
    by (auto simp: Let_def)
  define t5 where "t5 = (ih_run_cut ^^ n5) t4"
  have t5: "t5 = ih_place_cut ((cut_length_512 ^^ n5) (ih_cut t4)) t4" unfolding t5_def by (rule ih_cut_run [OF c4(3)])
  from spread_filter [OF n5(2)] obtain zs where z: "map fst zs = xs" "map snd (filter (accepted my \<circ> fst) zs) = yss"
    "\<forall>z\<in>set zs. accepted my (fst z) \<longrightarrow> carries (trimmed (fst z)) (snd z)" by blast
  have m: "map h xs = map (h \<circ> fst) zs" for h :: "arrival \<Rightarrow> 'b" unfolding z(1) [symmetric] by simp
  have c5: "dip_state (ih_ipv4 t5) = DIP_META" "dip_in (ih_ipv4 t5) = concat (map snd (filter (accepted my \<circ> fst) zs))"
    "dip_ipv4Protocol (ih_ipv4 t5) = map (ip_protocol \<circ> fst) zs" "dip_ipv4Valid (ih_ipv4 t5) = map (accepted my \<circ> fst) zs"
    "ih_ok t5" "dip_UDP (ih_ipv4 t5) = []" "dip_ICMP (ih_ipv4 t5) = dip_ICMP (ih_ipv4 t)" "dip_TCP (ih_ipv4 t5) = dip_TCP (ih_ipv4 t)"
    using n1 n4 n5(1) t c4(3) unfolding z(2) m [symmetric]
    by (simp_all add: t1 t2 t3 t4 t5 ih_place_defs ih_idle_def ih_ok_def Let_def)
  let ?words = "\<lambda>p. map snd (filter (\<lambda>z. accepted my (fst z) \<and> ip_protocol (fst z) = p) zs)"
  let ?sel = "\<lambda>p. concat (?words p)"
  from run_dip [OF z(3) c5(1-4)] c5(6-8) obtain n6 where n6: "let r = (detect_ipv4_protocol ^^ n6) (ih_ipv4 t5) in
      dip_state r = DIP_META \<and> dip_in r = [] \<and> dip_ipv4Protocol r = [] \<and> dip_ipv4Valid r = [] \<and>
      dip_ICMP r = dip_ICMP (ih_ipv4 t) @ ?sel ICMP \<and> dip_UDP r = ?sel UDP \<and> dip_TCP r = dip_TCP (ih_ipv4 t) @ ?sel TCP" by auto
  define t6 where "t6 = (ih_run_ipv4 ^^ n6) t5"
  have t6: "t6 = ih_place_ipv4 ((detect_ipv4_protocol ^^ n6) (ih_ipv4 t5)) t5" unfolding t6_def by (rule ih_ipv4_run [OF c5(5)])
  have c6: "ih_duplicate t6 = (?sel UDP @ [], snd (ih_duplicate t))"
    using n6 t by (simp add: t1 t2 t3 t4 t5 t6 ih_place_defs ih_idle_def Let_def)
  have sel: "list_all2 (\<lambda>x us. carries (trimmed x) us) (of_protocol my p xs) (map snd (filter (\<lambda>z. accepted my (fst z) \<and> ip_protocol (fst z) = p) zs))" for p
    using z(3) unfolding z(1) [symmetric] by (induction zs) auto
  let ?ps = "[(ih_run_meta my, n1), (ih_run_compute, n2), (ih_run_check, length sss), (ih_run_drop, n4), (ih_run_cut, n5),
    (ih_run_ipv4, n6), (ih_run_duplicate, length (?sel UDP))]"
  have r: "schedule ?ps t = t6\<lparr>ih_duplicate := ([], fst (snd (ih_duplicate t)) @ ?sel UDP, snd (snd (ih_duplicate t)) @ ?sel UDP)\<rparr>"
    using run_duplicate [of "?sel UDP" "[]" "fst (snd (ih_duplicate t))" "snd (snd (ih_duplicate t))"] c6
    by (simp add: ih_duplicate_run flip: t1_def t2_def t3_def t4_def t5_def t6_def)
  have "fst ` set ?ps \<subseteq> snd ` set (ih_processes my)" by (auto simp: ih_processes_def)
  moreover have "let r = schedule ?ps t in ih_idle r \<and> ih_route r = ih_route t \<and> ih_ipv6 r = ih_ipv6 t \<and>
       dip_ICMP (ih_ipv4 r) = dip_ICMP (ih_ipv4 t) @ ?sel ICMP \<and> dip_TCP (ih_ipv4 r) = dip_TCP (ih_ipv4 t) @ ?sel TCP \<and>
       snd (ih_duplicate r) = (fst (snd (ih_duplicate t)) @ ?sel UDP, snd (snd (ih_duplicate t)) @ ?sel UDP)"
      unfolding r using t n1 n2 n4 n5(1) n6
      by (simp add: t1 t2 t3 t4 t5 t6 ih_place_defs ih_idle_def ih_ok_def Let_def eim_idle_def)
  ultimately show ?thesis using sel [of ICMP] sel [of UDP] sel [of TCP] by blast
qed

section \<open>Delivery\<close>

datatype port = Arp_port | Icmpv6_port | Ipv6udp_port | Icmp_port | Udp_port | Roce_port | Tcp_port

fun stream_at :: "port \<Rightarrow> ih_st \<Rightarrow> word512 fifo" where
  "stream_at Arp_port s = rep_ARP (ih_route s)"
| "stream_at Icmpv6_port s = div6_ICMPv6 (ih_ipv6 s)"
| "stream_at Ipv6udp_port s = div6_UDP (ih_ipv6 s)"
| "stream_at Icmp_port s = dip_ICMP (ih_ipv4 s)"
| "stream_at Udp_port s = fst (snd (ih_duplicate s))"
| "stream_at Roce_port s = snd (snd (ih_duplicate s))"
| "stream_at Tcp_port s = dip_TCP (ih_ipv4 s)"

text \<open>What each stream is for, and the bytes it gets.\<close>

definition fr_arrival :: "frame \<Rightarrow> arrival" where "fr_arrival f = fr_datagram (f, [])"

lemma fr_datagram_same:
  "header_sum b (fr_datagram z) = header_sum b (fr_arrival (fst z))" "ip_destination (fr_datagram z) = ip_destination (fr_arrival (fst z))"
  "ip_protocol (fr_datagram z) = ip_protocol (fr_arrival (fst z))" "ip_total (fr_datagram z) = ip_total (fr_arrival (fst z))"
  "ip_header_length (fr_datagram z) = ip_header_length (fr_arrival (fst z))" "ip_bytes (fr_arrival f) = fr_bytes f"
  "accepted my (fr_datagram z) = accepted my (fr_arrival (fst z))" "trimmed (fr_datagram z) = trimmed (fr_arrival (fst z))"
  by (simp_all add: fr_arrival_def header_sum_def ip_destination_def ip_protocol_def ip_total_def ip_header_length_def
      accepted_def for_us_def trimmed_def)

definition datagram_for :: "u32 \<Rightarrow> u8 \<Rightarrow> frame \<Rightarrow> bool" where
  "datagram_for my p f \<longleftrightarrow> fr_type f = 0x0800 \<and> accepted my (fr_arrival f) \<and> ip_protocol (fr_arrival f) = p"

fun meant_for :: "u32 \<Rightarrow> port \<Rightarrow> frame \<Rightarrow> bool" where
  "meant_for my Arp_port f \<longleftrightarrow> fr_type f = 0x0806"
| "meant_for my Icmpv6_port f \<longleftrightarrow> fr_type f = 0x86DD \<and> fr_nextHeader f = 58"
| "meant_for my Ipv6udp_port f \<longleftrightarrow> fr_type f = 0x86DD \<and> fr_nextHeader f = 17"
| "meant_for my Icmp_port f \<longleftrightarrow> datagram_for my 1 f"
| "meant_for my Udp_port f \<longleftrightarrow> datagram_for my 17 f"
| "meant_for my Roce_port f \<longleftrightarrow> datagram_for my 17 f"
| "meant_for my Tcp_port f \<longleftrightarrow> datagram_for my 6 f"

definition delivered :: "port \<Rightarrow> frame \<Rightarrow> u8 list" where
  "delivered p f =
     (if p = Arp_port then header_bytes (fr_eth f) @ fr_bytes f
      else if p \<in> {Icmpv6_port, Ipv6udp_port} then fr_bytes f
      else trimmed (fr_arrival f))"

text \<open>A datagram's length fields fit together: no header is longer than its datagram, and no datagram
  longer than its frame.\<close>

definition lengths_ok :: "arrival \<Rightarrow> bool" where
  "lengths_ok x \<longleftrightarrow> 20 \<le> ip_header_length x \<and> ip_header_length x \<le> ip_total x \<and> ip_total x \<le> length (ip_bytes x)"

text \<open>C39: delivery.  Any sequence of frames given to an idle \<open>ip_handler\<close>, in which the length fields of
  every IPv4 frame are consistent (a header of 20 bytes or more, not longer than the datagram, which
  is not longer than the bytes that are there; the code does not check this), is told apart by Ethertype,
  protocol, header checksum and destination: each output stream gets the frames that are meant for
  it, whole, in order, and no others; UDP datagrams go to the UDP and to the RoCE stream.  ARP frames
  keep their Ethernet header, the others lose it; a datagram of at most 64 bytes is cut to its
  length.  IPv4 datagrams whose header does not sum to 0, or which are neither for this address
  nor broadcast, are dropped.\<close>

theorem ip_handler_delivers:
  fixes fs :: "frame list"
  assumes s: "ih_idle s" and fs: "\<forall>f\<in>set fs. frame_ok f \<and> (fr_type f = 0x0800 \<longrightarrow> lengths_ok (fr_arrival f))"
  defines "s' \<equiv> s\<lparr>ih_detect := (ih_detect s)\<lparr>dep_in := concat (map fr_words fs)\<rparr>\<rparr>"
  shows "\<exists>N. (\<forall>k\<ge>N. ih_idle ((ip_handler_core my ^^ k) s')) \<and>
    (\<forall>p. \<exists>wss. list_all2 (\<lambda>f us. carries (delivered p f) us) (filter (meant_for my p) fs) wss \<and>
       (\<forall>k\<ge>N. stream_at p ((ip_handler_core my ^^ k) s') = stream_at p s @ concat wss))"
proof -
  have ok: "\<forall>f\<in>set fs. frame_ok f" using fs by simp
  from ih_front [OF s ok, of my] obtain ps uss zs where f: "fst ` set ps \<subseteq> snd ` set (ih_processes my)"
    "list_all2 (\<lambda>f us. carries (fr_bytes f) us) (of_type IPv4 fs) uss" "map fst zs = of_type IPv6 fs"
    "\<forall>z\<in>set zs. carries (fr_bytes (fst z)) (snd z)" "ih_idle ((schedule ps s')\<lparr>ih_meta := ih_meta s\<rparr>)"
    "ih_meta (schedule ps s') = (ih_meta s)\<lparr>eim_in := concat uss\<rparr>" "ih_ipv4 (schedule ps s') = ih_ipv4 s"
    "ih_duplicate (schedule ps s') = ih_duplicate s"
    "rep_ARP (ih_route (schedule ps s')) = rep_ARP (ih_route s) @ concat (map fr_words (of_type ARP fs))"
    "div6_ICMPv6 (ih_ipv6 (schedule ps s')) = div6_ICMPv6 (ih_ipv6 s) @ concat (map snd (filter (\<lambda>z. fr_nextHeader (fst z) = ICMPv6) zs))"
    "div6_UDP (ih_ipv6 (schedule ps s')) = div6_UDP (ih_ipv6 s) @ concat (map snd (filter (\<lambda>z. fr_nextHeader (fst z) = UDP) zs))"
    unfolding s'_def Let_def by blast
  define xs where "xs = map fr_datagram (zip (of_type IPv4 fs) uss)"
  have l: "length uss = length (of_type IPv4 fs)" using list_all2_lengthD [OF f(2)] by simp
  have w: "map ip_words xs = uss" unfolding xs_def using l by (auto intro!: nth_equalityI)
  have del: "\<forall>x\<in>set xs. deliverable x"
  proof
    fix x assume "x \<in> set xs"
    then obtain g us where x: "x = fr_datagram (g, us)" "(g, us) \<in> set (zip (of_type IPv4 fs) uss)" by (auto simp: xs_def)
    then have "carries (fr_bytes g) us" "g \<in> set fs" "fr_type g = 0x0800"
      using f(2) set_zip_leftD [OF x(2)] by (auto simp: list_all2_iff IPv4_def)
    with fs show "deliverable x" unfolding x(1)
      by (auto simp: deliverable_def sendable_def lengths_ok_def fr_datagram_same)
  qed
  have "ih_meta (schedule ps s') = (ih_meta s)\<lparr>eim_in := concat (map ip_words xs)\<rparr>" unfolding w by (rule f(6))
  from ih_back [OF f(5) this del, of my] obtain qs ass bss css where g: "fst ` set qs \<subseteq> snd ` set (ih_processes my)"
    "list_all2 (\<lambda>x us. carries (trimmed x) us) (of_protocol my ICMP xs) ass"
    "list_all2 (\<lambda>x us. carries (trimmed x) us) (of_protocol my UDP xs) bss"
    "list_all2 (\<lambda>x us. carries (trimmed x) us) (of_protocol my TCP xs) css"
    "ih_idle (schedule (ps @ qs) s')" "ih_route (schedule (ps @ qs) s') = ih_route (schedule ps s')"
    "ih_ipv6 (schedule (ps @ qs) s') = ih_ipv6 (schedule ps s')"
    "dip_ICMP (ih_ipv4 (schedule (ps @ qs) s')) = dip_ICMP (ih_ipv4 s) @ concat ass"
    "dip_TCP (ih_ipv4 (schedule (ps @ qs) s')) = dip_TCP (ih_ipv4 s) @ concat css"
    "snd (ih_duplicate (schedule (ps @ qs) s')) = (fst (snd (ih_duplicate s)) @ concat bss, snd (snd (ih_duplicate s)) @ concat bss)"
    unfolding Let_def f(7,8) schedule_append by blast
  have v4: "list_all2 (\<lambda>f us. carries (trimmed (fr_arrival f)) us) (filter (datagram_for my p) fs) yss"
    if "list_all2 (\<lambda>x us. carries (trimmed x) us) (of_protocol my p xs) yss" for p yss
  proof -
    have "map fst (filter (\<lambda>z. accepted my (fr_arrival (fst z)) \<and> ip_protocol (fr_arrival (fst z)) = p) (zip (of_type IPv4 fs) uss)) =
        filter (\<lambda>f. accepted my (fr_arrival f) \<and> ip_protocol (fr_arrival f) = p) (map fst (zip (of_type IPv4 fs) uss))"
      by (simp add: filter_map comp_def)
    also have "\<dots> = filter (datagram_for my p) fs" using l by (auto simp: datagram_for_def IPv4_def intro: filter_cong)
    finally have e: "filter (datagram_for my p) fs =
      map fst (filter (\<lambda>z. accepted my (fr_arrival (fst z)) \<and> ip_protocol (fr_arrival (fst z)) = p) (zip (of_type IPv4 fs) uss))" ..
    show ?thesis using that unfolding e xs_def filter_map comp_def list_all2_map1 fr_datagram_same .
  qed
  have v6: "list_all2 (\<lambda>f us. carries (fr_bytes f) us) (filter (\<lambda>f. fr_type f = 0x86DD \<and> fr_nextHeader f = p) fs)
      (map snd (filter (\<lambda>z. fr_nextHeader (fst z) = p) zs))" for p
  proof -
    have "filter (\<lambda>f. fr_type f = 0x86DD \<and> fr_nextHeader f = p) fs = filter (\<lambda>f. fr_nextHeader f = p) (of_type IPv6 fs)"
      by (auto simp: IPv6_def intro: filter_cong)
    also have "\<dots> = map fst (filter (\<lambda>z. fr_nextHeader (fst z) = p) zs)" unfolding f(3) [symmetric] by (simp add: filter_map comp_def)
    finally show ?thesis using f(4) by (simp add: list_all2_map1 list_all2_map2 list_all2_same)
  qed
  have arp: "list_all2 (\<lambda>f us. carries (header_bytes (fr_eth f) @ fr_bytes f) us) (of_type 0x0806 fs) (map fr_words (of_type 0x0806 fs))"
    using ok by (simp add: list_all2_map2 list_all2_same frame_ok_def)
  let ?N = "sum_list (map snd (ps @ qs))"
  have ok': "ih_ok s'" using s by (simp add: s'_def ih_idle_def ih_ok_def)
  have run: "(ip_handler_core my ^^ k) s' = schedule (ps @ qs) s'" if "?N \<le> k" for k
    unfolding ih_region
    by (rule ih.lockstep [OF ok' _ HOL.refl ih_idle_quiet [OF g(5)] that]) (use f(1) g(1) in auto)
  have m: "meant_for my Arp_port = (\<lambda>f. fr_type f = 0x0806)" "meant_for my Icmp_port = datagram_for my 1"
    "meant_for my Udp_port = datagram_for my 17" "meant_for my Roce_port = datagram_for my 17" "meant_for my Tcp_port = datagram_for my 6"
    "meant_for my Icmpv6_port = (\<lambda>f. fr_type f = 0x86DD \<and> fr_nextHeader f = 58)"
    "meant_for my Ipv6udp_port = (\<lambda>f. fr_type f = 0x86DD \<and> fr_nextHeader f = 17)" by (rule ext, simp)+
  let ?v6 = "\<lambda>p. map snd (filter (\<lambda>z. fr_nextHeader (fst z) = p) zs)"
  have "\<exists>wss. list_all2 (\<lambda>f us. carries (delivered p f) us) (filter (meant_for my p) fs) wss \<and>
      stream_at p (schedule (ps @ qs) s') = stream_at p s @ concat wss" for p
  proof (cases p)
    case Arp_port
    then show ?thesis using arp f(9) g(6)
      by (intro exI [of _ "map fr_words (of_type 0x0806 fs)"]) (simp add: m delivered_def ARP_def del: meant_for.simps)
  next
    case Icmpv6_port
    then show ?thesis using v6 [of 58] f(10) g(7)
      by (intro exI [of _ "?v6 58"]) (simp add: m delivered_def ICMPv6_def del: meant_for.simps)
  next
    case Ipv6udp_port
    then show ?thesis using v6 [of 17] f(11) g(7)
      by (intro exI [of _ "?v6 17"]) (simp add: m delivered_def UDP_def del: meant_for.simps)
  next
    case Icmp_port
    then show ?thesis using v4 [OF g(2)] g(8)
      by (intro exI [of _ ass]) (simp add: m delivered_def ICMP_def del: meant_for.simps)
  next
    case Udp_port
    then show ?thesis using v4 [OF g(3)] g(10)
      by (intro exI [of _ bss]) (simp add: m delivered_def UDP_def del: meant_for.simps)
  next
    case Roce_port
    then show ?thesis using v4 [OF g(3)] g(10)
      by (intro exI [of _ bss]) (simp add: m delivered_def UDP_def del: meant_for.simps)
  next
    case Tcp_port
    then show ?thesis using v4 [OF g(4)] g(9)
      by (intro exI [of _ css]) (simp add: m delivered_def TCP_def del: meant_for.simps)
  qed
  then have "\<exists>wss. list_all2 (\<lambda>f us. carries (delivered p f) us) (filter (meant_for my p) fs) wss \<and>
      (\<forall>k\<ge>?N. stream_at p ((ip_handler_core my ^^ k) s') = stream_at p s @ concat wss)" for p
    using run by metis
  with run g(5) show ?thesis by metis
qed

definition frame_arp :: frame where
  "frame_arp = \<lparr>fr_eth = 0x0608000000000000000000000000, fr_ip = 0, fr_rest = [],
     fr_words = [\<lparr>na_data = 0x0608000000000000000000000000, na_keep = 0x3FFFFFFFF, na_last = True\<rparr>]\<rparr>"

definition frame_tcp :: frame where
  "frame_tcp = \<lparr>fr_eth = 0x0008000000000000000000000000, fr_ip = 0x0100000A00000000000006000000000015000045, fr_rest = [0x11],
     fr_words = [\<lparr>na_data = 0x110100000A000000000000060000000000150000450008000000000000000000000000, na_keep = 0x7FFFFFFFF, na_last = True\<rparr>]\<rparr>"

definition ih_reset :: ih_st where
  "ih_reset = (let w = \<lparr>na_data = 0, na_keep = 0, na_last = False\<rparr>; h = ipv4Header_init 0;
       rs = \<lparr>rs_fsmState = PKG, rs_firstWord = True, rs_prevWord = w, rs_input = [], rs_output = []\<rparr> in
     \<lparr>ih_detect = \<lparr>dep_header = har_header 0 0, dep_metaWritten = False, dep_in = [], dep_etherType = [], dep_out = []\<rparr>,
      ih_route = \<lparr>rep_fsmState = 0, rep_etherType = 0, rep_etherTypeIn = [], rep_in = [], rep_ARP = [], rep_IP = [], rep_IPv6 = []\<rparr>,
      ih_shift4 = rs, ih_shift6 = rs,
      ih_meta = \<lparr>eim_header = h, eim_metaWritten = False, eim_in = [], eim_out = [], eim_ipv4Protocol = [], eim_validIpAddress = []\<rparr>,
      ih_compute = \<lparr>c5_ip_sums = replicate 32 0, c5_ipHeaderLen = 0, c5_firstWord = True, c5_dataIn = [], c5_dataOut = [], c5_subSumFiFoOut = []\<rparr>,
      ih_check = ([], []),
      ih_drop = \<lparr>iid_state = GET_VALID, iid_in = [], iid_validChecksum = [], iid_validIpAddress = [], iid_out = [], iid_ipv4Valid = []\<rparr>,
      ih_cut = \<lparr>cl_state = CL_FIRST, cl_in = [], cl_out = []\<rparr>,
      ih_ipv4 = \<lparr>dip_state = DIP_META, dip_ipProtocol = 0, dip_ipv4Protocol = [], dip_ipv4Valid = [], dip_in = [], dip_ICMP = [], dip_UDP = [], dip_TCP = []\<rparr>,
      ih_ipv6 = \<lparr>div6_state = 0, div6_nextHeader = 0, div6_in = [], div6_ICMPv6 = [], div6_UDP = []\<rparr>,
      ih_duplicate = ([], [], [])\<rparr>)"

lemma ih_reset_idle: "ih_idle ih_reset"
  by (simp add: ih_idle_def ih_ok_def ih_reset_def Let_def dep_idle_def rs_idle_def eim_idle_def har_header_def
      setEthertype_def setSrcAddress_def setDstAddress_def ipv4Header_init_def)

lemma frames_ex:
  "frame_ok frame_arp" "frame_ok frame_tcp" "lengths_ok (fr_arrival frame_tcp)" "fr_type frame_arp = 0x0806" "fr_type frame_tcp = 0x0800"
proof -
  have "fr_words frame_arp = [hd (fr_words frame_arp)]" "na_last (hd (fr_words frame_arp))"
    "cells (hd (fr_words frame_arp)) = map Some (header_bytes (fr_eth frame_arp) @ fr_bytes frame_arp) @ replicate 30 None"
    "fr_words frame_tcp = [hd (fr_words frame_tcp)]" "na_last (hd (fr_words frame_tcp))"
    "cells (hd (fr_words frame_tcp)) = map Some (header_bytes (fr_eth frame_tcp) @ fr_bytes frame_tcp) @ replicate 29 None" by code_simp+
  then show "frame_ok frame_arp" "frame_ok frame_tcp"
    using carries_single [of "header_bytes (fr_eth frame_arp) @ fr_bytes frame_arp" "hd (fr_words frame_arp)"]
      carries_single [of "header_bytes (fr_eth frame_tcp) @ fr_bytes frame_tcp" "hd (fr_words frame_tcp)"] by (auto simp: frame_ok_def)
  show "lengths_ok (fr_arrival frame_tcp)" by code_simp
  show "fr_type frame_arp = 0x0806" "fr_type frame_tcp = 0x0800" by code_simp+
qed

theorem ip_handler_delivers_witness:
  "\<exists>N us. carries (header_bytes (fr_eth frame_arp) @ fr_bytes frame_arp) us \<and>
    stream_at Arp_port ((ip_handler_core 5 ^^ N) (ih_reset\<lparr>ih_detect := (ih_detect ih_reset)\<lparr>dep_in :=
      fr_words frame_tcp @ fr_words frame_arp\<rparr>\<rparr>)) = us"
proof -
  have "\<forall>f\<in>set [frame_tcp, frame_arp]. frame_ok f \<and> (fr_type f = 0x0800 \<longrightarrow> lengths_ok (fr_arrival f))"
    using frames_ex by simp
  from ip_handler_delivers [OF ih_reset_idle this, of 5] obtain N wss where
    "list_all2 (\<lambda>f us. carries (delivered Arp_port f) us) (filter (meant_for 5 Arp_port) [frame_tcp, frame_arp]) wss"
    "\<forall>k\<ge>N. stream_at Arp_port ((ip_handler_core 5 ^^ k) (ih_reset\<lparr>ih_detect := (ih_detect ih_reset)\<lparr>dep_in :=
      concat (map fr_words [frame_tcp, frame_arp])\<rparr>\<rparr>)) = stream_at Arp_port ih_reset @ concat wss" by blast
  moreover have "stream_at Arp_port ih_reset = []" by (simp add: ih_reset_def Let_def)
  ultimately show ?thesis using frames_ex(4,5) by (intro exI [of _ N]) (auto simp: list_all2_Cons1 delivered_def)
qed

end
