(* ===== verification/Wire.thy ===== *)
theory Wire
  imports Ip_Delivery
begin

text \<open>
  \<open>ethernet_frame_padding.cpp\<close>, and the way of a datagram from one stack to another:
  \<open>mac_ip_encode\<close>, the padding, the wire, \<open>ip_handler\<close>.
\<close>

section \<open>Padding\<close>

record 'a efp_st =
  efp_state :: "1 word"
  efp_in :: "'a fifo"
  efp_out :: "'a fifo"

definition pad_byte :: "nat \<Rightarrow> ('w::len, 'k::len) axis \<Rightarrow> ('w, 'k) axis" where
  "pad_byte i w =
     (if \<not> bit (na_keep w) i
      then w\<lparr>na_keep := put_bits i i (1 :: 1 word) (na_keep w), na_data := put_bits (i * 8 + 7) (i * 8) (0 :: u8) (na_data w)\<rparr>
      else w)"

definition pad_word :: "('w::len, 'k::len) axis \<Rightarrow> ('w, 'k) axis" where
  "pad_word w = fold pad_byte [0..<LENGTH('k)] w"

definition ethernet_frame_padding :: "('w::len, 'k::len) axis efp_st \<Rightarrow> ('w, 'k) axis efp_st" where
  "ethernet_frame_padding s =
     (case efp_in s of
        w # rest \<Rightarrow>
          if efp_state s = 0
          then s\<lparr>efp_in := rest, efp_out := efp_out s @ [if na_last w then pad_word w else w],
                 efp_state := (if na_last w then 0 else 1)\<rparr>
          else s\<lparr>efp_in := rest, efp_out := efp_out s @ [w], efp_state := (if na_last w then 0 else 1)\<rparr>
      | [] \<Rightarrow> s)"

text \<open>The bytes of a frame on the wire: frames shorter than 64 bytes are filled with zeros.\<close>

definition padded :: "u8 list \<Rightarrow> u8 list" where
  "padded bs = bs @ replicate (64 - length bs) 0"

lemma cells_pad_byte:
  fixes w :: word512
  assumes "i < 64"
  shows "cells (pad_byte i w) = (cells w)[i := Some (case cells w ! i of Some b \<Rightarrow> b | None \<Rightarrow> 0)]" "na_last (pad_byte i w) = na_last w"
proof -
  show "cells (pad_byte i w) = (cells w)[i := Some (case cells w ! i of Some b \<Rightarrow> b | None \<Rightarrow> 0)]"
  proof (cases "bit (na_keep w) i")
    case True
    then show ?thesis using assms by (auto simp: pad_byte_def nth_cells intro!: nth_equalityI simp: nth_list_update)
  next
    case False
    have keep: "bit (put_bits i i (1 :: 1 word) (na_keep w)) j \<longleftrightarrow> j = i \<or> bit (na_keep w) j" if "j < 64" for j
      using that by (auto simp: bit_put_bits)
    have byte: "byte j (put_bits (i * 8 + 7) (i * 8) (0 :: u8) (na_data w)) = (if j = i then 0 else byte j (na_data w))" if "j < 64" for j
      by (rule bit_word_eqI) (use that assms in \<open>auto simp: bit_byte bit_put_bits\<close>)
    show ?thesis
    proof (rule nth_equalityI)
      fix j assume "j < length (cells (pad_byte i w))"
      then have "j < 64" by simp
      with False assms show "cells (pad_byte i w) ! j = (cells w)[i := Some (case cells w ! i of Some b \<Rightarrow> b | None \<Rightarrow> 0)] ! j"
        by (cases "j = i") (simp_all add: pad_byte_def nth_cells keep byte nth_list_update)
    qed simp
  qed
qed (simp add: pad_byte_def)

lemma cells_pad_word:
  fixes w :: word512
  shows "cells (pad_word w) = map (\<lambda>c. Some (case c of Some b \<Rightarrow> b | None \<Rightarrow> 0)) (cells w)" "na_last (pad_word w) = na_last w"
proof -
  have "n \<le> 64 \<Longrightarrow> cells (fold pad_byte [0..<n] w) = map (\<lambda>c. Some (case c of Some b \<Rightarrow> b | None \<Rightarrow> 0)) (take n (cells w)) @ drop n (cells w) \<and>
      na_last (fold pad_byte [0..<n] w) = na_last w" for n
  proof (induction n)
    case (Suc n)
    then have n: "n < 64" "drop n (cells w) = cells w ! n # drop (Suc n) (cells w)" by (simp_all add: Cons_nth_drop_Suc)
    let ?u = "fold pad_byte [0..<n] w" and ?f = "\<lambda>c. Some (case c of Some b \<Rightarrow> b | None \<Rightarrow> 0)"
    from Suc n have u: "cells ?u = map ?f (take n (cells w)) @ cells w ! n # drop (Suc n) (cells w)" "na_last ?u = na_last w" by simp_all
    then have "cells (pad_byte n ?u) = map ?f (take n (cells w)) @ ?f (cells w ! n) # drop (Suc n) (cells w)"
      using n(1) by (simp add: cells_pad_byte nth_append list_update_append)
    then show ?case using u(2) n(1) by (simp add: cells_pad_byte(2) take_Suc_conv_app_nth)
  qed simp
  from this [of 64] show "cells (pad_word w) = map (\<lambda>c. Some (case c of Some b \<Rightarrow> b | None \<Rightarrow> 0)) (cells w)" "na_last (pad_word w) = na_last w"
    by (simp_all add: pad_word_def)
qed

lemma carries_pad:
  fixes w :: word512
  assumes "carries bs [w]"
  shows "carries (padded bs) [pad_word w]"
proof -
  from assms obtain k where k: "na_last w" "k < 64" "cells w = map Some bs @ replicate k None" by (auto simp: carries_single)
  from arg_cong [OF k(3), of length] have "k = 64 - length bs" by simp
  with k show ?thesis by (simp add: carries_single cells_pad_word padded_def comp_def)
qed

lemma padding_packet:
  assumes c: "carries bs ws" and s: "efp_state s = 0" "efp_in s = ws @ rest"
  shows "\<exists>us. let t = (ethernet_frame_padding ^^ length ws) s in efp_state t = 0 \<and> efp_in t = rest \<and>
    efp_out t = efp_out s @ us \<and> carries (padded bs) (us :: word512 list)"
proof -
  obtain w vs where ws: "ws = w # vs" using c by (cases ws) (auto simp: carries_def)
  show ?thesis
  proof (cases "vs = []")
    case True
    with c ws have "na_last w" by (simp add: carries_single)
    with True ws s carries_pad [of bs w] c show ?thesis
      by (intro exI [of _ "[pad_word w]"]) (simp add: ethernet_frame_padding_def)
  next
    case False
    then have l: "\<not> na_last w" "64 \<le> length bs" using c ws by (simp_all add: carries_Cons)
    define Q where "Q ys xs t \<longleftrightarrow> efp_in t = xs @ rest \<and> efp_out t = efp_out s @ ys \<and>
      efp_state t = (if ys = [] \<or> xs = [] then 0 else 1)" for ys xs :: "word512 list" and t :: "word512 efp_st"
    have "Q ws [] ((ethernet_frame_padding ^^ length ws) s)"
    proof (rule run_packet [OF carries_pkt [OF c]])
      show "Q [] ws s" using s by (simp add: Q_def)
    next
      fix ys v xs t assume e: "ws = ys @ v # xs" and last: "na_last v \<longleftrightarrow> xs = []" and q: "Q ys (v # xs) t"
      show "Q (ys @ [v]) xs (ethernet_frame_padding t)"
        using q last e ws l(1) by (cases ys) (auto simp: Q_def ethernet_frame_padding_def)
    qed
    then show ?thesis using l(2) c by (intro exI [of _ ws]) (simp add: Q_def Let_def padded_def)
  qed
qed

lemma run_padding:
  fixes s :: "word512 efp_st" and xs :: "(u8 list \<times> word512 list) list"
  assumes "\<forall>x\<in>set xs. carries (fst x) (snd x)" "efp_state s = 0" "efp_in s = concat (map snd xs)"
  shows "\<exists>n uss. let t = (ethernet_frame_padding ^^ n) s in efp_state t = 0 \<and> efp_in t = [] \<and> efp_out t = efp_out s @ concat uss \<and>
    list_all2 (\<lambda>x us. carries (padded (fst x)) us) xs uss"
proof -
  let ?F = "ethernet_frame_padding"
  define A where "A xs t \<longleftrightarrow> (\<forall>x\<in>set xs. carries (fst x) (snd x)) \<and> efp_state t = 0 \<and> efp_in t = concat (map snd xs)"
    for xs :: "(u8 list \<times> word512 list) list" and t :: "word512 efp_st"
  have "\<exists>n us. A xs ((?F ^^ n) t) \<and> efp_out ((?F ^^ n) t) = efp_out t @ us \<and> [] = [] @ [] \<and> carries (padded (fst x)) us"
    if a: "A (x # xs) t" for x xs t
    using padding_packet [of "fst x" "snd x" t "concat (map snd xs)"] a by (auto simp: A_def Let_def)
  moreover have "A xs s" using assms by (simp add: A_def)
  ultimately have "\<exists>n uss. A [] ((?F ^^ n) s) \<and> efp_out ((?F ^^ n) s) = efp_out s @ concat uss \<and>
      [] = [] @ concat (map (\<lambda>_. []) xs) \<and> list_all2 (\<lambda>x us. carries (padded (fst x)) us) xs uss"
    by (rule run_relation [where A = A and log = "\<lambda>_. []"])
  then show ?thesis by (auto simp: A_def Let_def)
qed

section \<open>From one stack to another\<close>

text \<open>The header that is sent: the checksum put in.\<close>

definition sent_header :: "arrival \<Rightarrow> 160 word" where
  "sent_header x = put_bits 95 80 (reverse16 (ip_checksum x)) (fst x)"

lemma stamped_header: "stamped x = header_bytes (sent_header x) @ fst (snd x)"
proof -
  have "put_checksum (ip_checksum x) (header_bytes (fst x)) = header_bytes (sent_header x)"
  proof (rule nth_equalityI)
    fix i assume "i < length (put_checksum (ip_checksum x) (header_bytes (fst x)))"
    then have i: "i < 20" by simp
    have "byte i (sent_header x) = (if i = 10 then bits 15 8 (ip_checksum x) else if i = 11 then bits 7 0 (ip_checksum x) else byte i (fst x))"
      by (rule bit_word_eqI) (use i in \<open>auto simp: sent_header_def bit_byte bit_put_bits bit_reverse16 bit_bits add.commute\<close>)
    with i show "put_checksum (ip_checksum x) (header_bytes (fst x)) ! i = header_bytes (sent_header x) ! i"
      by (simp add: put_checksum_def header_bytes_def nth_list_update)
  qed (simp add: put_checksum_def)
  moreover have "put_checksum c (header_bytes h @ bs) = put_checksum c (header_bytes h) @ bs" for c and h :: "160 word" and bs
    by (simp add: put_checksum_def list_update_append)
  ultimately show ?thesis by (simp add: stamped_def ip_bytes_def)
qed

lemma sent_header_fields:
  "bits 3 0 (sent_header x) = (bits 3 0 (fst x) :: u4)" "bits 31 16 (sent_header x) = (bits 31 16 (fst x) :: u16)"
  "bits 79 72 (sent_header x) = (bits 79 72 (fst x) :: u8)" "bits 159 128 (sent_header x) = (bits 159 128 (fst x) :: u32)"
  by (simp_all add: sent_header_def bits_put_bits_other)

text \<open>A datagram with the answer of the ARP server, and the frame it becomes on the wire.\<close>

definition wire_frame :: "u48 \<Rightarrow> (arrival \<times> arpTableReply) \<times> word512 list \<Rightarrow> frame" where
  "wire_frame mac z = (case z of ((x, r), ws) \<Rightarrow>
     \<lparr>fr_eth = ph_header (har_header (atr_macAddress r) mac), fr_ip = sent_header x,
      fr_rest = fst (snd x) @ replicate (50 - length (stamped x)) 0, fr_words = ws\<rparr>)"

lemma wire_frame_bytes:
  "header_bytes (fr_eth (wire_frame mac ((x, r), ws))) @ fr_bytes (wire_frame mac ((x, r), ws)) =
    padded (eth_bytes (atr_macAddress r) mac @ stamped x)"
  by (simp add: wire_frame_def fr_bytes_def padded_def stamped_header header_bytes_har eth_bytes_def)

lemma wire_frame_type: "fr_type (wire_frame mac z) = 0x0800"
  by (cases z) (auto simp: wire_frame_def fr_type_def har_header_def setEthertype_def bits_put_bits)

lemma wire_frame_arrival:
  fixes x :: arrival and mac r ws
  assumes "sendable x" "ip_total x = length (ip_bytes x)"
  defines "a \<equiv> fr_arrival (wire_frame mac ((x, r), ws))"
  shows "ip_header_length a = ip_header_length x" "ip_total a = ip_total x" "ip_protocol a = ip_protocol x"
    "accepted my a \<longleftrightarrow> for_us my x" "lengths_ok a" "trimmed a = stamped x"
proof -
  have b: "ip_bytes a = stamped x @ replicate (50 - length (stamped x)) 0"
    by (simp add: a_def fr_arrival_def fr_bytes_def wire_frame_def stamped_header)
  have l: "length (stamped x) = length (ip_bytes x)" by (simp add: stamped_def)
  show h: "ip_header_length a = ip_header_length x" and t: "ip_total a = ip_total x" and "ip_protocol a = ip_protocol x"
    by (simp_all add: a_def fr_arrival_def wire_frame_def ip_header_length_def ip_total_def ip_protocol_def sent_header_fields)
  have "ip_destination a = ip_destination x"
    by (simp add: a_def fr_arrival_def wire_frame_def ip_destination_def sent_header_fields)
  moreover have "header_sum False a = 0"
    using stamped_valid [OF assms(1)] assms(1) l by (simp add: header_sum_def h b sendable_def)
  ultimately show "accepted my a \<longleftrightarrow> for_us my x" by (simp add: accepted_def for_us_def)
  show "lengths_ok a" using assms(1,2) l by (simp add: lengths_ok_def h t b sendable_def)
  show "trimmed a = stamped x"
  proof (cases "length (stamped x) \<le> 50")
    case True
    then show ?thesis using assms(2) l by (simp add: trimmed_def t b)
  next
    case False
    then show ?thesis using assms(2) l by (simp add: trimmed_def t b)
  qed
qed

definition transport :: "port \<Rightarrow> u8 \<Rightarrow> bool" where
  "transport p proto \<longleftrightarrow> (p, proto) \<in> {(Icmp_port, 1), (Udp_port, 17), (Roce_port, 17), (Tcp_port, 6)}"

text \<open>C40: from stack to stack.  Datagrams given to \<open>mac_ip_encode\<close> of one stack whose next hop the ARP
  server knows, padded and put on the wire, arrive at the protocol streams of the stack they are
  addressed to: byte for byte as they were sent, with the header checksum filled in and without the
  padding, each on the stream of its protocol, in order, and nothing else arrives there.  All
  modules work in lockstep, from any idle states, whatever the lengths of the datagrams.\<close>

theorem wire_delivery:
  fixes xs :: "arrival list" and rs :: "arpTableReply list" and q :: "word512 efp_st"
  assumes s: "mac_idle s" and q: "efp_state q = 0" and r: "ih_idle r"
    and xs: "\<forall>x\<in>set xs. sendable x \<and> ip_total x = length (ip_bytes x)" and rs: "length rs = length xs" and p: "transport p proto"
  defines "s' \<equiv> s\<lparr>me_extract := (me_extract s)\<lparr>eia_in := concat (map ip_words xs)\<rparr>, me_arp := (me_arp s)\<lparr>har_arpTableIn := rs\<rparr>\<rparr>"
  shows "\<exists>vss wss uss N.
    (\<forall>k\<ge>N. ieh_out (me_ethernet ((mac_ip_encode_core c ^^ k) s')) = ieh_out (me_ethernet s) @ concat vss) \<and>
    (\<exists>n. efp_out ((ethernet_frame_padding ^^ n) (q\<lparr>efp_in := concat vss\<rparr>)) = efp_out q @ concat wss) \<and>
    (\<forall>k\<ge>N. stream_at p ((ip_handler_core my ^^ k) (r\<lparr>ih_detect := (ih_detect r)\<lparr>dep_in := concat wss\<rparr>\<rparr>)) =
       stream_at p r @ concat uss) \<and>
    list_all2 (\<lambda>(x, _) us. carries (stamped x) us)
      (filter (\<lambda>(x, a). atr_hit a \<and> for_us my x \<and> ip_protocol x = proto) (zip xs rs)) uss"
proof -
  let ?mac = "mc_myMacAddress c" and ?hits = "filter (atr_hit \<circ> snd) (zip xs rs)"
  have "\<forall>x\<in>set xs. sendable x" using xs by simp
  from mac_ip_encode_frames [OF s this rs, of c] obtain N vss where n: "list_all2 (\<lambda>(x, a) us. carries (eth_bytes (atr_macAddress a) ?mac @ stamped x) us \<and>
        rfc1071 (take (ip_header_length x) (stamped x)) = 0) ?hits vss"
    "\<forall>k\<ge>N. ieh_out (me_ethernet ((mac_ip_encode_core c ^^ k) s')) = ieh_out (me_ethernet s) @ concat vss"
    unfolding s'_def Let_def by blast
  have l: "length vss = length ?hits" using list_all2_lengthD [OF n(1)] by simp
  let ?e = "\<lambda>(x, a). eth_bytes (atr_macAddress a) ?mac @ stamped x"
  let ?ps = "zip (map ?e ?hits) vss"
  have "\<forall>z\<in>set ?ps. carries (fst z) (snd z)" "map snd ?ps = vss"
    using n(1) l by (auto simp: list_all2_conv_all_nth set_zip split_def)
  with run_padding [of ?ps "q\<lparr>efp_in := concat vss\<rparr>"] q obtain m wss where
    m: "efp_out ((ethernet_frame_padding ^^ m) (q\<lparr>efp_in := concat vss\<rparr>)) = efp_out q @ concat wss"
      "list_all2 (\<lambda>z us. carries (padded (fst z)) us) ?ps wss" by (auto simp: Let_def)
  have l': "length wss = length ?hits" using list_all2_lengthD [OF m(2)] l by simp
  let ?fs = "map (wire_frame ?mac) (zip ?hits wss)"
  have words: "map fr_words ?fs = wss" using l' by (auto intro!: nth_equalityI simp: wire_frame_def split_def)
  have hit: "x \<in> set xs" if "((x, a), ws) \<in> set (zip ?hits wss)" for x a ws
    using set_zip_leftD [OF that] set_zip_leftD [of x a xs rs] by auto
  have ok: "\<forall>f\<in>set ?fs. frame_ok f \<and> (fr_type f = 0x0800 \<longrightarrow> lengths_ok (fr_arrival f))"
  proof
    fix f assume "f \<in> set ?fs"
    then obtain x a ws where f: "f = wire_frame ?mac ((x, a), ws)" "((x, a), ws) \<in> set (zip ?hits wss)" by auto
    from f(2) obtain i where i: "i < length ?hits" "?hits ! i = (x, a)" "wss ! i = ws" by (auto simp: in_set_zip)
    from list_all2_nthD [OF m(2), of i] i l have "carries (padded (?e (x, a))) ws" by simp
    then have "frame_ok f" unfolding frame_ok_def f(1) wire_frame_bytes by (simp add: wire_frame_def)
    moreover from hit [OF f(2)] xs have "sendable x" "ip_total x = length (ip_bytes x)" by auto
    from wire_frame_arrival(5) [OF this] have "lengths_ok (fr_arrival f)" unfolding f(1) .
    ultimately show "frame_ok f \<and> (fr_type f = 0x0800 \<longrightarrow> lengths_ok (fr_arrival f))" by simp
  qed
  from ip_handler_delivers [OF r ok, of my] obtain K uss where k:
    "list_all2 (\<lambda>f us. carries (delivered p f) us) (filter (meant_for my p) ?fs) uss"
    "\<forall>k\<ge>K. stream_at p ((ip_handler_core my ^^ k) (r\<lparr>ih_detect := (ih_detect r)\<lparr>dep_in := concat wss\<rparr>\<rparr>)) = stream_at p r @ concat uss"
    unfolding words by blast
  have meant: "meant_for my p (wire_frame ?mac ((x, a), ws)) \<longleftrightarrow> for_us my x \<and> ip_protocol x = proto"
    "delivered p (wire_frame ?mac ((x, a), ws)) = stamped x" if "((x, a), ws) \<in> set (zip ?hits wss)" for x a ws
    using p hit [OF that] xs wire_frame_arrival [where mac = ?mac and x = x and r = a and ws = ws]
    by (auto simp: transport_def datagram_for_def wire_frame_type delivered_def)
  have meant': "(meant_for my p \<circ> wire_frame ?mac) z = (for_us my (fst (fst z)) \<and> ip_protocol (fst (fst z)) = proto)"
    "delivered p (wire_frame ?mac z) = stamped (fst (fst z))" if "z \<in> set (zip ?hits wss)" for z
    using meant [of "fst (fst z)" "snd (fst z)" "snd z"] that by (simp_all only: prod.collapse comp_def)
  have "filter (meant_for my p) ?fs = map (wire_frame ?mac) (filter (\<lambda>z. for_us my (fst (fst z)) \<and> ip_protocol (fst (fst z)) = proto) (zip ?hits wss))"
    unfolding filter_map by (rule arg_cong [OF filter_cong [OF HOL.refl meant'(1)]])
  with k(1) have "list_all2 (\<lambda>z us. carries (delivered p (wire_frame ?mac z)) us)
      (filter (\<lambda>z. for_us my (fst (fst z)) \<and> ip_protocol (fst (fst z)) = proto) (zip ?hits wss)) uss"
    by (simp add: list_all2_map1)
  then have L: "list_all2 (\<lambda>z us. carries (stamped (fst (fst z))) us)
      (filter (\<lambda>z. for_us my (fst (fst z)) \<and> ip_protocol (fst (fst z)) = proto) (zip ?hits wss)) uss"
    by (rule list.rel_mono_strong) (use meant'(2) in auto)
  have E: "map fst (filter (\<lambda>z. for_us my (fst (fst z)) \<and> ip_protocol (fst (fst z)) = proto) (zip ?hits wss)) =
      filter (\<lambda>(x, a). atr_hit a \<and> for_us my x \<and> ip_protocol x = proto) (zip xs rs)"
  proof -
    have "map fst (filter (\<lambda>z. for_us my (fst (fst z)) \<and> ip_protocol (fst (fst z)) = proto) (zip ?hits wss)) =
        filter (\<lambda>y. for_us my (fst y) \<and> ip_protocol (fst y) = proto) (map fst (zip ?hits wss))"
      by (simp add: filter_map comp_def)
    also have "\<dots> = filter (\<lambda>(x, a). atr_hit a \<and> for_us my x \<and> ip_protocol x = proto) (zip xs rs)"
      using l' by (auto intro: filter_cong)
    finally show ?thesis .
  qed
  have u: "list_all2 (\<lambda>(x, _) us. carries (stamped x) us)
      (filter (\<lambda>(x, a). atr_hit a \<and> for_us my x \<and> ip_protocol x = proto) (zip xs rs)) uss"
    unfolding E [symmetric] list_all2_map1 using L by (simp add: split_def)
  show ?thesis
    by (intro exI [of _ vss] exI [of _ wss] exI [of _ uss] exI [of _ "max N K"] conjI u exI [of _ m] m(1)) (use n(2) k(2) in auto)
qed

definition datagram_wire :: arrival where
  "datagram_wire = (0x0100000A00000000000006000000000015000045, [0x11],
     [\<lparr>na_data = 0x110100000A00000000000006000000000015000045, na_keep = 0x1FFFFF, na_last = True\<rparr>])"

lemma datagram_wire_ok: "sendable datagram_wire" "ip_total datagram_wire = length (ip_bytes datagram_wire)"
  "for_us 0x0100000A datagram_wire" "ip_protocol datagram_wire = 6"
proof -
  have "cells (hd (ip_words datagram_wire)) = map Some (ip_bytes datagram_wire) @ replicate 43 None"
    "ip_words datagram_wire = [hd (ip_words datagram_wire)]" "na_last (hd (ip_words datagram_wire))" by code_simp+
  then have "carries (ip_bytes datagram_wire) (ip_words datagram_wire)"
    using carries_single [of "ip_bytes datagram_wire" "hd (ip_words datagram_wire)"] by auto
  moreover have "ip_header_length datagram_wire = 20" "length (ip_bytes datagram_wire) = 21" by code_simp+
  ultimately show "sendable datagram_wire" by (simp add: sendable_def)
  show "ip_total datagram_wire = length (ip_bytes datagram_wire)" by code_simp
  show "for_us 0x0100000A datagram_wire" "ip_protocol datagram_wire = 6" by code_simp+
qed

theorem wire_delivery_witness:
  defines "c \<equiv> \<lparr>mc_myMacAddress = 0xE59D02350A00, mc_regSubNetMask = 0x00FFFFFF, mc_regDefaultGateway = 0x01D4010B, mc_word = 0\<rparr>"
  shows "\<exists>ws us N. carries (stamped datagram_wire) us \<and>
    (\<exists>n. efp_out ((ethernet_frame_padding ^^ n) \<lparr>efp_state = 0,
       efp_in = ieh_out (me_ethernet ((mac_ip_encode_core c ^^ N) (mac_reset\<lparr>
         me_extract := (me_extract mac_reset)\<lparr>eia_in := ip_words datagram_wire\<rparr>,
         me_arp := (me_arp mac_reset)\<lparr>har_arpTableIn := [\<lparr>atr_macAddress = 0x112233445566, atr_hit = True\<rparr>]\<rparr>\<rparr>))), efp_out = []\<rparr>) = ws) \<and>
    stream_at Tcp_port ((ip_handler_core 0x0100000A ^^ N) (ih_reset\<lparr>ih_detect := (ih_detect ih_reset)\<lparr>dep_in := ws\<rparr>\<rparr>)) = us"
proof -
  have i: "mac_idle mac_reset" "ieh_out (me_ethernet mac_reset) = []" "stream_at Tcp_port ih_reset = []"
    by (simp_all add: mac_idle_def mac_ok_def mac_reset_def eia_idle_def ls_idle_def ipv4Header_init_def ih_reset_def Let_def)
  let ?q = "\<lparr>efp_state = 0, efp_in = [], efp_out = []\<rparr> :: word512 efp_st"
  have t: "transport Tcp_port 6" by (simp add: transport_def)
  let ?r = "\<lparr>atr_macAddress = 0x112233445566, atr_hit = True\<rparr>"
  have h: "efp_state ?q = 0" "\<forall>x\<in>set [datagram_wire]. sendable x \<and> ip_total x = length (ip_bytes x)" "length [?r] = length [datagram_wire]"
    using datagram_wire_ok by simp_all
  from wire_delivery [OF i(1) h(1) ih_reset_idle h(2,3) t, of c "0x0100000A"] obtain vss wss uss N n where
    w: "\<forall>k\<ge>N. ieh_out (me_ethernet ((mac_ip_encode_core c ^^ k) (mac_reset\<lparr>
         me_extract := (me_extract mac_reset)\<lparr>eia_in := concat (map ip_words [datagram_wire])\<rparr>,
         me_arp := (me_arp mac_reset)\<lparr>har_arpTableIn := [?r]\<rparr>\<rparr>))) = ieh_out (me_ethernet mac_reset) @ concat vss"
    "efp_out ((ethernet_frame_padding ^^ n) (?q\<lparr>efp_in := concat vss\<rparr>)) = efp_out ?q @ concat wss"
    "\<forall>k\<ge>N. stream_at Tcp_port ((ip_handler_core 0x0100000A ^^ k) (ih_reset\<lparr>ih_detect := (ih_detect ih_reset)\<lparr>dep_in := concat wss\<rparr>\<rparr>)) =
       stream_at Tcp_port ih_reset @ concat uss"
    "list_all2 (\<lambda>(x, _) us. carries (stamped x) us)
      (filter (\<lambda>(x, a). atr_hit a \<and> for_us 0x0100000A x \<and> ip_protocol x = 6) (zip [datagram_wire] [?r])) uss" by blast
  from w(4) datagram_wire_ok(3,4) obtain us where us: "uss = [us]" "carries (stamped datagram_wire) us" by (auto simp: list_all2_Cons1)
  have e: "ieh_out (me_ethernet ((mac_ip_encode_core c ^^ N) (mac_reset\<lparr>
         me_extract := (me_extract mac_reset)\<lparr>eia_in := ip_words datagram_wire\<rparr>,
         me_arp := (me_arp mac_reset)\<lparr>har_arpTableIn := [?r]\<rparr>\<rparr>))) = concat vss" using w(1) i(2) by simp
  have "stream_at Tcp_port ((ip_handler_core 0x0100000A ^^ N) (ih_reset\<lparr>ih_detect := (ih_detect ih_reset)\<lparr>dep_in := concat wss\<rparr>\<rparr>)) = us"
    using w(3) i(3) us(1) by (simp del: stream_at.simps)
  then show ?thesis
    unfolding e [symmetric] by (intro exI [of _ "concat wss"] exI [of _ us] exI [of _ N] conjI us(2) exI [of _ n]) (use w(2) e in simp_all)
qed

end
