(* ===== verification/Spec2Isabelle.thy ===== *)
theory Spec2Isabelle
  imports Prelude Toe_Internals State_Table Sar_Tables Port_Table Session_Lookup Hash_Table
    Scanner Timers Event_Engine Tx_App Axi_Utils Axi_Pkg
    Pkg_Pusher Rx_App Multi_Queue Checksum
    Rx_Engine Rx_Fsm Tx_Engine
    Dataflow Packet Ipv4 Mac_Ip_Encode Mac_Frames Ip_Handler Ip_Delivery Wire
begin

text \<open>
  A verification development for the FPGA network stack in \<open>src/hls\<close>, written in Vitis HLS C++: a TCP
  offload engine (\<open>toe\<close>), the IP and Ethernet modules around it, and a RoCE v2 transport
  (\<open>ib_transport_protocol\<close>) and further protocols, of which little is modelled.

  \<^bold>\<open>How the code is modelled.\<close>  Every HLS process is one C++ function that is called once per
  clock cycle; its \<open>static\<close> variables are its state and \<open>hls::stream\<close> FIFOs are its only
  connection to the other processes.  A component is a record (static variables and streams)
  and one HOL function per C++ function; one application is one cycle.  \<open>Prelude\<close> explains
  streams, bit ranges and arrays.  An array access out of bounds makes the cycle \<open>None\<close>, so
  each theorem that a cycle is \<open>Some\<close> is a theorem of memory safety.  \<open>full()\<close> is an input
  of the cycle, because FIFO depths are decided by the tool; nothing is assumed of it unless a
  theorem says so.  The environment of a component (\<open>\<dots>_env\<close>) may append to its input
  streams and read from its output streams between cycles, in any order.

  \<^bold>\<open>Theories.\<close>
  \<^item> \<open>Prelude\<close>: words, bit ranges, arrays, streams, \<open>stream_merger\<close>, the locale \<open>clocked\<close>
    (invariant, memory safety and reachability of a component).
  \<^item> \<open>Toe_Internals\<close>: the messages and table entries of \<open>toe.hpp\<close> and \<open>toe_internals.hpp\<close>.
  \<^item> \<open>State_Table\<close>: \<open>state_table.cpp\<close>, the connection states with the locks of the
    receive engine and of the TX application interface.  Mutual exclusion, atomic
    read-modify-write, release of session IDs, absence of deadlock between the clients (fairness is
    not claimed: the code has none).
  \<^item> \<open>Sar_Tables\<close>: \<open>rx_sar_table.cpp\<close> and \<open>tx_sar_table.cpp\<close>, segmentation and
    reassembly state.  Advertised and usable windows.
  \<^item> \<open>Port_Table\<close>: \<open>port_table.cpp\<close>, listening ports and the pool of ephemeral ports.
  \<^item> \<open>Session_Lookup\<close>: \<open>session_lookup_controller.cpp\<close>, the map from four-tuples to
    session IDs.  The forward table is \<open>hash_table.cpp\<close>; for the controller it is a map in the
    environment's state that answers its requests, and an insert that fails may lose an entry of it.
  \<^item> \<open>Hash_Table\<close>: \<open>hash_table.cpp\<close>, cuckoo hashing, and the proof that it implements that map: the
    relation \<open>table_insert\<close> is what \<open>Session_Lookup\<close> assumes and what \<open>Hash_Table\<close> shows of an insert.
  \<^item> \<open>Scanner\<close>: the sweep over a per-session table that all timers share, as locales.
  \<^item> \<open>Timers\<close>: \<open>close_timer.cpp\<close>, \<open>probe_timer.cpp\<close>, \<open>retransmit_timer.cpp\<close> and the
    \<open>timerWrapper\<close> of \<open>toe.cpp\<close>.  Expiry, exactly once; back-off; clearing.  Requests to set or clear a
    timer come before the sweep: the close timer is bounded under any such traffic, the others are
    stated for runs without it.
  \<^item> \<open>Event_Engine\<close>: \<open>event_engine.cpp\<close> and \<open>ack_delay.cpp\<close>, the path of events to the
    transmit engine: order (but for pure acknowledgements, which are merged) and the gate.
  \<^item> \<open>Tx_App\<close>: \<open>tx_app_if.cpp\<close>, \<open>tx_app_stream_if.cpp\<close>, \<open>tx_app_interface.cpp\<close>.
    Composed with \<open>State_Table\<close> it follows the locking protocol; admitted data never overwrites
    unacknowledged data.
  \<^item> \<open>Axi_Utils\<close>, \<open>Axi_Pkg\<close>: \<open>axi_utils.hpp\<close> and \<open>axi_utils.cpp\<close>, the words of a packet
    stream, the byte shifters, and the processes that merge, split, duplicate and filter packets.
  \<^item> \<open>Pkg_Pusher\<close>: the data path of \<open>tx_app_stream_if.cpp\<close>, which writes the bytes of a
    request into the transmit ring, and the confirmations \<open>Tx_App\<close> waits for.
  \<^item> \<open>Rx_App\<close>: \<open>rx_app_if.cpp\<close>, \<open>rx_app_stream_if.cpp\<close> and \<open>rxAppWrapper\<close> of
    \<open>toe.cpp\<close> (with \<open>RX_DDR_BYPASS\<close>); composed with \<open>Sar_Tables\<close>, reads move the read pointer.
  \<^item> \<open>Multi_Queue\<close>: \<open>multi_queue.hpp\<close>, the queues of outstanding reads of the RoCE stack:
    four concurrent processes over linked lists refine a map of lists.
  \<^item> \<open>Checksum\<close>: \<open>two_complement_subchecksums.hpp\<close> and the checksum functions of \<open>ipv4\<close>,
    in all their widths, against RFC 1071 on the bytes of the packet.
  \<^item> \<open>Rx_Engine\<close>: the control part of \<open>rx_engine.cpp\<close>: option parsing, \<open>rxMetadataHandler\<close>,
    the state machine \<open>rxTcpFSM\<close> (both settings of \<open>RX_DDR_BYPASS\<close>), the packet dropper and the
    notification delayer.  Acknowledgement window, fast retransmission, drop decisions.
  \<^item> \<open>Rx_Fsm\<close>: \<open>rxTcpFSM\<close> composed with \<open>State_Table\<close> (the state of a session moves as RFC 793 allows
    and requires for the segment at hand) and with \<open>Sar_Tables\<close> (accepted segments are contiguous).
  \<^item> \<open>Tx_Engine\<close>: the control path of \<open>tx_engine.cpp\<close>: \<open>metaLoader\<close>, which turns events into segments,
    the splitting of reads at the end of the ring, and the address lookup.  What a retransmission
    sends, and what goes wrong when a FIN is part of it.
  \<^item> \<open>Dataflow\<close>: regions of concurrent processes over FIFOs.  Processes that commute make a
    region determinate: the lockstep execution of the hardware ends in the state of any other
    schedule, so a packet may be followed through one process after the other.
  \<^item> \<open>Packet\<close>: \<open>packet.hpp\<close> and \<open>ethernet.hpp\<close>, headers written into and parsed from the
    words of a packet.
  \<^item> \<open>Ipv4\<close>: \<open>ipv4.cpp\<close> and the header removal of \<open>ipv4.hpp\<close>; datagrams sent by one module and
    received by another.
  \<^item> \<open>Mac_Ip_Encode\<close>, \<open>Mac_Frames\<close>: \<open>mac_ip_encode.cpp\<close> and the frames it sends; \<open>Ip_Handler\<close>,
    \<open>Ip_Delivery\<close>: \<open>ip_handler.cpp\<close> and where it delivers the frames that arrive; \<open>Wire\<close>:
    \<open>ethernet_frame_padding.cpp\<close>, and the way of a datagram from one stack to another.

  \<^bold>\<open>Bounds.\<close>  Table lengths (\<open>MAX_SESSIONS\<close>) are parameters; hypotheses bound them where an
  identifier has fewer bits.  There is no fuel: a cycle is a total function, and a statement
  that something happens gives the number of cycles.

  \<^bold>\<open>Not modelled.\<close>  The packet paths of \<open>rx_engine\<close> and \<open>tx_engine\<close> (parsing and construction of
  the pseudo header and of the TCP header word by word, stitching of the payload, insertion of the
  checksum), \<open>ib_transport_protocol\<close> but for its queues, \<open>arp_server\<close>, \<open>ipv6\<close>, \<open>udp\<close>, \<open>icmp_server\<close>,
  \<open>dhcp_client\<close>, \<open>crc\<close>, the RTL, and test benches; the manifest lists every part with the reason.
  Pragmas are not modelled: a pipelined loop is read as the sequential program that C
  simulation runs.
\<close>

end
